(* ===== verification/Aeolos_Prelude.thy ===== *)
theory Aeolos_Prelude
  imports Main "HOL-Library.Word"
begin

text \<open>
  Shared vocabulary of the development: the machine integers of the kernel, the outcome of a
  C function (a value, or a fault that ends the kernel), the shape of the kernel's
  page-stepping \<open>for\<close> loops, and the facts about words and lists that the components share.
\<close>

unbundle bit_operations_syntax

section \<open>Machine integers\<close>

type_synonym u8 = "8 word"
type_synonym u16 = "16 word"
type_synonym u32 = "32 word"
type_synonym u64 = "64 word"

text \<open>The most processors the kernel supports.\<close>

abbreviation CPU_MAX :: nat where "CPU_MAX \<equiv> 256"

section \<open>Outcomes of kernel code\<close>

text \<open>
  A fault is everything after which the C program has no next step that the source describes:
  a null or dangling pointer is followed, an array is left, \<open>kernel_panic\<close> is called, a loop
  does not end, or the C standard leaves the outcome undefined.
\<close>

datatype fault =
    Null_Deref
  | Dangling
  | Out_Of_Bounds
  | Undefined_Behaviour
  | Diverges
  | Kernel_Panic string

type_synonym 'a result = "fault + 'a"

definition and_then :: "'a result \<Rightarrow> ('a \<Rightarrow> 'b result) \<Rightarrow> 'b result" where
  "and_then m f = (case m of Inl e \<Rightarrow> Inl e | Inr x \<Rightarrow> f x)"

definition from_option :: "fault \<Rightarrow> 'a option \<Rightarrow> 'a result" where
  "from_option e x = (case x of None \<Rightarrow> Inl e | Some y \<Rightarrow> Inr y)"

named_theorems res_simps \<open>evaluation of results\<close>

lemma and_then_simps [simp, res_simps]:
  "and_then (Inl e) f = Inl e"
  "and_then (Inr x) f = f x"
  by (simp_all add: and_then_def)

lemma from_option_simps [simp, res_simps]:
  "from_option e None = Inl e"
  "from_option e (Some y) = Inr y"
  by (simp_all add: from_option_def)

lemma and_then_eq_Inr: "and_then m f = Inr y \<longleftrightarrow> (\<exists>x. m = Inr x \<and> f x = Inr y)"
  by (cases m) simp_all

lemma and_then_InrE:
  assumes "and_then m f = Inr y"
  obtains x where "m = Inr x" and "f x = Inr y"
  using assms by (auto simp: and_then_eq_Inr)

lemma from_option_eq_Inr [simp]: "from_option e x = Inr y \<longleftrightarrow> x = Some y"
  by (cases x) simp_all

lemma and_then_cong [fundef_cong]:
  assumes "m = m'" and "\<And>x. m' = Inr x \<Longrightarrow> f x = g x"
  shows "and_then m f = and_then m' g"
  using assms by (cases m') simp_all

section \<open>Loops\<close>

text \<open>
  The kernel walks pages with \<open>for (uint64_t i = a; i < lim; i += PAGE_SIZE)\<close>. The counter is a
  64-bit word, so the loop can run past the end of the address space and never stop: it is a
  partial function, and \<open>None\<close> means that it does not return. The body either continues with
  a new state (\<open>Inl\<close>) or leaves the loop with a result (\<open>Inr\<close>).
\<close>

abbreviation PAGE_SIZE :: u64 where
  "PAGE_SIZE \<equiv> 4096"

partial_function (option) for_pages ::
  "u64 \<Rightarrow> (u64 \<Rightarrow> 's \<Rightarrow> 's + 'r) \<Rightarrow> u64 \<Rightarrow> 's \<Rightarrow> ('s + 'r) option" where
  "for_pages lim body i s =
     (if i < lim
      then (case body i s of
              Inl s' \<Rightarrow> for_pages lim body (i + PAGE_SIZE) s'
            | Inr r \<Rightarrow> Some (Inr r))
      else Some (Inl s))"

text \<open>What follows the loop: the code after it, or the result the body returned with.\<close>

definition after_loop ::
  "('s + 'a result) option \<Rightarrow> ('s \<Rightarrow> 'a result) \<Rightarrow> 'a result" where
  "after_loop l k =
     (case l of None \<Rightarrow> Inl Diverges | Some (Inl s) \<Rightarrow> k s | Some (Inr r) \<Rightarrow> r)"

lemma after_loop_simps [simp, res_simps]:
  "after_loop None k = Inl Diverges"
  "after_loop (Some (Inl s)) k = k s"
  "after_loop (Some (Inr r)) k = r"
  by (simp_all add: after_loop_def)

text \<open>A body that goes on unless it faults.\<close>

definition step_or_stop :: "('s \<Rightarrow> 's result) \<Rightarrow> 's \<Rightarrow> 's + 's result" where
  "step_or_stop f s = (case f s of Inl e \<Rightarrow> Inr (Inl e) | Inr s' \<Rightarrow> Inl s')"

lemma step_or_stop_eq_Inl [simp]: "step_or_stop f s = Inl s' \<longleftrightarrow> f s = Inr s'"
  by (simp add: step_or_stop_def split: sum.split)

lemma step_or_stop_eq_Inr [simp]: "step_or_stop f s = Inr x \<longleftrightarrow> (\<exists>e. x = Inl e \<and> f s = Inl e)"
  by (auto simp: step_or_stop_def split: sum.split)

text \<open>The reference loop: the same body run over an explicit list of indices.\<close>

primrec run_loop :: "('i \<Rightarrow> 's \<Rightarrow> 's + 'r) \<Rightarrow> 'i list \<Rightarrow> 's \<Rightarrow> 's + 'r" where
  "run_loop body [] s = Inl s"
| "run_loop body (i # is) s =
     (case body i s of Inl s' \<Rightarrow> run_loop body is s' | Inr r \<Rightarrow> Inr r)"

text \<open>A loop over a list of indices whose body can fault but does not leave the loop otherwise.\<close>

primrec for_each :: "('i \<Rightarrow> 's \<Rightarrow> 's result) \<Rightarrow> 'i list \<Rightarrow> 's \<Rightarrow> 's result" where
  "for_each f [] s = Inr s"
| "for_each f (i # is) s = and_then (f i s) (for_each f is)"

definition page_seq :: "u64 \<Rightarrow> nat \<Rightarrow> u64 list" where
  "page_seq a n = map (\<lambda>k. a + of_nat k * PAGE_SIZE) [0..<n]"

lemma page_seq_0 [simp]: "page_seq a 0 = []"
  by (simp add: page_seq_def)

lemma page_seq_Suc: "page_seq a (Suc n) = a # page_seq (a + PAGE_SIZE) n"
proof -
  have "map (\<lambda>k. a + of_nat k * PAGE_SIZE) [0..<Suc n]
      = a # map (\<lambda>k. a + of_nat (Suc k) * PAGE_SIZE) [0..<n]"
    by (simp only: map_upt_Suc) simp
  then show ?thesis
    by (simp add: page_seq_def algebra_simps)
qed

lemma run_loop_append:
  "run_loop body (xs @ ys) s =
     (case run_loop body xs s of Inl s' \<Rightarrow> run_loop body ys s' | Inr r \<Rightarrow> Inr r)"
  by (induction xs arbitrary: s) (simp_all split: sum.split)

lemma for_each_append: "for_each f (xs @ ys) s = and_then (for_each f xs s) (for_each f ys)"
  by (induction xs arbitrary: s) (auto simp: and_then_def split: sum.split)

lemma run_loop_inv:
  assumes "run_loop body xs s = Inl t" and "P s"
    and "\<And>x s s'. x \<in> set xs \<Longrightarrow> P s \<Longrightarrow> body x s = Inl s' \<Longrightarrow> P s'"
  shows "P t"
  using assms
proof (induction xs arbitrary: s)
  case (Cons x xs)
  then obtain s' where s': "body x s = Inl s'" "run_loop body xs s' = Inl t"
    by (auto split: sum.splits)
  show ?case
  proof (rule Cons.IH [OF s'(2)])
    show "P s'" using Cons.prems(2,3) s'(1) by auto
  qed (use Cons.prems(3) in auto)
qed simp

section \<open>Word arithmetic without wrap-around\<close>

lemma unat_add_lt:
  fixes a b :: "'a::len word"
  assumes "unat a + unat b < 2 ^ LENGTH('a)"
  shows "unat (a + b) = unat a + unat b"
  using assms by (simp add: unat_word_ariths)

lemma unat_mult_lt:
  fixes a b :: "'a::len word"
  assumes "unat a * unat b < 2 ^ LENGTH('a)"
  shows "unat (a * b) = unat a * unat b"
  using assms by (simp add: unat_word_ariths)

lemma unat_of_nat64 [simp]: "n < 2 ^ 64 \<Longrightarrow> unat (of_nat n :: u64) = n"
  by (simp add: unat_of_nat take_bit_eq_mod)

lemma unat_mult_page:
  assumes "unat (n :: u64) * 4096 < 2 ^ 64"
  shows "unat (n * PAGE_SIZE) = unat n * 4096"
  using assms by (simp add: unat_word_ariths)

lemma unat_page_step:
  assumes "unat (i :: u64) + 4096 < 2 ^ 64"
  shows "unat (i + PAGE_SIZE) = unat i + 4096"
  using assms by (simp add: unat_word_ariths)

text \<open>
  As long as the counter stays below \<open>2 ^ 64\<close>, the loop runs its body once for each page
  below the limit and then stops.
\<close>

lemma for_pages_run_upto:
  assumes "unat i + n * 4096 < 2 ^ 64" and "unat lim \<le> unat i + n * 4096"
    and "0 < n \<Longrightarrow> unat i + (n - 1) * 4096 < unat lim"
  shows "for_pages lim body i s = Some (run_loop body (page_seq i n) s)"
  using assms
proof (induction n arbitrary: i s)
  case 0
  then have "\<not> i < lim" by (simp add: word_less_nat_alt)
  then show ?case by (subst for_pages.simps) simp
next
  case (Suc n)
  then have less: "i < lim" by (simp add: word_less_nat_alt)
  have step: "unat (i + PAGE_SIZE) = unat i + 4096"
    using Suc.prems by (intro unat_page_step) simp
  have more: "unat i + 4096 + (n - 1) * 4096 < unat lim" if "0 < n"
    using Suc.prems(3) that by (cases n) simp_all
  have "for_pages lim body (i + PAGE_SIZE) t = Some (run_loop body (page_seq (i + PAGE_SIZE) n) t)" for t
    by (rule Suc.IH) (use Suc.prems more in \<open>simp_all add: step\<close>)
  then show ?case
    using less by (subst for_pages.simps) (simp add: page_seq_Suc split: sum.split)
qed

lemma for_pages_run:
  assumes "unat i + n * 4096 < 2 ^ 64" and "unat lim = unat i + n * 4096"
  shows "for_pages lim body i s = Some (run_loop body (page_seq i n) s)"
  by (rule for_pages_run_upto) (use assms in simp_all)

end
