(* ===== verification/Memutils.thy ===== *)
theory Memutils
  imports Aeolos_Prelude
begin

text \<open>
  \<open>kernel/lib/memutils.c\<close>: the byte and C-string routines. Memory is a function from 64-bit
  addresses to bytes. The counting loops are structural recursions on the remaining count; the
  loops that run to a NUL byte need not stop and are partial functions. The second half gives
  the 64-bit little-endian loads and stores through which the other components see memory.
\<close>

type_synonym mem = "u64 \<Rightarrow> u8"

section \<open>The routines\<close>

text \<open>\<open>memcpy(src, target, len)\<close> is \<open>rep movsb\<close>: one byte at a time, upwards.\<close>

primrec movsb :: "nat \<Rightarrow> u64 \<Rightarrow> u64 \<Rightarrow> mem \<Rightarrow> mem" where
  "movsb 0 rsi rdi m = m"
| "movsb (Suc rcx) rsi rdi m = movsb rcx (rsi + 1) (rdi + 1) (m(rdi := m rsi))"

definition memcpy :: "u64 \<Rightarrow> u64 \<Rightarrow> u64 \<Rightarrow> mem \<Rightarrow> mem" where
  "memcpy src target len m = movsb (unat len) src target m"

primrec memset_loop :: "nat \<Rightarrow> u64 \<Rightarrow> u8 \<Rightarrow> mem \<Rightarrow> mem" where
  "memset_loop 0 a v m = m"
| "memset_loop (Suc n) a v m = memset_loop n (a + 1) v (m(a := v))"

definition memset :: "u64 \<Rightarrow> u8 \<Rightarrow> u64 \<Rightarrow> mem \<Rightarrow> mem" where
  "memset addr val len m = memset_loop (unat len) addr val m"

text \<open>\<open>memcmp\<close> of the kernel answers whether the ranges are equal (unlike the C library's).\<close>

primrec memcmp_loop :: "nat \<Rightarrow> u64 \<Rightarrow> u64 \<Rightarrow> mem \<Rightarrow> bool" where
  "memcmp_loop 0 s1 s2 m = True"
| "memcmp_loop (Suc n) s1 s2 m =
     (if m s1 \<noteq> m s2 then False else memcmp_loop n (s1 + 1) (s2 + 1) m)"

definition memcmp :: "u64 \<Rightarrow> u64 \<Rightarrow> u64 \<Rightarrow> mem \<Rightarrow> bool" where
  "memcmp s1 s2 len m = memcmp_loop (unat len) s1 s2 m"

partial_function (option) strlen_loop :: "mem \<Rightarrow> u64 \<Rightarrow> u64 \<Rightarrow> u64 option" where
  "strlen_loop m str len =
     (if m (str + len) \<noteq> 0 then strlen_loop m str (len + 1) else Some len)"

definition strlen :: "mem \<Rightarrow> u64 \<Rightarrow> u64 result" where
  "strlen m str = from_option Diverges (strlen_loop m str 0)"

text \<open>\<open>char\<close> is signed on this target, so \<open>a[i] - b[i]\<close> is a difference of signed bytes.\<close>

definition char_diff :: "u8 \<Rightarrow> u8 \<Rightarrow> int" where
  "char_diff a b = sint a - sint b"

partial_function (option) strcmp_loop :: "mem \<Rightarrow> u64 \<Rightarrow> u64 \<Rightarrow> u64 \<Rightarrow> int option" where
  "strcmp_loop m a b i =
     (if m (a + i) \<noteq> m (b + i) \<or> m (a + i) = 0 \<or> m (b + i) = 0
      then Some (char_diff (m (a + i)) (m (b + i)))
      else strcmp_loop m a b (i + 1))"

definition strcmp :: "mem \<Rightarrow> u64 \<Rightarrow> u64 \<Rightarrow> int result" where
  "strcmp m a b = from_option Diverges (strcmp_loop m a b 0)"

primrec strncmp_loop :: "nat \<Rightarrow> mem \<Rightarrow> u64 \<Rightarrow> u64 \<Rightarrow> int" where
  "strncmp_loop 0 m a b = 0"
| "strncmp_loop (Suc n) m a b =
     (if m a \<noteq> m b \<or> m a = 0 \<or> m b = 0 then char_diff (m a) (m b)
      else strncmp_loop n m (a + 1) (b + 1))"

definition strncmp :: "mem \<Rightarrow> u64 \<Rightarrow> u64 \<Rightarrow> u64 \<Rightarrow> int" where
  "strncmp m a b len = strncmp_loop (unat len) m a b"

partial_function (option) strcpy_loop ::
  "u64 \<Rightarrow> u64 \<Rightarrow> u64 \<Rightarrow> mem \<Rightarrow> (u64 \<times> mem) option" where
  "strcpy_loop src dest i m =
     (let m' = m(dest + i := m (src + i))
      in if m' (src + i) = 0 then Some (i, m') else strcpy_loop src dest (i + 1) m')"

definition strcpy :: "u64 \<Rightarrow> u64 \<Rightarrow> mem \<Rightarrow> (int \<times> mem) result" where
  "strcpy src dest m =
     and_then (from_option Diverges (strcpy_loop src dest 0 m))
       (\<lambda>(i, m'). Inr (sint (ucast i :: u32), m'))"

section \<open>Offsets\<close>

text \<open>Offsets below \<open>2 ^ 64\<close> from one base name different bytes.\<close>

lemma offset_inj:
  assumes "(a :: u64) + of_nat i = a + of_nat j" and "i < 2 ^ 64" and "j < 2 ^ 64"
  shows "i = j"
proof -
  have "unat (of_nat i :: u64) = unat (of_nat j :: u64)"
    using assms(1) by simp
  then show ?thesis using assms(2,3) by simp
qed

definition in_range :: "u64 \<Rightarrow> nat \<Rightarrow> u64 \<Rightarrow> bool" where
  "in_range a n x \<longleftrightarrow> (\<exists>k<n. x = a + of_nat k)"

lemma in_range_0 [simp]: "\<not> in_range a 0 x"
  by (simp add: in_range_def)

lemma in_range_Suc: "in_range a (Suc n) x \<longleftrightarrow> x = a \<or> in_range (a + 1) n x"
proof -
  have "(\<exists>k<Suc n. x = a + of_nat k) \<longleftrightarrow> x = a \<or> (\<exists>k<n. x = a + of_nat (Suc k))"
    by (auto simp: Ex_less_Suc2)
  then show ?thesis by (simp add: in_range_def algebra_simps)
qed

lemma in_range_offset [intro]: "k < n \<Longrightarrow> in_range a n (a + of_nat k)"
  by (auto simp: in_range_def)

lemma in_range_unat:
  assumes "unat a + n \<le> 2 ^ 64"
  shows "in_range a n x \<longleftrightarrow> unat a \<le> unat x \<and> unat x < unat a + n"
proof
  assume "in_range a n x"
  then obtain k where k: "k < n" "x = a + of_nat k" by (auto simp: in_range_def)
  have "unat (of_nat k :: u64) = k" using k(1) assms by (intro unat_of_nat64) simp
  then have "unat x = unat a + k"
    using k assms by (simp add: unat_add_lt)
  then show "unat a \<le> unat x \<and> unat x < unat a + n" using k by simp
next
  assume x: "unat a \<le> unat x \<and> unat x < unat a + n"
  have "unat (of_nat (unat x - unat a) :: u64) = unat x - unat a"
    using unsigned_less [of x, where ?'a = nat] by (intro unat_of_nat64) simp
  then have "x = a + of_nat (unat x - unat a)"
    using x assms by (simp add: word_unat_eq_iff unat_add_lt)
  moreover have "unat x - unat a < n" using x by linarith
  ultimately show "in_range a n x" unfolding in_range_def by blast
qed

section \<open>Correctness of the copying and filling loops\<close>

lemma movsb_frame: "\<not> in_range rdi n x \<Longrightarrow> movsb n rsi rdi m x = m x"
  by (induction n arbitrary: rsi rdi m) (auto simp: in_range_Suc)

text \<open>
  The upward copy is right as soon as no byte is overwritten before it is read: in particular
  for disjoint ranges and for a target below the source.
\<close>

definition copy_safe :: "u64 \<Rightarrow> u64 \<Rightarrow> nat \<Rightarrow> bool" where
  "copy_safe src tgt n \<longleftrightarrow> (\<forall>i<n. \<forall>j<i. src + of_nat i \<noteq> tgt + of_nat j)"

lemma copy_safe_Suc:
  assumes "copy_safe src tgt (Suc n)"
  shows "copy_safe (src + 1) (tgt + 1) n" and "\<And>k. k < n \<Longrightarrow> src + 1 + of_nat k \<noteq> tgt"
proof -
  show "copy_safe (src + 1) (tgt + 1) n"
    unfolding copy_safe_def
  proof (intro allI impI)
    fix i j assume "i < n" "j < i"
    then have "src + of_nat (Suc i) \<noteq> tgt + of_nat (Suc j)"
      using assms unfolding copy_safe_def by (metis Suc_less_eq)
    then show "src + 1 + of_nat i \<noteq> tgt + 1 + of_nat j"
      by (simp add: algebra_simps)
  qed
  fix k assume "k < n"
  then have "src + of_nat (Suc k) \<noteq> tgt + of_nat 0"
    using assms unfolding copy_safe_def by (metis Suc_less_eq zero_less_Suc)
  then show "src + 1 + of_nat k \<noteq> tgt" by (simp add: algebra_simps)
qed

lemma movsb_copies:
  assumes "copy_safe src tgt n" and "n \<le> 2 ^ 64" and "i < n"
  shows "movsb n src tgt m (tgt + of_nat i) = m (src + of_nat i)"
  using assms
proof (induction n arbitrary: src tgt m i)
  case (Suc n)
  let ?m = "m(tgt := m src)"
  show ?case
  proof (cases i)
    case 0
    have "\<not> in_range (tgt + 1) n tgt"
    proof
      assume "in_range (tgt + 1) n tgt"
      then obtain k where "k < n" "tgt = tgt + 1 + of_nat k" by (auto simp: in_range_def)
      then have "tgt + of_nat 0 = tgt + of_nat (Suc k)" by (simp add: algebra_simps)
      then have "0 = Suc k" by (rule offset_inj) (use \<open>k < n\<close> Suc.prems(2) in simp_all)
      then show False by simp
    qed
    then show ?thesis by (simp add: 0 movsb_frame)
  next
    case (Suc k)
    have "movsb n (src + 1) (tgt + 1) ?m (tgt + 1 + of_nat k) = ?m (src + 1 + of_nat k)"
      by (rule Suc.IH [OF copy_safe_Suc(1) [OF Suc.prems(1)]]) (use Suc Suc.prems in simp_all)
    also have "?m (src + 1 + of_nat k) = m (src + 1 + of_nat k)"
      using copy_safe_Suc(2) [OF Suc.prems(1)] Suc Suc.prems(3) by simp
    finally have "movsb n (src + 1) (tgt + 1) ?m (tgt + 1 + of_nat k) = m (src + 1 + of_nat k)" .
    then show ?thesis
      by (simp only: Suc movsb.simps of_nat_Suc ac_simps)
  qed
qed simp

lemma copy_safe_disjoint:
  assumes "\<And>x. in_range src n x \<Longrightarrow> \<not> in_range tgt n x"
  shows "copy_safe src tgt n"
  using assms unfolding copy_safe_def in_range_def by (metis less_trans)

lemma copy_safe_down:
  assumes "unat tgt \<le> unat src" and "unat src + n \<le> 2 ^ 64"
  shows "copy_safe src tgt n"
  unfolding copy_safe_def
proof (intro allI impI)
  fix i j assume ij: "i < n" "j < i"
  have n: "unat (of_nat i :: u64) = i" "unat (of_nat j :: u64) = j"
    using ij assms by (auto intro!: unat_of_nat64)
  have "unat (src + of_nat i) = unat src + i" "unat (tgt + of_nat j) = unat tgt + j"
    using ij assms n by (simp_all add: unat_add_lt)
  then show "src + of_nat i \<noteq> tgt + of_nat j" using ij assms(1) by auto
qed

lemma unat_le64: "unat (x :: u64) \<le> 2 ^ 64"
  using unsigned_less [of x, where ?'a = nat] by simp

lemma memcpy_frame: "\<not> in_range target (unat len) x \<Longrightarrow> memcpy src target len m x = m x"
  by (simp add: memcpy_def movsb_frame)

lemma memcpy_copies:
  assumes "copy_safe src target (unat len)" and "i < unat len"
  shows "memcpy src target len m (target + of_nat i) = m (src + of_nat i)"
  unfolding memcpy_def by (rule movsb_copies [OF assms(1) unat_le64 assms(2)])

lemma memset_loop_eq: "n \<le> 2 ^ 64 \<Longrightarrow> memset_loop n a v m x = (if in_range a n x then v else m x)"
  by (induction n arbitrary: a m) (auto simp: in_range_Suc)

lemma memset_eq: "memset a v len m x = (if in_range a (unat len) x then v else m x)"
  unfolding memset_def by (rule memset_loop_eq) (rule unat_le64)

lemma memcmp_loop_iff: "memcmp_loop n s1 s2 m \<longleftrightarrow> (\<forall>i<n. m (s1 + of_nat i) = m (s2 + of_nat i))"
proof (induction n arbitrary: s1 s2)
  case (Suc n)
  have "(\<forall>i<Suc n. m (s1 + of_nat i) = m (s2 + of_nat i)) \<longleftrightarrow>
      m s1 = m s2 \<and> (\<forall>i<n. m (s1 + 1 + of_nat i) = m (s2 + 1 + of_nat i))"
    by (auto simp: All_less_Suc2 algebra_simps)
  then show ?case using Suc.IH by simp
qed simp

section \<open>C strings\<close>

text \<open>\<open>cstring_at m a xs\<close>: the NUL-terminated string stored at \<open>a\<close> is \<open>xs\<close>.\<close>

primrec cstring_at :: "mem \<Rightarrow> u64 \<Rightarrow> u8 list \<Rightarrow> bool" where
  "cstring_at m a [] \<longleftrightarrow> m a = 0"
| "cstring_at m a (x # xs) \<longleftrightarrow> x \<noteq> 0 \<and> m a = x \<and> cstring_at m (a + 1) xs"

fun string_diff :: "u8 list \<Rightarrow> u8 list \<Rightarrow> int" where
  "string_diff [] [] = 0"
| "string_diff [] (y # ys) = char_diff 0 y"
| "string_diff (x # xs) [] = char_diff x 0"
| "string_diff (x # xs) (y # ys) = (if x \<noteq> y then char_diff x y else string_diff xs ys)"

lemma char_diff_0 [simp]: "char_diff a b = 0 \<longleftrightarrow> a = b"
  by (auto simp: char_diff_def signed_word_eqI)

lemma string_diff_0:
  "0 \<notin> set xs \<Longrightarrow> 0 \<notin> set ys \<Longrightarrow> string_diff xs ys = 0 \<longleftrightarrow> xs = ys"
  by (induction xs ys rule: string_diff.induct) auto

lemma cstring_at_nonzero: "cstring_at m a xs \<Longrightarrow> 0 \<notin> set xs"
  by (induction xs arbitrary: a) auto

lemma cstring_at_cong:
  "(\<And>x. in_range a (Suc (length xs)) x \<Longrightarrow> m' x = m x) \<Longrightarrow> cstring_at m' a xs = cstring_at m a xs"
proof (induction xs arbitrary: a)
  case (Cons x xs)
  have "cstring_at m' (a + 1) xs = cstring_at m (a + 1) xs"
    by (rule Cons.IH) (use Cons.prems in \<open>simp add: in_range_Suc [of a]\<close>)
  moreover have "m' a = m a" using Cons.prems by (simp add: in_range_Suc)
  ultimately show ?case by simp
qed (simp add: in_range_Suc)

lemma cstring_at_unique: "cstring_at m a xs \<Longrightarrow> cstring_at m a ys \<Longrightarrow> xs = ys"
proof (induction xs arbitrary: a ys)
  case Nil
  then show ?case by (cases ys) auto
next
  case (Cons x xs)
  then show ?case by (cases ys) auto
qed

lemma strlen_loop_cstring:
  "cstring_at m (str + len) xs \<Longrightarrow> strlen_loop m str len = Some (len + of_nat (length xs))"
proof (induction xs arbitrary: len)
  case Nil
  then show ?case by (subst strlen_loop.simps) simp
next
  case (Cons x xs)
  have "strlen_loop m str (len + 1) = Some (len + 1 + of_nat (length xs))"
    by (rule Cons.IH) (use Cons.prems in \<open>simp add: algebra_simps\<close>)
  then show ?case
    using Cons.prems by (subst strlen_loop.simps) (simp add: algebra_simps)
qed

lemma strlen_cstring: "cstring_at m str xs \<Longrightarrow> strlen m str = Inr (of_nat (length xs))"
  by (simp add: strlen_def strlen_loop_cstring)

lemma strcmp_loop_cstring:
  "cstring_at m (a + i) xs \<Longrightarrow> cstring_at m (b + i) ys \<Longrightarrow>
   strcmp_loop m a b i = Some (string_diff xs ys)"
proof (induction xs ys arbitrary: i rule: string_diff.induct)
  case (4 x xs y ys)
  show ?case
  proof (cases "x = y")
    case True
    have "strcmp_loop m a b (i + 1) = Some (string_diff xs ys)"
      by (rule "4.IH") (use "4.prems" True in \<open>simp_all add: algebra_simps\<close>)
    with True "4.prems" show ?thesis by (subst strcmp_loop.simps) simp
  qed (use "4.prems" in \<open>subst strcmp_loop.simps, simp\<close>)
qed (subst strcmp_loop.simps, simp)+

lemma strncmp_loop_cstring:
  "cstring_at m a xs \<Longrightarrow> cstring_at m b ys \<Longrightarrow>
   strncmp_loop n m a b = string_diff (take n xs) (take n ys)"
proof (induction n arbitrary: a b xs ys)
  case (Suc n)
  then show ?case by (cases xs; cases ys) auto
qed simp

lemma strcpy_loop_cstring:
  assumes "cstring_at m (src + i) xs"
    and "\<And>j k. j < k \<Longrightarrow> k \<le> length xs \<Longrightarrow> src + i + of_nat k \<noteq> dest + i + of_nat j"
  shows "strcpy_loop src dest i m =
    Some (i + of_nat (length xs), movsb (Suc (length xs)) (src + i) (dest + i) m)"
  using assms
proof (induction xs arbitrary: i m)
  case Nil
  then show ?case by (subst strcpy_loop.simps) (simp add: Let_def)
next
  case (Cons x xs)
  let ?m = "m(dest + i := m (src + i))"
  have ne: "src + i + of_nat (Suc k) \<noteq> dest + i" if "k \<le> length xs" for k
    using Cons.prems(2) [of 0 "Suc k"] that by simp
  have frame: "?m y = m y" if "in_range (src + i + 1) (Suc (length xs)) y" for y
    using that ne by (auto simp: in_range_def less_Suc_eq_le algebra_simps)
  have "cstring_at ?m (src + i + 1) xs"
    using cstring_at_cong [of "src + i + 1" xs ?m m, OF frame] Cons.prems(1) by simp
  then have str: "cstring_at ?m (src + (i + 1)) xs" by (simp add: algebra_simps)
  have gap: "src + (i + 1) + of_nat k \<noteq> dest + (i + 1) + of_nat j"
    if "j < k" "k \<le> length xs" for j k
    using Cons.prems(2) [of "Suc j" "Suc k"] that by (simp add: algebra_simps)
  have "strcpy_loop src dest (i + 1) ?m =
      Some (i + 1 + of_nat (length xs), movsb (Suc (length xs)) (src + (i + 1)) (dest + (i + 1)) ?m)"
    by (rule Cons.IH [OF str gap])
  moreover have "?m (src + i) \<noteq> 0" using Cons.prems(1) by auto
  ultimately have "strcpy_loop src dest i m =
      Some (i + 1 + of_nat (length xs), movsb (Suc (length xs)) (src + (i + 1)) (dest + (i + 1)) ?m)"
    by (subst strcpy_loop.simps) (simp only: Let_def if_False)
  then show ?case
    by (simp only: movsb.simps list.size of_nat_Suc of_nat_add ac_simps) (simp add: ac_simps)
qed

lemma cstring_at_iff:
  "cstring_at m a xs \<longleftrightarrow>
     (\<forall>i<length xs. m (a + of_nat i) = xs ! i) \<and> 0 \<notin> set xs \<and> m (a + of_nat (length xs)) = 0"
proof (induction xs arbitrary: a)
  case (Cons x xs)
  have "(\<forall>i<length (x # xs). m (a + of_nat i) = (x # xs) ! i) \<longleftrightarrow>
      m a = x \<and> (\<forall>i<length xs. m (a + 1 + of_nat i) = xs ! i)"
    by (auto simp: All_less_Suc2 algebra_simps)
  then show ?case using Cons.IH [of "a + 1"] by (auto simp: algebra_simps)
qed simp

lemma sint_length: "n < 2 ^ 31 \<Longrightarrow> sint (ucast (of_nat n :: u64) :: u32) = int n"
  by (simp add: unsigned_of_nat take_bit_nat_eq_self signed_of_nat signed_take_bit_int_eq_self)

section \<open>Little-endian loads and stores\<close>

primrec load_le :: "nat \<Rightarrow> mem \<Rightarrow> u64 \<Rightarrow> u64" where
  "load_le 0 m a = 0"
| "load_le (Suc n) m a = ucast (m a) OR push_bit 8 (load_le n m (a + 1))"

primrec store_le :: "nat \<Rightarrow> u64 \<Rightarrow> u64 \<Rightarrow> mem \<Rightarrow> mem" where
  "store_le 0 a v m = m"
| "store_le (Suc n) a v m = store_le n (a + 1) (drop_bit 8 v) (m(a := ucast v))"

abbreviation load64 :: "mem \<Rightarrow> u64 \<Rightarrow> u64" where
  "load64 m a \<equiv> load_le 8 m a"

abbreviation store64 :: "u64 \<Rightarrow> u64 \<Rightarrow> mem \<Rightarrow> mem" where
  "store64 a v m \<equiv> store_le 8 a v m"

lemma load_le_cong:
  "(\<And>k. k < n \<Longrightarrow> m' (a' + of_nat k) = m (a + of_nat k)) \<Longrightarrow> load_le n m' a' = load_le n m a"
proof (induction n arbitrary: a a')
  case (Suc n)
  have "load_le n m' (a' + 1) = load_le n m (a + 1)"
  proof (rule Suc.IH)
    fix k assume "k < n"
    then show "m' (a' + 1 + of_nat k) = m (a + 1 + of_nat k)"
      using Suc.prems [of "Suc k"] by (simp add: algebra_simps)
  qed
  then show ?case using Suc.prems [of 0] by simp
qed simp

text \<open>Loads at concrete addresses, byte by byte.\<close>

lemma load32_bytes: "load_le 4 m a = ucast (m a) OR push_bit 8 (ucast (m (a + 1)) OR push_bit 8 (ucast (m (a + 1 + 1)) OR push_bit 8 (ucast (m (a + 1 + 1 + 1)) OR push_bit 8 (0))))"
proof -
  have "(4 :: nat) = Suc (Suc (Suc (Suc 0)))" by simp
  then have "load_le 4 m a = load_le (Suc (Suc (Suc (Suc 0)))) m a" by (rule arg_cong [where f = "\<lambda>n. load_le n m a"])
  then show ?thesis by (simp only: load_le.simps)
qed

lemma load64_bytes: "load64 m a = ucast (m (a)) OR push_bit 8 (ucast (m (a + 1)) OR push_bit 8 (ucast (m (a + 1 + 1)) OR push_bit 8 (ucast (m (a + 1 + 1 + 1)) OR push_bit 8 (ucast (m (a + 1 + 1 + 1 + 1)) OR push_bit 8 (ucast (m (a + 1 + 1 + 1 + 1 + 1)) OR push_bit 8 (ucast (m (a + 1 + 1 + 1 + 1 + 1 + 1)) OR push_bit 8 (ucast (m (a + 1 + 1 + 1 + 1 + 1 + 1 + 1)) OR push_bit 8 (0))))))))"
proof -
  have "(8 :: nat) = Suc (Suc (Suc (Suc (Suc (Suc (Suc (Suc 0)))))))" by simp
  then have "load64 m a = load_le (Suc (Suc (Suc (Suc (Suc (Suc (Suc (Suc 0)))))))) m a"
    by (rule arg_cong [where f = "\<lambda>n. load_le n m a"])
  then show ?thesis by (simp only: load_le.simps)
qed

lemma store_le_frame: "\<not> in_range a n x \<Longrightarrow> store_le n a v m x = m x"
  by (induction n arbitrary: a v m) (auto simp: in_range_Suc)

lemma load_store_le:
  assumes "n \<le> 8"
  shows "load_le n (store_le n a v m) a = take_bit (8 * n) v"
  using assms
proof (induction n arbitrary: a v m)
  case (Suc n)
  let ?m = "m(a := ucast v)"
  have "\<not> in_range (a + 1) n a"
  proof
    assume "in_range (a + 1) n a"
    then obtain k where k: "k < n" "a = a + 1 + of_nat k" by (auto simp: in_range_def)
    then have "a + of_nat 0 = a + of_nat (Suc k)" by (simp add: algebra_simps)
    then have "0 = Suc k" by (rule offset_inj) (use k(1) Suc.prems in simp_all)
    then show False by simp
  qed
  then have first: "store_le n (a + 1) (drop_bit 8 v) ?m a = ucast v"
    by (simp add: store_le_frame)
  have rest: "load_le n (store_le n (a + 1) (drop_bit 8 v) ?m) (a + 1)
      = take_bit (8 * n) (drop_bit 8 v)"
    using Suc by simp
  have "(ucast (ucast v :: u8) :: u64) OR push_bit 8 (take_bit (8 * n) (drop_bit 8 v))
      = take_bit (8 * Suc n) v"
    by (rule bit_eqI) (auto simp: bit_simps)
  then show ?case using first rest by simp
qed simp

lemma load64_store64_same [simp]: "load64 (store64 a v m) a = v"
proof -
  have "load64 (store64 a v m) a = take_bit (8 * 8) v" by (rule load_store_le) simp
  then show ?thesis by (simp add: take_bit_word_eq_self)
qed

lemma load64_store64_other:
  assumes "\<And>x. in_range a 8 x \<Longrightarrow> \<not> in_range b 8 x"
  shows "load64 (store64 b v m) a = load64 m a"
  by (rule load_le_cong) (rule store_le_frame, rule assms, blast)

section \<open>Properties\<close>

text \<open>C22: \<open>memcpy\<close> is right whenever no source byte is overwritten before it is read (disjoint
  ranges, or a target below the source, as \<open>vec_erase\<close> and the framebuffer scroll use it): the
  target range then holds the old source bytes, and no other byte changes.\<close>

theorem memcpy_correct:
  assumes "copy_safe src target (unat len)"
  shows "memcpy src target len m x =
    (if in_range target (unat len) x then m (src + (x - target)) else m x)"
  using memcpy_copies [OF assms] by (auto simp: memcpy_frame in_range_def)

theorem memcpy_correct_witness:
  "memcpy 0x1001 0x1000 3 (\<lambda>a. ucast a) 0x1001 = 2"
proof -
  have "copy_safe 0x1001 0x1000 (unat (3 :: u64))" by (rule copy_safe_down) simp_all
  moreover have "in_range 0x1000 3 (0x1000 + of_nat 1)" by (rule in_range_offset) simp
  ultimately show ?thesis
    using memcpy_correct [of "0x1001" "0x1000" 3 "\<lambda>a. ucast a" "0x1001"] by simp
qed

text \<open>On NUL-terminated strings \<open>strcmp\<close> returns, and returns 0 exactly for equal strings;
  \<open>strncmp\<close> returns 0 exactly if the strings agree on their first \<open>n\<close> characters.\<close>

theorem strcmp_decides_equality:
  assumes "cstring_at m a xs" and "cstring_at m b ys"
  shows "(\<exists>d. strcmp m a b = Inr d \<and> (d = 0 \<longleftrightarrow> xs = ys))
    \<and> (strncmp m a b n = 0 \<longleftrightarrow> take (unat n) xs = take (unat n) ys)"
proof (intro conjI)
  have nz: "0 \<notin> set xs" "0 \<notin> set ys" by (rule cstring_at_nonzero; fact assms)+
  have "strcmp m a b = Inr (string_diff xs ys)"
    by (simp add: strcmp_def strcmp_loop_cstring assms)
  then show "\<exists>d. strcmp m a b = Inr d \<and> (d = 0 \<longleftrightarrow> xs = ys)"
    using string_diff_0 [OF nz] by blast
  have "0 \<notin> set (take (unat n) xs)" "0 \<notin> set (take (unat n) ys)"
    using nz by (auto dest: in_set_takeD)
  then show "strncmp m a b n = 0 \<longleftrightarrow> take (unat n) xs = take (unat n) ys"
    by (simp add: strncmp_def strncmp_loop_cstring [OF assms] string_diff_0)
qed

theorem strcmp_decides_equality_witness:
  "\<exists>d. strcmp ((\<lambda>_. 0)(0 := 97, 1 := 98, 8 := 97)) 0 8 = Inr d \<and> d \<noteq> 0"
  using strcmp_decides_equality
    [of "(\<lambda>_. 0)(0 := 97, 1 := 98, 8 := 97)" 0 "[97, 98]" 8 "[97]" 1] by auto

text \<open>\<open>strcpy\<close> of a NUL-terminated string to a range that does not overlap it returns with
  the same string at the destination and the source still in place.\<close>

theorem strcpy_copies:
  assumes "cstring_at m src xs"
    and "\<And>x. in_range src (Suc (length xs)) x \<Longrightarrow> \<not> in_range dest (Suc (length xs)) x"
    and "length xs < 2 ^ 31"
  shows "\<exists>m'. strcpy src dest m = Inr (int (length xs), m')
    \<and> cstring_at m' dest xs \<and> cstring_at m' src xs
    \<and> (\<forall>x. \<not> in_range dest (Suc (length xs)) x \<longrightarrow> m' x = m x)"
proof -
  let ?m = "movsb (Suc (length xs)) src dest m"
  have safe: "copy_safe src dest (Suc (length xs))" by (rule copy_safe_disjoint) (fact assms(2))
  have "src + 0 + of_nat k \<noteq> dest + 0 + of_nat j" if "j < k" "k \<le> length xs" for j k
    using safe that by (auto simp: copy_safe_def less_Suc_eq_le)
  with assms(1) have "strcpy_loop src dest 0 m = Some (0 + of_nat (length xs),
      movsb (Suc (length xs)) (src + 0) (dest + 0) m)"
    by (intro strcpy_loop_cstring) auto
  then have run: "strcpy_loop src dest 0 m = Some (of_nat (length xs), ?m)" by simp
  have sint: "sint (ucast (of_nat (length xs) :: u64) :: u32) = int (length xs)"
    by (rule sint_length) (fact assms(3))
  have bytes: "?m (dest + of_nat i) = m (src + of_nat i)" if "i \<le> length xs" for i
    by (rule movsb_copies [OF safe]) (use that assms(3) in auto)
  have "cstring_at ?m dest xs"
    using assms(1) bytes unfolding cstring_at_iff by (metis le_refl less_imp_le)
  moreover have "cstring_at ?m src xs"
    using assms(1) cstring_at_cong [of src xs ?m m] movsb_frame assms(2) by blast
  ultimately show ?thesis
    unfolding strcpy_def run by (simp add: sint movsb_frame del: movsb.simps)
qed

theorem strcpy_copies_witness:
  "\<exists>m'. strcpy 0 8 ((\<lambda>_. 0)(0 := 104, 1 := 105)) = Inr (2, m') \<and> cstring_at m' 8 [104, 105]"
proof -
  let ?m = "(\<lambda>_. 0)(0 := 104, 1 := 105) :: mem"
  have disj: "\<not> in_range 8 (Suc (length [104, 105 :: u8])) x"
    if "in_range 0 (Suc (length [104, 105 :: u8])) x" for x :: u64
    using that by (simp add: in_range_unat)
  have str: "cstring_at ?m 0 [104, 105]" by simp
  from strcpy_copies [OF str disj] show ?thesis by auto
qed

end
