(* ===== verification/Interfaces.thy ===== *)
theory Interfaces
  imports Aeolos_Prelude
begin

text \<open>
  The contracts between components, as locales: what a client calls (\<open>fixes\<close>) and what the
  provider promises (\<open>assumes\<close>), with the consequences every client relies on proved once.
  Each locale is interpreted on the kernel's own definitions in the provider's theory.
\<close>

section \<open>Page frames\<close>

definition pfn :: "u64 \<Rightarrow> nat" where
  "pfn i = unat i div 4096"

definition frame_range :: "u64 \<Rightarrow> nat \<Rightarrow> nat set" where
  "frame_range a n = {pfn a ..< pfn a + n}"

text \<open>A range of pages that does not run past the end of the address space.\<close>

definition no_wrap :: "u64 \<Rightarrow> u64 \<Rightarrow> bool" where
  "no_wrap a n \<longleftrightarrow> unat a + unat n * 4096 < 2 ^ 64"

lemma pfn_less: "pfn i < 2 ^ 52"
  using unsigned_less [of i, where ?'a = nat] by (simp add: pfn_def)

text \<open>
  A provider of page frames (\<open>pmm_get\<close> and \<open>pmm_free\<close>) for its clients \<open>kmalloc\<close> and the
  virtual memory manager.
\<close>

locale frame_allocator =
  fixes get :: "u64 \<Rightarrow> 's \<Rightarrow> (u64 \<times> 's) result"
    and release :: "u64 \<Rightarrow> u64 \<Rightarrow> 's \<Rightarrow> 's result"
    and free_set :: "'s \<Rightarrow> nat set"
    and ready :: "u64 \<Rightarrow> 's \<Rightarrow> bool"
  assumes get_takes: "ready n s \<Longrightarrow> get n s = Inr (a, s') \<Longrightarrow>
      no_wrap a n \<and> unat a mod 4096 = 0
      \<and> frame_range a (unat n) \<subseteq> free_set s \<and> free_set s' = free_set s - frame_range a (unat n)"
    and get_ready: "ready n s \<Longrightarrow> get n s = Inr (a, s') \<Longrightarrow> ready m s \<Longrightarrow> ready m s'"
    and release_gives: "no_wrap a n \<Longrightarrow>
      \<exists>s'. release a n s = Inr s' \<and> free_set s' = free_set s \<union> frame_range a (unat n)"
begin

lemma gets_disjoint:
  assumes "ready n s" and "ready m s" and "get n s = Inr (a, s1)" and "get m s1 = Inr (b, s2)"
  shows "frame_range a (unat n) \<inter> frame_range b (unat m) = {}"
proof -
  have "ready m s1" by (rule get_ready [OF assms(1,3,2)])
  then show ?thesis using get_takes [OF assms(1,3)] get_takes [OF _ assms(4)] by auto
qed

text \<open>Frames in use are never handed out, and stay in use.\<close>

lemma get_keeps_owned:
  assumes "ready n s" and "get n s = Inr (a, s')" and "X \<inter> free_set s = {}"
  shows "X \<inter> frame_range a (unat n) = {}" and "X \<inter> free_set s' = {}"
  using get_takes [OF assms(1,2)] assms(3) by auto

lemma get_release:
  assumes "ready n s" and "get n s = Inr (a, s1)"
  shows "\<exists>s2. release a n s1 = Inr s2 \<and> free_set s2 = free_set s"
  using get_takes [OF assms] release_gives [of a n s1] by (metis Diff_partition Un_commute)

end

section \<open>Address spaces\<close>

text \<open>
  A provider of address spaces (\<open>mm/vmm.c\<close>) for the drivers that map device memory and for the
  kernel's own start: \<open>view s\<close> is the entry of each page number, \<open>number va\<close> the page number of an
  address. A range is mapped and unmapped page by page.
\<close>

locale page_mapper =
  fixes inv :: "'s \<Rightarrow> bool" and view :: "'s \<Rightarrow> 'v \<Rightarrow> 'e" and number :: "u64 \<Rightarrow> 'v"
    and entry_for :: "u64 \<Rightarrow> 'e" and no_entry :: 'e
    and map_one :: "u64 \<Rightarrow> u64 \<Rightarrow> 's \<Rightarrow> 's result" and unmap_one :: "u64 \<Rightarrow> 's \<Rightarrow> 's result"
  assumes map_law: "inv s \<Longrightarrow> map_one va pa s = Inr s' \<Longrightarrow>
      inv s' \<and> view s' = (view s)(number va := entry_for pa)"
    and unmap_law: "inv s \<Longrightarrow>
      \<exists>s'. unmap_one va s = Inr s' \<and> inv s' \<and> view s' = (view s)(number va := no_entry)"
begin

lemma map_range:
  assumes "inv s" and "run_loop (\<lambda>i. step_or_stop (map_one (va + i) (pa + i))) is s = Inl s'"
    and "inj_on (\<lambda>i. number (va + i)) (set is)" and "distinct is"
  shows "inv s'" and "i \<in> set is \<Longrightarrow> view s' (number (va + i)) = entry_for (pa + i)"
    and "v \<notin> (\<lambda>i. number (va + i)) ` set is \<Longrightarrow> view s' v = view s v"
proof -
  have "inv s' \<and> (\<forall>i\<in>set is. view s' (number (va + i)) = entry_for (pa + i))
      \<and> (\<forall>v. v \<notin> (\<lambda>i. number (va + i)) ` set is \<longrightarrow> view s' v = view s v)"
    using assms
  proof (induction "is" arbitrary: s)
    case (Cons j js)
    then obtain s1 where s1: "map_one (va + j) (pa + j) s = Inr s1"
      "run_loop (\<lambda>i. step_or_stop (map_one (va + i) (pa + i))) js s1 = Inl s'"
      by (auto split: sum.splits)
    have l: "inv s1" "view s1 = (view s)(number (va + j) := entry_for (pa + j))"
      using map_law [OF Cons.prems(1) s1(1)] by simp_all
    have ih: "inv s' \<and> (\<forall>i\<in>set js. view s' (number (va + i)) = entry_for (pa + i))
        \<and> (\<forall>v. v \<notin> (\<lambda>i. number (va + i)) ` set js \<longrightarrow> view s' v = view s1 v)"
      by (rule Cons.IH [OF l(1) s1(2)]) (use Cons.prems(3,4) in \<open>auto simp: inj_on_def\<close>)
    moreover have "number (va + j) \<notin> (\<lambda>i. number (va + i)) ` set js"
      using Cons.prems(3,4) by (auto simp: inj_on_def)
    ultimately show ?case using l(2) by auto
  qed simp
  then show "inv s'" "i \<in> set is \<Longrightarrow> view s' (number (va + i)) = entry_for (pa + i)"
    "v \<notin> (\<lambda>i. number (va + i)) ` set is \<Longrightarrow> view s' v = view s v"
    by blast+
qed

lemma unmap_range:
  assumes "inv s"
  shows "\<exists>s'. run_loop (\<lambda>i. step_or_stop (unmap_one (va + i))) is s = Inl s' \<and> inv s'
    \<and> (\<forall>v. view s' v = (if v \<in> (\<lambda>i. number (va + i)) ` set is then no_entry else view s v))"
  using assms
proof (induction "is" arbitrary: s)
  case (Cons j js)
  obtain s1 where s1: "unmap_one (va + j) s = Inr s1" "inv s1" "view s1 = (view s)(number (va + j) := no_entry)"
    using unmap_law [OF Cons.prems] by blast
  obtain s' where s': "run_loop (\<lambda>i. step_or_stop (unmap_one (va + i))) js s1 = Inl s'" "inv s'"
    "\<forall>v. view s' v = (if v \<in> (\<lambda>i. number (va + i)) ` set js then no_entry else view s1 v)"
    using Cons.IH [OF s1(2)] by blast
  have "run_loop (\<lambda>i. step_or_stop (unmap_one (va + i))) (j # js) s = Inl s'"
    using s1(1) s'(1) by (simp add: step_or_stop_def)
  moreover have "\<forall>v. view s' v = (if v \<in> (\<lambda>i. number (va + i)) ` set (j # js) then no_entry else view s v)"
    using s'(3) s1(3) by simp
  ultimately show ?case using s'(2) by blast
qed simp

text \<open>Unmapping a range that was free before it was mapped gives back the view.\<close>

lemma map_unmap_range:
  assumes "inv s" and "run_loop (\<lambda>i. step_or_stop (map_one (va + i) (pa + i))) is s = Inl s1"
    and "inj_on (\<lambda>i. number (va + i)) (set is)" and "distinct is"
    and "\<And>i. i \<in> set is \<Longrightarrow> view s (number (va + i)) = no_entry"
  shows "\<exists>s2. run_loop (\<lambda>i. step_or_stop (unmap_one (va + i))) is s1 = Inl s2 \<and> inv s2 \<and> view s2 = view s"
proof -
  note m = map_range [OF assms(1-4)]
  obtain s2 where s2: "run_loop (\<lambda>i. step_or_stop (unmap_one (va + i))) is s1 = Inl s2" "inv s2"
    "\<forall>v. view s2 v = (if v \<in> (\<lambda>i. number (va + i)) ` set is then no_entry else view s1 v)"
    using unmap_range [OF m(1)] by blast
  have "view s2 v = view s v" for v
    using s2(3) m(3) assms(5) by (cases "v \<in> (\<lambda>i. number (va + i)) ` set is") auto
  then show ?thesis using s2 by blast
qed

end

section \<open>Growable arrays\<close>

text \<open>
  A provider of growable arrays (\<open>vec_push_back\<close>, \<open>vec_erase_val\<close>) as the directory lists, the
  open-file tables and the lists of mounts use them: the laws speak of the list of elements only.
\<close>

locale growable_array =
  fixes elems :: "'s \<Rightarrow> 'v \<Rightarrow> 'e list"
    and push :: "'v \<Rightarrow> 'e \<Rightarrow> 's \<Rightarrow> ('v \<times> 's) result"
    and erase_val :: "'v \<Rightarrow> 'e \<Rightarrow> 's \<Rightarrow> 'v \<times> 's"
    and can_push :: "'s \<Rightarrow> 'v \<Rightarrow> bool"
    and can_erase :: "'v \<Rightarrow> bool"
  assumes push_appends: "can_push s v \<Longrightarrow> push v e s = Inr (v', s') \<Longrightarrow>
      elems s' v' = elems s v @ [e]"
    and erase_removes: "can_erase v \<Longrightarrow> erase_val v e s = (v', s') \<Longrightarrow>
      elems s' v' = remove1 e (elems s v)"
begin

text \<open>Adding a new entry and erasing it again is the identity on the elements.\<close>

lemma push_erase:
  assumes "can_push s v" and "push v e s = Inr (v1, s1)" and "e \<notin> set (elems s v)"
    and "can_erase v1" and "erase_val v1 e s1 = (v2, s2)"
  shows "elems s2 v2 = elems s v"
  using push_appends [OF assms(1,2)] erase_removes [OF assms(4,5)] assms(3)
  by (simp add: remove1_append)

text \<open>Erasing keeps the entries distinct and removes the value for good.\<close>

lemma erase_distinct:
  assumes "distinct (elems s v)" and "can_erase v" and "erase_val v e s = (v1, s1)"
  shows "distinct (elems s1 v1)" and "set (elems s1 v1) = set (elems s v) - {e}"
  using erase_removes [OF assms(2,3)] assms(1) by (simp_all add: set_remove1_eq)

end

section \<open>Queues of linked nodes\<close>

text \<open>
  A provider of doubly linked queues over a heap of nodes (\<open>proc/sched/tqueue.c\<close>) for the
  scheduler. \<open>rep h q xs\<close>: in heap \<open>h\<close> the queue \<open>q\<close> holds the nodes \<open>xs\<close>, front first.
  \<open>frame X h h'\<close>: a step from \<open>h\<close> to \<open>h'\<close> changed nothing but the links of the nodes \<open>X\<close>.
\<close>

locale linked_queue =
  fixes rep :: "'h \<Rightarrow> 'q \<Rightarrow> 'r list \<Rightarrow> bool"
    and alive :: "'h \<Rightarrow> 'r \<Rightarrow> bool"
    and frame :: "'r set \<Rightarrow> 'h \<Rightarrow> 'h \<Rightarrow> bool"
    and push :: "'q \<Rightarrow> 'r \<Rightarrow> 'h \<Rightarrow> ('q \<times> 'h) result"
    and insert_after :: "'q \<Rightarrow> 'r option \<Rightarrow> 'r \<Rightarrow> 'h \<Rightarrow> ('q \<times> 'h) result"
    and pop :: "'q \<Rightarrow> 'h \<Rightarrow> ('r option \<times> 'q \<times> 'h) result"
  assumes push_law: "rep h q xs \<Longrightarrow> t \<notin> set xs \<Longrightarrow> alive h t \<Longrightarrow>
      \<exists>q' h'. push q t h = Inr (q', h') \<and> rep h' q' (t # xs) \<and> frame (insert t (set xs)) h h'"
    and insert_law: "rep h q (us @ a # vs) \<Longrightarrow> t \<notin> set (us @ a # vs) \<Longrightarrow> alive h t \<Longrightarrow>
      \<exists>q' h'. insert_after q (Some a) t h = Inr (q', h') \<and> rep h' q' (us @ a # t # vs)
        \<and> frame (insert t (set (us @ a # vs))) h h'"
    and insert_first_law: "rep h q xs \<Longrightarrow> t \<notin> set xs \<Longrightarrow> alive h t \<Longrightarrow>
      \<exists>q' h'. insert_after q None t h = Inr (q', h') \<and> rep h' q' (t # xs)
        \<and> frame (insert t (set xs)) h h'"
    and pop_law: "rep h q (xs @ [r]) \<Longrightarrow>
      \<exists>q' h'. pop q h = Inr (Some r, q', h') \<and> rep h' q' xs \<and> frame (set xs) h h'"
    and pop_empty_law: "rep h q [] \<Longrightarrow> pop q h = Inr (None, q, h)"
begin

text \<open>First in, first out: on a non-empty queue a push does not change what the next pop returns.\<close>

lemma fifo:
  assumes "rep h q (xs @ [r])" and "t \<notin> set (xs @ [r])" and "alive h t"
  shows "\<exists>q1 h1 q2 h2. push q t h = Inr (q1, h1) \<and> pop q1 h1 = Inr (Some r, q2, h2)
    \<and> rep h2 q2 (t # xs)"
proof -
  obtain q1 h1 where "push q t h = Inr (q1, h1)" "rep h1 q1 ((t # xs) @ [r])"
    using push_law [OF assms] by auto
  then show ?thesis using pop_law [of h1 q1 "t # xs" r] by auto
qed

text \<open>A node put on an empty queue is the one that comes off it.\<close>

lemma push_pop:
  assumes "rep h q []" and "alive h t"
  shows "\<exists>q1 h1 q2 h2. push q t h = Inr (q1, h1) \<and> pop q1 h1 = Inr (Some t, q2, h2) \<and> rep h2 q2 []"
proof -
  obtain q1 h1 where "push q t h = Inr (q1, h1)" "rep h1 q1 ([] @ [t])"
    using push_law [OF assms(1) _ assms(2)] by auto
  then show ?thesis using pop_law [of h1 q1 "[]" t] by auto
qed

end

section \<open>File-system drivers\<close>

text \<open>
  What the virtual file system expects of a driver behind the pointers \<open>read\<close> and \<open>write\<close> of a
  \<open>vfs_fsinfo_t\<close>: \<open>node i s\<close> says that in the good state \<open>s\<close> the inode \<open>i\<close> belongs to the driver, and
  \<open>keeps i s s'\<close> that a step touched nothing but the driver's own data of \<open>i\<close>.
\<close>

datatype fs_request = Read_Request u64 u64 | Write_Request u64 "u8 list"

locale fs_driver =
  fixes rd :: "'i \<Rightarrow> u64 \<Rightarrow> u64 \<Rightarrow> 's \<Rightarrow> (u64 \<times> u8 list \<times> 's) result"
    and wr :: "'i \<Rightarrow> u64 \<Rightarrow> u8 list \<Rightarrow> 's \<Rightarrow> (u64 \<times> 's) result"
    and node :: "'i \<Rightarrow> 's \<Rightarrow> bool"
    and keeps :: "'i \<Rightarrow> 's \<Rightarrow> 's \<Rightarrow> bool"
  assumes rd_keeps: "node i s \<Longrightarrow> rd i off n s = Inr (k, bs, s') \<Longrightarrow> node i s' \<and> keeps i s s'"
    and wr_keeps: "node i s \<Longrightarrow> length bs < 2 ^ 64 \<Longrightarrow> wr i off bs s = Inr (k, s') \<Longrightarrow>
      node i s' \<and> keeps i s s' \<and> k = of_nat (length bs)"
    and keeps_refl: "node i s \<Longrightarrow> keeps i s s"
    and keeps_trans: "keeps i s s' \<Longrightarrow> keeps i s' s'' \<Longrightarrow> keeps i s s''"
begin

text \<open>A sequence of requests on one node.\<close>

primrec serve :: "'i \<Rightarrow> fs_request list \<Rightarrow> 's \<Rightarrow> 's result" where
  "serve i [] s = Inr s"
| "serve i (q # qs) s =
     (case q of
        Read_Request off n \<Rightarrow> and_then (rd i off n s) (\<lambda>(k, bs, s). serve i qs s)
      | Write_Request off bs \<Rightarrow> and_then (wr i off bs s) (\<lambda>(k, s). serve i qs s))"

lemma serve_keeps:
  assumes "node i s" and "serve i qs s = Inr s'"
    and "\<forall>q\<in>set qs. \<forall>off bs. q = Write_Request off bs \<longrightarrow> length bs < 2 ^ 64"
  shows "node i s' \<and> keeps i s s'"
  using assms
proof (induction qs arbitrary: s)
  case Nil
  then show ?case using keeps_refl by simp
next
  case (Cons q qs)
  show ?case
  proof (cases q)
    case (Read_Request off n)
    then obtain k bs s1 where s1: "rd i off n s = Inr (k, bs, s1)" "serve i qs s1 = Inr s'"
      using Cons.prems(2) by (auto simp: and_then_eq_Inr)
    have "node i s1" "keeps i s s1" using rd_keeps [OF Cons.prems(1) s1(1)] by simp_all
    then show ?thesis using Cons.IH [OF _ s1(2)] Cons.prems(3) keeps_trans by auto
  next
    case (Write_Request off bs)
    then obtain k s1 where s1: "wr i off bs s = Inr (k, s1)" "serve i qs s1 = Inr s'"
      using Cons.prems(2) by (auto simp: and_then_eq_Inr)
    have "length bs < 2 ^ 64" using Cons.prems(3) Write_Request by simp
    then have "node i s1" "keeps i s s1" using wr_keeps [OF Cons.prems(1) _ s1(1)] by simp_all
    then show ?thesis using Cons.IH [OF _ s1(2)] Cons.prems(3) keeps_trans by auto
  qed
qed

end

text \<open>A driver that stores: reads return what the node holds, writes replace it.\<close>

locale storage_driver = fs_driver rd wr node keeps
  for rd :: "'i \<Rightarrow> u64 \<Rightarrow> u64 \<Rightarrow> 's \<Rightarrow> (u64 \<times> u8 list \<times> 's) result"
    and wr :: "'i \<Rightarrow> u64 \<Rightarrow> u8 list \<Rightarrow> 's \<Rightarrow> (u64 \<times> 's) result"
    and node :: "'i \<Rightarrow> 's \<Rightarrow> bool" and keeps :: "'i \<Rightarrow> 's \<Rightarrow> 's \<Rightarrow> bool" +
  fixes bytes :: "'i \<Rightarrow> 's \<Rightarrow> u8 list"
  assumes rd_bytes: "node i s \<Longrightarrow> unat off + unat n \<le> length (bytes i s) \<Longrightarrow>
      rd i off n s = Inr (n, take (unat n) (drop (unat off) (bytes i s)), s)"
    and wr_bytes: "node i s \<Longrightarrow> unat off + length bs \<le> length (bytes i s) \<Longrightarrow> length bs < 2 ^ 64 \<Longrightarrow>
      \<exists>s'. wr i off bs s = Inr (of_nat (length bs), s')
        \<and> bytes i s' = take (unat off) (bytes i s) @ bs @ drop (unat off + length bs) (bytes i s)"
begin

text \<open>A read returns what was written at its place, whatever was written behind it.\<close>

lemma write_read:
  assumes "node i s" and "unat off + length bs \<le> length (bytes i s)" and "length bs < 2 ^ 64"
  shows "\<exists>s'. wr i off bs s = Inr (of_nat (length bs), s') \<and> rd i off (of_nat (length bs)) s' = Inr (of_nat (length bs), bs, s')"
proof -
  obtain s' where s': "wr i off bs s = Inr (of_nat (length bs), s')"
    "bytes i s' = take (unat off) (bytes i s) @ bs @ drop (unat off + length bs) (bytes i s)"
    using wr_bytes [OF assms] by blast
  have "node i s'" using wr_keeps [OF assms(1,3) s'(1)] by simp
  moreover have "unat (of_nat (length bs) :: u64) = length bs" using assms(3) by simp
  ultimately show ?thesis using s' assms(2) by (simp add: rd_bytes)
qed

lemma write_elsewhere:
  assumes "node i s" and "unat off + length bs \<le> length (bytes i s)" and "length bs < 2 ^ 64"
    and "unat at' + unat n \<le> unat off" and "wr i off bs s = Inr (k, s')"
  shows "\<exists>out. rd i at' n s' = Inr (n, out, s') \<and> rd i at' n s = Inr (n, out, s)"
proof -
  have s': "bytes i s' = take (unat off) (bytes i s) @ bs @ drop (unat off + length bs) (bytes i s)"
    using wr_bytes [OF assms(1-3)] assms(5) by auto
  have "node i s'" using wr_keeps [OF assms(1,3,5)] by simp
  moreover have "take (unat n) (drop (unat at') (bytes i s')) = take (unat n) (drop (unat at') (bytes i s))"
    using assms(2,4) by (simp add: s' take_drop min_absorb1 add.commute)
  ultimately show ?thesis using assms(1,2,4) by (simp add: rd_bytes s')
qed

end

end
