(* ===== verification/Pmm.thy ===== *)
theory Pmm
  imports Memutils Interfaces
begin

text \<open>
  \<open>kernel/mm/pmm.c\<close>: the physical memory manager. One bit per 4 KiB frame, set when the frame
  is free; the bitmap lies in memory at the virtual address \<open>bitmap\<close>, so it is part of the
  byte memory that everything else writes to. The state is the record \<open>kernel\<close>; the abstract
  view of an allocator state is the set \<open>frames s\<close> of the numbers of its free frames.
\<close>

section \<open>State and constants\<close>

abbreviation HIGHERHALF_OFFSET :: u64 where "HIGHERHALF_OFFSET \<equiv> 0xffffffff80000000"
abbreviation MEM_VIRT_OFFSET :: u64 where "MEM_VIRT_OFFSET \<equiv> 0xffff800000000000"
abbreviation BMP_PAGES_PER_BYTE :: u64 where "BMP_PAGES_PER_BYTE \<equiv> 8"

definition PHYS_TO_VIRT :: "u64 \<Rightarrow> u64" where "PHYS_TO_VIRT a = a + MEM_VIRT_OFFSET"
definition VIRT_TO_PHYS :: "u64 \<Rightarrow> u64" where "VIRT_TO_PHYS a = a - MEM_VIRT_OFFSET"

definition NUM_PAGES :: "u64 \<Rightarrow> u64" where
  "NUM_PAGES num = (num + PAGE_SIZE - 1) div PAGE_SIZE"

definition PAGE_ALIGN_UP :: "u64 \<Rightarrow> u64" where
  "PAGE_ALIGN_UP num = NUM_PAGES num * PAGE_SIZE"

text \<open>The bootloader's memory map (\<open>kernel/boot/stivale2.h\<close>), read-only for the kernel.\<close>

record mmap_entry =
  base :: u64
  entry_length :: u64
  entry_type :: u32

abbreviation STIVALE2_MMAP_USABLE :: u32 where "STIVALE2_MMAP_USABLE \<equiv> 1"
abbreviation STIVALE2_MMAP_ACPI_RECLAIMABLE :: u32 where "STIVALE2_MMAP_ACPI_RECLAIMABLE \<equiv> 3"
abbreviation STIVALE2_MMAP_BOOTLOADER_RECLAIMABLE :: u32
  where "STIVALE2_MMAP_BOOTLOADER_RECLAIMABLE \<equiv> 0x1000"
abbreviation STIVALE2_MMAP_KERNEL_AND_MODULES :: u32
  where "STIVALE2_MMAP_KERNEL_AND_MODULES \<equiv> 0x1001"

record mem_info =
  phys_limit :: u64
  total_mem :: u64
  free_mem :: u64

record kernel =
  mem :: mem
  bitmap :: u64
  mmap :: "mmap_entry list"
  memstats :: mem_info
  lastusedpage :: u64

section \<open>Operations\<close>

definition bmp_addr :: "kernel \<Rightarrow> u64 \<Rightarrow> u64" where
  "bmp_addr s i = bitmap s + i div (PAGE_SIZE * BMP_PAGES_PER_BYTE)"

definition bmp_mask :: "u64 \<Rightarrow> u8" where
  "bmp_mask i = push_bit (unat ((i div PAGE_SIZE) mod BMP_PAGES_PER_BYTE)) 1"

definition mark_used_page :: "u64 \<Rightarrow> kernel \<Rightarrow> kernel" where
  "mark_used_page i s =
     s\<lparr>mem := (mem s)(bmp_addr s i := mem s (bmp_addr s i) AND NOT (bmp_mask i))\<rparr>"

definition bmp_markused :: "u64 \<Rightarrow> u64 \<Rightarrow> kernel \<Rightarrow> kernel result" where
  "bmp_markused addr numpages s =
     after_loop (for_pages (addr + numpages * PAGE_SIZE) (\<lambda>i s. Inl (mark_used_page i s)) addr s) Inr"

definition bmp_isfree :: "u64 \<Rightarrow> u64 \<Rightarrow> kernel \<Rightarrow> bool result" where
  "bmp_isfree addr numpages s =
     after_loop
       (for_pages (addr + numpages * PAGE_SIZE)
          (\<lambda>i free. if mem s (bmp_addr s i) AND bmp_mask i \<noteq> 0 then Inl True else Inr (Inr False))
          addr True)
       Inr"

definition add_free_mem :: "u64 \<Rightarrow> kernel \<Rightarrow> kernel" where
  "add_free_mem d s = s\<lparr>memstats := (memstats s)\<lparr>free_mem := free_mem (memstats s) + d\<rparr>\<rparr>"

definition free_page :: "u64 \<Rightarrow> kernel \<Rightarrow> kernel + kernel result" where
  "free_page i s =
     (case bmp_isfree i 1 s of
        Inl e \<Rightarrow> Inr (Inl e)
      | Inr isfree \<Rightarrow>
          let s = (if \<not> isfree then add_free_mem PAGE_SIZE s else s)
          in Inl (s\<lparr>mem := (mem s)(bmp_addr s i := mem s (bmp_addr s i) OR bmp_mask i)\<rparr>))"

definition pmm_free :: "u64 \<Rightarrow> u64 \<Rightarrow> kernel \<Rightarrow> kernel result" where
  "pmm_free addr numpages s =
     after_loop (for_pages (addr + numpages * PAGE_SIZE) free_page addr s) Inr"

definition pmm_alloc :: "u64 \<Rightarrow> u64 \<Rightarrow> kernel \<Rightarrow> (bool \<times> kernel) result" where
  "pmm_alloc addr numpages s =
     and_then (bmp_isfree addr numpages s) (\<lambda>free.
       if \<not> free then Inr (False, s)
       else and_then (bmp_markused addr numpages s) (\<lambda>s.
         Inr (True, add_free_mem (- (numpages * PAGE_SIZE)) s)))"

definition try_alloc :: "u64 \<Rightarrow> u64 \<Rightarrow> kernel \<Rightarrow> kernel + (u64 \<times> kernel) result" where
  "try_alloc numpages i s =
     (case pmm_alloc i numpages s of
        Inl e \<Rightarrow> Inr (Inl e)
      | Inr (ok, s') \<Rightarrow> if ok then Inr (Inr (i, s')) else Inl s')"

definition pmm_get :: "u64 \<Rightarrow> kernel \<Rightarrow> (u64 \<times> kernel) result" where
  "pmm_get numpages s =
     after_loop (for_pages (phys_limit (memstats s)) (try_alloc numpages) (lastusedpage s) s)
       (\<lambda>s. after_loop (for_pages (lastusedpage s) (try_alloc numpages) 0 s)
          (\<lambda>s. Inl (Kernel_Panic ''Out of Physical Memory'')))"

subsection \<open>Initialisation\<close>

definition below_1mb :: "mmap_entry \<Rightarrow> bool" where
  "below_1mb e \<longleftrightarrow> base e + entry_length e \<le> 0x100000"

definition is_ram :: "u32 \<Rightarrow> bool" where
  "is_ram t \<longleftrightarrow> t = STIVALE2_MMAP_USABLE \<or> t = STIVALE2_MMAP_BOOTLOADER_RECLAIMABLE
     \<or> t = STIVALE2_MMAP_ACPI_RECLAIMABLE \<or> t = STIVALE2_MMAP_KERNEL_AND_MODULES"

definition count_entry :: "mmap_entry \<Rightarrow> mem_info \<Rightarrow> mem_info" where
  "count_entry e st =
     (if below_1mb e then st
      else let newphyslimit = base e + entry_length e;
               st = (if newphyslimit > phys_limit st then st\<lparr>phys_limit := newphyslimit\<rparr> else st)
           in if is_ram (entry_type e) then st\<lparr>total_mem := total_mem st + entry_length e\<rparr> else st)"

text \<open>
  If no usable entry is large enough, \<open>bitmap\<close> keeps its initial value, the null pointer; the
  \<open>memset\<close> that follows then writes to address 0, as in the source.
\<close>

fun place_bitmap :: "u64 \<Rightarrow> mmap_entry list \<Rightarrow> u64 \<Rightarrow> u64" where
  "place_bitmap bm_size [] b = b"
| "place_bitmap bm_size (e # es) b =
     (if \<not> below_1mb e \<and> entry_length e \<ge> bm_size \<and> entry_type e = STIVALE2_MMAP_USABLE
      then PHYS_TO_VIRT (base e) else place_bitmap bm_size es b)"

fun free_entries :: "(mmap_entry \<Rightarrow> bool) \<Rightarrow> mmap_entry list \<Rightarrow> kernel \<Rightarrow> kernel result" where
  "free_entries p [] s = Inr s"
| "free_entries p (e # es) s =
     (if p e then and_then (pmm_free (base e) (NUM_PAGES (entry_length e)) s) (free_entries p es)
      else free_entries p es s)"

definition bitmap_size :: "mem_info \<Rightarrow> u64" where
  "bitmap_size st = phys_limit st div (PAGE_SIZE * BMP_PAGES_PER_BYTE)"

definition pmm_init :: "mmap_entry list \<Rightarrow> kernel \<Rightarrow> kernel result" where
  "pmm_init memmap s =
     (let s = s\<lparr>mmap := memmap, memstats := fold count_entry memmap (memstats s)\<rparr>;
          bm_size = bitmap_size (memstats s);
          s = s\<lparr>bitmap := place_bitmap bm_size memmap (bitmap s)\<rparr>;
          s = s\<lparr>mem := memset (bitmap s) 0 bm_size (mem s)\<rparr>
      in and_then
           (free_entries (\<lambda>e. \<not> below_1mb e \<and> entry_type e = STIVALE2_MMAP_USABLE) memmap s) (\<lambda>s.
         and_then (pmm_alloc (VIRT_TO_PHYS (bitmap s)) (NUM_PAGES bm_size) s) (\<lambda>(ok, s).
           Inr s)))"

definition pmm_reclaim_bootloader_mem :: "kernel \<Rightarrow> kernel result" where
  "pmm_reclaim_bootloader_mem s =
     free_entries (\<lambda>e. entry_type e = STIVALE2_MMAP_BOOTLOADER_RECLAIMABLE) (mmap s) s"

section \<open>The free frames\<close>

definition frame_bit :: "kernel \<Rightarrow> nat \<Rightarrow> bool" where
  "frame_bit s p \<longleftrightarrow> bit (mem s (bitmap s + of_nat (p div 8))) (p mod 8)"

definition frames :: "kernel \<Rightarrow> nat set" where
  "frames s = {p. p < 2 ^ 52 \<and> frame_bit s p}"

lemma frames_bounded: "p \<in> frames s \<Longrightarrow> p < 2 ^ 52"
  by (simp add: frames_def)

lemma bmp_addr_pfn: "bmp_addr s i = bitmap s + of_nat (pfn i div 8)"
proof -
  have "unat (i div (PAGE_SIZE * BMP_PAGES_PER_BYTE)) = pfn i div 8"
    by (simp add: pfn_def unat_div div_mult2_eq [symmetric])
  then have "i div (PAGE_SIZE * BMP_PAGES_PER_BYTE) = of_nat (pfn i div 8)"
    by (metis of_nat_unat ucast_id)
  then show ?thesis by (simp add: bmp_addr_def)
qed

lemma bmp_mask_pfn: "bmp_mask i = push_bit (pfn i mod 8) 1"
  by (simp add: bmp_mask_def pfn_def unat_div unat_mod)

lemma bmp_addr_eq_iff:
  assumes "p < 2 ^ 52"
  shows "bitmap s + of_nat (p div 8) = bmp_addr s i \<longleftrightarrow> p div 8 = pfn i div 8"
proof
  assume "bitmap s + of_nat (p div 8) = bmp_addr s i"
  then show "p div 8 = pfn i div 8"
    unfolding bmp_addr_pfn by (rule offset_inj) (use assms pfn_less [of i] in simp_all)
qed (simp add: bmp_addr_pfn)

lemma same_frame: "p div 8 = q div 8 \<Longrightarrow> p mod 8 = q mod 8 \<longleftrightarrow> p = (q :: nat)"
  by (metis mult_div_mod_eq)

lemma frame_bit_test: "mem s (bmp_addr s i) AND bmp_mask i \<noteq> 0 \<longleftrightarrow> pfn i \<in> frames s"
  using pfn_less [of i]
  by (simp add: frames_def frame_bit_def bmp_addr_pfn bmp_mask_pfn bit_iff_and_push_bit_not_eq_0)

lemma frames_mem_stats [simp]: "frames (s\<lparr>memstats := st\<rparr>) = frames s"
  by (simp add: frames_def frame_bit_def)

lemma frames_add_free_mem [simp]: "frames (add_free_mem d s) = frames s"
  by (simp add: add_free_mem_def)

lemma frames_mark_used: "frames (mark_used_page i s) = frames s - {pfn i}"
proof -
  have "frame_bit (mark_used_page i s) p \<longleftrightarrow> frame_bit s p \<and> p \<noteq> pfn i" if "p < 2 ^ 52" for p
    using bmp_addr_eq_iff [OF that, of s i] same_frame [of p "pfn i"]
    by (auto simp: frame_bit_def mark_used_page_def bmp_mask_pfn bit_simps)
  then show ?thesis by (auto simp: frames_def)
qed

lemma frames_set_bit:
  "frames (s\<lparr>mem := (mem s)(bmp_addr s i := mem s (bmp_addr s i) OR bmp_mask i)\<rparr>)
     = insert (pfn i) (frames s)" (is "frames ?s = _")
proof -
  have "frame_bit ?s p \<longleftrightarrow> frame_bit s p \<or> p = pfn i" if "p < 2 ^ 52" for p
    using bmp_addr_eq_iff [OF that, of s i] same_frame [of p "pfn i"]
    by (auto simp: frame_bit_def bmp_mask_pfn bit_simps)
  then show ?thesis using pfn_less [of i] by (auto simp: frames_def)
qed

section \<open>The loops, on page ranges that do not wrap\<close>

lemma pfn_page_seq:
  assumes "unat a + n * 4096 < 2 ^ 64"
  shows "pfn ` set (page_seq a n) = frame_range a n"
proof -
  have pfn: "pfn (a + of_nat k * PAGE_SIZE) = pfn a + k" if "k < n" for k
  proof -
    have k: "unat (of_nat k :: u64) = k" using that assms by (intro unat_of_nat64) simp
    then have "unat (of_nat k * PAGE_SIZE :: u64) = k * 4096"
      using that assms by (subst unat_mult_page) simp_all
    then have "unat (a + of_nat k * PAGE_SIZE) = unat a + k * 4096"
      using that assms by (subst unat_add_lt) simp_all
    then show ?thesis by (simp add: pfn_def)
  qed
  have "pfn ` set (page_seq a n) = (\<lambda>k. pfn (a + of_nat k * PAGE_SIZE)) ` {0..<n}"
    by (simp add: page_seq_def image_image)
  also have "\<dots> = (\<lambda>k. k + pfn a) ` {0..<n}"
    by (rule image_cong) (simp_all add: pfn)
  also have "\<dots> = frame_range a n"
    by (simp add: frame_range_def image_add_atLeastLessThan' add.commute)
  finally show ?thesis .
qed

lemma frame_range_Suc: "frame_range a (Suc n) = insert (pfn a) {Suc (pfn a) ..< Suc (pfn a) + n}"
  by (auto simp: frame_range_def)

lemma for_pages_no_wrap:
  assumes "no_wrap a n"
  shows "for_pages (a + n * PAGE_SIZE) body a s = Some (run_loop body (page_seq a (unat n)) s)"
proof (rule for_pages_run)
  show "unat (a + n * PAGE_SIZE) = unat a + unat n * 4096"
    using assms by (simp add: no_wrap_def unat_add_lt unat_mult_page)
qed (use assms in \<open>simp add: no_wrap_def\<close>)

lemma no_wrap_pages:
  assumes "no_wrap a n"
  shows "pfn ` set (page_seq a (unat n)) = frame_range a (unat n)"
  by (rule pfn_page_seq) (use assms in \<open>simp add: no_wrap_def\<close>)

lemma no_wrap_page:
  assumes "no_wrap a n" and "i \<in> set (page_seq a (unat n))"
  shows "no_wrap i 1"
proof -
  from assms(2) obtain k where k: "k < unat n" "i = a + of_nat k * PAGE_SIZE"
    by (auto simp: page_seq_def)
  have "unat (of_nat k :: u64) = k"
    using k(1) assms(1) by (intro unat_of_nat64) (simp add: no_wrap_def)
  then have "unat (of_nat k * PAGE_SIZE :: u64) = k * 4096"
    using k(1) assms(1) by (subst unat_mult_page) (simp_all add: no_wrap_def)
  then have "unat i = unat a + k * 4096"
    using k assms(1) by (simp add: no_wrap_def unat_add_lt)
  then show ?thesis using k(1) assms(1) by (simp add: no_wrap_def)
qed

lemma frame_range_1 [simp]: "frame_range a (Suc 0) = {pfn a}"
  by (auto simp: frame_range_def)

lemma run_isfree:
  "run_loop (\<lambda>i free. if mem s (bmp_addr s i) AND bmp_mask i \<noteq> 0 then Inl True
      else Inr (Inr False)) xs True
   = (if pfn ` set xs \<subseteq> frames s then Inl True else Inr (Inr False))"
  by (induction xs) (simp_all add: frame_bit_test)

lemma bmp_isfree_eq:
  assumes "no_wrap a n"
  shows "bmp_isfree a n s = Inr (frame_range a (unat n) \<subseteq> frames s)"
  by (simp add: bmp_isfree_def for_pages_no_wrap [OF assms] run_isfree no_wrap_pages [OF assms])

text \<open>The bitmap bytes that hold the bits of a set of frames.\<close>

definition bmp_bytes :: "kernel \<Rightarrow> nat set \<Rightarrow> u64 set" where
  "bmp_bytes s P = (\<lambda>p. bitmap s + of_nat (p div 8)) ` P"

text \<open>What every bitmap operation leaves alone.\<close>

definition same_but_frames :: "nat set \<Rightarrow> kernel \<Rightarrow> kernel \<Rightarrow> bool" where
  "same_but_frames P s s' \<longleftrightarrow>
     bitmap s' = bitmap s \<and> mmap s' = mmap s \<and> lastusedpage s' = lastusedpage s
     \<and> phys_limit (memstats s') = phys_limit (memstats s)
     \<and> total_mem (memstats s') = total_mem (memstats s)
     \<and> (\<forall>x. x \<notin> bmp_bytes s P \<longrightarrow> mem s' x = mem s x)"

lemma same_but_frames_refl [simp]: "same_but_frames P s s"
  by (simp add: same_but_frames_def)

lemma same_but_frames_trans:
  "same_but_frames P s t \<Longrightarrow> same_but_frames Q t u \<Longrightarrow> same_but_frames (P \<union> Q) s u"
  unfolding same_but_frames_def bmp_bytes_def by (simp add: image_Un)

lemma same_but_frames_add_free_mem [simp]:
  "same_but_frames P s (add_free_mem d t) = same_but_frames P s t"
  by (simp add: same_but_frames_def add_free_mem_def)

lemma same_but_frames_mark: "same_but_frames {pfn i} s (mark_used_page i s)"
  by (simp add: same_but_frames_def mark_used_page_def bmp_bytes_def bmp_addr_pfn)

lemma same_but_frames_set_bit:
  "same_but_frames {pfn i} s
     (s\<lparr>mem := (mem s)(bmp_addr s i := mem s (bmp_addr s i) OR bmp_mask i)\<rparr>)"
  by (simp add: same_but_frames_def bmp_bytes_def bmp_addr_pfn)

lemma run_markused: "run_loop (\<lambda>i s. Inl (mark_used_page i s)) xs s = Inl (fold mark_used_page xs s)"
  by (induction xs arbitrary: s) simp_all

lemma frames_fold_mark: "frames (fold mark_used_page xs s) = frames s - pfn ` set xs"
  by (induction xs arbitrary: s) (auto simp: frames_mark_used)

lemma fold_mark_same: "same_but_frames (pfn ` set xs) s (fold mark_used_page xs s)"
proof (induction xs arbitrary: s)
  case (Cons x xs)
  have "same_but_frames ({pfn x} \<union> pfn ` set xs) s (fold mark_used_page xs (mark_used_page x s))"
    by (rule same_but_frames_trans [OF same_but_frames_mark Cons.IH])
  then show ?case by simp
qed simp

lemma fold_mark_memstats [simp]: "memstats (fold mark_used_page xs s) = memstats s"
  by (induction xs arbitrary: s) (simp_all add: mark_used_page_def)

lemma bmp_markused_eq:
  assumes "no_wrap a n"
  shows "bmp_markused a n s = Inr (fold mark_used_page (page_seq a (unat n)) s)"
  by (simp add: bmp_markused_def for_pages_no_wrap [OF assms] run_markused)

section \<open>Freeing\<close>

definition set_free_page :: "u64 \<Rightarrow> kernel \<Rightarrow> kernel" where
  "set_free_page i s =
     (let s = (if pfn i \<in> frames s then s else add_free_mem PAGE_SIZE s)
      in s\<lparr>mem := (mem s)(bmp_addr s i := mem s (bmp_addr s i) OR bmp_mask i)\<rparr>)"

lemma free_page_eq: "no_wrap i 1 \<Longrightarrow> free_page i s = Inl (set_free_page i s)"
  by (simp add: free_page_def bmp_isfree_eq set_free_page_def Let_def)

lemma run_free_page:
  "(\<And>i. i \<in> set xs \<Longrightarrow> no_wrap i 1) \<Longrightarrow> run_loop free_page xs s = Inl (fold set_free_page xs s)"
  by (induction xs arbitrary: s) (simp_all add: free_page_eq)

lemma frames_set_free_page: "frames (set_free_page i s) = insert (pfn i) (frames s)"
  unfolding set_free_page_def Let_def frames_set_bit by simp

lemma frames_fold_free: "frames (fold set_free_page xs s) = frames s \<union> pfn ` set xs"
  by (induction xs arbitrary: s) (simp_all add: frames_set_free_page)

lemma set_free_page_same: "same_but_frames {pfn i} s (set_free_page i s)"
  by (simp add: same_but_frames_def set_free_page_def Let_def add_free_mem_def bmp_bytes_def
      bmp_addr_pfn)

lemma fold_free_same: "same_but_frames (pfn ` set xs) s (fold set_free_page xs s)"
proof (induction xs arbitrary: s)
  case (Cons x xs)
  have "same_but_frames ({pfn x} \<union> pfn ` set xs) s (fold set_free_page xs (set_free_page x s))"
    by (rule same_but_frames_trans [OF set_free_page_same Cons.IH])
  then show ?case by simp
qed simp

lemma free_mem_fold_free:
  "free_mem (memstats (fold set_free_page xs s))
     = free_mem (memstats s) + of_nat (4096 * card (pfn ` set xs - frames s))"
proof (induction xs arbitrary: s)
  case (Cons x xs)
  let ?P = "pfn ` set xs" and ?F = "frames s"
  have step: "free_mem (memstats (set_free_page x s))
      = free_mem (memstats s) + (if pfn x \<in> ?F then 0 else 4096)"
    by (simp add: set_free_page_def Let_def add_free_mem_def)
  have card: "card (insert (pfn x) ?P - ?F)
      = card (?P - insert (pfn x) ?F) + (if pfn x \<in> ?F then 0 else 1)"
  proof (cases "pfn x \<in> ?F")
    case True
    then have eq: "insert (pfn x) ?P - ?F = ?P - insert (pfn x) ?F" by auto
    show ?thesis by (simp only: eq True if_True add_0_right)
  next
    case False
    then have eq: "insert (pfn x) ?P - ?F = insert (pfn x) (?P - insert (pfn x) ?F)" by auto
    have "card (insert (pfn x) (?P - insert (pfn x) ?F)) = Suc (card (?P - insert (pfn x) ?F))"
      by (rule card_insert_disjoint) auto
    then show ?thesis by (simp only: eq False if_False Suc_eq_plus1)
  qed
  show ?case
    using Cons.IH [of "set_free_page x s"] by (simp add: frames_set_free_page step card)
qed simp

lemma pmm_free_eq:
  assumes "no_wrap a n"
  shows "pmm_free a n s = Inr (fold set_free_page (page_seq a (unat n)) s)"
proof -
  have "run_loop free_page (page_seq a (unat n)) s = Inl (fold set_free_page (page_seq a (unat n)) s)"
    by (rule run_free_page) (rule no_wrap_page [OF assms])
  then show ?thesis by (simp add: pmm_free_def for_pages_no_wrap [OF assms])
qed

lemma pmm_free_spec:
  assumes "no_wrap a n"
  obtains s' where "pmm_free a n s = Inr s'"
    and "frames s' = frames s \<union> frame_range a (unat n)"
    and "free_mem (memstats s') =
          free_mem (memstats s) + of_nat (4096 * card (frame_range a (unat n) - frames s))"
    and "same_but_frames (frame_range a (unat n)) s s'"
proof (rule that [OF pmm_free_eq [OF assms]])
  let ?xs = "page_seq a (unat n)"
  note pages = no_wrap_pages [OF assms]
  show "frames (fold set_free_page ?xs s) = frames s \<union> frame_range a (unat n)"
    unfolding pages [symmetric] by (rule frames_fold_free)
  show "free_mem (memstats (fold set_free_page ?xs s)) =
      free_mem (memstats s) + of_nat (4096 * card (frame_range a (unat n) - frames s))"
    unfolding pages [symmetric] by (rule free_mem_fold_free)
  show "same_but_frames (frame_range a (unat n)) s (fold set_free_page ?xs s)"
    unfolding pages [symmetric] by (rule fold_free_same)
qed

section \<open>Allocating\<close>

lemma pmm_alloc_refuses:
  assumes "no_wrap a n" and "\<not> frame_range a (unat n) \<subseteq> frames s"
  shows "pmm_alloc a n s = Inr (False, s)"
  using assms by (simp add: pmm_alloc_def bmp_isfree_eq)

definition take_pages :: "u64 \<Rightarrow> u64 \<Rightarrow> kernel \<Rightarrow> kernel" where
  "take_pages a n s =
     add_free_mem (- (n * PAGE_SIZE)) (fold mark_used_page (page_seq a (unat n)) s)"

lemma pmm_alloc_takes:
  assumes "no_wrap a n" and "frame_range a (unat n) \<subseteq> frames s"
  shows "pmm_alloc a n s = Inr (True, take_pages a n s)"
  using assms by (simp add: pmm_alloc_def bmp_isfree_eq bmp_markused_eq take_pages_def)

lemma frames_take_pages:
  "no_wrap a n \<Longrightarrow> frames (take_pages a n s) = frames s - frame_range a (unat n)"
  by (simp add: take_pages_def frames_fold_mark no_wrap_pages)

lemma free_mem_take_pages:
  "free_mem (memstats (take_pages a n s)) = free_mem (memstats s) - n * PAGE_SIZE"
  by (simp add: take_pages_def add_free_mem_def)

lemma take_pages_same:
  "no_wrap a n \<Longrightarrow> same_but_frames (frame_range a (unat n)) s (take_pages a n s)"
  using fold_mark_same [of "page_seq a (unat n)" s] by (simp add: take_pages_def no_wrap_pages)

lemmas take_pages_simps = frames_take_pages free_mem_take_pages take_pages_same

section \<open>The search for a free run\<close>

text \<open>
  The static \<open>lastusedpage\<close> is never assigned in the source, so it keeps its initial value 0
  and the search is first fit from physical address 0.
\<close>

definition pmm_ready :: "u64 \<Rightarrow> kernel \<Rightarrow> bool" where
  "pmm_ready n s \<longleftrightarrow> lastusedpage s = 0
     \<and> unat (phys_limit (memstats s)) + (unat n + 1) * 4096 \<le> 2 ^ 64"

definition candidates :: "kernel \<Rightarrow> u64 list" where
  "candidates s = page_seq 0 ((unat (phys_limit (memstats s)) + 4095) div 4096)"

lemma run_try_alloc:
  "(\<And>i. i \<in> set xs \<Longrightarrow> no_wrap i n) \<Longrightarrow>
   run_loop (try_alloc n) xs s =
     (case find (\<lambda>i. frame_range i (unat n) \<subseteq> frames s) xs of
        None \<Rightarrow> Inl s | Some i \<Rightarrow> Inr (Inr (i, take_pages i n s)))"
  by (induction xs) (simp_all add: try_alloc_def pmm_alloc_refuses pmm_alloc_takes)

lemma unat_page_address:
  assumes "p * 4096 < 2 ^ 64"
  shows "unat (of_nat p * PAGE_SIZE :: u64) = p * 4096" and "pfn (of_nat p * PAGE_SIZE) = p"
proof -
  have "unat (of_nat p :: u64) = p" using assms by (intro unat_of_nat64) simp
  then show *: "unat (of_nat p * PAGE_SIZE :: u64) = p * 4096"
    using assms by (subst unat_mult_page) simp_all
  show "pfn (of_nat p * PAGE_SIZE) = p" unfolding pfn_def * by simp
qed

lemma candidate_no_wrap:
  assumes "pmm_ready n s" and "p * 4096 < unat (phys_limit (memstats s))"
  shows "no_wrap (of_nat p * PAGE_SIZE) n"
proof -
  have p: "p * 4096 < 2 ^ 64"
    using assms(2) unsigned_less [of "phys_limit (memstats s)", where ?'a = nat] by simp
  show ?thesis
    using assms unfolding no_wrap_def pmm_ready_def unat_page_address(1) [OF p] by simp
qed

lemma candidates_eq:
  "candidates s = map (\<lambda>p. of_nat p * PAGE_SIZE)
     [0..<(unat (phys_limit (memstats s)) + 4095) div 4096]"
  by (simp add: candidates_def page_seq_def)

lemma candidate_bound: "p < (L + 4095) div 4096 \<longleftrightarrow> p * 4096 < (L :: nat)"
proof -
  have "Suc p \<le> (L + 4095) div 4096 \<longleftrightarrow> Suc p * 4096 \<le> L + 4095"
    by (rule less_eq_div_iff_mult_less_eq) simp
  then show ?thesis unfolding Suc_le_eq by linarith
qed

lemma pmm_get_eq:
  assumes "pmm_ready n s"
  shows "pmm_get n s =
    (case find (\<lambda>i. frame_range i (unat n) \<subseteq> frames s) (candidates s) of
       None \<Rightarrow> Inl (Kernel_Panic ''Out of Physical Memory'')
     | Some i \<Rightarrow> Inr (i, take_pages i n s))"
proof -
  let ?L = "unat (phys_limit (memstats s))"
  let ?N = "(?L + 4095) div 4096"
  have "?N * 4096 \<le> ?L + 4095" by (rule div_times_less_eq_dividend)
  also have "\<dots> < 2 ^ 64" using assms by (simp add: pmm_ready_def)
  finally have N: "?N * 4096 < 2 ^ 64" .
  have bounds: "?L \<le> ?N * 4096" "0 < ?N \<Longrightarrow> (?N - 1) * 4096 < ?L"
    using candidate_bound [of ?N ?L] candidate_bound [of "?N - 1" ?L] by linarith+
  have search: "for_pages (phys_limit (memstats s)) (try_alloc n) 0 s
      = Some (run_loop (try_alloc n) (candidates s) s)"
    unfolding candidates_def by (rule for_pages_run_upto) (use N bounds in simp_all)
  have second: "for_pages 0 (try_alloc n) 0 s = Some (Inl s)"
    by (subst for_pages.simps) simp
  have "no_wrap i n" if "i \<in> set (candidates s)" for i
    using that candidate_no_wrap [OF assms] by (auto simp: candidates_eq candidate_bound)
  then have "for_pages (phys_limit (memstats s)) (try_alloc n) 0 s =
      Some (case find (\<lambda>i. frame_range i (unat n) \<subseteq> frames s) (candidates s) of
        None \<Rightarrow> Inl s | Some i \<Rightarrow> Inr (Inr (i, take_pages i n s)))"
    by (simp only: search run_try_alloc)
  moreover have "lastusedpage s = 0" using assms by (simp add: pmm_ready_def)
  ultimately show ?thesis
    by (cases "find (\<lambda>i. frame_range i (unat n) \<subseteq> frames s) (candidates s)")
      (use second in \<open>simp_all add: pmm_get_def\<close>)
qed

lemma find_map_upt:
  "find P (map f [0..<n]) = Some y \<longleftrightarrow>
     (\<exists>p<n. y = f p \<and> P (f p) \<and> (\<forall>q<p. \<not> P (f q)))"
  by (auto simp: find_Some_iff)

lemma frame_range_page:
  assumes "p * 4096 < unat (phys_limit (memstats s))"
  shows "frame_range (of_nat p * PAGE_SIZE) k = {p..<p + k}"
proof -
  have "p * 4096 < 2 ^ 64"
    using assms unsigned_less [of "phys_limit (memstats s)", where ?'a = nat] by simp
  then show ?thesis by (simp add: frame_range_def unat_page_address(2))
qed

lemma pmm_get_InrE:
  assumes "pmm_ready n s" and "pmm_get n s = Inr (a, s')"
  obtains p where "a = of_nat p * PAGE_SIZE" and "p * 4096 < unat (phys_limit (memstats s))"
    and "{p..<p + unat n} \<subseteq> frames s" and "\<And>q. q < p \<Longrightarrow> \<not> {q..<q + unat n} \<subseteq> frames s"
    and "s' = take_pages a n s" and "no_wrap a n" and "frame_range a (unat n) = {p..<p + unat n}"
proof -
  let ?L = "unat (phys_limit (memstats s))"
  let ?ok = "\<lambda>i. frame_range i (unat n) \<subseteq> frames s"
  have "find ?ok (candidates s) = Some a" "s' = take_pages a n s"
    using assms(2) by (auto simp: pmm_get_eq [OF assms(1)] split: option.splits)
  then obtain p where p: "p < (?L + 4095) div 4096" "a = of_nat p * PAGE_SIZE" "?ok a"
      "\<forall>q<p. \<not> ?ok (of_nat q * PAGE_SIZE)"
    unfolding candidates_eq find_map_upt by blast
  have pL: "p * 4096 < ?L" using p(1) by (simp add: candidate_bound)
  have range: "frame_range (of_nat q * PAGE_SIZE) (unat n) = {q..<q + unat n}" if "q \<le> p" for q
    by (rule frame_range_page [where s = s]) (use that pL in simp)
  show thesis
  proof (rule that)
    show "{p..<p + unat n} \<subseteq> frames s" using p(2,3) range by auto
    show "\<not> {q..<q + unat n} \<subseteq> frames s" if "q < p" for q
      using p(4) range that by auto
    show "no_wrap a n" unfolding p(2) by (rule candidate_no_wrap [OF assms(1) pL])
  qed (use p pL range \<open>s' = take_pages a n s\<close> in auto)
qed

lemma pmm_get_Inl:
  assumes "pmm_ready n s" and "pmm_get n s = Inl e"
  shows "e = Kernel_Panic ''Out of Physical Memory''"
    and "q * 4096 < unat (phys_limit (memstats s)) \<Longrightarrow> \<not> {q..<q + unat n} \<subseteq> frames s"
proof -
  let ?ok = "\<lambda>i. frame_range i (unat n) \<subseteq> frames s"
  show "e = Kernel_Panic ''Out of Physical Memory''"
    using assms(2) by (auto simp: pmm_get_eq [OF assms(1)] split: option.splits)
  have "find ?ok (candidates s) = None"
    using assms(2) by (auto simp: pmm_get_eq [OF assms(1)] split: option.splits)
  then have none: "\<forall>i\<in>set (candidates s). \<not> ?ok i" by (simp add: find_None_iff)
  assume q: "q * 4096 < unat (phys_limit (memstats s))"
  then have "of_nat q * PAGE_SIZE \<in> set (candidates s)"
    by (simp add: candidates_eq candidate_bound)
  then show "\<not> {q..<q + unat n} \<subseteq> frames s"
    using none frame_range_page [OF q, of "unat n"] by auto
qed

section \<open>The accounting of free memory\<close>

definition tracked :: "kernel \<Rightarrow> nat set" where
  "tracked s = {..<pfn (phys_limit (memstats s))}"

definition mem_accounted :: "kernel \<Rightarrow> bool" where
  "mem_accounted s \<longleftrightarrow> unat (free_mem (memstats s)) = 4096 * card (frames s \<inter> tracked s)"

lemma tracked_same: "same_but_frames P s s' \<Longrightarrow> tracked s' = tracked s"
  by (simp add: same_but_frames_def tracked_def)

lemma card_tracked: "4096 * card (A \<inter> tracked s) < 2 ^ 64"
proof -
  have "card (A \<inter> tracked s) \<le> card (tracked s)" by (intro card_mono) (auto simp: tracked_def)
  also have "\<dots> = pfn (phys_limit (memstats s))" by (simp add: tracked_def)
  finally show ?thesis using pfn_less [of "phys_limit (memstats s)"] by simp
qed

lemma card_frame_range [simp]: "card (frame_range a n) = n"
  by (simp add: frame_range_def)

lemma finite_frame_range [simp]: "finite (frame_range a n)"
  by (simp add: frame_range_def)

lemma finite_tracked [simp]: "finite (tracked s)"
  by (simp add: tracked_def)

lemma mem_accounted_take:
  assumes "no_wrap a n" and "mem_accounted s"
    and "frame_range a (unat n) \<subseteq> frames s \<inter> tracked s"
  shows "mem_accounted (take_pages a n s)"
proof -
  let ?R = "frame_range a (unat n)"
  have t: "tracked (take_pages a n s) = tracked s"
    by (rule tracked_same [OF take_pages_same [OF assms(1)]])
  have "card (frames s \<inter> tracked s - ?R) = card (frames s \<inter> tracked s) - unat n"
    by (subst card_Diff_subset) (use assms(3) in auto)
  moreover have le: "unat n \<le> card (frames s \<inter> tracked s)"
    using card_mono [OF _ assms(3)] by simp
  moreover have "(frames s - ?R) \<inter> tracked s = frames s \<inter> tracked s - ?R" by auto
  moreover have "unat (n * PAGE_SIZE) = unat n * 4096"
    using assms(1) by (intro unat_mult_page) (simp add: no_wrap_def)
  then have "unat (free_mem (memstats s) - n * PAGE_SIZE)
      = 4096 * card (frames s \<inter> tracked s) - unat n * 4096"
    using assms(2) le by (subst unat_sub) (simp_all add: mem_accounted_def word_le_nat_alt)
  ultimately show ?thesis
    by (simp add: mem_accounted_def t frames_take_pages [OF assms(1)] free_mem_take_pages
        diff_mult_distrib2)
qed

lemma mem_accounted_free:
  assumes "no_wrap a n" and "pmm_free a n s = Inr s'" and "mem_accounted s"
    and "frame_range a (unat n) \<subseteq> tracked s"
  shows "mem_accounted s'"
proof -
  let ?R = "frame_range a (unat n)" and ?F = "frames s" and ?T = "tracked s"
  from pmm_free_spec [OF assms(1), of s] assms(2)
  have s': "frames s' = ?F \<union> ?R" "same_but_frames ?R s s'"
      "free_mem (memstats s') = free_mem (memstats s) + of_nat (4096 * card (?R - ?F))"
    by auto
  have "(?F \<union> ?R) \<inter> ?T = (?F \<inter> ?T) \<union> (?R - ?F)" using assms(4) by auto
  then have card: "card ((?F \<union> ?R) \<inter> ?T) = card (?F \<inter> ?T) + card (?R - ?F)"
    by (simp only:) (rule card_Un_disjoint, auto)
  have "4096 * card ((?F \<union> ?R) \<inter> ?T) < 2 ^ 64" by (rule card_tracked)
  then have "unat (free_mem (memstats s) + of_nat (4096 * card (?R - ?F)))
      = 4096 * card ((?F \<union> ?R) \<inter> ?T)"
    using assms(3) card by (simp add: mem_accounted_def unat_add_lt del: of_nat_mult)
  then show ?thesis
    by (simp only: mem_accounted_def s' tracked_same [OF s'(2)])
qed

section \<open>The allocator's contract\<close>

lemma pmm_ready_take:
  assumes "pmm_ready m s" and "no_wrap a n"
  shows "pmm_ready m (take_pages a n s)"
  using assms(1) take_pages_same [OF assms(2), of s]
  by (simp add: pmm_ready_def same_but_frames_def)

interpretation pmm: frame_allocator pmm_get pmm_free frames pmm_ready
proof
  fix n a s s' assume get: "pmm_ready n s" "pmm_get n s = Inr (a, s')"
  from get obtain p where "s' = take_pages a n s" "no_wrap a n" "a = of_nat p * PAGE_SIZE"
      "p * 4096 < unat (phys_limit (memstats s))" "{p..<p + unat n} \<subseteq> frames s"
      "frame_range a (unat n) = {p..<p + unat n}"
    by (rule pmm_get_InrE)
  moreover have "p * 4096 < 2 ^ 64"
    using \<open>p * 4096 < unat _\<close> unsigned_less [of "phys_limit (memstats s)", where ?'a = nat] by simp
  ultimately show "no_wrap a n \<and> unat a mod 4096 = 0
      \<and> frame_range a (unat n) \<subseteq> frames s \<and> frames s' = frames s - frame_range a (unat n)"
    by (simp add: frames_take_pages unat_page_address(1))
next
  fix n m a s s' assume get: "pmm_ready n s" "pmm_get n s = Inr (a, s')" "pmm_ready m s"
  from get(1,2) show "pmm_ready m s'"
    by (rule pmm_get_InrE) (simp add: pmm_ready_take [OF get(3)])
next
  fix a n s assume "no_wrap a n"
  then show "\<exists>s'. pmm_free a n s = Inr s' \<and> frames s' = frames s \<union> frame_range a (unat n)"
    using pmm_free_spec by metis
qed

section \<open>Properties\<close>

text \<open>
  A machine with eight frames (32 KiB), the bitmap in frame 0 and the other seven frames free;
  the witnesses are evaluated on it.
\<close>

definition example_kernel :: kernel where
  "example_kernel =
     \<lparr>mem = (\<lambda>_. 0)(MEM_VIRT_OFFSET := 0xFE), bitmap = MEM_VIRT_OFFSET, mmap = [],
      memstats = \<lparr>phys_limit = 0x8000, total_mem = 0x8000, free_mem = 0x7000\<rparr>, lastusedpage = 0\<rparr>"

lemma frames_example: "frames example_kernel = {1..<8}"
proof -
  have "frame_bit example_kernel p \<longleftrightarrow> 0 < p \<and> p < 8" if p: "p < 2 ^ 52" for p
  proof (cases "p < 8")
    case True
    then have "p = 0 \<or> p = 1 \<or> p = 2 \<or> p = 3 \<or> p = 4 \<or> p = 5 \<or> p = 6 \<or> p = 7" by linarith
    then show ?thesis
      by (elim disjE) (simp_all add: frame_bit_def example_kernel_def)
  next
    case False
    have "of_nat (p div 8) \<noteq> (0 :: u64)"
    proof
      assume "of_nat (p div 8) = (0 :: u64)"
      then have "unat (of_nat (p div 8) :: u64) = 0" by simp
      then show False using False p by simp
    qed
    then show ?thesis using False by (simp add: frame_bit_def example_kernel_def)
  qed
  then show ?thesis by (auto simp: frames_def)
qed

lemma example_simps:
  "memstats example_kernel = \<lparr>phys_limit = 0x8000, total_mem = 0x8000, free_mem = 0x7000\<rparr>"
  "lastusedpage example_kernel = 0" "bitmap example_kernel = MEM_VIRT_OFFSET"
  "tracked example_kernel = {..<8}"
  by (simp_all add: example_kernel_def tracked_def pfn_def)

lemma pmm_ready_example: "pmm_ready 2 example_kernel"
  by (simp add: pmm_ready_def example_simps)

lemma mem_accounted_example: "mem_accounted example_kernel"
proof -
  have "{1..<8} \<inter> {..<8} = {1..<8 :: nat}" by auto
  then show ?thesis by (simp add: mem_accounted_def frames_example example_simps)
qed

text \<open>The search on the example stops at the first frame that fits.\<close>

lemma pmm_get_example: "pmm_get 2 example_kernel = Inr (0x1000, take_pages 0x1000 2 example_kernel)"
proof -
  have c: "candidates example_kernel = [0, 0x1000, 0x2000, 0x3000, 0x4000, 0x5000, 0x6000, 0x7000]"
    by (simp add: candidates_def example_simps page_seq_def upt_rec)
  have "\<not> frame_range 0 2 \<subseteq> {1..<8}" and "frame_range 0x1000 2 \<subseteq> {1..<8}"
    by (auto simp: frame_range_def pfn_def)
  then show ?thesis
    by (simp add: pmm_get_eq [OF pmm_ready_example] c frames_example)
qed

text \<open>C18: \<open>pmm_free\<close> implements set union on the free frames: it returns, exactly the frames of
  the range become free, \<open>free_mem\<close> grows by 4096 for each frame that was not free before (so a
  double free is not counted twice), and no memory but the bitmap bytes of the range changes.\<close>

theorem pmm_free_refines:
  assumes "no_wrap a n"
  shows "\<exists>s'. pmm_free a n s = Inr s' \<and> frames s' = frames s \<union> frame_range a (unat n)
    \<and> free_mem (memstats s') =
        free_mem (memstats s) + of_nat (4096 * card (frame_range a (unat n) - frames s))
    \<and> same_but_frames (frame_range a (unat n)) s s'"
  using pmm_free_spec [OF assms] by metis

theorem pmm_free_refines_witness:
  "\<exists>s'. pmm_free 0 2 example_kernel = Inr s' \<and> frames s' = {0..<8}
     \<and> free_mem (memstats s') = 0x8000"
proof -
  have r: "frame_range 0 (unat (2 :: u64)) = {0, 1}" by (auto simp: frame_range_def pfn_def)
  have sets: "{0, 1} - {1..<8} = {0 :: nat}" "{1..<8} \<union> {0, 1} = {0..<8 :: nat}" by auto
  have "no_wrap 0 2" by (simp add: no_wrap_def)
  from pmm_free_refines [OF this, of example_kernel]
  obtain s' where s': "pmm_free 0 2 example_kernel = Inr s'" "frames s' = {0..<8}"
      "free_mem (memstats s') = 0x7000 + of_nat (4096 * card {0 :: nat})"
    unfolding r frames_example sets by (auto simp: example_simps)
  have "free_mem (memstats s') = 0x8000" unfolding s'(3) by simp
  with s' show ?thesis by blast
qed

text \<open>\<open>pmm_alloc\<close> is all or nothing: it takes the whole range and charges it to \<open>free_mem\<close>
  if every frame of it is free, and otherwise reports failure with the state unchanged.\<close>

theorem pmm_alloc_all_or_nothing:
  assumes "no_wrap a n"
  shows "if frame_range a (unat n) \<subseteq> frames s
    then \<exists>s'. pmm_alloc a n s = Inr (True, s') \<and> frames s' = frames s - frame_range a (unat n)
        \<and> free_mem (memstats s') = free_mem (memstats s) - n * PAGE_SIZE
        \<and> same_but_frames (frame_range a (unat n)) s s'
    else pmm_alloc a n s = Inr (False, s)"
  using assms by (simp add: pmm_alloc_takes pmm_alloc_refuses take_pages_simps)

theorem pmm_alloc_all_or_nothing_witness:
  "pmm_alloc 0 2 example_kernel = Inr (False, example_kernel)"
proof -
  have "\<not> frame_range 0 (unat (2 :: u64)) \<subseteq> {1..<8}" by (auto simp: frame_range_def pfn_def)
  then show ?thesis
    using pmm_alloc_all_or_nothing [of 0 2 example_kernel] by (simp add: no_wrap_def frames_example)
qed

text \<open>C17: \<open>pmm_get\<close> is first fit and complete: when it returns a page, all frames of the run are
  free and no lower run below the physical limit fits; when it does not return, it has panicked
  and no run that starts below the physical limit is free.\<close>

theorem pmm_get_first_fit:
  assumes "pmm_ready n s"
  shows "case pmm_get n s of
      Inr (a, s') \<Rightarrow> \<exists>p. a = of_nat p * PAGE_SIZE \<and> p * 4096 < unat (phys_limit (memstats s))
        \<and> {p..<p + unat n} \<subseteq> frames s \<and> (\<forall>q<p. \<not> {q..<q + unat n} \<subseteq> frames s)
        \<and> frames s' = frames s - {p..<p + unat n}
    | Inl e \<Rightarrow> e = Kernel_Panic ''Out of Physical Memory''
        \<and> (\<forall>q. q * 4096 < unat (phys_limit (memstats s)) \<longrightarrow> \<not> {q..<q + unat n} \<subseteq> frames s)"
proof (cases "pmm_get n s")
  case (Inl e)
  then show ?thesis using pmm_get_Inl [OF assms Inl] by auto
next
  case (Inr r)
  obtain a s' where r: "r = (a, s')" by (cases r)
  from assms Inr [unfolded r] show ?thesis
    by (rule pmm_get_InrE) (use Inr r in \<open>auto simp: frames_take_pages\<close>)
qed

theorem pmm_get_first_fit_witness:
  "\<exists>p. (0x1000 :: u64) = of_nat p * PAGE_SIZE \<and> {p..<p + 2} \<subseteq> {1..<8}"
  using pmm_get_first_fit [OF pmm_ready_example]
  by (auto simp: pmm_get_example frames_example)

text \<open>The books balance: if \<open>free_mem\<close> is 4096 times the number of free frames below the
  physical limit, it still is after a \<open>pmm_alloc\<close> or \<open>pmm_free\<close> of frames below the limit
  (also when the allocation is refused, and when frames are freed twice).\<close>

theorem pmm_free_mem_accounted:
  assumes "no_wrap a n" and "mem_accounted s" and "frame_range a (unat n) \<subseteq> tracked s"
  shows "(\<exists>ok s'. pmm_alloc a n s = Inr (ok, s') \<and> mem_accounted s')
    \<and> (\<exists>s'. pmm_free a n s = Inr s' \<and> mem_accounted s')"
proof
  show "\<exists>ok s'. pmm_alloc a n s = Inr (ok, s') \<and> mem_accounted s'"
    using assms pmm_alloc_refuses pmm_alloc_takes mem_accounted_take
    by (cases "frame_range a (unat n) \<subseteq> frames s") (metis Int_subset_iff)+
  show "\<exists>s'. pmm_free a n s = Inr s' \<and> mem_accounted s'"
    using pmm_free_spec [OF assms(1), of s] mem_accounted_free assms by metis
qed

theorem pmm_free_mem_accounted_witness:
  "\<exists>s'. pmm_free 0 2 example_kernel = Inr s' \<and> mem_accounted s'"
proof -
  have "frame_range 0 (unat (2 :: u64)) \<subseteq> tracked example_kernel"
    by (auto simp: frame_range_def pfn_def example_simps)
  then show ?thesis
    using pmm_free_mem_accounted [of 0 2 example_kernel] mem_accounted_example
    by (simp add: no_wrap_def)
qed

text \<open>Two allocations that are both live never share a frame.\<close>

theorem pmm_gets_disjoint:
  assumes "pmm_ready n s" and "pmm_ready m s"
    and "pmm_get n s = Inr (a, s1)" and "pmm_get m s1 = Inr (b, s2)"
  shows "frame_range a (unat n) \<inter> frame_range b (unat m) = {}"
  using assms by (rule pmm.gets_disjoint)

theorem pmm_gets_disjoint_witness:
  "\<exists>b s2. pmm_get 2 (take_pages 0x1000 2 example_kernel) = Inr (b, s2)
     \<and> frame_range 0x1000 2 \<inter> frame_range b 2 = {}"
proof -
  let ?s = "take_pages 0x1000 2 example_kernel"
  have nw: "no_wrap 0x1000 2" by (simp add: no_wrap_def)
  have r: "frame_range 0x1000 (unat (2 :: u64)) = {1, 2}" by (auto simp: frame_range_def pfn_def)
  have "{1..<8} - {1, 2} = {3..<8 :: nat}" by auto
  then have fr: "frames ?s = {3..<8}"
    unfolding frames_take_pages [OF nw] r frames_example .
  have lim: "phys_limit (memstats ?s) = 0x8000"
    using take_pages_same [OF nw, of example_kernel] by (simp add: same_but_frames_def example_simps)
  have ready: "pmm_ready 2 ?s" by (rule pmm_ready_take [OF pmm_ready_example nw])
  have "\<exists>b s2. pmm_get 2 ?s = Inr (b, s2)"
  proof (cases "pmm_get 2 ?s")
    case (Inl e)
    have "3 * 4096 < unat (phys_limit (memstats ?s))" unfolding lim by simp
    from pmm_get_Inl(2) [OF ready Inl this] have "\<not> {3..<5} \<subseteq> {3..<8 :: nat}"
      unfolding fr by simp
    then show ?thesis by simp
  next
    case (Inr r)
    then show ?thesis by (cases r) simp
  qed
  then obtain b s2 where g: "pmm_get 2 ?s = Inr (b, s2)" by blast
  have "unat (2 :: u64) = 2" by simp
  then have "frame_range 0x1000 2 \<inter> frame_range b 2 = {}"
    using pmm_gets_disjoint [OF pmm_ready_example pmm_ready_example pmm_get_example g] by metis
  with g show ?thesis by blast
qed

end
