(* ===== verification/Kmalloc.thy ===== *)
theory Kmalloc
  imports Pmm
begin

text \<open>
  \<open>kernel/lib/kmalloc.c\<close>: the kernel heap. A block of \<open>size\<close> bytes is a run of whole pages; the
  page before the block holds its \<open>struct metadata\<close> (\<open>numpages\<close> at offset 0, \<open>size\<close> at offset
  8), written through the direct map.
\<close>

section \<open>Operations\<close>

definition store_meta :: "u64 \<Rightarrow> u64 \<Rightarrow> u64 \<Rightarrow> kernel \<Rightarrow> kernel" where
  "store_meta d numpages sz s =
     s\<lparr>mem := store64 (d + 8) sz (store64 d numpages (mem s))\<rparr>"

abbreviation meta_numpages :: "kernel \<Rightarrow> u64 \<Rightarrow> u64" where
  "meta_numpages s d \<equiv> load64 (mem s) d"

abbreviation meta_size :: "kernel \<Rightarrow> u64 \<Rightarrow> u64" where
  "meta_size s d \<equiv> load64 (mem s) (d + 8)"

definition kmalloc :: "u64 \<Rightarrow> kernel \<Rightarrow> (u64 \<times> kernel) result" where
  "kmalloc sz s =
     and_then (pmm_get (NUM_PAGES sz + 1) s) (\<lambda>(p, s).
       let alloc = PHYS_TO_VIRT p
       in Inr (alloc + PAGE_SIZE, store_meta alloc (NUM_PAGES sz) sz s))"

definition kmfree :: "u64 \<Rightarrow> kernel \<Rightarrow> kernel result" where
  "kmfree addr s =
     (let d = addr - PAGE_SIZE in pmm_free (VIRT_TO_PHYS d) (meta_numpages s d + 1) s)"

definition kmrealloc :: "u64 \<Rightarrow> u64 \<Rightarrow> kernel \<Rightarrow> (u64 \<times> kernel) result" where
  "kmrealloc addr newsize s =
     (if addr = 0 then kmalloc newsize s
      else let d = addr - PAGE_SIZE
           in if NUM_PAGES (meta_size s d) = NUM_PAGES newsize
              then Inr (addr, store_meta d (NUM_PAGES newsize) newsize s)
              else and_then (kmalloc newsize s) (\<lambda>(new, s).
                let s = (if meta_size s d > newsize
                         then s\<lparr>mem := memcpy addr new newsize (mem s)\<rparr>
                         else s\<lparr>mem := memcpy addr new (meta_size s d) (mem s)\<rparr>)
                in and_then (kmfree addr s) (\<lambda>s. Inr (new, s))))"

section \<open>Pages of the direct map\<close>

text \<open>The number of the frame behind a virtual address of the direct map.\<close>

definition page_of :: "u64 \<Rightarrow> nat" where
  "page_of x = pfn (VIRT_TO_PHYS x)"

lemma VIRT_TO_PHYS_offset [simp]: "VIRT_TO_PHYS (PHYS_TO_VIRT a + x) = a + x"
  by (simp add: VIRT_TO_PHYS_def PHYS_TO_VIRT_def)

lemma VIRT_TO_PHYS_inverse [simp]: "VIRT_TO_PHYS (PHYS_TO_VIRT a) = a"
  by (simp add: VIRT_TO_PHYS_def PHYS_TO_VIRT_def)

lemma PHYS_TO_VIRT_inverse [simp]: "PHYS_TO_VIRT (VIRT_TO_PHYS a) = a"
  by (simp add: VIRT_TO_PHYS_def PHYS_TO_VIRT_def)

lemma page_of_direct:
  assumes "unat a mod 4096 = 0" and "unat a + k < 2 ^ 64"
  shows "page_of (PHYS_TO_VIRT a + of_nat k) = pfn a + k div 4096"
proof -
  have "unat (of_nat k :: u64) = k" using assms(2) by (intro unat_of_nat64) simp
  then have *: "unat (a + of_nat k) = unat a + k" using assms(2) by (simp add: unat_add_lt)
  have "4096 dvd unat a" using assms(1) by auto
  then have "(unat a + k) div 4096 = unat a div 4096 + k div 4096"
    by (rule div_plus_div_distrib_dvd_left)
  then show ?thesis by (simp add: page_of_def pfn_def *)
qed

text \<open>The frames that are free and lie below the physical limit.\<close>

definition usable :: "kernel \<Rightarrow> nat set" where
  "usable s = frames s \<inter> tracked s"

text \<open>The frames below the limit and the one just above it, where the search for a run may end.\<close>

definition watched :: "kernel \<Rightarrow> nat set" where
  "watched s = {..pfn (phys_limit (memstats s))}"

text \<open>
  The heap is in order: the allocator can serve the request, physical memory fits into the
  direct map (128 TiB below the top of the address space), the bit just above the physical limit
  reads as used (the source does not see to that: the bits above the limit are whatever memory
  holds there), and the bitmap itself lies in frames that are in use.
\<close>

definition heap_ok :: "u64 \<Rightarrow> kernel \<Rightarrow> bool" where
  "heap_ok n s \<longleftrightarrow> pmm_ready n s \<and> unat (phys_limit (memstats s)) < 2 ^ 47
     \<and> pfn (phys_limit (memstats s)) \<notin> frames s
     \<and> (\<forall>x\<in>bmp_bytes s (watched s). page_of x \<notin> usable s)"

lemma watched_tracked [intro]: "p \<in> tracked s \<Longrightarrow> p \<in> watched s"
  by (simp add: tracked_def watched_def)

lemma tracked_watched_subset: "tracked s \<subseteq> watched s"
  by blast

lemma bmp_bytes_mono: "P \<subseteq> Q \<Longrightarrow> bmp_bytes s P \<subseteq> bmp_bytes s Q"
  unfolding bmp_bytes_def by (rule image_mono)

lemma watched_bytes [intro]: "x \<in> bmp_bytes s (tracked s) \<Longrightarrow> x \<in> bmp_bytes s (watched s)"
  using bmp_bytes_mono [of "tracked s" "watched s"] by blast

text \<open>A store that avoids the bitmap of the tracked frames does not change which are usable.\<close>

lemma usable_cong:
  assumes "bitmap s' = bitmap s" and "phys_limit (memstats s') = phys_limit (memstats s)"
    and "\<And>x. x \<in> bmp_bytes s (tracked s) \<Longrightarrow> mem s' x = mem s x"
  shows "usable s' = usable s"
proof -
  have t: "tracked s' = tracked s" using assms(2) by (simp add: tracked_def)
  have "frame_bit s' p \<longleftrightarrow> frame_bit s p" if "p \<in> tracked s" for p
  proof -
    have "bitmap s + of_nat (p div 8) \<in> bmp_bytes s (tracked s)"
      using that by (auto simp: bmp_bytes_def)
    then show ?thesis using assms(1,3) by (simp add: frame_bit_def)
  qed
  then show ?thesis unfolding usable_def t frames_def by blast
qed

lemma frame_bit_cong:
  "bitmap s' = bitmap s \<Longrightarrow> mem s' (bitmap s + of_nat (p div 8)) = mem s (bitmap s + of_nat (p div 8))
   \<Longrightarrow> p \<in> frames s' \<longleftrightarrow> p \<in> frames s"
  by (simp add: frames_def frame_bit_def)

lemma limit_byte_watched:
  "bitmap s + of_nat (pfn (phys_limit (memstats s)) div 8) \<in> bmp_bytes s (watched s)"
  by (auto simp: bmp_bytes_def watched_def)

lemma heap_ok_cong:
  assumes "heap_ok n s" and "bitmap s' = bitmap s" and "lastusedpage s' = lastusedpage s"
    and "phys_limit (memstats s') = phys_limit (memstats s)"
    and "\<And>x. x \<in> bmp_bytes s (watched s) \<Longrightarrow> mem s' x = mem s x"
  shows "heap_ok n s'"
proof -
  have "usable s' = usable s" by (rule usable_cong) (use assms in auto)
  moreover have "pfn (phys_limit (memstats s)) \<in> frames s' \<longleftrightarrow> pfn (phys_limit (memstats s)) \<in> frames s"
    by (rule frame_bit_cong [OF assms(2) assms(5) [OF limit_byte_watched]])
  ultimately show ?thesis
    using assms by (simp add: heap_ok_def pmm_ready_def watched_def bmp_bytes_def)
qed

lemma store_meta_frame:
  "\<not> in_range d 16 x \<Longrightarrow> mem (store_meta d n z s) x = mem s x"
proof -
  assume x: "\<not> in_range d 16 x"
  have "\<not> in_range d 8 x" using x by (auto simp: in_range_def)
  moreover have "\<not> in_range (d + 8) 8 x"
  proof
    assume "in_range (d + 8) 8 x"
    then obtain k where "k < 8" "x = d + of_nat (k + 8)" by (auto simp: in_range_def algebra_simps)
    with x show False unfolding in_range_def by (metis add_less_cancel_right numeral_Bit0)
  qed
  ultimately show ?thesis by (simp add: store_meta_def store_le_frame)
qed

lemma store_meta_load:
  "load64 (mem (store_meta d n z s)) d = n" "load64 (mem (store_meta d n z s)) (d + 8) = z"
proof -
  have "load64 (store64 (d + 8) z m) d = load64 m d" for m
  proof (rule load64_store64_other)
    fix x assume "in_range d 8 x"
    then obtain i where i: "i < 8" "x = d + of_nat i" by (auto simp: in_range_def)
    show "\<not> in_range (d + 8) 8 x"
    proof
      assume "in_range (d + 8) 8 x"
      then obtain j where "j < 8" "d + of_nat i = d + of_nat (j + 8)"
        using i(2) by (auto simp: in_range_def algebra_simps)
      then have "i = j + 8" by (elim offset_inj) (use i(1) in simp_all)
      then show False using i(1) by simp
    qed
  qed
  then show "load64 (mem (store_meta d n z s)) d = n" by (simp add: store_meta_def)
qed (simp add: store_meta_def)

lemma store_meta_fields [simp]:
  "bitmap (store_meta d n z s) = bitmap s" "memstats (store_meta d n z s) = memstats s"
  "lastusedpage (store_meta d n z s) = lastusedpage s" "mmap (store_meta d n z s) = mmap s"
  by (simp_all add: store_meta_def)

section \<open>What an allocation does\<close>

lemma unat_num_pages_le: "unat (NUM_PAGES z) < 2 ^ 52"
  using unsigned_less [of "z + PAGE_SIZE - 1", where ?'a = nat]
  by (simp add: NUM_PAGES_def unat_div)

lemma unat_block_pages: "unat (NUM_PAGES z + 1) = unat (NUM_PAGES z) + 1"
  using unat_num_pages_le [of z] by (subst unat_add_lt) simp_all

lemma bmp_bytes_same: "same_but_frames P s s' \<Longrightarrow> bmp_bytes s' Q = bmp_bytes s Q"
  by (simp add: bmp_bytes_def same_but_frames_def)

lemma in_meta_page:
  assumes "unat p mod 4096 = 0" and "no_wrap p n" and "0 < unat n" and "in_range (PHYS_TO_VIRT p) 4096 x"
  shows "page_of x \<in> frame_range p (unat n)"
proof -
  obtain k where k: "k < 4096" "x = PHYS_TO_VIRT p + of_nat k"
    using assms(4) by (auto simp: in_range_def)
  then have "page_of x = pfn p + k div 4096"
    using assms(1-3) by (simp only:) (rule page_of_direct, simp_all add: no_wrap_def)
  then show ?thesis using k(1) assms(3) by (simp add: frame_range_def)
qed

lemma in_range_mono: "in_range a n x \<Longrightarrow> n \<le> m \<Longrightarrow> in_range a m x"
  unfolding in_range_def by (blast intro: less_le_trans)

text \<open>
  The result of a successful \<open>kmalloc\<close>: \<open>p\<close> is the physical address of the metadata page.
\<close>

definition allocated :: "u64 \<Rightarrow> u64 \<Rightarrow> kernel \<Rightarrow> u64 \<Rightarrow> kernel \<Rightarrow> bool" where
  "allocated p z s a s' \<longleftrightarrow>
     a = PHYS_TO_VIRT p + PAGE_SIZE \<and> unat p mod 4096 = 0 \<and> no_wrap p (NUM_PAGES z + 1)
     \<and> frame_range p (unat (NUM_PAGES z) + 1) \<subseteq> usable s
     \<and> usable s' = usable s - frame_range p (unat (NUM_PAGES z) + 1)
     \<and> meta_numpages s' (PHYS_TO_VIRT p) = NUM_PAGES z \<and> meta_size s' (PHYS_TO_VIRT p) = z
     \<and> (\<forall>x. x \<notin> bmp_bytes s (frame_range p (unat (NUM_PAGES z) + 1))
           \<longrightarrow> \<not> in_range (PHYS_TO_VIRT p) 16 x \<longrightarrow> mem s' x = mem s x)
     \<and> bitmap s' = bitmap s \<and> tracked s' = tracked s \<and> lastusedpage s' = lastusedpage s
     \<and> phys_limit (memstats s') = phys_limit (memstats s)
     \<and> pfn (phys_limit (memstats s')) \<notin> frames s'
     \<and> free_mem (memstats s') = free_mem (memstats s) - (NUM_PAGES z + 1) * PAGE_SIZE"

lemma kmalloc_allocates:
  assumes ok: "heap_ok (NUM_PAGES z + 1) s" and run: "kmalloc z s = Inr (a, s')"
  obtains p where "allocated p z s a s'"
proof -
  let ?n = "NUM_PAGES z + 1"
  let ?R = "\<lambda>p. frame_range p (unat (NUM_PAGES z) + 1)"
  have n: "unat ?n = unat (NUM_PAGES z) + 1" by (rule unat_block_pages)
  have ready: "pmm_ready ?n s" and top: "pfn (phys_limit (memstats s)) \<notin> frames s"
    using ok by (simp_all add: heap_ok_def)
  from run obtain p t where get: "pmm_get ?n s = Inr (p, t)"
      and a: "a = PHYS_TO_VIRT p + PAGE_SIZE"
      and s': "s' = store_meta (PHYS_TO_VIRT p) (NUM_PAGES z) z t"
    by (auto simp: kmalloc_def Let_def elim!: and_then_InrE)
  have p: "no_wrap p ?n" "unat p mod 4096 = 0" "?R p \<subseteq> frames s"
    using pmm.get_takes [OF ready get] by (simp_all add: n)
  have t: "t = take_pages p ?n s" using ready get by (rule pmm_get_InrE)
  have same: "same_but_frames (?R p) s t"
    using take_pages_same [OF p(1), of s] by (simp add: t n)
  have "?R p \<subseteq> tracked s"
  proof -
    obtain q where q: "q * 4096 < unat (phys_limit (memstats s))" "{q..<q + unat ?n} \<subseteq> frames s"
        "?R p = {q..<q + unat ?n}"
      by (rule pmm_get_InrE [OF ready get]) (simp add: n)
    have "pfn (phys_limit (memstats s)) \<notin> {q..<q + unat ?n}" using q(2) top by blast
    moreover have "q \<le> pfn (phys_limit (memstats s))"
      using q(1) by (simp add: pfn_def less_eq_div_iff_mult_less_eq)
    ultimately show ?thesis unfolding q(3) by (auto simp: tracked_def)
  qed
  then have us: "?R p \<subseteq> usable s" using p(3) by (auto simp: usable_def)
  have ut: "usable t = usable s - ?R p"
    using tracked_same [OF same] by (auto simp: usable_def t frames_take_pages [OF p(1)] n)
  have lim: "phys_limit (memstats t) = phys_limit (memstats s)"
    using same by (simp add: same_but_frames_def)
  have keep: "mem s' x = mem t x" if "x \<in> bmp_bytes t (watched t)" for x
  proof -
    have "page_of x \<notin> usable s"
      using ok that by (simp add: heap_ok_def bmp_bytes_same [OF same] watched_def lim)
    then have "\<not> in_range (PHYS_TO_VIRT p) 16 x"
      using in_meta_page [OF p(2,1)] us in_range_mono [of _ 16 x 4096] by (auto simp: n)
    then show "mem s' x = mem t x" by (simp add: s' store_meta_frame)
  qed
  have "pfn (phys_limit (memstats t)) \<notin> frames t"
    using top lim by (simp add: t frames_take_pages [OF p(1)])
  then have "pfn (phys_limit (memstats s')) \<notin> frames s'"
    using frame_bit_cong [OF _ keep [OF limit_byte_watched]] by (simp add: s')
  moreover have "usable s' = usable t"
    by (rule usable_cong) (simp_all add: s' keep [unfolded s'] watched_bytes)
  moreover have "mem s' x = mem s x"
    if "x \<notin> bmp_bytes s (?R p)" "\<not> in_range (PHYS_TO_VIRT p) 16 x" for x
    using that same by (simp add: s' store_meta_frame same_but_frames_def)
  ultimately have "allocated p z s a s'"
    unfolding allocated_def using a p us ut same tracked_same [OF same]
    by (simp add: s' store_meta_load same_but_frames_def tracked_def t free_mem_take_pages)
  then show thesis by (rule that)
qed

lemma kmalloc_fails_only_out_of_memory:
  assumes "heap_ok (NUM_PAGES z + 1) s" and "kmalloc z s = Inl e"
  shows "e = Kernel_Panic ''Out of Physical Memory''"
proof -
  have "pmm_get (NUM_PAGES z + 1) s = Inl e"
    using assms(2) by (cases "pmm_get (NUM_PAGES z + 1) s") (auto simp: kmalloc_def Let_def)
  then show ?thesis
    using assms(1) by (auto simp: heap_ok_def dest: pmm_get_Inl(1))
qed

section \<open>Live blocks\<close>

text \<open>A block that is allocated: its metadata is intact and its frames are in use.\<close>

definition block_frames :: "u64 \<Rightarrow> u64 \<Rightarrow> nat set" where
  "block_frames a z = frame_range (VIRT_TO_PHYS (a - PAGE_SIZE)) (unat (NUM_PAGES z) + 1)"

definition live_block :: "kernel \<Rightarrow> u64 \<Rightarrow> u64 \<Rightarrow> bool" where
  "live_block s a z \<longleftrightarrow>
     a \<noteq> 0 \<and> unat (VIRT_TO_PHYS (a - PAGE_SIZE)) mod 4096 = 0
     \<and> no_wrap (VIRT_TO_PHYS (a - PAGE_SIZE)) (NUM_PAGES z + 1)
     \<and> block_frames a z \<inter> usable s = {} \<and> block_frames a z \<subseteq> tracked s
     \<and> (\<forall>x\<in>bmp_bytes s (watched s). page_of x \<notin> block_frames a z)
     \<and> meta_numpages s (a - PAGE_SIZE) = NUM_PAGES z \<and> meta_size s (a - PAGE_SIZE) = z
     \<and> unat z + 4095 < 2 ^ 64"

lemma block_frames_allocated:
  "allocated p z s a s' \<Longrightarrow> block_frames a z = frame_range p (unat (NUM_PAGES z) + 1)"
  by (simp add: block_frames_def allocated_def)

text \<open>The data bytes of a block lie in its frames.\<close>

lemma num_pages_covers:
  assumes "unat z + 4095 < 2 ^ 64"
  shows "unat (NUM_PAGES z) = (unat z + 4095) div 4096" and "unat z \<le> unat (NUM_PAGES z) * 4096"
proof -
  have "unat (z + PAGE_SIZE - 1) = unat z + 4095"
  proof -
    have "z + PAGE_SIZE - 1 = z + 4095" by simp
    then show ?thesis using assms by (simp add: unat_add_lt)
  qed
  then show *: "unat (NUM_PAGES z) = (unat z + 4095) div 4096"
    by (simp add: NUM_PAGES_def unat_div)
  show "unat z \<le> unat (NUM_PAGES z) * 4096"
    unfolding * using candidate_bound [of "(unat z + 4095) div 4096" "unat z"] by linarith
qed

lemma block_byte_page:
  assumes "live_block s a z" and "k < unat z"
  shows "page_of (a + of_nat k) \<in> block_frames a z"
proof -
  let ?p = "VIRT_TO_PHYS (a - PAGE_SIZE)"
  have p: "unat ?p mod 4096 = 0" "no_wrap ?p (NUM_PAGES z + 1)" "unat z + 4095 < 2 ^ 64"
    using assms(1) by (simp_all add: live_block_def)
  have k: "k < unat (NUM_PAGES z) * 4096" using num_pages_covers(2) [OF p(3)] assms(2) by simp
  have "a + of_nat k = PHYS_TO_VIRT ?p + of_nat (4096 + k)"
    by simp
  moreover have "page_of (PHYS_TO_VIRT ?p + of_nat (4096 + k)) = pfn ?p + (4096 + k) div 4096"
    by (rule page_of_direct [OF p(1)])
      (use p(2) k in \<open>simp add: no_wrap_def unat_block_pages\<close>)
  moreover have "k div 4096 < unat (NUM_PAGES z)" using k by (simp add: less_mult_imp_div_less)
  ultimately show ?thesis by (simp add: block_frames_def frame_range_def)
qed

section \<open>Releasing what was allocated\<close>

lemma kmfree_block:
  assumes "no_wrap (VIRT_TO_PHYS (a - PAGE_SIZE)) (NUM_PAGES z + 1)"
    and "meta_numpages s (a - PAGE_SIZE) = NUM_PAGES z"
    and "block_frames a z \<inter> usable s = {}" and "block_frames a z \<subseteq> tracked s"
  obtains s' where "kmfree a s = Inr s'" and "usable s' = usable s \<union> block_frames a z"
    and "free_mem (memstats s') = free_mem (memstats s) + (NUM_PAGES z + 1) * PAGE_SIZE"
    and "same_but_frames (block_frames a z) s s'"
proof -
  let ?p = "VIRT_TO_PHYS (a - PAGE_SIZE)" and ?n = "NUM_PAGES z + 1"
  have R: "frame_range ?p (unat ?n) = block_frames a z"
    by (simp add: block_frames_def unat_block_pages)
  obtain s' where s': "pmm_free ?p ?n s = Inr s'" "frames s' = frames s \<union> block_frames a z"
      "free_mem (memstats s') = free_mem (memstats s) + of_nat (4096 * card (block_frames a z - frames s))"
      "same_but_frames (block_frames a z) s s'"
    by (rule pmm_free_spec [OF assms(1), of s, unfolded R])
  have "block_frames a z - frames s = block_frames a z"
    using assms(3,4) by (auto simp: usable_def)
  then have "card (block_frames a z - frames s) = unat ?n"
    by (simp add: R [symmetric])
  then have "of_nat (4096 * card (block_frames a z - frames s)) = ?n * PAGE_SIZE"
    by (simp only: of_nat_mult of_nat_unat ucast_id) simp
  moreover have "usable s' = usable s \<union> block_frames a z"
    using assms(4) tracked_same [OF s'(4)] by (auto simp: usable_def s'(2))
  moreover have "kmfree a s = Inr s'" by (simp add: kmfree_def assms(2) s'(1))
  ultimately show thesis using s'(3,4) by (intro that) simp_all
qed

lemma kmfree_after_kmalloc:
  assumes "allocated p z s a s1"
  shows "\<exists>s2. kmfree a s1 = Inr s2 \<and> usable s2 = usable s
    \<and> free_mem (memstats s2) = free_mem (memstats s)"
proof -
  have d: "a - PAGE_SIZE = PHYS_TO_VIRT p" using assms by (simp add: allocated_def)
  have R: "block_frames a z = frame_range p (unat (NUM_PAGES z) + 1)"
    by (rule block_frames_allocated [OF assms])
  obtain s2 where "kmfree a s1 = Inr s2" "usable s2 = usable s1 \<union> block_frames a z"
      "free_mem (memstats s2) = free_mem (memstats s1) + (NUM_PAGES z + 1) * PAGE_SIZE"
    by (rule kmfree_block [of a z s1]) (use assms d R in \<open>auto simp: allocated_def usable_def\<close>)
  then show ?thesis using assms R by (auto simp: allocated_def)
qed

section \<open>Reallocation keeps the contents\<close>

lemma block_not_bitmap:
  assumes "live_block s a z" and "page_of x \<in> block_frames a z" and "P \<subseteq> tracked s"
  shows "x \<notin> bmp_bytes s P"
proof -
  have "\<forall>y\<in>bmp_bytes s (watched s). page_of y \<notin> block_frames a z"
    using assms(1) by (simp add: live_block_def)
  then show ?thesis
    using assms(2) bmp_bytes_mono [OF subset_trans [OF assms(3) tracked_watched_subset], of s] by blast
qed

lemma live_block_bytes:
  "live_block s a z \<Longrightarrow> x \<in> bmp_bytes s (tracked s) \<Longrightarrow> page_of x \<notin> block_frames a z"
  using watched_bytes by (auto simp: live_block_def)

lemma heap_ok_bytes: "heap_ok n s \<Longrightarrow> x \<in> bmp_bytes s (tracked s) \<Longrightarrow> page_of x \<notin> usable s"
  using watched_bytes by (auto simp: heap_ok_def)

lemma usable_not_bitmap:
  assumes "heap_ok n s" and "page_of x \<in> usable s" and "P \<subseteq> tracked s"
  shows "x \<notin> bmp_bytes s P"
proof -
  have "\<forall>y\<in>bmp_bytes s (watched s). page_of y \<notin> usable s"
    using assms(1) by (simp add: heap_ok_def)
  then show ?thesis
    using assms(2) bmp_bytes_mono [OF subset_trans [OF assms(3) tracked_watched_subset], of s] by blast
qed

lemma meta_page:
  assumes "unat p mod 4096 = 0" and "no_wrap p (NUM_PAGES z + 1)" and "in_range (PHYS_TO_VIRT p) 16 x"
  shows "page_of x = pfn p" and "page_of x \<in> frame_range p (unat (NUM_PAGES z) + 1)"
proof -
  obtain k where k: "k < 16" "x = PHYS_TO_VIRT p + of_nat k"
    using assms(3) by (auto simp: in_range_def)
  have "page_of x = pfn p + k div 4096"
    using k assms(1,2) by (simp only:) (rule page_of_direct, simp_all add: no_wrap_def unat_block_pages)
  then show "page_of x = pfn p" using k(1) by simp
  then show "page_of x \<in> frame_range p (unat (NUM_PAGES z) + 1)" by (simp add: frame_range_def)
qed

lemma data_page:
  assumes "unat p mod 4096 = 0" and "no_wrap p (NUM_PAGES z + 1)"
    and "unat z + 4095 < 2 ^ 64" and "k < unat z"
  shows "page_of (PHYS_TO_VIRT p + PAGE_SIZE + of_nat k) \<in> frame_range p (unat (NUM_PAGES z) + 1)"
    and "page_of (PHYS_TO_VIRT p + PAGE_SIZE + of_nat k) \<noteq> pfn p"
proof -
  have k: "k < unat (NUM_PAGES z) * 4096" using num_pages_covers(2) [OF assms(3)] assms(4) by simp
  have "PHYS_TO_VIRT p + PAGE_SIZE + of_nat k = PHYS_TO_VIRT p + of_nat (4096 + k)" by simp
  moreover have "page_of (PHYS_TO_VIRT p + of_nat (4096 + k)) = pfn p + (4096 + k) div 4096"
    by (rule page_of_direct [OF assms(1)])
      (use assms(2) k in \<open>simp add: no_wrap_def unat_block_pages\<close>)
  moreover have "k div 4096 < unat (NUM_PAGES z)" using k by (simp add: less_mult_imp_div_less)
  ultimately show "page_of (PHYS_TO_VIRT p + PAGE_SIZE + of_nat k) \<in> frame_range p (unat (NUM_PAGES z) + 1)"
    "page_of (PHYS_TO_VIRT p + PAGE_SIZE + of_nat k) \<noteq> pfn p"
    by (simp_all add: frame_range_def add.assoc)
qed

lemma load_meta_cong:
  assumes "\<And>x. in_range d 16 x \<Longrightarrow> mem s' x = mem s x"
  shows "meta_numpages s' d = meta_numpages s d" and "meta_size s' d = meta_size s d"
proof -
  show "meta_numpages s' d = meta_numpages s d"
    by (rule load_le_cong, rule assms) auto
  show "meta_size s' d = meta_size s d"
  proof (rule load_le_cong, rule assms)
    fix k :: nat assume "k < 8"
    then have "in_range d 16 (d + of_nat (8 + k))" by (intro in_range_offset) simp
    then show "in_range d 16 (d + 8 + of_nat k)" by (simp add: algebra_simps)
  qed
qed

lemma tracked_address_not_top:
  assumes "unat (phys_limit (memstats s)) < 2 ^ 47" and "pfn q \<in> tracked s"
  shows "PHYS_TO_VIRT q + PAGE_SIZE \<noteq> 0"
proof
  assume "PHYS_TO_VIRT q + PAGE_SIZE = 0"
  then have "q = - (MEM_VIRT_OFFSET + PAGE_SIZE)"
    unfolding PHYS_TO_VIRT_def by (simp add: eq_neg_iff_add_eq_0 add.assoc)
  then have "unat q = 2 ^ 47 - 4096" by simp
  then show False using assms by (auto simp: tracked_def pfn_def)
qed

lemma allocated_live:
  assumes ok: "heap_ok n s" and q: "allocated q z s b s1" and z: "unat z + 4095 < 2 ^ 64"
  shows "live_block s1 b z"
proof -
  let ?R = "frame_range q (unat (NUM_PAGES z) + 1)"
  have Rb: "block_frames b z = ?R" by (rule block_frames_allocated [OF q])
  have Rus: "?R \<subseteq> usable s" and us1: "usable s1 = usable s - ?R"
    and fields: "bitmap s1 = bitmap s" "tracked s1 = tracked s"
    and b: "b = PHYS_TO_VIRT q + PAGE_SIZE"
    using q by (simp_all add: allocated_def)
  have "pfn q \<in> tracked s" using Rus by (auto simp: usable_def frame_range_def)
  then have "b \<noteq> 0"
    using ok tracked_address_not_top unfolding b heap_ok_def by blast
  moreover have "\<forall>x\<in>bmp_bytes s1 (watched s1). page_of x \<notin> ?R"
    using ok Rus q by (auto simp: heap_ok_def bmp_bytes_def fields watched_def allocated_def)
  moreover have "?R \<subseteq> tracked s" using Rus by (auto simp: usable_def)
  moreover have "b - PAGE_SIZE = PHYS_TO_VIRT q" by (simp add: b)
  ultimately show ?thesis
    unfolding live_block_def Rb using q z us1
    by (simp only: fields VIRT_TO_PHYS_inverse) (auto simp only: allocated_def)
qed

lemma kmrealloc_same_pages:
  assumes live: "live_block s addr z" and pages: "NUM_PAGES z = NUM_PAGES new"
    and "unat new + 4095 < 2 ^ 64"
  shows "\<exists>s'. kmrealloc addr new s = Inr (addr, s') \<and> live_block s' addr new
    \<and> (\<forall>k<min (unat z) (unat new). mem s' (addr + of_nat k) = mem s (addr + of_nat k))"
proof -
  let ?d = "addr - PAGE_SIZE"
  let ?p = "VIRT_TO_PHYS ?d"
  let ?s' = "store_meta ?d (NUM_PAGES new) new s"
  have run: "kmrealloc addr new s = Inr (addr, ?s')"
    using live pages by (simp add: kmrealloc_def Let_def live_block_def)
  have p: "unat ?p mod 4096 = 0" "no_wrap ?p (NUM_PAGES z + 1)"
    using live by (simp_all add: live_block_def)
  have meta: "page_of x \<in> block_frames addr z" if "in_range ?d 16 x" for x
    using meta_page(2) [OF p, of x] that by (simp add: block_frames_def)
  have same: "usable ?s' = usable s"
    by (rule usable_cong) (use live_block_bytes [OF live] meta in \<open>auto intro!: store_meta_frame\<close>)
  have data: "mem ?s' (addr + of_nat k) = mem s (addr + of_nat k)" if "k < unat z" for k
  proof (rule store_meta_frame)
    have "unat z + 4095 < 2 ^ 64" using live by (simp add: live_block_def)
    then have "page_of (addr + of_nat k) \<noteq> pfn ?p"
      using data_page(2) [OF p _ that] by simp
    then show "\<not> in_range ?d 16 (addr + of_nat k)"
      using meta_page(1) [OF p] by auto
  qed
  have "live_block ?s' addr new"
    using live same pages assms(3) store_meta_load [of ?d "NUM_PAGES new" new s]
    by (simp add: live_block_def block_frames_def tracked_def watched_def bmp_bytes_def)
  then show ?thesis using run data by auto
qed

text \<open>The general case moves the block.\<close>

lemma kmrealloc_moves:
  assumes ok: "heap_ok (NUM_PAGES new + 1) s" and live: "live_block s addr z"
    and "NUM_PAGES z \<noteq> NUM_PAGES new" and new: "unat new + 4095 < 2 ^ 64"
    and alloc: "kmalloc new s = Inr (b, s1)"
  obtains s' where "kmrealloc addr new s = Inr (b, s')" and "live_block s' b new"
    and "\<And>k. k < min (unat z) (unat new) \<Longrightarrow> mem s' (b + of_nat k) = mem s (addr + of_nat k)"
    and "usable s' = (usable s - block_frames b new) \<union> block_frames addr z"
proof -
  let ?d = "addr - PAGE_SIZE"
  let ?p = "VIRT_TO_PHYS ?d"
  let ?old = "block_frames addr z"
  obtain q where q: "allocated q new s b s1" by (rule kmalloc_allocates [OF ok alloc])
  let ?R = "frame_range q (unat (NUM_PAGES new) + 1)"
  have b: "b = PHYS_TO_VIRT q + PAGE_SIZE" and q0: "unat q mod 4096 = 0"
    and qw: "no_wrap q (NUM_PAGES new + 1)" and Rus: "?R \<subseteq> usable s"
    and us1: "usable s1 = usable s - ?R"
    and frame1: "\<And>x. x \<notin> bmp_bytes s ?R \<Longrightarrow> \<not> in_range (PHYS_TO_VIRT q) 16 x \<Longrightarrow> mem s1 x = mem s x"
    and fields1: "bitmap s1 = bitmap s" "tracked s1 = tracked s"
    using q by (simp_all add: allocated_def)
  have Rb: "block_frames b new = ?R" by (rule block_frames_allocated [OF q])
  have p0: "unat ?p mod 4096 = 0" and pw: "no_wrap ?p (NUM_PAGES z + 1)" and z: "unat z + 4095 < 2 ^ 64"
    and addr: "addr \<noteq> 0" and old: "?old \<inter> usable s = {}" "?old \<subseteq> tracked s"
    using live by (simp_all add: live_block_def)
  have Rt: "?R \<subseteq> tracked s" using Rus by (auto simp: usable_def)
  have disj: "?R \<inter> ?old = {}" using Rus old by auto
  have pold: "page_of x \<in> ?old" if "in_range ?d 16 x" for x
    using meta_page(2) [OF p0 pw, of x] that by (simp add: block_frames_def)
  have pq: "page_of x \<in> ?R" if "in_range (PHYS_TO_VIRT q) 16 x" for x
    by (rule meta_page(2) [OF q0 qw that])
  have keep_old: "mem s1 x = mem s x" if "page_of x \<in> ?old" for x
    using that frame1 [OF block_not_bitmap [OF live that Rt]] pq disj by auto
  define L where "L = (if z > new then new else z)"
  have L: "unat L = min (unat z) (unat new)"
    by (simp add: L_def word_less_nat_alt min_def)
  have src: "page_of (addr + of_nat k) \<in> ?old" if "k < unat L" for k
    by (rule block_byte_page [OF live]) (use that L in simp)
  have tgt: "page_of x \<in> ?R \<and> page_of x \<noteq> pfn q" if "in_range b (unat L) x" for x
    using that data_page [OF q0 qw new] L by (auto simp: in_range_def b)
  let ?s2 = "s1\<lparr>mem := memcpy addr b L (mem s1)\<rparr>"
  have safe: "copy_safe addr b (unat L)"
  proof (rule copy_safe_disjoint)
    fix x assume "in_range addr (unat L) x"
    then have "page_of x \<in> ?old" using src by (auto simp: in_range_def)
    then show "\<not> in_range b (unat L) x" using tgt disj by auto
  qed
  have s2_copy: "mem ?s2 (b + of_nat k) = mem s (addr + of_nat k)" if "k < unat L" for k
    using memcpy_copies [OF safe that, of "mem s1"] keep_old [OF src [OF that]] by simp
  have s2_frame: "mem ?s2 x = mem s1 x" if "\<not> (page_of x \<in> ?R \<and> page_of x \<noteq> pfn q)" for x
    using that tgt by (auto intro!: memcpy_frame)
  have meta2: "meta_numpages ?s2 ?d = NUM_PAGES z" "meta_size ?s2 ?d = z"
    and meta1: "meta_size s1 ?d = z"
  proof -
    have eq: "mem ?s2 x = mem s x" "mem s1 x = mem s x" if "in_range ?d 16 x" for x
      using s2_frame [of x] keep_old [of x] pold [OF that] disj by auto
    show "meta_numpages ?s2 ?d = NUM_PAGES z" "meta_size ?s2 ?d = z"
      using load_meta_cong [of ?d ?s2 s, OF eq(1)] live by (simp_all add: live_block_def)
    show "meta_size s1 ?d = z"
      using load_meta_cong(2) [of ?d s1 s, OF eq(2)] live by (simp add: live_block_def)
  qed
  have us2: "usable ?s2 = usable s1"
  proof (rule usable_cong)
    fix x assume "x \<in> bmp_bytes s1 (tracked s1)"
    then have "page_of x \<notin> usable s"
      using heap_ok_bytes [OF ok] by (simp add: bmp_bytes_def fields1)
    then show "mem ?s2 x = mem s1 x" using Rus by (intro s2_frame) auto
  qed simp_all
  obtain s' where free: "kmfree addr ?s2 = Inr s'" "usable s' = usable ?s2 \<union> ?old"
      "same_but_frames ?old ?s2 s'"
    by (rule kmfree_block [of addr z ?s2])
      (use pw meta2 old us2 us1 fields1 in \<open>auto simp: tracked_def\<close>)
  have fields': "bitmap s' = bitmap s" "tracked s' = tracked s" "watched s' = watched s"
    using free(3) tracked_same [OF free(3)] fields1 q
    by (simp_all add: same_but_frames_def tracked_def watched_def allocated_def)
  have keep2: "mem s' x = mem ?s2 x" if "page_of x \<in> ?R" for x
  proof -
    have "x \<notin> bmp_bytes s ?old"
      by (rule usable_not_bitmap [OF ok _ old(2)]) (use that Rus in auto)
    then show ?thesis using free(3) fields1 by (simp add: same_but_frames_def bmp_bytes_def)
  qed
  have "(if z > new then s1\<lparr>mem := memcpy addr b new (mem s1)\<rparr>
      else s1\<lparr>mem := memcpy addr b z (mem s1)\<rparr>) = ?s2"
    by (simp add: L_def)
  moreover have "meta_size s ?d = z" using live by (simp add: live_block_def)
  ultimately have "kmrealloc addr new s = Inr (b, s')"
    unfolding kmrealloc_def Let_def using assms(3) addr free(1) by (simp only: alloc meta1
        and_then_simps prod.case if_False)
  moreover have "mem s' (b + of_nat k) = mem s (addr + of_nat k)"
    if "k < min (unat z) (unat new)" for k
  proof -
    have "k < unat L" using that L by simp
    then show ?thesis using keep2 [of "b + of_nat k"] tgt [of "b + of_nat k"] s2_copy [of k] by auto
  qed
  moreover have us': "usable s' = (usable s - block_frames b new) \<union> ?old"
    by (simp add: free(2) us2 us1 Rb)
  moreover have "live_block s' b new"
  proof -
    have "mem s' x = mem s1 x" if "in_range (PHYS_TO_VIRT q) 16 x" for x
      using keep2 [OF pq [OF that]] s2_frame [of x] meta_page(1) [OF q0 qw that] by auto
    then have "meta_numpages s' (PHYS_TO_VIRT q) = NUM_PAGES new"
        "meta_size s' (PHYS_TO_VIRT q) = new"
      using load_meta_cong [of "PHYS_TO_VIRT q" s' s1] q by (simp_all add: allocated_def)
    moreover have "b \<noteq> 0"
      using allocated_live [OF ok q new] by (simp add: live_block_def)
    moreover have "\<forall>x\<in>bmp_bytes s' (watched s'). page_of x \<notin> ?R"
      using ok Rus by (auto simp: heap_ok_def bmp_bytes_def fields')
    moreover have "?R \<inter> usable s' = {}" using us' disj by (auto simp: Rb)
    moreover have "b - PAGE_SIZE = PHYS_TO_VIRT q" by (simp add: b)
    ultimately show ?thesis
      unfolding live_block_def Rb using q0 qw Rt new by (simp only: fields' VIRT_TO_PHYS_inverse) simp
  qed
  ultimately show thesis by (intro that)
qed

text \<open>Allocating and releasing keep the heap in order.\<close>

lemma heap_ok_kmalloc:
  assumes ok: "heap_ok n s" and p: "allocated p z s a s'"
  shows "heap_ok n s'"
proof -
  have "watched s' = watched s" "bmp_bytes s' = bmp_bytes s"
    and lim: "phys_limit (memstats s') = phys_limit (memstats s)"
    using p by (simp_all add: allocated_def watched_def bmp_bytes_def fun_eq_iff)
  moreover have top: "pfn (phys_limit (memstats s')) \<notin> frames s'"
    using p unfolding allocated_def by (elim conjE)
  ultimately show ?thesis
    using ok p top [unfolded lim] by (simp add: heap_ok_def allocated_def pmm_ready_def)
qed

lemma heap_ok_kmfree:
  assumes ok: "heap_ok n s" and live: "live_block s a z" and run: "kmfree a s = Inr s'"
  shows "heap_ok n s'"
proof -
  let ?L = "pfn (phys_limit (memstats s))"
  have pw: "no_wrap (VIRT_TO_PHYS (a - PAGE_SIZE)) (NUM_PAGES z + 1)"
    and meta: "meta_numpages s (a - PAGE_SIZE) = NUM_PAGES z"
    and sub: "block_frames a z \<inter> usable s = {}" "block_frames a z \<subseteq> tracked s"
    using live by (simp_all add: live_block_def)
  let ?p = "VIRT_TO_PHYS (a - PAGE_SIZE)" and ?n = "NUM_PAGES z + 1"
  have R: "frame_range ?p (unat ?n) = block_frames a z"
    by (simp add: block_frames_def unat_block_pages)
  have "pmm_free ?p ?n s = Inr s'" using run by (simp add: kmfree_def meta)
  then have s': "frames s' = frames s \<union> block_frames a z" "same_but_frames (block_frames a z) s s'"
    using pmm_free_spec [OF pw, of s, unfolded R] by auto
  have "?L \<notin> frames s'"
    using ok sub(2) by (auto simp: s'(1) heap_ok_def tracked_def)
  moreover have "usable s' = usable s \<union> block_frames a z"
    using sub(2) tracked_same [OF s'(2)] by (auto simp: usable_def s'(1))
  moreover have "watched s' = watched s"
    using s'(2) by (simp add: watched_def same_but_frames_def)
  ultimately show ?thesis
    using ok live s'(2) bmp_bytes_same [OF s'(2)]
    by (auto simp: heap_ok_def live_block_def pmm_ready_def same_but_frames_def)
qed

text \<open>Both cases, and the null pointer, in one statement.\<close>

lemma kmrealloc_block:
  assumes ok: "heap_ok (NUM_PAGES new + 1) s" and new: "unat new + 4095 < 2 ^ 64"
    and old: "addr = 0 \<or> live_block s addr z" and run: "kmrealloc addr new s = Inr (b, s')"
  shows "live_block s' b new"
    and "addr \<noteq> 0 \<Longrightarrow> k < min (unat z) (unat new) \<Longrightarrow>
      mem s' (b + of_nat k) = mem s (addr + of_nat k)"
proof -
  have "live_block s' b new \<and> (addr \<noteq> 0 \<longrightarrow> (\<forall>k<min (unat z) (unat new).
      mem s' (b + of_nat k) = mem s (addr + of_nat k)))"
  proof (cases "addr = 0")
    case True
    then have kmalloc: "kmalloc new s = Inr (b, s')" using run by (simp add: kmrealloc_def)
    obtain q where "allocated q new s b s'" by (rule kmalloc_allocates [OF ok kmalloc])
    then show ?thesis using True allocated_live [OF ok _ new] by blast
  next
    case False
    then have live: "live_block s addr z" using old by simp
    show ?thesis
    proof (cases "NUM_PAGES z = NUM_PAGES new")
      case True
      then show ?thesis using kmrealloc_same_pages [OF live _ new] run by auto
    next
      case moved: False
      have "meta_size s (addr - PAGE_SIZE) = z" using live by (simp add: live_block_def)
      then obtain c t where alloc: "kmalloc new s = Inr (c, t)"
        using run False moved unfolding kmrealloc_def Let_def
        by (cases "kmalloc new s") (auto split: if_splits)
      obtain t' where "kmrealloc addr new s = Inr (c, t')" "live_block t' c new"
          "\<And>k. k < min (unat z) (unat new) \<Longrightarrow> mem t' (c + of_nat k) = mem s (addr + of_nat k)"
        by (rule kmrealloc_moves [OF ok live moved new alloc]) blast
      then show ?thesis using run by simp
    qed
  qed
  then show "live_block s' b new"
    and "addr \<noteq> 0 \<Longrightarrow> k < min (unat z) (unat new) \<Longrightarrow>
      mem s' (b + of_nat k) = mem s (addr + of_nat k)"
    by simp_all
qed

section \<open>Writing into a block\<close>

lemma store_in_block:
  assumes live: "live_block s a z" and k: "k + 8 \<le> unat z"
  shows "live_block (s\<lparr>mem := store64 (a + of_nat k) v (mem s)\<rparr>) a z" (is "live_block ?s a z")
proof -
  let ?p = "VIRT_TO_PHYS (a - PAGE_SIZE)"
  have p: "unat ?p mod 4096 = 0" "no_wrap ?p (NUM_PAGES z + 1)" "unat z + 4095 < 2 ^ 64"
    using live by (simp_all add: live_block_def)
  have page: "page_of x \<in> block_frames a z \<and> page_of x \<noteq> pfn ?p"
    if r: "in_range (a + of_nat k) 8 x" for x
  proof -
    obtain j where j: "j < 8" "x = a + of_nat k + of_nat j"
      using r by (auto simp: in_range_def)
    then have j: "j < 8" "x = a + of_nat (k + j)" by (simp_all add: add.assoc)
    then have "k + j < unat z" using k by simp
    then show ?thesis
      unfolding j(2) using block_byte_page [OF live, of "k + j"] data_page(2) [OF p, of "k + j"]
      by simp
  qed
  have "usable ?s = usable s"
  proof (rule usable_cong)
    fix x assume "x \<in> bmp_bytes s (tracked s)"
    then have "page_of x \<notin> block_frames a z" by (rule live_block_bytes [OF live])
    then show "mem ?s x = mem s x" using page by (auto intro!: store_le_frame)
  qed simp_all
  moreover have "mem ?s x = mem s x" if "in_range (a - PAGE_SIZE) 16 x" for x
    using meta_page(1) [OF p(1,2), of x] that page by (auto intro!: store_le_frame)
  then have "meta_numpages ?s (a - PAGE_SIZE) = NUM_PAGES z" "meta_size ?s (a - PAGE_SIZE) = z"
    using load_meta_cong [of "a - PAGE_SIZE" ?s s] live by (simp_all add: live_block_def)
  moreover have "tracked ?s = tracked s" "watched ?s = watched s" "bmp_bytes ?s = bmp_bytes s"
    by (simp_all add: tracked_def watched_def bmp_bytes_def fun_eq_iff)
  ultimately show ?thesis using live by (simp add: live_block_def)
qed

section \<open>Properties\<close>

lemma usable_example: "usable example_kernel = {1..<8}"
  by (auto simp: usable_def frames_example example_simps)

lemma heap_ok_example: "unat n < 2 ^ 51 \<Longrightarrow> heap_ok n example_kernel"
proof -
  assume n: "unat n < 2 ^ 51"
  have w: "watched example_kernel = {..8}" by (simp add: watched_def example_simps pfn_def)
  have "bmp_bytes example_kernel (watched example_kernel) \<subseteq> {MEM_VIRT_OFFSET, MEM_VIRT_OFFSET + 1}"
  proof -
    have "of_nat (q div 8) \<in> {0, 1 :: u64}" if "q \<le> 8" for q
    proof -
      have "q div 8 \<le> 1" using div_le_mono [OF that, of 8] by simp
      then have "q div 8 = 0 \<or> q div 8 = 1" by linarith
      then show ?thesis by auto
    qed
    then have "(\<lambda>q. of_nat (q div 8) :: u64) ` {..8} \<subseteq> {0, 1}" by blast
    then show ?thesis unfolding bmp_bytes_def w example_simps by (auto simp: image_subset_iff)
  qed
  moreover have "page_of MEM_VIRT_OFFSET = 0" "page_of (MEM_VIRT_OFFSET + 1) = 0"
    by (simp_all add: page_of_def pfn_def VIRT_TO_PHYS_def)
  ultimately have "\<forall>x\<in>bmp_bytes example_kernel (watched example_kernel). page_of x \<notin> usable example_kernel"
    by (auto simp: usable_example)
  moreover have "pfn (phys_limit (memstats example_kernel)) \<notin> frames example_kernel"
    by (simp add: frames_example example_simps pfn_def)
  ultimately show ?thesis
    using n by (simp add: heap_ok_def pmm_ready_def example_simps)
qed

lemma kmalloc_example:
  obtains p s where "allocated p 100 example_kernel (PHYS_TO_VIRT p + PAGE_SIZE) s"
    and "kmalloc 100 example_kernel = Inr (PHYS_TO_VIRT p + PAGE_SIZE, s)"
proof -
  have n: "NUM_PAGES 100 + 1 = 2" by (simp add: NUM_PAGES_def)
  have ok: "heap_ok (NUM_PAGES 100 + 1) example_kernel" by (rule heap_ok_example) (simp add: n)
  have "\<exists>a s. kmalloc 100 example_kernel = Inr (a, s)"
    by (simp add: kmalloc_def n pmm_get_example Let_def)
  then obtain a s where run: "kmalloc 100 example_kernel = Inr (a, s)" by blast
  obtain p where p: "allocated p 100 example_kernel a s" by (rule kmalloc_allocates [OF ok run])
  then have "a = PHYS_TO_VIRT p + PAGE_SIZE" by (simp add: allocated_def)
  then show thesis using that p run by blast
qed

text \<open>C19: a block \<open>kmalloc\<close> returns is live: it is not null, its frames (the metadata page and
  enough data pages for \<open>size\<close> bytes) were usable before and are not any more, they do not meet
  the bitmap, the metadata is in place, and no memory outside the bitmap bytes and the new
  metadata changes. When it fails, memory is exhausted.\<close>

theorem kmalloc_correct:
  assumes "heap_ok (NUM_PAGES z + 1) s" and "unat z + 4095 < 2 ^ 64"
  shows "case kmalloc z s of
      Inr (a, s') \<Rightarrow> live_block s' a z \<and> block_frames a z \<subseteq> usable s
        \<and> usable s' = usable s - block_frames a z
        \<and> (\<forall>k<unat z. page_of (a + of_nat k) \<in> block_frames a z)
        \<and> (\<forall>x. x \<notin> bmp_bytes s (block_frames a z) \<longrightarrow> \<not> in_range (a - PAGE_SIZE) 16 x
              \<longrightarrow> mem s' x = mem s x)
    | Inl e \<Rightarrow> e = Kernel_Panic ''Out of Physical Memory''"
proof (cases "kmalloc z s")
  case (Inl e)
  then show ?thesis using kmalloc_fails_only_out_of_memory [OF assms(1) Inl] by simp
next
  case (Inr r)
  obtain a s' where r: "r = (a, s')" by (cases r)
  obtain p where p: "allocated p z s a s'" by (rule kmalloc_allocates [OF assms(1) Inr [unfolded r]])
  have live: "live_block s' a z" by (rule allocated_live [OF assms(1) p assms(2)])
  have "block_frames a z = frame_range p (unat (NUM_PAGES z) + 1)" "a - PAGE_SIZE = PHYS_TO_VIRT p"
    using p by (simp add: block_frames_allocated) (use p in \<open>simp add: allocated_def\<close>)
  then show ?thesis
    using p live block_byte_page [OF live] Inr r by (auto simp: allocated_def)
qed

theorem kmalloc_correct_witness:
  "\<exists>a s'. kmalloc 100 example_kernel = Inr (a, s') \<and> live_block s' a 100"
proof -
  obtain p s where run: "kmalloc 100 example_kernel = Inr (PHYS_TO_VIRT p + PAGE_SIZE, s)"
    by (rule kmalloc_example)
  have "heap_ok (NUM_PAGES 100 + 1) example_kernel"
    by (rule heap_ok_example) (simp add: NUM_PAGES_def)
  from kmalloc_correct [OF this] run show ?thesis by simp
qed

text \<open>C20: \<open>kmfree\<close> undoes \<open>kmalloc\<close>: freeing the block just allocated succeeds and gives back
  exactly the usable frames and the amount of free memory there were before.\<close>

theorem kmalloc_kmfree_roundtrip:
  assumes "heap_ok (NUM_PAGES z + 1) s" and "kmalloc z s = Inr (a, s1)"
  shows "\<exists>s2. kmfree a s1 = Inr s2 \<and> usable s2 = usable s
    \<and> free_mem (memstats s2) = free_mem (memstats s)"
  using kmalloc_allocates [OF assms] kmfree_after_kmalloc by metis

theorem kmalloc_kmfree_roundtrip_witness:
  "\<exists>a s1 s2. kmalloc 100 example_kernel = Inr (a, s1) \<and> kmfree a s1 = Inr s2
     \<and> usable s2 = {1..<8}"
proof -
  obtain p s where run: "kmalloc 100 example_kernel = Inr (PHYS_TO_VIRT p + PAGE_SIZE, s)"
    by (rule kmalloc_example)
  have "heap_ok (NUM_PAGES 100 + 1) example_kernel"
    by (rule heap_ok_example) (simp add: NUM_PAGES_def)
  from kmalloc_kmfree_roundtrip [OF this run] run show ?thesis by (auto simp: usable_example)
qed

text \<open>C21: \<open>kmrealloc\<close> keeps the contents: the block it returns is live with the new size and
  holds the old block's bytes, up to the smaller of the two sizes, whether the block stayed in
  place, moved, grew or shrank; a null pointer is a plain allocation.\<close>

theorem kmrealloc_preserves_contents:
  assumes "heap_ok (NUM_PAGES new + 1) s" and "unat new + 4095 < 2 ^ 64"
    and "addr = 0 \<or> live_block s addr z" and "kmrealloc addr new s = Inr (b, s')"
  shows "live_block s' b new \<and> (addr \<noteq> 0 \<longrightarrow>
    (\<forall>k<min (unat z) (unat new). mem s' (b + of_nat k) = mem s (addr + of_nat k)))"
  using kmrealloc_block [OF assms] by blast

theorem kmrealloc_preserves_contents_witness:
  "\<exists>a s s'. live_block s a 100 \<and> kmrealloc a 200 s = Inr (a, s') \<and> live_block s' a 200"
proof -
  obtain p s where p: "allocated p 100 example_kernel (PHYS_TO_VIRT p + PAGE_SIZE) s"
    by (rule kmalloc_example)
  let ?a = "PHYS_TO_VIRT p + PAGE_SIZE"
  have ok: "heap_ok (NUM_PAGES 100 + 1) example_kernel"
    by (rule heap_ok_example) (simp add: NUM_PAGES_def)
  have live: "live_block s ?a 100" by (rule allocated_live [OF ok p]) simp
  have pages: "NUM_PAGES 100 = NUM_PAGES 200" by (simp add: NUM_PAGES_def)
  obtain s' where run: "kmrealloc ?a 200 s = Inr (?a, s')"
    using kmrealloc_same_pages [OF live pages] by auto
  have "heap_ok (NUM_PAGES 200 + 1) example_kernel"
    by (rule heap_ok_example) (simp add: NUM_PAGES_def)
  then have "heap_ok (NUM_PAGES 200 + 1) s" by (rule heap_ok_kmalloc [OF _ p])
  from kmrealloc_preserves_contents [OF this _ disjI2 [OF live] run] live run
  show ?thesis by auto
qed

text \<open>The size computation of \<open>kmalloc\<close> wraps around: for a request within one page of
  \<open>2 ^ 64\<close>, it succeeds with the metadata page alone and records the huge size, so the caller
  owns none of the bytes it asked for.\<close>

theorem kmalloc_size_overflow:
  assumes "2 ^ 64 \<le> unat z + 4095" and "heap_ok 1 s" and "kmalloc z s = Inr (a, s')"
  shows "unat (NUM_PAGES z) = 0 \<and> usable s - usable s' = {page_of (a - PAGE_SIZE)}
    \<and> meta_size s' (a - PAGE_SIZE) = z"
proof -
  have "unat (z + PAGE_SIZE - 1) = unat z + 4095 - 2 ^ 64"
  proof -
    have "z + PAGE_SIZE - 1 = z + 4095" by simp
    then show ?thesis
      using assms(1) unsigned_less [of z, where ?'a = nat]
      by (simp add: unat_word_ariths mod_if)
  qed
  then have np: "NUM_PAGES z = 0"
    using unsigned_less [of z, where ?'a = nat]
    by (simp add: NUM_PAGES_def word_unat_eq_iff unat_div)
  obtain p where p: "allocated p z s a s'"
    by (rule kmalloc_allocates [OF _ assms(3)]) (simp add: np assms(2))
  then show ?thesis by (auto simp: allocated_def np page_of_def)
qed

theorem kmalloc_size_overflow_witness:
  "\<exists>a s'. kmalloc (- 1) example_kernel = Inr (a, s') \<and> usable example_kernel - usable s' = {page_of (a - PAGE_SIZE)}"
proof -
  have np: "NUM_PAGES (- 1) = 0" by (simp add: NUM_PAGES_def)
  have ok: "heap_ok 1 example_kernel" by (rule heap_ok_example) simp
  then have ok': "heap_ok (NUM_PAGES (- 1) + 1) example_kernel" by (simp add: np)
  have "\<exists>a s'. kmalloc (- 1) example_kernel = Inr (a, s')"
  proof (cases "kmalloc (- 1) example_kernel")
    case (Inl e)
    have "pmm_get 1 example_kernel = Inl e"
      using Inl by (cases "pmm_get 1 example_kernel") (auto simp: kmalloc_def np Let_def)
    moreover have "pmm_ready 1 example_kernel" by (simp add: pmm_ready_def example_simps)
    moreover have "1 * 4096 < unat (phys_limit (memstats example_kernel))"
      by (simp add: example_simps)
    ultimately have "\<not> {1..<1 + unat (1 :: u64)} \<subseteq> frames example_kernel"
      by (intro pmm_get_Inl(2))
    then show ?thesis by (simp add: frames_example)
  next
    case (Inr r)
    then show ?thesis by (cases r) simp
  qed
  then obtain a s' where run: "kmalloc (- 1) example_kernel = Inr (a, s')" by blast
  have "2 ^ 64 \<le> unat (- 1 :: u64) + 4095" 
    by (simp add: unsigned_minus_1_eq_mask mask_eq_exp_minus_1)
  from kmalloc_size_overflow [OF this ok run] run show ?thesis by blast
qed

end
