(* ===== verification/Vector.thy ===== *)
theory Vector
  imports Kmalloc
begin

text \<open>
  \<open>kernel/lib/vector.h\<close>: the growable arrays of pointers behind the open-file tables, the
  directory lists and the task table. The macros are functions on the vector header and the
  machine state; the elements are 8-byte words in the byte memory. The abstraction
  \<open>vec_elems\<close> is the list of the elements.
\<close>

section \<open>Operations\<close>

record vec =
  len :: u64
  alloc_size :: u64
  vdata :: u64

definition vec_init :: vec where
  "vec_init = \<lparr>len = 0, alloc_size = 0, vdata = 0\<rparr>"

definition vec_resize :: "vec \<Rightarrow> u64 \<Rightarrow> kernel \<Rightarrow> (vec \<times> kernel) result" where
  "vec_resize v newsize s =
     (let v = v\<lparr>len := newsize\<rparr>
      in if alloc_size v < len v * 8
         then let v = v\<lparr>alloc_size := (len v * 8) * 2\<rparr>
              in and_then (kmrealloc (vdata v) (alloc_size v) s) (\<lambda>(d, s). Inr (v\<lparr>vdata := d\<rparr>, s))
         else Inr (v, s))"

definition elem_addr :: "vec \<Rightarrow> u64 \<Rightarrow> u64" where
  "elem_addr v index = vdata v + index * 8"

definition vec_set :: "vec \<Rightarrow> u64 \<Rightarrow> u64 \<Rightarrow> kernel \<Rightarrow> kernel" where
  "vec_set v index e s = s\<lparr>mem := store64 (elem_addr v index) e (mem s)\<rparr>"

definition vec_push_back :: "vec \<Rightarrow> u64 \<Rightarrow> kernel \<Rightarrow> (vec \<times> kernel) result" where
  "vec_push_back v e s =
     and_then (vec_resize v (len v + 1) s) (\<lambda>(v, s). Inr (v, vec_set v (len v - 1) e s))"

definition vec_at :: "vec \<Rightarrow> u64 \<Rightarrow> kernel \<Rightarrow> u64" where
  "vec_at v index s = load64 (mem s) (elem_addr v index)"

text \<open>
  The length of the copy is the source's expression \<open>sizeof(data[0]) * len - index - 1\<close>: the
  multiplication binds before the subtractions.
\<close>

definition vec_erase :: "vec \<Rightarrow> u64 \<Rightarrow> kernel \<Rightarrow> vec \<times> kernel" where
  "vec_erase v index s =
     (v\<lparr>len := len v - 1\<rparr>,
      s\<lparr>mem := memcpy (elem_addr v (index + 1)) (elem_addr v index) (8 * len v - index - 1) (mem s)\<rparr>)"

function vec_erase_val_from :: "u64 \<Rightarrow> vec \<Rightarrow> u64 \<Rightarrow> kernel \<Rightarrow> vec \<times> kernel" where
  "vec_erase_val_from i v e s =
     (if i < len v
      then if vec_at v i s = e then vec_erase v i s else vec_erase_val_from (i + 1) v e s
      else (v, s))"
  by pat_completeness auto
termination
proof (relation "measure (\<lambda>(i, v, e, s). unat (len v) - unat i)", goal_cases)
  case (2 i v e s)
  then have "unat i < unat (len v)" by (simp add: word_less_nat_alt)
  moreover have "unat (i + 1) = unat i + 1"
    using \<open>unat i < unat (len v)\<close> unsigned_less [of "len v", where ?'a = nat]
    by (subst unat_add_lt) simp_all
  ultimately show ?case by simp
qed simp

declare vec_erase_val_from.simps [simp del]

definition vec_erase_val :: "vec \<Rightarrow> u64 \<Rightarrow> kernel \<Rightarrow> vec \<times> kernel" where
  "vec_erase_val v e s = vec_erase_val_from 0 v e s"

section \<open>The list of elements\<close>

definition elem_at :: "mem \<Rightarrow> u64 \<Rightarrow> nat \<Rightarrow> u64" where
  "elem_at m d i = load64 m (d + of_nat (8 * i))"

definition vec_elems :: "kernel \<Rightarrow> vec \<Rightarrow> u64 list" where
  "vec_elems s v = map (elem_at (mem s) (vdata v)) [0..<unat (len v)]"

lemma length_vec_elems [simp]: "length (vec_elems s v) = unat (len v)"
  by (simp add: vec_elems_def)

lemma elem_addr_nat: "elem_addr v i = vdata v + of_nat (8 * unat i)"
  by (simp add: elem_addr_def mult.commute)

lemma vec_at_nth: "unat i < unat (len v) \<Longrightarrow> vec_at v i s = vec_elems s v ! unat i"
  by (simp add: vec_at_def vec_elems_def elem_at_def elem_addr_nat)

text \<open>The vector's elements lie inside one block of the kernel heap.\<close>

definition vec_ok :: "kernel \<Rightarrow> vec \<Rightarrow> bool" where
  "vec_ok s v \<longleftrightarrow>
     8 * unat (len v) \<le> unat (alloc_size v)
     \<and> (if vdata v = 0 then alloc_size v = 0 else live_block s (vdata v) (alloc_size v))"

lemma vec_ok_init: "vec_ok s vec_init" and vec_elems_init: "vec_elems s vec_init = []"
  by (simp_all add: vec_ok_def vec_init_def vec_elems_def)

section \<open>Erasing\<close>

text \<open>The byte range of the copy in \<open>vec_erase\<close> does not run over the end of the address space.\<close>

definition erase_fits :: "vec \<Rightarrow> u64 \<Rightarrow> bool" where
  "erase_fits v i \<longleftrightarrow> unat i < unat (len v) \<and> 8 * unat (len v) < 2 ^ 64
     \<and> unat (vdata v) + 8 * unat (len v) + 8 * unat i + 8 \<le> 2 ^ 64"

lemma erase_length:
  assumes "erase_fits v i"
  shows "unat (8 * len v - i - 1) = 8 * unat (len v) - unat i - 1"
proof -
  have len: "unat (8 * len v) = 8 * unat (len v)"
    using assms by (simp add: erase_fits_def unat_word_ariths)
  have i: "unat (8 * len v - i) = 8 * unat (len v) - unat i"
    using assms len by (subst unat_sub) (simp_all add: word_le_nat_alt erase_fits_def)
  have "unat i < unat (len v)" using assms by (simp add: erase_fits_def)
  then have "1 \<le> unat (8 * len v - i)" unfolding i by linarith
  then have "1 \<le> 8 * len v - i" by (simp add: word_le_nat_alt)
  then show ?thesis by (subst unat_sub) (simp_all add: i)
qed

lemma erase_copy:
  assumes fits: "erase_fits v i" and k: "k < 8 * unat (len v) - unat i - 1"
  shows "mem (snd (vec_erase v i s)) (elem_addr v i + of_nat k)
    = mem s (elem_addr v i + of_nat (8 + k))"
proof -
  let ?n = "8 * unat (len v) - unat i - 1"
  have src: "elem_addr v (i + 1) = elem_addr v i + 8" by (simp add: elem_addr_def algebra_simps)
  have u: "unat (elem_addr v i) = unat (vdata v) + 8 * unat i"
  proof -
    have a: "unat (of_nat (8 * unat i) :: u64) = 8 * unat i"
      using fits by (intro unat_of_nat64) (simp add: erase_fits_def)
    have "unat (vdata v) + 8 * unat i < 2 ^ 64"
      using fits unfolding erase_fits_def by linarith
    then have "unat (vdata v + of_nat (8 * unat i)) = unat (vdata v) + unat (of_nat (8 * unat i) :: u64)"
      by (intro unat_add_lt, unfold a) simp
    then show ?thesis unfolding elem_addr_nat a .
  qed
  have u8: "unat (elem_addr v i + 8) = unat (vdata v) + 8 * unat i + 8"
    using fits u by (subst unat_add_lt) (simp_all add: erase_fits_def)
  have "copy_safe (elem_addr v i + 8) (elem_addr v i) (unat (8 * len v - i - 1))"
    unfolding erase_length [OF fits]
    by (rule copy_safe_down) (use fits u u8 in \<open>auto simp: erase_fits_def\<close>)
  then have "memcpy (elem_addr v i + 8) (elem_addr v i) (8 * len v - i - 1) (mem s)
      (elem_addr v i + of_nat k) = mem s (elem_addr v i + 8 + of_nat k)"
    by (rule memcpy_copies) (use k in \<open>simp only: erase_length [OF fits]\<close>)
  then show ?thesis by (simp add: vec_erase_def src add.assoc)
qed

lemma erase_frame:
  assumes fits: "erase_fits v i" and "k < 8 * unat i"
  shows "mem (snd (vec_erase v i s)) (vdata v + of_nat k) = mem s (vdata v + of_nat k)"
proof -
  have "\<not> in_range (elem_addr v i) (unat (8 * len v - i - 1)) (vdata v + of_nat k)"
  proof
    assume "in_range (elem_addr v i) (unat (8 * len v - i - 1)) (vdata v + of_nat k)"
    then obtain j where "j < 8 * unat (len v) - unat i - 1"
        "vdata v + of_nat k = elem_addr v i + of_nat j"
      unfolding erase_length [OF fits] in_range_def by blast
    then have "j < 8 * unat (len v)" "vdata v + of_nat k = vdata v + of_nat (8 * unat i + j)"
      unfolding elem_addr_nat by (linarith, simp only: of_nat_add add.assoc)
    then have "k = 8 * unat i + j"
      by (elim offset_inj) (use fits assms(2) in \<open>simp_all add: erase_fits_def\<close>)
    then show False using assms(2) by simp
  qed
  then show ?thesis by (simp add: vec_erase_def memcpy_frame)
qed

lemma erase_elem:
  assumes fits: "erase_fits v i" and "j + 1 < unat (len v)"
  shows "elem_at (mem (snd (vec_erase v i s))) (vdata v) j
    = elem_at (mem s) (vdata v) (if j < unat i then j else j + 1)"
proof (cases "j < unat i")
  case True
  show ?thesis unfolding elem_at_def
  proof (rule load_le_cong)
    fix k :: nat assume "k < 8"
    then have "8 * j + k < 8 * unat i" using True by simp
    from erase_frame [OF fits this, of s] True
    show "mem (snd (vec_erase v i s)) (vdata v + of_nat (8 * j) + of_nat k)
      = mem s (vdata v + of_nat (8 * (if j < unat i then j else j + 1)) + of_nat k)"
      by (simp add: algebra_simps)
  qed
next
  case False
  show ?thesis unfolding elem_at_def
  proof (rule load_le_cong)
    fix k :: nat assume "k < 8"
    then have k: "8 * (j - unat i) + k < 8 * unat (len v) - unat i - 1"
      using False assms(2) by simp
    have j: "8 * j = 8 * unat i + 8 * (j - unat i)" using False by simp
    have "vdata v + of_nat (8 * j) + of_nat k = elem_addr v i + of_nat (8 * (j - unat i) + k)"
      unfolding elem_addr_nat j by (simp add: algebra_simps)
    moreover have "vdata v + of_nat (8 * (j + 1)) + of_nat k
        = elem_addr v i + of_nat (8 + (8 * (j - unat i) + k))"
    proof -
      have "8 * (j + 1) = 8 * unat i + 8 * (j - unat i) + 8" using False by simp
      then show ?thesis unfolding elem_addr_nat by (simp add: algebra_simps)
    qed
    ultimately show "mem (snd (vec_erase v i s)) (vdata v + of_nat (8 * j) + of_nat k)
      = mem s (vdata v + of_nat (8 * (if j < unat i then j else j + 1)) + of_nat k)"
      using erase_copy [OF fits k, of s] False by (simp only: if_False)
  qed
qed

lemma vec_erase_elems:
  assumes fits: "erase_fits v i"
  shows "vec_elems (snd (vec_erase v i s)) (fst (vec_erase v i s))
    = take (unat i) (vec_elems s v) @ drop (Suc (unat i)) (vec_elems s v)"
proof (rule nth_equalityI)
  have l: "unat (len v - 1) = unat (len v) - 1"
    using fits by (subst unat_sub) (auto simp: erase_fits_def word_le_nat_alt)
  then show len: "length (vec_elems (snd (vec_erase v i s)) (fst (vec_erase v i s)))
    = length (take (unat i) (vec_elems s v) @ drop (Suc (unat i)) (vec_elems s v))"
    using fits by (simp add: vec_erase_def erase_fits_def)
  fix j assume "j < length (vec_elems (snd (vec_erase v i s)) (fst (vec_erase v i s)))"
  then have j: "j + 1 < unat (len v)" by (simp add: vec_erase_def l)
  have "vec_elems (snd (vec_erase v i s)) (fst (vec_erase v i s)) ! j
      = elem_at (mem (snd (vec_erase v i s))) (vdata v) j"
    using j l by (simp add: vec_elems_def vec_erase_def)
  then show "vec_elems (snd (vec_erase v i s)) (fst (vec_erase v i s)) ! j
      = (take (unat i) (vec_elems s v) @ drop (Suc (unat i)) (vec_elems s v)) ! j"
    using j fits by (simp add: erase_elem [OF fits j] nth_append vec_elems_def erase_fits_def min_def)
qed

text \<open>
  The copy also overwrites bytes behind the last element whenever the erased element is not the
  first: seven bytes less than the number of erased positions times seven.
\<close>

lemma vec_erase_overrun:
  assumes fits: "erase_fits v i" and k: "k + 1 < 7 * unat i"
  shows "mem (snd (vec_erase v i s)) (vdata v + of_nat (8 * unat (len v) + k))
    = mem s (vdata v + of_nat (8 * unat (len v) + k + 8))"
proof -
  let ?k = "8 * unat (len v) - 8 * unat i + k"
  have le: "8 * unat i \<le> 8 * unat (len v)" using fits by (simp add: erase_fits_def)
  have "unat i < unat (len v)" using fits by (simp add: erase_fits_def)
  then have "?k < 8 * unat (len v) - unat i - 1" using k by linarith
  moreover have "vdata v + of_nat (8 * unat (len v) + k) = elem_addr v i + of_nat ?k"
    using le unfolding elem_addr_nat by (simp add: algebra_simps)
  moreover have "vdata v + of_nat (8 * unat (len v) + k + 8) = elem_addr v i + of_nat (8 + ?k)"
    using le unfolding elem_addr_nat by (simp add: algebra_simps)
  ultimately show ?thesis using erase_copy [OF fits, of ?k s] by (simp only:)
qed

section \<open>Appending\<close>

lemma elem_at_cong:
  "(\<And>k. k < 8 \<Longrightarrow> m' (d' + of_nat (8 * i + k)) = m (d + of_nat (8 * i + k))) \<Longrightarrow>
   elem_at m' d' i = elem_at m d i"
  unfolding elem_at_def by (rule load_le_cong) (simp add: add.assoc)

text \<open>Storing one element leaves the others.\<close>

lemma elem_at_store:
  assumes "8 * i + 8 \<le> 2 ^ 64" and "8 * j + 8 \<le> 2 ^ 64"
  shows "elem_at (store64 (d + of_nat (8 * i)) e m) d j = (if j = i then e else elem_at m d j)"
proof (cases "j = i")
  case True
  then show ?thesis by (simp add: elem_at_def)
next
  case False
  have "elem_at (store64 (d + of_nat (8 * i)) e m) d j = elem_at m d j"
  proof (rule elem_at_cong, rule store_le_frame)
    fix k :: nat assume k: "k < 8"
    show "\<not> in_range (d + of_nat (8 * i)) 8 (d + of_nat (8 * j + k))"
    proof
      assume "in_range (d + of_nat (8 * i)) 8 (d + of_nat (8 * j + k))"
      then obtain l where l: "l < 8" "d + of_nat (8 * j + k) = d + of_nat (8 * i) + of_nat l"
        by (auto simp only: in_range_def)
      then have "d + of_nat (8 * j + k) = d + of_nat (8 * i + l)"
        by (simp only: of_nat_add add.assoc)
      then have "8 * j + k = 8 * i + l"
        by (rule offset_inj) (use assms k l(1) in linarith)+
      then show False using False k l(1) by linarith
    qed
  qed
  with False show ?thesis by simp
qed

text \<open>What an append needs: room for a growth to twice the new length.\<close>

definition push_fits :: "kernel \<Rightarrow> vec \<Rightarrow> bool" where
  "push_fits s v \<longleftrightarrow> vec_ok s v \<and> unat (len v) < 2 ^ 59
     \<and> heap_ok (NUM_PAGES ((len v + 1) * 8 * 2) + 1) s"

lemma vec_resize_grow:
  assumes fits: "push_fits s v" and run: "vec_resize v (len v + 1) s = Inr (v', s')"
  shows "len v' = len v + 1" and "vec_ok s' v'" and "vdata v' \<noteq> 0"
    and "\<And>i. i < unat (len v) \<Longrightarrow> elem_at (mem s') (vdata v') i = elem_at (mem s) (vdata v) i"
proof -
  let ?new = "(len v + 1) * 8 * 2"
  have l: "unat (len v + 1) = unat (len v) + 1"
    using fits by (subst unat_add_lt) (simp_all add: push_fits_def)
  have l8: "unat ((len v + 1) * 8) = 8 * (unat (len v) + 1)"
    using fits l by (subst unat_mult_lt) (simp_all add: push_fits_def)
  have new: "unat ?new = 16 * (unat (len v) + 1)"
    using fits l8 by (subst unat_mult_lt) (simp_all add: push_fits_def)
  have bound: "unat ?new + 4095 < 2 ^ 64" using fits new by (simp add: push_fits_def)
  have ok: "vec_ok s v" using fits by (simp add: push_fits_def)
  have "len v' = len v + 1 \<and> vec_ok s' v' \<and> vdata v' \<noteq> 0 \<and> (\<forall>i<unat (len v).
      elem_at (mem s') (vdata v') i = elem_at (mem s) (vdata v) i)"
  proof (cases "alloc_size v < (len v + 1) * 8")
    case False
    then have "v' = v\<lparr>len := len v + 1\<rparr>" "s' = s" using run by (simp_all add: vec_resize_def)
    moreover have "8 * (unat (len v) + 1) \<le> unat (alloc_size v)"
      using False l8 by (simp add: word_less_nat_alt)
    ultimately show ?thesis using ok l by (auto simp: vec_ok_def split: if_splits)
  next
    case True
    then obtain d where d: "kmrealloc (vdata v) ?new s = Inr (d, s')"
        "v' = v\<lparr>len := len v + 1, alloc_size := ?new, vdata := d\<rparr>"
      using run by (auto simp: vec_resize_def Let_def elim!: and_then_InrE)
    have old: "vdata v = 0 \<or> live_block s (vdata v) (alloc_size v)"
      using ok by (auto simp: vec_ok_def split: if_splits)
    have heap: "heap_ok (NUM_PAGES ?new + 1) s" using fits by (simp add: push_fits_def)
    note moved = kmrealloc_block [OF heap bound old d(1)]
    have elems: "elem_at (mem s') d i = elem_at (mem s) (vdata v) i" if "i < unat (len v)" for i
    proof (rule elem_at_cong, rule moved(2))
      have "8 * unat (len v) \<le> unat (alloc_size v)" using ok by (simp add: vec_ok_def)
      then show "8 * i + k < min (unat (alloc_size v)) (unat ?new)" if "k < 8" for k
        using \<open>i < unat (len v)\<close> that new by simp
      show "vdata v \<noteq> 0"
        using \<open>i < unat (len v)\<close> ok by (auto simp: vec_ok_def)
    qed
    have "d \<noteq> 0" using moved(1) by (simp add: live_block_def)
    then show ?thesis using moved(1) new elems l by (simp add: d(2) vec_ok_def)
  qed
  then show "len v' = len v + 1" and "vec_ok s' v'" and "vdata v' \<noteq> 0"
    and "\<And>i. i < unat (len v) \<Longrightarrow> elem_at (mem s') (vdata v') i = elem_at (mem s) (vdata v) i"
    by simp_all
qed

lemma vec_push_back_elems:
  assumes fits: "push_fits s v" and run: "vec_push_back v e s = Inr (v', s')"
  shows "vec_elems s' v' = vec_elems s v @ [e]" and "vec_ok s' v'"
proof -
  obtain t where t: "vec_resize v (len v + 1) s = Inr (v', t)" "s' = vec_set v' (len v' - 1) e t"
    using run by (auto simp: vec_push_back_def elim!: and_then_InrE)
  note grown = vec_resize_grow [OF fits t(1)]
  have l: "unat (len v + 1) = unat (len v) + 1"
    using fits by (subst unat_add_lt) (simp_all add: push_fits_def)
  have s': "s' = t\<lparr>mem := store64 (vdata v' + of_nat (8 * unat (len v))) e (mem t)\<rparr>"
    unfolding t(2) vec_set_def elem_addr_nat grown(1) by simp
  have small: "unat (len v) < 2 ^ 59" using fits by (simp add: push_fits_def)
  have elem: "elem_at (mem s') (vdata v') i = (if i = unat (len v) then e else elem_at (mem t) (vdata v') i)"
    if "i \<le> unat (len v)" for i
    using elem_at_store [of "unat (len v)" i "vdata v'" e "mem t"] that small
    unfolding s' by (simp del: of_nat_mult of_nat_add of_nat_unat)
  have "vec_elems s' v' = map (elem_at (mem s') (vdata v')) ([0..<unat (len v)] @ [unat (len v)])"
    by (simp add: vec_elems_def grown(1) l)
  also have "\<dots> = vec_elems s v @ [e]"
    using elem grown(4) by (simp add: vec_elems_def)
  finally show "vec_elems s' v' = vec_elems s v @ [e]" .
  have live: "live_block t (vdata v') (alloc_size v')" and len: "8 * unat (len v') \<le> unat (alloc_size v')"
    using grown(2,3) by (simp_all add: vec_ok_def)
  have "live_block s' (vdata v') (alloc_size v')"
    unfolding s' by (rule store_in_block [OF live]) (use len l in \<open>simp add: grown(1)\<close>)
  then show "vec_ok s' v'" using grown(3) len by (simp add: vec_ok_def)
qed

section \<open>Erasing by value\<close>

text \<open>The whole range of possible erasures stays inside the address space.\<close>

definition all_fit :: "vec \<Rightarrow> bool" where
  "all_fit v \<longleftrightarrow> unat (vdata v) + 16 * unat (len v) \<le> 2 ^ 64"

lemma all_fit_erase: "all_fit v \<Longrightarrow> i < len v \<Longrightarrow> erase_fits v i"
  by (simp add: all_fit_def erase_fits_def word_less_nat_alt)

lemma vec_erase_val_from_elems:
  assumes "all_fit v" and "unat i \<le> unat (len v)"
  shows "vec_elems (snd (vec_erase_val_from i v e s)) (fst (vec_erase_val_from i v e s))
    = take (unat i) (vec_elems s v) @ remove1 e (drop (unat i) (vec_elems s v))"
  using assms
proof (induction i v e s rule: vec_erase_val_from.induct)
  case (1 i v e s)
  let ?xs = "vec_elems s v"
  show ?case
  proof (cases "i < len v")
    case False
    then have "unat i = unat (len v)" using "1.prems" by (simp add: word_less_nat_alt)
    then show ?thesis using False by (subst (1 2) vec_erase_val_from.simps) simp
  next
    case True
    then have i: "unat i < length ?xs" by (simp add: word_less_nat_alt)
    have cons: "drop (unat i) ?xs = vec_at v i s # drop (Suc (unat i)) ?xs"
      using i by (simp add: Cons_nth_drop_Suc vec_at_nth)
    have step: "unat (i + 1) = Suc (unat i)"
      using i unsigned_less [of "len v", where ?'a = nat] by (subst unat_add_lt) simp_all
    show ?thesis
    proof (cases "vec_at v i s = e")
      case found: True
      have "vec_erase_val_from i v e s = vec_erase v i s"
        using True found by (subst vec_erase_val_from.simps) simp
      then show ?thesis
        using vec_erase_elems [OF all_fit_erase [OF "1.prems"(1) True]] cons found by simp
    next
      case other: False
      have "vec_erase_val_from i v e s = vec_erase_val_from (i + 1) v e s"
        using True other by (subst vec_erase_val_from.simps) simp
      moreover have "take (Suc (unat i)) ?xs = take (unat i) ?xs @ [vec_at v i s]"
        using i by (simp add: take_Suc_conv_app_nth vec_at_nth)
      ultimately show ?thesis
        using "1.IH" [OF True other "1.prems"(1)] i cons other by (simp add: step)
    qed
  qed
qed

lemma vec_erase_val_elems:
  "all_fit v \<Longrightarrow>
   vec_elems (snd (vec_erase_val v e s)) (fst (vec_erase_val v e s)) = remove1 e (vec_elems s v)"
  unfolding vec_erase_val_def by (subst vec_erase_val_from_elems) simp_all

section \<open>The contract, and the properties\<close>

interpretation vec: growable_array vec_elems vec_push_back vec_erase_val push_fits all_fit
proof
  fix s v e v' s' assume "push_fits s v" "vec_push_back v e s = Inr (v', s')"
  then show "vec_elems s' v' = vec_elems s v @ [e]" by (rule vec_push_back_elems(1))
next
  fix v e s v' s' assume "all_fit v" "vec_erase_val v e s = (v', s')"
  then show "vec_elems s' v' = remove1 e (vec_elems s v)" using vec_erase_val_elems [where v = v and e = e and s = s] by simp
qed

text \<open>\<open>vec_push_back\<close> appends: when it returns, the elements are the old ones followed by the
  new one, also when the block had to grow and move, and the vector lies in a live heap block.\<close>

theorem vec_push_back_appends:
  assumes "push_fits s v" and "vec_push_back v e s = Inr (v', s')"
  shows "vec_elems s' v' = vec_elems s v @ [e] \<and> vec_ok s' v'"
  using vec_push_back_elems [OF assms] by simp

lemma push_fits_example: "push_fits example_kernel vec_init"
proof -
  have "NUM_PAGES 16 + 1 = 2" by (simp add: NUM_PAGES_def)
  then show ?thesis
    using heap_ok_example [of 2] vec_ok_init [of example_kernel] by (simp add: push_fits_def vec_init_def)
qed

lemma push_example:
  "\<exists>v s. vec_push_back vec_init 7 example_kernel = Inr (v, s) \<and> all_fit v"
proof -
  have "NUM_PAGES 16 + 1 = 2" by (simp add: NUM_PAGES_def)
  then show ?thesis
    by (simp add: vec_push_back_def vec_resize_def vec_init_def kmrealloc_def kmalloc_def
        pmm_get_example Let_def all_fit_def PHYS_TO_VIRT_def)
qed

theorem vec_push_back_appends_witness:
  "\<exists>v s. vec_push_back vec_init 7 example_kernel = Inr (v, s) \<and> vec_elems s v = [7]"
proof -
  obtain v s where run: "vec_push_back vec_init 7 example_kernel = Inr (v, s)"
    using push_example by blast
  from vec_push_back_appends [OF push_fits_example run] run show ?thesis
    by (simp add: vec_elems_init)
qed

text \<open>\<open>vec_erase_val\<close> removes the first occurrence of a value and keeps the order of the
  others; so erasing what was just pushed gives back the old elements.\<close>

theorem vec_push_erase_roundtrip:
  assumes "push_fits s v" and "vec_push_back v e s = Inr (v1, s1)" and "all_fit v1"
  shows "vec_elems (snd (vec_erase_val v1 d s1)) (fst (vec_erase_val v1 d s1))
      = remove1 d (vec_elems s v @ [e])
    \<and> (e \<notin> set (vec_elems s v) \<longrightarrow>
        vec_elems (snd (vec_erase_val v1 e s1)) (fst (vec_erase_val v1 e s1)) = vec_elems s v)"
  using vec.push_appends [OF assms(1,2)] vec.erase_removes [OF assms(3)]
    vec.push_erase [OF assms(1,2) _ assms(3)] by (metis prod.collapse)

theorem vec_push_erase_roundtrip_witness:
  "\<exists>v s. vec_push_back vec_init 7 example_kernel = Inr (v, s)
     \<and> vec_elems (snd (vec_erase_val v 7 s)) (fst (vec_erase_val v 7 s)) = []"
proof -
  obtain v s where run: "vec_push_back vec_init 7 example_kernel = Inr (v, s)" "all_fit v"
    using push_example by blast
  from vec_push_erase_roundtrip [OF push_fits_example run] run show ?thesis
    by (auto simp: vec_elems_init)
qed

text \<open>\<open>vec_erase\<close> writes past the end of the array. Its length expression multiplies only
  \<open>len\<close> by the element size, so erasing at index \<open>i\<close> also moves up to \<open>7 * i - 1\<close> bytes that lie
  behind the last element down by eight.\<close>

theorem vec_erase_writes_past_the_end:
  assumes "erase_fits v i" and "k + 1 < 7 * unat i"
  shows "mem (snd (vec_erase v i s)) (vdata v + of_nat (8 * unat (len v) + k))
    = mem s (vdata v + of_nat (8 * unat (len v) + k + 8))"
  by (rule vec_erase_overrun [OF assms])

theorem vec_erase_writes_past_the_end_witness:
  "mem (snd (vec_erase \<lparr>len = 2, alloc_size = 16, vdata = 0x1000\<rparr> 1
      (example_kernel\<lparr>mem := (\<lambda>_. 0)(0x1018 := 5)\<rparr>))) 0x1010 = 5"
  using vec_erase_writes_past_the_end [of "\<lparr>len = 2, alloc_size = 16, vdata = 0x1000\<rparr>" 1 0
      "example_kernel\<lparr>mem := (\<lambda>_. 0)(0x1018 := 5)\<rparr>"]
  by (simp add: erase_fits_def)

end
