(* ===== verification/Vmm.thy ===== *)
theory Vmm
  imports Kmalloc
begin

text \<open>
  \<open>kernel/mm/vmm.c\<close>: the four-level page tables of the x86-64 architecture. The tables are frames of
  the physical memory manager, read and written through the direct map; an address space is the
  virtual address of its \<open>PML4\<close>. The specification is the table walk of the processor: \<open>leaf_entry\<close> gives
  the entry of a page number (0 when a table is missing), and \<open>translate\<close> the physical address of a virtual one.
  The log is not part of the state; the messages of \<open>vmm_init\<close> are said in \<open>Boot\<close>.
\<close>

section \<open>State and operations\<close>

record machine =
  kern :: kernel
  kaddrspace :: u64
  cr3 :: u64
  invlpgs :: "u64 list"

abbreviation VMM_FLAG_PRESENT :: u64 where "VMM_FLAG_PRESENT \<equiv> 1"
abbreviation VMM_FLAG_READWRITE :: u64 where "VMM_FLAG_READWRITE \<equiv> 2"
abbreviation VMM_FLAG_USER :: u64 where "VMM_FLAG_USER \<equiv> 4"
abbreviation VMM_FLAG_CACHE_DISABLE :: u64 where "VMM_FLAG_CACHE_DISABLE \<equiv> 16"
abbreviation VMM_FLAG_WRITECOMBINE :: u64 where "VMM_FLAG_WRITECOMBINE \<equiv> 128"

definition VMM_FLAGS_DEFAULT :: u64 where
  "VMM_FLAGS_DEFAULT = VMM_FLAG_PRESENT OR VMM_FLAG_READWRITE"
definition VMM_FLAGS_MMIO :: u64 where "VMM_FLAGS_MMIO = VMM_FLAGS_DEFAULT OR VMM_FLAG_CACHE_DISABLE"
definition VMM_FLAGS_USERMODE :: u64 where "VMM_FLAGS_USERMODE = VMM_FLAGS_DEFAULT OR VMM_FLAG_USER"

definition MAKE_TABLE_ENTRY :: "u64 \<Rightarrow> u64 \<Rightarrow> u64" where
  "MAKE_TABLE_ENTRY address flags = (address AND NOT 0xfff) OR flags"

definition pte :: "u64 \<Rightarrow> u64" where "pte vaddr = drop_bit 12 vaddr AND 0x1ff"
definition pde :: "u64 \<Rightarrow> u64" where "pde vaddr = drop_bit 21 vaddr AND 0x1ff"
definition pdpe :: "u64 \<Rightarrow> u64" where "pdpe vaddr = drop_bit 30 vaddr AND 0x1ff"
definition pml4e :: "u64 \<Rightarrow> u64" where "pml4e vaddr = drop_bit 39 vaddr AND 0x1ff"

text \<open>Reading and writing \<open>table[i]\<close>.\<close>

definition entry :: "kernel \<Rightarrow> u64 \<Rightarrow> u64 \<Rightarrow> u64" where
  "entry s table i = load64 (mem s) (table + 8 * i)"

definition set_entry :: "u64 \<Rightarrow> u64 \<Rightarrow> u64 \<Rightarrow> kernel \<Rightarrow> kernel" where
  "set_entry table i v s = s\<lparr>mem := store64 (table + 8 * i) v (mem s)\<rparr>"

text \<open>The table behind an entry, made when the entry is not present: the step \<open>map_page\<close> takes three times.\<close>

definition next_table :: "u64 \<Rightarrow> u64" where
  "next_table e = PHYS_TO_VIRT (e AND NOT 0xfff)"

definition get_table :: "u64 \<Rightarrow> u64 \<Rightarrow> kernel \<Rightarrow> (u64 \<times> kernel) result" where
  "get_table table i s =
     (if entry s table i AND VMM_FLAG_PRESENT = 0
      then and_then (pmm_get 1 s) (\<lambda>(p, s).
        let t = PHYS_TO_VIRT p;
            s = s\<lparr>mem := memset t 0 PAGE_SIZE (mem s)\<rparr>
        in Inr (t, set_entry table i (MAKE_TABLE_ENTRY (VIRT_TO_PHYS t) VMM_FLAGS_USERMODE) s))
      else Inr (next_table (entry s table i), s))"

definition flush_page :: "u64 \<Rightarrow> u64 \<Rightarrow> machine \<Rightarrow> machine" where
  "flush_page pml4 vaddr m =
     (if cr3 m = VIRT_TO_PHYS pml4 then m\<lparr>invlpgs := invlpgs m @ [vaddr]\<rparr> else m)"

definition map_page :: "u64 \<Rightarrow> u64 \<Rightarrow> u64 \<Rightarrow> u64 \<Rightarrow> machine \<Rightarrow> machine result" where
  "map_page pml4 vaddr paddr flags m =
     and_then (get_table pml4 (pml4e vaddr) (kern m)) (\<lambda>(pdpt, s).
     and_then (get_table pdpt (pdpe vaddr) s) (\<lambda>(pd, s).
     and_then (get_table pd (pde vaddr) s) (\<lambda>(pt, s).
       let s = set_entry pt (pte vaddr) (MAKE_TABLE_ENTRY (paddr AND NOT 0xfff) flags) s
       in Inr (flush_page pml4 vaddr (m\<lparr>kern := s\<rparr>)))))"

text \<open>\<open>unmap_page\<close> masks with \<open>0x1ff\<close> where \<open>map_page\<close> masks with \<open>0xfff\<close>.\<close>

definition child_table :: "u64 \<Rightarrow> u64" where
  "child_table e = PHYS_TO_VIRT (e AND NOT 0x1ff)"

definition table_empty :: "kernel \<Rightarrow> u64 \<Rightarrow> bool" where
  "table_empty s t \<longleftrightarrow> list_all (\<lambda>i. entry s t (of_nat i) = 0) [0..<512]"

definition drop_table :: "u64 \<Rightarrow> u64 \<Rightarrow> u64 \<Rightarrow> kernel \<Rightarrow> kernel result" where
  "drop_table parent i t s = pmm_free (VIRT_TO_PHYS t) 1 (set_entry parent i 0 s)"

definition drop_empty_tables :: "u64 \<Rightarrow> u64 \<Rightarrow> u64 \<Rightarrow> u64 \<Rightarrow> u64 \<Rightarrow> kernel \<Rightarrow> kernel result" where
  "drop_empty_tables vaddr pml4 pdpt pd pt s =
     (if \<not> table_empty s pt then Inr s
      else and_then (drop_table pd (pde vaddr) pt s) (\<lambda>s.
        if \<not> table_empty s pd then Inr s
        else and_then (drop_table pdpt (pdpe vaddr) pd s) (\<lambda>s.
          if \<not> table_empty s pdpt then Inr s
          else drop_table pml4 (pml4e vaddr) pdpt s)))"

definition unmap_page :: "u64 \<Rightarrow> u64 \<Rightarrow> machine \<Rightarrow> machine result" where
  "unmap_page pml4 vaddr m =
     (let s = kern m; e4 = entry s pml4 (pml4e vaddr) in
      if e4 AND VMM_FLAG_PRESENT = 0 then Inr m
      else let pdpt = child_table e4; e3 = entry s pdpt (pdpe vaddr) in
      if e3 AND VMM_FLAG_PRESENT = 0 then Inr m
      else let pd = child_table e3; e2 = entry s pd (pde vaddr) in
      if e2 AND VMM_FLAG_PRESENT = 0 then Inr m
      else let pt = child_table e2; e1 = entry s pt (pte vaddr) in
      if e1 AND VMM_FLAG_PRESENT = 0 then Inr m
      else let s = set_entry pt (pte vaddr) 0 s;
               m = flush_page pml4 vaddr (m\<lparr>kern := s\<rparr>)
      in and_then (drop_empty_tables vaddr pml4 pdpt pd pt s) (\<lambda>s. Inr (m\<lparr>kern := s\<rparr>)))"

text \<open>A null \<open>addrspace\<close> stands for the kernel's own.\<close>

definition addrspace_of :: "u64 option \<Rightarrow> machine \<Rightarrow> u64" where
  "addrspace_of addrspace m = (case addrspace of None \<Rightarrow> kaddrspace m | Some pml4 \<Rightarrow> pml4)"

definition vmm_unmap :: "u64 option \<Rightarrow> u64 \<Rightarrow> u64 \<Rightarrow> machine \<Rightarrow> machine result" where
  "vmm_unmap addrspace vaddr np m =
     (let as = addrspace_of addrspace m in
      after_loop (for_pages (np * PAGE_SIZE)
        (\<lambda>i. step_or_stop (unmap_page as (vaddr + i))) 0 m) Inr)"

definition vmm_map :: "u64 option \<Rightarrow> u64 \<Rightarrow> u64 \<Rightarrow> u64 \<Rightarrow> u64 \<Rightarrow> machine \<Rightarrow> machine result" where
  "vmm_map addrspace vaddr paddr np flags m =
     (let as = addrspace_of addrspace m in
      after_loop (for_pages (np * PAGE_SIZE)
        (\<lambda>i. step_or_stop (map_page as (vaddr + i) (paddr + i) flags)) 0 m) Inr)"

definition vmm_init :: "machine \<Rightarrow> machine result" where
  "vmm_init m =
     and_then (kmalloc PAGE_SIZE (kern m)) (\<lambda>(a, s).
       let s = s\<lparr>mem := memset a 0 PAGE_SIZE (mem s)\<rparr>;
           m = m\<lparr>kern := s, kaddrspace := a\<rparr>
       in and_then (vmm_map (Some a) 0xffffffff80000000 0 (NUM_PAGES 0x80000000) VMM_FLAGS_DEFAULT m) (\<lambda>m.
          and_then (vmm_map (Some a) 0xffff800000000000 0
              (NUM_PAGES (phys_limit (memstats (kern m)))) VMM_FLAGS_DEFAULT m) (\<lambda>m.
          Inr (m\<lparr>cr3 := VIRT_TO_PHYS (kaddrspace m)\<rparr>))))"

section \<open>The table walk\<close>

text \<open>The table reached from \<open>table\<close> along a list of indices, as the processor follows it.\<close>

fun node :: "kernel \<Rightarrow> u64 \<Rightarrow> u64 list \<Rightarrow> u64 option" where
  "node s t [] = Some t"
| "node s t (i # p) =
     (if entry s t i AND VMM_FLAG_PRESENT = 0 then None else node s (next_table (entry s t i)) p)"

definition vpn :: "u64 \<Rightarrow> u64 list" where
  "vpn va = [pml4e va, pdpe va, pde va, pte va]"

definition leaf_entry :: "kernel \<Rightarrow> u64 \<Rightarrow> u64 list \<Rightarrow> u64" where
  "leaf_entry s r p = (case node s r (butlast p) of None \<Rightarrow> 0 | Some t \<Rightarrow> entry s t (last p))"

definition translate :: "kernel \<Rightarrow> u64 \<Rightarrow> u64 \<Rightarrow> u64 option" where
  "translate s r va =
     (let e = leaf_entry s r (vpn va)
      in if e AND VMM_FLAG_PRESENT = 0 then None
         else Some ((e AND 0x000ffffffffff000) OR (va AND 0xfff)))"

end
