(* ===== verification/Klog.thy ===== *)
theory Klog
  imports Aeolos_Prelude
begin

text \<open>
  \<open>kernel/lib/klog.c\<close> and \<open>kernel/dev/serial/serial.c\<close>: the kernel log, a ring buffer of 65536 bytes
  that also goes to the serial line, and the kernel's \<open>printf\<close>. A C string is the list of its bytes
  up to the NUL. The reference definitions are the sequence of bytes the ring holds, the numeral of
  a number in a base, and the text of a format.
\<close>

section \<open>The ring buffer\<close>

record klog =
  log_buff :: "u16 \<Rightarrow> u8"
  log_start :: u16
  log_end :: u16
  tmpbuf :: "u8 list"
  serial :: "u8 list"

text \<open>The bytes that leave through the serial port; the wait for an empty transmitter is the device's.\<close>

definition serial_send :: "u8 \<Rightarrow> u8 list \<Rightarrow> u8 list" where
  "serial_send byte out = (if byte = 10 then out @ [13] else out) @ [byte]"

definition putch :: "u8 \<Rightarrow> klog \<Rightarrow> klog" where
  "putch i k =
     (let k = k\<lparr>log_buff := (log_buff k)(log_end k := i), log_end := log_end k + 1\<rparr>;
          k = (if log_end k = log_start k then k\<lparr>log_start := log_start k + 1\<rparr> else k)
      in k\<lparr>serial := serial_send i (serial k)\<rparr>)"

text \<open>A loop over \<open>len\<close> bytes, whatever they are, and one that stops at the NUL.\<close>

primrec putsn :: "u8 list \<Rightarrow> klog \<Rightarrow> klog" where
  "putsn [] k = k"
| "putsn (c # s) k = putsn s (putch c k)"

primrec puts :: "u8 list \<Rightarrow> klog \<Rightarrow> klog" where
  "puts [] k = k"
| "puts (c # s) k = (if c = 0 then k else puts s (putch c k))"

definition bytes :: "string \<Rightarrow> u8 list" where
  "bytes s = map of_char s"

section \<open>Numbers\<close>

definition lookup_digits :: "u8 list" where
  "lookup_digits = bytes ''0123456789ABCDEFGHIJKLMNOPQRSTUVWXYZ'' @ [0]"

text \<open>
  The loop that fills \<open>tmpbuf\<close> from index 1, least significant digit first. It need not stop (base 1),
  and it can leave both arrays, so it is a partial function with faults.
\<close>

partial_function (option) digit_loop ::
  "u64 \<Rightarrow> u64 \<Rightarrow> nat \<Rightarrow> u8 list \<Rightarrow> (nat \<times> u8 list) result option" where
  "digit_loop base num len buf =
     (if base = 0 then Some (Inl Undefined_Behaviour)
      else if length buf \<le> len \<or> length lookup_digits \<le> unat (num mod base) then Some (Inl Out_Of_Bounds)
      else let buf = buf[len := lookup_digits ! unat (num mod base)]; num = num div base
           in if num \<noteq> 0 then digit_loop base num (len + 1) buf else Some (Inr (len + 1, buf)))"

text \<open>\<open>while (--len) putch(tmpbuf[len])\<close>.\<close>

primrec put_digits :: "nat \<Rightarrow> u8 list \<Rightarrow> klog \<Rightarrow> klog" where
  "put_digits 0 buf k = k"
| "put_digits (Suc n) buf k = put_digits n buf (putch (buf ! Suc n) k)"

definition putnum :: "u64 \<Rightarrow> u64 \<Rightarrow> bool \<Rightarrow> klog \<Rightarrow> klog result" where
  "putnum num base is_signed k =
     (let neg = num <s 0 \<and> is_signed;
          k = (if neg then putch 45 k else k);
          num = (if neg then - num else num)
      in and_then (and_then (from_option Diverges (digit_loop base num 1 (tmpbuf k))) id) (\<lambda>(len, buf).
         Inr (put_digits (len - 1) buf (k\<lparr>tmpbuf := buf\<rparr>))))"

section \<open>Formats\<close>

text \<open>
  A variadic argument is a 64-bit slot or a string. Reading an \<open>int\<close> takes the low half of the slot;
  reading a missing argument, or a string as a number, is undefined.
\<close>

datatype varg = Word_Arg u64 | Str_Arg "u8 list"

definition int_arg :: "u64 \<Rightarrow> u64" where
  "int_arg w = scast (ucast w :: u32)"

text \<open>The character after the percent sign.\<close>

definition directive :: "u8 \<Rightarrow> varg list \<Rightarrow> klog \<Rightarrow> (varg list \<times> klog) result" where
  "directive c args k =
     (if c = 37 then Inr (args, putch 37 k)
      else if c = 100 then
        (case args of Word_Arg w # args \<Rightarrow> and_then (putnum (int_arg w) 10 True k) (\<lambda>k. Inr (args, k))
         | _ \<Rightarrow> Inl Undefined_Behaviour)
      else if c = 120 then
        (case args of Word_Arg w # args \<Rightarrow>
            and_then (putnum w 16 False (puts (bytes ''0x'') k)) (\<lambda>k. Inr (args, k))
         | _ \<Rightarrow> Inl Undefined_Behaviour)
      else if c = 115 then
        (case args of Str_Arg s # args \<Rightarrow> Inr (args, puts s k) | _ \<Rightarrow> Inl Undefined_Behaviour)
      else if c = 98 then
        (case args of Word_Arg w # args \<Rightarrow>
            Inr (args, puts (bytes (if int_arg w \<noteq> 0 then ''true'' else ''false'')) k)
         | _ \<Rightarrow> Inl Undefined_Behaviour)
      else Inr (args, k))"

text \<open>\<open>s[i]\<close>: the NUL stands behind the last character, and nothing behind the NUL may be read.\<close>

definition char_at :: "u8 list \<Rightarrow> nat \<Rightarrow> u8 result" where
  "char_at s i = (if i < length s then Inr (s ! i) else if i = length s then Inr 0 else Inl Out_Of_Bounds)"

function vprintf :: "u8 list \<Rightarrow> nat \<Rightarrow> varg list \<Rightarrow> klog \<Rightarrow> klog result" where
  "vprintf s i args k =
     and_then (char_at s i) (\<lambda>c.
       if c = 0 then Inr k
       else if c = 37 then
         and_then (char_at s (i + 1)) (\<lambda>d.
         and_then (directive d args k) (\<lambda>(args, k).
           vprintf s (i + 2) args k))
       else vprintf s (i + 1) args (putch c k))"
  by pat_completeness auto
termination
  by (relation "measure (\<lambda>(s, i, _). Suc (length s) - i)") (auto simp: char_at_def split: if_splits)

section \<open>The interface\<close>

text \<open>
  Every function of the interface holds \<open>log_lock\<close> from its first line to its last, so a call is one
  step of the log.
\<close>

datatype loglevel = LOG_SUCCESS | LOG_INFO | LOG_WARN | LOG_ERROR

definition ESC :: u8 where "ESC = 27"

definition level_prefix :: "loglevel \<Rightarrow> u8 list" where
  "level_prefix lvl =
     (case lvl of
        LOG_SUCCESS \<Rightarrow> ESC # bytes ''[32;1m[OKAY]  '' @ ESC # bytes ''[0m''
      | LOG_WARN \<Rightarrow> ESC # bytes ''[33m[WARN]  '' @ ESC # bytes ''[0m''
      | LOG_ERROR \<Rightarrow> ESC # bytes ''[31;1m[ERROR] '' @ ESC # bytes ''[0m''
      | LOG_INFO \<Rightarrow> ESC # bytes ''[34;1m[INFO]  '' @ ESC # bytes ''[0m'')"

definition klog_putchar :: "u8 \<Rightarrow> klog \<Rightarrow> klog" where "klog_putchar i k = putch i k"
definition klog_puts :: "u8 list \<Rightarrow> klog \<Rightarrow> klog" where "klog_puts s k = puts s k"
definition klog_putsn :: "u8 list \<Rightarrow> klog \<Rightarrow> klog" where "klog_putsn s k = putsn s k"

definition klog_vprintf :: "u8 list \<Rightarrow> varg list \<Rightarrow> klog \<Rightarrow> klog result" where
  "klog_vprintf s args k = vprintf s 0 args k"

definition klog_printf :: "u8 list \<Rightarrow> varg list \<Rightarrow> klog \<Rightarrow> klog result" where
  "klog_printf s args k = vprintf s 0 args k"

definition klog_level :: "loglevel \<Rightarrow> u8 list \<Rightarrow> varg list \<Rightarrow> klog \<Rightarrow> klog result" where
  "klog_level lvl s args k = vprintf s 0 args (puts (level_prefix lvl) k)"

text \<open>The macros \<open>klog_ok\<close>, \<open>klog_info\<close>, \<open>klog_warn\<close> and \<open>klog_err\<close>: the name of the calling function comes first.\<close>

definition klog_from :: "loglevel \<Rightarrow> string \<Rightarrow> u8 list \<Rightarrow> varg list \<Rightarrow> klog \<Rightarrow> klog result" where
  "klog_from lvl func s args k =
     klog_level lvl (ESC # bytes ''[37;1m%s:'' @ ESC # bytes ''[0m '' @ s) (Str_Arg (bytes func) # args) k"

declare vprintf.simps [simp del]

section \<open>The bytes of the log\<close>

definition log_bytes :: "klog \<Rightarrow> u8 list" where
  "log_bytes k = map (\<lambda>i. log_buff k (log_start k + of_nat i)) [0..<unat (log_end k - log_start k)]"

text \<open>The last \<open>n\<close> elements of a list.\<close>

definition lastn :: "nat \<Rightarrow> 'a list \<Rightarrow> 'a list" where
  "lastn n xs = drop (length xs - n) xs"

lemma lastn_id: "length xs \<le> n \<Longrightarrow> lastn n xs = xs"
  by (simp add: lastn_def)

lemma lastn_append_lastn: "lastn n (lastn n xs @ ys) = lastn n (xs @ ys)"
proof (cases "length xs \<le> n")
  case False
  then have l: "length (lastn n xs) = n" by (simp add: lastn_def)
  show ?thesis
    using False unfolding lastn_def [of n "lastn n xs @ ys"] lastn_def [of n "xs @ ys"] length_append l
    by (simp add: lastn_def drop_drop add.commute)
qed (simp add: lastn_id)

lemma length_log_bytes: "length (log_bytes k) \<le> 65535"
  using unsigned_less [of "log_end k - log_start k", where ?'a = nat] by (simp add: log_bytes_def)

text \<open>The ring buffer implements a queue that keeps the last 65535 bytes.\<close>

lemma unat_of_nat16: "n < 65536 \<Longrightarrow> unat (of_nat n :: u16) = n"
  by (simp add: unat_of_nat take_bit_eq_mod)

lemma of_nat16_inj: "i < 65536 \<Longrightarrow> j < 65536 \<Longrightarrow> (of_nat i :: u16) = of_nat j \<longleftrightarrow> i = j"
  using unat_of_nat16 by metis

lemma putch_fields:
  "log_buff (putch c k) = (log_buff k)(log_end k := c)" "log_end (putch c k) = log_end k + 1"
  "log_start (putch c k) = (if log_end k + 1 = log_start k then log_start k + 1 else log_start k)"
  "serial (putch c k) = serial_send c (serial k)" "tmpbuf (putch c k) = tmpbuf k"
  by (simp_all add: putch_def Let_def)

lemma log_bytes_putch: "log_bytes (putch c k) = lastn 65535 (log_bytes k @ [c])"
proof -
  let ?n = "unat (log_end k - log_start k)"
  have n: "?n < 65536" using unsigned_less [of "log_end k - log_start k", where ?'a = nat] by simp
  have e: "log_end k = log_start k + of_nat ?n" by simp
  show ?thesis
  proof (cases "log_end k + 1 = log_start k")
    case True
    then have "log_end k - log_start k = 65535" unfolding True [symmetric] by simp
    then have full: "?n = 65535" by simp
    have "log_start k + 1 + of_nat i = log_end k \<longleftrightarrow> i = 65534" if "i < 65535" for i :: nat
    proof -
      have "log_start k + 1 + of_nat i = log_end k \<longleftrightarrow> of_nat (Suc i) = (of_nat ?n :: u16)"
        by (subst e) (simp only: add.assoc add_left_cancel of_nat_Suc)
      also have "\<dots> \<longleftrightarrow> Suc i = ?n" using that n by (intro of_nat16_inj) simp_all
      finally show ?thesis using full by simp
    qed
    then have "log_bytes (putch c k)
        = map (\<lambda>i. if i = 65534 then c else log_buff k (log_start k + 1 + of_nat i)) [0..<65535]"
    proof -
      have "log_end (putch c k) - log_start (putch c k) = 65535"
        using True by (simp add: putch_fields)
      then have "unat (log_end (putch c k) - log_start (putch c k)) = 65535" by simp
      moreover have "log_start (putch c k) = log_start k + 1" using True by (simp add: putch_fields)
      ultimately show ?thesis
        using \<open>\<And>i. i < 65535 \<Longrightarrow> (log_start k + 1 + of_nat i = log_end k) = (i = 65534)\<close>
        unfolding log_bytes_def by (simp only: putch_fields(1)) (rule map_cong [OF refl], simp)
    qed
    also have "\<dots> = map (\<lambda>i. log_buff k (log_start k + 1 + of_nat i)) [0..<65534] @ [c]"
      using upt_Suc_append [of 0 65534] by (simp del: upt.simps)
    also have "map (\<lambda>i. log_buff k (log_start k + 1 + of_nat i)) [0..<65534]
        = map (\<lambda>i. log_buff k (log_start k + of_nat i)) [1..<65535]"
      by (rule nth_equalityI) (simp_all add: algebra_simps)
    also have "\<dots> = drop 1 (log_bytes k)" by (simp only: log_bytes_def full drop_map drop_upt) simp
    finally have "log_bytes (putch c k) = drop 1 (log_bytes k) @ [c]" .
    moreover have "length (log_bytes k) = 65535" by (simp add: log_bytes_def full)
    ultimately show ?thesis by (simp add: lastn_def)
  next
    case False
    have lt: "Suc ?n < 65536"
    proof (rule ccontr)
      assume "\<not> Suc ?n < 65536"
      then have "?n = 65535" using n by simp
      then have "log_end k = log_start k + of_nat 65535" by (subst e) (simp only:)
      then show False using False by simp
    qed
    have "log_end k + 1 - log_start k = of_nat (Suc ?n)" by simp
    then have n1: "unat (log_end k + 1 - log_start k) = Suc ?n" using unat_of_nat16 [OF lt] by (simp only:)
    have "log_bytes (putch c k) = map (\<lambda>i. if i = ?n then c else log_buff k (log_start k + of_nat i)) [0..<Suc ?n]"
    proof -
      have "log_start k + of_nat i = log_end k \<longleftrightarrow> i = ?n" if "i < Suc ?n" for i
      proof -
        have "(of_nat i :: u16) = of_nat ?n \<longleftrightarrow> i = ?n"
          by (rule of_nat16_inj) (use that n in linarith)+
        then show ?thesis by (subst e) (simp only: add_left_cancel)
      qed
      then show ?thesis using False n1 by (auto simp: log_bytes_def putch_fields simp del: upt_Suc)
    qed
    then have "log_bytes (putch c k) = log_bytes k @ [c]" by (simp add: log_bytes_def)
    moreover have "length (log_bytes k @ [c]) \<le> 65535" using lt by (simp add: log_bytes_def)
    ultimately show ?thesis by (simp add: lastn_id)
  qed
qed

lemma log_bytes_fold: "log_bytes (fold putch s k) = lastn 65535 (log_bytes k @ s)"
proof (induction s arbitrary: k)
  case Nil
  then show ?case using length_log_bytes by (simp add: lastn_id)
next
  case (Cons c s)
  show ?case by (simp add: Cons.IH log_bytes_putch lastn_append_lastn)
qed

lemma serial_fold:
  "serial (fold putch s k) = serial k @ concat (map (\<lambda>c. if c = 10 then [13, 10] else [c]) s)"
  by (induction s arbitrary: k) (simp_all add: putch_fields serial_send_def)

lemma putsn_eq: "putsn s k = fold putch s k"
  by (induction s arbitrary: k) simp_all

lemma puts_eq: "0 \<notin> set s \<Longrightarrow> puts s k = fold putch s k"
  by (induction s arbitrary: k) auto

lemma puts_takeWhile: "puts s k = fold putch (takeWhile (\<lambda>c. c \<noteq> 0) s) k"
  by (induction s arbitrary: k) auto

lemma putch_tmpbuf: "putch c (k\<lparr>tmpbuf := b\<rparr>) = (putch c k)\<lparr>tmpbuf := b\<rparr>"
  by (simp add: putch_def Let_def)

lemma fold_putch_tmpbuf: "fold putch s (k\<lparr>tmpbuf := b\<rparr>) = (fold putch s k)\<lparr>tmpbuf := b\<rparr>"
  by (induction s arbitrary: k) (simp_all add: putch_tmpbuf)

lemma tmpbuf_fold [simp]: "tmpbuf (fold putch s k) = tmpbuf k"
  by (induction s arbitrary: k) (simp_all add: putch_fields)

end
