(* ===== verification/Fb.thy ===== *)
theory Fb
  imports Vmm Klog
begin

text \<open>
  \<open>kernel/dev/fb/fb.c\<close>: the linear framebuffer of 32-bit pixels, drawn in a back buffer of the kernel
  heap and copied to the device. The specification is the picture: the colour of every pixel, with
  everything outside the back buffer left alone.
\<close>

section \<open>State and operations\<close>

text \<open>The framebuffer tag of the boot protocol, as far as the kernel reads it.\<close>

record fb_tag =
  fb_addr :: u64
  fb_width :: u16
  fb_height :: u16
  fb_pitch :: u16

record fb_info =
  addr :: u64
  width :: u32
  height :: u32
  pitch :: u32

record fb_state = fb_info +
  backbuffer :: u64

text \<open>\<open>((uint32_t*)(backbuffer + (fb.pitch * y)))[x]\<close>: the product is a 32-bit one.\<close>

definition pixel_addr :: "fb_state \<Rightarrow> u32 \<Rightarrow> u32 \<Rightarrow> u64" where
  "pixel_addr f x y = backbuffer f + ucast (pitch f * y) + 4 * ucast x"

definition fb_putpixel :: "fb_state \<Rightarrow> u32 \<Rightarrow> u32 \<Rightarrow> u32 \<Rightarrow> mem \<Rightarrow> mem" where
  "fb_putpixel f x y color m = store_le 4 (pixel_addr f x y) (ucast color) m"

definition fb_getpixel :: "fb_state \<Rightarrow> u32 \<Rightarrow> u32 \<Rightarrow> mem \<Rightarrow> u32" where
  "fb_getpixel f x y m = ucast (load_le 4 m (pixel_addr f x y))"

definition fb_swap_buffers :: "fb_state \<Rightarrow> mem \<Rightarrow> mem" where
  "fb_swap_buffers f m = memcpy (backbuffer f) (addr f) (ucast (pitch f * height f)) m"

text \<open>\<open>NUM_PAGES\<close> on a 32-bit number is computed in 32 bits.\<close>

definition fb_pages :: "fb_state \<Rightarrow> u64" where
  "fb_pages f = ucast ((pitch f * height f + 4096 - 1) div 4096)"

definition fb_init :: "fb_tag \<Rightarrow> fb_state \<times> machine \<times> klog \<Rightarrow> (fb_state \<times> machine \<times> klog) result" where
  "fb_init t = (\<lambda>(f, m, k).
     let f = f\<lparr>addr := PHYS_TO_VIRT (fb_addr t), width := ucast (fb_width t),
               height := ucast (fb_height t), pitch := ucast (fb_pitch t)\<rparr>
     in and_then (klog_from LOG_INFO ''fb_init'' (bytes ''framebuffer resolution is %dx%d'' @ [10])
                    [Word_Arg (ucast (width f)), Word_Arg (ucast (height f))] k) (\<lambda>k.
        and_then (vmm_map None (addr f) (VIRT_TO_PHYS (addr f)) (fb_pages f)
                    (VMM_FLAGS_DEFAULT OR VMM_FLAG_WRITECOMBINE) m) (\<lambda>m.
        and_then (kmalloc (ucast (pitch f * height f)) (kern m)) (\<lambda>(a, s).
        and_then (klog_from LOG_SUCCESS ''fb_init'' (bytes ''done'' @ [10]) [] k) (\<lambda>k.
        Inr (f\<lparr>backbuffer := a\<rparr>, m\<lparr>kern := s\<rparr>, k))))))"

section \<open>The picture\<close>

definition columns :: "('a fb_info_scheme) \<Rightarrow> nat" where "columns f = unat (width f)"
definition lines :: "('a fb_info_scheme) \<Rightarrow> nat" where "lines f = unat (height f)"

definition screen :: "fb_state \<Rightarrow> mem \<Rightarrow> nat \<Rightarrow> nat \<Rightarrow> u32" where
  "screen f m x y = fb_getpixel f (of_nat x) (of_nat y) m"

definition fb_ok :: "('a fb_info_scheme) \<Rightarrow> bool" where
  "fb_ok f \<longleftrightarrow> 4 * unat (width f) \<le> unat (pitch f) \<and> unat (pitch f) * unat (height f) < 2 ^ 32"

definition in_backbuffer :: "fb_state \<Rightarrow> u64 \<Rightarrow> bool" where
  "in_backbuffer f = in_range (backbuffer f) (unat (pitch f * height f))"

text \<open>What a drawing operation does: it leaves the picture \<open>p\<close> and touches nothing but the back buffer.\<close>

definition painted :: "fb_state \<Rightarrow> mem \<Rightarrow> mem \<Rightarrow> (nat \<Rightarrow> nat \<Rightarrow> u32) \<Rightarrow> bool" where
  "painted f m m' p \<longleftrightarrow>
     (\<forall>x<columns f. \<forall>y<lines f. screen f m' x y = p x y) \<and> (\<forall>a. \<not> in_backbuffer f a \<longrightarrow> m' a = m a)"

lemma unat_of_nat32: "n < 2 ^ 32 \<Longrightarrow> unat (of_nat n :: u32) = n"
  by (simp add: unat_of_nat take_bit_eq_mod)

lemma unat_ucast_up32: "unat (ucast (w :: u32) :: u64) = unat w"
  using unsigned_less [of w, where ?'a = nat] by (simp add: unsigned_ucast_eq take_bit_nat_eq_self)

text \<open>The byte a pixel starts at, counted from the start of the back buffer.\<close>

definition pixel_offset :: "fb_state \<Rightarrow> nat \<Rightarrow> nat \<Rightarrow> nat" where
  "pixel_offset f x y = unat (pitch f) * y + 4 * x"

lemma fb_pitch_rows:
  assumes "fb_ok f" and "y < lines f"
  shows "unat (pitch f) * y + unat (pitch f) \<le> unat (pitch f) * unat (height f)"
proof -
  have "unat (pitch f) * Suc y \<le> unat (pitch f) * unat (height f)"
    using assms(2) by (intro mult_le_mono2) (simp add: lines_def)
  then show ?thesis by simp
qed

lemma pixel_in_buffer:
  assumes "fb_ok f" and "x < columns f" and "y < lines f"
  shows "pixel_offset f x y + 4 \<le> unat (pitch f) * unat (height f)"
  using fb_pitch_rows [OF assms(1,3)] assms by (simp add: pixel_offset_def fb_ok_def columns_def)

lemma buffer_size: "fb_ok f \<Longrightarrow> unat (pitch f * height f) = unat (pitch f) * unat (height f)"
  by (rule unat_mult_lt) (simp add: fb_ok_def)

lemma pixel_addr_offset:
  assumes "fb_ok f" and "x < columns f" and "y < lines f"
  shows "pixel_addr f (of_nat x) (of_nat y) = backbuffer f + of_nat (pixel_offset f x y)"
proof -
  have x: "x < 2 ^ 32" and y: "y < 2 ^ 32"
    using assms(2,3) unsigned_less [of "width f", where ?'a = nat] unsigned_less [of "height f", where ?'a = nat]
    by (simp_all add: columns_def lines_def)
  have "unat (pitch f) * y < 2 ^ 32"
    using fb_pitch_rows [OF assms(1,3)] assms(1) by (simp add: fb_ok_def)
  then have "unat (pitch f * of_nat y :: u32) = unat (pitch f) * y"
    using unat_mult_lt [of "pitch f" "of_nat y"] unat_of_nat32 [OF y] by simp
  then have 1: "(ucast (pitch f * of_nat y :: u32) :: u64) = of_nat (unat (pitch f) * y)"
    by (metis of_nat_unat)
  have 2: "(ucast (of_nat x :: u32) :: u64) = of_nat x"
    using unat_of_nat32 [OF x] by (metis of_nat_unat)
  show ?thesis by (simp add: pixel_addr_def pixel_offset_def 1 2 algebra_simps)
qed

text \<open>Different pixels do not overlap.\<close>

lemma pixels_apart:
  assumes "fb_ok f" and "x < columns f" and "x' < columns f" and "(x, y) \<noteq> (x', y')"
  shows "pixel_offset f x y + 4 \<le> pixel_offset f x' y' \<or> pixel_offset f x' y' + 4 \<le> pixel_offset f x y"
proof -
  have "4 * x + 4 \<le> unat (pitch f)" and "4 * x' + 4 \<le> unat (pitch f)"
    using assms(1-3) by (simp_all add: fb_ok_def columns_def)
  moreover have "unat (pitch f) * y + unat (pitch f) \<le> unat (pitch f) * y'" if "y < y'"
    using mult_le_mono2 [of "Suc y" y' "unat (pitch f)"] that by simp
  moreover have "unat (pitch f) * y' + unat (pitch f) \<le> unat (pitch f) * y" if "y' < y"
    using mult_le_mono2 [of "Suc y'" y "unat (pitch f)"] that by simp
  ultimately show ?thesis
    using assms(4) by (cases y y' rule: linorder_cases) (auto simp: pixel_offset_def)
qed

lemma load_le_store_apart:
  assumes "\<And>j k. j < n \<Longrightarrow> k < n' \<Longrightarrow> b + of_nat k \<noteq> a + of_nat j"
  shows "load_le n' (store_le n a v m) b = load_le n' m b"
  by (rule load_le_cong, rule store_le_frame) (use assms in \<open>auto simp: in_range_def\<close>)

lemma ucast_pixel: "(ucast (take_bit 32 (ucast (c :: u32) :: u64)) :: u32) = c"
  by (rule bit_word_eqI) (simp add: bit_simps)

lemma putpixel_painted:
  assumes "fb_ok f" and "x < columns f" and "y < lines f"
  shows "painted f m (fb_putpixel f (of_nat x) (of_nat y) c m)
    (\<lambda>x' y'. if x' = x \<and> y' = y then c else screen f m x' y')"
  unfolding painted_def
proof (intro conjI allI impI)
  fix x' y' assume x': "x' < columns f" and y': "y' < lines f"
  have lt: "unat (pitch f) * unat (height f) < 2 ^ 64" using assms(1) by (simp add: fb_ok_def)
  show "screen f (fb_putpixel f (of_nat x) (of_nat y) c m) x' y' =
      (if x' = x \<and> y' = y then c else screen f m x' y')"
  proof (cases "x' = x \<and> y' = y")
    case True
    have "load_le 4 (store_le 4 a v m) a = take_bit 32 v" for a v using load_store_le [of 4 a v m] by simp
    then show ?thesis
      using True by (simp add: screen_def fb_getpixel_def fb_putpixel_def ucast_pixel)
  next
    case False
    let ?a = "pixel_offset f x y" and ?b = "pixel_offset f x' y'"
    have ap: "?a + 4 \<le> ?b \<or> ?b + 4 \<le> ?a" using pixels_apart [OF assms(1,2) x'] False by blast
    have "load_le 4 (store_le 4 (backbuffer f + of_nat ?a) v m) (backbuffer f + of_nat ?b)
        = load_le 4 m (backbuffer f + of_nat ?b)" for v
    proof (rule load_le_store_apart)
      fix j k :: nat assume jk: "j < 4" "k < 4"
      show "backbuffer f + of_nat ?b + of_nat k \<noteq> backbuffer f + of_nat ?a + of_nat j"
      proof
        assume "backbuffer f + of_nat ?b + of_nat k = backbuffer f + of_nat ?a + of_nat j"
        then have "backbuffer f + of_nat (?b + k) = backbuffer f + of_nat (?a + j)" by (simp add: add.assoc)
        then have "?b + k = ?a + j"
          by (rule offset_inj)
            (use jk lt pixel_in_buffer [OF assms] pixel_in_buffer [OF assms(1) x' y'] in linarith)+
        then show False using ap jk by linarith
      qed
    qed
    then show ?thesis
      using False by (auto simp: screen_def fb_getpixel_def fb_putpixel_def
          pixel_addr_offset [OF assms] pixel_addr_offset [OF assms(1) x' y'])
  qed
next
  fix a assume out: "\<not> in_backbuffer f a"
  have "\<not> in_range (backbuffer f + of_nat (pixel_offset f x y)) 4 a"
  proof
    assume "in_range (backbuffer f + of_nat (pixel_offset f x y)) 4 a"
    then obtain k where k: "k < 4" "a = backbuffer f + of_nat (pixel_offset f x y) + of_nat k"
      by (auto simp: in_range_def)
    then have "a = backbuffer f + of_nat (pixel_offset f x y + k)" by (simp add: add.assoc)
    moreover have "pixel_offset f x y + k < unat (pitch f * height f)"
      using pixel_in_buffer [OF assms] k(1) by (simp add: buffer_size [OF assms(1)])
    ultimately show False using out unfolding in_backbuffer_def in_range_def by blast
  qed
  then show "fb_putpixel f (of_nat x) (of_nat y) c m a = m a"
    by (simp add: fb_putpixel_def pixel_addr_offset [OF assms] store_le_frame)
qed

lemma painted_refl: "painted f m m (screen f m)"
  by (simp add: painted_def)

lemma painted_trans: "painted f m m1 p \<Longrightarrow> painted f m1 m2 q \<Longrightarrow> painted f m m2 q"
  by (simp add: painted_def)

lemma painted_cong:
  "(\<And>x y. x < columns f \<Longrightarrow> y < lines f \<Longrightarrow> p x y = q x y) \<Longrightarrow> painted f m m' p \<Longrightarrow> painted f m m' q"
  by (simp add: painted_def)

lemma painted_screen: "painted f m m' p \<Longrightarrow> x < columns f \<Longrightarrow> y < lines f \<Longrightarrow> screen f m' x y = p x y"
  by (simp add: painted_def)

text \<open>
  Filling a row from left to right, and a rectangle from top to bottom. The colour may depend on the
  picture, as long as it only looks at rows below the one being drawn.
\<close>

lemma paint_row:
  assumes "fb_ok f" and "y < lines f" and "x0 + n \<le> columns f"
    and "\<And>i m'. i < n \<Longrightarrow> (\<And>x y'. x < columns f \<Longrightarrow> y' < lines f \<Longrightarrow> y' \<noteq> y \<Longrightarrow>
            screen f m' x y' = screen f m x y') \<Longrightarrow> g i m' = c i"
  shows "painted f m (fold (\<lambda>i m. fb_putpixel f (of_nat (x0 + i)) (of_nat y) (g i m) m) [0..<n] m)
    (\<lambda>x y'. if y' = y \<and> x0 \<le> x \<and> x < x0 + n then c (x - x0) else screen f m x y')"
  using assms(3,4)
proof (induction n)
  case 0
  show ?case by (auto simp: painted_def)
next
  case (Suc n)
  let ?m = "fold (\<lambda>i m. fb_putpixel f (of_nat (x0 + i)) (of_nat y) (g i m) m) [0..<n] m"
  let ?p = "\<lambda>x y'. if y' = y \<and> x0 \<le> x \<and> x < x0 + n then c (x - x0) else screen f m x y'"
  have ih: "painted f m ?m ?p" by (rule Suc.IH) (use Suc.prems in simp_all)
  have g: "g n ?m = c n"
    by (rule Suc.prems(2)) (simp_all add: painted_screen [OF ih] del: of_nat_add)
  have "painted f ?m (fb_putpixel f (of_nat (x0 + n)) (of_nat y) (c n) ?m)
      (\<lambda>x' y'. if x' = x0 + n \<and> y' = y then c n else screen f ?m x' y')"
    using Suc.prems(1) assms by (intro putpixel_painted) simp_all
  from painted_trans [OF ih this]
  have "painted f m (fb_putpixel f (of_nat (x0 + n)) (of_nat y) (g n ?m) ?m)
      (\<lambda>x' y'. if y' = y \<and> x0 \<le> x' \<and> x' < x0 + Suc n then c (x' - x0) else screen f m x' y')"
    unfolding g by (rule painted_cong [rotated]) (auto simp: painted_screen [OF ih] simp del: of_nat_add)
  then show ?case by simp
qed

lemma paint_block:
  assumes "fb_ok f" and "x0 + n \<le> columns f" and "y0 + h \<le> lines f"
    and "\<And>i j m'. i < h \<Longrightarrow> j < n \<Longrightarrow> (\<And>x y. x < columns f \<Longrightarrow> y < lines f \<Longrightarrow> y0 + i < y \<Longrightarrow>
            screen f m' x y = screen f m x y) \<Longrightarrow> g i j m' = c i j"
  shows "painted f m
    (fold (\<lambda>i. fold (\<lambda>j m. fb_putpixel f (of_nat (x0 + j)) (of_nat (y0 + i)) (g i j m) m) [0..<n]) [0..<h] m)
    (\<lambda>x y. if y0 \<le> y \<and> y < y0 + h \<and> x0 \<le> x \<and> x < x0 + n then c (y - y0) (x - x0) else screen f m x y)"
  using assms(3,4)
proof (induction h)
  case 0
  show ?case by (auto simp: painted_def)
next
  case (Suc h)
  let ?m = "fold (\<lambda>i. fold (\<lambda>j m. fb_putpixel f (of_nat (x0 + j)) (of_nat (y0 + i)) (g i j m) m) [0..<n]) [0..<h] m"
  let ?p = "\<lambda>x y. if y0 \<le> y \<and> y < y0 + h \<and> x0 \<le> x \<and> x < x0 + n then c (y - y0) (x - x0) else screen f m x y"
  have ih: "painted f m ?m ?p" by (rule Suc.IH) (use Suc.prems in simp_all)
  have g: "g h j m' = c h j"
    if j: "j < n" and same: "\<And>x y'. x < columns f \<Longrightarrow> y' < lines f \<Longrightarrow> y' \<noteq> y0 + h \<Longrightarrow> screen f m' x y' = screen f ?m x y'"
    for j m'
    by (rule Suc.prems(2)) (use j in \<open>simp_all add: same painted_screen [OF ih] del: of_nat_add\<close>)
  have "painted f ?m (fold (\<lambda>j m. fb_putpixel f (of_nat (x0 + j)) (of_nat (y0 + h)) (g h j m) m) [0..<n] ?m)
      (\<lambda>x y'. if y' = y0 + h \<and> x0 \<le> x \<and> x < x0 + n then c h (x - x0) else screen f ?m x y')"
    by (rule paint_row) (use assms(1,2) Suc.prems(1) g in \<open>simp_all\<close>)
  from painted_trans [OF ih this]
  have "painted f m (fold (\<lambda>j m. fb_putpixel f (of_nat (x0 + j)) (of_nat (y0 + h)) (g h j m) m) [0..<n] ?m)
      (\<lambda>x y. if y0 \<le> y \<and> y < y0 + Suc h \<and> x0 \<le> x \<and> x < x0 + n then c (y - y0) (x - x0) else screen f m x y)"
    by (rule painted_cong [rotated]) (auto simp: painted_screen [OF ih] simp del: of_nat_add)
  then show ?case by simp
qed

lemma upt_shift: "[a..<a + n] = map (\<lambda>i. a + i) [0..<n]"
  by (rule nth_equalityI) simp_all

section \<open>Swapping\<close>

text \<open>The picture the device shows, and that it is the back buffer's after a swap.\<close>

definition device :: "fb_state \<Rightarrow> mem \<Rightarrow> nat \<Rightarrow> nat \<Rightarrow> u32" where
  "device f m x y = screen (f\<lparr>backbuffer := addr f\<rparr>) m x y"

lemma swap_shows:
  assumes "fb_ok f" and "copy_safe (backbuffer f) (addr f) (unat (pitch f * height f))"
    and "x < columns f" and "y < lines f"
  shows "device f (fb_swap_buffers f m) x y = screen f m x y"
proof -
  let ?d = "f\<lparr>backbuffer := addr f\<rparr>" and ?n = "unat (pitch f * height f)"
  have ok: "fb_ok ?d" and d: "x < columns ?d" "y < lines ?d"
    using assms by (simp_all add: fb_ok_def columns_def lines_def)
  have o: "pixel_offset ?d x y = pixel_offset f x y" by (simp add: pixel_offset_def)
  have n: "unat (ucast (pitch f * height f) :: u64) = ?n" by (metis unat_ucast_up32)
  have "load_le 4 (fb_swap_buffers f m) (addr f + of_nat (pixel_offset f x y))
      = load_le 4 m (backbuffer f + of_nat (pixel_offset f x y))"
  proof (rule load_le_cong)
    fix k :: nat assume "k < 4"
    then have k: "pixel_offset f x y + k < ?n"
      using pixel_in_buffer [OF assms(1,3,4)] by (simp add: buffer_size [OF assms(1)])
    then have "memcpy (backbuffer f) (addr f) (ucast (pitch f * height f)) m (addr f + of_nat (pixel_offset f x y + k))
        = m (backbuffer f + of_nat (pixel_offset f x y + k))"
      using assms(2) memcpy_copies n by metis
    then show "fb_swap_buffers f m (addr f + of_nat (pixel_offset f x y) + of_nat k)
        = m (backbuffer f + of_nat (pixel_offset f x y) + of_nat k)"
      by (simp add: fb_swap_buffers_def add.assoc)
  qed
  then show ?thesis
    by (simp add: device_def screen_def fb_getpixel_def pixel_addr_offset [OF ok d] o
        pixel_addr_offset [OF assms(1,3,4)])
qed

end
