(* ===== verification/Terminal.thy ===== *)
theory Terminal
  imports Fb
begin

text \<open>
  \<open>kernel/dev/term/term.c\<close>: the text terminal. It interprets bytes as characters, control characters
  and ANSI escape sequences, and draws the glyphs of a PSF font into the framebuffer. The
  specification, in the theory on the text screen, is a grid of coloured characters.
\<close>

section \<open>State\<close>

record psfont =
  psf_magic :: u32
  psf_version :: u32
  psf_headersize :: u32
  psf_flags :: u32
  psf_numglyph :: u32
  glyph_size :: u32
  font_height :: u32
  font_width :: u32
  font_data :: "u8 list"

datatype cmd_state = READY | CMD_WAIT | PARAM_WAIT

text \<open>The variables of the file, with the memory the framebuffer lives in.\<close>

record terminal =
  font :: psfont
  fbuf :: fb_state
  vram :: mem
  fgcolor :: u32
  bgcolor :: u32
  cursor_x :: u32
  cursor_y :: u32
  term_width :: u32
  term_height :: u32
  cmd_state :: cmd_state
  cparams :: "int list"
  cparamcount :: nat

definition ansicolors :: "u32 list" where
  "ansicolors =
     [0x000000, 0xaa0000, 0x00aa00, 0xaaaa00, 0x0000aa, 0xaa00aa, 0x00aaaa, 0xaaaaaa,
      0x555555, 0xff5555, 0x55ff55, 0xffff55, 0x5555ff, 0xff55ff, 0x55ffff, 0xffffff]"

definition DEFAULT_FGCOLOR :: u32 where "DEFAULT_FGCOLOR = 0xaaaaaa"
definition DEFAULT_BGCOLOR :: u32 where "DEFAULT_BGCOLOR = 0x000000"

definition term_setfgcolor :: "u32 \<Rightarrow> terminal \<Rightarrow> terminal" where "term_setfgcolor color t = t\<lparr>fgcolor := color\<rparr>"
definition term_setbgcolor :: "u32 \<Rightarrow> terminal \<Rightarrow> terminal" where "term_setbgcolor color t = t\<lparr>bgcolor := color\<rparr>"
definition term_getwidth :: "terminal \<Rightarrow> u32" where "term_getwidth t = term_width t"
definition term_getheight :: "terminal \<Rightarrow> u32" where "term_getheight t = term_height t"

section \<open>Drawing\<close>

definition term_flush :: "terminal \<Rightarrow> terminal" where
  "term_flush t = t\<lparr>vram := fb_swap_buffers (fbuf t) (vram t)\<rparr>"

definition term_clear :: "terminal \<Rightarrow> terminal" where
  "term_clear t =
     (let f = fbuf t;
          m = fold (\<lambda>y. fold (\<lambda>x m. fb_putpixel f (of_nat x) (of_nat y) (bgcolor t) m)
                [0..<unat (width f)]) [0..<unat (height f)] (vram t)
      in t\<lparr>vram := m, cursor_x := 0, cursor_y := 0\<rparr>)"

definition scroll :: "terminal \<Rightarrow> terminal" where
  "scroll t =
     (let f = fbuf t; fh = font_height (font t); top = unat (height f - fh);
          m = fold (\<lambda>y. fold (\<lambda>x m. fb_putpixel f (of_nat x) (of_nat y)
                  (fb_getpixel f (of_nat x) (of_nat (y + unat fh)) m) m)
                [0..<unat (width f)]) [0..<top] (vram t);
          m = fold (\<lambda>y. fold (\<lambda>x m. fb_putpixel f (of_nat x) (of_nat y) (bgcolor t) m)
                [0..<unat (width f)]) [top..<unat (height f)] m
      in t\<lparr>vram := m\<rparr>)"

definition masks :: "u8 list" where
  "masks = [128, 64, 32, 16, 8, 4, 2, 1]"

text \<open>\<open>glyph[i]\<close>; the index of the glyph is a 32-bit product.\<close>

definition glyph_byte :: "psfont \<Rightarrow> u8 \<Rightarrow> nat \<Rightarrow> u8 result" where
  "glyph_byte fn c i =
     (let k = unat (ucast c * glyph_size fn) + i
      in if k < length (font_data fn) then Inr (font_data fn ! k) else Inl Out_Of_Bounds)"

definition glyph_pixel :: "psfont \<Rightarrow> u8 \<Rightarrow> nat \<Rightarrow> nat \<Rightarrow> u32 \<Rightarrow> u32 \<Rightarrow> u32 result" where
  "glyph_pixel fn c i j fg bg =
     and_then (glyph_byte fn c i) (\<lambda>b.
       if j < length masks then Inr (if b AND masks ! j \<noteq> 0 then fg else bg) else Inl Out_Of_Bounds)"

definition putchar_at :: "u8 \<Rightarrow> u32 \<Rightarrow> u32 \<Rightarrow> terminal \<Rightarrow> terminal result" where
  "putchar_at c px py t =
     (let fn = font t; x = unat px * unat (font_width fn); y = unat py * unat (font_height fn)
      in and_then
        (for_each (\<lambda>i. for_each (\<lambda>j m.
             and_then (glyph_pixel fn c i j (fgcolor t) (bgcolor t)) (\<lambda>color.
               Inr (fb_putpixel (fbuf t) (of_nat (x + j)) (of_nat (y + i)) color m)))
           [0..<unat (font_width fn)]) [0..<unat (font_height fn)] (vram t))
        (\<lambda>m. Inr (t\<lparr>vram := m\<rparr>)))"

section \<open>Escape sequences\<close>

text \<open>Arithmetic on \<open>int\<close>, which must not overflow.\<close>

definition c_int :: "int \<Rightarrow> int result" where
  "c_int i = (if - (2 ^ 31) \<le> i \<and> i < 2 ^ 31 then Inr i else Inl Undefined_Behaviour)"

definition reset_cmd :: "terminal \<Rightarrow> terminal" where
  "reset_cmd t = t\<lparr>cmd_state := READY, cparamcount := 0\<rparr>"

definition select_colors :: "terminal \<Rightarrow> terminal" where
  "select_colors t =
     (let p = cparams t ! 0; bright = (if cparamcount t = 2 \<and> cparams t ! 1 = 1 then 8 else 0)
      in if p = 0 then term_setbgcolor DEFAULT_BGCOLOR (term_setfgcolor DEFAULT_FGCOLOR t)
         else if 30 \<le> p \<and> p \<le> 37 then term_setfgcolor (ansicolors ! nat (p - 30 + bright)) t
         else if 40 \<le> p \<and> p \<le> 47 then term_setbgcolor (ansicolors ! nat (p - 40 + bright)) t
         else t)"

definition add_param :: "terminal \<Rightarrow> terminal result" where
  "add_param t =
     (if cparamcount t < length (cparams t)
      then Inr (t\<lparr>cparams := (cparams t)[cparamcount t := 0], cparamcount := cparamcount t + 1\<rparr>)
      else Inl Out_Of_Bounds)"

definition add_digit :: "u8 \<Rightarrow> terminal \<Rightarrow> terminal result" where
  "add_digit byte t =
     (let k = cparamcount t - 1
      in if cparamcount t = 0 \<or> length (cparams t) \<le> k then Inl Out_Of_Bounds
         else and_then (c_int (cparams t ! k * 10)) (\<lambda>v.
              and_then (c_int (v + (uint byte - 48))) (\<lambda>v.
              Inr (t\<lparr>cparams := (cparams t)[k := v]\<rparr>))))"

definition parse_cmd_byte :: "u8 \<Rightarrow> terminal \<Rightarrow> (bool \<times> terminal) result" where
  "parse_cmd_byte byte t =
     (case cmd_state t of
        READY \<Rightarrow>
          if byte = 0x1b then Inr (True, t\<lparr>cmd_state := CMD_WAIT\<rparr>) else Inr (False, reset_cmd t)
      | CMD_WAIT \<Rightarrow>
          if byte = 91 then
            Inr (True, t\<lparr>cparamcount := 1, cparams := (cparams t)[0 := 0], cmd_state := PARAM_WAIT\<rparr>)
          else if byte = 99 then Inr (True, reset_cmd (term_clear t))
          else Inr (False, reset_cmd t)
      | PARAM_WAIT \<Rightarrow>
          if byte = 59 then and_then (add_param t) (\<lambda>t. Inr (True, t))
          else if byte = 109 then Inr (True, reset_cmd (select_colors t))
          else if 48 \<le> byte \<and> byte \<le> 57 then and_then (add_digit byte t) (\<lambda>t. Inr (True, t))
          else Inr (False, reset_cmd t))"

section \<open>Characters\<close>

text \<open>The end of \<open>term_putchar\<close>: wrapping at the right edge and scrolling at the bottom.\<close>

definition wrap_cursor :: "terminal \<Rightarrow> terminal" where
  "wrap_cursor t =
     (let t = (if term_width t \<le> cursor_x t then t\<lparr>cursor_x := 0, cursor_y := cursor_y t + 1\<rparr> else t)
      in if term_height t \<le> cursor_y t then (scroll t)\<lparr>cursor_y := term_height t - 1\<rparr> else t)"

definition term_putchar :: "u8 \<Rightarrow> terminal \<Rightarrow> terminal result" where
  "term_putchar c t =
     and_then (parse_cmd_byte c t) (\<lambda>(handled, t).
       if handled then Inr t
       else if c = 0 then Inr t
       else if c = 10 then Inr (wrap_cursor (t\<lparr>cursor_x := 0, cursor_y := cursor_y t + 1\<rparr>))
       else if c = 9 then
         Inr (wrap_cursor (t\<lparr>cursor_x := cursor_x t
           + (if cursor_x t mod 4 = 0 then 0 else 4 - cursor_x t mod 4)\<rparr>))
       else and_then (putchar_at c (cursor_x t) (cursor_y t) t) (\<lambda>t.
         Inr (wrap_cursor (t\<lparr>cursor_x := cursor_x t + 1\<rparr>))))"

definition term_init :: "fb_state \<Rightarrow> terminal \<Rightarrow> terminal result" where
  "term_init f t =
     (if font_width (font t) = 0 \<or> font_height (font t) = 0 then Inl Undefined_Behaviour
      else Inr (term_flush (term_clear (t\<lparr>fbuf := f,
        term_width := width f div font_width (font t),
        term_height := height f div font_height (font t)\<rparr>))))"

section \<open>The log on the screen\<close>

text \<open>
  \<open>klog_show_helper\<close> of \<open>klog.c\<close>. It walks back from \<open>log_end\<close>, whose slot holds no byte of the log,
  until it reaches the oldest byte or has counted a screenful.
\<close>

partial_function (option) count_visible ::
  "klog \<Rightarrow> u32 \<Rightarrow> u32 \<Rightarrow> u16 \<Rightarrow> u32 \<Rightarrow> u32 \<Rightarrow> u32 result option" where
  "count_visible k w numchars i used visible =
     (if i \<noteq> log_start k \<and> used < numchars
      then if log_buff k i = 10
           then if w = 0 then Some (Inl Undefined_Behaviour)
                else count_visible k w numchars (i - 1)
                  (used + (if used mod w \<noteq> 0 then w - used mod w else 0)) (visible + 1)
           else count_visible k w numchars (i - 1)
                  (used + (if log_buff k i \<noteq> 0 then 1 else 0)) (visible + 1)
      else Some (Inr visible))"

partial_function (option) show_from :: "klog \<Rightarrow> u16 \<Rightarrow> terminal \<Rightarrow> terminal result option" where
  "show_from k i t =
     (if i = log_end k then Some (Inr t)
      else case term_putchar (log_buff k i) t of
             Inl e \<Rightarrow> Some (Inl e)
           | Inr t \<Rightarrow> show_from k (i + 1) t)"

definition klog_show_helper :: "klog \<Rightarrow> terminal \<Rightarrow> terminal result" where
  "klog_show_helper k t =
     (let w = term_getwidth t; numchars = w * term_getheight t
      in and_then (and_then (from_option Diverges (count_visible k w numchars (log_end k) 0 0)) id) (\<lambda>visible.
         and_then (from_option Diverges (show_from k (log_end k - ucast visible) t)) id))"

definition klog_show_now :: "klog \<Rightarrow> terminal \<Rightarrow> terminal result" where
  "klog_show_now k t = and_then (klog_show_helper k (term_clear t)) (\<lambda>t. Inr (term_flush t))"

text \<open>
  One turn of the display task's loop: the frame it draws and how long it sleeps, if it does, from the
  readings of the clock at its two ends.
\<close>

definition klogdisplayd_turn :: "u64 \<Rightarrow> u64 \<Rightarrow> klog \<Rightarrow> terminal \<Rightarrow> (u64 option \<times> terminal) result" where
  "klogdisplayd_turn started ended k t =
     and_then (klog_show_helper k (term_clear t)) (\<lambda>t.
       let t = term_flush t; delta = ended - started
       in Inr (if 16 * 1000000 \<le> delta then None else Some (16 * 1000000 - delta), t))"

end
