(* ===== verification/TermDraw.thy ===== *)
theory TermDraw
  imports Terminal
begin

text \<open>
  What the drawing operations of the terminal do to the picture, and the invariant of the terminal:
  the cursor stays on the screen, the parser inside its array, and all writes inside the back buffer.
\<close>

section \<open>A terminal that fits its framebuffer\<close>

definition font_ok :: "psfont \<Rightarrow> bool" where
  "font_ok fn \<longleftrightarrow> font_height fn \<noteq> 0 \<and> font_width fn \<noteq> 0 \<and> font_width fn \<le> 8
     \<and> 255 * unat (glyph_size fn) < 2 ^ 32
     \<and> 255 * unat (glyph_size fn) + unat (font_height fn) \<le> length (font_data fn)"

abbreviation fw :: "terminal \<Rightarrow> nat" where "fw t \<equiv> unat (font_width (font t))"
abbreviation fh :: "terminal \<Rightarrow> nat" where "fh t \<equiv> unat (font_height (font t))"
abbreviation tw :: "terminal \<Rightarrow> nat" where "tw t \<equiv> unat (term_width t)"
abbreviation th :: "terminal \<Rightarrow> nat" where "th t \<equiv> unat (term_height t)"

definition term_fits :: "terminal \<Rightarrow> bool" where
  "term_fits t \<longleftrightarrow> fb_ok (fbuf t) \<and> font_ok (font t)
     \<and> term_width t = width (fbuf t) div font_width (font t)
     \<and> term_height t = height (fbuf t) div font_height (font t)
     \<and> term_width t \<noteq> 0 \<and> term_height t \<noteq> 0"

lemma fits_fb_ok: "term_fits t \<Longrightarrow> fb_ok (fbuf t)"
  by (simp add: term_fits_def)

lemma fits_pos:
  assumes "term_fits t"
  shows "0 < fw t" and "0 < fh t" and "0 < tw t" and "0 < th t" and "fw t \<le> 8"
  using assms by (auto simp: term_fits_def font_ok_def word_le_nat_alt unat_gt_0)

lemma fits_columns:
  assumes "term_fits t"
  shows "tw t * fw t \<le> columns (fbuf t)" and "th t * fh t \<le> lines (fbuf t)"
  using assms by (simp_all add: term_fits_def columns_def lines_def unat_div div_times_less_eq_dividend)

lemma fits_small:
  assumes "term_fits t"
  shows "tw t < 2 ^ 30" and "th t < 2 ^ 30" and "columns (fbuf t) < 2 ^ 30" and "lines (fbuf t) < 2 ^ 30"
proof -
  let ?f = "fbuf t"
  have ok: "4 * columns ?f \<le> unat (pitch ?f)" "unat (pitch ?f) * lines ?f < 2 ^ 32"
    using fits_fb_ok [OF assms] by (simp_all add: fb_ok_def columns_def lines_def)
  have c: "tw t \<le> columns ?f" and l: "th t \<le> lines ?f"
    using assms by (auto simp: term_fits_def columns_def lines_def unat_div div_le_dividend)
  have "unat (pitch ?f) < 2 ^ 32" using unsigned_less [of "pitch ?f", where ?'a = nat] by simp
  then show 1: "columns ?f < 2 ^ 30" using ok(1) by simp
  have "4 * lines ?f \<le> unat (pitch ?f) * lines ?f"
    using ok(1) c fits_pos(3) [OF assms] by (intro mult_le_mono1) linarith
  from le_less_trans [OF this ok(2)] show 2: "lines ?f < 2 ^ 30" by simp
  show "tw t < 2 ^ 30" using 1 c by simp
  show "th t < 2 ^ 30" using 2 l by simp
qed

text \<open>The pixel of a cell lies on the screen.\<close>

lemma cell_inside:
  assumes "(c :: nat) < w" and "j < f"
  shows "c * f + j < w * f"
proof -
  have "c * f + f \<le> w * f" using mult_le_mono1 [of "Suc c" w f] assms(1) by simp
  then show ?thesis using assms(2) by simp
qed

lemma cell_on_screen:
  assumes "term_fits t" and "c < tw t" and "j < fw t"
  shows "c * fw t + j < columns (fbuf t)"
  using cell_inside [OF assms(2,3)] fits_columns(1) [OF assms(1)] by simp

lemma line_on_screen:
  assumes "term_fits t" and "r < th t" and "i < fh t"
  shows "r * fh t + i < lines (fbuf t)"
  using cell_inside [OF assms(2,3)] fits_columns(2) [OF assms(1)] by simp

section \<open>Drawing\<close>

lemma term_clear_painted:
  assumes "fb_ok (fbuf t)"
  shows "painted (fbuf t) (vram t) (vram (term_clear t)) (\<lambda>x y. bgcolor t)"
proof -
  let ?f = "fbuf t"
  have "painted ?f (vram t) (fold (\<lambda>i. fold (\<lambda>j m. fb_putpixel ?f (of_nat (0 + j)) (of_nat (0 + i)) (bgcolor t) m)
        [0..<columns ?f]) [0..<lines ?f] (vram t))
      (\<lambda>x y. if 0 \<le> y \<and> y < 0 + lines ?f \<and> 0 \<le> x \<and> x < 0 + columns ?f then bgcolor t else screen ?f (vram t) x y)"
    by (rule paint_block) (use assms in simp_all)
  then show ?thesis by (auto simp: term_clear_def Let_def painted_def columns_def lines_def)
qed

lemma scroll_painted:
  assumes "fb_ok (fbuf t)" and "0 < fh t" and "fh t \<le> lines (fbuf t)"
  shows "painted (fbuf t) (vram t) (vram (scroll t))
    (\<lambda>x y. if y + fh t < lines (fbuf t) then screen (fbuf t) (vram t) x (y + fh t) else bgcolor t)"
proof -
  let ?f = "fbuf t" and ?m = "vram t"
  let ?top = "lines ?f - fh t"
  have top: "unat (height ?f - font_height (font t)) = ?top"
    using assms(3) by (simp add: lines_def unat_sub word_le_nat_alt)
  define m1 where "m1 = fold (\<lambda>i. fold (\<lambda>j m. fb_putpixel ?f (of_nat (0 + j)) (of_nat (0 + i))
      (fb_getpixel ?f (of_nat j) (of_nat (i + fh t)) m) m) [0..<columns ?f]) [0..<?top] ?m"
  have "painted ?f ?m m1
      (\<lambda>x y. if 0 \<le> y \<and> y < 0 + ?top \<and> 0 \<le> x \<and> x < 0 + columns ?f
             then screen ?f ?m (x - 0) (y - 0 + fh t) else screen ?f ?m x y)"
    unfolding m1_def
    by (rule paint_block) (use assms in \<open>simp_all add: screen_def del: of_nat_add\<close>)
  then have 1: "painted ?f ?m m1 (\<lambda>x y. if y < ?top then screen ?f ?m x (y + fh t) else screen ?f ?m x y)"
    by (auto simp: painted_def)
  define m2 where "m2 = fold (\<lambda>i. fold (\<lambda>j m. fb_putpixel ?f (of_nat (0 + j)) (of_nat (?top + i))
      (bgcolor t) m) [0..<columns ?f]) [0..<fh t] m1"
  have "painted ?f m1 m2
      (\<lambda>x y. if ?top \<le> y \<and> y < ?top + fh t \<and> 0 \<le> x \<and> x < 0 + columns ?f then bgcolor t else screen ?f m1 x y)"
    unfolding m2_def by (rule paint_block) (use assms in simp_all)
  from painted_trans [OF 1 this]
  have 2: "painted ?f ?m m2 (\<lambda>x y. if y + fh t < lines ?f then screen ?f ?m x (y + fh t) else bgcolor t)"
    by (rule painted_cong [rotated]) (use assms(3) in \<open>auto simp: painted_screen [OF 1]\<close>)
  have "[?top..<lines ?f] = map (\<lambda>i. ?top + i) [0..<fh t]"
    using upt_shift [of ?top "fh t"] assms(3) by simp
  then have "vram (scroll t) = m2"
    by (simp add: scroll_def Let_def m2_def m1_def top fold_map comp_def lines_def [symmetric]
        columns_def [symmetric] del: of_nat_add)
  then show ?thesis using 2 by simp
qed

text \<open>The bit of a glyph, and the drawing of a character in its cell.\<close>

definition glyph_bit :: "psfont \<Rightarrow> u8 \<Rightarrow> nat \<Rightarrow> nat \<Rightarrow> bool" where
  "glyph_bit fn c i j \<longleftrightarrow> font_data fn ! (unat c * unat (glyph_size fn) + i) AND masks ! j \<noteq> 0"

lemma glyph_pixel_value:
  assumes "font_ok fn" and "i < unat (font_height fn)" and "j < unat (font_width fn)"
  shows "glyph_pixel fn c i j fg bg = Inr (if glyph_bit fn c i j then fg else bg)"
proof -
  have c: "unat c \<le> 255" using unsigned_less [of c, where ?'a = nat] by simp
  then have le: "unat c * unat (glyph_size fn) \<le> 255 * unat (glyph_size fn)" by (rule mult_le_mono1)
  have u: "unat (ucast c :: u32) = unat c"
    using c by (simp add: unsigned_ucast_eq take_bit_nat_eq_self)
  have "unat c * unat (glyph_size fn) < 2 ^ 32"
    by (rule le_less_trans [OF le]) (use assms(1) in \<open>simp add: font_ok_def\<close>)
  then have "unat (ucast c * glyph_size fn) = unat c * unat (glyph_size fn)"
    using unat_mult_lt [of "ucast c" "glyph_size fn"] by (simp add: u)
  moreover have "unat c * unat (glyph_size fn) + i < length (font_data fn)"
    using le assms(1,2) unfolding font_ok_def by linarith
  moreover have "j < length masks"
    using assms(1,3) by (simp add: font_ok_def masks_def word_le_nat_alt)
  ultimately show ?thesis
    by (simp add: glyph_pixel_def glyph_byte_def glyph_bit_def)
qed

lemma for_each_fold:
  assumes "\<And>i s. i \<in> set is \<Longrightarrow> f i s = Inr (g i s)"
  shows "for_each f is s = Inr (fold g is s)"
  using assms by (induction "is" arbitrary: s) simp_all

lemma putchar_at_painted:
  assumes "term_fits t" and "unat px < tw t" and "unat py < th t"
  shows "\<exists>m. putchar_at c px py t = Inr (t\<lparr>vram := m\<rparr>) \<and> painted (fbuf t) (vram t) m
    (\<lambda>x y. if unat py * fh t \<le> y \<and> y < unat py * fh t + fh t
             \<and> unat px * fw t \<le> x \<and> x < unat px * fw t + fw t
           then if glyph_bit (font t) c (y - unat py * fh t) (x - unat px * fw t) then fgcolor t else bgcolor t
           else screen (fbuf t) (vram t) x y)"
proof -
  let ?x = "unat px * fw t" and ?y = "unat py * fh t"
  let ?g = "\<lambda>i. fold (\<lambda>j m. fb_putpixel (fbuf t) (of_nat (?x + j)) (of_nat (?y + i))
      (if glyph_bit (font t) c i j then fgcolor t else bgcolor t) m) [0..<fw t]"
  have ok: "font_ok (font t)" "fb_ok (fbuf t)" using assms(1) by (simp_all add: term_fits_def)
  have "putchar_at c px py t = Inr (t\<lparr>vram := fold ?g [0..<fh t] (vram t)\<rparr>)"
  proof -
    have "for_each (\<lambda>i. for_each (\<lambda>j m. and_then (glyph_pixel (font t) c i j (fgcolor t) (bgcolor t)) (\<lambda>color.
          Inr (fb_putpixel (fbuf t) (of_nat (?x + j)) (of_nat (?y + i)) color m))) [0..<fw t]) [0..<fh t] (vram t)
        = Inr (fold ?g [0..<fh t] (vram t))"
      by (intro for_each_fold) (simp add: glyph_pixel_value [OF ok(1)] del: of_nat_add)
    then show ?thesis by (simp add: putchar_at_def Let_def del: of_nat_add)
  qed
  moreover have "painted (fbuf t) (vram t) (fold ?g [0..<fh t] (vram t))
    (\<lambda>x y. if ?y \<le> y \<and> y < ?y + fh t \<and> ?x \<le> x \<and> x < ?x + fw t
           then if glyph_bit (font t) c (y - ?y) (x - ?x) then fgcolor t else bgcolor t
           else screen (fbuf t) (vram t) x y)"
  proof (rule paint_block)
    show "?x + fw t \<le> columns (fbuf t)"
      using cell_on_screen [OF assms(1,2), of "fw t - 1"] fits_pos [OF assms(1)] by simp
    show "?y + fh t \<le> lines (fbuf t)"
      using line_on_screen [OF assms(1,3), of "fh t - 1"] fits_pos [OF assms(1)] by simp
  qed (use ok in simp_all)
  ultimately show ?thesis by blast
qed

section \<open>The invariant\<close>

definition parser_ok :: "terminal \<Rightarrow> bool" where
  "parser_ok t \<longleftrightarrow> length (cparams t) = 10 \<and> cparamcount t \<le> 10
     \<and> (cmd_state t = PARAM_WAIT \<longrightarrow> cparamcount t \<noteq> 0) \<and> (\<forall>p\<in>set (cparams t). 0 \<le> p \<and> p < 2 ^ 31)"

definition term_inv :: "terminal \<Rightarrow> bool" where
  "term_inv t \<longleftrightarrow> term_fits t \<and> parser_ok t \<and> cursor_x t < term_width t \<and> cursor_y t < term_height t"

text \<open>A step that keeps the screen's shape and writes nowhere but in the back buffer.\<close>

definition only_draws :: "terminal \<Rightarrow> terminal \<Rightarrow> bool" where
  "only_draws t t' \<longleftrightarrow> fbuf t' = fbuf t \<and> font t' = font t \<and> term_width t' = term_width t
     \<and> term_height t' = term_height t \<and> (\<forall>a. \<not> in_backbuffer (fbuf t) a \<longrightarrow> vram t' a = vram t a)"

lemma only_draws_refl: "only_draws t t"
  by (simp add: only_draws_def)

lemma only_draws_trans: "only_draws t t' \<Longrightarrow> only_draws t' t'' \<Longrightarrow> only_draws t t''"
  by (simp add: only_draws_def)

lemma only_draws_fits: "only_draws t t' \<Longrightarrow> term_fits t' = term_fits t"
  by (simp add: only_draws_def term_fits_def)

lemma painted_outside: "painted f m m' p \<Longrightarrow> \<not> in_backbuffer f a \<Longrightarrow> m' a = m a"
  by (simp add: painted_def)

lemma term_clear_eq: "term_clear t = t\<lparr>vram := vram (term_clear t), cursor_x := 0, cursor_y := 0\<rparr>"
  by (simp add: term_clear_def Let_def)

lemma scroll_eq: "scroll t = t\<lparr>vram := vram (scroll t)\<rparr>"
  by (simp add: scroll_def Let_def)

lemma term_clear_fields [simp]:
  "fbuf (term_clear t) = fbuf t" "font (term_clear t) = font t" "term_width (term_clear t) = term_width t"
  "term_height (term_clear t) = term_height t" "cursor_x (term_clear t) = 0" "cursor_y (term_clear t) = 0"
  "fgcolor (term_clear t) = fgcolor t" "bgcolor (term_clear t) = bgcolor t" "cparams (term_clear t) = cparams t"
  "cparamcount (term_clear t) = cparamcount t" "cmd_state (term_clear t) = cmd_state t"
  by (simp_all add: term_clear_def Let_def)

lemma scroll_fields [simp]:
  "fbuf (scroll t) = fbuf t" "font (scroll t) = font t" "term_width (scroll t) = term_width t"
  "term_height (scroll t) = term_height t" "cursor_x (scroll t) = cursor_x t" "cursor_y (scroll t) = cursor_y t"
  "fgcolor (scroll t) = fgcolor t" "bgcolor (scroll t) = bgcolor t" "cparams (scroll t) = cparams t"
  "cparamcount (scroll t) = cparamcount t" "cmd_state (scroll t) = cmd_state t"
  by (simp_all add: scroll_def Let_def)

lemma select_colors_fields [simp]:
  "fbuf (select_colors t) = fbuf t" "font (select_colors t) = font t" "term_width (select_colors t) = term_width t"
  "term_height (select_colors t) = term_height t" "cursor_x (select_colors t) = cursor_x t"
  "cursor_y (select_colors t) = cursor_y t" "vram (select_colors t) = vram t"
  "cparams (select_colors t) = cparams t" "cparamcount (select_colors t) = cparamcount t"
  by (simp_all add: select_colors_def Let_def term_setfgcolor_def term_setbgcolor_def)

lemma term_clear_draws: "term_fits t \<Longrightarrow> only_draws t (term_clear t)"
  by (simp add: only_draws_def painted_outside [OF term_clear_painted [OF fits_fb_ok]])

lemma fits_fh_lines: "term_fits t \<Longrightarrow> fh t \<le> lines (fbuf t)"
  using line_on_screen [of t 0 "fh t - 1"] fits_pos [of t] by simp

lemma scroll_draws: "term_fits t \<Longrightarrow> only_draws t (scroll t)"
  by (simp add: only_draws_def
      painted_outside [OF scroll_painted [OF fits_fb_ok fits_pos(2) fits_fh_lines]])

lemma putchar_at_draws:
  assumes "term_fits t" and "cursor_x t < term_width t" and "cursor_y t < term_height t"
  shows "\<exists>m. putchar_at c (cursor_x t) (cursor_y t) t = Inr (t\<lparr>vram := m\<rparr>) \<and> only_draws t (t\<lparr>vram := m\<rparr>)"
proof -
  have "unat (cursor_x t) < tw t" "unat (cursor_y t) < th t"
    using assms(2,3) by (simp_all add: word_less_nat_alt)
  from putchar_at_painted [OF assms(1) this, of c] show ?thesis
    by (auto simp: only_draws_def painted_outside)
qed

lemma wrap_cursor_inv:
  assumes "term_fits t" and "parser_ok t"
  shows "term_inv (wrap_cursor t)" and "only_draws t (wrap_cursor t)"
proof -
  define u where "u = (if term_width t \<le> cursor_x t then t\<lparr>cursor_x := 0, cursor_y := cursor_y t + 1\<rparr> else t)"
  have d: "only_draws t u" by (simp add: only_draws_def u_def)
  then have fit: "term_fits u" using assms(1) only_draws_fits by blast
  have same: "term_width u = term_width t" "term_height u = term_height t"
    using d by (simp_all add: only_draws_def)
  have pos: "0 < term_width t" "0 < term_height t"
    using fits_pos(3,4) [OF assms(1)] by (simp_all add: unat_gt_0 word_gt_0)
  have x: "cursor_x u < term_width t" using pos by (auto simp: u_def)
  have p: "parser_ok u" using assms(2) by (simp add: parser_ok_def u_def)
  have eq: "wrap_cursor t = (if term_height t \<le> cursor_y u then (scroll u)\<lparr>cursor_y := term_height t - 1\<rparr> else u)"
    using same by (simp add: wrap_cursor_def Let_def u_def)
  have "only_draws u (wrap_cursor t)"
    unfolding eq using scroll_draws [OF fit] by (simp add: only_draws_def)
  then show w: "only_draws t (wrap_cursor t)" using d only_draws_trans by blast
  have "term_height t \<noteq> 0" using pos(2) by auto
  from measure_unat [OF this] have "term_height t - 1 < term_height t" by (simp add: word_less_nat_alt)
  then have "cursor_y (wrap_cursor t) < term_height t" unfolding eq by auto
  moreover have "cursor_x (wrap_cursor t) < term_width t" unfolding eq using x by simp
  moreover have "parser_ok (wrap_cursor t)" unfolding eq using p by (simp add: parser_ok_def)
  ultimately show "term_inv (wrap_cursor t)"
    using w assms(1) only_draws_fits [OF w] by (simp add: term_inv_def only_draws_def)
qed

text \<open>The parser.\<close>

lemma digit_value: "48 \<le> c \<Longrightarrow> c \<le> 57 \<Longrightarrow> 0 \<le> uint (c :: u8) - 48 \<and> uint c - 48 \<le> 9"
  by (simp add: word_le_def)

lemma add_digit_inr:
  assumes "parser_ok t" and "cmd_state t = PARAM_WAIT" and "48 \<le> c" and "c \<le> 57"
  shows "add_digit c t = (let k = cparamcount t - 1; v = cparams t ! k * 10 + (uint c - 48)
    in if v < 2 ^ 31 then Inr (t\<lparr>cparams := (cparams t)[k := v]\<rparr>) else Inl Undefined_Behaviour)"
proof -
  let ?k = "cparamcount t - 1"
  have k: "?k < length (cparams t)" "cparamcount t \<noteq> 0" using assms(1,2) by (auto simp: parser_ok_def)
  then have "0 \<le> cparams t ! ?k" using assms(1) nth_mem unfolding parser_ok_def by blast
  then show ?thesis
    using k digit_value [OF assms(3,4)] by (auto simp: add_digit_def Let_def c_int_def)
qed

lemma parse_safe:
  assumes "term_inv t" and "parse_cmd_byte c t = Inr (b, t')"
  shows "term_inv t'" and "only_draws t t'"
proof -
  have inv: "term_fits t" "parser_ok t" "cursor_x t < term_width t" "cursor_y t < term_height t"
    using assms(1) by (simp_all add: term_inv_def)
  have sub: "set ((cparams t)[k := v]) \<subseteq> insert v (set (cparams t))" for k v by (rule set_update_subset_insert)
  have "parser_ok t' \<and> only_draws t t'
      \<and> (cursor_x t' = cursor_x t \<and> cursor_y t' = cursor_y t \<or> cursor_x t' = 0 \<and> cursor_y t' = 0)"
  proof (cases "cmd_state t")
    case READY
    then show ?thesis using assms(2) inv(2)
      by (auto simp: parse_cmd_byte_def reset_cmd_def parser_ok_def only_draws_def split: if_splits)
  next
    case CMD_WAIT
    have "only_draws t (reset_cmd (term_clear t))"
      using term_clear_draws [OF inv(1)] by (simp add: only_draws_def reset_cmd_def)
    then show ?thesis using assms(2) inv(2) CMD_WAIT sub [of 0 0]
      by (auto simp: parse_cmd_byte_def reset_cmd_def parser_ok_def only_draws_def split: if_splits)
  next
    case PARAM_WAIT
    let ?k = "cparamcount t - 1"
    consider "c = 59" | "c = 109" | "48 \<le> c" "c \<le> 57" | "c \<noteq> 59" "c \<noteq> 109" "\<not> (48 \<le> c \<and> c \<le> 57)" by blast
    then show ?thesis
    proof cases
      case 1
      then show ?thesis using assms(2) inv(2) PARAM_WAIT sub [of "cparamcount t" 0]
        by (auto simp: parse_cmd_byte_def add_param_def parser_ok_def only_draws_def split: if_splits)
    next
      case 3
      let ?v = "cparams t ! ?k * 10 + (uint c - 48)"
      have k: "?k < length (cparams t)" "cparamcount t \<noteq> 0" using inv(2) PARAM_WAIT by (auto simp: parser_ok_def)
      then have "0 \<le> cparams t ! ?k" using inv(2) nth_mem unfolding parser_ok_def by blast
      then have "0 \<le> ?v" using digit_value [OF 3] by simp
      moreover have "c \<noteq> 59" "c \<noteq> 109" using 3 by auto
      then have "?v < 2 ^ 31" "t' = t\<lparr>cparams := (cparams t)[?k := ?v]\<rparr>"
        using assms(2) PARAM_WAIT 3 add_digit_inr [OF inv(2) PARAM_WAIT 3]
        by (auto simp: parse_cmd_byte_def Let_def split: if_splits)
      ultimately show ?thesis using inv(2) sub [of ?k ?v] by (auto simp: parser_ok_def only_draws_def)
    qed (use assms(2) inv(2) PARAM_WAIT in \<open>auto simp: parse_cmd_byte_def reset_cmd_def parser_ok_def only_draws_def\<close>)
  qed
  then show "only_draws t t'" "term_inv t'"
    using inv only_draws_fits [of t t'] by (auto simp: term_inv_def only_draws_def word_gt_0 term_fits_def)
qed

lemma parse_faults:
  assumes "term_inv t"
  shows "parse_cmd_byte c t = Inl e \<longleftrightarrow> cmd_state t = PARAM_WAIT \<and>
    (c = 59 \<and> cparamcount t = 10 \<and> e = Out_Of_Bounds \<or>
     48 \<le> c \<and> c \<le> 57 \<and> 2 ^ 31 \<le> cparams t ! (cparamcount t - 1) * 10 + (uint c - 48)
       \<and> e = Undefined_Behaviour)"
proof -
  have p: "parser_ok t" using assms by (simp add: term_inv_def)
  show ?thesis
  proof (cases "cmd_state t")
    case PARAM_WAIT
    consider "c = 59" | "c = 109" | "48 \<le> c" "c \<le> 57" | "c \<noteq> 59" "c \<noteq> 109" "\<not> (48 \<le> c \<and> c \<le> 57)" by blast
    then show ?thesis
    proof cases
      case 3
      moreover from this have "c \<noteq> 59" "c \<noteq> 109" by auto
      ultimately show ?thesis
        using PARAM_WAIT add_digit_inr [OF p PARAM_WAIT 3] by (auto simp: parse_cmd_byte_def Let_def)
    qed (use p PARAM_WAIT in \<open>auto simp: parse_cmd_byte_def add_param_def parser_ok_def\<close>)
  qed (auto simp: parse_cmd_byte_def)
qed

end
