(* ===== verification/KlogFormat.thy ===== *)
theory KlogFormat
  imports Klog
begin

text \<open>
  What the kernel's \<open>printf\<close> prints: numbers are their numerals in the base, a format is its text.
  The numerals can be read back, and the conversion stays inside its buffer of 65 bytes.
\<close>

section \<open>Numerals\<close>

fun numeral :: "nat \<Rightarrow> nat \<Rightarrow> nat list" where
  "numeral b n = (if b < 2 \<or> n < b then [n] else numeral b (n div b) @ [n mod b])"

declare numeral.simps [simp del]

definition number_of :: "nat \<Rightarrow> nat list \<Rightarrow> nat" where
  "number_of b ds = foldl (\<lambda>a d. a * b + d) 0 ds"

lemma number_of_numeral: "number_of b (numeral b n) = n"
proof (induction b n rule: numeral.induct)
  case (1 b n)
  then show ?case by (subst numeral.simps) (simp add: number_of_def)
qed

lemma numeral_digits: "2 \<le> b \<Longrightarrow> d \<in> set (numeral b n) \<Longrightarrow> d < b"
proof (induction b n rule: numeral.induct)
  case (1 b n)
  then show ?case by (subst (asm) (2) numeral.simps) (auto split: if_splits)
qed

lemma numeral_not_Nil [simp]: "numeral b n \<noteq> []"
  by (subst numeral.simps) simp

lemma length_numeral: "2 \<le> b \<Longrightarrow> n < 2 ^ Suc m \<Longrightarrow> length (numeral b n) \<le> Suc m"
proof (induction m arbitrary: n)
  case 0
  then show ?case by (subst numeral.simps) simp
next
  case (Suc m)
  have "n div b \<le> n div 2" using Suc.prems(1) by (simp add: div_le_mono2)
  also have "\<dots> < 2 ^ Suc m" using Suc.prems(2) by simp
  finally have "length (numeral b (n div b)) \<le> Suc m" by (rule Suc.IH [OF Suc.prems(1)])
  then show ?case by (subst numeral.simps) simp
qed

text \<open>The characters of the digits, and their values.\<close>

definition digit_char :: "nat \<Rightarrow> u8" where
  "digit_char d = lookup_digits ! d"

definition number_text :: "nat \<Rightarrow> bool \<Rightarrow> u64 \<Rightarrow> u8 list" where
  "number_text b is_signed w =
     (if w <s 0 \<and> is_signed then 45 # map digit_char (numeral b (unat (- w)))
      else map digit_char (numeral b (unat w)))"

lemma length_lookup_digits [simp]: "length lookup_digits = 37"
  by (simp add: lookup_digits_def bytes_def)

section \<open>The digit loop\<close>

lemma digit_loop_numeral:
  assumes "2 \<le> unat base" and "unat base \<le> 36" and "len + length (numeral (unat base) (unat num)) \<le> length buf"
  shows "\<exists>buf'. digit_loop base num len buf = Some (Inr (len + length (numeral (unat base) (unat num)), buf'))
    \<and> length buf' = length buf \<and> take len buf' = take len buf
    \<and> take (length (numeral (unat base) (unat num))) (drop len buf')
        = map digit_char (rev (numeral (unat base) (unat num)))"
  using assms(3)
proof (induction "unat num" arbitrary: num len buf rule: less_induct)
  case less
  let ?b = "unat base" and ?n = "unat num"
  have b0: "base \<noteq> 0" using assms(1) by auto
  have ux: "unat (num mod base) = ?n mod ?b" "unat (num div base) = ?n div ?b"
    by (simp_all add: unat_mod unat_div)
  have d: "?n mod ?b < 37" using assms(1,2) mod_less_divisor [of ?b ?n] by linarith
  define buf1 where "buf1 = buf[len := lookup_digits ! (?n mod ?b)]"
  have len: "len < length buf" using less.prems numeral_not_Nil [of ?b ?n] by (cases "numeral ?b ?n") auto
  have at: "buf1 ! len = digit_char (?n mod ?b)" using len by (simp add: buf1_def digit_char_def)
  have step: "digit_loop base num len buf =
      (if num div base \<noteq> 0 then digit_loop base (num div base) (len + 1) buf1 else Some (Inr (len + 1, buf1)))"
    using b0 d len by (subst digit_loop.simps) (simp add: ux buf1_def Let_def not_le)
  show ?case
  proof (cases "?n < ?b")
    case True
    then have num: "numeral ?b ?n = [?n]" by (subst numeral.simps) simp
    have "num div base = 0" using True by (simp add: unat_eq_0 [symmetric] ux)
    moreover have "take 1 (drop len buf1) = [digit_char ?n]"
      using at True len by (simp add: take_Suc_conv_app_nth buf1_def)
    ultimately show ?thesis using True by (simp add: step num buf1_def)
  next
    case False
    have num: "numeral ?b ?n = numeral ?b (?n div ?b) @ [?n mod ?b]"
      using False assms(1) by (subst numeral.simps) simp
    have nz: "num div base \<noteq> 0" using False assms(1) by (simp add: unat_eq_0 [symmetric] ux div_eq_0_iff)
    have smaller: "unat (num div base) < ?n" using False assms(1) by (simp add: ux)
    let ?L = "length (numeral ?b (unat (num div base)))"
    have "len + 1 + ?L \<le> length buf1" using less.prems by (simp add: num ux buf1_def)
    then obtain buf' where ih: "digit_loop base (num div base) (len + 1) buf1 = Some (Inr (len + 1 + ?L, buf'))"
        "length buf' = length buf1" "take (len + 1) buf' = take (len + 1) buf1"
        "take ?L (drop (len + 1) buf') = map digit_char (rev (numeral ?b (unat (num div base))))"
      using less.hyps [OF smaller] by blast
    have l': "len < length buf'" using len ih(2) by (simp add: buf1_def)
    have "buf' ! len = buf1 ! len" using arg_cong [OF ih(3), of "\<lambda>xs. xs ! len"] by simp
    then have "take (Suc ?L) (drop len buf') = digit_char (?n mod ?b) # take ?L (drop (len + 1) buf')"
      using l' at by (simp add: Cons_nth_drop_Suc [symmetric])
    moreover have "take len buf' = take len buf"
      using arg_cong [OF ih(3), of "take len"] by (simp add: buf1_def)
    ultimately show ?thesis
      using ih nz by (intro exI [of _ buf']) (simp add: step num ux buf1_def)
  qed
qed

lemma put_digits_eq:
  "n < length buf \<Longrightarrow> put_digits n buf k = fold putch (rev (take n (drop 1 buf))) k"
proof (induction n arbitrary: k)
  case (Suc n)
  have "take (Suc n) (drop 1 buf) = take n (drop 1 buf) @ [buf ! Suc n]"
    using Suc.prems by (subst take_Suc_conv_app_nth) simp_all
  then show ?case using Suc by simp
qed simp

text \<open>The conversion writes at most 64 digits, prints the numeral, and never faults.\<close>

lemma putnum_text:
  assumes "2 \<le> unat base" and "unat base \<le> 36" and "length (tmpbuf k) = 65"
  shows "\<exists>buf. putnum num base sg k = Inr ((fold putch (number_text (unat base) sg num) k)\<lparr>tmpbuf := buf\<rparr>)
    \<and> length buf = 65"
proof -
  let ?neg = "num <s 0 \<and> sg"
  define w where "w = (if ?neg then - num else num)"
  define k1 where "k1 = (if ?neg then putch 45 k else k)"
  let ?ds = "numeral (unat base) (unat w)"
  have k1: "tmpbuf k1 = tmpbuf k" by (simp add: k1_def putch_fields)
  have "unat w < 2 ^ Suc 63" using unsigned_less [of w, where ?'a = nat] by simp
  then have L: "length ?ds \<le> 64" using length_numeral [OF assms(1), of "unat w" 63] by simp
  then have "1 + length ?ds \<le> length (tmpbuf k)" by (simp add: assms(3))
  then obtain buf where buf: "digit_loop base w 1 (tmpbuf k) = Some (Inr (1 + length ?ds, buf))"
      "length buf = length (tmpbuf k)" "take (length ?ds) (drop 1 buf) = map digit_char (rev ?ds)"
    using digit_loop_numeral [OF assms(1,2)] by blast
  have "put_digits (length ?ds) buf (k1\<lparr>tmpbuf := buf\<rparr>) = fold putch (map digit_char ?ds) (k1\<lparr>tmpbuf := buf\<rparr>)"
    using put_digits_eq [of "length ?ds" buf] L buf(2,3) assms(3) by (simp add: rev_map [symmetric])
  also have "\<dots> = (fold putch (map digit_char ?ds) k1)\<lparr>tmpbuf := buf\<rparr>" by (rule fold_putch_tmpbuf)
  also have "fold putch (map digit_char ?ds) k1 = fold putch (number_text (unat base) sg num) k"
    by (simp add: number_text_def k1_def w_def)
  finally have "put_digits (length ?ds) buf (k1\<lparr>tmpbuf := buf\<rparr>)
      = (fold putch (number_text (unat base) sg num) k)\<lparr>tmpbuf := buf\<rparr>" .
  moreover have "putnum num base sg k = Inr (put_digits (length ?ds) buf (k1\<lparr>tmpbuf := buf\<rparr>))"
    unfolding putnum_def Let_def w_def [symmetric] k1_def [symmetric] k1 buf(1) by simp
  ultimately show ?thesis using buf(2) assms(3) by auto
qed

section \<open>The text of a format\<close>

text \<open>The reference: what one directive prints, and the text of a whole format.\<close>

definition directive_text :: "u8 \<Rightarrow> varg list \<Rightarrow> (u8 list \<times> varg list) result" where
  "directive_text c args =
     (if c = 37 then Inr ([37], args)
      else if c = 100 then
        (case args of Word_Arg w # args \<Rightarrow> Inr (number_text 10 True (int_arg w), args)
         | _ \<Rightarrow> Inl Undefined_Behaviour)
      else if c = 120 then
        (case args of Word_Arg w # args \<Rightarrow> Inr (bytes ''0x'' @ number_text 16 False w, args)
         | _ \<Rightarrow> Inl Undefined_Behaviour)
      else if c = 115 then
        (case args of Str_Arg s # args \<Rightarrow> Inr (takeWhile (\<lambda>c. c \<noteq> 0) s, args)
         | _ \<Rightarrow> Inl Undefined_Behaviour)
      else if c = 98 then
        (case args of Word_Arg w # args \<Rightarrow>
            Inr (bytes (if int_arg w \<noteq> 0 then ''true'' else ''false''), args)
         | _ \<Rightarrow> Inl Undefined_Behaviour)
      else Inr ([], args))"

fun format_text :: "u8 list \<Rightarrow> varg list \<Rightarrow> u8 list result" where
  "format_text [] args = Inr []"
| "format_text [c] args =
     (if c = 0 then Inr [] else if c = 37 then Inl Out_Of_Bounds else Inr [c])"
| "format_text (c # d # s) args =
     (if c = 0 then Inr []
      else if c = 37 then
        and_then (directive_text d args) (\<lambda>(t, args). and_then (format_text s args) (\<lambda>u. Inr (t @ u)))
      else and_then (format_text (d # s) args) (\<lambda>u. Inr (c # u)))"

text \<open>Printing the text \<open>t\<close>, up to what is left in the conversion buffer.\<close>

definition printed :: "u8 list \<Rightarrow> klog \<Rightarrow> klog \<Rightarrow> bool" where
  "printed t k k' \<longleftrightarrow> (\<exists>buf. k' = (fold putch t k)\<lparr>tmpbuf := buf\<rparr> \<and> length buf = 65)"

lemma printed_tmpbuf: "printed t k k' \<Longrightarrow> length (tmpbuf k') = 65"
  by (auto simp: printed_def)

lemma printed_refl: "length (tmpbuf k) = 65 \<Longrightarrow> printed [] k k"
  unfolding printed_def by (intro exI [of _ "tmpbuf k"]) simp

lemma printed_fold: "length (tmpbuf k) = 65 \<Longrightarrow> printed t k (fold putch t k)"
  unfolding printed_def by (intro exI [of _ "tmpbuf k"]) (simp add: tmpbuf_fold [symmetric])

lemma printed_append: "printed t k k1 \<Longrightarrow> printed u k1 k2 \<Longrightarrow> printed (t @ u) k k2"
  by (auto simp: printed_def fold_putch_tmpbuf)

lemma bytes_nonzero: "(0 :: u8) \<notin> set (bytes ''0x'')" "(0 :: u8) \<notin> set (bytes ''true'')" "(0 :: u8) \<notin> set (bytes ''false'')"
  by (simp_all add: bytes_def)

lemma directive_printed:
  assumes "length (tmpbuf k) = 65"
  shows "case directive_text c args of
      Inl e \<Rightarrow> directive c args k = Inl e
    | Inr (t, args') \<Rightarrow> \<exists>k'. directive c args k = Inr (args', k') \<and> printed t k k'"
proof -
  have num: "\<exists>k'. putnum w b sg k = Inr k' \<and> printed (number_text (unat b) sg w) k k'"
    if "2 \<le> unat b" "unat b \<le> 36" "length (tmpbuf k) = 65" for w b sg k
    using putnum_text [OF that, of w sg] by (auto simp: printed_def)
  have hex: "\<exists>k'. putnum w 16 False (puts (bytes ''0x'') k) = Inr k'
      \<and> printed (bytes ''0x'' @ number_text 16 False w) k k'" for w
  proof -
    have p: "printed (bytes ''0x'') k (puts (bytes ''0x'') k)"
      unfolding puts_eq [OF bytes_nonzero(1)] by (rule printed_fold [OF assms])
    then show ?thesis
      using num [of 16 "puts (bytes ''0x'') k" w False] printed_tmpbuf [OF p] printed_append [OF p] by auto
  qed
  have str: "printed (takeWhile (\<lambda>c. c \<noteq> 0) s) k (puts s k)" for s
    unfolding puts_takeWhile by (rule printed_fold [OF assms])
  have bool: "printed (bytes (if x \<noteq> 0 then ''true'' else ''false'')) k (puts (bytes (if x \<noteq> 0 then ''true'' else ''false'')) k)"
    for x :: u64
    using bytes_nonzero(2,3) printed_fold [OF assms] by (simp add: puts_eq)
  have pc: "printed [37] k (putch 37 k)" using printed_fold [OF assms, of "[37]"] by simp
  have dec: "\<exists>k'. putnum w 10 True k = Inr k' \<and> printed (number_text 10 True w) k k'" for w
    using num [of 10 k w True] assms by simp
  show ?thesis
  proof (cases args)
    case Nil
    then show ?thesis using printed_refl [OF assms] pc by (simp add: directive_def directive_text_def)
  next
    case (Cons a as)
    show ?thesis
    proof (cases a)
      case (Word_Arg w)
      show ?thesis
        using Cons Word_Arg printed_refl [OF assms] pc dec [of "int_arg w"] hex [of w] bool [of "int_arg w"]
        by (auto simp: directive_def directive_text_def)
    next
      case (Str_Arg s)
      then show ?thesis
        using Cons printed_refl [OF assms] pc str [of s] by (simp add: directive_def directive_text_def)
    qed
  qed
qed

lemma vprintf_printed:
  assumes "length (tmpbuf k) = 65"
  shows "case format_text (drop i s) args of
      Inl e \<Rightarrow> i \<le> length s \<longrightarrow> vprintf s i args k = Inl e
    | Inr t \<Rightarrow> i \<le> length s \<longrightarrow> (\<exists>k'. vprintf s i args k = Inr k' \<and> printed t k k')"
  using assms
proof (induction "length s - i" arbitrary: i args k rule: less_induct)
  case less
  show ?case
  proof (cases "i < length s")
    case False
    then show ?thesis
      using printed_refl [OF less.prems] by (subst vprintf.simps) (auto simp: char_at_def)
  next
    case i: True
    define c where "c = s ! i"
    have cs: "drop i s = c # drop (Suc i) s" using i by (simp add: c_def Cons_nth_drop_Suc)
    have ci: "char_at s i = Inr c" using i by (simp add: char_at_def c_def)
    show ?thesis
    proof (cases "c = 0 \<or> c \<noteq> 37")
      case True
      show ?thesis
      proof (cases "c = 0")
        case True
        then have "format_text (drop i s) args = Inr []" unfolding cs by (cases "drop (Suc i) s") simp_all
        then show ?thesis
          using True ci printed_refl [OF less.prems] by (subst vprintf.simps) auto
      next
        case False
        then have c: "c \<noteq> 0" "c \<noteq> 37" using \<open>c = 0 \<or> c \<noteq> 37\<close> by simp_all
        have f: "format_text (drop i s) args = and_then (format_text (drop (Suc i) s) args) (\<lambda>u. Inr (c # u))"
          unfolding cs using c by (cases "drop (Suc i) s") simp_all
        have v: "vprintf s i args k = vprintf s (i + 1) args (putch c k)"
          using c ci by (subst vprintf.simps) simp
        have p: "printed [c] k (putch c k)" using printed_fold [OF less.prems, of "[c]"] by simp
        have lt: "length s - (i + 1) < length s - i" using i by simp
        note ih = less.hyps [OF lt printed_tmpbuf [OF p], of args]
        show ?thesis
        proof (cases "format_text (drop (Suc i) s) args")
          case (Inl e)
          then show ?thesis using ih i unfolding f v by simp
        next
          case (Inr u)
          then obtain k' where "vprintf s (i + 1) args (putch c k) = Inr k'" "printed u (putch c k) k'"
            using ih i by auto
          then show ?thesis using Inr printed_append [OF p, of u k'] unfolding f v by auto
        qed
      qed
    next
      case False
      then have c: "c = 37" by simp
      show ?thesis
      proof (cases "Suc i < length s")
        case no: False
        then have "drop (Suc i) s = []" by simp
        then have "format_text (drop i s) args = Inl Out_Of_Bounds" unfolding cs using c by simp
        moreover have "i + 1 = length s" using no i by simp
        then have "vprintf s i args k = Inl Out_Of_Bounds"
          using c ci by (subst vprintf.simps) (simp add: char_at_def directive_def, subst vprintf.simps, simp add: char_at_def)
        ultimately show ?thesis by simp
      next
        case i1: True
        define d where "d = s ! Suc i"
        have ds: "drop (Suc i) s = d # drop (Suc (Suc i)) s" using i1 by (simp add: d_def Cons_nth_drop_Suc)
        have di: "char_at s (i + 1) = Inr d" using i1 by (simp add: char_at_def d_def)
        have f: "format_text (drop i s) args = and_then (directive_text d args)
            (\<lambda>(t, args). and_then (format_text (drop (Suc (Suc i)) s) args) (\<lambda>u. Inr (t @ u)))"
          unfolding cs ds using c by simp
        have v: "vprintf s i args k = and_then (directive d args k) (\<lambda>(args, k). vprintf s (i + 2) args k)"
          using c ci di by (subst vprintf.simps) simp
        show ?thesis
        proof (cases "directive_text d args")
          case (Inl e)
          then show ?thesis using directive_printed [OF less.prems, of d args] by (simp add: f v)
        next
          case (Inr x)
          obtain t args' where x: "directive_text d args = Inr (t, args')" using Inr by (cases x) simp
          then obtain k' where k': "directive d args k = Inr (args', k')" "printed t k k'"
            using directive_printed [OF less.prems, of d args] by auto
          have lt: "length s - (i + 2) < length s - i" using i by simp
          note ih = less.hyps [OF lt printed_tmpbuf [OF k'(2)], of args']
          show ?thesis
          proof (cases "format_text (drop (Suc (Suc i)) s) args'")
            case (Inl e)
            then show ?thesis using ih i1 k'(1) x unfolding f v by simp
          next
            case (Inr u)
            then obtain k2 where "vprintf s (i + 2) args' k' = Inr k2" "printed u k' k2"
              using ih i1 by auto
            then show ?thesis using Inr x k'(1) printed_append [OF k'(2), of u k2] unfolding f v by auto
          qed
        qed
      qed
    qed
  qed
qed

section \<open>Properties\<close>

definition empty_klog :: klog where
  "empty_klog = \<lparr>log_buff = (\<lambda>_. 0), log_start = 0, log_end = 0, tmpbuf = replicate 65 0, serial = []\<rparr>"

lemma empty_klog_tmpbuf: "length (tmpbuf empty_klog) = 65"
  by (simp add: empty_klog_def)

lemma empty_klog_bytes: "log_bytes empty_klog = []"
  by (simp add: log_bytes_def empty_klog_def)

lemma prefix_nonzero: "0 \<notin> set (level_prefix lvl)"
  by (cases lvl) (simp_all add: level_prefix_def bytes_def ESC_def)

text \<open>What a message of a function adds: its level and its name come first.\<close>

definition from_text :: "string \<Rightarrow> u8 list" where
  "from_text who = ESC # bytes ''[37;1m'' @ takeWhile (\<lambda>c. c \<noteq> 0) (bytes who) @ bytes '':'' @ ESC # bytes ''[0m ''"

lemma format_plain: "c \<noteq> 0 \<Longrightarrow> c \<noteq> 37 \<Longrightarrow> format_text (c # s) args = and_then (format_text s args) (\<lambda>u. Inr (c # u))"
  by (cases s) simp_all

lemma from_format:
  assumes "format_text s args = Inr t"
  shows "format_text (ESC # bytes ''[37;1m%s:'' @ ESC # bytes ''[0m '' @ s) (Str_Arg (bytes f) # args) = Inr (from_text f @ t)"
  using assms by (simp add: bytes_def ESC_def directive_text_def format_plain from_text_def)

lemma from_printed:
  assumes "length (tmpbuf k) = 65" and "format_text s args = Inr t"
  shows "\<exists>k'. klog_from lvl f s args k = Inr k' \<and> printed (level_prefix lvl @ from_text f @ t) k k'"
proof -
  let ?k = "puts (level_prefix lvl) k"
  have p: "printed (level_prefix lvl) k ?k"
    unfolding puts_eq [OF prefix_nonzero] by (rule printed_fold [OF assms(1)])
  obtain k' where "vprintf (ESC # bytes ''[37;1m%s:'' @ ESC # bytes ''[0m '' @ s) 0 (Str_Arg (bytes f) # args) ?k = Inr k'"
    "printed (from_text f @ t) ?k k'"
    using vprintf_printed [OF printed_tmpbuf [OF p], where i = 0 and s = "ESC # bytes ''[37;1m%s:'' @ ESC # bytes ''[0m '' @ s"
      and args = "Str_Arg (bytes f) # args"] from_format [OF assms(2)] by auto
  then show ?thesis using printed_append [OF p] by (auto simp: klog_from_def klog_level_def)
qed

lemma printed_log: "printed t k k' \<Longrightarrow> log_bytes k' = lastn 65535 (log_bytes k @ t)"
  unfolding printed_def log_bytes_fold [symmetric] by (auto simp: log_bytes_def)

text \<open>C27: \<open>klog\<close> appends its prefix and the text of the format to the log, which keeps the last 65535
  bytes, and sends the same bytes down the serial line with a carriage return before each newline.
  It faults exactly when the format has no text: a missing argument, or a percent sign at the end,
  behind which the loop reads past the NUL.\<close>

theorem klog_prints_format:
  assumes "length (tmpbuf k) = 65"
  shows "case format_text fmt args of
      Inl e \<Rightarrow> klog_level lvl fmt args k = Inl e
    | Inr t \<Rightarrow> \<exists>k'. klog_level lvl fmt args k = Inr k'
        \<and> log_bytes k' = lastn 65535 (log_bytes k @ level_prefix lvl @ t)
        \<and> serial k' = serial k @ concat (map (\<lambda>c. if c = 10 then [13, 10] else [c]) (level_prefix lvl @ t))
        \<and> length (tmpbuf k') = 65"
proof -
  let ?k = "puts (level_prefix lvl) k"
  have p: "printed (level_prefix lvl) k ?k"
    unfolding puts_eq [OF prefix_nonzero] by (rule printed_fold [OF assms])
  have out: "log_bytes k' = lastn 65535 (log_bytes k @ t) \<and> length (tmpbuf k') = 65
      \<and> serial k' = serial k @ concat (map (\<lambda>c. if c = 10 then [13, 10] else [c]) t)"
    if "printed t k k'" for t k'
    using that log_bytes_fold [of t k] serial_fold [of t k] by (auto simp: printed_def log_bytes_def)
  show ?thesis
    using vprintf_printed [OF printed_tmpbuf [OF p], where s = fmt and i = 0 and args = args]
    by (auto simp: klog_level_def split: sum.splits dest!: printed_append [OF p] out)
qed

theorem klog_prints_format_witness:
  "\<exists>k'. klog_level LOG_WARN (bytes ''%d%%'') [Word_Arg 7] empty_klog = Inr k'
    \<and> log_bytes k' = level_prefix LOG_WARN @ bytes ''7%''"
proof -
  have "format_text (bytes ''%d%%'') [Word_Arg 7] = Inr (bytes ''7%'')"
    by (simp add: bytes_def directive_text_def int_arg_def number_text_def word_sless_alt numeral.simps
        digit_char_def lookup_digits_def)
  then obtain k' where "klog_level LOG_WARN (bytes ''%d%%'') [Word_Arg 7] empty_klog = Inr k'"
    "log_bytes k' = lastn 65535 (log_bytes empty_klog @ level_prefix LOG_WARN @ bytes ''7%'')"
    using klog_prints_format [OF empty_klog_tmpbuf, where lvl = LOG_WARN and fmt = "bytes ''%d%%''" and args = "[Word_Arg 7]"] by auto
  then show ?thesis
    by (auto simp: empty_klog_bytes lastn_def level_prefix_def bytes_def)
qed

text \<open>The loop that converts a number ends, for every number and every base from 2 to 36, after at
  most 64 digits, so it stays inside its buffer of 65 bytes; and its digits denote the number.\<close>

theorem digit_loop_terminates:
  assumes "2 \<le> unat base" and "unat base \<le> 36" and "length buf = 65"
  shows "\<exists>len buf' ds. digit_loop base num 1 buf = Some (Inr (len, buf')) \<and> len \<le> 65 \<and> length buf' = 65
    \<and> take (len - 1) (drop 1 buf') = map digit_char (rev ds)
    \<and> number_of (unat base) ds = unat num \<and> (\<forall>d\<in>set ds. d < unat base)"
proof -
  let ?ds = "numeral (unat base) (unat num)"
  have "unat num < 2 ^ Suc 63" using unsigned_less [of num, where ?'a = nat] by simp
  then have L: "length ?ds \<le> 64" using length_numeral [OF assms(1), of "unat num" 63] by simp
  then have "1 + length ?ds \<le> length buf" by (simp add: assms(3))
  then obtain buf' where "digit_loop base num 1 buf = Some (Inr (1 + length ?ds, buf'))"
      "length buf' = length buf" "take (length ?ds) (drop 1 buf') = map digit_char (rev ?ds)"
    using digit_loop_numeral [OF assms(1,2)] by blast
  then show ?thesis
    using L assms(3) number_of_numeral numeral_digits [OF assms(1)]
    by (intro exI [of _ "1 + length ?ds"] exI [of _ buf'] exI [of _ ?ds]) simp
qed

theorem digit_loop_terminates_witness:
  "\<exists>len buf'. digit_loop 16 0xBEEF 1 (replicate 65 0) = Some (Inr (len, buf')) \<and> len \<le> 65"
  using digit_loop_terminates [of 16 "replicate 65 0" "0xBEEF"] by auto

end
