(* ===== verification/TermText.thy ===== *)
theory TermText
  imports TermDraw KlogFormat
begin

text \<open>
  The terminal as a grid of coloured characters. The abstract screen knows neither pixels nor bytes: it
  has cells, a cursor and two colours, and its operations are a character, a colour selection and a clear.
  The terminal refines it on the bytes that encode them.
\<close>

section \<open>The abstract screen\<close>

datatype cell = Blank u32 | Glyph u8 u32 u32

record text_screen =
  cells :: "nat \<Rightarrow> nat \<Rightarrow> cell"
  col :: nat
  row :: nat
  text_fg :: u32
  text_bg :: u32

definition ts_scroll :: "nat \<Rightarrow> text_screen \<Rightarrow> text_screen" where
  "ts_scroll h s = s\<lparr>cells := (\<lambda>r c. if r + 1 < h then cells s (r + 1) c else Blank (text_bg s)), row := h - 1\<rparr>"

definition ts_wrap :: "nat \<Rightarrow> nat \<Rightarrow> text_screen \<Rightarrow> text_screen" where
  "ts_wrap w h s =
     (let s = (if w \<le> col s then s\<lparr>col := 0, row := row s + 1\<rparr> else s)
      in if h \<le> row s then ts_scroll h s else s)"

text \<open>A tab moves to the next multiple of four, and nowhere from a multiple of four.\<close>

definition ts_char :: "nat \<Rightarrow> nat \<Rightarrow> u8 \<Rightarrow> text_screen \<Rightarrow> text_screen" where
  "ts_char w h c s =
     (if c = 0 then s
      else if c = 10 then ts_wrap w h (s\<lparr>col := 0, row := row s + 1\<rparr>)
      else if c = 9 then ts_wrap w h (s\<lparr>col := (col s + 3) div 4 * 4\<rparr>)
      else ts_wrap w h (s\<lparr>
        cells := (\<lambda>r k. if r = row s \<and> k = col s then Glyph c (text_fg s) (text_bg s) else cells s r k),
        col := col s + 1\<rparr>))"

definition ts_clear :: "text_screen \<Rightarrow> text_screen" where
  "ts_clear s = s\<lparr>cells := (\<lambda>r c. Blank (text_bg s)), col := 0, row := 0\<rparr>"

text \<open>Select graphic rendition: 0 resets the colours, 30 to 37 and 40 to 47 choose one, and a second
  parameter 1 its bright version.\<close>

definition ts_select :: "nat list \<Rightarrow> text_screen \<Rightarrow> text_screen" where
  "ts_select ps s =
     (let p = ps ! 0; shade = (if length ps = 2 \<and> ps ! 1 = 1 then 8 else 0)
      in if p = 0 then s\<lparr>text_fg := DEFAULT_FGCOLOR, text_bg := DEFAULT_BGCOLOR\<rparr>
         else if p \<in> {30..37} then s\<lparr>text_fg := ansicolors ! (p - 30 + shade)\<rparr>
         else if p \<in> {40..47} then s\<lparr>text_bg := ansicolors ! (p - 40 + shade)\<rparr>
         else s)"

datatype item = Char u8 | Select "nat list" | Clear

definition ts_item :: "nat \<Rightarrow> nat \<Rightarrow> item \<Rightarrow> text_screen \<Rightarrow> text_screen" where
  "ts_item w h x s = (case x of Char c \<Rightarrow> ts_char w h c s | Select ps \<Rightarrow> ts_select ps s | Clear \<Rightarrow> ts_clear s)"

text \<open>The bytes of an item.\<close>

definition decimal :: "nat \<Rightarrow> u8 list" where
  "decimal n = map digit_char (numeral 10 n)"

fun params :: "nat list \<Rightarrow> u8 list" where
  "params [] = []"
| "params [p] = decimal p"
| "params (p # ps) = decimal p @ 59 # params ps"

definition encode :: "item \<Rightarrow> u8 list" where
  "encode x = (case x of Char c \<Rightarrow> [c] | Select ps \<Rightarrow> 27 # 91 # params ps @ [109] | Clear \<Rightarrow> [27, 99])"

definition valid_item :: "item \<Rightarrow> bool" where
  "valid_item x = (case x of Char c \<Rightarrow> c \<noteq> 27
     | Select ps \<Rightarrow> ps \<noteq> [] \<and> length ps \<le> 10 \<and> (\<forall>p\<in>set ps. p < 2 ^ 31) | Clear \<Rightarrow> True)"

section \<open>The picture of a screen\<close>

definition cell_pixel :: "psfont \<Rightarrow> cell \<Rightarrow> nat \<Rightarrow> nat \<Rightarrow> u32" where
  "cell_pixel fn x i j =
     (case x of Blank bg \<Rightarrow> bg | Glyph c fg bg \<Rightarrow> if glyph_bit fn c i j then fg else bg)"

definition shown :: "terminal \<Rightarrow> (nat \<Rightarrow> nat \<Rightarrow> cell) \<Rightarrow> bool" where
  "shown t cs \<longleftrightarrow> (\<forall>r<th t. \<forall>c<tw t. \<forall>i<fh t. \<forall>j<fw t.
     screen (fbuf t) (vram t) (c * fw t + j) (r * fh t + i) = cell_pixel (font t) (cs r c) i j)"

text \<open>The rows of the grid fill the screen: otherwise scrolling brings the strip below them into view.\<close>

definition whole_rows :: "terminal \<Rightarrow> bool" where
  "whole_rows t \<longleftrightarrow> lines (fbuf t) = th t * fh t"

definition displays :: "terminal \<Rightarrow> text_screen \<Rightarrow> bool" where
  "displays t s \<longleftrightarrow> term_inv t \<and> whole_rows t \<and> cmd_state t = READY
     \<and> unat (cursor_x t) = col s \<and> unat (cursor_y t) = row s
     \<and> fgcolor t = text_fg s \<and> bgcolor t = text_bg s \<and> shown t (cells s)"

lemma cell_index:
  assumes "(i :: nat) < f"
  shows "p * f \<le> r * f + i \<and> r * f + i < p * f + f \<longleftrightarrow> r = p"
proof
  assume a: "p * f \<le> r * f + i \<and> r * f + i < p * f + f"
  have "(r * f + i) div f = r" using assms by simp
  moreover have "(r * f + i) div f = p"
    using a by (intro div_nat_eqI) (simp_all add: mult.commute)
  ultimately show "r = p" by simp
qed (use assms in simp)

lemma shown_clear:
  assumes "term_fits t"
  shows "shown (term_clear t) (\<lambda>r c. Blank (bgcolor t))"
  by (simp add: shown_def cell_pixel_def painted_screen [OF term_clear_painted [OF fits_fb_ok [OF assms]]]
      cell_on_screen [OF assms] line_on_screen [OF assms])

lemma shown_scroll:
  assumes "term_fits t" and "whole_rows t" and "shown t cs"
  shows "shown (scroll t) (\<lambda>r c. if r + 1 < th t then cs (r + 1) c else Blank (bgcolor t))"
  unfolding shown_def
proof (intro allI impI, simp only: scroll_fields)
  fix r c i j assume b: "r < th t" "c < tw t" "i < fh t" "j < fw t"
  note on = cell_on_screen [OF assms(1) b(2,4)] line_on_screen [OF assms(1) b(1,3)]
  have *: "screen (fbuf t) (vram (scroll t)) (c * fw t + j) (r * fh t + i)
      = (if r * fh t + i + fh t < lines (fbuf t)
         then screen (fbuf t) (vram t) (c * fw t + j) (r * fh t + i + fh t) else bgcolor t)"
    using painted_screen [OF scroll_painted [OF fits_fb_ok [OF assms(1)] fits_pos(2) [OF assms(1)]
          fits_fh_lines [OF assms(1)]] on] .
  show "screen (fbuf t) (vram (scroll t)) (c * fw t + j) (r * fh t + i)
      = cell_pixel (font t) (if r + 1 < th t then cs (r + 1) c else Blank (bgcolor t)) i j"
  proof (cases "r + 1 < th t")
    case True
    have "(r + 1) * fh t + i < lines (fbuf t)" using line_on_screen [OF assms(1) True b(3)] .
    moreover have "screen (fbuf t) (vram t) (c * fw t + j) ((r + 1) * fh t + i) = cell_pixel (font t) (cs (r + 1) c) i j"
      using assms(3) True b unfolding shown_def by blast
    ultimately show ?thesis using True unfolding * by (simp add: add.commute add.left_commute)
  next
    case False
    then have "th t = r + 1" using b(1) by simp
    then have "\<not> r * fh t + i + fh t < lines (fbuf t)" using assms(2) by (simp add: whole_rows_def)
    then show ?thesis using False unfolding * by (simp add: cell_pixel_def)
  qed
qed

lemma shown_putchar:
  assumes "term_fits t" and "shown t cs" and "unat px < tw t" and "unat py < th t"
  shows "\<exists>m. putchar_at ch px py t = Inr (t\<lparr>vram := m\<rparr>) \<and> only_draws t (t\<lparr>vram := m\<rparr>) \<and>
    shown (t\<lparr>vram := m\<rparr>) (\<lambda>r c. if r = unat py \<and> c = unat px then Glyph ch (fgcolor t) (bgcolor t) else cs r c)"
proof -
  from putchar_at_painted [OF assms(1,3,4), of ch] obtain m where
    m: "putchar_at ch px py t = Inr (t\<lparr>vram := m\<rparr>)" and
    p: "painted (fbuf t) (vram t) m
      (\<lambda>x y. if unat py * fh t \<le> y \<and> y < unat py * fh t + fh t
               \<and> unat px * fw t \<le> x \<and> x < unat px * fw t + fw t
             then if glyph_bit (font t) ch (y - unat py * fh t) (x - unat px * fw t) then fgcolor t else bgcolor t
             else screen (fbuf t) (vram t) x y)"
    by blast
  have "screen (fbuf t) m (c * fw t + j) (r * fh t + i)
      = cell_pixel (font t) (if r = unat py \<and> c = unat px then Glyph ch (fgcolor t) (bgcolor t) else cs r c) i j"
    if b: "r < th t" "c < tw t" "i < fh t" "j < fw t" for r c i j
  proof -
    note on = cell_on_screen [OF assms(1) b(2,4)] line_on_screen [OF assms(1) b(1,3)]
    have old: "screen (fbuf t) (vram t) (c * fw t + j) (r * fh t + i) = cell_pixel (font t) (cs r c) i j"
      using assms(2) b unfolding shown_def by blast
    show ?thesis
      using painted_screen [OF p on] cell_index [OF b(3), of "unat py" r] cell_index [OF b(4), of "unat px" c] old
      by (auto simp: cell_pixel_def)
  qed
  then have "shown (t\<lparr>vram := m\<rparr>)
      (\<lambda>r c. if r = unat py \<and> c = unat px then Glyph ch (fgcolor t) (bgcolor t) else cs r c)"
    by (simp add: shown_def)
  moreover have "only_draws t (t\<lparr>vram := m\<rparr>)"
    using p by (simp add: only_draws_def painted_outside)
  ultimately show ?thesis using m by blast
qed

section \<open>Characters\<close>

lemma wrap_displays:
  assumes "term_fits t" and "parser_ok t" and "cmd_state t = READY" and "whole_rows t" and "shown t (cells s)"
    and "unat (cursor_x t) = col s" and "unat (cursor_y t) = row s"
    and "fgcolor t = text_fg s" and "bgcolor t = text_bg s"
    and "row s \<le> th t"
  shows "displays (wrap_cursor t) (ts_wrap (tw t) (th t) s)"
proof -
  define u where "u = (if term_width t \<le> cursor_x t then t\<lparr>cursor_x := 0, cursor_y := cursor_y t + 1\<rparr> else t)"
  define v where "v = (if tw t \<le> col s then s\<lparr>col := 0, row := row s + 1\<rparr> else s)"
  have inv: "term_inv (wrap_cursor t)" and d: "only_draws t (wrap_cursor t)"
    using wrap_cursor_inv [OF assms(1,2)] by simp_all
  have "unat (cursor_y t + 1) = unat (cursor_y t) + 1"
    using assms(7,10) fits_small(2) [OF assms(1)] by (subst unat_add_lt) simp_all
  then have uv: "unat (cursor_x u) = col v" "unat (cursor_y u) = row v" "shown u (cells v)"
    "fgcolor u = text_fg v" "bgcolor u = text_bg v" "cmd_state u = READY" "whole_rows u" "term_fits u"
    "term_height u = term_height t" "term_width u = term_width t"
    using assms by (auto simp: u_def v_def word_le_nat_alt shown_def whole_rows_def term_fits_def)
  have eq: "wrap_cursor t = (if term_height t \<le> cursor_y u then (scroll u)\<lparr>cursor_y := term_height t - 1\<rparr> else u)"
    using uv(9) by (simp add: wrap_cursor_def Let_def u_def)
  have eq': "ts_wrap (tw t) (th t) s = (if th t \<le> row v then ts_scroll (th t) v else v)"
    by (simp add: ts_wrap_def Let_def v_def)
  have last: "unat (term_height t - 1) = th t - 1"
    using fits_pos(4) [OF assms(1)] by (simp add: unat_sub word_le_nat_alt)
  have sc: "shown (scroll u) (\<lambda>r c. if r + 1 < th t then cells v (r + 1) c else Blank (text_bg v))"
    using shown_scroll [OF uv(8,7,3)] unfolding uv(5,9) .
  show ?thesis
  proof (cases "th t \<le> row v")
    case True
    then have c: "term_height t \<le> cursor_y u" using uv(2) by (simp add: word_le_nat_alt)
    show ?thesis
      using inv uv sc last c True unfolding displays_def eq eq'
      by (simp add: ts_scroll_def shown_def whole_rows_def)
  next
    case False
    then have "\<not> term_height t \<le> cursor_y u" using uv(2) by (simp add: word_le_nat_alt)
    then show ?thesis using inv uv False unfolding displays_def eq eq' by simp
  qed
qed

text \<open>An ordinary byte in the state \<open>READY\<close>.\<close>

lemma parse_ready:
  assumes "displays t s" and "c \<noteq> 27"
  shows "parse_cmd_byte c t = Inr (False, reset_cmd t)" and "displays (reset_cmd t) s"
  using assms by (auto simp: displays_def parse_cmd_byte_def reset_cmd_def shown_def whole_rows_def
      term_inv_def term_fits_def parser_ok_def)

lemma tab_stop: "(x + 3) div 4 * 4 = x + (if x mod 4 = 0 then 0 else 4 - x mod 4)" for x :: nat
  by presburger

lemma term_char_refines:
  assumes "displays t s" and "c \<noteq> 27"
  shows "\<exists>t'. term_putchar c t = Inr t' \<and> displays t' (ts_char (tw t) (th t) c s) \<and> only_draws t t'"
proof -
  define u where "u = reset_cmd t"
  have u: "displays u s" and d: "only_draws t u"
    using parse_ready [OF assms] by (simp_all add: u_def only_draws_def reset_cmd_def)
  have sz: "tw u = tw t" "th u = th t" using d by (simp_all add: only_draws_def)
  have put: "term_putchar c t =
    (if c = 0 then Inr u
     else if c = 10 then Inr (wrap_cursor (u\<lparr>cursor_x := 0, cursor_y := cursor_y u + 1\<rparr>))
     else if c = 9 then Inr (wrap_cursor (u\<lparr>cursor_x := cursor_x u
         + (if cursor_x u mod 4 = 0 then 0 else 4 - cursor_x u mod 4)\<rparr>))
     else and_then (putchar_at c (cursor_x u) (cursor_y u) u) (\<lambda>t.
         Inr (wrap_cursor (t\<lparr>cursor_x := cursor_x t + 1\<rparr>))))"
    using parse_ready(1) [OF assms] by (simp add: term_putchar_def u_def)
  have fits: "term_fits u" and pok: "parser_ok u" and ready: "cmd_state u = READY" and rows: "whole_rows u"
    and sh: "shown u (cells s)" and cur: "unat (cursor_x u) = col s" "unat (cursor_y u) = row s"
    and colr: "fgcolor u = text_fg s" "bgcolor u = text_bg s"
    and lt: "col s < tw u" "row s < th u"
    using u by (auto simp: displays_def term_inv_def word_less_nat_alt)
  note small = fits_small(1,2) [OF fits]
  have wrap: "displays (wrap_cursor u') (ts_wrap (tw t) (th t) s') \<and> only_draws t (wrap_cursor u')"
    if "only_draws u u'" "parser_ok u'" "cmd_state u' = READY" "shown u' (cells s')"
      "unat (cursor_x u') = col s'" "unat (cursor_y u') = row s'"
      "fgcolor u' = text_fg s'" "bgcolor u' = text_bg s'" "row s' \<le> th u" for u' s'
  proof -
    have f: "term_fits u'" using fits only_draws_fits [OF that(1)] by simp
    have "tw u' = tw t" "th u' = th t" "whole_rows u'"
      using that(1) sz rows by (simp_all add: only_draws_def whole_rows_def)
    then show ?thesis
      using wrap_displays [OF f that(2,3) _ that(4-8)] that(9) sz wrap_cursor_inv(2) [OF f that(2)]
        only_draws_trans [OF only_draws_trans [OF d that(1)]] by auto
  qed
  consider "c = 0" | "c = 10" | "c = 9" | "c \<noteq> 0" "c \<noteq> 10" "c \<noteq> 9" by blast
  then show ?thesis
  proof cases
    case 1
    then show ?thesis using u d put by (simp add: ts_char_def)
  next
    case 2
    have "unat (cursor_y u + 1) = row s + 1" using cur lt small by (subst unat_add_lt) simp_all
    then show ?thesis
      using 2 put wrap [of "u\<lparr>cursor_x := 0, cursor_y := cursor_y u + 1\<rparr>" "s\<lparr>col := 0, row := row s + 1\<rparr>"]
        pok ready sh colr lt
      by (simp add: ts_char_def only_draws_def parser_ok_def shown_def)
  next
    case 3
    let ?d = "if cursor_x u mod 4 = 0 then 0 else 4 - cursor_x u mod 4 :: u32"
    have m: "unat (cursor_x u mod 4) = col s mod 4" using cur by (simp add: unat_mod)
    have z: "cursor_x u mod 4 = 0 \<longleftrightarrow> col s mod 4 = 0" by (simp only: unat_eq_0 [symmetric] m)
    have "unat (4 - cursor_x u mod 4) = 4 - col s mod 4"
      using m by (subst unat_sub) (simp_all add: word_le_nat_alt)
    then have "unat ?d = (if col s mod 4 = 0 then 0 else 4 - col s mod 4)" unfolding z by simp
    then have "unat (cursor_x u + ?d) = (col s + 3) div 4 * 4"
      unfolding tab_stop using cur lt small by (subst unat_add_lt) (simp_all split: if_splits)
    then show ?thesis
      using 3 put wrap [of "u\<lparr>cursor_x := cursor_x u + ?d\<rparr>" "s\<lparr>col := (col s + 3) div 4 * 4\<rparr>"]
        pok ready sh colr lt cur
      by (simp add: ts_char_def only_draws_def parser_ok_def shown_def)
  next
    case 4
    obtain m where m: "putchar_at c (cursor_x u) (cursor_y u) u = Inr (u\<lparr>vram := m\<rparr>)"
        "only_draws u (u\<lparr>vram := m\<rparr>)"
        "shown (u\<lparr>vram := m\<rparr>) (\<lambda>r k. if r = row s \<and> k = col s then Glyph c (text_fg s) (text_bg s) else cells s r k)"
      using shown_putchar [OF fits sh, of "cursor_x u" "cursor_y u" c, unfolded cur colr, OF lt] by blast
    have "unat (cursor_x u + 1) = col s + 1" using cur lt small by (subst unat_add_lt) simp_all
    then show ?thesis
      using 4 put wrap [of "u\<lparr>vram := m, cursor_x := cursor_x u + 1\<rparr>"
          "s\<lparr>cells := (\<lambda>r k. if r = row s \<and> k = col s then Glyph c (text_fg s) (text_bg s) else cells s r k),
             col := col s + 1\<rparr>"]
        pok ready m colr lt cur
      by (simp add: ts_char_def only_draws_def parser_ok_def shown_def)
  qed
qed

section \<open>Escape sequences\<close>

lemma digit_char_value:
  assumes "d < 10"
  shows "uint (digit_char d) = 48 + int d" and "48 \<le> digit_char d" and "digit_char d \<le> 57"
    and "digit_char d \<noteq> 59" and "digit_char d \<noteq> 109"
proof -
  have "\<forall>d\<in>set [0..<10]. uint (digit_char d) = 48 + int d \<and> 48 \<le> digit_char d \<and> digit_char d \<le> 57
      \<and> digit_char d \<noteq> 59 \<and> digit_char d \<noteq> 109"
    by (simp add: upt_rec digit_char_def lookup_digits_def bytes_def)
  then show "uint (digit_char d) = 48 + int d" "48 \<le> digit_char d" "digit_char d \<le> 57"
    "digit_char d \<noteq> 59" "digit_char d \<noteq> 109"
    using assms by simp_all
qed

lemma in_range_update:
  assumes "\<forall>p\<in>set ps. 0 \<le> p \<and> p < (2 :: int) ^ 31" and "0 \<le> v" and "v < 2 ^ 31"
  shows "\<forall>p\<in>set (ps[k := v]). 0 \<le> p \<and> p < 2 ^ 31"
  using assms set_update_subset_insert [of ps k v] by blast

lemma foldl_digits_ge: "a \<le> foldl (\<lambda>a d. a * 10 + d) a ds" for a :: nat
proof (induction ds arbitrary: a)
  case (Cons d ds)
  have "a \<le> a * 10 + d" by simp
  also have "\<dots> \<le> foldl (\<lambda>a d. a * 10 + d) (a * 10 + d) ds" by (rule Cons.IH)
  finally show ?case by simp
qed simp

lemma put_digits_step:
  assumes "parser_ok t" and "cmd_state t = PARAM_WAIT" and "cparamcount t = Suc k"
    and "cparams t ! k = int a" and "\<forall>d\<in>set ds. d < 10" and "foldl (\<lambda>a d. a * 10 + d) a ds < 2 ^ 31"
  shows "for_each term_putchar (map digit_char ds) t
    = Inr (t\<lparr>cparams := (cparams t)[k := int (foldl (\<lambda>a d. a * 10 + d) a ds)]\<rparr>)"
  using assms
proof (induction ds arbitrary: a t)
  case Nil
  then show ?case by (metis (no_types) for_each.simps(1) foldl_Nil list.map(1) list_update_id terminal.surjective
      terminal.update_convs(11))
next
  case (Cons d ds)
  let ?v = "a * 10 + d"
  have d: "d < 10" using Cons.prems(5) by simp
  have v: "?v < 2 ^ 31" using foldl_digits_ge [of ?v ds] Cons.prems(6) by simp
  have k: "k < length (cparams t)" using Cons.prems(1,3) by (simp add: parser_ok_def)
  let ?t = "t\<lparr>cparams := (cparams t)[k := int ?v]\<rparr>"
  have "add_digit (digit_char d) t = Inr ?t"
    using add_digit_inr [OF Cons.prems(1,2) digit_char_value(2,3) [OF d]] Cons.prems(3,4) v
    by (simp add: Let_def digit_char_value(1) [OF d] add.commute mult.commute)
  then have "term_putchar (digit_char d) t = Inr ?t"
    using Cons.prems(2) digit_char_value(2-5) [OF d] by (simp add: term_putchar_def parse_cmd_byte_def)
  moreover have "parser_ok ?t"
    using Cons.prems(1) v set_update_subset_insert [of "cparams t" k "int ?v"] by (auto simp: parser_ok_def)
  then have "for_each term_putchar (map digit_char ds) ?t
      = Inr (?t\<lparr>cparams := (cparams ?t)[k := int (foldl (\<lambda>a d. a * 10 + d) ?v ds)]\<rparr>)"
    using Cons.prems k by (intro Cons.IH) simp_all
  ultimately show ?case by simp
qed

lemma put_decimal:
  assumes "parser_ok t" and "cmd_state t = PARAM_WAIT" and "cparamcount t = Suc k"
    and "cparams t ! k = 0" and "p < 2 ^ 31"
  shows "for_each term_putchar (decimal p) t = Inr (t\<lparr>cparams := (cparams t)[k := int p]\<rparr>)"
proof -
  have "foldl (\<lambda>a d. a * 10 + d) 0 (numeral 10 p) = p"
    using number_of_numeral [of 10 p] by (simp add: number_of_def)
  then show ?thesis
    using put_digits_step [OF assms(1-3), of 0 "numeral 10 p"] assms(4,5) numeral_digits [of 10 _ p]
    by (simp add: decimal_def)
qed

lemma put_params:
  assumes "parser_ok t" and "cmd_state t = PARAM_WAIT" and "cparamcount t = Suc k"
    and "cparams t ! k = 0" and "ps \<noteq> []" and "k + length ps \<le> 10" and "\<forall>p\<in>set ps. p < 2 ^ 31"
  shows "for_each term_putchar (params ps) t
    = Inr (t\<lparr>cparams := take k (cparams t) @ map int ps @ drop (k + length ps) (cparams t),
             cparamcount := k + length ps\<rparr>)"
  using assms
proof (induction ps arbitrary: t k rule: params.induct)
  case (2 p)
  have k: "k < length (cparams t)" using "2.prems"(1,3) by (simp add: parser_ok_def)
  then have "(cparams t)[k := int p] = take k (cparams t) @ int p # drop (Suc k) (cparams t)"
    by (rule upd_conv_take_nth_drop)
  then show ?case using put_decimal [OF "2.prems"(1-4)] "2.prems"(3,7) by simp
next
  case (3 p q ps)
  let ?u = "t\<lparr>cparams := (cparams t)[k := int p]\<rparr>"
  let ?v = "?u\<lparr>cparams := (cparams ?u)[Suc k := 0], cparamcount := Suc (Suc k)\<rparr>"
  have p: "p < 2 ^ 31" and k: "Suc k < 10" using "3.prems"(6,7) by simp_all
  have len: "length (cparams t) = 10" using "3.prems"(1) by (simp add: parser_ok_def)
  have "for_each term_putchar (decimal p) t = Inr ?u" using put_decimal [OF "3.prems"(1-4) p] .
  moreover have "term_putchar 59 ?u = Inr ?v"
    using "3.prems"(2,3) k len by (simp add: term_putchar_def parse_cmd_byte_def add_param_def)
  moreover have "parser_ok ?v"
    using "3.prems"(1) p k
      in_range_update [OF in_range_update [of "cparams t" "int p" k], of 0 "Suc k"] by (simp add: parser_ok_def)
  then have "for_each term_putchar (params (q # ps)) ?v
      = Inr (?v\<lparr>cparams := take (Suc k) (cparams ?v) @ map int (q # ps) @ drop (Suc k + length (q # ps)) (cparams ?v),
               cparamcount := Suc k + length (q # ps)\<rparr>)"
    using "3.prems" k len by (intro "3.IH") simp_all
  moreover have "take (Suc k) (cparams ?v) = take k (cparams t) @ [int p]"
    using k len by (simp add: take_Suc_conv_app_nth)
  moreover have "drop (Suc k + length (q # ps)) (cparams ?v) = drop (k + length (p # q # ps)) (cparams t)"
    by simp
  ultimately show ?case by (simp add: for_each_append)
qed simp

lemma select_refines:
  assumes "displays t s" and "valid_item (Select ps)"
  shows "\<exists>t'. for_each term_putchar (encode (Select ps)) t = Inr t' \<and> displays t' (ts_select ps s) \<and> only_draws t t'"
proof -
  have ps: "ps \<noteq> []" "length ps \<le> 10" "\<forall>p\<in>set ps. p < 2 ^ 31" using assms(2) by (simp_all add: valid_item_def)
  have inv: "term_inv t" and ready: "cmd_state t = READY" using assms(1) by (simp_all add: displays_def)
  have len: "length (cparams t) = 10" using inv by (simp add: term_inv_def parser_ok_def)
  let ?u = "t\<lparr>cparamcount := Suc 0, cparams := (cparams t)[0 := 0], cmd_state := PARAM_WAIT\<rparr>"
  let ?v = "?u\<lparr>cparams := map int ps @ drop (length ps) (cparams ?u), cparamcount := length ps\<rparr>"
  have pok: "parser_ok ?u"
    using inv set_update_subset_insert [of "cparams t" 0 0] by (auto simp: term_inv_def parser_ok_def)
  have "for_each term_putchar (params ps) ?u = Inr ?v"
    using put_params [OF pok, of 0 ps] ps len by simp
  moreover have "for_each term_putchar [27, 91] t = Inr ?u"
    using ready by (simp add: term_putchar_def parse_cmd_byte_def)
  moreover have "term_putchar 109 ?v = Inr (reset_cmd (select_colors ?v))"
    by (simp add: term_putchar_def parse_cmd_byte_def)
  moreover have "encode (Select ps) = [27, 91] @ params ps @ [109]" by (simp add: encode_def)
  ultimately have put: "for_each term_putchar (encode (Select ps)) t = Inr (reset_cmd (select_colors ?v))"
    by (simp only: for_each_append and_then_simps for_each.simps)
  have p0: "cparams ?v ! 0 = int (ps ! 0)" using ps(1) by (simp add: nth_append)
  have p1: "cparamcount ?v = 2 \<and> cparams ?v ! 1 = 1 \<longleftrightarrow> length ps = 2 \<and> ps ! 1 = 1"
    by (auto simp: nth_append)
  have "parser_ok (reset_cmd (select_colors ?v))"
    using ps len pok set_drop_subset [of "length ps" "(cparams t)[0 := 0]"]
    by (auto simp: parser_ok_def reset_cmd_def)
  moreover have "fgcolor (select_colors ?v) = text_fg (ts_select ps s) \<and> bgcolor (select_colors ?v) = text_bg (ts_select ps s)"
  proof -
    have n: "nat (int (ps ! 0) - 30) = ps ! 0 - 30" "nat (int (ps ! 0) - 40) = ps ! 0 - 40"
      "nat (int (ps ! 0) - 22) = ps ! 0 - 22" "nat (int (ps ! 0) - 32) = ps ! 0 - 32"
      by linarith+
    have ifs: "(int (ps ! 0) = 0) = (ps ! 0 = 0)" "(30 \<le> int (ps ! 0) \<and> int (ps ! 0) \<le> 37) = (30 \<le> ps ! 0 \<and> ps ! 0 \<le> 37)"
      "(40 \<le> int (ps ! 0) \<and> int (ps ! 0) \<le> 47) = (40 \<le> ps ! 0 \<and> ps ! 0 \<le> 47)" by linarith+
    show ?thesis
      using assms(1) unfolding select_colors_def ts_select_def Let_def p0 p1 ifs atLeastAtMost_iff displays_def
      by (auto simp: n term_setfgcolor_def term_setbgcolor_def)
  qed
  moreover have "col (ts_select ps s) = col s" "row (ts_select ps s) = row s" "cells (ts_select ps s) = cells s"
    by (simp_all add: ts_select_def Let_def)
  moreover have d: "only_draws t (reset_cmd (select_colors ?v))" by (simp add: only_draws_def reset_cmd_def)
  ultimately have "displays (reset_cmd (select_colors ?v)) (ts_select ps s)"
    using assms(1) only_draws_fits [OF d]
    by (simp add: displays_def reset_cmd_def term_inv_def whole_rows_def shown_def)
  then show ?thesis using put d by blast
qed

end
