(* ===== verification/TermProps.thy ===== *)
theory TermProps
  imports TermText
begin

text \<open>
  The properties of the terminal: it keeps its invariant and writes only in the back buffer, it fails
  exactly on escape sequences that are too long, it draws the abstract text screen, a flush shows that
  screen on the device, and the kernel log prints its last bytes on it.
\<close>

section \<open>Any byte\<close>

lemma term_putchar_inv:
  assumes "term_inv t" and "term_putchar c t = Inr t'"
  shows "term_inv t' \<and> only_draws t t'"
proof -
  obtain b u where u: "parse_cmd_byte c t = Inr (b, u)" and
    t': "(if b then Inr u
       else if c = 0 then Inr u
       else if c = 10 then Inr (wrap_cursor (u\<lparr>cursor_x := 0, cursor_y := cursor_y u + 1\<rparr>))
       else if c = 9 then
         Inr (wrap_cursor (u\<lparr>cursor_x := cursor_x u
           + (if cursor_x u mod 4 = 0 then 0 else 4 - cursor_x u mod 4)\<rparr>))
       else and_then (putchar_at c (cursor_x u) (cursor_y u) u) (\<lambda>t.
         Inr (wrap_cursor (t\<lparr>cursor_x := cursor_x t + 1\<rparr>)))) = Inr t'"
    using assms(2) unfolding term_putchar_def by (elim and_then_InrE) auto
  note p = parse_safe [OF assms(1) u]
  have wrap: "term_inv (wrap_cursor v) \<and> only_draws t (wrap_cursor v)"
    if "only_draws u v" and "parser_ok v" for v
  proof -
    have "term_fits v" using p(1) that(1) only_draws_fits by (simp add: term_inv_def)
    from wrap_cursor_inv [OF this that(2)] show ?thesis
      using only_draws_trans [OF only_draws_trans [OF p(2) that(1)]] by blast
  qed
  have u': "term_fits u" "cursor_x u < term_width u" "cursor_y u < term_height u" "parser_ok u"
    using p(1) by (simp_all add: term_inv_def)
  obtain m where m: "putchar_at c (cursor_x u) (cursor_y u) u = Inr (u\<lparr>vram := m\<rparr>)" "only_draws u (u\<lparr>vram := m\<rparr>)"
    using putchar_at_draws [OF u'(1-3)] by blast
  show ?thesis
    using t' p m wrap [of "u\<lparr>cursor_x := 0, cursor_y := cursor_y u + 1\<rparr>"]
      wrap [of "u\<lparr>cursor_x := cursor_x u + (if cursor_x u mod 4 = 0 then 0 else 4 - cursor_x u mod 4)\<rparr>"]
      wrap [of "u\<lparr>vram := m, cursor_x := cursor_x u + 1\<rparr>"] u'(4)
    by (auto simp: only_draws_def parser_ok_def split: if_splits)
qed

lemma term_putchar_fault:
  assumes "term_inv t"
  shows "term_putchar c t = Inl e \<longleftrightarrow> parse_cmd_byte c t = Inl e"
proof (cases "parse_cmd_byte c t")
  case (Inr r)
  obtain b u where r: "r = (b, u)" by force
  have "term_inv u" using parse_safe [OF assms] Inr r by blast
  then obtain m where "putchar_at c (cursor_x u) (cursor_y u) u = Inr (u\<lparr>vram := m\<rparr>)"
    using putchar_at_draws [of u c] by (auto simp: term_inv_def)
  then show ?thesis using Inr r by (simp add: term_putchar_def)
qed (simp add: term_putchar_def)

section \<open>A concrete terminal\<close>

text \<open>Four columns and three rows of four by two pixels.\<close>

definition small_font :: psfont where
  "small_font = \<lparr>psf_magic = 0x864ab572, psf_version = 0, psf_headersize = 32, psf_flags = 0,
     psf_numglyph = 256, glyph_size = 2, font_height = 2, font_width = 4, font_data = replicate 512 0x90\<rparr>"

definition small_fb :: fb_state where
  "small_fb = \<lparr>addr = 0x100000, width = 16, height = 6, pitch = 64, backbuffer = 0x200000\<rparr>"

definition small_term :: terminal where
  "small_term = \<lparr>font = small_font, fbuf = small_fb, vram = (\<lambda>a. 0), fgcolor = DEFAULT_FGCOLOR,
     bgcolor = DEFAULT_BGCOLOR, cursor_x = 0, cursor_y = 0, term_width = 4, term_height = 3,
     cmd_state = READY, cparams = replicate 10 0, cparamcount = 0\<rparr>"

definition small_screen :: text_screen where
  "small_screen = \<lparr>cells = (\<lambda>r c. Blank DEFAULT_BGCOLOR), col = 0, row = 0,
     text_fg = DEFAULT_FGCOLOR, text_bg = DEFAULT_BGCOLOR\<rparr>"

lemma small_dims:
  "term_width small_term = 4" "term_height small_term = 3" "font_width small_font = 4" "font_height small_font = 2"
  "fbuf small_term = small_fb"
  "font small_term = small_font" "cells small_screen = (\<lambda>r c. Blank DEFAULT_BGCOLOR)"
  by (simp_all add: small_term_def small_font_def small_screen_def)

lemma small_fits: "term_fits small_term"
  by (simp add: term_fits_def small_term_def small_font_def small_fb_def fb_ok_def font_ok_def word_le_nat_alt)

lemma small_inv: "term_inv small_term"
  using small_fits by (simp add: term_inv_def parser_ok_def small_term_def)

lemma small_black: "screen f (\<lambda>a. 0) x y = 0"
  by (simp add: screen_def fb_getpixel_def eval_nat_numeral)

lemma small_displays: "displays small_term small_screen"
  using small_inv by (auto simp: displays_def whole_rows_def shown_def small_term_def small_screen_def
      small_font_def small_fb_def lines_def small_black cell_pixel_def DEFAULT_BGCOLOR_def)

section \<open>Properties\<close>

text \<open>C29: every byte is handled, but for a semicolon behind the tenth parameter of an escape sequence, which writes behind
  the array, and a digit with which a parameter overflows: the terminal returns, the cursor is on the screen and the parser
  inside its array again, and nothing outside the back buffer has been written.\<close>

theorem term_putchar_safe:
  assumes "term_inv t"
    and "\<not> (cmd_state t = PARAM_WAIT \<and> (c = 59 \<and> cparamcount t = 10
        \<or> 48 \<le> c \<and> c \<le> 57 \<and> 2 ^ 31 \<le> cparams t ! (cparamcount t - 1) * 10 + (uint c - 48)))"
  shows "\<exists>t'. term_putchar c t = Inr t' \<and> term_inv t' \<and> cursor_x t' < term_width t' \<and> cursor_y t' < term_height t'
    \<and> (\<forall>a. \<not> in_backbuffer (fbuf t) a \<longrightarrow> vram t' a = vram t a)"
proof -
  have "term_putchar c t \<noteq> Inl e" for e
    unfolding term_putchar_fault [OF assms(1)] parse_faults [OF assms(1)] using assms(2) by blast
  then obtain t' where t': "term_putchar c t = Inr t'" by (cases "term_putchar c t") auto
  from term_putchar_inv [OF assms(1) t'] show ?thesis using t' by (auto simp: term_inv_def only_draws_def)
qed

theorem term_putchar_safe_witness:
  "\<exists>t'. term_putchar 59 (small_term\<lparr>cmd_state := PARAM_WAIT, cparamcount := 9\<rparr>) = Inr t' \<and> term_inv t'"
proof -
  let ?t = "small_term\<lparr>cmd_state := PARAM_WAIT, cparamcount := 9\<rparr>"
  have "term_inv ?t"
    using small_inv only_draws_fits [of small_term ?t] by (simp add: term_inv_def parser_ok_def only_draws_def)
  from term_putchar_safe [OF this, of 59] show ?thesis by auto
qed

text \<open>C30: the terminal faults on two inputs only: a semicolon when ten parameters are already there, which
  writes behind the array, and a digit that makes a parameter overflow an \<open>int\<close>.\<close>

theorem term_putchar_faults:
  assumes "term_inv t"
  shows "term_putchar c t = Inl e \<longleftrightarrow> cmd_state t = PARAM_WAIT \<and>
    (c = 59 \<and> cparamcount t = 10 \<and> e = Out_Of_Bounds \<or>
     48 \<le> c \<and> c \<le> 57 \<and> 2 ^ 31 \<le> cparams t ! (cparamcount t - 1) * 10 + (uint c - 48)
       \<and> e = Undefined_Behaviour)"
  unfolding term_putchar_fault [OF assms] by (rule parse_faults [OF assms])

definition full_term :: terminal where
  "full_term = small_term\<lparr>cmd_state := PARAM_WAIT, cparamcount := 10\<rparr>"

theorem term_putchar_faults_witness: "term_putchar 59 full_term = Inl Out_Of_Bounds"
proof -
  have "term_inv full_term"
    using small_inv only_draws_fits [of small_term full_term]
    by (simp add: term_inv_def full_term_def parser_ok_def only_draws_def)
  then show ?thesis using term_putchar_faults [of full_term 59 Out_Of_Bounds] by (simp add: full_term_def)
qed

text \<open>Items, and sequences of them.\<close>

lemma clear_refines:
  assumes "displays t s"
  shows "\<exists>t'. for_each term_putchar (encode Clear) t = Inr t' \<and> displays t' (ts_clear s) \<and> only_draws t t'"
proof -
  let ?u = "t\<lparr>cmd_state := CMD_WAIT\<rparr>"
  let ?v = "reset_cmd (term_clear ?u)"
  have inv: "term_inv t" and ready: "cmd_state t = READY" using assms by (simp_all add: displays_def)
  have fits: "term_fits ?u" using inv only_draws_fits [of t ?u] by (simp add: term_inv_def only_draws_def)
  have d: "only_draws t ?v"
    using term_clear_draws [OF fits] by (simp add: only_draws_def reset_cmd_def)
  have "shown (term_clear ?u) (\<lambda>r c. Blank (bgcolor t))" using shown_clear [OF fits] by simp
  moreover have "term_inv ?v"
    using only_draws_fits [OF d] inv fits_pos(3,4) [of t]
    by (simp add: term_inv_def reset_cmd_def parser_ok_def word_gt_0 unat_gt_0)
  ultimately have "displays ?v (ts_clear s)"
    using assms by (simp add: displays_def ts_clear_def shown_def whole_rows_def reset_cmd_def)
  moreover have "for_each term_putchar (encode Clear) t = Inr ?v"
    using ready by (simp add: encode_def term_putchar_def parse_cmd_byte_def)
  ultimately show ?thesis using d by blast
qed

lemma item_refines:
  assumes "displays t s" and "valid_item x"
  shows "\<exists>t'. for_each term_putchar (encode x) t = Inr t' \<and> displays t' (ts_item (tw t) (th t) x s) \<and> only_draws t t'"
proof (cases x)
  case (Char c)
  then show ?thesis using term_char_refines [OF assms(1), of c] assms(2)
    by (auto simp: encode_def valid_item_def ts_item_def)
qed (use assms select_refines clear_refines in \<open>auto simp: ts_item_def\<close>)

lemma items_refine:
  assumes "displays t s" and "\<forall>x\<in>set xs. valid_item x"
  shows "\<exists>t'. for_each term_putchar (concat (map encode xs)) t = Inr t' \<and>
    displays t' (fold (ts_item (tw t) (th t)) xs s) \<and> only_draws t t'"
  using assms
proof (induction xs arbitrary: t s)
  case Nil
  then show ?case using only_draws_refl by simp
next
  case (Cons x xs)
  obtain u where u: "for_each term_putchar (encode x) t = Inr u"
      "displays u (ts_item (tw t) (th t) x s)" "only_draws t u"
    using item_refines [OF Cons.prems(1), of x] Cons.prems(2) by auto
  have sz: "tw u = tw t" "th u = th t" using u(3) by (simp_all add: only_draws_def)
  from Cons.IH [OF u(2)] Cons.prems(2) obtain v where
    "for_each term_putchar (concat (map encode xs)) u = Inr v"
    "displays v (fold (ts_item (tw t) (th t)) xs (ts_item (tw t) (th t) x s))" "only_draws u v"
    unfolding sz by auto
  then show ?case using u(1) only_draws_trans [OF u(3)] by (auto simp: for_each_append)
qed

text \<open>C28: the terminal refines the text screen, on a framebuffer whose height is a whole number of text rows: the bytes of
  any characters, colour selections and clears, escape sequences included, change the picture as the abstract screen says.\<close>

theorem term_draws_text:
  assumes "displays t s" and "\<forall>x\<in>set xs. valid_item x"
  shows "\<exists>t'. for_each term_putchar (concat (map encode xs)) t = Inr t' \<and>
    displays t' (fold (ts_item (tw t) (th t)) xs s)"
  using items_refine [OF assms] by blast

theorem term_draws_text_witness:
  "\<exists>t'. for_each term_putchar [65, 27, 91, 51, 49, 59, 49, 109, 66, 10, 67] small_term = Inr t' \<and>
    displays t' (fold (ts_item 4 3) [Char 65, Select [31, 1], Char 66, Char 10, Char 67] small_screen)"
proof -
  have bytes: "concat (map encode [Char 65, Select [31, 1], Char 66, Char 10, Char 67])
      = [65, 27, 91, 51, 49, 59, 49, 109, 66, 10, 67]"
    by (simp add: encode_def decimal_def numeral.simps [of 10 31] numeral.simps [of 10 3]
        numeral.simps [of 10 "Suc 0"] digit_char_def lookup_digits_def bytes_def)
  from term_draws_text [OF small_displays, of "[Char 65, Select [31, 1], Char 66, Char 10, Char 67]"]
  show ?thesis unfolding bytes by (simp add: valid_item_def small_dims)
qed

section \<open>The device\<close>

text \<open>The two buffers do not overlap.\<close>

definition buffers_apart :: "fb_state \<Rightarrow> bool" where
  "buffers_apart f \<longleftrightarrow>
     (\<forall>a. in_backbuffer f a \<longrightarrow> \<not> in_range (addr f) (unat (pitch f * height f)) a)"

lemma flush_screen:
  assumes "fb_ok f" and "buffers_apart f" and "x < columns f" and "y < lines f"
  shows "screen f (fb_swap_buffers f m) x y = screen f m x y"
    and "device f (fb_swap_buffers f m) x y = screen f m x y"
proof -
  let ?n = "unat (pitch f * height f)"
  have n: "unat (ucast (pitch f * height f) :: u64) = ?n" by (metis unat_ucast_up32)
  have "load_le 4 (fb_swap_buffers f m) (backbuffer f + of_nat (pixel_offset f x y))
      = load_le 4 m (backbuffer f + of_nat (pixel_offset f x y))"
  proof (rule load_le_cong)
    fix k :: nat assume "k < 4"
    then have "pixel_offset f x y + k < ?n"
      using pixel_in_buffer [OF assms(1,3,4)] by (simp add: buffer_size [OF assms(1)])
    then have "in_backbuffer f (backbuffer f + of_nat (pixel_offset f x y + k))"
      unfolding in_backbuffer_def by (rule in_range_offset)
    then have "\<not> in_range (addr f) ?n (backbuffer f + of_nat (pixel_offset f x y + k))"
      using assms(2) by (simp add: buffers_apart_def)
    then show "fb_swap_buffers f m (backbuffer f + of_nat (pixel_offset f x y) + of_nat k)
        = m (backbuffer f + of_nat (pixel_offset f x y) + of_nat k)"
      using memcpy_frame n by (simp add: fb_swap_buffers_def add.assoc)
  qed
  then show "screen f (fb_swap_buffers f m) x y = screen f m x y"
    by (simp add: screen_def fb_getpixel_def pixel_addr_offset [OF assms(1,3,4)])
  have "copy_safe (backbuffer f) (addr f) ?n"
    unfolding copy_safe_def
  proof (intro allI impI)
    fix i j assume "i < ?n" "j < i"
    then have "in_backbuffer f (backbuffer f + of_nat i)" "in_range (addr f) ?n (addr f + of_nat j)"
      unfolding in_backbuffer_def by (simp_all add: in_range_offset)
    then show "backbuffer f + of_nat i \<noteq> addr f + of_nat j"
      using assms(2) by (auto simp: buffers_apart_def)
  qed
  then show "device f (fb_swap_buffers f m) x y = screen f m x y"
    using swap_shows assms(1,3,4) by blast
qed

text \<open>After a flush the device shows the text screen, pixel by pixel.\<close>

theorem term_flush_shows:
  assumes "displays t s" and "buffers_apart (fbuf t)"
    and "r < th t" and "c < tw t" and "i < fh t" and "j < fw t"
  shows "device (fbuf t) (vram (term_flush t)) (c * fw t + j) (r * fh t + i) = cell_pixel (font t) (cells s r c) i j"
proof -
  have fits: "term_fits t" using assms(1) by (simp add: displays_def term_inv_def)
  show ?thesis
    using assms flush_screen(2) [OF fits_fb_ok [OF fits] assms(2) cell_on_screen [OF fits assms(4,6)]
        line_on_screen [OF fits assms(3,5)]]
    by (auto simp: term_flush_def displays_def shown_def)
qed

theorem term_flush_shows_witness:
  "device small_fb (vram (term_flush small_term)) 5 3 = DEFAULT_BGCOLOR"
proof -
  have "buffers_apart small_fb"
    by (auto simp: buffers_apart_def in_backbuffer_def in_range_unat small_fb_def)
  then show ?thesis
    using term_flush_shows [OF small_displays, of 1 1 1 1] by (simp add: small_dims cell_pixel_def)
qed

end
