(* ===== verification/KlogShow.thy ===== *)
theory KlogShow
  imports TermProps
begin

text \<open>
  The kernel log on the terminal: \<open>klog_show_helper\<close> terminates and prints the last bytes of the log, as
  many as it counted, each with \<open>term_putchar\<close>.
\<close>

section \<open>Counting\<close>

text \<open>How many of the bytes of a list, newest first, are counted before a screen of \<open>n\<close> cells is full.\<close>

fun fitting :: "u32 \<Rightarrow> u32 \<Rightarrow> u32 \<Rightarrow> u8 list \<Rightarrow> nat" where
  "fitting w n used [] = 0"
| "fitting w n used (c # cs) =
     (if used < n
      then Suc (fitting w n
        (used + (if c = 10 then (if used mod w \<noteq> 0 then w - used mod w else 0) else if c \<noteq> 0 then 1 else 0)) cs)
      else 0)"

lemma fitting_le: "fitting w n used cs \<le> length cs"
  by (induction w n used cs rule: fitting.induct) auto

text \<open>The slots of the ring from \<open>i\<close> down, and from \<open>i\<close> up.\<close>

definition slots_down :: "klog \<Rightarrow> u16 \<Rightarrow> nat \<Rightarrow> u8 list" where
  "slots_down k i d = map (\<lambda>j. log_buff k (i - of_nat j)) [0..<d]"

definition slots_up :: "klog \<Rightarrow> u16 \<Rightarrow> nat \<Rightarrow> u8 list" where
  "slots_up k i d = map (\<lambda>j. log_buff k (i + of_nat j)) [0..<d]"

lemma slots_down_Suc: "slots_down k i (Suc d) = log_buff k i # slots_down k (i - 1) d"
  unfolding slots_down_def by (simp only: map_upt_Suc) (simp add: algebra_simps)

lemma slots_up_Suc: "slots_up k i (Suc d) = log_buff k i # slots_up k (i + 1) d"
  unfolding slots_up_def by (simp only: map_upt_Suc) (simp add: algebra_simps)

lemma slots_up_0 [simp]: "slots_up k i 0 = []"
  by (simp add: slots_up_def)

lemma unat_dec:
  assumes "i \<noteq> (s :: u16)"
  shows "unat (i - s) = Suc (unat (i - 1 - s))"
proof -
  have "i - s \<noteq> 0" using assms by simp
  then have "unat (i - s - 1) = unat (i - s) - 1" and "0 < unat (i - s)"
    by (simp_all add: unat_minus_one unat_gt_0)
  moreover have e: "i - 1 - s = i - s - 1" by simp
  ultimately show ?thesis unfolding e by linarith
qed

lemma count_visible_eq:
  assumes "w \<noteq> 0"
  shows "count_visible k w n i used v
    = Some (Inr (v + of_nat (fitting w n used (slots_down k i (unat (i - log_start k))))))"
proof (induction "unat (i - log_start k)" arbitrary: i used v)
  case 0
  then have "i = log_start k" by (simp add: unat_eq_0)
  then show ?case by (subst count_visible.simps) (simp add: slots_down_def)
next
  case (Suc d)
  then have ne: "i \<noteq> log_start k" by auto
  have d: "unat (i - 1 - log_start k) = d" using unat_dec [OF ne] Suc.hyps(2) by simp
  have sl: "slots_down k i (unat (i - log_start k)) = log_buff k i # slots_down k (i - 1) d"
    using Suc.hyps(2) slots_down_Suc [of k i d] by simp
  have ih: "count_visible k w n (i - 1) used v
      = Some (Inr (v + of_nat (fitting w n used (slots_down k (i - 1) d))))" for used v
    using Suc.hyps(1) [of "i - 1" used v] d by simp
  show ?case
    unfolding sl by (subst count_visible.simps) (simp add: ne assms ih add.assoc)
qed

section \<open>Printing\<close>

lemma show_from_eq:
  "show_from k i t = Some (for_each term_putchar (slots_up k i (unat (log_end k - i))) t)"
proof (induction "unat (log_end k - i)" arbitrary: i t)
  case 0
  then have "i = log_end k" by (simp add: unat_eq_0)
  then show ?case by (subst show_from.simps) (simp add: slots_up_def)
next
  case (Suc d)
  then have ne: "log_end k \<noteq> i" by auto
  have e: "log_end k - (i + 1) = log_end k - 1 - i" by simp
  have d: "unat (log_end k - (i + 1)) = d" using unat_dec [OF ne] Suc.hyps(2) unfolding e by linarith
  have ih: "show_from k (i + 1) t = Some (for_each term_putchar (slots_up k (i + 1) d) t)" for t
    using Suc.hyps(1) [of "i + 1" t] d by simp
  have sl: "slots_up k i (unat (log_end k - i)) = log_buff k i # slots_up k (i + 1) d"
    using Suc.hyps(2) slots_up_Suc [of k i d] by simp
  show ?case
    unfolding sl using ne by (subst show_from.simps) (auto simp: ih and_then_def split: sum.split)
qed

lemma lastn_log_bytes:
  assumes "n \<le> length (log_bytes k)"
  shows "lastn n (log_bytes k) = slots_up k (log_end k - of_nat n) n"
proof -
  let ?L = "unat (log_end k - log_start k)"
  have L: "length (log_bytes k) = ?L" by (simp add: log_bytes_def)
  show ?thesis
  proof (rule nth_equalityI)
    fix j assume "j < length (lastn n (log_bytes k))"
    then have j: "j < n" using assms by (simp add: lastn_def)
    have "log_start k + of_nat (?L - n + j) = log_end k - of_nat n + of_nat j"
      using assms L by (simp add: of_nat_diff)
    moreover have "lastn n (log_bytes k) ! j = log_bytes k ! (?L - n + j)"
      using assms L by (simp add: lastn_def)
    moreover have "log_bytes k ! (?L - n + j) = log_buff k (log_start k + of_nat (?L - n + j))"
      using j assms L unfolding log_bytes_def by (subst nth_map) simp_all
    ultimately show "lastn n (log_bytes k) ! j = slots_up k (log_end k - of_nat n) n ! j"
      using j by (simp only: slots_up_def) simp
  qed (use assms in \<open>simp add: lastn_def slots_up_def\<close>)
qed

text \<open>The bytes the display counts: its walk starts at the slot behind the newest byte.\<close>

definition visible_bytes :: "klog \<Rightarrow> terminal \<Rightarrow> nat" where
  "visible_bytes k t = fitting (term_width t) (term_width t * term_height t) 0
     (slots_down k (log_end k) (length (log_bytes k)))"

lemma visible_bytes_le: "visible_bytes k t \<le> length (log_bytes k)"
  using fitting_le [of "term_width t" "term_width t * term_height t" 0
      "slots_down k (log_end k) (length (log_bytes k))"]
  by (simp add: visible_bytes_def slots_down_def)

lemma klog_show_helper_eq:
  assumes "term_width t \<noteq> 0"
  shows "klog_show_helper k t = for_each term_putchar (lastn (visible_bytes k t) (log_bytes k)) t"
proof -
  let ?n = "visible_bytes k t"
  have n: "?n < 65536" using visible_bytes_le [of k t] length_log_bytes [of k] by simp
  have L: "length (log_bytes k) = unat (log_end k - log_start k)" by (simp add: log_bytes_def)
  have "(ucast (of_nat ?n :: u32) :: u16) = of_nat ?n"
    using n by (simp add: word_unat_eq_iff unsigned_ucast_eq unat_of_nat take_bit_nat_eq_self)
  moreover have "unat (log_end k - (log_end k - of_nat ?n)) = ?n"
    using unat_of_nat16 [OF n] by simp
  ultimately show ?thesis
    unfolding lastn_log_bytes [OF visible_bytes_le]
    by (simp add: klog_show_helper_def Let_def term_getwidth_def term_getheight_def
        count_visible_eq [OF assms] show_from_eq L [symmetric] visible_bytes_def [symmetric])
qed

section \<open>Properties\<close>

text \<open>C31: showing the log always comes to an end: it clears the screen, prints a suffix of the bytes of
  the log, the ones counted as visible, and flushes.\<close>

theorem klog_show_prints_suffix:
  assumes "term_width t \<noteq> 0"
  shows "klog_show_now k t = and_then
    (for_each term_putchar (lastn (visible_bytes k t) (log_bytes k)) (term_clear t)) (\<lambda>t. Inr (term_flush t))"
proof -
  have "visible_bytes k (term_clear t) = visible_bytes k t" by (simp add: visible_bytes_def)
  then show ?thesis using klog_show_helper_eq [of "term_clear t" k] assms by (simp add: klog_show_now_def)
qed

definition two_bytes :: klog where
  "two_bytes = \<lparr>log_buff = (\<lambda>i. if i = 0 then 65 else if i = 1 then 66 else 0), log_start = 0, log_end = 2,
     tmpbuf = replicate 65 0, serial = []\<rparr>"

theorem klog_show_prints_suffix_witness:
  "klog_show_now two_bytes small_term =
     and_then (for_each term_putchar [65, 66] (term_clear small_term)) (\<lambda>t. Inr (term_flush t))"
proof -
  have two: "[0..<2] = [0, 1 :: nat]" by (simp add: upt_rec)
  have "log_bytes two_bytes = [65, 66]" by (simp add: log_bytes_def two_bytes_def two)
  moreover have "visible_bytes two_bytes small_term = 2"
    unfolding visible_bytes_def \<open>log_bytes two_bytes = [65, 66]\<close>
    by (simp add: slots_down_def two_bytes_def small_dims upt_rec)
  ultimately show ?thesis
    using klog_show_prints_suffix [of small_term two_bytes] by (simp add: small_dims lastn_id)
qed

end
