(* ===== verification/Locks.thy ===== *)
theory Locks
  imports Aeolos_Prelude
begin

text \<open>
  \<open>kernel/lib/atomic.h\<close> and \<open>atomic.c\<close>: the spinlock and the readers-writer lock built from two of them.
  The spinlock is modelled by its atomic instructions, the readers-writer lock as interleaved steps of
  any number of CPUs, each with its own place in the code. A lock is written \<open>locked\<close> and the interrupt
  flag of the saved \<open>rflags\<close>; taking it and saving the flags is one step. The counter is an unbounded
  integer: it is at most the number of CPUs, of which there are no more than 256.
\<close>

section \<open>Spinlocks\<close>

record lock =
  locked :: bool
  rflags :: bool

record rwlock =
  num_readers :: int
  nrlock :: lock
  wlock :: lock

text \<open>
  One attempt of \<open>lock_wait\<close>: \<open>None\<close> is another turn of the spin loop. On success the flags pushed before
  \<open>cli\<close> are in the lock and interrupts are off. \<open>lock_release\<close> pops the flags the lock holds.
\<close>

definition lock_wait :: "bool \<Rightarrow> lock \<Rightarrow> (bool \<times> lock) option" where
  "lock_wait ints l = (if locked l then None else Some (False, l\<lparr>locked := True, rflags := ints\<rparr>))"

definition lock_release :: "lock \<Rightarrow> bool \<times> lock" where
  "lock_release l = (rflags l, l\<lparr>locked := False\<rparr>)"

definition lock_try :: "lock \<Rightarrow> bool \<times> lock" where
  "lock_try l = (if locked l then (False, l) else (True, l\<lparr>locked := True\<rparr>))"

section \<open>The readers-writer lock, step by step\<close>

text \<open>
  Where a CPU is: outside, inside \<open>rwlock_try_read\<close> (waiting for \<open>nrlock\<close>, reading and writing the
  counter, trying \<open>wlock\<close>, undoing, leaving with false or true), reading, inside \<open>rwlock_end_read\<close>, or
  writing. The number is the value of the counter the CPU has read and not written back.
\<close>

datatype place =
    Outside
  | Try_Wait | Try_Load | Try_Store int | Try_Check | Undo_Load | Undo_Store int | Try_False | Try_True
  | Reading
  | End_Wait | End_Load | End_Store int | End_Check | End_Leave
  | Writing

record cpu =
  place :: place
  ints :: bool

text \<open>One step of a CPU; a failed \<open>lock_wait\<close> is no step. From \<open>Outside\<close> a CPU may try to read or to write.\<close>

inductive rw_step :: "cpu \<Rightarrow> rwlock \<Rightarrow> cpu \<Rightarrow> rwlock \<Rightarrow> bool" where
  try_read: "place c = Outside \<Longrightarrow> rw_step c l (c\<lparr>place := Try_Wait\<rparr>) l"
| try_wait: "place c = Try_Wait \<Longrightarrow> lock_wait (ints c) (nrlock l) = Some (f, n) \<Longrightarrow>
    rw_step c l (c\<lparr>place := Try_Load, ints := f\<rparr>) (l\<lparr>nrlock := n\<rparr>)"
| try_load: "place c = Try_Load \<Longrightarrow> rw_step c l (c\<lparr>place := Try_Store (num_readers l)\<rparr>) l"
| try_store: "place c = Try_Store n \<Longrightarrow> rw_step c l (c\<lparr>place := Try_Check\<rparr>) (l\<lparr>num_readers := n + 1\<rparr>)"
| try_not_first: "place c = Try_Check \<Longrightarrow> num_readers l \<noteq> 1 \<Longrightarrow> rw_step c l (c\<lparr>place := Try_True\<rparr>) l"
| try_first: "place c = Try_Check \<Longrightarrow> num_readers l = 1 \<Longrightarrow> lock_try (wlock l) = (ok, w) \<Longrightarrow>
    rw_step c l (c\<lparr>place := if ok then Try_True else Undo_Load\<rparr>) (l\<lparr>wlock := w\<rparr>)"
| undo_load: "place c = Undo_Load \<Longrightarrow> rw_step c l (c\<lparr>place := Undo_Store (num_readers l)\<rparr>) l"
| undo_store: "place c = Undo_Store n \<Longrightarrow> rw_step c l (c\<lparr>place := Try_False\<rparr>) (l\<lparr>num_readers := n - 1\<rparr>)"
| try_false: "place c = Try_False \<Longrightarrow> lock_release (nrlock l) = (f, n) \<Longrightarrow>
    rw_step c l (c\<lparr>place := Outside, ints := f\<rparr>) (l\<lparr>nrlock := n\<rparr>)"
| try_true: "place c = Try_True \<Longrightarrow> lock_release (nrlock l) = (f, n) \<Longrightarrow>
    rw_step c l (c\<lparr>place := Reading, ints := f\<rparr>) (l\<lparr>nrlock := n\<rparr>)"
| end_read: "place c = Reading \<Longrightarrow> rw_step c l (c\<lparr>place := End_Wait\<rparr>) l"
| end_wait: "place c = End_Wait \<Longrightarrow> lock_wait (ints c) (nrlock l) = Some (f, n) \<Longrightarrow>
    rw_step c l (c\<lparr>place := End_Load, ints := f\<rparr>) (l\<lparr>nrlock := n\<rparr>)"
| end_load: "place c = End_Load \<Longrightarrow> rw_step c l (c\<lparr>place := End_Store (num_readers l)\<rparr>) l"
| end_store: "place c = End_Store n \<Longrightarrow> rw_step c l (c\<lparr>place := End_Check\<rparr>) (l\<lparr>num_readers := n - 1\<rparr>)"
| end_not_last: "place c = End_Check \<Longrightarrow> num_readers l \<noteq> 0 \<Longrightarrow> rw_step c l (c\<lparr>place := End_Leave\<rparr>) l"
| end_last: "place c = End_Check \<Longrightarrow> num_readers l = 0 \<Longrightarrow> lock_release (wlock l) = (f, w) \<Longrightarrow>
    rw_step c l (c\<lparr>place := End_Leave, ints := f\<rparr>) (l\<lparr>wlock := w\<rparr>)"
| end_leave: "place c = End_Leave \<Longrightarrow> lock_release (nrlock l) = (f, n) \<Longrightarrow>
    rw_step c l (c\<lparr>place := Outside, ints := f\<rparr>) (l\<lparr>nrlock := n\<rparr>)"
| try_write: "place c = Outside \<Longrightarrow> lock_try (wlock l) = (ok, w) \<Longrightarrow>
    rw_step c l (c\<lparr>place := if ok then Writing else Outside\<rparr>) (l\<lparr>wlock := w\<rparr>)"
| end_write: "place c = Writing \<Longrightarrow> lock_release (wlock l) = (f, w) \<Longrightarrow>
    rw_step c l (c\<lparr>place := Outside, ints := f\<rparr>) (l\<lparr>wlock := w\<rparr>)"

text \<open>All CPUs, in any order.\<close>

inductive reachable :: "(nat \<Rightarrow> cpu) \<Rightarrow> rwlock \<Rightarrow> bool" where
  start: "(\<And>i. place (cs i) = Outside) \<Longrightarrow> num_readers l = 0 \<Longrightarrow> \<not> locked (nrlock l) \<Longrightarrow> \<not> locked (wlock l) \<Longrightarrow>
    reachable cs l"
| step: "reachable cs l \<Longrightarrow> rw_step (cs i) l c' l' \<Longrightarrow> reachable (cs(i := c')) l'"

section \<open>The invariant\<close>

text \<open>The readers that count, the writers, and the CPU inside the counter's lock.\<close>

definition readers :: "(nat \<Rightarrow> cpu) \<Rightarrow> nat set" where
  "readers cs = {i. place (cs i) = Reading \<or> place (cs i) = End_Wait}"

definition writers :: "(nat \<Rightarrow> cpu) \<Rightarrow> nat set" where
  "writers cs = {i. place (cs i) = Writing}"

fun in_section :: "place \<Rightarrow> bool" where
  "in_section p = (p \<notin> {Outside, Try_Wait, Reading, End_Wait, Writing})"

text \<open>
  What holds while a CPU is at a place of the counter's section, for \<open>r\<close> readers that count: the value
  of the counter, and who holds \<open>wlock\<close>. \<open>exclusive\<close> is the state outside the section.
\<close>

definition exclusive :: "nat set \<Rightarrow> nat set \<Rightarrow> bool \<Rightarrow> bool" where
  "exclusive R W w \<longleftrightarrow> w = (R \<noteq> {} \<or> W \<noteq> {}) \<and> (R \<noteq> {} \<longrightarrow> W = {}) \<and> (\<exists>i. W \<subseteq> {i})"

fun section_ok :: "place \<Rightarrow> int \<Rightarrow> nat set \<Rightarrow> nat set \<Rightarrow> bool \<Rightarrow> bool" where
  "section_ok (Try_Store v) n R W w = (v = n \<and> n = int (card R) \<and> exclusive R W w)"
| "section_ok Try_Check n R W w = (n = int (card R) + 1 \<and> exclusive R W w)"
| "section_ok Undo_Load n R W w = (n = 1 \<and> R = {} \<and> exclusive R W w)"
| "section_ok (Undo_Store v) n R W w = (v = n \<and> n = 1 \<and> R = {} \<and> exclusive R W w)"
| "section_ok Try_True n R W w = (n = int (card R) + 1 \<and> w \<and> W = {})"
| "section_ok End_Load n R W w = (n = int (card R) + 1 \<and> w \<and> W = {})"
| "section_ok (End_Store v) n R W w = (v = n \<and> n = int (card R) + 1 \<and> w \<and> W = {})"
| "section_ok End_Check n R W w = (n = int (card R) \<and> w \<and> W = {})"
| "section_ok p n R W w = (n = int (card R) \<and> exclusive R W w)"

definition rw_inv :: "(nat \<Rightarrow> cpu) \<Rightarrow> rwlock \<Rightarrow> bool" where
  "rw_inv cs l \<longleftrightarrow> finite (readers cs) \<and>
     (\<exists>h. (\<forall>i. in_section (place (cs i)) \<longleftrightarrow> h = Some i) \<and> locked (nrlock l) = (h \<noteq> None) \<and>
        section_ok (case h of None \<Rightarrow> Outside | Some i \<Rightarrow> place (cs i))
          (num_readers l) (readers cs) (writers cs) (locked (wlock l)))"

lemma readers_upd:
  "readers (cs(i := c)) = (if place c \<in> {Reading, End_Wait} then insert i (readers cs) else readers cs - {i})"
  by (auto simp: readers_def)

lemma writers_upd:
  "writers (cs(i := c)) = (if place c = Writing then insert i (writers cs) else writers cs - {i})"
  by (auto simp: writers_def)

lemma not_reader: "place (cs i) \<notin> {Reading, End_Wait} \<Longrightarrow> readers cs - {i} = readers cs"
  by (auto simp: readers_def)

lemma not_writer: "place (cs i) \<noteq> Writing \<Longrightarrow> writers cs - {i} = writers cs"
  by (auto simp: writers_def)

lemma rw_inv_elim:
  assumes "rw_inv cs l"
  obtains (free) "finite (readers cs)" "\<And>i. \<not> in_section (place (cs i))" "\<not> locked (nrlock l)"
      "num_readers l = int (card (readers cs))" "exclusive (readers cs) (writers cs) (locked (wlock l))"
    | (held) h where "finite (readers cs)" "\<And>i. in_section (place (cs i)) \<longleftrightarrow> i = h" "locked (nrlock l)"
      "section_ok (place (cs h)) (num_readers l) (readers cs) (writers cs) (locked (wlock l))"
proof -
  from assms obtain h where fin: "finite (readers cs)" and h: "\<And>i. in_section (place (cs i)) \<longleftrightarrow> h = Some i"
    and rest: "locked (nrlock l) = (h \<noteq> None)" "section_ok (case h of None \<Rightarrow> Outside | Some i \<Rightarrow> place (cs i))
          (num_readers l) (readers cs) (writers cs) (locked (wlock l))"
    unfolding rw_inv_def by blast
  show thesis
  proof (cases h)
    case None
    show thesis by (rule free) (use fin h rest None in \<open>simp_all del: in_section.simps\<close>)
  next
    case (Some i)
    show thesis by (rule held [of i]) (use fin h rest Some in \<open>auto simp del: in_section.simps\<close>)
  qed
qed

lemma rw_inv_free:
  assumes "finite (readers cs)" and "\<And>i. \<not> in_section (place (cs i))" and "\<not> locked (nrlock l)"
    and "num_readers l = int (card (readers cs))" and "exclusive (readers cs) (writers cs) (locked (wlock l))"
  shows "rw_inv cs l"
  unfolding rw_inv_def using assms by (intro conjI exI [of _ None]) (simp_all del: in_section.simps)

lemma rw_inv_held:
  assumes "finite (readers cs)" and "\<And>i. in_section (place (cs i)) \<longleftrightarrow> i = h" and "locked (nrlock l)"
    and "section_ok (place (cs h)) (num_readers l) (readers cs) (writers cs) (locked (wlock l))"
  shows "rw_inv cs l"
  unfolding rw_inv_def using assms by (intro conjI exI [of _ "Some h"]) (auto simp del: in_section.simps)

text \<open>Steps inside the section, into it, out of it, and outside it.\<close>

lemma step_inside:
  assumes "rw_inv cs l" and "in_section (place (cs i))" and "in_section (place c)" and "locked (nrlock l')"
    and "section_ok (place (cs i)) (num_readers l) (readers cs) (writers cs) (locked (wlock l)) \<Longrightarrow>
      section_ok (place c) (num_readers l') (readers cs) (writers cs) (locked (wlock l'))"
  shows "rw_inv (cs(i := c)) l'"
  using assms(1)
proof (cases rule: rw_inv_elim)
  case (held h)
  have "h = i" using held(2) [of i] assms(2) by (simp del: in_section.simps)
  moreover have "readers (cs(i := c)) = readers cs" "writers (cs(i := c)) = writers cs"
    using assms(2,3) by (auto simp: readers_upd writers_upd not_reader not_writer)
  ultimately show ?thesis
    using held assms(3-5) by (intro rw_inv_held [of _ i]) (auto simp del: in_section.simps)
qed (use assms(2) in blast)

lemma step_leaves:
  assumes "rw_inv cs l" and "in_section (place (cs i))" and "\<not> in_section (place c)" and "\<not> locked (nrlock l')"
    and "finite (readers cs) \<Longrightarrow> section_ok (place (cs i)) (num_readers l) (readers cs) (writers cs) (locked (wlock l)) \<Longrightarrow>
      num_readers l' = int (card (readers (cs(i := c))))
      \<and> exclusive (readers (cs(i := c))) (writers (cs(i := c))) (locked (wlock l'))"
  shows "rw_inv (cs(i := c)) l'"
  using assms(1)
proof (cases rule: rw_inv_elim)
  case (held h)
  have "h = i" using held(2) [of i] assms(2) by (simp del: in_section.simps)
  then show ?thesis
    using held assms(3-5)
    by (intro rw_inv_free) (auto simp: readers_upd simp del: in_section.simps)
qed (use assms(2) in blast)

lemma step_enters:
  assumes "rw_inv cs l" and "\<not> locked (nrlock l)" and "in_section (place c)" and "locked (nrlock l')"
    and "finite (readers cs) \<Longrightarrow> num_readers l = int (card (readers cs)) \<Longrightarrow>
      exclusive (readers cs) (writers cs) (locked (wlock l)) \<Longrightarrow>
      section_ok (place c) (num_readers l') (readers (cs(i := c))) (writers (cs(i := c))) (locked (wlock l'))"
  shows "rw_inv (cs(i := c)) l'"
  using assms(1)
proof (cases rule: rw_inv_elim)
  case free
  then show ?thesis
    using assms(3-5) by (intro rw_inv_held [of _ i]) (auto simp: readers_upd simp del: in_section.simps)
qed (use assms(2) in blast)

lemma step_outside:
  assumes "rw_inv cs l" and "\<not> in_section (place (cs i))" and "\<not> in_section (place c)" and "nrlock l' = nrlock l"
    and "num_readers l' = num_readers l" and "readers (cs(i := c)) = readers cs"
    and "\<And>p. section_ok p (num_readers l) (readers cs) (writers cs) (locked (wlock l)) \<Longrightarrow>
      section_ok p (num_readers l) (readers cs) (writers (cs(i := c))) (locked (wlock l'))"
  shows "rw_inv (cs(i := c)) l'"
  using assms(1)
proof (cases rule: rw_inv_elim)
  case free
  then show ?thesis
    using assms(3-6) assms(7) [of Outside] by (intro rw_inv_free) (auto simp del: in_section.simps)
next
  case (held h)
  have "i \<noteq> h" using held(2) [of i] assms(2) by (simp del: in_section.simps)
  then show ?thesis
    using held assms(3-7) by (intro rw_inv_held [of _ h]) (auto simp del: in_section.simps)
qed

lemma held_locked: "rw_inv cs l \<Longrightarrow> in_section (place (cs i)) \<Longrightarrow> locked (nrlock l)"
  by (erule rw_inv_elim) (simp_all del: in_section.simps)

lemma try_write_section:
  assumes "section_ok p n R W w" and "\<not> w"
  shows "section_ok p n R (insert i W) True"
proof -
  have "R = {} \<and> W = {}" using assms by (cases p) (auto simp: exclusive_def)
  then show ?thesis using assms by (cases p) (auto simp: exclusive_def)
qed

lemma end_write_section:
  assumes "section_ok p n R W w" and "i \<in> W"
  shows "section_ok p n R (W - {i}) False"
proof -
  have "R = {} \<and> W = {i}" using assms by (cases p) (auto simp: exclusive_def)
  then show ?thesis using assms by (cases p) (auto simp: exclusive_def)
qed

lemmas who_moves = readers_upd writers_upd not_reader not_writer

lemma rw_inv_step:
  assumes "rw_inv cs l" and "rw_step (cs i) l c l'"
  shows "rw_inv (cs(i := c)) l'"
proof -
  have lk: "in_section (place (cs i)) \<Longrightarrow> locked (nrlock l)" by (rule held_locked [OF assms(1)])
  have fin: "finite (readers cs)" using assms(1) by (simp add: rw_inv_def)
  show ?thesis
    using assms(2)
  proof (cases rule: rw_step.cases)
    case try_read
    then show ?thesis
      using assms(1) by (intro step_outside [of cs l]) (simp_all add: who_moves)
  next
    case (try_wait f n)
    then show ?thesis
      using assms(1) by (intro step_enters [of cs l]) (auto simp: lock_wait_def who_moves split: if_splits)
  next
    case try_load
    then show ?thesis using assms(1) lk by (intro step_inside [of cs l]) auto
  next
    case (try_store n)
    then show ?thesis using assms(1) lk by (intro step_inside [of cs l]) auto
  next
    case try_not_first
    then show ?thesis using assms(1) lk by (intro step_inside [of cs l]) (auto simp: exclusive_def)
  next
    case (try_first ok w)
    then show ?thesis using assms(1) lk fin
      by (intro step_inside [of cs l]) (auto simp: exclusive_def lock_try_def split: if_splits)
  next
    case undo_load
    then show ?thesis using assms(1) lk by (intro step_inside [of cs l]) auto
  next
    case (undo_store n)
    then show ?thesis using assms(1) lk by (intro step_inside [of cs l]) auto
  next
    case (try_false f n)
    then show ?thesis
      using assms(1) by (intro step_leaves [of cs l]) (auto simp: lock_release_def who_moves)
  next
    case (try_true f n)
    have "i \<notin> readers cs" using try_true by (simp add: readers_def)
    then show ?thesis
      using try_true assms(1)
      by (intro step_leaves [of cs l]) (auto simp: lock_release_def who_moves exclusive_def)
  next
    case end_read
    then show ?thesis
      using assms(1) by (intro step_outside [of cs l]) (auto simp: who_moves readers_def)
  next
    case (end_wait f n)
    have "i \<in> readers cs" using end_wait by (simp add: readers_def)
    moreover from this have "0 < card (readers cs)" using fin by (auto simp: card_gt_0_iff)
    ultimately show ?thesis
      using end_wait assms(1) by (intro step_enters [of cs l])
        (auto simp: lock_wait_def who_moves exclusive_def split: if_splits)
  next
    case end_load
    then show ?thesis using assms(1) lk by (intro step_inside [of cs l]) auto
  next
    case (end_store n)
    then show ?thesis using assms(1) lk by (intro step_inside [of cs l]) auto
  next
    case end_not_last
    then show ?thesis using assms(1) lk by (intro step_inside [of cs l]) (auto simp: exclusive_def)
  next
    case (end_last f w)
    then show ?thesis using fin assms(1) lk
      by (intro step_inside [of cs l]) (auto simp: exclusive_def lock_release_def)
  next
    case (end_leave f n)
    then show ?thesis
      using assms(1) by (intro step_leaves [of cs l]) (auto simp: lock_release_def who_moves)
  next
    case (try_write ok w)
    then show ?thesis
      using assms(1) try_write_section by (intro step_outside [of cs l])
        (auto simp: lock_try_def who_moves simp del: section_ok.simps split: if_splits)
  next
    case (end_write f w)
    have "i \<in> writers cs" using end_write by (simp add: writers_def)
    then show ?thesis
      using end_write assms(1) end_write_section by (intro step_outside [of cs l])
        (auto simp: lock_release_def who_moves simp del: section_ok.simps)
  qed
qed

lemma reachable_rw_inv: "reachable cs l \<Longrightarrow> rw_inv cs l"
proof (induction rule: reachable.induct)
  case (start cs l)
  then have "readers cs = {}" "writers cs = {}" by (simp_all add: readers_def writers_def)
  then show ?case using start by (intro rw_inv_free) (simp_all add: exclusive_def)
qed (rule rw_inv_step)

lemma inv_exclusive:
  assumes "rw_inv cs l"
  shows "(readers cs \<noteq> {} \<longrightarrow> writers cs = {}) \<and> (\<exists>i. writers cs \<subseteq> {i})"
  using assms
proof (cases rule: rw_inv_elim)
  case (held h)
  then show ?thesis by (cases "place (cs h)") (auto simp: exclusive_def)
qed (simp add: exclusive_def)

section \<open>Properties\<close>

text \<open>C33: the readers-writer lock excludes: in every interleaving of any number of CPUs, while one CPU
  writes no other CPU reads or writes.\<close>

theorem rwlock_mutual_exclusion:
  assumes "reachable cs l" and "place (cs i) = Writing" and "i \<noteq> j"
  shows "place (cs j) \<noteq> Reading \<and> place (cs j) \<noteq> Writing"
  using inv_exclusive [OF reachable_rw_inv [OF assms(1)]] assms(2,3)
  by (auto simp: readers_def writers_def)

definition idle_cpus :: "nat \<Rightarrow> cpu" where
  "idle_cpus = (\<lambda>i. \<lparr>place = Outside, ints = True\<rparr>)"

definition free_rwlock :: rwlock where
  "free_rwlock = \<lparr>num_readers = 0, nrlock = \<lparr>locked = False, rflags = False\<rparr>, wlock = \<lparr>locked = False, rflags = False\<rparr>\<rparr>"

lemma one_writer:
  "reachable (idle_cpus(0 := \<lparr>place = Writing, ints = True\<rparr>)) (free_rwlock\<lparr>wlock := \<lparr>locked = True, rflags = False\<rparr>\<rparr>)"
proof (rule reachable.step)
  show "reachable idle_cpus free_rwlock"
    by (rule reachable.start) (simp_all add: idle_cpus_def free_rwlock_def)
  have "rw_step (idle_cpus 0) free_rwlock (idle_cpus 0\<lparr>place := if True then Writing else Outside\<rparr>)
      (free_rwlock\<lparr>wlock := \<lparr>locked = True, rflags = False\<rparr>\<rparr>)"
    by (rule rw_step.try_write) (simp_all add: idle_cpus_def free_rwlock_def lock_try_def)
  then show "rw_step (idle_cpus 0) free_rwlock \<lparr>place = Writing, ints = True\<rparr>
      (free_rwlock\<lparr>wlock := \<lparr>locked = True, rflags = False\<rparr>\<rparr>)"
    by (simp add: idle_cpus_def)
qed

theorem rwlock_mutual_exclusion_witness:
  "place ((idle_cpus(0 := \<lparr>place = Writing, ints = True\<rparr>)) 1) \<noteq> Reading"
  using rwlock_mutual_exclusion [OF one_writer, of 0 1] by simp

text \<open>How many of its own steps a CPU may still take inside the section.\<close>

fun steps_left :: "place \<Rightarrow> nat" where
  "steps_left Try_Load = 6"
| "steps_left (Try_Store v) = 5"
| "steps_left Try_Check = 4"
| "steps_left Undo_Load = 3"
| "steps_left (Undo_Store v) = 2"
| "steps_left Try_False = 1"
| "steps_left Try_True = 1"
| "steps_left End_Load = 4"
| "steps_left (End_Store v) = 3"
| "steps_left End_Check = 2"
| "steps_left End_Leave = 1"
| "steps_left p = 0"

lemma section_can_step: "in_section (place c) \<Longrightarrow> \<exists>c' l'. rw_step c l c' l'"
proof -
  assume s: "in_section (place c)"
  obtain f n where nr: "lock_release (nrlock l) = (f, n)" by force
  obtain g w where wr: "lock_release (wlock l) = (g, w)" by force
  obtain ok v where wt: "lock_try (wlock l) = (ok, v)" by force
  show ?thesis
    using s by (cases "place c") (auto intro: rw_step.try_load rw_step.try_store rw_step.try_not_first
        rw_step.try_first [OF _ _ wt] rw_step.undo_load rw_step.undo_store rw_step.try_false [OF _ nr]
        rw_step.try_true [OF _ nr] rw_step.end_load rw_step.end_store rw_step.end_not_last
        rw_step.end_last [OF _ _ wr] rw_step.end_leave [OF _ nr]
        | metis rw_step.try_not_first rw_step.try_first [OF _ _ wt] rw_step.end_not_last rw_step.end_last [OF _ _ wr])+
qed

inductive_cases rw_stepE: "rw_step c l c' l'"

lemma section_step_shortens:
  "rw_step c l c' l' \<Longrightarrow> in_section (place c) \<Longrightarrow> steps_left (place c') < steps_left (place c)"
  by (erule rw_stepE) auto

lemma section_left: "in_section p \<longleftrightarrow> 0 < steps_left p"
  by (cases p) auto

text \<open>C34: whoever holds \<open>nrlock\<close> can always take its next step, and has at most six of them before it
  releases the lock: no CPU spins on it for ever.\<close>

theorem rwlock_section_ends:
  assumes "reachable cs l" and "locked (nrlock l)"
  shows "\<exists>i. 0 < steps_left (place (cs i)) \<and> steps_left (place (cs i)) \<le> 6 \<and> (\<exists>c l'. rw_step (cs i) l c l') \<and>
    (\<forall>c l'. rw_step (cs i) l c l' \<longrightarrow> steps_left (place c) < steps_left (place (cs i)))"
proof -
  obtain i where i: "in_section (place (cs i))"
    using reachable_rw_inv [OF assms(1)] assms(2) by (auto simp: rw_inv_def simp del: in_section.simps)
  moreover have "steps_left (place (cs i)) \<le> 6" by (cases "place (cs i)") simp_all
  ultimately show ?thesis
    using section_can_step [OF i] section_step_shortens [OF _ i] section_left by blast
qed

definition counting_cpu :: cpu where
  "counting_cpu = \<lparr>place = Try_Load, ints = False\<rparr>"

definition counted_rwlock :: rwlock where
  "counted_rwlock = free_rwlock\<lparr>nrlock := \<lparr>locked = True, rflags = True\<rparr>\<rparr>"

lemma one_in_section: "reachable (idle_cpus(0 := counting_cpu)) counted_rwlock"
proof -
  let ?w = "\<lparr>place = Try_Wait, ints = True\<rparr>"
  have "reachable idle_cpus free_rwlock"
    by (rule reachable.start) (simp_all add: idle_cpus_def free_rwlock_def)
  moreover have "rw_step (idle_cpus 0) free_rwlock ?w free_rwlock"
    using rw_step.try_read [of "idle_cpus 0" free_rwlock] by (simp add: idle_cpus_def)
  ultimately have "reachable (idle_cpus(0 := ?w)) free_rwlock" by (rule reachable.step)
  moreover have "rw_step ((idle_cpus(0 := ?w)) 0) free_rwlock counting_cpu counted_rwlock"
    using rw_step.try_wait [of ?w free_rwlock False "\<lparr>locked = True, rflags = True\<rparr>"]
    by (simp add: lock_wait_def free_rwlock_def counting_cpu_def counted_rwlock_def)
  ultimately have "reachable ((idle_cpus(0 := ?w))(0 := counting_cpu)) counted_rwlock" by (rule reachable.step)
  then show ?thesis by simp
qed

theorem rwlock_section_ends_witness:
  "\<exists>i. 0 < steps_left (place ((idle_cpus(0 := counting_cpu)) i)) \<and>
    (\<exists>c l'. rw_step ((idle_cpus(0 := counting_cpu)) i) counted_rwlock c l')"
proof -
  have "locked (nrlock counted_rwlock)" by (simp add: counted_rwlock_def)
  from rwlock_section_ends [OF one_in_section this] show ?thesis by blast
qed

section \<open>The interrupt flag\<close>

text \<open>Nothing ever saves flags in \<open>wlock\<close>: it is only taken by \<open>lock_try\<close>, which does not. So the flag stays what it was
  when the lock was initialised, and whoever ends writing gets it instead of its own: with a lock of zeroes, interrupts
  stay off.\<close>

lemma wlock_flags_fixed: "rw_step c l c' l' \<Longrightarrow> rflags (wlock l') = rflags (wlock l)"
  by (erule rw_stepE) (auto simp: lock_try_def lock_release_def lock_wait_def split: if_splits)

lemma end_write_flags: "rw_step c l c' l' \<Longrightarrow> place c = Writing \<Longrightarrow> place c' = Outside \<and> ints c' = rflags (wlock l)"
  by (erule rw_stepE) (auto simp: lock_release_def)

inductive runs_from :: "rwlock \<Rightarrow> (nat \<Rightarrow> cpu) \<Rightarrow> rwlock \<Rightarrow> bool" for l0 where
  start: "runs_from l0 cs l0"
| step: "runs_from l0 cs l \<Longrightarrow> rw_step (cs i) l c' l' \<Longrightarrow> runs_from l0 (cs(i := c')) l'"

lemma writer_ends_with_interrupts_off:
  assumes "runs_from l0 cs l" and "\<not> rflags (wlock l0)" and "place (cs i) = Writing" and "rw_step (cs i) l c' l'"
  shows "place c' = Outside \<and> \<not> ints c'"
proof -
  have "rflags (wlock l) = rflags (wlock l0)"
    using assms(1) by (induction rule: runs_from.induct) (simp_all add: wlock_flags_fixed)
  then show ?thesis using end_write_flags [OF assms(4,3)] assms(2) by simp
qed

end
