(* ===== verification/Ports.thy ===== *)
theory Ports
  imports Aeolos_Prelude
begin

text \<open>
  \<open>kernel/sys/pit.c\<close> and \<open>kernel/dev/serial/serial.c\<close>: devices behind I/O ports. The
  bytes written are a list, in order; the bytes a device answers are a parameter.
\<close>

type_synonym port_write = "u16 \<times> u8"

section \<open>Polling\<close>

text \<open>A device is read again and again, from reading \<open>i\<close> on, until a reading says that it is ready; the result is the
  number of the next reading.\<close>

partial_function (option) poll :: "(nat \<Rightarrow> bool) \<Rightarrow> nat \<Rightarrow> nat option" where
  "poll ready i = (if ready i then Some (i + 1) else poll ready (i + 1))"

lemma poll_until: "ready (i + n) \<Longrightarrow> (\<And>j. j < n \<Longrightarrow> \<not> ready (i + j)) \<Longrightarrow> poll ready i = Some (i + n + 1)"
proof (induction n arbitrary: i)
  case 0
  then show ?case by (subst poll.simps) simp
next
  case (Suc n)
  have "poll ready (i + 1) = Some (i + 1 + n + 1)"
    by (rule Suc.IH) (use Suc.prems(1) Suc.prems(2) [of "Suc _"] in simp_all)
  then show ?case using Suc.prems(2) [of 0] by (subst poll.simps) simp
qed

text \<open>It ends if a device is always ready again later.\<close>

lemma poll_ends:
  assumes "\<And>i. \<exists>j\<ge>i. ready j"
  obtains k where "poll ready i = Some k"
proof -
  have ex: "\<exists>n. ready (i + n)" using assms [of i] nat_le_iff_add by auto
  have "poll ready i = Some (i + (LEAST n. ready (i + n)) + 1)"
    by (rule poll_until) (use LeastI_ex [OF ex] not_less_Least [of _ "\<lambda>n. ready (i + n)"] in auto)
  then show thesis by (rule that)
qed

section \<open>The interval timer\<close>

text \<open>The counter is read, low byte first, until its high byte has wrapped around; reading \<open>i\<close> gives the pair
  \<open>reads i\<close>.\<close>

definition pit_poll :: "(nat \<Rightarrow> u8 \<times> u8) \<Rightarrow> nat \<Rightarrow> nat option" where
  "pit_poll reads = poll (\<lambda>i. 4 < snd (reads i))"

primrec pit_loop :: "nat \<Rightarrow> (nat \<Rightarrow> u8 \<times> u8) \<Rightarrow> nat \<times> port_write list \<Rightarrow> (nat \<times> port_write list) option" where
  "pit_loop 0 reads st = Some st"
| "pit_loop (Suc ms) reads st =
     (case st of (i, out) \<Rightarrow> Option.bind (pit_poll reads i) (\<lambda>i.
        pit_loop ms reads (i, out @ [(0x40, 0xa9), (0x40, 0x04)])))"

definition pit_wait :: "(nat \<Rightarrow> u8 \<times> u8) \<Rightarrow> u64 \<Rightarrow> port_write list option" where
  "pit_wait reads ms = map_option snd (pit_loop (unat ms) reads (0, [(0x43, 0x30)]))"

text \<open>Waiting ends when the counter wraps around again and again, and starts it once for each millisecond.\<close>

lemma pit_loop_ends:
  assumes "\<And>i. \<exists>j\<ge>i. 4 < snd (reads j)"
  shows "\<exists>i'. pit_loop n reads (i, out) = Some (i', out @ concat (replicate n [(0x40, 0xa9), (0x40, 0x04)]))"
proof (induction n arbitrary: i out)
  case (Suc n)
  obtain k where "pit_poll reads i = Some k" using poll_ends [of "\<lambda>i. 4 < snd (reads i)" i] assms by (auto simp: pit_poll_def)
  then show ?case using Suc.IH [of k "out @ [(0x40, 0xa9), (0x40, 0x04)]"] by simp
qed simp

lemma pit_wait_ends:
  assumes "\<And>i. \<exists>j\<ge>i. 4 < snd (reads j)"
  shows "pit_wait reads ms = Some ((0x43, 0x30) # concat (replicate (unat ms) [(0x40, 0xa9), (0x40, 0x04)]))"
  using pit_loop_ends [OF assms, of "unat ms" 0 "[(0x43, 0x30)]"] by (auto simp: pit_wait_def)

section \<open>The serial port\<close>

definition serial_init :: "port_write list" where
  "serial_init =
     (let divisor = ucast (115200 div 9600 :: u32) :: u16; divlow = ucast (divisor AND 0xFF); divhigh = ucast (drop_bit 8 divisor)
      in [(0x3fb, 0x80), (0x3f8, divlow), (0x3f9, divhigh), (0x3fb, 0x03), (0x3fa, 0xC7), (0x3fc, 0x03)])"

text \<open>The divisor for 9600 baud is 12, written while the divisor latch is selected.\<close>

lemma serial_init_divisor: "serial_init = [(0x3fb, 0x80), (0x3f8, 12), (0x3f9, 0), (0x3fb, 3), (0x3fa, 0xC7), (0x3fc, 3)]"
  by (simp add: serial_init_def Let_def)

text \<open>Sending a byte: the status register is polled once, also for the carriage return before a newline.\<close>

definition is_transmit_empty :: "u8 \<Rightarrow> bool" where
  "is_transmit_empty status \<longleftrightarrow> status AND 0x20 \<noteq> 0"

definition port_send :: "(nat \<Rightarrow> u8) \<Rightarrow> u8 \<Rightarrow> nat \<times> port_write list \<Rightarrow> (nat \<times> port_write list) option" where
  "port_send reads byte = (\<lambda>(i, out).
     Option.bind (poll (\<lambda>i. is_transmit_empty (reads i)) i) (\<lambda>i.
       let out = (if byte = 10 then out @ [(0x3f8, 13)] else out)
       in Some (i, out @ [(0x3f8, byte)])))"

end
