(* ===== verification/SerialProps.thy ===== *)
theory SerialProps
  imports Ports KlogFormat
begin

text \<open>
  The bytes of the log on the port of the serial line: the list of bytes the log is modelled with is what the
  code of \<open>kernel/dev/serial/serial.c\<close> writes to the port, if the transmitter is always empty again later.
\<close>

primrec port_send_all :: "(nat \<Rightarrow> u8) \<Rightarrow> u8 list \<Rightarrow> nat \<times> port_write list \<Rightarrow> (nat \<times> port_write list) option" where
  "port_send_all reads [] st = Some st"
| "port_send_all reads (b # bs) st = Option.bind (port_send reads b st) (port_send_all reads bs)"

lemma port_send_refines:
  assumes "\<And>i. \<exists>j\<ge>i. is_transmit_empty (reads j)"
  shows "\<exists>i'. port_send reads b (i, map (Pair 0x3f8) line) = Some (i', map (Pair 0x3f8) (serial_send b line))"
proof -
  obtain k where "poll (\<lambda>i. is_transmit_empty (reads i)) i = Some k" using poll_ends [of "\<lambda>i. is_transmit_empty (reads i)"] assms by blast
  then show ?thesis by (simp add: port_send_def serial_send_def)
qed

lemma port_send_all_refines:
  assumes "\<And>i. \<exists>j\<ge>i. is_transmit_empty (reads j)"
  shows "\<exists>i'. port_send_all reads bs (i, map (Pair 0x3f8) line) = Some (i', map (Pair 0x3f8) (fold serial_send bs line))"
proof (induction bs arbitrary: i line)
  case (Cons b bs)
  obtain k where "port_send reads b (i, map (Pair 0x3f8) line) = Some (k, map (Pair 0x3f8) (serial_send b line))"
    using port_send_refines [OF assms] by blast
  then show ?case using Cons.IH [of k "serial_send b line"] by simp
qed simp

text \<open>Whatever is printed reaches the port, byte for byte.\<close>

lemma printed_on_port:
  assumes "printed t k k'" and "\<And>i. \<exists>j\<ge>i. is_transmit_empty (reads j)"
  shows "\<exists>i'. port_send_all reads t (i, map (Pair 0x3f8) (serial k)) = Some (i', map (Pair 0x3f8) (serial k'))"
proof -
  have "serial (fold putch t k) = fold serial_send t (serial k)"
    by (induction t arbitrary: k) (simp_all add: putch_fields)
  moreover have "serial k' = serial (fold putch t k)" using assms(1) by (auto simp: printed_def)
  ultimately show ?thesis using port_send_all_refines [OF assms(2), of t i "serial k"] by simp
qed

end
