(* ===== verification/CpuSetup.thy ===== *)
theory CpuSetup
  imports Vmm Klog
begin

text \<open>
  The processor's tables and registers: \<open>kernel/sys/gdt.c\<close>, \<open>idt.c\<close>, \<open>exc_handler.c\<close>, \<open>cpu/cpu.c\<close>, \<open>cpu/cpuid.c\<close>,
  and the random numbers of \<open>kernel/lib/random.c\<close>. The GDT is in memory; the IDT is an array of entries.
  The processor itself (\<open>cpuid\<close>) is a parameter, and so are the addresses of the assembly stubs.
\<close>

section \<open>The GDT\<close>

record gdtr =
  gdtr_base :: u64
  gdtr_limit :: u16

definition GDT_ENTRY_NULL :: u64 where "GDT_ENTRY_NULL = 0"
definition GDT_ENTRY_KERNEL_CODE :: u64 where "GDT_ENTRY_KERNEL_CODE = 0x00AF9A000000FFFF"
definition GDT_ENTRY_KERNEL_DATA :: u64 where "GDT_ENTRY_KERNEL_DATA = 0x008F92000000FFFF"
definition GDT_ENTRY_USER_CODE :: u64 where "GDT_ENTRY_USER_CODE = 0x00AFFA000000FFFF"
definition GDT_ENTRY_USER_DATA :: u64 where "GDT_ENTRY_USER_DATA = 0x008FF2000000FFFF"

abbreviation sizeof_gdt :: u64 where "sizeof_gdt \<equiv> 56"
abbreviation sizeof_tss :: u64 where "sizeof_tss \<equiv> 104"

definition gdt_init :: "kernel \<Rightarrow> (gdtr \<times> kernel) result" where
  "gdt_init s =
     and_then (kmalloc sizeof_gdt s) (\<lambda>(gdt, s).
       let m = memset gdt 0 sizeof_gdt (mem s);
           m = store64 gdt GDT_ENTRY_NULL m;
           m = store64 (gdt + 8) GDT_ENTRY_KERNEL_CODE m;
           m = store64 (gdt + 16) GDT_ENTRY_KERNEL_DATA m;
           m = store64 (gdt + 24) GDT_ENTRY_USER_CODE m;
           m = store64 (gdt + 32) GDT_ENTRY_USER_DATA m
       in Inr (\<lparr>gdtr_base = gdt, gdtr_limit = ucast (sizeof_gdt - 1)\<rparr>, s\<lparr>mem := m\<rparr>))"

text \<open>The fields of the TSS descriptor, at offset 40 of the table; its last word is left alone.\<close>

definition gdt_install_tss :: "u64 \<Rightarrow> gdtr \<Rightarrow> mem \<Rightarrow> mem" where
  "gdt_install_tss tss g m =
     (let d = gdtr_base g + 40; baseaddr = tss; seglimit = sizeof_tss;
          m = store_le 2 (d + 2) (baseaddr AND 0xFFFF) m;
          m = store_le 1 (d + 4) (drop_bit 16 baseaddr AND 0xFF) m;
          m = store_le 1 (d + 7) (drop_bit 24 baseaddr AND 0xFF) m;
          m = store_le 4 (d + 8) (drop_bit 32 baseaddr) m;
          m = store_le 2 d (seglimit AND 0xFFFF) m;
          m = store_le 1 (d + 5) 0x89 m
      in store_le 1 (d + 6) 0 m)"

section \<open>The IDT\<close>

record idt_entry =
  offset_15_0 :: u16
  selector :: u16
  idt_flags :: u16
  offset_31_16 :: u16
  offset_63_32 :: u32

definition CODE_SEGMENT_SELECTOR :: u16 where "CODE_SEGMENT_SELECTOR = 0x08"
definition IDT_FLAGS_DEFAULT :: u16 where "IDT_FLAGS_DEFAULT = 0x8e00"
definition IDT_FLAGS_USER :: u16 where "IDT_FLAGS_USER = 0xee00"

definition idt_make_entry :: "u64 \<Rightarrow> bool \<Rightarrow> idt_entry" where
  "idt_make_entry offset usermode =
     \<lparr>offset_15_0 = ucast (offset AND 0xFFFF), selector = CODE_SEGMENT_SELECTOR,
      idt_flags = (if usermode then IDT_FLAGS_USER else IDT_FLAGS_DEFAULT),
      offset_31_16 = ucast (drop_bit 16 offset AND 0xFFFF),
      offset_63_32 = ucast (drop_bit 32 offset AND 0xFFFFFFFF)\<rparr>"

record idt_state =
  IDT :: "u8 \<Rightarrow> idt_entry"
  lastvector :: u8

definition SYSCALL_IRQ_VECTOR :: u8 where "SYSCALL_IRQ_VECTOR = 60"

definition idt_set_handler :: "u8 \<Rightarrow> u64 \<Rightarrow> bool \<Rightarrow> idt_state \<Rightarrow> idt_state" where
  "idt_set_handler vector handler usermode s =
     s\<lparr>IDT := (IDT s)(vector := idt_make_entry handler usermode)\<rparr>"

definition idt_get_vector :: "idt_state \<Rightarrow> (u8 \<times> idt_state) result" where
  "idt_get_vector s =
     (let s = s\<lparr>lastvector := lastvector s + 1\<rparr>
      in if lastvector s = 0 then Inl (Kernel_Panic ''Out of IRQ vectors'') else Inr (lastvector s, s))"

text \<open>The exceptions that have a stub, and the system call; the addresses are the linker's. The register of the
  interrupt table has the form of the one of the segment table.\<close>

definition exception_vectors :: "u8 list" where
  "exception_vectors = [0, 1, 2, 3, 4, 5, 6, 7, 8, 10, 11, 12, 13, 14, 16, 17, 18, 19, 20, 30]"

definition idt_init :: "(u8 \<Rightarrow> u64) \<Rightarrow> u64 \<Rightarrow> u64 \<Rightarrow> idt_state \<times> klog \<Rightarrow> (gdtr \<times> idt_state \<times> klog) result" where
  "idt_init isr syscall_entry idt_addr = (\<lambda>(s, k).
     let s = fold (\<lambda>v. idt_set_handler v (isr v) False) exception_vectors s;
         s = idt_set_handler SYSCALL_IRQ_VECTOR syscall_entry True s;
         idtr = \<lparr>gdtr_base = idt_addr, gdtr_limit = 256 * 16 - 1\<rparr>
     in and_then (klog_from LOG_SUCCESS ''idt_init'' (bytes ''done'' @ [10]) [] k) (\<lambda>k. Inr (idtr, s, k)))"

text \<open>The names of the exceptions; the other slots of the array are null pointers.\<close>

definition exceptions :: "(u64 \<times> string) list" where
  "exceptions =
     [(0, ''Division by Zero''), (1, ''Debug''), (2, ''Non Maskable Interrupt''), (3, ''Breakpoint''),
      (4, ''Overflow''), (5, ''Bound Range Exceeded''), (6, ''Invalid opcode''), (7, ''Device not available''),
      (8, ''Double Fault''), (10, ''Invalid TSS''), (11, ''Segment not present''), (12, ''Stack Exception''),
      (13, ''General Protection fault''), (14, ''Page fault''), (16, ''x87 Floating Point Exception''),
      (17, ''Alignment check''), (18, ''Machine check''), (19, ''SIMD floating point Exception''),
      (20, ''Virtualization Exception''), (30, ''Security Exception'')]"

definition exc_name :: "u64 \<Rightarrow> string result" where
  "exc_name excno =
     (if 30 < excno then Inl Out_Of_Bounds else from_option Null_Deref (map_of exceptions excno))"

section \<open>Processor features\<close>

record cpu_regs =
  msrs :: "u32 \<Rightarrow> u64"
  cr0 :: u64
  cr4 :: u64

datatype cpuid_reg = CPUID_REG_EAX | CPUID_REG_EBX | CPUID_REG_ECX | CPUID_REG_EDX

record cpuid_feature =
  func :: u32
  param :: u32
  reg :: cpuid_reg
  mask_bits :: u32

text \<open>The processor: what \<open>cpuid\<close> leaves in each register for a leaf and a subleaf.\<close>

type_synonym cpuid_table = "u32 \<Rightarrow> u32 \<Rightarrow> cpuid_reg \<Rightarrow> u32"

definition CPUID_FEATURE_PAT :: cpuid_feature where
  "CPUID_FEATURE_PAT = \<lparr>func = 1, param = 0, reg = CPUID_REG_EDX, mask_bits = push_bit 16 1\<rparr>"

definition cpuid_check_feature :: "cpuid_table \<Rightarrow> cpuid_feature \<Rightarrow> klog \<Rightarrow> (bool \<times> klog) result" where
  "cpuid_check_feature cpuid f k =
     (let maxleaf = cpuid 0 0 CPUID_REG_EAX; maxhighleaf = cpuid 0x80000000 0 CPUID_REG_EAX
      in if maxleaf < func f \<and> func f < 0x80000000 \<or> maxhighleaf < func f \<and> 0x80000000 \<le> func f
         then and_then (klog_from LOG_WARN ''cpuid_check_feature'' (bytes ''cpuid leaf %x not supported'' @ [10])
                [Word_Arg (ucast (func f))] k) (\<lambda>k. Inr (False, k))
         else Inr (cpuid (func f) (param f) (reg f) AND mask_bits f \<noteq> 0, k))"

text \<open>The name of the maker: twelve bytes from three registers and a NUL.\<close>

definition cpuid_get_vendor :: "cpuid_table \<Rightarrow> u64 \<Rightarrow> mem \<Rightarrow> mem" where
  "cpuid_get_vendor cpuid vendor m =
     (let m = store_le 4 vendor (ucast (cpuid 0 0 CPUID_REG_EBX)) m;
          m = store_le 4 (vendor + 8) (ucast (cpuid 0 0 CPUID_REG_ECX)) m;
          m = store_le 4 (vendor + 4) (ucast (cpuid 0 0 CPUID_REG_EDX)) m
      in m(vendor + 12 := 0))"

abbreviation MSR_PAT :: u32 where "MSR_PAT \<equiv> 0x277"
abbreviation MSR_KERNEL_GS_BASE :: u32 where "MSR_KERNEL_GS_BASE \<equiv> 0xC0000102"

text \<open>The two halves in \<open>edx\<close> and \<open>eax\<close>.\<close>

definition rdmsr :: "u32 \<Rightarrow> cpu_regs \<Rightarrow> u64" where
  "rdmsr msr c =
     (let msrlow = ucast (msrs c msr) :: u32; msrhigh = ucast (drop_bit 32 (msrs c msr)) :: u32
      in push_bit 32 (ucast msrhigh) OR ucast msrlow)"

definition wrmsr :: "u32 \<Rightarrow> u64 \<Rightarrow> cpu_regs \<Rightarrow> cpu_regs" where
  "wrmsr msr val c =
     (let msrlow = ucast (val AND 0xffffffff) :: u32; msrhigh = ucast (drop_bit 32 val AND 0xffffffff) :: u32
      in c\<lparr>msrs := (msrs c)(msr := push_bit 32 (ucast msrhigh) OR ucast msrlow)\<rparr>)"

definition cpu_features_init :: "cpuid_table \<Rightarrow> cpu_regs \<Rightarrow> klog \<Rightarrow> (cpu_regs \<times> klog) result" where
  "cpu_features_init cpuid c k =
     and_then (cpuid_check_feature cpuid CPUID_FEATURE_PAT k) (\<lambda>(pat, k).
       let c = (if pat
             then let patval = rdmsr MSR_PAT c;
                      patval = patval AND NOT (push_bit 32 7);
                      patval = patval OR push_bit 32 1
                  in wrmsr MSR_PAT patval c
             else c);
           c = c\<lparr>cr0 := (cr0 c AND NOT (push_bit 2 1)) OR push_bit 1 1\<rparr>;
           c = c\<lparr>cr4 := (cr4 c OR push_bit 9 1) OR push_bit 10 1\<rparr>
       in Inr (c, k))"

section \<open>Random numbers\<close>

definition random_seed :: "u64 \<Rightarrow> u64 \<Rightarrow> u64" where
  "random_seed seed rand_state = seed"

definition random :: "u64 \<Rightarrow> u64 \<times> u64" where
  "random rand_state =
     (let r = rand_state XOR push_bit 13 rand_state;
          r = r XOR drop_bit 17 r;
          r = r XOR push_bit 5 r
      in (r, r))"

end
