(* ===== verification/CpuProps.thy ===== *)
theory CpuProps
  imports CpuSetup KlogFormat
begin

text \<open>
  The processor's tables: the addresses split over the fields of a descriptor are put together again by
  the processor, the vectors given out are fresh, the memory type the framebuffer asks for is the one the
  page attribute table has, and the random number generator is a permutation without the zero state.
\<close>

section \<open>Descriptors\<close>

text \<open>The processor's reading of a TSS descriptor and of an interrupt gate.\<close>

definition tss_base :: "mem \<Rightarrow> u64 \<Rightarrow> u64" where
  "tss_base m d = load_le 2 m (d + 2) OR push_bit 16 (load_le 1 m (d + 4))
     OR push_bit 24 (load_le 1 m (d + 7)) OR push_bit 32 (load_le 4 m (d + 8))"

definition tss_limit :: "mem \<Rightarrow> u64 \<Rightarrow> u64" where
  "tss_limit m d = load_le 2 m d OR push_bit 16 (load_le 1 m (d + 6) AND 0xf)"

definition gate_handler :: "idt_entry \<Rightarrow> u64" where
  "gate_handler e = ucast (offset_15_0 e) OR push_bit 16 (ucast (offset_31_16 e))
     OR push_bit 32 (ucast (offset_63_32 e))"

lemma bytes2: "load_le 2 m a = ucast (m a) OR push_bit 8 (ucast (m (a + 1)))"
  by (simp add: numeral_2_eq_2)

lemma bytes4: "load_le 4 m a = ucast (m a) OR push_bit 8 (ucast (m (a + 1)))
    OR push_bit 16 (ucast (m (a + 2))) OR push_bit 24 (ucast (m (a + 3)))"
proof -
  have "(4 :: nat) = Suc (Suc (Suc (Suc 0)))" by simp
  then have "load_le 4 m a = load_le (Suc (Suc (Suc (Suc 0)))) m a" by (rule arg_cong [where f = "\<lambda>n. load_le n m a"])
  then show ?thesis by (simp add: push_bit_or add.commute add.left_commute)
qed

lemma store2: "store_le 2 a v m = m(a := ucast v, a + 1 := ucast (drop_bit 8 v))"
  by (simp add: numeral_2_eq_2)

lemma store4: "store_le 4 a v m = m(a := ucast v, a + 1 := ucast (drop_bit 8 v),
    a + 2 := ucast (drop_bit 16 v), a + 3 := ucast (drop_bit 24 v))"
proof -
  have "(4 :: nat) = Suc (Suc (Suc (Suc 0)))" by simp
  then have "store_le 4 a v m = store_le (Suc (Suc (Suc (Suc 0)))) a v m"
    by (rule arg_cong [where f = "\<lambda>n. store_le n a v m"])
  then show ?thesis by (simp add: add.commute add.left_commute)
qed

lemma and_masks:
  "(x :: u64) AND 0xFF = take_bit 8 x" "x AND 0xFFFF = take_bit 16 x" "x AND 0xFFFFFFFF = take_bit 32 x"
  by (simp_all add: take_bit_eq_mask mask_eq_exp_minus_1)

lemma ucast_fields:
  "(ucast (take_bit 16 (x :: u64)) :: u8) = ucast x" "(ucast (take_bit 8 x) :: u8) = ucast x"
  "(ucast (drop_bit 8 (take_bit 16 x)) :: u8) = ucast (drop_bit 8 x)"
  by (rule bit_word_eqI, auto simp: bit_simps)+

lemma tss_bytes:
  fixes g m tss
  defines "m' \<equiv> gdt_install_tss tss g m" and "d \<equiv> gdtr_base g + 40"
  shows "m' (d + 2) = ucast tss" and "m' (d + 3) = ucast (drop_bit 8 tss)" and "m' (d + 4) = ucast (drop_bit 16 tss)"
    and "m' (d + 7) = ucast (drop_bit 24 tss)" and "m' (d + 8) = ucast (drop_bit 32 tss)"
    and "m' (d + 9) = ucast (drop_bit 40 tss)" and "m' (d + 10) = ucast (drop_bit 48 tss)"
    and "m' (d + 11) = ucast (drop_bit 56 tss)" and "m' d = 104" and "m' (d + 1) = 0" and "m' (d + 6) = 0"
  unfolding m'_def gdt_install_tss_def Let_def d_def
  by (simp_all add: store2 store4 and_masks ucast_fields)

lemma u64_bytes:
  "ucast (ucast x :: u8) OR push_bit 8 (ucast (ucast (drop_bit 8 x) :: u8))
     OR push_bit 16 (ucast (ucast (drop_bit 16 x) :: u8)) OR push_bit 24 (ucast (ucast (drop_bit 24 x) :: u8))
     OR push_bit 32 (ucast (ucast (drop_bit 32 x) :: u8)) OR push_bit 40 (ucast (ucast (drop_bit 40 x) :: u8))
     OR push_bit 48 (ucast (ucast (drop_bit 48 x) :: u8)) OR push_bit 56 (ucast (ucast (drop_bit 56 x) :: u8)) = (x :: u64)" (is "?l = _")
proof (rule bit_word_eqI)
  fix n assume "n < LENGTH(64)"
  then have n: "n < 64" by simp
  have "n div 8 < 8" using n by simp
  then consider "n < 8" | "8 \<le> n" "n < 16" | "16 \<le> n" "n < 24" | "24 \<le> n" "n < 32"
    | "32 \<le> n" "n < 40" | "40 \<le> n" "n < 48" | "48 \<le> n" "n < 56" | "56 \<le> n" "n < 64"
    using n by linarith
  then show "bit ?l n = bit x n" by cases (simp_all add: bit_simps less_diff_conv2)
qed

lemma gate_fields:
  "ucast (ucast (x AND 0xFFFF) :: u16) OR push_bit 16 (ucast (ucast (drop_bit 16 x AND 0xFFFF) :: u16))
     OR push_bit 32 (ucast (ucast (drop_bit 32 x AND 0xFFFFFFFF) :: u32)) = (x :: u64)" (is "?l = _")
proof (rule bit_word_eqI)
  fix n assume "n < LENGTH(64)"
  then consider "n < 16" | "16 \<le> n" "n < 32" | "32 \<le> n" "n < 64" by fastforce
  then show "bit ?l n = bit x n" unfolding and_masks by cases (simp_all add: bit_simps less_diff_conv2)
qed

section \<open>Properties\<close>

lemma gate_handler_back: "gate_handler (idt_make_entry h user) = h"
  using gate_fields [of h] by (simp add: gate_handler_def idt_make_entry_def)

text \<open>C37: the processor reads back from the descriptor exactly the address of the TSS that was installed, and
  from an interrupt gate the address of its handler. The limit of the TSS is its size, one more than the
  offset of its last byte.\<close>

theorem descriptors_hold_addresses:
  "tss_base (gdt_install_tss tss g m) (gdtr_base g + 40) = tss
   \<and> tss_limit (gdt_install_tss tss g m) (gdtr_base g + 40) = sizeof_tss
   \<and> gate_handler (idt_make_entry h user) = h"
proof (intro conjI)
  let ?m = "gdt_install_tss tss g m" and ?d = "gdtr_base g + 40"
  have one: "load_le 1 n a = ucast (n a)" for n a by simp
  have a: "?d + 2 + 1 = ?d + 3" "?d + 8 + 1 = ?d + 9" "?d + 8 + 2 = ?d + 10" "?d + 8 + 3 = ?d + 11" by simp_all
  show "tss_base ?m ?d = tss"
    using u64_bytes [of tss]
    unfolding tss_base_def bytes2 bytes4 one a tss_bytes by (simp add: push_bit_or or.assoc)
  show "tss_limit ?m ?d = sizeof_tss"
    unfolding tss_limit_def bytes2 one tss_bytes by simp
  show "gate_handler (idt_make_entry h user) = h" by (rule gate_handler_back)
qed

text \<open>Several vectors in a row.\<close>

primrec take_vectors :: "nat \<Rightarrow> idt_state \<Rightarrow> (u8 list \<times> idt_state) result" where
  "take_vectors 0 s = Inr ([], s)"
| "take_vectors (Suc n) s = and_then (idt_get_vector s) (\<lambda>(v, s).
     and_then (take_vectors n s) (\<lambda>(vs, s). Inr (v # vs, s)))"

lemma take_vectors_upto:
  assumes "unat (lastvector s) + n < 256"
  shows "take_vectors n s = Inr (map (\<lambda>i. lastvector s + 1 + of_nat i) [0..<n], s\<lparr>lastvector := lastvector s + of_nat n\<rparr>)"
  using assms
proof (induction n arbitrary: s)
  case (Suc n)
  let ?s = "s\<lparr>lastvector := lastvector s + 1\<rparr>"
  have u: "unat (lastvector s + 1) = unat (lastvector s) + 1" using Suc.prems by (subst unat_add_lt) simp_all
  then have "lastvector s + 1 \<noteq> 0" by (metis unat_0 add_is_0 zero_neq_one)
  then have v: "idt_get_vector s = Inr (lastvector s + 1, ?s)" by (simp add: idt_get_vector_def Let_def)
  have "take_vectors n ?s = Inr (map (\<lambda>i. lastvector ?s + 1 + of_nat i) [0..<n], ?s\<lparr>lastvector := lastvector ?s + of_nat n\<rparr>)"
    by (rule Suc.IH) (use Suc.prems u in simp)
  moreover have "map (\<lambda>i. lastvector s + 1 + of_nat i) [0..<Suc n]
      = (lastvector s + 1) # map (\<lambda>i. lastvector s + 1 + 1 + of_nat i) [0..<n]"
    by (simp only: map_upt_Suc) (simp add: algebra_simps)
  ultimately show ?case using v by (simp add: algebra_simps del: upt_Suc)
qed simp

text \<open>From the initial state the vectors given out are 61, 62, and so on, each once, up to 255, and none
  of them is an exception or the system call; the next request panics.\<close>

theorem idt_vectors_fresh:
  assumes "lastvector s = SYSCALL_IRQ_VECTOR"
  shows "take_vectors n s =
    (if n \<le> 195 then Inr (map (\<lambda>i. of_nat (61 + i)) [0..<n], s\<lparr>lastvector := of_nat (60 + n)\<rparr>)
     else Inl (Kernel_Panic ''Out of IRQ vectors''))"
proof -
  have l: "unat (lastvector s) = 60" using assms by (simp add: SYSCALL_IRQ_VECTOR_def)
  show ?thesis
proof (cases "n \<le> 195")
  case True
  then show ?thesis
    using take_vectors_upto [of s n, unfolded l] assms by (simp add: SYSCALL_IRQ_VECTOR_def add.commute)
next
  case False
  have split: "take_vectors (a + b) s = and_then (take_vectors a s) (\<lambda>(vs, s).
      and_then (take_vectors b s) (\<lambda>(ws, s). Inr (vs @ ws, s)))" for a b s
    by (induction a arbitrary: s) (auto simp: and_then_def split: sum.split)
  obtain k where n: "n = 195 + Suc k" using False less_imp_Suc_add [of 195 n] by auto
  have "take_vectors 195 s = Inr (map (\<lambda>i. lastvector s + 1 + of_nat i) [0..<195], s\<lparr>lastvector := 255\<rparr>)"
    using take_vectors_upto [of s 195, unfolded l] assms by (simp add: SYSCALL_IRQ_VECTOR_def)
  then show ?thesis using False unfolding n split by (simp add: idt_get_vector_def Let_def)
qed
qed

theorem idt_vectors_fresh_witness:
  "take_vectors 3 \<lparr>IDT = (\<lambda>v. idt_make_entry 0 False), lastvector = 60\<rparr>
     = Inr ([61, 62, 63], \<lparr>IDT = (\<lambda>v. idt_make_entry 0 False), lastvector = 63\<rparr>)"
  using idt_vectors_fresh [of "\<lparr>IDT = (\<lambda>v. idt_make_entry 0 False), lastvector = 60\<rparr>" 3]
  by (simp add: SYSCALL_IRQ_VECTOR_def upt_rec)

section \<open>Memory types\<close>

text \<open>The memory type of a page: its entry selects one of the eight fields of the page attribute table.\<close>

definition pat_index :: "u64 \<Rightarrow> nat" where
  "pat_index e = (if bit e 7 then 4 else 0) + (if bit e 4 then 2 else 0) + (if bit e 3 then 1 else 0)"

definition memory_type :: "u64 \<Rightarrow> u64 \<Rightarrow> u64" where
  "memory_type pat e = take_bit 3 (drop_bit (8 * pat_index e) pat)"

lemma rdmsr_eq: "rdmsr r c = msrs c r"
proof -
  have "push_bit 32 (ucast (ucast (drop_bit 32 v) :: u32)) OR ucast (ucast v :: u32) = v" (is "?l = _") for v :: u64
    by (rule bit_word_eqI) (auto simp: bit_simps)
  then show ?thesis by (simp add: rdmsr_def)
qed

lemma msrs_wrmsr: "msrs (wrmsr r v c) = (msrs c)(r := v)"
proof -
  have "push_bit 32 (ucast (ucast (take_bit 32 (drop_bit 32 v)) :: u32)) OR ucast (ucast (take_bit 32 v) :: u32) = v"
    for v :: u64
    by (rule bit_word_eqI) (auto simp: bit_simps)
  then show ?thesis by (simp add: wrmsr_def and_masks)
qed

lemma entry_bits:
  "bit (MAKE_TABLE_ENTRY pa fl) n = (if n < 12 then bit fl n else bit pa n \<or> bit fl n)"
proof -
  have "(0xfff :: u64) = mask 12" by (simp add: mask_eq_exp_minus_1)
  then have "MAKE_TABLE_ENTRY pa fl = (pa AND NOT (mask 12)) OR fl" by (simp only: MAKE_TABLE_ENTRY_def)
  then show ?thesis by (auto simp: bit_simps dest: bit_imp_le_length)
qed

text \<open>A page mapped with the write-combining flag has the memory type write-combining (1) once the
  processor is set up, and other pages keep the type they had.\<close>

theorem write_combining_selected:
  assumes "cpuid_check_feature cpuid CPUID_FEATURE_PAT k = Inr (True, k1)"
  shows "\<exists>c'. cpu_features_init cpuid c k = Inr (c', k1)
    \<and> memory_type (rdmsr MSR_PAT c') (MAKE_TABLE_ENTRY pa (VMM_FLAGS_DEFAULT OR VMM_FLAG_WRITECOMBINE)) = 1
    \<and> (\<forall>e. pat_index e \<noteq> 4 \<longrightarrow> memory_type (rdmsr MSR_PAT c') e = memory_type (rdmsr MSR_PAT c) e)"
proof -
  let ?p = "(rdmsr MSR_PAT c AND NOT (push_bit 32 7)) OR push_bit 32 1"
  obtain c' where c': "cpu_features_init cpuid c k = Inr (c', k1)" "rdmsr MSR_PAT c' = ?p"
    using assms by (simp add: cpu_features_init_def Let_def rdmsr_eq msrs_wrmsr)
  have seven: "(7 :: u64) = mask 3" by (simp add: mask_eq_exp_minus_1)
  have i: "pat_index (MAKE_TABLE_ENTRY pa (VMM_FLAGS_DEFAULT OR VMM_FLAG_WRITECOMBINE)) = 4"
    by (simp add: pat_index_def entry_bits VMM_FLAGS_DEFAULT_def)
  have "take_bit 3 (drop_bit 32 ?p) = 1"
    by (rule bit_word_eqI) (auto simp: seven bit_simps)
  then have "memory_type ?p (MAKE_TABLE_ENTRY pa (VMM_FLAGS_DEFAULT OR VMM_FLAG_WRITECOMBINE)) = 1"
    by (simp add: memory_type_def i)
  moreover have "memory_type ?p e = memory_type (rdmsr MSR_PAT c) e" if "pat_index e \<noteq> 4" for e
  proof (rule bit_word_eqI)
    fix n assume "n < LENGTH(64)"
    have "(4294967296 :: u64) = 2 ^ 32" by simp
    then have b: "bit (4294967296 :: u64) j \<longleftrightarrow> j = 32" for j by (simp only: bit_exp_iff) auto
    have "(4294967296 :: int) = 2 ^ 32" by simp
    then have b': "bit (4294967296 :: int) j \<longleftrightarrow> j = 32" for j by (simp only: bit_exp_iff) auto
    have "pat_index e \<le> 7" by (simp add: pat_index_def)
    moreover have "pat_index e < 4 \<or> 5 \<le> pat_index e" using that by linarith
    ultimately have "n < 3 \<Longrightarrow> 8 * pat_index e + n < 32 \<or> 40 \<le> 8 * pat_index e + n \<and> 8 * pat_index e + n < 64"
      by linarith
    then show "bit (memory_type ?p e) n = bit (memory_type (rdmsr MSR_PAT c) e) n"
      by (auto simp: memory_type_def seven b b' bit_simps)
  qed
  ultimately show ?thesis using c' by auto
qed

definition pat_cpu :: cpuid_table where
  "pat_cpu leaf sub r = (if leaf = 0 then 1 else if leaf = 1 then push_bit 16 1 else 0)"

definition reset_regs :: cpu_regs where
  "reset_regs = \<lparr>msrs = (\<lambda>r. if r = MSR_PAT then 0x0007040600070406 else 0), cr0 = 0, cr4 = 0\<rparr>"

theorem write_combining_selected_witness:
  "\<exists>c'. cpu_features_init pat_cpu reset_regs empty_klog = Inr (c', empty_klog)
    \<and> memory_type (rdmsr MSR_PAT c') (MAKE_TABLE_ENTRY 0xfd000000 (VMM_FLAGS_DEFAULT OR VMM_FLAG_WRITECOMBINE)) = 1"
proof -
  have "cpuid_check_feature pat_cpu CPUID_FEATURE_PAT empty_klog = Inr (True, empty_klog)"
    by (simp add: cpuid_check_feature_def pat_cpu_def CPUID_FEATURE_PAT_def Let_def word_le_nat_alt)
  from write_combining_selected [OF this, of reset_regs "0xfd000000"] show ?thesis by blast
qed

section \<open>The name of the maker\<close>

lemma fields_apart:
  assumes "in_range (a + of_nat i) 4 x" and "in_range (a + of_nat j) n x" and "i + 4 \<le> j" and "j + n < 64"
  shows False
proof -
  obtain k l where k: "k < 4" "x = a + of_nat (i + k)" and l: "l < n" "x = a + of_nat (j + l)"
    using assms(1,2) by (auto simp: in_range_def algebra_simps)
  then have "a + of_nat (i + k) = a + of_nat (j + l)" by simp
  then have "i + k = j + l" by (rule offset_inj) (use k(1) l(1) assms(3,4) in simp_all)
  then show False using k(1) assms(3) by simp
qed

lemma load_le_kept:
  assumes "\<And>x. in_range (a + of_nat i) 4 x \<Longrightarrow> \<not> in_range (a + of_nat j) n x"
  shows "load_le 4 (store_le n (a + of_nat j) v m) (a + of_nat i) = load_le 4 m (a + of_nat i)"
  by (rule load_le_cong, rule store_le_frame, rule assms) (auto simp: in_range_def)

lemma take_bit_reg: "take_bit 32 (ucast (v :: u32) :: u64) = ucast v"
  by (rule bit_word_eqI) (auto simp: bit_simps dest: bit_imp_le_length)

lemma vendor_registers:
  "load_le 4 (cpuid_get_vendor cpuid a m) a = ucast (cpuid 0 0 CPUID_REG_EBX)"
  "load_le 4 (cpuid_get_vendor cpuid a m) (a + 4) = ucast (cpuid 0 0 CPUID_REG_EDX)"
  "load_le 4 (cpuid_get_vendor cpuid a m) (a + 8) = ucast (cpuid 0 0 CPUID_REG_ECX)"
  "cpuid_get_vendor cpuid a m (a + 12) = 0"
proof -
  have end_byte: "load_le 4 (m'(a + 12 := 0)) (a + of_nat i) = load_le 4 m' (a + of_nat i)" if "i \<le> 8" for m' i
  proof (rule load_le_cong)
    fix k :: nat assume "k < 4"
    then have "a + of_nat (i + k) \<noteq> a + of_nat 12" using that offset_inj [of a "i + k" 12] by auto
    then show "(m'(a + 12 := 0)) (a + of_nat i + of_nat k) = m' (a + of_nat i + of_nat k)" by (simp add: algebra_simps)
  qed
  have kept: "load_le 4 (store_le 4 (a + of_nat j) v m') (a + of_nat i) = load_le 4 m' (a + of_nat i)"
    if "i + 4 \<le> j \<or> j + 4 \<le> i" "i \<le> 8" "j \<le> 8" for i j v m'
    by (rule load_le_kept) (use that fields_apart [of a i _ j 4] fields_apart [of a j _ i 4] in auto)
  note same = load_store_le [of 4, simplified] take_bit_reg
  note f = cpuid_get_vendor_def Let_def
  show "load_le 4 (cpuid_get_vendor cpuid a m) a = ucast (cpuid 0 0 CPUID_REG_EBX)"
    using end_byte [of 0] kept [of 0 4] kept [of 0 8] by (simp add: f same)
  show "load_le 4 (cpuid_get_vendor cpuid a m) (a + 4) = ucast (cpuid 0 0 CPUID_REG_EDX)"
    using end_byte [of 4] by (simp add: f same)
  show "load_le 4 (cpuid_get_vendor cpuid a m) (a + 8) = ucast (cpuid 0 0 CPUID_REG_ECX)"
    using end_byte [of 8] kept [of 8 4] by (simp add: f same)
  show "cpuid_get_vendor cpuid a m (a + 12) = 0" by (simp add: f)
qed

section \<open>Random numbers\<close>

lemma xor_push_inj:
  assumes "(x :: u64) XOR push_bit n x = y XOR push_bit n y" and "0 < n"
  shows "x = y"
proof -
  have eq: "bit (x XOR push_bit n x) i = bit (y XOR push_bit n y) i" for i using assms(1) by simp
  have "bit x i = bit y i" if "i < 64" for i
    using that
  proof (induction i rule: less_induct)
    case (less i)
    have "n \<le> i \<Longrightarrow> bit x (i - n) = bit y (i - n)" using less assms(2) by simp
    then show ?case using eq [of i] less.prems by (auto simp: bit_simps)
  qed
  then show ?thesis by (intro bit_word_eqI) simp
qed

lemma xor_drop_inj:
  assumes "(x :: u64) XOR drop_bit n x = y XOR drop_bit n y" and "0 < n"
  shows "x = y"
proof -
  have eq: "bit (x XOR drop_bit n x) i = bit (y XOR drop_bit n y) i" for i using assms(1) by simp
  have "bit x i = bit y i" for i
  proof (induction "64 - i" arbitrary: i rule: less_induct)
    case less
    show ?case
    proof (cases "i < 64")
      case True
      then have "bit x (n + i) = bit y (n + i)" using less assms(2) by simp
      then show ?thesis using eq [of i] by (auto simp: bit_simps)
    qed (auto dest: bit_imp_le_length)
  qed
  then show ?thesis by (intro bit_word_eqI) simp
qed

text \<open>The generator is a permutation of its states: different states have different successors, and
  only the seed 0 ever yields 0.\<close>

theorem random_permutes_states:
  "(fst (random x) = fst (random y) \<longleftrightarrow> x = y) \<and> (fst (random x) = 0 \<longleftrightarrow> x = 0) \<and> snd (random x) = fst (random x)"
proof -
  have inj: "x = y" if "fst (random x) = fst (random y)" for x y
  proof -
    define a b c where "a = (\<lambda>u :: u64. u XOR push_bit 13 u)" and "b = (\<lambda>u :: u64. u XOR drop_bit 17 u)"
      and "c = (\<lambda>u :: u64. u XOR push_bit 5 u)"
    have fst: "fst (random u) = c (b (a u))" for u by (simp only: random_def Let_def fst_conv a_def b_def c_def)
    have "c (b (a x)) = c (b (a y))" using that by (simp only: fst)
    then have "b (a x) = b (a y)" unfolding c_def by (rule xor_push_inj) simp
    then have "a x = a y" unfolding b_def by (rule xor_drop_inj) simp
    then show "x = y" unfolding a_def by (rule xor_push_inj) simp
  qed
  have "fst (random 0) = 0" by (simp add: random_def)
  then show ?thesis using inj [of x 0] inj [of x y] by (auto simp: random_def Let_def)
qed

end
