(* ===== verification/Acpi.thy ===== *)
theory Acpi
  imports Pmm KlogFormat
begin

text \<open>
  \<open>kernel/boot/stivale2.c\<close>, \<open>kernel/sys/acpi/acpi.c\<close> and \<open>madt.c\<close>: what the kernel reads from tables that
  the bootloader and the firmware left in memory. Tags are a linked list, the root table an array of
  pointers, the MADT a sequence of records of their own length. The walks are partial functions: a cyclic
  list of tags, or a record of length 0, never ends.
\<close>

section \<open>Boot tags\<close>

partial_function (option) find_tag :: "mem \<Rightarrow> u64 \<Rightarrow> u64 \<Rightarrow> u64 option option" where
  "find_tag m ident t =
     (if t = 0 then Some None
      else let tag = PHYS_TO_VIRT t
           in if load64 m tag = ident then Some (Some tag) else find_tag m ident (load64 m (tag + 8)))"

text \<open>\<open>s->tags\<close> stands behind the 128 bytes of the bootloader's brand and version.\<close>

definition stv2_find_struct_tag :: "u64 \<Rightarrow> u64 \<Rightarrow> mem \<Rightarrow> klog \<Rightarrow> (u64 \<times> klog) result" where
  "stv2_find_struct_tag s ident m k =
     and_then (from_option Diverges (find_tag m ident (load64 m (s + 128)))) (\<lambda>t.
       case t of Some tag \<Rightarrow> Inr (tag, k)
       | None \<Rightarrow> and_then (klog_from LOG_WARN ''stv2_find_struct_tag''
              (bytes ''stv2_find_struct_tag(): tag %x not found'' @ [10]) [Word_Arg ident] k) (\<lambda>k. Inr (0, k)))"

section \<open>The root table\<close>

record acpi =
  rsdt :: u64
  xsdt :: u64
  xsdt_present :: bool

abbreviation sizeof_acpi_sdt :: u64 where "sizeof_acpi_sdt \<equiv> 36"

definition sdt_length :: "mem \<Rightarrow> u64 \<Rightarrow> u64" where
  "sdt_length m t = load_le 4 m (t + 4)"

text \<open>The tables the root table points to: 64-bit pointers in an XSDT, 32-bit ones in an RSDT.\<close>

definition sdt_tables :: "mem \<Rightarrow> acpi \<Rightarrow> u64 list" where
  "sdt_tables m a =
     (if xsdt_present a
      then map (\<lambda>i. PHYS_TO_VIRT (load_le 8 m (xsdt a + sizeof_acpi_sdt + 8 * of_nat i)))
             [0..<unat ((sdt_length m (xsdt a) - sizeof_acpi_sdt) div 8)]
      else map (\<lambda>i. PHYS_TO_VIRT (load_le 4 m (rsdt a + sizeof_acpi_sdt + 4 * of_nat i)))
             [0..<unat ((sdt_length m (rsdt a) - sizeof_acpi_sdt) div 4)])"

definition sign_matches :: "mem \<Rightarrow> u8 list \<Rightarrow> u64 \<Rightarrow> bool" where
  "sign_matches m sign t \<longleftrightarrow> map (\<lambda>i. m (t + of_nat i)) [0..<4] = take 4 sign"

definition acpi_get_sdt :: "u8 list \<Rightarrow> mem \<Rightarrow> acpi \<Rightarrow> klog \<Rightarrow> (u64 \<times> klog) result" where
  "acpi_get_sdt sign m a k =
     (case find (sign_matches m sign) (sdt_tables m a) of
        Some t \<Rightarrow> and_then (klog_from LOG_INFO ''acpi_get_sdt''
            (bytes ''found SDT '' @ 34 # bytes ''%s'' @ [34, 10]) [Str_Arg sign] k) (\<lambda>k. Inr (t, k))
      | None \<Rightarrow> and_then (klog_from LOG_WARN ''acpi_get_sdt''
            (bytes ''SDT '' @ 34 # bytes ''%s'' @ 34 # bytes '' not found.'' @ [10]) [Str_Arg sign] k) (\<lambda>k. Inr (0, k)))"

section \<open>The MADT\<close>

text \<open>The arrays of pointers, filled up to \<open>num_lapic\<close> and \<open>num_ioapic\<close>.\<close>

record madt_info =
  madt :: u64
  lapics :: "u64 list"
  io_apics :: "u64 list"

abbreviation sizeof_madt :: u64 where "sizeof_madt \<equiv> 44"

definition madt_get_num_lapic :: "madt_info \<Rightarrow> u32" where "madt_get_num_lapic d = of_nat (length (lapics d))"
definition madt_get_num_ioapic :: "madt_info \<Rightarrow> u32" where "madt_get_num_ioapic d = of_nat (length (io_apics d))"
definition madt_get_lapic_base :: "mem \<Rightarrow> madt_info \<Rightarrow> u64" where "madt_get_lapic_base m d = load_le 4 m (madt d + 36)"

definition madt_record :: "mem \<Rightarrow> u64 \<Rightarrow> madt_info \<Rightarrow> madt_info" where
  "madt_record m rec d =
     (if m rec = 0 then (if CPU_MAX \<le> length (lapics d) then d else d\<lparr>lapics := lapics d @ [rec]\<rparr>)
      else if m rec = 1 then (if 2 < length (io_apics d) then d else d\<lparr>io_apics := io_apics d @ [rec]\<rparr>)
      else d)"

partial_function (option) madt_loop :: "mem \<Rightarrow> u64 \<Rightarrow> u64 \<Rightarrow> u64 \<Rightarrow> madt_info \<Rightarrow> madt_info option" where
  "madt_loop m records sz i d =
     (if i < sz
      then let rec = records + i in madt_loop m records sz (i + ucast (m (rec + 1))) (madt_record m rec d)
      else Some d)"

definition madt_init :: "mem \<Rightarrow> acpi \<Rightarrow> madt_info \<Rightarrow> klog \<Rightarrow> (madt_info \<times> klog) result" where
  "madt_init m a d k =
     and_then (acpi_get_sdt (bytes ''APIC'') m a k) (\<lambda>(t, k).
       let d = d\<lparr>madt := t\<rparr> in
       if t = 0 then Inl (Kernel_Panic ''MADT not found'')
       else and_then (from_option Diverges
              (madt_loop m (t + sizeof_madt) (sdt_length m t - sizeof_madt) 0 d)) (\<lambda>d.
            and_then (klog_from LOG_SUCCESS ''madt_init'' (bytes ''MADT initialized'' @ [10]) [] k) (\<lambda>k.
            Inr (d, k))))"

text \<open>The revision, the 32-bit and the 64-bit address of the root table are at the offsets 15, 16 and 24.\<close>

definition acpi_init :: "u64 \<Rightarrow> mem \<Rightarrow> acpi \<Rightarrow> madt_info \<Rightarrow> klog \<Rightarrow> (acpi \<times> madt_info \<times> klog) result" where
  "acpi_init rsdp_phys m a d k =
     (let rsdp = PHYS_TO_VIRT rsdp_phys;
          v2 = (m (rsdp + 15) = 2);
          a = (if v2 then a\<lparr>xsdt := PHYS_TO_VIRT (load_le 8 m (rsdp + 24)), xsdt_present := True\<rparr>
               else a\<lparr>rsdt := PHYS_TO_VIRT (load_le 4 m (rsdp + 16)), xsdt_present := False\<rparr>)
      in and_then (klog_from LOG_INFO ''acpi_init''
            (bytes (if v2 then ''v2.0 detected'' else ''v1.0 detected'') @ [10]) [] k) (\<lambda>k.
         and_then (madt_init m a d k) (\<lambda>(d, k).
         and_then (klog_from LOG_SUCCESS ''acpi_init'' (bytes ''done'' @ [10]) [] k) (\<lambda>k.
         Inr (a, d, k)))))"

section \<open>Printing never stops these functions\<close>

lemma klog_from_returns:
  assumes "length (tmpbuf k) = 65"
    and "\<exists>t. format_text (ESC # bytes ''[37;1m%s:'' @ ESC # bytes ''[0m '' @ s) (Str_Arg (bytes f) # args) = Inr t"
  shows "\<exists>k'. klog_from lvl f s args k = Inr k' \<and> length (tmpbuf k') = 65"
proof -
  obtain t where "format_text (ESC # bytes ''[37;1m%s:'' @ ESC # bytes ''[0m '' @ s) (Str_Arg (bytes f) # args) = Inr t"
    using assms(2) by blast
  moreover have "length (tmpbuf (puts (level_prefix lvl) k)) = 65"
    using assms(1) by (simp add: puts_takeWhile)
  ultimately show ?thesis
    using vprintf_printed [where i = 0 and k = "puts (level_prefix lvl) k" and args = "Str_Arg (bytes f) # args"
        and s = "ESC # bytes ''[37;1m%s:'' @ ESC # bytes ''[0m '' @ s"] printed_tmpbuf
    by (auto simp: klog_from_def klog_level_def)
qed

lemma plain_format:
  "\<exists>t. format_text s args = Inr t \<Longrightarrow>
    \<exists>t. format_text (ESC # bytes ''[37;1m%s:'' @ ESC # bytes ''[0m '' @ s) (Str_Arg (bytes f) # args) = Inr t"
  by (auto simp: bytes_def ESC_def directive_text_def format_plain)

lemma acpi_get_sdt_returns:
  assumes "length (tmpbuf k) = 65"
  shows "\<exists>k'. acpi_get_sdt sign m a k = Inr (case find (sign_matches m sign) (sdt_tables m a) of None \<Rightarrow> 0 | Some t \<Rightarrow> t, k')
    \<and> length (tmpbuf k') = 65"
proof (cases "find (sign_matches m sign) (sdt_tables m a)")
  case None
  have "\<exists>t. format_text (bytes ''SDT '' @ 34 # bytes ''%s'' @ 34 # bytes '' not found.'' @ [10]) [Str_Arg sign] = Inr t"
    by (simp add: bytes_def directive_text_def)
  from klog_from_returns [OF assms plain_format [OF this], of LOG_WARN "''acpi_get_sdt''"] None show ?thesis by (auto simp: acpi_get_sdt_def)
next
  case (Some t)
  have "\<exists>t. format_text (bytes ''found SDT '' @ 34 # bytes ''%s'' @ [34, 10]) [Str_Arg sign] = Inr t"
    by (simp add: bytes_def directive_text_def)
  from klog_from_returns [OF assms plain_format [OF this], of LOG_INFO "''acpi_get_sdt''"] Some show ?thesis by (auto simp: acpi_get_sdt_def)
qed

end
