(* ===== verification/AcpiProps.thy ===== *)
theory AcpiProps
  imports Acpi
begin

text \<open>
  The walks over the boot and firmware tables: on a finite list of tags the search ends with the first
  tag of its kind, on well-formed records the MADT walk ends with the processors and I/O APICs in order,
  and a record of length 0 is never left.
\<close>

section \<open>Boot tags\<close>

text \<open>The list of tags, by their physical addresses.\<close>

primrec tags_at :: "mem \<Rightarrow> u64 \<Rightarrow> u64 list \<Rightarrow> bool" where
  "tags_at m t [] \<longleftrightarrow> t = 0"
| "tags_at m t (x # xs) \<longleftrightarrow> t = x \<and> x \<noteq> 0 \<and> tags_at m (load64 m (PHYS_TO_VIRT x + 8)) xs"

definition first_tag :: "mem \<Rightarrow> u64 \<Rightarrow> u64 list \<Rightarrow> u64 option" where
  "first_tag m ident ts = map_option PHYS_TO_VIRT (find (\<lambda>x. load64 m (PHYS_TO_VIRT x) = ident) ts)"

lemma find_tag_list: "tags_at m t ts \<Longrightarrow> find_tag m ident t = Some (first_tag m ident ts)"
proof (induction ts arbitrary: t)
  case Nil
  then show ?case by (subst find_tag.simps) (simp add: first_tag_def)
next
  case (Cons x xs)
  then show ?case by (subst find_tag.simps) (auto simp: Let_def first_tag_def)
qed

section \<open>MADT records\<close>

definition bytes_at :: "mem \<Rightarrow> u64 \<Rightarrow> u8 list \<Rightarrow> bool" where
  "bytes_at m a bs \<longleftrightarrow> (\<forall>i<length bs. m (a + of_nat i) = bs ! i)"

lemma bytes_at_append:
  "bytes_at m a (xs @ ys) \<longleftrightarrow> bytes_at m a xs \<and> bytes_at m (a + of_nat (length xs)) ys"
proof -
  have "(\<forall>i<n + k. P i) \<longleftrightarrow> (\<forall>i<n. P i) \<and> (\<forall>i<k. P (n + i))" for P :: "nat \<Rightarrow> bool" and n k
    by (induction k) (auto simp: less_Suc_eq)
  then show ?thesis
    unfolding bytes_at_def length_append by (simp add: nth_append add.assoc)
qed

lemma bytes_at_simps [simp]:
  "bytes_at m a []" "bytes_at m a (b # bs) \<longleftrightarrow> m a = b \<and> bytes_at m (a + 1) bs"
  using bytes_at_append [of m a "[b]" bs] by (simp_all add: bytes_at_def)

text \<open>A record starts with its type and its length.\<close>

definition madt_rec :: "u8 list \<Rightarrow> bool" where
  "madt_rec r \<longleftrightarrow> 2 \<le> length r \<and> length r < 256 \<and> r ! 1 = of_nat (length r)"

primrec rec_addrs :: "u64 \<Rightarrow> u8 list list \<Rightarrow> u64 list" where
  "rec_addrs a [] = []"
| "rec_addrs a (r # rs) = a # rec_addrs (a + of_nat (length r)) rs"

lemma madt_loop_records:
  assumes "bytes_at m (records + i) (concat rs)" and "\<forall>r\<in>set rs. madt_rec r"
    and "unat i + length (concat rs) = unat sz"
  shows "madt_loop m records sz i d = Some (fold (madt_record m) (rec_addrs (records + i) rs) d)"
  using assms
proof (induction rs arbitrary: i d)
  case Nil
  then have "i = sz" by (simp add: word_unat_eq_iff)
  then show ?case by (subst madt_loop.simps) simp
next
  case (Cons r rs)
  have r: "2 \<le> length r" "length r < 256" "r ! 1 = of_nat (length r)" using Cons.prems(2) by (simp_all add: madt_rec_def)
  have at: "bytes_at m (records + i) r" "bytes_at m (records + i + of_nat (length r)) (concat rs)"
    using Cons.prems(1) by (simp_all add: bytes_at_append)
  have "m (records + i + of_nat 1) = r ! 1" using at(1) r(1) unfolding bytes_at_def by (metis Suc_le_eq Suc_1 One_nat_def)
  then have "m (records + i + 1) = of_nat (length r)" using r(3) by simp
  then have len: "(ucast (m (records + i + 1)) :: u64) = of_nat (length r)"
    using r(2) by (simp add: word_unat_eq_iff unsigned_ucast_eq unat_of_nat take_bit_nat_eq_self)
  have "unat sz < 2 ^ 64" using unsigned_less [of sz, where ?'a = nat] by simp
  then have next_i: "unat (i + of_nat (length r)) = unat i + length r"
    using Cons.prems(3) r(2) by (subst unat_add_lt) simp_all
  have "madt_loop m records sz (i + of_nat (length r)) d'
      = Some (fold (madt_record m) (rec_addrs (records + (i + of_nat (length r))) rs) d')" for d'
    by (rule Cons.IH) (use Cons.prems at next_i in \<open>simp_all add: add.assoc\<close>)
  moreover have "i < sz" using Cons.prems(3) r(1) by (simp add: word_less_nat_alt)
  ultimately show ?case
    by (subst madt_loop.simps) (simp add: Let_def len [unfolded add.assoc] add.assoc)
qed

lemma madt_records_lapics:
  "length (lapics d) \<le> 256 \<Longrightarrow> lapics (fold (madt_record m) as d)
    = lapics d @ take (256 - length (lapics d)) (filter (\<lambda>a. m a = 0) as)"
proof (induction as arbitrary: d)
  case (Cons a as)
  show ?case
  proof (cases "m a = 0 \<and> length (lapics d) < 256")
    case True
    then have d': "madt_record m a d = d\<lparr>lapics := lapics d @ [a]\<rparr>" by (simp add: madt_record_def)
    have "256 - length (lapics d) = Suc (256 - Suc (length (lapics d)))" using True by linarith
    then show ?thesis using Cons.IH [of "d\<lparr>lapics := lapics d @ [a]\<rparr>"] True by (simp add: d')
  next
    case False
    then have "lapics (madt_record m a d) = lapics d" by (auto simp: madt_record_def)
    then show ?thesis using Cons.IH [of "madt_record m a d"] Cons.prems False by auto
  qed
qed simp

lemma madt_records_ioapics:
  "length (io_apics d) \<le> 3 \<Longrightarrow> io_apics (fold (madt_record m) as d)
    = io_apics d @ take (3 - length (io_apics d)) (filter (\<lambda>a. m a = 1) as)"
proof (induction as arbitrary: d)
  case (Cons a as)
  show ?case
  proof (cases "m a = 1 \<and> length (io_apics d) < 3")
    case True
    then have d': "madt_record m a d = d\<lparr>io_apics := io_apics d @ [a]\<rparr>" by (simp add: madt_record_def)
    have "3 - length (io_apics d) = Suc (3 - Suc (length (io_apics d)))" using True by linarith
    then show ?thesis using Cons.IH [of "d\<lparr>io_apics := io_apics d @ [a]\<rparr>"] True by (simp add: d')
  next
    case False
    then have "io_apics (madt_record m a d) = io_apics d" by (auto simp: madt_record_def)
    then show ?thesis using Cons.IH [of "madt_record m a d"] Cons.prems False by auto
  qed
qed simp

lemma madt_record_madt: "madt (fold (madt_record m) as d) = madt d"
  by (induction as arbitrary: d) (simp_all add: madt_record_def)

section \<open>Properties\<close>

text \<open>On a finite list of tags the search ends, with the first tag of that identifier or NULL.\<close>

theorem find_struct_tag_first:
  assumes "tags_at m (load64 m (s + 128)) ts" and "length (tmpbuf k) = 65"
  shows "\<exists>k'. stv2_find_struct_tag s ident m k
    = Inr (case first_tag m ident ts of None \<Rightarrow> 0 | Some t \<Rightarrow> t, k') \<and> length (tmpbuf k') = 65"
proof -
  have "\<exists>t. format_text (bytes ''stv2_find_struct_tag(): tag %x not found'' @ [10]) [Word_Arg ident] = Inr t"
    by (simp add: bytes_def directive_text_def)
  from klog_from_returns [OF assms(2) plain_format [OF this], of LOG_WARN "''stv2_find_struct_tag''"]
  show ?thesis
    using assms(2) by (cases "first_tag m ident ts")
      (auto simp: stv2_find_struct_tag_def find_tag_list [OF assms(1)])
qed

text \<open>Two tags: identifier 7 at physical address 0x1000, then 9 at 0x2000.\<close>

definition two_tags :: mem where
  "two_tags = (\<lambda>a. 0)(0x581 := 0x10, 0xffff800000001000 := 7, 0xffff800000001009 := 0x20, 0xffff800000002000 := 9)"

lemma two_tags_at: "tags_at two_tags (load64 two_tags 0x580) [0x1000, 0x2000]"
  by (simp add: two_tags_def PHYS_TO_VIRT_def load64_bytes)

theorem find_struct_tag_first_witness:
  "\<exists>k'. stv2_find_struct_tag 0x500 9 two_tags empty_klog = Inr (PHYS_TO_VIRT 0x2000, k')"
proof -
  have f: "first_tag two_tags 9 [0x1000, 0x2000] = Some (PHYS_TO_VIRT 0x2000)"
    by (simp add: first_tag_def two_tags_def PHYS_TO_VIRT_def load64_bytes)
  have "tags_at two_tags (load64 two_tags (0x500 + 128)) [0x1000, 0x2000]" using two_tags_at by simp
  from find_struct_tag_first [OF this empty_klog_tmpbuf, of 9] show ?thesis unfolding f by auto
qed

text \<open>What \<open>madt_init\<close> lists in general. The comment in the code says that two I/O APICs are supported, but the guard
  lets a third one in (the array has four slots).\<close>

lemma madt_init_result:
  assumes "find (sign_matches m (bytes ''APIC'')) (sdt_tables m a) = Some t" and "t \<noteq> 0"
    and "bytes_at m (t + sizeof_madt) (concat rs)" and "\<forall>r\<in>set rs. madt_rec r"
    and "unat (sdt_length m t - sizeof_madt) = length (concat rs)"
    and "lapics d = []" and "io_apics d = []" and "length (tmpbuf k) = 65"
  shows "\<exists>k'. madt_init m a d k = Inr (
    \<lparr>madt = t,
     lapics = take 256 (filter (\<lambda>r. m r = 0) (rec_addrs (t + sizeof_madt) rs)),
     io_apics = take 3 (filter (\<lambda>r. m r = 1) (rec_addrs (t + sizeof_madt) rs))\<rparr>, k')"
proof -
  let ?d = "fold (madt_record m) (rec_addrs (t + sizeof_madt) rs) (d\<lparr>madt := t\<rparr>)"
  obtain k1 where k1: "acpi_get_sdt (bytes ''APIC'') m a k = Inr (t, k1)" "length (tmpbuf k1) = 65"
    using acpi_get_sdt_returns [OF assms(8), of "bytes ''APIC''" m a] assms(1) by auto
  have "\<exists>t. format_text (bytes ''MADT initialized'' @ [10]) [] = Inr t" by (simp add: bytes_def)
  from klog_from_returns [OF k1(2) plain_format [OF this], of LOG_SUCCESS "''madt_init''"]
  obtain k2 where k2: "klog_from LOG_SUCCESS ''madt_init'' (bytes ''MADT initialized'' @ [10]) [] k1 = Inr k2" by blast
  have "madt_loop m (t + sizeof_madt) (sdt_length m t - sizeof_madt) 0 (d\<lparr>madt := t\<rparr>) = Some ?d"
    using madt_loop_records [of m "t + sizeof_madt" 0 rs] assms(3-5) by simp
  moreover have "?d = \<lparr>madt = t, lapics = lapics ?d, io_apics = io_apics ?d\<rparr>"
    by (rule madt_info.equality) (simp_all add: madt_record_madt)
  ultimately show ?thesis
    using k1 k2 assms(2,6,7) by (simp add: madt_init_def madt_records_lapics madt_records_ioapics)
qed

text \<open>C36: when the MADT is there, its records are well formed and it has at most two I/O APICs, the number the code
  says it supports, \<open>madt_init\<close> ends with all I/O APICs and the first 256 local APICs, in the order of the table.\<close>

theorem madt_init_lists_apics:
  assumes "find (sign_matches m (bytes ''APIC'')) (sdt_tables m a) = Some t" and "t \<noteq> 0"
    and "bytes_at m (t + sizeof_madt) (concat rs)" and "\<forall>r\<in>set rs. madt_rec r"
    and "unat (sdt_length m t - sizeof_madt) = length (concat rs)"
    and "length (filter (\<lambda>r. m r = 1) (rec_addrs (t + sizeof_madt) rs)) \<le> 2"
    and "lapics d = []" and "io_apics d = []" and "length (tmpbuf k) = 65"
  shows "\<exists>k'. madt_init m a d k = Inr (
    \<lparr>madt = t,
     lapics = take 256 (filter (\<lambda>r. m r = 0) (rec_addrs (t + sizeof_madt) rs)),
     io_apics = filter (\<lambda>r. m r = 1) (rec_addrs (t + sizeof_madt) rs)\<rparr>, k')"
  using madt_init_result [OF assms(1-5,7-9)] assms(6) by simp

text \<open>A root table with one pointer, to a MADT with a processor and an I/O APIC.\<close>

definition small_madt :: mem where
  "small_madt = (\<lambda>a. 0)(0x3004 := 44, 0x3025 := 0x40,
     0xffff800000004000 := 0x41, 0xffff800000004001 := 0x50, 0xffff800000004002 := 0x49,
     0xffff800000004003 := 0x43, 0xffff800000004004 := 64,
     0xffff80000000402d := 8, 0xffff800000004030 := 1,
     0xffff800000004034 := 1, 0xffff800000004035 := 12)"

definition small_acpi :: acpi where
  "small_acpi = \<lparr>rsdt = 0, xsdt = 0x3000, xsdt_present = True\<rparr>"

definition no_apics :: madt_info where
  "no_apics = \<lparr>madt = 0x1000, lapics = [], io_apics = []\<rparr>"

definition small_records :: "u8 list list" where
  "small_records = [[0, 8, 0, 0, 1, 0, 0, 0], [1, 12, 0, 0, 0, 0, 0, 0, 0, 0, 0, 0]]"

lemma small_tables: "sdt_tables small_madt small_acpi = [0xffff800000004000]"
  by (simp add: sdt_tables_def small_acpi_def sdt_length_def load32_bytes load64_bytes small_madt_def PHYS_TO_VIRT_def)

lemma small_sign: "sign_matches small_madt (bytes ''APIC'') 0xffff800000004000"
  by (simp add: sign_matches_def small_madt_def bytes_def upt_rec)

lemma small_records_at:
  "bytes_at small_madt (0xffff800000004000 + sizeof_madt) (concat small_records)"
  "\<forall>r\<in>set small_records. madt_rec r"
  "unat (sdt_length small_madt 0xffff800000004000 - sizeof_madt) = length (concat small_records)"
  by (simp_all add: small_records_def small_madt_def madt_rec_def sdt_length_def load32_bytes)

theorem madt_init_lists_apics_witness:
  "\<exists>k. madt_init small_madt small_acpi no_apics empty_klog = Inr (
    \<lparr>madt = 0xffff800000004000, lapics = [0xffff80000000402c], io_apics = [0xffff800000004034]\<rparr>, k)"
proof -
  have "find (sign_matches small_madt (bytes ''APIC'')) (sdt_tables small_madt small_acpi) = Some 0xffff800000004000"
    using small_sign by (simp add: small_tables)
  moreover have "filter (\<lambda>r. small_madt r = 0) (rec_addrs (0xffff800000004000 + sizeof_madt) small_records) = [0xffff80000000402c]"
    "filter (\<lambda>r. small_madt r = 1) (rec_addrs (0xffff800000004000 + sizeof_madt) small_records) = [0xffff800000004034]"
    by (simp_all add: small_records_def small_madt_def)
  ultimately show ?thesis
    using madt_init_lists_apics [OF _ _ small_records_at, of small_acpi no_apics empty_klog] empty_klog_tmpbuf
    by (simp add: no_apics_def)
qed

text \<open>A record whose length field is 0 is never left: the walk over the MADT does not end.\<close>

theorem madt_zero_length_diverges:
  assumes "i < sz" and "m (records + i + 1) = 0"
  shows "madt_loop m records sz i d = None"
proof -
  let ?P = "\<lambda>m' rec sz' j d' r. \<not> (m' = m \<and> rec = records \<and> sz' = sz \<and> j = i)"
  have "?P m records sz i d r" if "madt_loop m records sz i d = Some r" for r
  proof (rule madt_loop.raw_induct [where P = ?P, OF _ that])
    fix f :: "mem \<Rightarrow> u64 \<Rightarrow> u64 \<Rightarrow> u64 \<Rightarrow> madt_info \<Rightarrow> madt_info option" and m' rec sz' j d' r
    assume ih: "\<And>m' rec sz' j d' r. f m' rec sz' j d' = Some r \<Longrightarrow> ?P m' rec sz' j d' r"
      and run: "(if j < sz' then let a = rec + j in f m' rec sz' (j + ucast (m' (a + 1))) (madt_record m' a d')
        else Some d') = Some r"
    show "?P m' rec sz' j d' r"
    proof
      assume "m' = m \<and> rec = records \<and> sz' = sz \<and> j = i"
      then have "f m records sz i (madt_record m (records + i) d') = Some r"
        using run assms by (simp add: Let_def)
      then show False using ih by blast
    qed
  qed
  then show ?thesis by (cases "madt_loop m records sz i d") blast+
qed

theorem madt_zero_length_diverges_witness: "madt_loop (\<lambda>a. 0) 0x1000 8 0 no_apics = None"
  by (rule madt_zero_length_diverges) simp_all

end
