(* ===== verification/Apic.thy ===== *)
theory Apic
  imports CpuProps AcpiProps
begin

text \<open>
  \<open>kernel/sys/apic/apic.c\<close>, \<open>timer.c\<close> and \<open>kernel/sys/hpet.c\<close>: the local interrupt controller, its timer and
  the clock. A device is the values its registers read as and the writes it was sent, in order; what the
  countdown register reads after the calibration, and the clock's counter, are the device's.
\<close>

section \<open>Registers\<close>

definition APIC_REG_ID :: u16 where "APIC_REG_ID = 0x20"
definition APIC_REG_SPURIOUS_INT :: u16 where "APIC_REG_SPURIOUS_INT = 0xf0"
definition APIC_REG_EOI :: u16 where "APIC_REG_EOI = 0xb0"
definition APIC_REG_ICR_LOW :: u16 where "APIC_REG_ICR_LOW = 0x300"
definition APIC_REG_ICR_HIGH :: u16 where "APIC_REG_ICR_HIGH = 0x310"
definition APIC_REG_TIMER_LVT :: u16 where "APIC_REG_TIMER_LVT = 0x320"
definition APIC_REG_TIMER_ICR :: u16 where "APIC_REG_TIMER_ICR = 0x380"
definition APIC_REG_TIMER_CCR :: u16 where "APIC_REG_TIMER_CCR = 0x390"
definition APIC_REG_TIMER_DCR :: u16 where "APIC_REG_TIMER_DCR = 0x3e0"

definition APIC_SPURIOUS_VECTOR_NUM :: u8 where "APIC_SPURIOUS_VECTOR_NUM = 0xff"
definition APIC_FLAG_ENABLE :: u32 where "APIC_FLAG_ENABLE = push_bit 8 1"
definition APIC_IPI_TYPE_INIT :: u32 where "APIC_IPI_TYPE_INIT = 5"
definition APIC_IPI_TYPE_STARTUP :: u32 where "APIC_IPI_TYPE_STARTUP = 6"
definition APIC_TIMER_FLAG_PERIODIC :: u32 where "APIC_TIMER_FLAG_PERIODIC = push_bit 17 1"
definition APIC_TIMER_FLAG_MASKED :: u32 where "APIC_TIMER_FLAG_MASKED = push_bit 16 1"

record apic_state =
  lapic_base :: u64
  lapic_regs :: "u16 \<Rightarrow> u32"
  lapic_writes :: "(u16 \<times> u32) list"
  base_freq :: u64
  divisor :: u8
  timer_vector :: u8
  idt :: idt_state

definition apic_read_reg :: "u16 \<Rightarrow> apic_state \<Rightarrow> u32" where
  "apic_read_reg offset s = lapic_regs s offset"

definition apic_write_reg :: "u16 \<Rightarrow> u32 \<Rightarrow> apic_state \<Rightarrow> apic_state" where
  "apic_write_reg offset val s =
     s\<lparr>lapic_regs := (lapic_regs s)(offset := val), lapic_writes := lapic_writes s @ [(offset, val)]\<rparr>"

definition apic_send_eoi :: "apic_state \<Rightarrow> apic_state" where
  "apic_send_eoi s = apic_write_reg APIC_REG_EOI 1 s"

definition apic_send_ipi :: "u8 \<Rightarrow> u8 \<Rightarrow> u32 \<Rightarrow> apic_state \<Rightarrow> apic_state" where
  "apic_send_ipi dest vector mtype s =
     apic_write_reg APIC_REG_ICR_LOW (push_bit 8 mtype OR ucast vector)
       (apic_write_reg APIC_REG_ICR_HIGH (push_bit 24 (ucast dest)) s)"

definition apic_enable :: "apic_state \<Rightarrow> apic_state" where
  "apic_enable s = apic_write_reg APIC_REG_SPURIOUS_INT (APIC_FLAG_ENABLE OR ucast APIC_SPURIOUS_VECTOR_NUM) s"

text \<open>The handler of the spurious interrupt, and the one the timer has until another is set.\<close>

definition spurious_int_handler :: "klog \<Rightarrow> klog result" where
  "spurious_int_handler k =
     klog_from LOG_INFO ''spurious_int_handler'' (bytes ''APIC spurious interrupt recieved'') [] k"

definition apic_timer_handler :: "apic_state \<times> klog \<Rightarrow> (apic_state \<times> klog) result" where
  "apic_timer_handler = (\<lambda>(s, k).
     and_then (klog_from LOG_WARN ''apic_timer_handler'' (bytes ''APIC Timer: No handler registered'' @ [10]) [] k)
       (\<lambda>k. Inr (apic_send_eoi s, k)))"

section \<open>The timer\<close>

datatype apic_timer_mode = APIC_TIMER_MODE_PERIODIC | APIC_TIMER_MODE_ONESHOT

definition apic_timer_stop :: "apic_state \<Rightarrow> apic_state" where
  "apic_timer_stop s =
     apic_write_reg APIC_REG_TIMER_LVT (apic_read_reg APIC_REG_TIMER_LVT s OR APIC_TIMER_FLAG_MASKED) s"

definition apic_timer_start :: "apic_state \<Rightarrow> apic_state" where
  "apic_timer_start s =
     apic_write_reg APIC_REG_TIMER_LVT (apic_read_reg APIC_REG_TIMER_LVT s AND NOT APIC_TIMER_FLAG_MASKED) s"

definition apic_timer_set_mode :: "apic_timer_mode \<Rightarrow> apic_state \<Rightarrow> apic_state" where
  "apic_timer_set_mode mode s =
     (let val = apic_read_reg APIC_REG_TIMER_LVT s
      in if mode = APIC_TIMER_MODE_PERIODIC
         then apic_write_reg APIC_REG_TIMER_LVT (val OR APIC_TIMER_FLAG_PERIODIC) s
         else apic_write_reg APIC_REG_TIMER_LVT (val AND NOT APIC_TIMER_FLAG_PERIODIC) s)"

definition apic_timer_set_handler :: "u64 \<Rightarrow> apic_state \<Rightarrow> apic_state" where
  "apic_timer_set_handler h s = s\<lparr>idt := idt_set_handler (timer_vector s) h False (idt s)\<rparr>"

definition apic_timer_get_vector :: "apic_state \<Rightarrow> u8" where
  "apic_timer_get_vector s = timer_vector s"

text \<open>Division by zero is undefined; the quotient is cut to the 32 bits of the register.\<close>

definition apic_timer_set_frequency :: "u64 \<Rightarrow> apic_state \<Rightarrow> apic_state result" where
  "apic_timer_set_frequency freq s =
     (let d = freq * ucast (divisor s)
      in if d = 0 then Inl Undefined_Behaviour
         else Inr (apic_write_reg APIC_REG_TIMER_ICR (ucast (base_freq s div d)) s))"

definition apic_timer_set_period :: "u64 \<Rightarrow> apic_state \<Rightarrow> apic_state result" where
  "apic_timer_set_period tv s =
     (if tv = 0 then Inl Undefined_Behaviour else apic_timer_set_frequency (1000000000 div tv) s)"

definition apic_timer_enable :: "apic_state \<Rightarrow> apic_state" where
  "apic_timer_enable s =
     apic_write_reg APIC_REG_TIMER_DCR 1
       (apic_write_reg APIC_REG_TIMER_ICR 0xffffffff
         (apic_write_reg APIC_REG_TIMER_LVT (APIC_TIMER_FLAG_MASKED OR ucast (timer_vector s)) s))"

text \<open>
  \<open>ccr\<close> is what the countdown register reads after the half second. The product is a 32-bit one.
  The two format strings are those of the source; the handler's address is a parameter.
\<close>

definition apic_timer_init :: "u64 \<Rightarrow> u32 \<Rightarrow> apic_state \<Rightarrow> klog \<Rightarrow> (apic_state \<times> klog) result" where
  "apic_timer_init handler ccr s k =
     and_then (idt_get_vector (idt s)) (\<lambda>(v, i).
       let s = s\<lparr>timer_vector := v, idt := idt_set_handler v handler False i\<rparr>;
           s = apic_write_reg APIC_REG_TIMER_LVT (APIC_TIMER_FLAG_MASKED OR ucast v) s;
           s = apic_write_reg APIC_REG_TIMER_DCR 1 s;
           s = s\<lparr>divisor := 4\<rparr>;
           s = apic_write_reg APIC_REG_TIMER_ICR 0xffffffff s;
           s = s\<lparr>lapic_regs := (lapic_regs s)(APIC_REG_TIMER_CCR := ccr)\<rparr>;
           s = s\<lparr>base_freq := ucast ((0xffffffff - apic_read_reg APIC_REG_TIMER_CCR s) * 2 * ucast (divisor s) :: u32)\<rparr>
       in and_then (klog_from LOG_INFO ''apic_timer_init''
            (bytes ''APIC Timer base frequency: %d Hz. Divisor: 4.'' @ [10]) [Word_Arg (base_freq s)] k) (\<lambda>k.
          and_then (klog_from LOG_SUCCESS ''apic_timer_init'' (bytes ''done'' @ [10]) [] k) (\<lambda>k.
          Inr (s, k))))"

definition apic_init :: "u64 \<Rightarrow> u64 \<Rightarrow> u32 \<Rightarrow> madt_info \<Rightarrow> apic_state \<times> machine \<times> klog \<Rightarrow>
    (apic_state \<times> machine \<times> klog) result" where
  "apic_init spurious handler ccr d = (\<lambda>(s, m, k).
     let base = PHYS_TO_VIRT (madt_get_lapic_base (mem (kern m)) d); s = s\<lparr>lapic_base := base\<rparr>
     in and_then (vmm_map None base (VIRT_TO_PHYS base) 1 VMM_FLAGS_MMIO m) (\<lambda>m.
          let s = s\<lparr>idt := idt_set_handler APIC_SPURIOUS_VECTOR_NUM spurious False (idt s)\<rparr>;
              s = apic_enable s
          in and_then (apic_timer_init handler ccr s k) (\<lambda>(s, k).
             and_then (klog_from LOG_SUCCESS ''apic_init'' (bytes ''done'' @ [10]) [] k) (\<lambda>k.
             Inr (s, m, k)))))"

section \<open>The clock\<close>

record hpet =
  hpet_regs :: u64
  hpet_period :: u64
  hpet_conf :: u64

text \<open>The counter and the capability register are the device's.\<close>

definition hpet_get_nanos :: "u64 \<Rightarrow> hpet \<Rightarrow> u64" where
  "hpet_get_nanos counter h = counter * hpet_period h"

text \<open>Waiting reads the counter again and again: \<open>reads i\<close> is what reading \<open>i\<close> gives. The result is the number
  of the last reading.\<close>

partial_function (option) hpet_wait :: "(nat \<Rightarrow> u64) \<Rightarrow> u64 \<Rightarrow> hpet \<Rightarrow> nat \<Rightarrow> nat option" where
  "hpet_wait reads tgt h i =
     (if hpet_get_nanos (reads i) h < tgt then hpet_wait reads tgt h (i + 1) else Some i)"

definition hpet_nanosleep :: "(nat \<Rightarrow> u64) \<Rightarrow> u64 \<Rightarrow> hpet \<Rightarrow> nat option" where
  "hpet_nanosleep reads nanos h = (let tgt = hpet_get_nanos (reads 0) h + nanos in hpet_wait reads tgt h 1)"

text \<open>The address of the registers is at offset 44 of the table.\<close>

definition hpet_init :: "u64 \<Rightarrow> acpi \<Rightarrow> hpet \<times> machine \<times> klog \<Rightarrow> (hpet \<times> machine \<times> klog) result" where
  "hpet_init cap a = (\<lambda>(h, m, k).
     and_then (acpi_get_sdt (bytes ''HPET'') (mem (kern m)) a k) (\<lambda>(t, k).
       if t = 0 then Inl (Kernel_Panic ''HPET not found'')
       else let phys = load_le 8 (mem (kern m)) (t + 44)
            in and_then (vmm_map None (PHYS_TO_VIRT phys) phys 1 VMM_FLAGS_MMIO m) (\<lambda>m.
                 let h = h\<lparr>hpet_regs := PHYS_TO_VIRT phys, hpet_period := drop_bit 32 cap div 1000000\<rparr>;
                     h = h\<lparr>hpet_conf := hpet_conf h OR 1\<rparr>
                 in and_then (klog_from LOG_SUCCESS ''hpet_init'' (bytes ''done'' @ [10]) [] k) (\<lambda>k.
                    Inr (h, m, k)))))"

section \<open>Properties\<close>

text \<open>The fields of the interrupt command register.\<close>

definition icr_dest :: "u32 \<Rightarrow> u32" where "icr_dest high = drop_bit 24 high"
definition icr_vector :: "u32 \<Rightarrow> u32" where "icr_vector low = take_bit 8 low"
definition icr_mode :: "u32 \<Rightarrow> u32" where "icr_mode low = take_bit 3 (drop_bit 8 low)"

lemma calibrated:
  assumes "apic_timer_init handler (0xffffffff - n) s k = Inr (s', k')" and "unat n * 8 < 2 ^ 32"
  shows "unat (base_freq s') = 8 * unat n" and "divisor s' = 4"
proof -
  have b: "base_freq s' = ucast (n * 2 * 4 :: u32)" and d: "divisor s' = 4"
    using assms(1)
    by (auto simp: apic_timer_init_def Let_def and_then_eq_Inr apic_write_reg_def apic_read_reg_def
        APIC_REG_TIMER_CCR_def split: prod.splits)
  have "n * 2 * 4 = 8 * n" by simp
  moreover have "unat (8 * n) = 8 * unat n" using assms(2) unat_mult_lt [of 8 n] by simp
  moreover have "unat (ucast w :: u64) = unat w" for w :: u32
    using unsigned_less [of w, where ?'a = nat] by (simp add: unsigned_ucast_eq take_bit_nat_eq_self)
  ultimately show "unat (base_freq s') = 8 * unat n" unfolding b by (simp only:)
  show "divisor s' = 4" by (rule d)
qed

lemma period_not_early:
  assumes "0 < (t :: nat)" and "t \<le> N"
  shows "b * t < (b div (4 * (N div t)) + 1) * (4 * N)"
proof -
  let ?q = "N div t"
  have q: "0 < ?q" using assms by (simp add: div_greater_zero_iff)
  have "b < (b div (4 * ?q) + 1) * (4 * ?q)"
    using dividend_less_div_times [of "4 * ?q" b] q by simp
  then have "b * t < (b div (4 * ?q) + 1) * (4 * ?q) * t" using assms(1) by (rule mult_strict_right_mono)
  also have "\<dots> = (b div (4 * ?q) + 1) * (4 * (?q * t))" by (simp only: ac_simps)
  also have "\<dots> \<le> (b div (4 * ?q) + 1) * (4 * N)"
    by (intro mult_le_mono2) (simp add: div_times_less_eq_dividend)
  finally show ?thesis .
qed

text \<open>With the timer calibrated, a period of one nanosecond to one second programs a count of ticks, and
  the interrupt does not come a whole tick before the period is over; a period of 0 or of more than a second
  divides by zero.\<close>

theorem apic_timer_period:
  assumes "divisor s = 4" and "unat (base_freq s) < 2 ^ 32"
  shows "(tv = 0 \<or> 1000000000 < tv) \<and> apic_timer_set_period tv s = Inl Undefined_Behaviour \<or>
    tv \<noteq> 0 \<and> tv \<le> 1000000000 \<and> (\<exists>v. apic_timer_set_period tv s = Inr (apic_write_reg APIC_REG_TIMER_ICR v s)
      \<and> unat (base_freq s) * unat tv < (unat v + 1) * (4 * 10 ^ 9))"
proof (cases "tv = 0 \<or> 1000000000 < tv")
  case True
  then have "tv = 0 \<or> 1000000000 div tv = 0" by (auto simp: word_less_nat_alt word_unat_eq_iff unat_div)
  then show ?thesis using True by (auto simp: apic_timer_set_period_def apic_timer_set_frequency_def)
next
  case False
  then have tv: "0 < unat tv" "unat tv \<le> 10 ^ 9" by (auto simp: word_less_nat_alt unat_gt_0)
  let ?q = "1000000000 div tv" and ?N = "10 ^ 9 div unat tv"
  have q: "unat ?q = ?N" by (simp add: unat_div)
  have N: "0 < ?N" "?N \<le> 10 ^ 9" using tv by (simp_all add: div_greater_zero_iff)
  have "(ucast (divisor s) :: u64) = 4" using assms(1) by simp
  moreover have lt: "unat ?q * unat (4 :: u64) < 2 ^ LENGTH(64)"
  proof -
    have "?N * 4 \<le> 10 ^ 9 * 4" by (rule mult_le_mono1 [OF N(2)])
    then have "?N * 4 < 2 ^ 64" by (rule le_less_trans) simp
    then show ?thesis unfolding q by simp
  qed
  have d: "unat (?q * 4) = 4 * ?N" unfolding unat_mult_lt [OF lt] q by simp
  moreover have "?q * 4 \<noteq> 0" using d N by (metis mult_is_0 unat_0 not_gr_zero zero_neq_numeral)
  ultimately have run: "apic_timer_set_period tv s
      = Inr (apic_write_reg APIC_REG_TIMER_ICR (ucast (base_freq s div (?q * 4))) s)"
    using False by (simp add: apic_timer_set_period_def apic_timer_set_frequency_def)
  have "unat (base_freq s) div (4 * ?N) < 2 ^ 32" using assms(2) div_le_dividend le_less_trans by blast
  then have v: "unat (ucast (base_freq s div (?q * 4)) :: u32) = unat (base_freq s) div (4 * ?N)"
    by (simp add: unsigned_ucast_eq unat_div d take_bit_nat_eq_self)
  show ?thesis using False run period_not_early [OF tv, of "unat (base_freq s)"] v by (auto simp: not_less)
qed

text \<open>Sleeping on the clock.\<close>

lemma hpet_wait_until:
  assumes "tgt \<le> hpet_get_nanos (reads (i + n)) h" and "\<And>j. j < n \<Longrightarrow> hpet_get_nanos (reads (i + j)) h < tgt"
  shows "hpet_wait reads tgt h i = Some (i + n)"
  using assms
proof (induction n arbitrary: i)
  case 0
  then have "\<not> hpet_get_nanos (reads i) h < tgt" by (simp add: not_less)
  then show ?case by (subst hpet_wait.simps) simp
next
  case (Suc n)
  have "hpet_wait reads tgt h (i + 1) = Some (i + 1 + n)"
    by (rule Suc.IH) (use Suc.prems(1) Suc.prems(2) [of "Suc _"] in simp_all)
  then show ?case using Suc.prems(2) [of 0] by (subst hpet_wait.simps) simp
qed

lemma hpet_wait_reached: "hpet_wait reads tgt h i = Some k \<Longrightarrow> tgt \<le> hpet_get_nanos (reads k) h"
  by (rule hpet_wait.raw_induct [where P = "\<lambda>reads tgt h i k. tgt \<le> hpet_get_nanos (reads k) h"])
    (auto simp: not_less split: if_splits)

text \<open>C38: \<open>hpet_nanosleep\<close> returns at the first reading of the clock that is at least the given time after the
  start, if there is one and the time of day does not overflow, and not before; on a clock whose readings stay
  below (the period of a clock faster than 1 GHz is cut to 0) it never returns.\<close>

theorem hpet_nanosleep_waits:
  assumes "unat (hpet_get_nanos (reads 0) h) + unat nanos < 2 ^ 64"
  shows "(\<forall>i. unat (hpet_get_nanos (reads (i + 1)) h) < unat (hpet_get_nanos (reads 0) h) + unat nanos)
      \<and> hpet_nanosleep reads nanos h = None
    \<or> (\<exists>i. hpet_nanosleep reads nanos h = Some (i + 1)
      \<and> unat (hpet_get_nanos (reads 0) h) + unat nanos \<le> unat (hpet_get_nanos (reads (i + 1)) h)
      \<and> (\<forall>j<i. unat (hpet_get_nanos (reads (j + 1)) h) < unat (hpet_get_nanos (reads 0) h) + unat nanos))"
proof -
  let ?tgt = "hpet_get_nanos (reads 0) h + nanos"
  let ?late = "\<lambda>i. ?tgt \<le> hpet_get_nanos (reads (1 + i)) h"
  have tgt: "unat (hpet_get_nanos (reads 0) h) + unat nanos = unat ?tgt" using assms by (simp add: unat_add_lt)
  show ?thesis
  proof (cases "\<exists>i. ?late i")
    case True
    define i where "i = (LEAST i. ?late i)"
    have late: "?late i" unfolding i_def by (rule LeastI_ex [OF True])
    have early: "\<not> ?late j" if "j < i" for j using not_less_Least that unfolding i_def by blast
    have "hpet_nanosleep reads nanos h = Some (1 + i)"
      unfolding hpet_nanosleep_def Let_def by (rule hpet_wait_until [where n = i]) (use late early in \<open>auto simp: not_le\<close>)
    then show ?thesis using late early unfolding tgt by (auto simp: word_le_nat_alt word_less_nat_alt not_le)
  next
    case False
    have "hpet_nanosleep reads nanos h \<noteq> Some k" for k
    proof
      assume k: "hpet_nanosleep reads nanos h = Some k"
      have "\<exists>j. k = 1 + j"
        using k unfolding hpet_nanosleep_def Let_def
        by (rule hpet_wait.raw_induct [where P = "\<lambda>reads tgt h i k. 1 \<le> i \<longrightarrow> (\<exists>j. k = 1 + j)", THEN mp, rotated])
          (auto split: if_splits simp: nat_le_iff_add)
      then show False using False k hpet_wait_reached unfolding hpet_nanosleep_def Let_def by blast
    qed
    then show ?thesis using False unfolding tgt by (auto simp: word_le_nat_alt not_le)
  qed
qed

theorem hpet_nanosleep_waits_witness:
  "hpet_nanosleep (\<lambda>i. of_nat (3 * i)) 250 \<lparr>hpet_regs = 0, hpet_period = 0, hpet_conf = 1\<rparr> = None"
  using hpet_nanosleep_waits [of "\<lambda>i. of_nat (3 * i)" "\<lparr>hpet_regs = 0, hpet_period = 0, hpet_conf = 1\<rparr>" 250]
  by (simp add: hpet_get_nanos_def)

text \<open>A bus clock of 400 MHz.\<close>

definition timer_example :: apic_state where
  "timer_example = \<lparr>lapic_base = 0, lapic_regs = (\<lambda>r. 0), lapic_writes = [], base_freq = 400000000, divisor = 4,
     timer_vector = 61, idt = \<lparr>IDT = (\<lambda>v. idt_make_entry 0 False), lastvector = 61\<rparr>\<rparr>"

theorem apic_timer_period_witness:
  "\<exists>v. apic_timer_set_period 20000000 timer_example = Inr (apic_write_reg APIC_REG_TIMER_ICR v timer_example)
     \<and> 2000000 < unat v + 1"
  using apic_timer_period [of timer_example 20000000] by (auto simp: timer_example_def)

lemma ipi_fields:
  assumes "mtype < 8"
  shows "\<exists>low high. lapic_writes (apic_send_ipi dest vector mtype s)
      = lapic_writes s @ [(APIC_REG_ICR_HIGH, high), (APIC_REG_ICR_LOW, low)]
    \<and> icr_dest high = ucast dest \<and> icr_vector low = ucast vector \<and> icr_mode low = mtype"
proof -
  have "drop_bit 24 (push_bit 24 (ucast dest :: u32)) = ucast dest"
    by (rule bit_word_eqI) (auto simp: bit_simps dest: bit_imp_le_length)
  moreover have "take_bit 8 (push_bit 8 mtype OR ucast vector) = ucast vector"
    by (rule bit_word_eqI) (auto simp: bit_simps dest: bit_imp_le_length)
  moreover have m: "mtype = take_bit 3 mtype"
    using assms by (simp add: word_unat_eq_iff unsigned_take_bit_eq take_bit_nat_eq_self word_less_nat_alt)
  then have low3: "bit mtype n \<Longrightarrow> n < 3" for n by (metis bit_take_bit_iff)
  then have "take_bit 3 (drop_bit 8 (push_bit 8 mtype OR ucast vector)) = mtype"
    by (intro bit_word_eqI) (auto simp: bit_simps dest: bit_imp_le_length low3)
  ultimately show ?thesis
    by (simp add: apic_send_ipi_def apic_write_reg_def icr_dest_def icr_vector_def icr_mode_def)
qed

end
