(* ===== verification/Smp.thy ===== *)
theory Smp
  imports Apic
begin

text \<open>
  \<open>kernel/sys/smp/smp.c\<close>: bringing up the other processors. The bootstrap processor walks the local APICs
  of the MADT, prepares the arguments of the trampoline in low memory, sends the interrupts and waits for
  the counter the trampoline increments. Whether a processor starts, and at which poll of the counter, is
  the hardware's: a parameter. The code the started processor runs is \<open>smp_ap_entrypoint\<close>.
\<close>

section \<open>State\<close>

record cpu_info =
  tss_iopb_offset :: u32
  tss_rsp0 :: u64
  cpu_id :: u16
  lapic_id :: u16
  is_bsp :: bool

record smp =
  num_cpus :: u16
  cpus :: "nat \<Rightarrow> cpu_info"
  smp_machine :: machine
  smp_apic :: apic_state
  gs_base :: u64
  smp_log :: klog

text \<open>
  The addresses the linker chose, the descriptor tables of the processor, and the answer of the hardware:
  \<open>starts i p\<close> when the counter differs at poll \<open>p\<close> of the processor at place \<open>i\<close> of the MADT.
\<close>

record smp_env =
  cpu_addr :: "nat \<Rightarrow> u64"
  env_gdtr :: gdtr
  env_idtr :: gdtr
  ap_entry :: u64
  blob_start :: u64
  blob_end :: u64
  starts :: "nat \<Rightarrow> nat \<Rightarrow> bool"

definition SMP_TRAMPOLINE_BLOB_ADDR :: u64 where "SMP_TRAMPOLINE_BLOB_ADDR = 0x70000"
definition SMP_TRAMPOLINE_ARG_IDTPTR :: u64 where "SMP_TRAMPOLINE_ARG_IDTPTR = 0xfa0"
definition SMP_TRAMPOLINE_ARG_RSP :: u64 where "SMP_TRAMPOLINE_ARG_RSP = 0xfb0"
definition SMP_TRAMPOLINE_ARG_ENTRYPOINT :: u64 where "SMP_TRAMPOLINE_ARG_ENTRYPOINT = 0xfc0"
definition SMP_TRAMPOLINE_ARG_CR3 :: u64 where "SMP_TRAMPOLINE_ARG_CR3 = 0xfd0"
definition SMP_TRAMPOLINE_ARG_CPUINFO :: u64 where "SMP_TRAMPOLINE_ARG_CPUINFO = 0xfe0"

definition smp_mem :: "smp \<Rightarrow> mem" where
  "smp_mem s = mem (kern (smp_machine s))"

definition set_smp_mem :: "mem \<Rightarrow> smp \<Rightarrow> smp" where
  "set_smp_mem m s = s\<lparr>smp_machine := (smp_machine s)\<lparr>kern := (kern (smp_machine s))\<lparr>mem := m\<rparr>\<rparr>\<rparr>"

definition say :: "loglevel \<Rightarrow> u8 list \<Rightarrow> varg list \<Rightarrow> smp \<Rightarrow> smp result" where
  "say lvl fmt args s =
     and_then (klog_from lvl ''smp_init'' fmt args (smp_log s)) (\<lambda>k. Inr (s\<lparr>smp_log := k\<rparr>))"

definition say_plain :: "u8 list \<Rightarrow> smp \<Rightarrow> smp result" where
  "say_plain fmt s = and_then (klog_printf fmt [] (smp_log s)) (\<lambda>k. Inr (s\<lparr>smp_log := k\<rparr>))"

section \<open>Operations\<close>

definition init_tss :: "smp_env \<Rightarrow> nat \<Rightarrow> smp \<Rightarrow> smp" where
  "init_tss env n s =
     (let s = s\<lparr>cpus := (cpus s)(n := (cpus s n)\<lparr>tss_iopb_offset := 104, tss_rsp0 := 0\<rparr>)\<rparr>
      in set_smp_mem (gdt_install_tss (cpu_addr env n) (env_gdtr env) (smp_mem s)) s)"

definition prepare_trampoline :: "smp_env \<Rightarrow> smp \<Rightarrow> smp" where
  "prepare_trampoline env s =
     (let m = memcpy (blob_start env) (PHYS_TO_VIRT SMP_TRAMPOLINE_BLOB_ADDR) (blob_end env - blob_start env) (smp_mem s);
          m = store64 (PHYS_TO_VIRT SMP_TRAMPOLINE_ARG_CR3) (cr3 (smp_machine s)) m;
          m = store_le 2 (PHYS_TO_VIRT SMP_TRAMPOLINE_ARG_IDTPTR) (ucast (gdtr_limit (env_idtr env))) m;
          m = store64 (PHYS_TO_VIRT SMP_TRAMPOLINE_ARG_IDTPTR + 2) (gdtr_base (env_idtr env)) m;
          m = store64 (PHYS_TO_VIRT SMP_TRAMPOLINE_ARG_ENTRYPOINT) (ap_entry env) m
      in set_smp_mem m s)"

text \<open>The startup interrupt, sent at most twice, with twenty polls of the counter after each.\<close>

definition send_startup :: "u8 \<Rightarrow> smp \<Rightarrow> smp" where
  "send_startup dest s =
     s\<lparr>smp_apic := apic_send_ipi dest (ucast (SMP_TRAMPOLINE_BLOB_ADDR div PAGE_SIZE)) APIC_IPI_TYPE_STARTUP (smp_apic s)\<rparr>"

definition try_start :: "smp_env \<Rightarrow> nat \<Rightarrow> u8 \<Rightarrow> smp \<Rightarrow> bool \<times> smp" where
  "try_start env i dest s =
     (let s = send_startup dest s
      in if list_ex (\<lambda>j. starts env i j) [0..<20] then (True, s)
         else (list_ex (\<lambda>j. starts env i (20 + j)) [0..<20], send_startup dest s))"

text \<open>The body of the loop of \<open>smp_init\<close> for the bootstrap processor, and for another one.\<close>

definition bsp_core :: "smp_env \<Rightarrow> u8 \<Rightarrow> smp \<Rightarrow> smp result" where
  "bsp_core env proc s =
     and_then (say LOG_INFO (bytes ''core %d is BSP'' @ [10]) [Word_Arg (ucast proc)] s) (\<lambda>s.
       let n = unat (num_cpus s);
           s = s\<lparr>cpus := (cpus s)(n := (cpus s n)\<lparr>is_bsp := True\<rparr>), gs_base := cpu_addr env n\<rparr>;
           s = init_tss env n s
       in Inr (s\<lparr>num_cpus := num_cpus s + 1\<rparr>))"

definition pass_args :: "smp_env \<Rightarrow> u8 \<Rightarrow> u64 \<Rightarrow> smp \<Rightarrow> smp" where
  "pass_args env dest stack s =
     (let m = store64 (PHYS_TO_VIRT SMP_TRAMPOLINE_ARG_RSP) (stack + PAGE_SIZE) (smp_mem s);
          m = store64 (PHYS_TO_VIRT SMP_TRAMPOLINE_ARG_CPUINFO) (cpu_addr env (unat (num_cpus s))) m;
          s = set_smp_mem m s
      in s\<lparr>smp_apic := apic_send_ipi dest 0 APIC_IPI_TYPE_INIT (smp_apic s)\<rparr>)"

definition conclude_start :: "u64 \<Rightarrow> bool \<times> smp \<Rightarrow> smp result" where
  "conclude_start stack = (\<lambda>(success, s).
     if \<not> success
     then and_then (say_plain (bytes '' failed'' @ [10]) s) (\<lambda>s.
          and_then (kmfree stack (kern (smp_machine s))) (\<lambda>k.
          Inr (s\<lparr>smp_machine := (smp_machine s)\<lparr>kern := k\<rparr>\<rparr>)))
     else let n = unat (num_cpus s)
          in Inr (s\<lparr>cpus := (cpus s)(n := (cpus s n)\<lparr>is_bsp := False\<rparr>), num_cpus := num_cpus s + 1\<rparr>))"

definition ap_core :: "smp_env \<Rightarrow> nat \<Rightarrow> u8 \<Rightarrow> u8 \<Rightarrow> smp \<Rightarrow> smp result" where
  "ap_core env i proc dest s =
     and_then (say LOG_INFO (bytes ''initializing core %d...'') [Word_Arg (ucast proc)] s) (\<lambda>s.
     and_then (kmalloc PAGE_SIZE (kern (smp_machine s))) (\<lambda>(stack, k).
       conclude_start stack (try_start env i dest
         (pass_args env dest stack (s\<lparr>smp_machine := (smp_machine s)\<lparr>kern := k\<rparr>\<rparr>)))))"

text \<open>A local APIC record: processor, APIC id and flags are at the offsets 2, 3 and 4.\<close>

definition smp_core :: "smp_env \<Rightarrow> madt_info \<Rightarrow> nat \<Rightarrow> smp \<Rightarrow> smp result" where
  "smp_core env d i s =
     (if length (lapics d) \<le> i then Inl Out_Of_Bounds
      else let rec = lapics d ! i; m = smp_mem s; n = unat (num_cpus s);
               proc = m (rec + 2); apic_id = m (rec + 3); flags = load_le 4 m (rec + 4)
           in if flags AND 2 = 0 \<and> flags AND 1 = 0
              then say LOG_INFO (bytes ''core %d is not enabled or online capable'' @ [10]) [Word_Arg (ucast proc)] s
              else if CPU_MAX \<le> n then Inl Out_Of_Bounds
              else let s = s\<lparr>cpus := (cpus s)(n := (cpus s n)\<lparr>lapic_id := ucast apic_id, cpu_id := num_cpus s\<rparr>)\<rparr>
                   in if apic_read_reg APIC_REG_ID (smp_apic s) = ucast apic_id then bsp_core env proc s
                      else ap_core env i proc apic_id s)"

definition smp_init :: "smp_env \<Rightarrow> madt_info \<Rightarrow> smp \<Rightarrow> smp result" where
  "smp_init env d s =
     and_then (vmm_map None 0 0 (NUM_PAGES 0x100000) VMM_FLAGS_DEFAULT (smp_machine s)) (\<lambda>m.
       let s = prepare_trampoline env (s\<lparr>smp_machine := m\<rparr>);
           cpunum = madt_get_num_lapic d
       in and_then (say LOG_INFO (bytes ''number of cores: %d'' @ [10]) [Word_Arg (ucast cpunum)] s) (\<lambda>s.
          and_then (for_each (smp_core env d) [0..<unat cpunum] s) (\<lambda>s.
          and_then (say LOG_SUCCESS (bytes ''done. %d processors brought up'' @ [10]) [Word_Arg (ucast (num_cpus s))] s) (\<lambda>s.
          and_then (vmm_unmap None 0 (NUM_PAGES 0x100000) (smp_machine s)) (\<lambda>m.
          Inr (s\<lparr>smp_machine := m\<rparr>))))))"

text \<open>
  What a started processor does before it waits for the scheduler: the features, its own GDT and TSS, its
  information in the \<open>gs\<close> base, its interrupt controller and timer. The call of \<open>sched_init\<close> that follows is
  an operation of the scheduler's state.
\<close>

definition smp_ap_entrypoint :: "cpuid_table \<Rightarrow> smp_env \<Rightarrow> nat \<Rightarrow> cpu_regs \<times> smp \<Rightarrow> (cpu_regs \<times> smp) result" where
  "smp_ap_entrypoint cpuid env n = (\<lambda>(c, s).
     and_then (say_plain (bytes '' done'' @ [10]) s) (\<lambda>s.
     and_then (cpu_features_init cpuid c (smp_log s)) (\<lambda>(c, k).
     and_then (gdt_init (kern (smp_machine s))) (\<lambda>(g, kn).
       let s = s\<lparr>smp_log := k, smp_machine := (smp_machine s)\<lparr>kern := kn\<rparr>\<rparr>;
           s = init_tss (env\<lparr>env_gdtr := g\<rparr>) n s;
           c = wrmsr MSR_KERNEL_GS_BASE (cpu_addr env n) c
       in Inr (c, s\<lparr>smp_apic := apic_timer_enable (apic_enable (smp_apic s))\<rparr>)))))"

text \<open>The information of the processor that asks, through its \<open>gs\<close> base.\<close>

definition smp_get_current_info :: "cpu_regs \<Rightarrow> u64" where
  "smp_get_current_info c = rdmsr MSR_KERNEL_GS_BASE c"

end
