(* ===== verification/SmpProps.thy ===== *)
theory SmpProps
  imports Smp
begin

text \<open>
  The processors brought up are numbered densely, in the order of the MADT, which the scheduler relies on
  when it indexes its arrays with \<open>cpu_id\<close>; and how the bootstrap processor is recognised.
\<close>

definition ids_ok :: "smp \<Rightarrow> bool" where
  "ids_ok s \<longleftrightarrow> (\<forall>n<unat (num_cpus s). cpu_id (cpus s n) = of_nat n)"

text \<open>What one turn of the loop does to the table of processors, whatever it does to the rest.\<close>

definition table_step :: "smp \<Rightarrow> smp \<Rightarrow> bool" where
  "table_step s s' \<longleftrightarrow>
     num_cpus s' = num_cpus s \<and> (\<forall>n<unat (num_cpus s). cpu_id (cpus s' n) = cpu_id (cpus s n)) \<or>
     unat (num_cpus s) < 256 \<and> num_cpus s' = num_cpus s + 1
       \<and> (\<forall>n<unat (num_cpus s). cpu_id (cpus s' n) = cpu_id (cpus s n))
       \<and> cpu_id (cpus s' (unat (num_cpus s))) = num_cpus s"

lemma say_eq: "say lvl fmt args s = Inr s' \<Longrightarrow> \<exists>k. s' = s\<lparr>smp_log := k\<rparr>"
  by (auto simp: say_def and_then_eq_Inr)

lemma say_plain_eq: "say_plain fmt s = Inr s' \<Longrightarrow> \<exists>k. s' = s\<lparr>smp_log := k\<rparr>"
  by (auto simp: say_plain_def and_then_eq_Inr)

lemma set_smp_mem_fields [simp]:
  "num_cpus (set_smp_mem m s) = num_cpus s" "cpus (set_smp_mem m s) = cpus s"
  by (simp_all add: set_smp_mem_def)

lemma init_tss_fields [simp]:
  "num_cpus (init_tss env n s) = num_cpus s" "cpu_id (cpus (init_tss env n s) j) = cpu_id (cpus s j)"
  by (simp_all add: init_tss_def Let_def)

lemma try_start_fields:
  "num_cpus (snd (try_start env i d s)) = num_cpus s" "cpus (snd (try_start env i d s)) = cpus s"
  by (simp_all add: try_start_def send_startup_def Let_def)

lemma bsp_core_table:
  assumes "bsp_core env proc s = Inr s'"
  shows "num_cpus s' = num_cpus s + 1" and "cpu_id (cpus s' n) = cpu_id (cpus s n)"
  using assms by (auto simp: bsp_core_def Let_def and_then_eq_Inr dest!: say_eq)

lemma pass_args_fields [simp]:
  "num_cpus (pass_args env dest stack s) = num_cpus s" "cpus (pass_args env dest stack s) = cpus s"
  by (simp_all add: pass_args_def Let_def)

lemma conclude_table:
  assumes "conclude_start stack (ok, s) = Inr s'"
  shows "num_cpus s' = num_cpus s \<or> num_cpus s' = num_cpus s + 1" and "cpu_id (cpus s' n) = cpu_id (cpus s n)"
  using assms by (auto simp: conclude_start_def Let_def and_then_eq_Inr dest!: say_plain_eq split: if_splits)

lemma ap_core_table:
  assumes "ap_core env i proc dest s = Inr s'"
  shows "num_cpus s' = num_cpus s \<or> num_cpus s' = num_cpus s + 1" and "cpu_id (cpus s' n) = cpu_id (cpus s n)"
proof -
  obtain log stack k where c: "conclude_start stack (try_start env i dest
      (pass_args env dest stack (s\<lparr>smp_log := log, smp_machine := (smp_machine s)\<lparr>kern := k\<rparr>\<rparr>))) = Inr s'"
    using assms by (auto simp: ap_core_def and_then_eq_Inr dest!: say_eq)
  define u where "u = pass_args env dest stack (s\<lparr>smp_log := log, smp_machine := (smp_machine s)\<lparr>kern := k\<rparr>\<rparr>)"
  have u: "num_cpus u = num_cpus s" "cpus u = cpus s" by (simp_all add: u_def)
  obtain ok v where v: "try_start env i dest u = (ok, v)" by force
  have "num_cpus v = num_cpus s" "cpus v = cpus s" using try_start_fields [of env i dest u] u v by simp_all
  then show "num_cpus s' = num_cpus s \<or> num_cpus s' = num_cpus s + 1" "cpu_id (cpus s' n) = cpu_id (cpus s n)"
    using conclude_table(1) [of stack ok v s'] conclude_table(2) [of stack ok v s' n] c v by (simp_all add: u_def)
qed

lemma smp_core_table: "smp_core env d i s = Inr s' \<Longrightarrow> table_step s s'"
proof -
  assume run: "smp_core env d i s = Inr s'"
  let ?rec = "lapics d ! i" and ?n = "unat (num_cpus s)"
  let ?apic = "smp_mem s (?rec + 3)" and ?proc = "smp_mem s (?rec + 2)"
  let ?s = "s\<lparr>cpus := (cpus s)(?n := (cpus s ?n)\<lparr>lapic_id := ucast ?apic, cpu_id := num_cpus s\<rparr>)\<rparr>"
  consider (off) "say LOG_INFO (bytes ''core %d is not enabled or online capable'' @ [10]) [Word_Arg (ucast ?proc)] s = Inr s'"
    | (bsp) "?n < 256" "bsp_core env ?proc ?s = Inr s'"
    | (ap) "?n < 256" "ap_core env i ?proc ?apic ?s = Inr s'"
    using run by (auto simp: smp_core_def Let_def not_le split: if_splits)
  then show ?thesis
  proof cases
    case off
    then show ?thesis using say_eq by (fastforce simp: table_step_def)
  next
    case bsp
    from bsp_core_table [OF bsp(2)] bsp(1) show ?thesis by (auto simp: table_step_def)
  next
    case ap
    from ap_core_table [OF ap(2)] ap(1) show ?thesis by (auto simp: table_step_def)
  qed
qed

lemma table_step_ids:
  assumes "table_step s s'" and "ids_ok s"
  shows "ids_ok s' \<and> unat (num_cpus s') \<le> unat (num_cpus s) + 1"
proof -
  have "unat (num_cpus s + 1) = unat (num_cpus s) + 1" if "unat (num_cpus s) < 256"
    using that by (subst unat_add_lt) simp_all
  then show ?thesis
    using assms unfolding table_step_def ids_ok_def
    by (elim disjE conjE) (auto simp: less_Suc_eq)
qed

lemma smp_cores_ids:
  "for_each (smp_core env d) is s = Inr s' \<Longrightarrow> ids_ok s \<Longrightarrow>
    ids_ok s' \<and> unat (num_cpus s') \<le> unat (num_cpus s) + length is"
proof (induction "is" arbitrary: s)
  case (Cons i "is")
  obtain s1 where s1: "smp_core env d i s = Inr s1" and r: "for_each (smp_core env d) is s1 = Inr s'"
    using Cons.prems(1) by (auto elim: and_then_InrE)
  have 1: "ids_ok s1 \<and> unat (num_cpus s1) \<le> unat (num_cpus s) + 1"
    using table_step_ids [OF smp_core_table [OF s1] Cons.prems(2)] .
  then show ?case using Cons.IH [OF r] by simp
qed simp

section \<open>A concrete machine\<close>

text \<open>One enabled local APIC, with identifier 0, and an APIC whose identifier register reads \<open>r\<close>.\<close>

definition one_lapic :: mem where
  "one_lapic = (\<lambda>a. 0)(0x1001 := 8, 0x1004 := 1)"

definition one_madt :: madt_info where
  "one_madt = \<lparr>madt = 0, lapics = [0x1000], io_apics = []\<rparr>"

definition small_env :: smp_env where
  "small_env = \<lparr>cpu_addr = (\<lambda>n. 0x9000 + 110 * of_nat n), env_gdtr = \<lparr>gdtr_base = 0x8000, gdtr_limit = 55\<rparr>,
     env_idtr = \<lparr>gdtr_base = 0x7000, gdtr_limit = 4095\<rparr>, ap_entry = 0, blob_start = 0, blob_end = 0,
     starts = (\<lambda>i p. False)\<rparr>"

definition small_smp :: "mem \<Rightarrow> u32 \<Rightarrow> smp" where
  "small_smp m r = \<lparr>num_cpus = 0, cpus = (\<lambda>n. \<lparr>tss_iopb_offset = 0, tss_rsp0 = 0, cpu_id = 0, lapic_id = 0, is_bsp = False\<rparr>),
     smp_machine = \<lparr>kern = example_kernel\<lparr>mem := m\<rparr>, kaddrspace = 0, cr3 = 0, invlpgs = []\<rparr>,
     smp_apic = timer_example\<lparr>lapic_regs := (\<lambda>a. r)\<rparr>, gs_base = 0, smp_log = empty_klog\<rparr>"

lemma small_smp_mem [simp]: "smp_mem (small_smp m r) = m"
  by (simp add: smp_mem_def small_smp_def)

lemma bsp_core_returns:
  assumes "length (tmpbuf (smp_log s)) = 65"
  shows "\<exists>s'. bsp_core env proc s = Inr s' \<and> num_cpus s' = num_cpus s + 1"
proof -
  have "\<exists>t. format_text (bytes ''core %d is BSP'' @ [10]) [Word_Arg (ucast proc)] = Inr t"
    by (simp add: bytes_def directive_text_def)
  from klog_from_returns [OF assms plain_format [OF this], of LOG_INFO "''smp_init''"]
  show ?thesis by (auto simp: bsp_core_def say_def Let_def)
qed

lemma one_core_runs:
  "\<exists>s'. for_each (smp_core small_env one_madt) [0..<length (lapics one_madt)] (small_smp one_lapic 0) = Inr s'
     \<and> num_cpus s' = 1"
proof -
  let ?s = "small_smp one_lapic 0"
  let ?t = "?s\<lparr>cpus := (cpus ?s)(0 := (cpus ?s 0)\<lparr>lapic_id := 0, cpu_id := 0\<rparr>)\<rparr>"
  have log: "length (tmpbuf (smp_log ?t)) = 65" by (simp add: small_smp_def empty_klog_tmpbuf)
  from bsp_core_returns [OF log, of small_env 0] obtain s' where
    "bsp_core small_env 0 ?t = Inr s'" "num_cpus s' = num_cpus ?t + 1" by blast
  moreover have "num_cpus ?s = 0" "apic_read_reg APIC_REG_ID (smp_apic ?s) = 0"
    by (simp_all add: small_smp_def apic_read_reg_def)
  moreover have "load_le 4 one_lapic (0x1000 + 4) AND 1 \<noteq> 0" "one_lapic (0x1000 + 2) = 0" "one_lapic (0x1000 + 3) = 0"
    by (simp_all add: load32_bytes one_lapic_def)
  ultimately have "smp_core small_env one_madt 0 ?s = Inr s' \<and> num_cpus s' = 1"
    by (simp add: smp_core_def Let_def one_madt_def)
  then show ?thesis by (simp add: one_madt_def)
qed

section \<open>Properties\<close>

text \<open>C39: the loop over the local APICs numbers the processors it brings up densely: \<open>cpus[n].cpu_id\<close> is \<open>n\<close> for
  each of the \<open>num_cpus\<close> processors, and there are no more of them than APICs.\<close>

theorem smp_ids_dense:
  assumes "for_each (smp_core env d) [0..<length (lapics d)] s = Inr s'" and "num_cpus s = 0"
    and "n < unat (num_cpus s')"
  shows "cpu_id (cpus s' n) = of_nat n \<and> unat (num_cpus s') \<le> length (lapics d)"
  using smp_cores_ids [OF assms(1)] assms(2,3) by (auto simp: ids_ok_def)

theorem smp_ids_dense_witness:
  "\<exists>s'. for_each (smp_core small_env one_madt) [0..<1] (small_smp one_lapic 0) = Inr s' \<and> cpu_id (cpus s' 0) = 0"
proof -
  obtain s' where s': "for_each (smp_core small_env one_madt) [0..<length (lapics one_madt)] (small_smp one_lapic 0) = Inr s'"
    "num_cpus s' = 1"
    using one_core_runs by blast
  have "num_cpus (small_smp one_lapic 0) = 0" by (simp add: small_smp_def)
  from smp_ids_dense [OF s'(1) this, of 0] s' show ?thesis by (auto simp: one_madt_def)
qed

text \<open>The local APIC has its identifier in the top byte of the register, but the loop compares the whole
  register with it: the bootstrap processor is recognised when its identifier is 0, and otherwise gets the
  stack, the INIT and the startup interrupts of a processor that is to be started.\<close>

theorem bsp_recognised_as_zero:
  assumes "i < length (lapics d)" and "unat (num_cpus s) < 256"
    and "smp_mem s (lapics d ! i + 3) = apic_id"
    and "load_le 4 (smp_mem s) (lapics d ! i + 4) AND 1 \<noteq> 0"
    and "apic_read_reg APIC_REG_ID (smp_apic s) = push_bit 24 (ucast apic_id)"
  shows "smp_core env d i s =
    (let n = unat (num_cpus s);
         s' = s\<lparr>cpus := (cpus s)(n := (cpus s n)\<lparr>lapic_id := ucast apic_id, cpu_id := num_cpus s\<rparr>)\<rparr>
     in if apic_id = 0 then bsp_core env (smp_mem s (lapics d ! i + 2)) s'
        else ap_core env i (smp_mem s (lapics d ! i + 2)) apic_id s')"
proof -
  have "push_bit 24 (ucast apic_id :: u32) = ucast apic_id \<longleftrightarrow> apic_id = 0"
  proof
    assume e: "push_bit 24 (ucast apic_id :: u32) = ucast apic_id"
    show "apic_id = 0"
    proof (rule bit_word_eqI)
      fix n assume n: "n < LENGTH(8)"
      have "bit (push_bit 24 (ucast apic_id :: u32)) n = bit (ucast apic_id :: u32) n" using e by simp
      then show "bit apic_id n = bit 0 n" using n by (auto simp: bit_simps)
    qed
  qed simp
  then show ?thesis using assms by (simp add: smp_core_def Let_def)
qed

text \<open>A bootstrap processor with identifier 2.\<close>

theorem bsp_recognised_as_zero_witness:
  "smp_core small_env one_madt 0 (small_smp (one_lapic(0x1003 := 2)) 0x2000000) =
    (let s = small_smp (one_lapic(0x1003 := 2)) 0x2000000
     in ap_core small_env 0 0 2 (s\<lparr>cpus := (cpus s)(0 := (cpus s 0)\<lparr>lapic_id := 2, cpu_id := 0\<rparr>)\<rparr>))"
proof -
  let ?s = "small_smp (one_lapic(0x1003 := 2)) 0x2000000"
  have "num_cpus ?s = 0" "apic_read_reg APIC_REG_ID (smp_apic ?s) = push_bit 24 (ucast (2 :: u8))"
    by (simp_all add: small_smp_def apic_read_reg_def)
  moreover have "load_le 4 (one_lapic(0x1003 := 2)) (0x1000 + 4) AND 1 \<noteq> 0" "(one_lapic(0x1003 := 2)) (0x1000 + 2) = 0"
    by (simp_all add: load32_bytes one_lapic_def)
  ultimately show ?thesis
    using bsp_recognised_as_zero [of 0 one_madt ?s 2 small_env] by (simp add: one_madt_def Let_def)
qed

end
