(* ===== verification/VfsStore.thy ===== *)
theory VfsStore
  imports Interfaces
begin

text \<open>
  \<open>kernel/fs/vfs/vfs.h\<close> and the allocation part of \<open>common.c\<close>: the objects of the virtual file
  system. Inodes, tnodes, node descriptors and the drivers' private data live in stores from
  references to records, because they are shared by pointer; a freed object is \<open>None\<close>, and
  following a pointer to it is the fault \<open>Dangling\<close>. The vectors \<open>child\<close> and \<open>openfiles\<close> are lists:
  that \<open>vec_push_back\<close> appends and \<open>vec_erase_val\<close> removes the first occurrence is shown in the
  theory \<open>Vector\<close> on the byte memory. Allocation always succeeds here (when memory runs out the
  kernel panics, see \<open>Kmalloc\<close>) and never reuses a reference.
\<close>

type_synonym inode_ref = nat
type_synonym tnode_ref = nat
type_synonym desc_ref = nat
type_synonym ident_ref = nat

datatype node_type =
    VFS_NODE_FILE
  | VFS_NODE_FOLDER
  | VFS_NODE_PIPE
  | VFS_NODE_BLOCK_DEVICE
  | VFS_NODE_CHAR_DEVICE
  | VFS_NODE_MOUNTPOINT

datatype openmode = VFS_MODE_READ | VFS_MODE_WRITE | VFS_MODE_READWRITE

text \<open>The file systems of the kernel, in place of the pointers to their \<open>vfs_fsinfo_t\<close>.\<close>

datatype fs_id = RAMFS | TTYFS

record tnode =
  tname :: "u8 list"
  tinode :: "inode_ref option"
  tparent :: "inode_ref option"

record inode =
  itype :: node_type
  isize :: u64
  perms :: u32
  uid :: u32
  refcount :: u32
  ifs :: "fs_id option"
  ident :: "ident_ref option"
  mountpoint :: "tnode_ref option"
  child :: "tnode_ref list"

record node_desc =
  nd_tnode :: tnode_ref
  nd_inode :: inode_ref
  nd_mode :: openmode
  seek_pos :: u64

text \<open>The drivers' private data: \<open>ramfs_ident_t\<close> and \<open>ttyfs_ident_t\<close>.\<close>

record ramfs_ident =
  ram_alloc :: u64
  ram_data :: "u8 list option"

record ttyfs_ident =
  buff_in :: "u8 list"
  buff_out :: "u8 list"
  in_start :: u64
  in_size :: u64
  out_start :: u64
  out_size :: u64

datatype ident_data = Ram_Ident ramfs_ident | Tty_Ident ttyfs_ident

text \<open>
  \<open>junk k\<close> is the k-th byte of a fresh heap block, \<open>files\<close> the table of open files of each task,
  \<open>next_ref\<close> the next unused reference.
\<close>

record vfs =
  inodes :: "inode_ref \<Rightarrow> inode option"
  tnodes :: "tnode_ref \<Rightarrow> tnode option"
  descs :: "desc_ref \<Rightarrow> node_desc option"
  idents :: "ident_ref \<Rightarrow> ident_data option"
  files :: "nat \<Rightarrow> desc_ref option list"
  vfs_root :: tnode_ref
  fslist :: "fs_id list"
  next_ref :: nat
  junk :: "nat \<Rightarrow> u8"

section \<open>Reading and writing objects\<close>

definition get_inode :: "inode_ref option \<Rightarrow> vfs \<Rightarrow> inode result" where
  "get_inode r s = and_then (from_option Null_Deref r) (\<lambda>i. from_option Dangling (inodes s i))"

definition get_tnode :: "tnode_ref \<Rightarrow> vfs \<Rightarrow> tnode result" where
  "get_tnode t s = from_option Dangling (tnodes s t)"

definition get_desc :: "desc_ref \<Rightarrow> vfs \<Rightarrow> node_desc result" where
  "get_desc d s = from_option Dangling (descs s d)"

definition upd_inode :: "inode_ref option \<Rightarrow> (inode \<Rightarrow> inode) \<Rightarrow> vfs \<Rightarrow> vfs result" where
  "upd_inode r f s =
     and_then (from_option Null_Deref r) (\<lambda>i.
     and_then (from_option Dangling (inodes s i)) (\<lambda>x. Inr (s\<lparr>inodes := (inodes s)(i \<mapsto> f x)\<rparr>)))"

definition upd_tnode :: "tnode_ref \<Rightarrow> (tnode \<Rightarrow> tnode) \<Rightarrow> vfs \<Rightarrow> vfs result" where
  "upd_tnode t f s =
     and_then (from_option Dangling (tnodes s t)) (\<lambda>x. Inr (s\<lparr>tnodes := (tnodes s)(t \<mapsto> f x)\<rparr>))"

definition upd_desc :: "desc_ref \<Rightarrow> (node_desc \<Rightarrow> node_desc) \<Rightarrow> vfs \<Rightarrow> vfs result" where
  "upd_desc d f s =
     and_then (from_option Dangling (descs s d)) (\<lambda>x. Inr (s\<lparr>descs := (descs s)(d \<mapsto> f x)\<rparr>))"

definition free_inode :: "inode_ref \<Rightarrow> vfs \<Rightarrow> vfs" where
  "free_inode i s = s\<lparr>inodes := (inodes s)(i := None)\<rparr>"

section \<open>Allocation\<close>

abbreviation VFS_MAX_NAME_LEN :: nat where "VFS_MAX_NAME_LEN \<equiv> 256"
abbreviation VFS_MAX_PATH_LEN :: nat where "VFS_MAX_PATH_LEN \<equiv> 4096"

text \<open>A name longer than the field is cut off (the field then has no terminator).\<close>

definition vfs_alloc_tnode ::
  "u8 list \<Rightarrow> inode_ref option \<Rightarrow> inode_ref option \<Rightarrow> vfs \<Rightarrow> tnode_ref \<times> vfs" where
  "vfs_alloc_tnode name i parent s =
     (next_ref s,
      s\<lparr>tnodes := (tnodes s)(next_ref s \<mapsto>
          \<lparr>tname = take VFS_MAX_NAME_LEN name, tinode = i, tparent = parent\<rparr>),
        next_ref := next_ref s + 1\<rparr>)"

definition vfs_alloc_inode ::
  "node_type \<Rightarrow> u32 \<Rightarrow> u32 \<Rightarrow> fs_id option \<Rightarrow> tnode_ref option \<Rightarrow> vfs \<Rightarrow> inode_ref \<times> vfs" where
  "vfs_alloc_inode ty p u f mnt s =
     (next_ref s,
      s\<lparr>inodes := (inodes s)(next_ref s \<mapsto>
          \<lparr>itype = ty, isize = 0, perms = p, uid = u, refcount = 1, ifs = f, ident = None,
           mountpoint = mnt, child = []\<rparr>),
        next_ref := next_ref s + 1\<rparr>)"

definition alloc_ident :: "ident_data \<Rightarrow> vfs \<Rightarrow> ident_ref \<times> vfs" where
  "alloc_ident d s = (next_ref s, s\<lparr>idents := (idents s)(next_ref s \<mapsto> d), next_ref := next_ref s + 1\<rparr>)"

definition vfs_free_nodes :: "tnode_ref \<Rightarrow> vfs \<Rightarrow> vfs result" where
  "vfs_free_nodes t s =
     and_then (get_tnode t s) (\<lambda>x.
     and_then (get_inode (tinode x) s) (\<lambda>i.
       let s = (if refcount i \<le> 0 then free_inode (the (tinode x)) s else s)
       in Inr (s\<lparr>tnodes := (tnodes s)(t := None)\<rparr>)))"

lemma get_simps [simp, res_simps]:
  "inodes s i = Some x \<Longrightarrow> get_inode (Some i) s = Inr x"
  "get_inode None s = Inl Null_Deref"
  "tnodes s t = Some y \<Longrightarrow> get_tnode t s = Inr y"
  "descs s d = Some z \<Longrightarrow> get_desc d s = Inr z"
  "inodes s i = Some x \<Longrightarrow> upd_inode (Some i) f s = Inr (s\<lparr>inodes := (inodes s)(i \<mapsto> f x)\<rparr>)"
  "tnodes s t = Some y \<Longrightarrow> upd_tnode t g s = Inr (s\<lparr>tnodes := (tnodes s)(t \<mapsto> g y)\<rparr>)"
  "descs s d = Some z \<Longrightarrow> upd_desc d k s = Inr (s\<lparr>descs := (descs s)(d \<mapsto> k z)\<rparr>)"
  by (simp_all add: get_inode_def get_tnode_def get_desc_def upd_inode_def upd_tnode_def upd_desc_def)

lemma get_InrD:
  "get_inode r s = Inr x \<Longrightarrow> \<exists>i. r = Some i \<and> inodes s i = Some x"
  "get_tnode t s = Inr y \<Longrightarrow> tnodes s t = Some y"
  "get_desc d s = Inr z \<Longrightarrow> descs s d = Some z"
  by (auto simp: get_inode_def get_tnode_def get_desc_def and_then_eq_Inr)

end
