(* ===== verification/Ramfs.thy ===== *)
theory Ramfs
  imports VfsStore
begin

text \<open>
  \<open>kernel/fs/ramfs/ramfs.c\<close>: the file system that keeps file contents in kernel memory. The
  driver is called through the pointers of its \<open>vfs_fsinfo_t\<close>.
\<close>

section \<open>The driver\<close>

definition create_ident :: "vfs \<Rightarrow> ident_ref \<times> vfs" where
  "create_ident s = alloc_ident (Ram_Ident \<lparr>ram_alloc = 0, ram_data = None\<rparr>) s"

definition get_ram :: "inode \<Rightarrow> vfs \<Rightarrow> (ident_ref \<times> ramfs_ident) result" where
  "get_ram i s =
     and_then (from_option Null_Deref (ident i)) (\<lambda>r.
     and_then (from_option Dangling (idents s r)) (\<lambda>d.
       case d of Ram_Ident x \<Rightarrow> Inr (r, x) | Tty_Ident _ \<Rightarrow> Inl Undefined_Behaviour))"

definition set_ram :: "ident_ref \<Rightarrow> ramfs_ident \<Rightarrow> vfs \<Rightarrow> vfs" where
  "set_ram r x s = s\<lparr>idents := (idents s)(r \<mapsto> Ram_Ident x)\<rparr>"

text \<open>
  A copy from or to the block \<open>data\<close> must stay inside it; a copy of no bytes touches no memory.
\<close>

definition block_range :: "u8 list option \<Rightarrow> u64 \<Rightarrow> u64 \<Rightarrow> u8 list result" where
  "block_range d offset n =
     (if n = 0 then Inr (case d of None \<Rightarrow> [] | Some bs \<Rightarrow> bs)
      else case d of
        None \<Rightarrow> Inl Null_Deref
      | Some bs \<Rightarrow>
          if unat offset + unat n \<le> length bs then Inr bs else Inl Out_Of_Bounds)"

definition ramfs_read :: "inode_ref \<Rightarrow> u64 \<Rightarrow> u64 \<Rightarrow> vfs \<Rightarrow> (u64 \<times> u8 list \<times> vfs) result" where
  "ramfs_read this offset n s =
     and_then (get_inode (Some this) s) (\<lambda>i.
     and_then (get_ram i s) (\<lambda>(r, x).
     and_then (block_range (ram_data x) offset n) (\<lambda>bs.
       Inr (n, take (unat n) (drop (unat offset) bs), s))))"

definition overwrite :: "u8 list \<Rightarrow> nat \<Rightarrow> u8 list \<Rightarrow> u8 list" where
  "overwrite bs k new = take k bs @ new @ drop (k + length new) bs"

definition ramfs_write :: "inode_ref \<Rightarrow> u64 \<Rightarrow> u8 list \<Rightarrow> vfs \<Rightarrow> (u64 \<times> vfs) result" where
  "ramfs_write this offset new s =
     and_then (get_inode (Some this) s) (\<lambda>i.
     and_then (get_ram i s) (\<lambda>(r, x).
     and_then (block_range (ram_data x) offset (of_nat (length new))) (\<lambda>bs.
       Inr (of_nat (length new),
            if new = [] then s
            else set_ram r (x\<lparr>ram_data := Some (overwrite bs (unat offset) new)\<rparr>) s))))"

text \<open>\<open>kmrealloc\<close> of the data keeps the old bytes; the new ones are what memory held.\<close>

definition grow :: "(nat \<Rightarrow> u8) \<Rightarrow> u64 \<Rightarrow> u8 list option \<Rightarrow> u8 list" where
  "grow jk n d = (let bs = (case d of None \<Rightarrow> [] | Some bs \<Rightarrow> bs) in bs @ map jk [length bs..<unat n])"

definition ramfs_sync :: "inode_ref \<Rightarrow> vfs \<Rightarrow> (int \<times> vfs) result" where
  "ramfs_sync this s =
     and_then (get_inode (Some this) s) (\<lambda>i.
     and_then (get_ram i s) (\<lambda>(r, x).
       Inr (0, if isize i > ram_alloc x
               then set_ram r \<lparr>ram_alloc = isize i, ram_data = Some (grow (junk s) (isize i) (ram_data x))\<rparr> s
               else s)))"

definition ramfs_setlink :: "tnode_ref \<Rightarrow> inode_ref option \<Rightarrow> vfs \<Rightarrow> (int \<times> vfs) result" where
  "ramfs_setlink this target s =
     and_then (get_tnode this s) (\<lambda>t.
     and_then (get_inode (tinode t) s) (\<lambda>i.
       if refcount i = 0
       then and_then (get_ram i s) (\<lambda>(r, x). Inr (0, s\<lparr>idents := (idents s)(r := None)\<rparr>))
       else Inr (0, s)))"

definition ramfs_refresh :: "inode_ref \<Rightarrow> vfs \<Rightarrow> (int \<times> vfs) result" where
  "ramfs_refresh this s = Inr (0, s)"

definition ramfs_mknode :: "tnode_ref \<Rightarrow> vfs \<Rightarrow> (int \<times> vfs) result" where
  "ramfs_mknode this s =
     (case create_ident s of (r, s) \<Rightarrow>
        and_then (get_tnode this s) (\<lambda>t.
        and_then (upd_inode (tinode t) (\<lambda>i. i\<lparr>ident := Some r\<rparr>) s) (\<lambda>s. Inr (0, s))))"

definition ramfs_mount :: "inode_ref option \<Rightarrow> vfs \<Rightarrow> (inode_ref \<times> vfs) result" where
  "ramfs_mount device s =
     (case vfs_alloc_inode VFS_NODE_MOUNTPOINT 511 0 (Some RAMFS) None s of (i, s) \<Rightarrow>
      case create_ident s of (r, s) \<Rightarrow>
        and_then (upd_inode (Some i) (\<lambda>x. x\<lparr>ident := Some r\<rparr>) s) (\<lambda>s. Inr (i, s)))"

end
