(* ===== verification/Ttyfs.thy ===== *)
theory Ttyfs
  imports VfsStore
begin

text \<open>
  \<open>kernel/fs/ttyfs/ttyfs.c\<close>: terminals as files. Each node has two ring buffers of 16 bytes:
  reads take from the input buffer, writes go to the output buffer, whose oldest bytes are
  overwritten.
\<close>

abbreviation TTY_BUFFER_SIZE :: u64 where "TTY_BUFFER_SIZE \<equiv> 16"

definition tty_create_ident :: "vfs \<Rightarrow> ident_ref \<times> vfs" where
  "tty_create_ident s =
     alloc_ident (Tty_Ident \<lparr>buff_in = map (junk s) [0..<16], buff_out = map (junk s) [0..<16],
       in_start = 0, in_size = 0, out_start = 0, out_size = 0\<rparr>) s"

definition get_tty :: "inode \<Rightarrow> vfs \<Rightarrow> (ident_ref \<times> ttyfs_ident) result" where
  "get_tty i s =
     and_then (from_option Null_Deref (ident i)) (\<lambda>r.
     and_then (from_option Dangling (idents s r)) (\<lambda>d.
       case d of Tty_Ident x \<Rightarrow> Inr (r, x) | Ram_Ident _ \<Rightarrow> Inl Undefined_Behaviour))"

definition set_tty :: "ident_ref \<Rightarrow> ttyfs_ident \<Rightarrow> vfs \<Rightarrow> vfs" where
  "set_tty r x s = s\<lparr>idents := (idents s)(r \<mapsto> Tty_Ident x)\<rparr>"

text \<open>The two loops: reading \<open>n\<close> bytes from index \<open>start\<close> on, writing from index \<open>k\<close> on.\<close>

definition ring_index :: "u64 \<Rightarrow> nat" where
  "ring_index k = unat (k mod TTY_BUFFER_SIZE)"

fun ring_read :: "u8 list \<Rightarrow> u64 \<Rightarrow> nat \<Rightarrow> u8 list" where
  "ring_read b start 0 = []"
| "ring_read b start (Suc n) = b ! ring_index start # ring_read b (start + 1) n"

fun ring_write :: "u8 list \<Rightarrow> u64 \<Rightarrow> u8 list \<Rightarrow> u8 list" where
  "ring_write b k [] = b"
| "ring_write b k (c # cs) = ring_write (b[ring_index k := c]) (k + 1) cs"

definition ttyfs_read :: "inode_ref \<Rightarrow> u64 \<Rightarrow> u64 \<Rightarrow> vfs \<Rightarrow> (u64 \<times> u8 list \<times> vfs) result" where
  "ttyfs_read this offset n s =
     and_then (get_inode (Some this) s) (\<lambda>i.
     and_then (get_tty i s) (\<lambda>(r, x).
       let rlen = min n (in_size x);
           bs = ring_read (buff_in x) (in_start x) (unat rlen);
           x = x\<lparr>in_start := (in_start x + rlen) mod TTY_BUFFER_SIZE, in_size := in_size x - rlen\<rparr>
       in Inr (rlen, bs, set_tty r x s)))"

definition tty_put :: "u8 list \<Rightarrow> ttyfs_ident \<Rightarrow> ttyfs_ident" where
  "tty_put new x =
     (let n = of_nat (length new);
          stop = out_start x + out_size x
      in x\<lparr>buff_out := ring_write (buff_out x) stop new,
           out_start := (if n > TTY_BUFFER_SIZE - out_size x then (stop + n) mod TTY_BUFFER_SIZE
                         else out_start x),
           out_size := min (n + out_size x) TTY_BUFFER_SIZE\<rparr>)"

definition ttyfs_write :: "inode_ref \<Rightarrow> u64 \<Rightarrow> u8 list \<Rightarrow> vfs \<Rightarrow> (u64 \<times> vfs) result" where
  "ttyfs_write this offset new s =
     and_then (get_inode (Some this) s) (\<lambda>i.
     and_then (get_tty i s) (\<lambda>(r, x). Inr (of_nat (length new), set_tty r (tty_put new x) s)))"

definition ttyfs_sync :: "inode_ref \<Rightarrow> vfs \<Rightarrow> (int \<times> vfs) result" where
  "ttyfs_sync this s = Inr (0, s)"

definition ttyfs_setlink :: "tnode_ref \<Rightarrow> inode_ref option \<Rightarrow> vfs \<Rightarrow> (int \<times> vfs) result" where
  "ttyfs_setlink this target s = Inr (0, s)"

definition ttyfs_refresh :: "inode_ref \<Rightarrow> vfs \<Rightarrow> (int \<times> vfs) result" where
  "ttyfs_refresh this s = Inr (0, s)"

definition ttyfs_mknode :: "tnode_ref \<Rightarrow> vfs \<Rightarrow> (int \<times> vfs) result" where
  "ttyfs_mknode this s =
     (case tty_create_ident s of (r, s) \<Rightarrow>
        and_then (get_tnode this s) (\<lambda>t.
        and_then (upd_inode (tinode t) (\<lambda>i. i\<lparr>ident := Some r\<rparr>) s) (\<lambda>s. Inr (0, s))))"

definition ttyfs_mount :: "inode_ref option \<Rightarrow> vfs \<Rightarrow> (inode_ref \<times> vfs) result" where
  "ttyfs_mount device s =
     Inr (vfs_alloc_inode VFS_NODE_MOUNTPOINT 511 0 (Some TTYFS) None s)"

end
