(* ===== verification/Vfs.thy ===== *)
theory Vfs
  imports Ramfs Ttyfs
begin

text \<open>
  \<open>kernel/fs/vfs/\<close>: paths, open files, reading and writing, links, mounts and directory entries.
  Each operation runs under \<open>vfs_lock\<close> and is one step on the state. \<open>cur\<close> is the number of the
  current task, whose table of open files it uses. Handles are C \<open>int\<close>s; a path is the list of
  its bytes without the terminating NUL. The log is not part of the state: the messages of failed
  operations and of mounts are left out.
\<close>

section \<open>The drivers, by file system\<close>

definition fs_name :: "fs_id \<Rightarrow> u8 list" where
  "fs_name f = (case f of RAMFS \<Rightarrow> [114, 97, 109, 102, 115] | TTYFS \<Rightarrow> [116, 116, 121, 102, 115])"

definition fs_istemp :: "fs_id \<Rightarrow> bool" where
  "fs_istemp f = (case f of RAMFS \<Rightarrow> True | TTYFS \<Rightarrow> True)"

definition fs_mount :: "fs_id \<Rightarrow> inode_ref option \<Rightarrow> vfs \<Rightarrow> (inode_ref \<times> vfs) result" where
  "fs_mount f = (case f of RAMFS \<Rightarrow> ramfs_mount | TTYFS \<Rightarrow> ttyfs_mount)"

definition fs_mknode :: "fs_id \<Rightarrow> tnode_ref \<Rightarrow> vfs \<Rightarrow> (int \<times> vfs) result" where
  "fs_mknode f = (case f of RAMFS \<Rightarrow> ramfs_mknode | TTYFS \<Rightarrow> ttyfs_mknode)"

definition fs_read :: "fs_id \<Rightarrow> inode_ref \<Rightarrow> u64 \<Rightarrow> u64 \<Rightarrow> vfs \<Rightarrow> (u64 \<times> u8 list \<times> vfs) result" where
  "fs_read f = (case f of RAMFS \<Rightarrow> ramfs_read | TTYFS \<Rightarrow> ttyfs_read)"

definition fs_write :: "fs_id \<Rightarrow> inode_ref \<Rightarrow> u64 \<Rightarrow> u8 list \<Rightarrow> vfs \<Rightarrow> (u64 \<times> vfs) result" where
  "fs_write f = (case f of RAMFS \<Rightarrow> ramfs_write | TTYFS \<Rightarrow> ttyfs_write)"

definition fs_sync :: "fs_id \<Rightarrow> inode_ref \<Rightarrow> vfs \<Rightarrow> (int \<times> vfs) result" where
  "fs_sync f = (case f of RAMFS \<Rightarrow> ramfs_sync | TTYFS \<Rightarrow> ttyfs_sync)"

definition fs_setlink :: "fs_id \<Rightarrow> tnode_ref \<Rightarrow> inode_ref option \<Rightarrow> vfs \<Rightarrow> (int \<times> vfs) result" where
  "fs_setlink f = (case f of RAMFS \<Rightarrow> ramfs_setlink | TTYFS \<Rightarrow> ttyfs_setlink)"

text \<open>The root inode has no file system before the first mount.\<close>

definition fs_of :: "inode \<Rightarrow> fs_id result" where
  "fs_of i = from_option Null_Deref (ifs i)"

section \<open>Paths\<close>

abbreviation SLASH :: u8 where "SLASH \<equiv> 47"

definition is_traversable :: "inode \<Rightarrow> bool" where
  "is_traversable i \<longleftrightarrow> itype i = VFS_NODE_FOLDER \<or> itype i = VFS_NODE_MOUNTPOINT"

abbreviation NO_CREATE :: u8 where "NO_CREATE \<equiv> 1"
abbreviation CREATE :: u8 where "CREATE \<equiv> 2"
abbreviation ERR_ON_EXIST :: u8 where "ERR_ON_EXIST \<equiv> 4"

text \<open>\<open>strncmp\<close> over the whole name field: names agree on their first 256 bytes.\<close>

definition same_name :: "u8 list \<Rightarrow> u8 list \<Rightarrow> bool" where
  "same_name a b \<longleftrightarrow> take VFS_MAX_NAME_LEN a = take VFS_MAX_NAME_LEN b"

fun find_child :: "u8 list \<Rightarrow> tnode_ref list \<Rightarrow> vfs \<Rightarrow> tnode_ref option result" where
  "find_child name [] s = Inr None"
| "find_child name (c # cs) s =
     and_then (get_tnode c s) (\<lambda>t.
       if same_name (tname t) name then Inr (Some c) else find_child name cs s)"

text \<open>The next component, from index \<open>i\<close> up to the next slash or the end.\<close>

definition token_at :: "u8 list \<Rightarrow> nat \<Rightarrow> u8 list" where
  "token_at path i = takeWhile (\<lambda>c. c \<noteq> SLASH) (drop i path)"

text \<open>
  The loop of \<open>path_to_node\<close>, over the path without its leading slash: the index, the node
  reached, whether the last component was found, and the component buffer of 4096 bytes. A
  component that is not found does not end the loop.
\<close>

function path_walk ::
  "u8 list \<Rightarrow> nat \<Rightarrow> tnode_ref \<Rightarrow> bool \<Rightarrow> u8 list \<Rightarrow> vfs \<Rightarrow> (nat \<times> tnode_ref \<times> bool \<times> u8 list) result" where
  "path_walk path i cur found buf s =
     (if i < length path
      then let tok = token_at path i; j = i + length tok + 1
           in if length tok \<ge> VFS_MAX_PATH_LEN then Inl Out_Of_Bounds
              else and_then (get_tnode cur s) (\<lambda>t.
                   and_then (get_inode (tinode t) s) (\<lambda>x.
                     if \<not> is_traversable x then Inr (j, cur, False, tok)
                     else and_then (find_child tok (child x) s) (\<lambda>r.
                       case r of
                         None \<Rightarrow> path_walk path j cur False tok s
                       | Some c \<Rightarrow> path_walk path j c True tok s)))
      else Inr (i, cur, found, buf))"
  by pat_completeness auto
termination by (relation "measure (\<lambda>(path, i, _). length path - i)") auto

declare path_walk.simps [simp del]

definition path_to_node ::
  "u8 list \<Rightarrow> u8 \<Rightarrow> node_type \<Rightarrow> vfs \<Rightarrow> (tnode_ref option \<times> vfs) result" where
  "path_to_node path md ty s =
     (case path of [] \<Rightarrow> Inr (None, s) | c # path \<Rightarrow>
        if c \<noteq> SLASH then Inr (None, s)
        else and_then (path_walk path 0 (vfs_root s) True [] s) (\<lambda>(i, cur, found, tok).
          if \<not> found
          then and_then (get_tnode cur s) (\<lambda>t.
               and_then (get_inode (tinode t) s) (\<lambda>x.
                 if \<not> is_traversable x then Inr (None, s)
                 else if md AND CREATE \<noteq> 0 \<and> i > length path \<and> is_traversable x
                 then case vfs_alloc_inode ty 511 0 (ifs x) (mountpoint x) s of (ni, s) \<Rightarrow>
                      case vfs_alloc_tnode tok (Some ni) (tinode t) s of (nt, s) \<Rightarrow>
                        and_then (upd_inode (tinode t) (\<lambda>x. x\<lparr>child := child x @ [nt]\<rparr>) s) (\<lambda>s.
                        and_then (fs_of x) (\<lambda>f.
                        and_then (fs_mknode f nt s) (\<lambda>(_, s). Inr (Some nt, s))))
                 else Inr (None, s)))
          else if md AND ERR_ON_EXIST \<noteq> 0 then Inr (None, s)
          else Inr (Some cur, s)))"

section \<open>Opening and closing\<close>

text \<open>The descriptor a handle of the current task names.\<close>

definition handle_to_fd :: "nat \<Rightarrow> int \<Rightarrow> vfs \<Rightarrow> desc_ref option" where
  "handle_to_fd cur h s =
     (if h < 0 \<or> nat h \<ge> length (files s cur) then None else files s cur ! nat h)"

definition vfs_open :: "nat \<Rightarrow> u8 list \<Rightarrow> openmode \<Rightarrow> vfs \<Rightarrow> (int \<times> vfs) result" where
  "vfs_open cur path md s =
     and_then (path_to_node path NO_CREATE VFS_NODE_FILE s) (\<lambda>(req, s).
       case req of
         None \<Rightarrow> Inr (- 1, s)
       | Some req \<Rightarrow>
           and_then (get_tnode req s) (\<lambda>t.
           and_then (upd_inode (tinode t) (\<lambda>x. x\<lparr>refcount := refcount x + 1\<rparr>) s) (\<lambda>s.
             let nd = next_ref s;
                 s = s\<lparr>descs := (descs s)(nd \<mapsto>
                         \<lparr>nd_tnode = req, nd_inode = the (tinode t), nd_mode = md, seek_pos = 0\<rparr>),
                       next_ref := next_ref s + 1,
                       files := (files s)(cur := files s cur @ [Some nd])\<rparr>
             in Inr (int (length (files s cur)) - 1, s))))"

definition vfs_close :: "nat \<Rightarrow> int \<Rightarrow> vfs \<Rightarrow> (int \<times> vfs) result" where
  "vfs_close cur h s =
     (case handle_to_fd cur h s of
        None \<Rightarrow> Inr (- 1, s)
      | Some fd \<Rightarrow>
          and_then (get_desc fd s) (\<lambda>d.
          and_then (upd_inode (Some (nd_inode d)) (\<lambda>x. x\<lparr>refcount := refcount x - 1\<rparr>) s) (\<lambda>s.
            Inr (0, s\<lparr>descs := (descs s)(fd := None),
                      files := (files s)(cur := (files s cur)[nat h := None])\<rparr>))))"

section \<open>Reading and writing\<close>

definition has_size :: "inode \<Rightarrow> bool" where
  "has_size i \<longleftrightarrow> itype i = VFS_NODE_BLOCK_DEVICE \<or> itype i = VFS_NODE_FILE"

text \<open>The result, and the bytes that were stored into the caller's buffer.\<close>

definition vfs_read :: "nat \<Rightarrow> int \<Rightarrow> u64 \<Rightarrow> vfs \<Rightarrow> (u64 \<times> u8 list \<times> vfs) result" where
  "vfs_read cur h n s =
     (case handle_to_fd cur h s of
        None \<Rightarrow> Inr (0, [], s)
      | Some fd \<Rightarrow>
          and_then (get_desc fd s) (\<lambda>d.
          and_then (get_inode (Some (nd_inode d)) s) (\<lambda>i.
            let cut = seek_pos d + n > isize i \<and> has_size i;
                n = (if cut then isize i - seek_pos d else n)
            in if cut \<and> n = 0 then Inr (n, [], s)
               else and_then (fs_of i) (\<lambda>f.
                    and_then (fs_read f (nd_inode d) (seek_pos d) n s) (\<lambda>(got, bs, s).
                    and_then (upd_desc fd (\<lambda>d. d\<lparr>seek_pos := seek_pos d + got\<rparr>) s) (\<lambda>s.
                      Inr (n, bs, s)))))))"

definition vfs_write :: "nat \<Rightarrow> int \<Rightarrow> u8 list \<Rightarrow> vfs \<Rightarrow> (u64 \<times> vfs) result" where
  "vfs_write cur h buff s =
     (case handle_to_fd cur h s of
        None \<Rightarrow> Inr (0, s)
      | Some fd \<Rightarrow>
          and_then (get_desc fd s) (\<lambda>d.
            if nd_mode d = VFS_MODE_READ then Inr (0, s)
            else and_then (get_inode (Some (nd_inode d)) s) (\<lambda>i.
              let n = of_nat (length buff)
              in and_then
                   (if seek_pos d + n > isize i \<and> has_size i
                    then and_then (upd_inode (Some (nd_inode d)) (\<lambda>x. x\<lparr>isize := seek_pos d + n\<rparr>) s) (\<lambda>s.
                         and_then (fs_of i) (\<lambda>f. and_then (fs_sync f (nd_inode d) s) (\<lambda>(_, s). Inr s)))
                    else Inr s) (\<lambda>s.
                 and_then (fs_of i) (\<lambda>f.
                 and_then (fs_write f (nd_inode d) (seek_pos d) buff s) (\<lambda>(put, s).
                 and_then (upd_desc fd (\<lambda>d. d\<lparr>seek_pos := seek_pos d + put\<rparr>) s) (\<lambda>s.
                   Inr (n, s))))))))"

definition vfs_seek :: "nat \<Rightarrow> int \<Rightarrow> u64 \<Rightarrow> vfs \<Rightarrow> (int \<times> vfs) result" where
  "vfs_seek cur h pos s =
     (case handle_to_fd cur h s of
        None \<Rightarrow> Inr (- 1, s)
      | Some fd \<Rightarrow>
          and_then (get_desc fd s) (\<lambda>d.
          and_then (get_inode (Some (nd_inode d)) s) (\<lambda>i.
            if pos \<ge> isize i \<and> nd_mode d = VFS_MODE_READ then Inr (- 1, s)
            else and_then (upd_desc fd (\<lambda>d. d\<lparr>seek_pos := pos\<rparr>) s) (\<lambda>s. Inr (0, s)))))"

section \<open>Creating nodes, permissions, mounting\<close>

definition vfs_create :: "u8 list \<Rightarrow> node_type \<Rightarrow> vfs \<Rightarrow> (int \<times> vfs) result" where
  "vfs_create path ty s =
     and_then (path_to_node path (CREATE OR ERR_ON_EXIST) ty s) (\<lambda>(node, s).
       Inr (if node = None then - 1 else 0, s))"

definition vfs_chmod :: "nat \<Rightarrow> int \<Rightarrow> u32 \<Rightarrow> vfs \<Rightarrow> (int \<times> vfs) result" where
  "vfs_chmod cur h newperms s =
     (case handle_to_fd cur h s of
        None \<Rightarrow> Inr (- 1, s)
      | Some fd \<Rightarrow>
          and_then (get_desc fd s) (\<lambda>d.
            if nd_mode d = VFS_MODE_READ then Inr (- 1, s)
            else and_then (upd_inode (Some (nd_inode d)) (\<lambda>x. x\<lparr>perms := newperms\<rparr>) s) (\<lambda>s.
                 and_then (get_inode (Some (nd_inode d)) s) (\<lambda>i.
                 and_then (fs_of i) (\<lambda>f.
                 and_then (fs_sync f (nd_inode d) s) (\<lambda>(_, s). Inr (0, s)))))))"

definition vfs_register_fs :: "fs_id \<Rightarrow> vfs \<Rightarrow> vfs" where
  "vfs_register_fs f s = s\<lparr>fslist := fslist s @ [f]\<rparr>"

definition vfs_get_fs :: "u8 list \<Rightarrow> vfs \<Rightarrow> fs_id option" where
  "vfs_get_fs name s = find (\<lambda>f. take 16 name = take 16 (fs_name f)) (fslist s)"

definition vfs_mount :: "u8 list \<Rightarrow> u8 list \<Rightarrow> u8 list \<Rightarrow> vfs \<Rightarrow> (int \<times> vfs) result" where
  "vfs_mount device path fsname s =
     (case vfs_get_fs fsname s of
        None \<Rightarrow> Inr (- 1, s)
      | Some f \<Rightarrow>
          and_then
            (if fs_istemp f then Inr (True, None)
             else and_then (path_to_node device NO_CREATE VFS_NODE_FILE s) (\<lambda>(dev, _).
               case dev of
                 None \<Rightarrow> Inr (False, None)
               | Some dev \<Rightarrow>
                   and_then (get_tnode dev s) (\<lambda>t.
                   and_then (get_inode (tinode t) s) (\<lambda>i.
                     Inr (itype i = VFS_NODE_BLOCK_DEVICE, tinode t))))) (\<lambda>(ok, dev).
            if \<not> ok then Inr (- 1, s)
            else and_then (path_to_node path NO_CREATE VFS_NODE_FILE s) (\<lambda>(at, s).
              case at of
                None \<Rightarrow> Inr (- 1, s)
              | Some at \<Rightarrow>
                  and_then (get_tnode at s) (\<lambda>t.
                  and_then (get_inode (tinode t) s) (\<lambda>i.
                    if itype i \<noteq> VFS_NODE_FOLDER \<or> child i \<noteq> [] then Inr (- 1, s)
                    else and_then (fs_mount f dev (free_inode (the (tinode t)) s)) (\<lambda>(ni, s).
                         and_then (upd_tnode at (\<lambda>t. t\<lparr>tinode := Some ni\<rparr>) s) (\<lambda>s.
                         and_then (upd_inode (Some ni) (\<lambda>x. x\<lparr>mountpoint := Some at\<rparr>) s) (\<lambda>s.
                           Inr (0, s)))))))))"

definition vfs_init :: "vfs \<Rightarrow> vfs result" where
  "vfs_init s =
     (case vfs_alloc_inode VFS_NODE_FOLDER 511 0 None None s of (i, s) \<Rightarrow>
        and_then (upd_tnode (vfs_root s) (\<lambda>t. t\<lparr>tinode := Some i\<rparr>) s) (\<lambda>s.
        let s = vfs_register_fs RAMFS s
        in and_then (vfs_mount [] [SLASH] (fs_name RAMFS) s) (\<lambda>(_, s). Inr s)))"

section \<open>Linking and unlinking\<close>

definition vfs_link :: "u8 list \<Rightarrow> u8 list \<Rightarrow> vfs \<Rightarrow> (int \<times> vfs) result" where
  "vfs_link oldpath newpath s =
     and_then (path_to_node oldpath NO_CREATE VFS_NODE_FILE s) (\<lambda>(old, s).
       case old of None \<Rightarrow> Inr (- 1, s) | Some old \<Rightarrow>
         and_then (get_tnode old s) (\<lambda>ot.
         and_then (get_inode (tinode ot) s) (\<lambda>oi.
         and_then (path_to_node newpath (CREATE OR ERR_ON_EXIST) (itype oi) s) (\<lambda>(new, s).
           case new of None \<Rightarrow> Inr (- 1, s) | Some new \<Rightarrow>
             and_then (get_tnode new s) (\<lambda>nt.
             and_then (get_inode (tinode nt) s) (\<lambda>ni.
             and_then (get_inode (tinode ot) s) (\<lambda>oi.
               if mountpoint ni \<noteq> mountpoint oi
               then and_then (fs_of ni) (\<lambda>f.
                    and_then (fs_setlink f new None s) (\<lambda>(_, s).
                    and_then (vfs_free_nodes new s) (\<lambda>s. Inr (- 1, s))))
               else and_then (upd_inode (tinode ot) (\<lambda>x. x\<lparr>refcount := refcount x + 1\<rparr>) s) (\<lambda>s.
                    and_then (upd_inode (tinode nt) (\<lambda>x. x\<lparr>refcount := 0\<rparr>) s) (\<lambda>s.
                    and_then (fs_of oi) (\<lambda>f.
                    and_then (fs_setlink f new (tinode ot) s) (\<lambda>(_, s).
                    and_then (upd_tnode new (\<lambda>t. t\<lparr>tinode := tinode ot\<rparr>) s) (\<lambda>s.
                      Inr (0, free_inode (the (tinode nt)) s)))))))))))))"

definition vfs_unlink :: "u8 list \<Rightarrow> vfs \<Rightarrow> (int \<times> vfs) result" where
  "vfs_unlink path s =
     and_then (path_to_node path NO_CREATE VFS_NODE_FILE s) (\<lambda>(node, s).
       case node of None \<Rightarrow> Inr (- 1, s) | Some node \<Rightarrow>
         and_then (get_tnode node s) (\<lambda>t.
         and_then (get_inode (tinode t) s) (\<lambda>i.
           if child i \<noteq> [] then Inr (- 1, s)
           else and_then (upd_inode (tinode t) (\<lambda>x. x\<lparr>refcount := refcount x - 1\<rparr>) s) (\<lambda>s.
                and_then (fs_of i) (\<lambda>f.
                and_then (fs_setlink f node None s) (\<lambda>(st, s).
                and_then (upd_inode (tparent t) (\<lambda>p. p\<lparr>child := remove1 node (child p)\<rparr>) s) (\<lambda>s.
                and_then (vfs_free_nodes node s) (\<lambda>s. Inr (st, s)))))))))"

section \<open>Directory entries\<close>

record dirent =
  dtype :: node_type
  dname :: "u8 list"

definition vfs_getdent :: "nat \<Rightarrow> int \<Rightarrow> vfs \<Rightarrow> (int \<times> dirent option \<times> vfs) result" where
  "vfs_getdent cur h s =
     (case handle_to_fd cur h s of
        None \<Rightarrow> Inr (- 1, None, s)
      | Some fd \<Rightarrow>
          and_then (get_desc fd s) (\<lambda>d.
          and_then (get_inode (Some (nd_inode d)) s) (\<lambda>i.
            if \<not> is_traversable i then Inr (- 1, None, s)
            else if unat (seek_pos d) \<ge> length (child i) then Inr (0, None, s)
            else and_then (get_tnode (child i ! unat (seek_pos d)) s) (\<lambda>e.
                 and_then (get_inode (tinode e) s) (\<lambda>ei.
                 and_then (upd_desc fd (\<lambda>d. d\<lparr>seek_pos := seek_pos d + 1\<rparr>) s) (\<lambda>s.
                   Inr (1, Some \<lparr>dtype = itype ei, dname = tname e\<rparr>, s)))))))"

end
