(* ===== verification/VfsInv.thy ===== *)
theory VfsInv
  imports Vfs
begin

text \<open>
  The invariant of the virtual file system and path resolution under it. \<open>vfs_ok\<close> says that the
  tree of tnodes is well linked, that no pointer that is followed dangles, that every reference
  count is the number of names plus the number of open descriptors, and that every inode has the
  driver data its file system expects. Paths are related to the list of their components.
\<close>

section \<open>Counting in a store\<close>

definition count_if :: "('k \<Rightarrow> 'v option) \<Rightarrow> ('v \<Rightarrow> bool) \<Rightarrow> nat" where
  "count_if f P = card {k. \<exists>x. f k = Some x \<and> P x}"

definition hits :: "'v option \<Rightarrow> ('v \<Rightarrow> bool) \<Rightarrow> nat" where
  "hits v P = (case v of Some x \<Rightarrow> of_bool (P x) | None \<Rightarrow> 0)"

lemma hits_simps [simp]: "hits None P = 0" "hits (Some x) P = of_bool (P x)"
  by (simp_all add: hits_def)

lemma count_if_upd:
  assumes "finite (dom f)"
  shows "count_if (f(k := v)) P + hits (f k) P = count_if f P + hits v P"
proof -
  let ?A = "{j. \<exists>x. f j = Some x \<and> P x}"
  let ?B = "{j. j \<noteq> k \<and> (\<exists>x. f j = Some x \<and> P x)}"
  have finA: "finite ?A" by (rule finite_subset [OF _ assms]) auto
  have finB: "finite ?B" by (rule finite_subset [OF _ finA]) auto
  have "card ?A = card ?B + hits (f k) P"
  proof (cases "k \<in> ?A")
    case True
    then have "?A = insert k ?B" and "hits (f k) P = 1" by auto
    then show ?thesis using finB by simp
  next
    case False
    then have "?A = ?B" by auto
    moreover have "hits (f k) P = 0" using False by (cases "f k") simp_all
    ultimately show ?thesis by simp
  qed
  moreover have "card {j. \<exists>x. (f(k := v)) j = Some x \<and> P x} = card ?B + hits v P"
  proof (cases "\<exists>x. v = Some x \<and> P x")
    case True
    then have "{j. \<exists>x. (f(k := v)) j = Some x \<and> P x} = insert k ?B" and "hits v P = 1" by auto
    then show ?thesis using finB by simp
  next
    case False
    then have "{j. \<exists>x. (f(k := v)) j = Some x \<and> P x} = ?B" by auto
    moreover have "hits v P = 0" using False by (cases v) simp_all
    ultimately show ?thesis by simp
  qed
  ultimately show ?thesis by (simp add: count_if_def)
qed

lemma count_if_0: "finite (dom f) \<Longrightarrow> count_if f P = 0 \<longleftrightarrow> (\<forall>k x. f k = Some x \<longrightarrow> \<not> P x)"
proof -
  assume "finite (dom f)"
  then have "finite {k. \<exists>x. f k = Some x \<and> P x}" by (rule finite_subset [rotated]) auto
  then show ?thesis by (auto simp: count_if_def)
qed

section \<open>The invariant\<close>

text \<open>References are handed out in order, so a reference not yet given is used nowhere.\<close>

definition refs_ok :: "vfs \<Rightarrow> bool" where
  "refs_ok s \<longleftrightarrow>
     (\<forall>k\<ge>next_ref s. inodes s k = None \<and> tnodes s k = None \<and> descs s k = None \<and> idents s k = None)
     \<and> (\<forall>i y m. inodes s i = Some y \<longrightarrow> mountpoint y = Some m \<longrightarrow> m < next_ref s)"

text \<open>Names, and the tree: each tnode has an inode and is listed in the one directory it points to.\<close>

definition field_name :: "vfs \<Rightarrow> tnode_ref \<Rightarrow> u8 list" where
  "field_name s t = (case tnodes s t of None \<Rightarrow> [] | Some x \<Rightarrow> take VFS_MAX_NAME_LEN (tname x))"

definition tree_ok :: "vfs \<Rightarrow> bool" where
  "tree_ok s \<longleftrightarrow>
     (\<forall>t x. tnodes s t = Some x \<longrightarrow> (\<exists>i y. tinode x = Some i \<and> inodes s i = Some y))
     \<and> (\<forall>i y. inodes s i = Some y \<longrightarrow>
          distinct (map (field_name s) (child y))
          \<and> (\<forall>c\<in>set (child y). \<exists>x. tnodes s c = Some x \<and> tparent x = Some i))
     \<and> (\<exists>x. tnodes s (vfs_root s) = Some x \<and> tparent x = None)
     \<and> (\<forall>t x. tnodes s t = Some x \<longrightarrow> t \<noteq> vfs_root s \<longrightarrow>
          (\<exists>p y. tparent x = Some p \<and> inodes s p = Some y \<and> t \<in> set (child y)))"

definition links :: "vfs \<Rightarrow> inode_ref \<Rightarrow> nat" where
  "links s i = count_if (tnodes s) (\<lambda>x. tinode x = Some i)"

definition opens :: "vfs \<Rightarrow> inode_ref \<Rightarrow> nat" where
  "opens s i = count_if (descs s) (\<lambda>d. nd_inode d = i)"

definition count_ok :: "vfs \<Rightarrow> bool" where
  "count_ok s \<longleftrightarrow> (\<forall>i y. inodes s i = Some y \<longrightarrow> unat (refcount y) = links s i + opens s i)"

text \<open>Open descriptors: the inode is alive, and each live slot of a table owns its descriptor.\<close>

definition slot_of :: "vfs \<Rightarrow> nat \<Rightarrow> nat \<Rightarrow> desc_ref option" where
  "slot_of s cur h = (if h < length (files s cur) then files s cur ! h else None)"

definition desc_ok :: "vfs \<Rightarrow> bool" where
  "desc_ok s \<longleftrightarrow>
     (\<forall>d x. descs s d = Some x \<longrightarrow> (\<exists>y. inodes s (nd_inode x) = Some y))
     \<and> (\<forall>c h d. slot_of s c h = Some d \<longrightarrow> (\<exists>x. descs s d = Some x))
     \<and> (\<forall>c h c' h' d. slot_of s c h = Some d \<longrightarrow> slot_of s c' h' = Some d \<longrightarrow> c = c' \<and> h = h')"

text \<open>Driver data: a ramfs inode has a block at least as long as the file, and no two share one.\<close>

definition block_ok :: "inode \<Rightarrow> ramfs_ident \<Rightarrow> bool" where
  "block_ok y x \<longleftrightarrow>
     (case ram_data x of None \<Rightarrow> ram_alloc x = 0 | Some bs \<Rightarrow> length bs = unat (ram_alloc x))
     \<and> isize y \<le> ram_alloc x"

definition tty_ok :: "ttyfs_ident \<Rightarrow> bool" where
  "tty_ok x \<longleftrightarrow> length (buff_in x) = 16 \<and> length (buff_out x) = 16
     \<and> in_start x < 16 \<and> in_size x \<le> 16 \<and> out_start x < 16 \<and> out_size x \<le> 16"

definition data_for :: "vfs \<Rightarrow> inode \<Rightarrow> bool" where
  "data_for s y \<longleftrightarrow>
     (case ifs y of
        None \<Rightarrow> False
      | Some RAMFS \<Rightarrow> (\<exists>r x. ident y = Some r \<and> idents s r = Some (Ram_Ident x) \<and> block_ok y x)
      | Some TTYFS \<Rightarrow>
          ident y = None \<and> itype y = VFS_NODE_MOUNTPOINT
          \<or> (\<exists>r x. ident y = Some r \<and> idents s r = Some (Tty_Ident x) \<and> tty_ok x))"

definition data_ok :: "vfs \<Rightarrow> bool" where
  "data_ok s \<longleftrightarrow>
     (\<forall>i y. inodes s i = Some y \<longrightarrow> data_for s y)
     \<and> (\<forall>i y j z r. inodes s i = Some y \<longrightarrow> inodes s j = Some z \<longrightarrow>
          ident y = Some r \<longrightarrow> ident z = Some r \<longrightarrow> i = j)"

text \<open>Mounts: what is mounted at a tnode is one file system, under an inode of the type mountpoint.\<close>

definition mount_ok :: "vfs \<Rightarrow> bool" where
  "mount_ok s \<longleftrightarrow>
     (\<forall>i y j z. inodes s i = Some y \<longrightarrow> inodes s j = Some z \<longrightarrow>
        mountpoint y = mountpoint z \<longrightarrow> ifs y = ifs z)
     \<and> (\<forall>i y m x k z. inodes s i = Some y \<longrightarrow> mountpoint y = Some m \<longrightarrow> tnodes s m = Some x \<longrightarrow>
          tinode x = Some k \<longrightarrow> inodes s k = Some z \<longrightarrow> itype z = VFS_NODE_MOUNTPOINT)"

definition vfs_ok :: "vfs \<Rightarrow> bool" where
  "vfs_ok s \<longleftrightarrow> refs_ok s \<and> tree_ok s \<and> count_ok s \<and> desc_ok s \<and> data_ok s \<and> mount_ok s"

lemma vfs_okD:
  assumes "vfs_ok s"
  shows "refs_ok s" and "tree_ok s" and "count_ok s" and "desc_ok s" and "data_ok s" and "mount_ok s"
  using assms by (simp_all add: vfs_ok_def)

section \<open>Consequences\<close>

lemma finite_refs:
  assumes "refs_ok s"
  shows "finite (dom (inodes s))" and "finite (dom (tnodes s))" and "finite (dom (descs s))"
proof -
  have "dom (inodes s) \<subseteq> {..<next_ref s}" "dom (tnodes s) \<subseteq> {..<next_ref s}"
    "dom (descs s) \<subseteq> {..<next_ref s}"
    using assms unfolding refs_ok_def by (metis domIff lessThan_iff linorder_not_less subsetI)+
  then show "finite (dom (inodes s))" "finite (dom (tnodes s))" "finite (dom (descs s))"
    by (simp_all add: finite_subset [OF _ finite_lessThan])
qed

lemma refs_less:
  assumes "refs_ok s"
  shows "inodes s k = Some y \<Longrightarrow> k < next_ref s" and "tnodes s k = Some x \<Longrightarrow> k < next_ref s"
    and "descs s k = Some d \<Longrightarrow> k < next_ref s" and "idents s k = Some e \<Longrightarrow> k < next_ref s"
    and "inodes s i = Some y \<Longrightarrow> mountpoint y = Some m \<Longrightarrow> m < next_ref s"
  using assms unfolding refs_ok_def by (metis linorder_not_less option.distinct(1))+

lemma refs_fresh:
  assumes "refs_ok s" and "next_ref s \<le> k"
  shows "inodes s k = None" and "tnodes s k = None" and "descs s k = None" and "idents s k = None"
  using assms by (simp_all add: refs_ok_def)

lemma tree_inode:
  assumes "tree_ok s" and "tnodes s t = Some x"
  obtains i y where "tinode x = Some i" and "inodes s i = Some y"
  using assms unfolding tree_ok_def by meson

lemma tree_child:
  assumes "tree_ok s" and "inodes s i = Some y" and "c \<in> set (child y)"
  obtains x where "tnodes s c = Some x" and "tparent x = Some i"
  using assms unfolding tree_ok_def by meson

lemma tree_names:
  "tree_ok s \<Longrightarrow> inodes s i = Some y \<Longrightarrow> distinct (map (field_name s) (child y))"
  by (simp add: tree_ok_def)

lemma tree_distinct: "tree_ok s \<Longrightarrow> inodes s i = Some y \<Longrightarrow> distinct (child y)"
  by (drule (1) tree_names) (simp add: distinct_map)

lemma tree_root:
  assumes "tree_ok s"
  obtains x where "tnodes s (vfs_root s) = Some x" and "tparent x = None"
  using assms by (auto simp: tree_ok_def)

lemma tree_parent:
  assumes "tree_ok s" and "tnodes s t = Some x" and "t \<noteq> vfs_root s"
  obtains p y where "tparent x = Some p" and "inodes s p = Some y" and "t \<in> set (child y)"
  using assms unfolding tree_ok_def by meson

lemma count_eq: "count_ok s \<Longrightarrow> inodes s i = Some y \<Longrightarrow> unat (refcount y) = links s i + opens s i"
  by (simp add: count_ok_def)

lemma linked_pos:
  assumes "refs_ok s" and "tnodes s t = Some x" and "tinode x = Some i"
  shows "0 < links s i"
  using count_if_0 [OF finite_refs(2) [OF assms(1)], of "\<lambda>x. tinode x = Some i"] assms(2,3)
  by (auto simp: links_def)

lemma opened_pos:
  assumes "refs_ok s" and "descs s d = Some x" and "nd_inode x = i"
  shows "0 < opens s i"
  using count_if_0 [OF finite_refs(3) [OF assms(1)], of "\<lambda>x. nd_inode x = i"] assms(2,3)
  by (auto simp: opens_def)

lemma slot_handle: "handle_to_fd cur h s = (if h < 0 then None else slot_of s cur (nat h))"
  by (simp add: handle_to_fd_def slot_of_def)

lemma handle_desc:
  assumes "desc_ok s" and "handle_to_fd cur h s = Some d"
  obtains x y where "descs s d = Some x" and "inodes s (nd_inode x) = Some y"
proof -
  have "slot_of s cur (nat h) = Some d" using assms(2) by (simp add: slot_handle split: if_splits)
  then obtain x where "descs s d = Some x" using assms(1) unfolding desc_ok_def by blast
  then show thesis using assms(1) that unfolding desc_ok_def by blast
qed

lemma data_for_inode: "data_ok s \<Longrightarrow> inodes s i = Some y \<Longrightarrow> data_for s y"
  by (simp add: data_ok_def)

lemma data_fs: "data_ok s \<Longrightarrow> inodes s i = Some y \<Longrightarrow> \<exists>f. ifs y = Some f"
  by (drule (1) data_for_inode) (auto simp: data_for_def split: option.splits)

section \<open>Paths as lists of components\<close>

function components :: "u8 list \<Rightarrow> u8 list list" where
  "components path =
     (if path = [] then []
      else takeWhile (\<lambda>c. c \<noteq> SLASH) path
        # components (drop (length (takeWhile (\<lambda>c. c \<noteq> SLASH) path) + 1) path))"
  by pat_completeness auto
termination by (relation "measure length") auto

declare components.simps [simp del]

lemma components_Nil [simp]: "components [] = []"
  by (simp add: components.simps)

text \<open>The directory a tnode stands for, and its entry of a given name.\<close>

definition inode_of :: "vfs \<Rightarrow> tnode_ref \<Rightarrow> inode option" where
  "inode_of s t = Option.bind (tnodes s t) (\<lambda>x. Option.bind (tinode x) (inodes s))"

definition dir_at :: "vfs \<Rightarrow> tnode_ref \<Rightarrow> bool" where
  "dir_at s t \<longleftrightarrow> (case inode_of s t of None \<Rightarrow> False | Some y \<Rightarrow> is_traversable y)"

definition entries :: "vfs \<Rightarrow> tnode_ref \<Rightarrow> tnode_ref list" where
  "entries s t = (case inode_of s t of None \<Rightarrow> [] | Some y \<Rightarrow> child y)"

definition entry :: "vfs \<Rightarrow> u8 list \<Rightarrow> tnode_ref \<Rightarrow> tnode_ref option" where
  "entry s n t = find (\<lambda>c. field_name s c = take VFS_MAX_NAME_LEN n) (entries s t)"

text \<open>Resolution as one would specify it: every component is an entry of the one before.\<close>

fun resolve :: "vfs \<Rightarrow> u8 list list \<Rightarrow> tnode_ref \<Rightarrow> tnode_ref option" where
  "resolve s [] t = Some t"
| "resolve s (n # ns) t =
     (if dir_at s t then case entry s n t of None \<Rightarrow> None | Some c \<Rightarrow> resolve s ns c else None)"

text \<open>Resolution as the loop does it: a component that is missing is skipped.\<close>

fun walk :: "vfs \<Rightarrow> u8 list list \<Rightarrow> tnode_ref \<Rightarrow> bool \<Rightarrow> u8 list \<Rightarrow> tnode_ref \<times> bool \<times> u8 list" where
  "walk s [] t found buf = (t, found, buf)"
| "walk s (n # ns) t found buf =
     (if dir_at s t
      then case entry s n t of None \<Rightarrow> walk s ns t False n | Some c \<Rightarrow> walk s ns c True n
      else (t, False, n))"

definition short_names :: "u8 list \<Rightarrow> bool" where
  "short_names path \<longleftrightarrow> (\<forall>n\<in>set (components path). length n < VFS_MAX_PATH_LEN)"

lemma find_child_eq:
  assumes "\<forall>c\<in>set cs. tnodes s c \<noteq> None"
  shows "find_child n cs s = Inr (find (\<lambda>c. field_name s c = take VFS_MAX_NAME_LEN n) cs)"
  using assms by (induction cs) (auto simp: same_name_def field_name_def)

lemma entry_alive:
  assumes "tree_ok s" and "entry s n t = Some c"
  shows "\<exists>x. tnodes s c = Some x" and "c \<in> set (entries s t)"
proof -
  show c: "c \<in> set (entries s t)"
    using assms(2) by (auto simp: entry_def find_Some_iff)
  then obtain y where "inode_of s t = Some y" "c \<in> set (child y)"
    by (cases "inode_of s t") (auto simp: entries_def)
  then show "\<exists>x. tnodes s c = Some x"
    using assms(1) by (auto simp: inode_of_def bind_eq_Some_conv elim: tree_child)
qed

lemma inode_of_alive:
  assumes "tree_ok s" and "tnodes s t = Some x"
  obtains i y where "tinode x = Some i" and "inodes s i = Some y" and "inode_of s t = Some y"
proof -
  obtain i y where "tinode x = Some i" "inodes s i = Some y" by (rule tree_inode [OF assms])
  then show thesis using assms(2) that by (simp add: inode_of_def)
qed

lemma entry_same:
  assumes "tree_ok s" and "tnodes s t = Some x" and "tinode x = Some i" and "inodes s i = Some y"
  shows "find_child n (child y) s = Inr (entry s n t)"
proof -
  have "\<forall>c\<in>set (child y). tnodes s c \<noteq> None"
    using tree_child [OF assms(1,4)] by blast
  moreover have "entries s t = child y" using assms by (simp add: entries_def inode_of_def)
  ultimately show ?thesis by (simp add: find_child_eq entry_def)
qed

text \<open>The loop over the bytes of the path is the walk over its components.\<close>

lemma components_drop:
  assumes "i < length path"
  shows "components (drop i path) = token_at path i # components (drop (i + length (token_at path i) + 1) path)"
  using assms by (subst components.simps) (simp add: token_at_def ac_simps)

lemma traversable_dir:
  assumes "tnodes s t = Some x" and "tinode x = Some i" and "inodes s i = Some y"
  shows "is_traversable y = dir_at s t"
  using assms by (simp add: dir_at_def inode_of_def)

lemma path_walk_end: "\<not> i < length path \<Longrightarrow> path_walk path i t found buf s = Inr (i, t, found, buf)"
  by (subst path_walk.simps) simp

lemma path_walk_step:
  assumes "tree_ok s" and "tnodes s t \<noteq> None" and "i < length path"
    and "length (token_at path i) < VFS_MAX_PATH_LEN"
  shows "path_walk path i t found buf s =
    (if dir_at s t
     then case entry s (token_at path i) t of
         None \<Rightarrow> path_walk path (i + length (token_at path i) + 1) t False (token_at path i) s
       | Some c \<Rightarrow> path_walk path (i + length (token_at path i) + 1) c True (token_at path i) s
     else Inr (i + length (token_at path i) + 1, t, False, token_at path i))"
proof -
  obtain x where x: "tnodes s t = Some x" using assms(2) by auto
  obtain p y where y: "tinode x = Some p" "inodes s p = Some y" by (rule tree_inode [OF assms(1) x])
  show ?thesis
    using assms(3,4) x y traversable_dir [OF x y] entry_same [OF assms(1) x y]
    by (subst path_walk.simps) (simp add: Let_def split: option.split)
qed

lemma path_walk_walk:
  assumes "tree_ok s"
  shows "tnodes s t \<noteq> None \<Longrightarrow> \<forall>n\<in>set (components (drop i path)). length n < VFS_MAX_PATH_LEN \<Longrightarrow>
    \<exists>j. path_walk path i t found buf s = Inr (j, walk s (components (drop i path)) t found buf)"
proof (induction "length path - i" arbitrary: i t found buf rule: less_induct)
  case less
  show ?case
  proof (cases "i < length path")
    case False
    then show ?thesis by (simp add: path_walk_end)
  next
    case True
    let ?k = "i + length (token_at path i) + 1"
    note comps = components_drop [OF True]
    have short: "length (token_at path i) < VFS_MAX_PATH_LEN"
      and rest: "\<forall>n\<in>set (components (drop ?k path)). length n < VFS_MAX_PATH_LEN"
      using less.prems(2) comps by simp_all
    have IH: "\<exists>j. path_walk path ?k c f b s = Inr (j, walk s (components (drop ?k path)) c f b)"
      if "tnodes s c \<noteq> None" for c f b
      by (rule less.hyps [OF _ that rest]) (use True in simp)
    note step = path_walk_step [OF assms less.prems(1) True short]
    show ?thesis
    proof (cases "entry s (token_at path i) t")
      case None
      then show ?thesis using IH [OF less.prems(1)] by (simp add: step comps)
    next
      case (Some c)
      then have "tnodes s c \<noteq> None" using entry_alive(1) [OF assms Some] by simp
      then show ?thesis using IH Some by (simp add: step comps)
    qed
  qed
qed

text \<open>The index leaves the path exactly when the last component ends with the path.\<close>

lemma token_end:
  assumes "i < length path"
  shows "i + length (token_at path i) \<le> length path"
    and "i + length (token_at path i) = length path \<Longrightarrow> last path \<noteq> SLASH"
    and "i + length (token_at path i) < length path \<Longrightarrow> path ! (i + length (token_at path i)) = SLASH"
proof -
  have le: "length (token_at path i) \<le> length (drop i path)"
    unfolding token_at_def by (rule length_takeWhile_le)
  then show "i + length (token_at path i) \<le> length path" using assms by simp
  show "last path \<noteq> SLASH" if "i + length (token_at path i) = length path"
  proof -
    have "takeWhile (\<lambda>c. c \<noteq> SLASH) (drop i path) = drop i path"
      using that assms takeWhile_eq_take [of "\<lambda>c. c \<noteq> SLASH" "drop i path"]
      by (auto simp: token_at_def)
    then have "\<forall>c\<in>set (drop i path). c \<noteq> SLASH" by (metis set_takeWhileD)
    moreover have "last path \<in> set (drop i path)"
      using assms last_in_set [of "drop i path"] by simp
    ultimately show ?thesis by blast
  qed
  show "path ! (i + length (token_at path i)) = SLASH" if "i + length (token_at path i) < length path"
  proof -
    have "length (token_at path i) < length (drop i path)" using that by simp
    then have "drop i path ! length (token_at path i) = SLASH"
      unfolding token_at_def using nth_length_takeWhile by blast
    then show ?thesis using assms by simp
  qed
qed

lemma path_walk_index:
  assumes "tree_ok s" and "fnd \<or> dir_at s c"
  shows "path_walk path i t found buf s = Inr (j, c, fnd, b) \<Longrightarrow> tnodes s t \<noteq> None \<Longrightarrow> i \<le> length path \<Longrightarrow>
    \<forall>n\<in>set (components (drop i path)). length n < VFS_MAX_PATH_LEN \<Longrightarrow>
    length path < j \<longleftrightarrow> i < length path \<and> last path \<noteq> SLASH"
proof (induction "length path - i" arbitrary: i t found buf rule: less_induct)
  case less
  show ?case
  proof (cases "i < length path")
    case False
    then show ?thesis using less.prems by (simp add: path_walk_end)
  next
    case True
    let ?n = "length (token_at path i)"
    have short: "?n < VFS_MAX_PATH_LEN"
      and rest: "\<forall>n\<in>set (components (drop (i + ?n + 1) path)). length n < VFS_MAX_PATH_LEN"
      using less.prems(4) components_drop [OF True] by simp_all
    have step: "\<exists>t' f. tnodes s t' \<noteq> None
        \<and> path_walk path (i + ?n + 1) t' f (token_at path i) s = Inr (j, c, fnd, b)"
    proof (cases "entry s (token_at path i) t")
      case None
      then show ?thesis
        using less.prems(1,2) assms(2) path_walk_step [OF assms(1) less.prems(2) True short]
        by (auto split: if_splits)
    next
      case (Some e)
      then have "tnodes s e \<noteq> None" using entry_alive(1) [OF assms(1) Some] by simp
      then show ?thesis
        using Some less.prems(1) assms(2) path_walk_step [OF assms(1) less.prems(2) True short]
        by (auto split: if_splits)
    qed
    then obtain t' f where t': "tnodes s t' \<noteq> None"
      and rec: "path_walk path (i + ?n + 1) t' f (token_at path i) s = Inr (j, c, fnd, b)"
      by blast
    show ?thesis
    proof (cases "i + ?n = length path")
      case at_end: True
      then have "j = length path + 1" using rec by (simp add: path_walk_end)
      then show ?thesis using token_end(2) [OF True at_end] True by simp
    next
      case False
      then have less_end: "i + ?n < length path" using token_end(1) [OF True] by simp
      have iff: "length path < j \<longleftrightarrow> i + ?n + 1 < length path \<and> last path \<noteq> SLASH"
        by (rule less.hyps [OF _ rec t' _ rest]) (use True less_end in simp_all)
      have "last path = SLASH" if "\<not> i + ?n + 1 < length path"
      proof -
        have "i + ?n = length path - 1" using that less_end by simp
        then show ?thesis
          using token_end(3) [OF True less_end] True by (metis last_conv_nth list.size(3) not_less_zero)
      qed
      then show ?thesis using iff True by blast
    qed
  qed
qed

section \<open>What \<open>path_to_node\<close> returns\<close>

lemma walk_alive:
  assumes "tree_ok s"
  shows "walk s cs t f buf = (c, fnd, b) \<Longrightarrow> tnodes s t \<noteq> None \<Longrightarrow> tnodes s c \<noteq> None"
proof (induction cs arbitrary: t f buf)
  case (Cons n cs)
  then show ?case using entry_alive(1) [OF assms, of n t] by (auto split: if_splits option.splits)
qed simp

lemma walk_missing:
  "walk s cs t f buf = (c, fnd, b) \<Longrightarrow> f \<or> entry s buf t = None \<Longrightarrow> \<not> fnd \<Longrightarrow> dir_at s c \<Longrightarrow>
    entry s b c = None"
  by (induction cs arbitrary: t f buf) (auto split: if_splits option.splits)

lemma walk_resolve: "resolve s cs t = Some c \<Longrightarrow> \<exists>b. walk s cs t True buf = (c, True, b)"
  by (induction cs arbitrary: t buf) (auto split: if_splits option.splits)

lemma walk_resolve_last:
  "resolve s cs t = Some d \<Longrightarrow> dir_at s d \<Longrightarrow> entry s n d = None \<Longrightarrow>
    walk s (cs @ [n]) t f buf = (d, False, n)"
  by (induction cs arbitrary: t f buf) (auto split: if_splits option.splits)

definition fresh_data :: "fs_id \<Rightarrow> (nat \<Rightarrow> u8) \<Rightarrow> ident_data" where
  "fresh_data f jk =
     (case f of
        RAMFS \<Rightarrow> Ram_Ident \<lparr>ram_alloc = 0, ram_data = None\<rparr>
      | TTYFS \<Rightarrow> Tty_Ident \<lparr>buff_in = map jk [0..<16], buff_out = map jk [0..<16],
          in_start = 0, in_size = 0, out_start = 0, out_size = 0\<rparr>)"

definition add_node :: "inode_ref \<Rightarrow> inode \<Rightarrow> u8 list \<Rightarrow> node_type \<Rightarrow> vfs \<Rightarrow> vfs" where
  "add_node i y n ty s =
     s\<lparr>inodes := (inodes s)(i \<mapsto> y\<lparr>child := child y @ [next_ref s + 1]\<rparr>,
         next_ref s \<mapsto> \<lparr>itype = ty, isize = 0, perms = 511, uid = 0, refcount = 1, ifs = ifs y,
           ident = Some (next_ref s + 2), mountpoint = mountpoint y, child = []\<rparr>),
       tnodes := (tnodes s)(next_ref s + 1 \<mapsto>
         \<lparr>tname = take VFS_MAX_NAME_LEN n, tinode = Some (next_ref s), tparent = Some i\<rparr>),
       idents := (idents s)(next_ref s + 2 \<mapsto> fresh_data (the (ifs y)) (junk s)),
       next_ref := next_ref s + 3\<rparr>"

definition can_end :: "u8 list \<Rightarrow> bool" where
  "can_end path \<longleftrightarrow> path \<noteq> [] \<and> last path \<noteq> SLASH"

lemma fs_mknode_eq:
  assumes "tnodes s t = Some x" and "tinode x = Some i" and "inodes s i = Some y"
  shows "fs_mknode f t s = Inr (0, s\<lparr>inodes := (inodes s)(i \<mapsto> y\<lparr>ident := Some (next_ref s)\<rparr>),
    idents := (idents s)(next_ref s \<mapsto> fresh_data f (junk s)), next_ref := next_ref s + 1\<rparr>)"
  using assms
  by (cases f) (simp_all add: fs_mknode_def ramfs_mknode_def ttyfs_mknode_def create_ident_def
      tty_create_ident_def alloc_ident_def fresh_data_def)

lemma path_to_node_relative: "c \<noteq> SLASH \<Longrightarrow> path_to_node (c # p) md ty s = Inr (None, s)"
  "path_to_node [] md ty s = Inr (None, s)"
  by (simp_all add: path_to_node_def)

lemma path_to_node_found:
  assumes "tree_ok s" and "short_names p" and "walk s (components p) (vfs_root s) True [] = (c, True, n)"
  shows "path_to_node (SLASH # p) md ty s = Inr (if md AND ERR_ON_EXIST \<noteq> 0 then None else Some c, s)"
proof -
  have root: "tnodes s (vfs_root s) \<noteq> None" using tree_root [OF assms(1)] by auto
  obtain j where "path_walk p 0 (vfs_root s) True [] s = Inr (j, c, True, n)"
    using path_walk_walk [OF assms(1) root, of 0 p True "[]"] assms(2,3) by (auto simp: short_names_def)
  then show ?thesis by (simp add: path_to_node_def)
qed

lemma path_to_node_missing:
  assumes "tree_ok s" and "refs_ok s" and "data_ok s" and "short_names p"
    and "walk s (components p) (vfs_root s) True [] = (c, False, n)"
    and "tnodes s c = Some x" and "tinode x = Some i" and "inodes s i = Some y"
  shows "path_to_node (SLASH # p) md ty s =
    (if dir_at s c \<and> md AND CREATE \<noteq> 0 \<and> can_end p
     then Inr (Some (next_ref s + 1), add_node i y n ty s) else Inr (None, s))"
proof -
  have root: "tnodes s (vfs_root s) \<noteq> None" using tree_root [OF assms(1)] by auto
  obtain j where j: "path_walk p 0 (vfs_root s) True [] s = Inr (j, c, False, n)"
    using path_walk_walk [OF assms(1) root, of 0 p True "[]"] assms(4,5) by (auto simp: short_names_def)
  have idx: "dir_at s c \<Longrightarrow> length p < j \<longleftrightarrow> can_end p"
    using path_walk_index [OF assms(1) _ j root] assms(4) by (auto simp: short_names_def can_end_def)
  have trav: "is_traversable y = dir_at s c" by (rule traversable_dir [OF assms(6-8)])
  obtain f where f: "ifs y = Some f" using data_fs [OF assms(3,8)] by blast
  have neq: "next_ref s \<noteq> i" using refs_less(1) [OF assms(2,8)] by simp
  show ?thesis
    using j idx trav f neq assms(6-8)
    by (simp add: path_to_node_def vfs_alloc_inode_def vfs_alloc_tnode_def fs_of_def fs_mknode_eq
        add_node_def fun_upd_twist [of "next_ref s" i] numeral_3_eq_3)
qed

end
