(* ===== verification/VfsSafe.thy ===== *)
theory VfsSafe
  imports VfsInv
begin

text \<open>
  Every operation of the virtual file system in a state that satisfies \<open>vfs_ok\<close>: what it returns,
  and that it keeps the invariant.
\<close>

section \<open>Steps that leave the tree alone\<close>

definition same_links :: "vfs \<Rightarrow> vfs \<Rightarrow> bool" where
  "same_links s s' \<longleftrightarrow>
     tnodes s' = tnodes s \<and> files s' = files s \<and> vfs_root s' = vfs_root s \<and> next_ref s' = next_ref s
     \<and> (\<forall>d. map_option nd_inode (descs s' d) = map_option nd_inode (descs s d))"

definition same_node :: "inode \<Rightarrow> inode \<Rightarrow> bool" where
  "same_node y y' \<longleftrightarrow>
     itype y' = itype y \<and> refcount y' = refcount y \<and> ifs y' = ifs y \<and> ident y' = ident y
     \<and> mountpoint y' = mountpoint y \<and> child y' = child y"

lemma same_node_refl [simp]: "same_node y y"
  by (simp add: same_node_def)

lemma same_linksD:
  assumes "same_links s s'"
  shows "tnodes s' = tnodes s" and "files s' = files s" and "vfs_root s' = vfs_root s"
    and "next_ref s' = next_ref s" and "opens s' = opens s" and "links s' = links s"
    and "field_name s' = field_name s" and "slot_of s' = slot_of s"
proof -
  have *: "(\<exists>x. descs s' d = Some x \<and> nd_inode x = i) \<longleftrightarrow> (\<exists>x. descs s d = Some x \<and> nd_inode x = i)" for d i
  proof -
    have "map_option nd_inode (descs s' d) = map_option nd_inode (descs s d)"
      using assms by (simp add: same_links_def)
    then show ?thesis by (cases "descs s' d"; cases "descs s d") simp_all
  qed
  show "opens s' = opens s" by (rule ext) (simp add: opens_def count_if_def *)
  show "links s' = links s" "field_name s' = field_name s" "slot_of s' = slot_of s"
    using assms by (intro ext; simp add: same_links_def links_def field_name_def slot_of_def)+
qed (use assms in \<open>simp_all add: same_links_def\<close>)

lemma desc_same:
  assumes "same_links s s'" and "descs s' d = Some x'"
  obtains x where "descs s d = Some x" and "nd_inode x = nd_inode x'"
proof -
  have "map_option nd_inode (descs s' d) = map_option nd_inode (descs s d)"
    using assms(1) by (simp add: same_links_def)
  then show thesis using assms(2) that by (cases "descs s d") auto
qed

text \<open>
  One inode \<open>i\<close> changes in its size, owner or permissions, and its driver data change; no other
  inode sees any of it.
\<close>

lemma vfs_ok_touch:
  assumes ok: "vfs_ok s" and y: "inodes s i = Some y" and links: "same_links s s'"
    and ino: "inodes s' = (inodes s)(i \<mapsto> y')" and node: "same_node y y'"
    and ids: "\<And>r. ident y \<noteq> Some r \<Longrightarrow> idents s' r = idents s r"
    and data: "data_for s' y'"
  shows "vfs_ok s'"
proof -
  note ok' = vfs_okD [OF ok] and same = same_linksD [OF links]
  have keep: "\<exists>z. inodes s j = Some z \<and> same_node z z'" if "inodes s' j = Some z'" for j z'
    using that ino y node by (cases "j = i") auto
  have keep': "\<exists>z'. inodes s' j = Some z' \<and> same_node z z'" if "inodes s j = Some z" for j z
    using that ino y node by (cases "j = i") auto
  have "refs_ok s'"
    unfolding refs_ok_def
  proof (intro conjI allI impI)
    fix k assume k: "next_ref s' \<le> k"
    note fresh = refs_fresh [OF ok'(1), of k]
    show "inodes s' k = None" using ino fresh k same(4) y by (cases "k = i") auto
    show "tnodes s' k = None" using fresh k same by simp
    show "descs s' k = None" using fresh(3) k same(4) by (cases "descs s' k") (auto elim: desc_same [OF links])
    show "idents s' k = None"
    proof (cases "ident y = Some k")
      case True
      then have "idents s k \<noteq> None"
        using data_for_inode [OF ok'(5) y] by (auto simp: data_for_def split: option.splits fs_id.splits)
      then show ?thesis using fresh k same(4) by simp
    qed (use ids fresh k same(4) in simp)
  next
    fix j z' m assume "inodes s' j = Some z'" "mountpoint z' = Some m"
    then obtain z where "inodes s j = Some z" "mountpoint z = Some m"
      using keep unfolding same_node_def by metis
    then show "m < next_ref s'" using refs_less(5) [OF ok'(1)] same(4) by auto
  qed
  moreover have "tree_ok s'"
    unfolding tree_ok_def same
  proof (intro conjI allI impI)
    fix t x assume "tnodes s t = Some x"
    then show "\<exists>i y. tinode x = Some i \<and> inodes s' i = Some y"
      using tree_inode [OF ok'(2)] keep' by metis
  next
    fix j z' assume "inodes s' j = Some z'"
    then obtain z where z: "inodes s j = Some z" "child z' = child z"
      using keep by (auto simp: same_node_def)
    then show "distinct (map (field_name s) (child z'))" using tree_names [OF ok'(2)] by simp
    show "\<forall>c\<in>set (child z'). \<exists>x. tnodes s c = Some x \<and> tparent x = Some j"
      using tree_child [OF ok'(2) z(1)] z(2) by auto
  next
    show "\<exists>x. tnodes s (vfs_root s) = Some x \<and> tparent x = None"
      using tree_root [OF ok'(2)] by auto
  next
    fix t x assume "tnodes s t = Some x" "t \<noteq> vfs_root s"
    then obtain p z where "tparent x = Some p" "inodes s p = Some z" "t \<in> set (child z)"
      by (rule tree_parent [OF ok'(2)])
    then show "\<exists>p y. tparent x = Some p \<and> inodes s' p = Some y \<and> t \<in> set (child y)"
      using keep' unfolding same_node_def by metis
  qed
  moreover have "count_ok s'"
    using count_eq [OF ok'(3)] keep unfolding count_ok_def same same_node_def by metis
  moreover have "desc_ok s'"
    unfolding desc_ok_def same
  proof (intro conjI allI impI)
    fix d x' assume "descs s' d = Some x'"
    then obtain x where "descs s d = Some x" "nd_inode x = nd_inode x'" by (rule desc_same [OF links])
    then show "\<exists>y. inodes s' (nd_inode x') = Some y"
      using ok'(4) keep' unfolding desc_ok_def by metis
  next
    fix c h d assume "slot_of s c h = Some d"
    then obtain x where "descs s d = Some x" using ok'(4) unfolding desc_ok_def by metis
    then show "\<exists>x. descs s' d = Some x"
      using links by (auto simp: same_links_def dest!: spec [where x = d] split: option.splits)
  next
    fix c h c' h' d assume "slot_of s c h = Some d" "slot_of s c' h' = Some d"
    then show "c = c'" "h = h'" using ok'(4) unfolding desc_ok_def by metis+
  qed
  moreover have "data_ok s'"
    unfolding data_ok_def
  proof (intro conjI allI impI)
    fix j z' assume z': "inodes s' j = Some z'"
    show "data_for s' z'"
    proof (cases "j = i")
      case True
      then show ?thesis using data ino z' by simp
    next
      case False
      then have z: "inodes s j = Some z'" using ino z' by simp
      have "ident y \<noteq> Some r" if "ident z' = Some r" for r
        using ok'(5) y z False that unfolding data_ok_def by metis
      then show ?thesis
        using data_for_inode [OF ok'(5) z] ids
        by (auto simp: data_for_def split: option.splits fs_id.splits)
    qed
  next
    fix j z k w r assume "inodes s' j = Some z" "inodes s' k = Some w" "ident z = Some r" "ident w = Some r"
    then show "j = k" using ok'(5) keep unfolding data_ok_def same_node_def by metis
  qed
  moreover have "mount_ok s'"
    unfolding mount_ok_def same
  proof (intro conjI allI impI)
    fix j z k w assume "inodes s' j = Some z" "inodes s' k = Some w" "mountpoint z = mountpoint w"
    then show "ifs z = ifs w" using ok'(6) keep unfolding mount_ok_def same_node_def by metis
  next
    fix j z m x k w
    assume "inodes s' j = Some z" "mountpoint z = Some m" "tnodes s m = Some x" "tinode x = Some k"
      "inodes s' k = Some w"
    then show "itype w = VFS_NODE_MOUNTPOINT"
      using ok'(6) keep unfolding mount_ok_def same_node_def by metis
  qed
  ultimately show ?thesis by (simp add: vfs_ok_def)
qed

lemma data_for_cong: "idents s' = idents s \<Longrightarrow> data_for s' y = data_for s y"
  by (simp add: data_for_def split: option.split fs_id.split)

lemma data_for_frame [simp]:
  "data_for (s\<lparr>descs := ds\<rparr>) y = data_for s y" "data_for (s\<lparr>inodes := is\<rparr>) y = data_for s y"
  "data_for (s\<lparr>tnodes := ts\<rparr>) y = data_for s y" "data_for (s\<lparr>files := fs\<rparr>) y = data_for s y"
  "data_for (s\<lparr>next_ref := k\<rparr>) y = data_for s y"
  by (rule data_for_cong, simp)+

lemma vfs_ok_desc:
  assumes ok: "vfs_ok s" and d: "descs s d = Some x" and node: "nd_inode x' = nd_inode x"
  shows "vfs_ok (s\<lparr>descs := (descs s)(d \<mapsto> x')\<rparr>)"
proof -
  obtain y where y: "inodes s (nd_inode x) = Some y"
    using vfs_okD(4) [OF ok] d unfolding desc_ok_def by metis
  have "data_for s y" by (rule data_for_inode [OF vfs_okD(5) [OF ok] y])
  then show ?thesis
    using d node y
    by (intro vfs_ok_touch [OF ok y, where y' = y]) (auto simp: same_links_def)
qed

section \<open>The drivers keep the invariant\<close>

text \<open>What a driver may change: the data of one inode.\<close>

definition driver_step :: "inode_ref \<Rightarrow> inode \<Rightarrow> vfs \<Rightarrow> vfs \<Rightarrow> bool" where
  "driver_step i y s s' \<longleftrightarrow>
     vfs_ok s' \<and> inodes s' = (inodes s)(i \<mapsto> y) \<and> same_links s s' \<and> descs s' = descs s"

lemma ram_ident:
  assumes "data_for s y" and "ifs y = Some RAMFS"
  obtains r x where "ident y = Some r" and "idents s r = Some (Ram_Ident x)" and "block_ok y x"
    and "get_ram y s = Inr (r, x)"
proof -
  obtain r x where "ident y = Some r" "idents s r = Some (Ram_Ident x)" "block_ok y x"
    using assms by (auto simp: data_for_def)
  then show thesis using that by (simp add: get_ram_def)
qed

lemma get_tty_InrD:
  "get_tty y s = Inr (r, x) \<Longrightarrow> ident y = Some r \<and> idents s r = Some (Tty_Ident x)"
  by (cases "ident y"; cases "idents s (the (ident y))"; cases "the (idents s (the (ident y)))")
    (simp_all add: get_tty_def)

lemma set_ram_step:
  assumes ok: "vfs_ok s" and y: "inodes s i = Some y" and f: "ifs y = Some RAMFS"
    and r: "ident y = Some r" and node: "same_node y y'" and x: "block_ok y' x"
  shows "driver_step i y' s ((set_ram r x s)\<lparr>inodes := (inodes s)(i \<mapsto> y')\<rparr>)"
proof -
  have "vfs_ok ((set_ram r x s)\<lparr>inodes := (inodes s)(i \<mapsto> y')\<rparr>)"
    by (rule vfs_ok_touch [OF ok y _ _ node])
      (use f r node x in \<open>auto simp: same_links_def set_ram_def data_for_def same_node_def\<close>)
  then show ?thesis by (simp add: driver_step_def same_links_def set_ram_def)
qed

lemma set_tty_step:
  assumes ok: "vfs_ok s" and y: "inodes s i = Some y" and f: "ifs y = Some TTYFS"
    and r: "ident y = Some r" and x: "tty_ok x"
  shows "driver_step i y s (set_tty r x s)"
proof -
  have "vfs_ok (set_tty r x s)"
    by (rule vfs_ok_touch [OF ok y, where y' = y])
      (use f r x y in \<open>auto simp: same_links_def set_tty_def data_for_def\<close>)
  then show ?thesis using y by (auto simp: driver_step_def same_links_def set_tty_def)
qed

lemma no_step: "vfs_ok s \<Longrightarrow> inodes s i = Some y \<Longrightarrow> driver_step i y s s"
  by (auto simp: driver_step_def same_links_def)

lemma data_for_tty:
  assumes "data_for s y" and "ifs y = Some TTYFS" and "get_tty y s = Inr (r, x)"
  shows "tty_ok x" and "ident y = Some r"
  using assms get_tty_InrD [OF assms(3)] by (auto simp: data_for_def)

lemma length_ring_write [simp]: "length (ring_write b k cs) = length b"
  by (induction cs arbitrary: b k) simp_all

lemma mod16_less: "(k :: u64) mod 16 < 16"
  by (simp add: word_mod_less_divisor)

lemma tty_ok_put:
  assumes "tty_ok x"
  shows "tty_ok (tty_put new x)"
  using assms by (simp add: tty_ok_def tty_put_def Let_def mod16_less)

lemma fs_read_step:
  assumes ok: "vfs_ok s" and y: "inodes s i = Some y" and f: "ifs y = Some f"
    and rd: "fs_read f i off n s = Inr (k, bs, s')"
  shows "driver_step i y s s'"
proof (cases f)
  case RAMFS
  then show ?thesis
    using rd y no_step [OF ok y]
    by (auto simp: fs_read_def ramfs_read_def and_then_eq_Inr)
next
  case TTYFS
  then obtain r x where x: "get_tty y s = Inr (r, x)"
    and s': "s' = set_tty r (x\<lparr>in_start := (in_start x + min n (in_size x)) mod 16,
      in_size := in_size x - min n (in_size x)\<rparr>) s"
    using rd y by (auto simp: fs_read_def ttyfs_read_def and_then_eq_Inr Let_def)
  have d: "data_for s y" by (rule data_for_inode [OF vfs_okD(5) [OF ok] y])
  note xok = data_for_tty [OF d _ x]
  have "in_size x - min n (in_size x) \<le> 16"
    if "in_size x \<le> 16"
  proof -
    have "in_size x - min n (in_size x) \<le> in_size x" by (rule word_sub_le) simp
    then show ?thesis using that by (rule order_trans)
  qed
  then have "tty_ok (x\<lparr>in_start := (in_start x + min n (in_size x)) mod 16,
      in_size := in_size x - min n (in_size x)\<rparr>)"
    using xok(1) f TTYFS by (simp add: tty_ok_def mod16_less)
  then show ?thesis unfolding s' using f TTYFS xok(2) by (intro set_tty_step [OF ok y]) simp_all
qed

lemma length_overwrite: "k + length new \<le> length bs \<Longrightarrow> length (overwrite bs k new) = length bs"
  by (simp add: overwrite_def)

lemma block_range_InrD:
  assumes "block_range d off n = Inr bs"
  shows "n \<noteq> 0 \<Longrightarrow> d = Some bs \<and> unat off + unat n \<le> length bs"
  using assms by (auto simp: block_range_def split: if_splits option.splits)

lemma fs_write_step:
  assumes ok: "vfs_ok s" and y: "inodes s i = Some y" and f: "ifs y = Some f"
    and wr: "fs_write f i off new s = Inr (k, s')"
    and len: "length new < 2 ^ 64"
  shows "driver_step i y s s'" and "k = of_nat (length new)"
proof -
  have d: "data_for s y" by (rule data_for_inode [OF vfs_okD(5) [OF ok] y])
  have "driver_step i y s s' \<and> k = of_nat (length new)"
  proof (cases f)
    case RAMFS
    with f obtain r x where x: "ident y = Some r" "idents s r = Some (Ram_Ident x)" "block_ok y x"
      "get_ram y s = Inr (r, x)" using ram_ident [OF d] by blast
    then obtain bs where bs: "block_range (ram_data x) off (of_nat (length new)) = Inr bs"
      and k: "k = of_nat (length new)"
      and s': "s' = (if new = [] then s
        else set_ram r (x\<lparr>ram_data := Some (overwrite bs (unat off) new)\<rparr>) s)"
      using wr y RAMFS by (auto simp: fs_write_def ramfs_write_def and_then_eq_Inr)
    show ?thesis
    proof (cases "new = []")
      case True
      then show ?thesis using s' k no_step [OF ok y] by simp
    next
      case False
      then have nz: "(of_nat (length new) :: u64) \<noteq> 0"
        using len by (metis length_0_conv unat_0 unat_of_nat64)
      note rng = block_range_InrD [OF bs nz]
      then have "length (overwrite bs (unat off) new) = length bs"
        using len by (intro length_overwrite) simp
      then have "block_ok y (x\<lparr>ram_data := Some (overwrite bs (unat off) new)\<rparr>)"
        using x(3) rng by (simp add: block_ok_def)
      then have "driver_step i y s ((set_ram r (x\<lparr>ram_data := Some (overwrite bs (unat off) new)\<rparr>) s)
          \<lparr>inodes := (inodes s)(i \<mapsto> y)\<rparr>)"
        using RAMFS f x by (intro set_ram_step [OF ok y]) simp_all
      then show ?thesis using s' False k y by (simp add: set_ram_def fun_upd_idem)
    qed
  next
    case TTYFS
    then obtain r x where x: "get_tty y s = Inr (r, x)" and k: "k = of_nat (length new)"
      and s': "s' = set_tty r (tty_put new x) s"
      using wr y by (auto simp: fs_write_def ttyfs_write_def and_then_eq_Inr)
    note xok = data_for_tty [OF d _ x]
    have "driver_step i y s s'"
      unfolding s' using f TTYFS xok tty_ok_put by (intro set_tty_step [OF ok y]) simp_all
    then show ?thesis using k by simp
  qed
  then show "driver_step i y s s'" "k = of_nat (length new)" by simp_all
qed

lemma length_grow: "length (case d of None \<Rightarrow> [] | Some bs \<Rightarrow> bs) \<le> unat n \<Longrightarrow> length (grow jk n d) = unat n"
  by (simp add: grow_def Let_def split: option.split)

text \<open>A change of size or permissions followed by \<open>sync\<close>.\<close>

lemma fs_sync_step:
  assumes ok: "vfs_ok s" and y: "inodes s i = Some y" and f: "ifs y = Some f"
    and node: "same_node y y'"
  shows "\<exists>s'. fs_sync f i (s\<lparr>inodes := (inodes s)(i \<mapsto> y')\<rparr>) = Inr (0, s') \<and> driver_step i y' s s'"
proof -
  have d: "data_for s y" by (rule data_for_inode [OF vfs_okD(5) [OF ok] y])
  have id: "ident y' = ident y" "ifs y' = ifs y" using node by (simp_all add: same_node_def)
  show ?thesis
  proof (cases f)
    case RAMFS
    with f obtain r x where x: "ident y = Some r" "idents s r = Some (Ram_Ident x)" "block_ok y x"
      using ram_ident [OF d] by blast
    let ?s = "s\<lparr>inodes := (inodes s)(i \<mapsto> y')\<rparr>"
    let ?x = "if isize y' > ram_alloc x
      then \<lparr>ram_alloc = isize y', ram_data = Some (grow (junk s) (isize y') (ram_data x))\<rparr> else x"
    have "get_ram y' ?s = Inr (r, x)" using x id by (simp add: get_ram_def)
    then have eq: "fs_sync f i ?s = Inr (0, (set_ram r ?x s)\<lparr>inodes := (inodes s)(i \<mapsto> y')\<rparr>)"
      using RAMFS x(2) by (auto simp: fs_sync_def ramfs_sync_def set_ram_def fun_upd_idem)
    have len: "length (case ram_data x of None \<Rightarrow> [] | Some bs \<Rightarrow> bs) = unat (ram_alloc x)"
      using x(3) by (auto simp: block_ok_def split: option.splits)
    have "block_ok y' ?x"
    proof (cases "isize y' > ram_alloc x")
      case True
      then have "length (grow (junk s) (isize y') (ram_data x)) = unat (isize y')"
        using len by (intro length_grow) (simp add: word_less_nat_alt)
      then show ?thesis using True by (simp add: block_ok_def)
    next
      case False
      have "block_ok y' x" using x(3) False by (simp add: block_ok_def not_less)
      then show ?thesis using False by (simp only: if_False)
    qed
    then have "driver_step i y' s ((set_ram r ?x s)\<lparr>inodes := (inodes s)(i \<mapsto> y')\<rparr>)"
      using RAMFS f x by (intro set_ram_step [OF ok y _ _ node]) simp_all
    then show ?thesis using eq by blast
  next
    case TTYFS
    have "data_for s y'" using d f TTYFS node by (auto simp: data_for_def same_node_def)
    then have "vfs_ok (s\<lparr>inodes := (inodes s)(i \<mapsto> y')\<rparr>)"
      by (intro vfs_ok_touch [OF ok y _ _ node]) (simp_all add: same_links_def)
    then show ?thesis
      using TTYFS by (simp add: fs_sync_def ttyfs_sync_def driver_step_def same_links_def)
  qed
qed

section \<open>Reading, writing, seeking, changing permissions\<close>

lemma handle_parts:
  assumes "vfs_ok s" and "handle_to_fd cur h s = Some d"
  obtains x y f where "descs s d = Some x" and "inodes s (nd_inode x) = Some y" and "ifs y = Some f"
proof -
  obtain x y where "descs s d = Some x" "inodes s (nd_inode x) = Some y"
    by (rule handle_desc [OF vfs_okD(4) [OF assms(1)] assms(2)])
  then show thesis using data_fs [OF vfs_okD(5) [OF assms(1)]] that by blast
qed

lemma driver_descs:
  assumes "driver_step i y s s'" and "descs s d = Some x"
  shows "vfs_ok (s'\<lparr>descs := (descs s')(d \<mapsto> x\<lparr>seek_pos := p\<rparr>)\<rparr>)"
    and "upd_desc d g s' = Inr (s'\<lparr>descs := (descs s')(d \<mapsto> g x)\<rparr>)"
proof -
  have "vfs_ok s'" "descs s' d = Some x" using assms by (simp_all add: driver_step_def)
  then show "vfs_ok (s'\<lparr>descs := (descs s')(d \<mapsto> x\<lparr>seek_pos := p\<rparr>)\<rparr>)"
    and "upd_desc d g s' = Inr (s'\<lparr>descs := (descs s')(d \<mapsto> g x)\<rparr>)"
    by (simp_all add: vfs_ok_desc)
qed

lemma vfs_seek_ok:
  assumes ok: "vfs_ok s"
  shows "\<exists>r s'. vfs_seek cur h pos s = Inr (r, s') \<and> vfs_ok s'"
proof (cases "handle_to_fd cur h s")
  case (Some d)
  obtain x y f where x: "descs s d = Some x" "inodes s (nd_inode x) = Some y" "ifs y = Some f"
    by (rule handle_parts [OF ok Some])
  then have "vfs_ok (s\<lparr>descs := (descs s)(d \<mapsto> x\<lparr>seek_pos := pos\<rparr>)\<rparr>)"
    by (intro vfs_ok_desc [OF ok]) simp_all
  then show ?thesis using x Some ok by (simp add: vfs_seek_def)
qed (simp add: vfs_seek_def ok)

lemma vfs_chmod_ok:
  assumes ok: "vfs_ok s"
  shows "\<exists>r s'. vfs_chmod cur h p s = Inr (r, s') \<and> vfs_ok s'"
proof (cases "handle_to_fd cur h s")
  case (Some d)
  obtain x y f where x: "descs s d = Some x" "inodes s (nd_inode x) = Some y" "ifs y = Some f"
    by (rule handle_parts [OF ok Some])
  have "same_node y (y\<lparr>perms := p\<rparr>)" by (simp add: same_node_def)
  from fs_sync_step [OF ok x(2,3) this] show ?thesis
    using x Some ok by (auto simp: vfs_chmod_def fs_of_def driver_step_def)
qed (simp add: vfs_chmod_def ok)

lemma vfs_read_ok:
  assumes ok: "vfs_ok s" and run: "vfs_read cur h n s = Inr (k, bs, s')"
  shows "vfs_ok s'"
proof (cases "handle_to_fd cur h s")
  case (Some d)
  obtain x y f where x: "descs s d = Some x" "inodes s (nd_inode x) = Some y" "ifs y = Some f"
    by (rule handle_parts [OF ok Some])
  let ?n = "if seek_pos x + n > isize y \<and> has_size y then isize y - seek_pos x else n"
  consider "s' = s" | got s1 where "fs_read f (nd_inode x) (seek_pos x) ?n s = Inr (got, bs, s1)"
    "upd_desc d (\<lambda>d. d\<lparr>seek_pos := seek_pos d + got\<rparr>) s1 = Inr s'"
    using run x Some by (auto simp: vfs_read_def fs_of_def and_then_eq_Inr Let_def split: if_splits)
  then show ?thesis
  proof cases
    case 2
    then have "driver_step (nd_inode x) y s s1" by (intro fs_read_step [OF ok x(2,3)])
    then show ?thesis using 2(2) driver_descs [OF _ x(1)] by fastforce
  qed (simp add: ok)
qed (use run ok in \<open>simp add: vfs_read_def\<close>)

lemma driver_step_trans:
  assumes "driver_step i y s s1" and "driver_step i z s1 s2"
  shows "driver_step i z s s2"
  using assms by (simp add: driver_step_def same_links_def)

lemma vfs_write_ok:
  assumes ok: "vfs_ok s" and run: "vfs_write cur h buff s = Inr (k, s')"
    and len: "length buff < 2 ^ 64"
  shows "vfs_ok s'"
proof (cases "handle_to_fd cur h s")
  case (Some d)
  obtain x y f where x: "descs s d = Some x" "inodes s (nd_inode x) = Some y" "ifs y = Some f"
    by (rule handle_parts [OF ok Some])
  show ?thesis
  proof (cases "nd_mode x = VFS_MODE_READ")
    case True
    then show ?thesis using run x Some ok by (simp add: vfs_write_def)
  next
    case False
    let ?n = "of_nat (length buff) :: u64"
    let ?y = "if seek_pos x + ?n > isize y \<and> has_size y then y\<lparr>isize := seek_pos x + ?n\<rparr> else y"
    have node: "same_node y ?y" by (simp add: same_node_def)
    obtain s1 put s2 where s1: "driver_step (nd_inode x) ?y s s1"
      and s2: "fs_write f (nd_inode x) (seek_pos x) buff s1 = Inr (put, s2)"
      and s': "upd_desc d (\<lambda>d. d\<lparr>seek_pos := seek_pos d + put\<rparr>) s2 = Inr s'"
      using run x Some False fs_sync_step [OF ok x(2,3) node] no_step [OF ok x(2)]
      by (auto simp: vfs_write_def fs_of_def and_then_eq_Inr Let_def split: if_splits)
    have "driver_step (nd_inode x) ?y s1 s2"
      by (rule fs_write_step(1) [OF _ _ _ s2 len]) (use s1 x in \<open>auto simp: driver_step_def\<close>)
    with s1 have "driver_step (nd_inode x) ?y s s2" by (rule driver_step_trans)
    from driver_descs [OF this x(1)] s' show ?thesis by auto
  qed
qed (use run ok in \<open>simp add: vfs_write_def\<close>)

end
