(* ===== verification/VfsTree.thy ===== *)
theory VfsTree
  imports VfsSafe
begin

text \<open>
  The operations of the virtual file system that change descriptors, reference counts and the
  tree: opening and closing, creating, linking, unlinking, mounting. Each is brought to a closed
  form and shown to keep the invariant.
\<close>

section \<open>Reference counts\<close>

definition few_objects :: "vfs \<Rightarrow> bool" where
  "few_objects s \<longleftrightarrow> next_ref s < 2 ^ 31"

lemma count_bound:
  assumes "refs_ok s"
  shows "links s i \<le> next_ref s" and "opens s i \<le> next_ref s"
proof -
  have "{k. \<exists>x. tnodes s k = Some x \<and> tinode x = Some i} \<subseteq> {..<next_ref s}"
    "{k. \<exists>x. descs s k = Some x \<and> nd_inode x = i} \<subseteq> {..<next_ref s}"
    using refs_less(2,3) [OF assms] by auto
  from this [THEN card_mono [OF finite_lessThan]]
  show "links s i \<le> next_ref s" "opens s i \<le> next_ref s"
    by (simp_all add: links_def opens_def count_if_def)
qed

lemma refcount_incr:
  assumes "vfs_ok s" and "few_objects s" and "inodes s i = Some y"
  shows "unat (refcount y + 1) = links s i + opens s i + 1"
proof -
  have "unat (refcount y) = links s i + opens s i"
    by (rule count_eq [OF vfs_okD(3) [OF assms(1)] assms(3)])
  moreover have "links s i + opens s i + 1 < 2 ^ 32"
    using count_bound [OF vfs_okD(1) [OF assms(1)], of i] assms(2) by (simp add: few_objects_def)
  ultimately show ?thesis by (subst unat_add_lt) simp_all
qed

lemma refcount_decr:
  assumes "vfs_ok s" and "inodes s i = Some y" and "0 < links s i + opens s i"
  shows "unat (refcount y - 1) = links s i + opens s i - 1"
proof -
  have "unat (refcount y) = links s i + opens s i"
    by (rule count_eq [OF vfs_okD(3) [OF assms(1)] assms(2)])
  then have "1 \<le> unat (refcount y)" using assms(3) by linarith
  then have "(1 :: u32) \<le> refcount y" by (simp add: word_le_nat_alt)
  then show ?thesis using \<open>unat (refcount y) = _\<close> by (simp add: unat_sub)
qed

lemma links_upd:
  assumes "refs_ok s" and "tnodes s' = (tnodes s)(t := v)"
  shows "links s' i + hits (tnodes s t) (\<lambda>x. tinode x = Some i)
    = links s i + hits v (\<lambda>x. tinode x = Some i)"
  using count_if_upd [OF finite_refs(2) [OF assms(1)]] assms(2) by (simp add: links_def)

lemma opens_upd:
  assumes "refs_ok s" and "descs s' = (descs s)(d := v)"
  shows "opens s' i + hits (descs s d) (\<lambda>x. nd_inode x = i) = opens s i + hits v (\<lambda>x. nd_inode x = i)"
  using count_if_upd [OF finite_refs(3) [OF assms(1)]] assms(2) by (simp add: opens_def)

lemma names_cong: "tnodes s' = tnodes s \<Longrightarrow> links s' = links s"
  by (rule ext) (simp add: links_def)

lemma opens_cong: "descs s' = descs s \<Longrightarrow> opens s' = opens s"
  by (rule ext) (simp add: opens_def)

lemma data_for_same:
  assumes "idents s' = idents s" and "ident z' = ident z" and "ifs z' = ifs z" and "itype z' = itype z"
    and "isize z' = isize z"
  shows "data_for s' z' = data_for s z"
proof -
  have "block_ok z' x = block_ok z x" for x using assms(5) by (simp add: block_ok_def)
  then show ?thesis using assms by (simp add: data_for_def split: option.split fs_id.split)
qed

text \<open>A change of reference counts leaves the tree, the data and the mounts as they are.\<close>

lemma recount:
  assumes y: "inodes s i = Some y" and ino: "inodes s' = (inodes s)(i \<mapsto> y\<lparr>refcount := c\<rparr>)"
    and same: "tnodes s' = tnodes s" "idents s' = idents s" "vfs_root s' = vfs_root s"
  shows "tree_ok s \<Longrightarrow> tree_ok s'" and "data_ok s \<Longrightarrow> data_ok s'" and "mount_ok s \<Longrightarrow> mount_ok s'"
proof -
  define sim where "sim z z' \<longleftrightarrow> child z' = child z \<and> ident z' = ident z \<and> ifs z' = ifs z
    \<and> itype z' = itype z \<and> isize z' = isize z \<and> mountpoint z' = mountpoint z" for z z' :: inode
  have keep: "\<exists>z. inodes s j = Some z \<and> sim z z'" if "inodes s' j = Some z'" for j z'
    using that ino y by (cases "j = i") (auto simp: sim_def)
  have keep': "\<exists>z'. inodes s' j = Some z' \<and> sim z z'" if "inodes s j = Some z" for j z
    using that ino y by (cases "j = i") (auto simp: sim_def)
  have names: "field_name s' = field_name s" by (rule ext) (simp add: field_name_def same)
  show "tree_ok s'" if ok: "tree_ok s"
    unfolding tree_ok_def names same
  proof (intro conjI allI impI)
    fix t x assume "tnodes s t = Some x"
    then show "\<exists>i y. tinode x = Some i \<and> inodes s' i = Some y"
      using tree_inode [OF ok] keep' by metis
  next
    fix j z' assume "inodes s' j = Some z'"
    then obtain z where z: "inodes s j = Some z" "child z' = child z"
      using keep unfolding sim_def by metis
    show "distinct (map (field_name s) (child z'))" using tree_names [OF ok z(1)] z(2) by simp
    show "\<forall>c\<in>set (child z'). \<exists>x. tnodes s c = Some x \<and> tparent x = Some j"
      using tree_child [OF ok z(1)] z(2) by metis
  next
    show "\<exists>x. tnodes s (vfs_root s) = Some x \<and> tparent x = None"
      using tree_root [OF ok] by metis
  next
    fix t x assume "tnodes s t = Some x" "t \<noteq> vfs_root s"
    then obtain p z where "tparent x = Some p" "inodes s p = Some z" "t \<in> set (child z)"
      by (rule tree_parent [OF ok])
    then show "\<exists>p y. tparent x = Some p \<and> inodes s' p = Some y \<and> t \<in> set (child y)"
      using keep' unfolding sim_def by metis
  qed
  show "data_ok s'" if ok: "data_ok s"
    unfolding data_ok_def
  proof (intro conjI allI impI)
    fix j z' assume "inodes s' j = Some z'"
    then obtain z where z: "inodes s j = Some z" "sim z z'" using keep by blast
    have "data_for s z" by (rule data_for_inode [OF ok z(1)])
    then show "data_for s' z'"
      using data_for_same [OF same(2), of z' z] z(2) by (simp add: sim_def)
  next
    fix j z k w r assume "inodes s' j = Some z" "inodes s' k = Some w" "ident z = Some r" "ident w = Some r"
    then show "j = k" using ok keep unfolding data_ok_def sim_def by metis
  qed
  show "mount_ok s'" if ok: "mount_ok s"
    unfolding mount_ok_def same
  proof (intro conjI allI impI)
    fix j z k w assume "inodes s' j = Some z" "inodes s' k = Some w" "mountpoint z = mountpoint w"
    then show "ifs z = ifs w" using ok keep unfolding mount_ok_def sim_def by metis
  next
    fix j z m x k w
    assume "inodes s' j = Some z" "mountpoint z = Some m" "tnodes s m = Some x" "tinode x = Some k"
      "inodes s' k = Some w"
    then show "itype w = VFS_NODE_MOUNTPOINT" using ok keep unfolding mount_ok_def sim_def by metis
  qed
qed

section \<open>Opening and closing\<close>

lemma desc_okD:
  assumes "desc_ok s"
  shows "descs s d = Some x \<Longrightarrow> \<exists>y. inodes s (nd_inode x) = Some y"
    and "slot_of s c h = Some d \<Longrightarrow> \<exists>x. descs s d = Some x"
    and "slot_of s c h = Some d \<Longrightarrow> slot_of s c' h' = Some d \<Longrightarrow> c = c' \<and> h = h'"
  using assms unfolding desc_ok_def by blast+

definition opened :: "nat \<Rightarrow> tnode_ref \<Rightarrow> inode_ref \<Rightarrow> inode \<Rightarrow> openmode \<Rightarrow> vfs \<Rightarrow> vfs" where
  "opened cur t i y md s =
     s\<lparr>inodes := (inodes s)(i \<mapsto> y\<lparr>refcount := refcount y + 1\<rparr>),
       descs := (descs s)(next_ref s \<mapsto>
         \<lparr>nd_tnode = t, nd_inode = i, nd_mode = md, seek_pos = 0\<rparr>),
       next_ref := next_ref s + 1,
       files := (files s)(cur := files s cur @ [Some (next_ref s)])\<rparr>"

lemma vfs_open_eq:
  assumes "path_to_node path NO_CREATE VFS_NODE_FILE s = Inr (Some t, s)"
    and "tnodes s t = Some x" and "tinode x = Some i" and "inodes s i = Some y"
  shows "vfs_open cur path md s = Inr (int (length (files s cur)), opened cur t i y md s)"
  using assms by (simp add: vfs_open_def opened_def Let_def)

lemma slot_opened:
  "slot_of (opened cur t i y md s) c h =
    (if c = cur \<and> h = length (files s cur) then Some (next_ref s) else slot_of s c h)"
  by (auto simp: slot_of_def opened_def nth_append)

lemma opened_ok:
  assumes ok: "vfs_ok s" and few: "few_objects s" and y: "inodes s i = Some y"
  shows "vfs_ok (opened cur t i y md s)"
proof -
  note ok' = vfs_okD [OF ok]
  let ?s = "opened cur t i y md s"
  have fresh: "descs s (next_ref s) = None" using refs_fresh [OF ok'(1)] by simp
  have refs: "refs_ok ?s"
    using ok'(1) y refs_less(1) [OF ok'(1) y]
    by (auto simp: refs_ok_def opened_def less_Suc_eq split: if_splits)
  have "opens ?s j = opens s j + of_bool (i = j)" for j
    using opens_upd [OF ok'(1), of ?s "next_ref s"] fresh by (simp add: opened_def)
  moreover have "links ?s = links s" by (rule names_cong) (simp add: opened_def)
  ultimately have "count_ok ?s"
    using refcount_incr [OF ok few y] count_eq [OF ok'(3)] by (auto simp: count_ok_def opened_def)
  moreover have "desc_ok ?s"
    unfolding desc_ok_def
  proof (intro conjI allI impI)
    fix d x assume "descs ?s d = Some x"
    then show "\<exists>y. inodes ?s (nd_inode x) = Some y"
      using ok'(4) unfolding desc_ok_def by (auto simp: opened_def split: if_splits)
  next
    fix c h d assume "slot_of ?s c h = Some d"
    then show "\<exists>x. descs ?s d = Some x"
      using ok'(4) unfolding slot_opened desc_ok_def by (auto simp: opened_def split: if_splits)
  next
    fix c h c' h' d assume a: "slot_of ?s c h = Some d" "slot_of ?s c' h' = Some d"
    have old: "d \<noteq> next_ref s" if "slot_of s c h = Some d" for c h
      using desc_okD(2) [OF ok'(4) that] fresh by auto
    note uniq = desc_okD(3) [OF ok'(4)]
    show "c = c'" "h = h'"
      using a old uniq unfolding slot_opened by (auto split: if_splits)
  qed
  moreover have "tree_ok ?s" "data_ok ?s" "mount_ok ?s"
    by (rule recount [OF y _ _ _ _] ok'; simp add: opened_def ok')+
  ultimately show ?thesis using refs by (simp add: vfs_ok_def)
qed

definition closed :: "nat \<Rightarrow> nat \<Rightarrow> desc_ref \<Rightarrow> inode_ref \<Rightarrow> inode \<Rightarrow> vfs \<Rightarrow> vfs" where
  "closed cur h d i y s =
     s\<lparr>inodes := (inodes s)(i \<mapsto> y\<lparr>refcount := refcount y - 1\<rparr>),
       descs := (descs s)(d := None), files := (files s)(cur := (files s cur)[h := None])\<rparr>"

lemma vfs_close_eq:
  assumes "handle_to_fd cur h s = Some d" and "descs s d = Some x" and "inodes s (nd_inode x) = Some y"
  shows "vfs_close cur h s = Inr (0, closed cur (nat h) d (nd_inode x) y s)"
  using assms by (simp add: vfs_close_def closed_def)

lemma slot_closed:
  "slot_of (closed cur k d i y s) c h = (if c = cur \<and> h = k then None else slot_of s c h)"
  by (auto simp: slot_of_def closed_def nth_list_update)

lemma closed_ok:
  assumes ok: "vfs_ok s" and h: "slot_of s cur k = Some d" and x: "descs s d = Some x"
    and y: "inodes s (nd_inode x) = Some y"
  shows "vfs_ok (closed cur k d (nd_inode x) y s)"
proof -
  note ok' = vfs_okD [OF ok]
  let ?s = "closed cur k d (nd_inode x) y s"
  have refs: "refs_ok ?s"
    using ok'(1) y refs_less(1) [OF ok'(1) y] by (auto simp: refs_ok_def closed_def split: if_splits)
  have opens: "opens ?s j + of_bool (nd_inode x = j) = opens s j" for j
    using opens_upd [OF ok'(1), of ?s d None j] x by (simp add: closed_def)
  have links: "links ?s = links s" by (rule names_cong) (simp add: closed_def)
  have pos: "0 < links s (nd_inode x) + opens s (nd_inode x)"
    using opened_pos [OF ok'(1) x] by simp
  have "count_ok ?s"
    unfolding count_ok_def links
  proof (intro allI impI)
    fix j z assume z: "inodes ?s j = Some z"
    show "unat (refcount z) = links s j + opens ?s j"
    proof (cases "j = nd_inode x")
      case True
      then have "z = y\<lparr>refcount := refcount y - 1\<rparr>" using z by (simp add: closed_def)
      then show ?thesis using True refcount_decr [OF ok y pos] opens [of j] by simp
    next
      case False
      then have "inodes s j = Some z" using z by (simp add: closed_def)
      then show ?thesis using False count_eq [OF ok'(3)] opens [of j] by simp
    qed
  qed
  moreover have "desc_ok ?s"
    unfolding desc_ok_def
  proof (intro conjI allI impI)
    fix e z assume "descs ?s e = Some z"
    then show "\<exists>y. inodes ?s (nd_inode z) = Some y"
      using ok'(4) unfolding desc_ok_def by (auto simp: closed_def split: if_splits)
  next
    fix c j e assume a: "slot_of ?s c j = Some e"
    then have "slot_of s c j = Some e" "\<not> (c = cur \<and> j = k)" by (auto simp: slot_closed split: if_splits)
    then have "e \<noteq> d" "\<exists>z. descs s e = Some z" using desc_okD(2,3) [OF ok'(4)] h by blast+
    then show "\<exists>z. descs ?s e = Some z" by (simp add: closed_def)
  next
    fix c j c' j' e assume "slot_of ?s c j = Some e" "slot_of ?s c' j' = Some e"
    then have "slot_of s c j = Some e" "slot_of s c' j' = Some e" by (auto simp: slot_closed split: if_splits)
    then show "c = c'" "j = j'" using desc_okD(3) [OF ok'(4)] by blast+
  qed
  moreover have "tree_ok ?s" "data_ok ?s" "mount_ok ?s"
    by (rule recount [OF y _ _ _ _] ok'; simp add: closed_def ok')+
  ultimately show ?thesis using refs by (simp add: vfs_ok_def)
qed

lemma vfs_close_ok:
  assumes ok: "vfs_ok s"
  shows "\<exists>r s'. vfs_close cur h s = Inr (r, s') \<and> vfs_ok s'"
proof (cases "handle_to_fd cur h s")
  case (Some d)
  obtain x y f where x: "descs s d = Some x" "inodes s (nd_inode x) = Some y" "ifs y = Some f"
    by (rule handle_parts [OF ok Some])
  have "slot_of s cur (nat h) = Some d" using Some by (simp add: slot_handle split: if_splits)
  from closed_ok [OF ok this x(1,2)] vfs_close_eq [OF Some x(1,2)] show ?thesis by blast
qed (simp add: vfs_close_def ok)

section \<open>Creating a node\<close>

lemma unused_inode:
  assumes "vfs_ok s" and "inodes s i = None"
  shows "links s i = 0" and "opens s i = 0"
proof -
  note ok = vfs_okD [OF assms(1)]
  show "links s i = 0"
    unfolding links_def count_if_0 [OF finite_refs(2) [OF ok(1)]]
    using assms(2) by (auto elim: tree_inode [OF ok(2)])
  show "opens s i = 0"
    unfolding opens_def count_if_0 [OF finite_refs(3) [OF ok(1)]]
    using assms(2) by (auto dest: desc_okD(1) [OF ok(4)])
qed

lemma tty_ok_fresh: "fresh_data TTYFS jk = Tty_Ident x \<Longrightarrow> tty_ok x"
  by (auto simp: fresh_data_def tty_ok_def)

lemma field_name_add:
  "field_name (add_node i y n ty s) t =
    (if t = next_ref s + 1 then take VFS_MAX_NAME_LEN n else field_name s t)"
  by (simp add: field_name_def add_node_def)

lemma add_node_inodes:
  "inodes (add_node i y n ty s) = (inodes s)(i \<mapsto> y\<lparr>child := child y @ [next_ref s + 1]\<rparr>,
     next_ref s \<mapsto> \<lparr>itype = ty, isize = 0, perms = 511, uid = 0, refcount = 1, ifs = ifs y,
       ident = Some (next_ref s + 2), mountpoint = mountpoint y, child = []\<rparr>)"
  "tnodes (add_node i y n ty s) = (tnodes s)(next_ref s + 1 \<mapsto>
     \<lparr>tname = take VFS_MAX_NAME_LEN n, tinode = Some (next_ref s), tparent = Some i\<rparr>)"
  "idents (add_node i y n ty s) = (idents s)(next_ref s + 2 \<mapsto> fresh_data (the (ifs y)) (junk s))"
  "descs (add_node i y n ty s) = descs s" "files (add_node i y n ty s) = files s"
  "vfs_root (add_node i y n ty s) = vfs_root s" "next_ref (add_node i y n ty s) = next_ref s + 3"
  by (simp_all add: add_node_def)

definition adds_node :: "vfs \<Rightarrow> inode_ref \<Rightarrow> inode \<Rightarrow> u8 list \<Rightarrow> node_type \<Rightarrow> vfs \<Rightarrow> bool" where
  "adds_node s i y n ty s' \<longleftrightarrow>
     vfs_ok s \<and> inodes s i = Some y \<and> take VFS_MAX_NAME_LEN n \<notin> field_name s ` set (child y)
     \<and> s' = add_node i y n ty s"

lemma adds_nodeD:
  assumes "adds_node s i y n ty s'"
  shows "vfs_ok s" and "inodes s i = Some y" and "take VFS_MAX_NAME_LEN n \<notin> field_name s ` set (child y)"
    and "s' = add_node i y n ty s"
  using assms by (simp_all add: adds_node_def)

lemma fresh_refs:
  assumes add: "adds_node s i y n ty s'"
  shows "inodes s (next_ref s) = None" and "tnodes s (next_ref s + 1) = None"
    and "idents s (next_ref s + 2) = None" and "i < next_ref s"
proof -
  note refs = vfs_okD(1) [OF adds_nodeD(1) [OF add]]
  show "inodes s (next_ref s) = None" "tnodes s (next_ref s + 1) = None"
    "idents s (next_ref s + 2) = None" "i < next_ref s"
    using refs_fresh [OF refs] refs_less(1) [OF refs adds_nodeD(2) [OF add]] by simp_all
qed

text \<open>An inode of the new state is the new one, or an old one that may have one more entry.\<close>

lemma new_inode_cases:
  assumes "adds_node s i y n ty s'" and "inodes s' j = Some z'"
  obtains "j = next_ref s" and "child z' = []" and "ident z' = Some (next_ref s + 2)" and "ifs z' = ifs y"
      and "mountpoint z' = mountpoint y" and "refcount z' = 1" and "isize z' = 0"
  | z where "inodes s j = Some z" and "j \<noteq> next_ref s" and "ident z' = ident z" and "ifs z' = ifs z"
      and "mountpoint z' = mountpoint z" and "itype z' = itype z" and "refcount z' = refcount z"
      and "isize z' = isize z" and "child z' = child z @ (if j = i then [next_ref s + 1] else [])"
proof (cases "j = next_ref s")
  case True
  then show thesis
    using that(1) assms(2) unfolding adds_nodeD(4) [OF assms(1)] add_node_inodes by auto
next
  case False
  then show thesis
    using that(2) [of "if j = i then y else z'"] assms(2) adds_nodeD(2) [OF assms(1)]
    unfolding adds_nodeD(4) [OF assms(1)] add_node_inodes by (cases "j = i") auto
qed

lemma old_inode:
  assumes "adds_node s i y n ty s'" and "inodes s j = Some z"
  shows "\<exists>z'. inodes s' j = Some z' \<and> set (child z) \<subseteq> set (child z') \<and> ifs z' = ifs z
    \<and> itype z' = itype z \<and> mountpoint z' = mountpoint z"
proof -
  have "j \<noteq> next_ref s" using fresh_refs(1) [OF assms(1)] assms(2) by auto
  then show ?thesis
    using assms(2) adds_nodeD(2) [OF assms(1)] unfolding adds_nodeD(4) [OF assms(1)] add_node_inodes
    by (cases "j = i") auto
qed

lemma add_refs:
  assumes add: "adds_node s i y n ty s'"
  shows "refs_ok s'"
proof -
  note ok = adds_nodeD(1) [OF add] and y = adds_nodeD(2) [OF add] and new = adds_nodeD(3) [OF add]
    and s' = adds_nodeD(4) [OF add]
  note fresh_refs = fresh_refs [OF add]
  have bound: "m < next_ref s + 3" if "inodes s j = Some z" "mountpoint z = Some m" for j z m
    using refs_less(5) [OF vfs_okD(1) [OF ok] that] by simp
  show ?thesis
    unfolding refs_ok_def
  proof (intro conjI allI impI)
    fix k assume k: "next_ref s' \<le> k"
    then have "next_ref s \<le> k" "k \<noteq> i" "k \<noteq> next_ref s" "k \<noteq> next_ref s + 1" "k \<noteq> next_ref s + 2"
      using fresh_refs(4) unfolding s' add_node_inodes by simp_all
    then show "inodes s' k = None" "tnodes s' k = None" "descs s' k = None" "idents s' k = None"
      using refs_fresh [OF vfs_okD(1) [OF ok]] unfolding s' add_node_inodes by simp_all
  next
    fix j z' m assume "inodes s' j = Some z'" "mountpoint z' = Some m"
    then have "m < next_ref s + 3"
      using bound y by (elim new_inode_cases [OF add]) auto
    then show "m < next_ref s'" unfolding s' add_node_inodes .
  qed
qed

lemma add_tree:
  assumes add: "adds_node s i y n ty s'"
  shows "tree_ok s'"
proof -
  note ok = adds_nodeD(1) [OF add] and y = adds_nodeD(2) [OF add] and new = adds_nodeD(3) [OF add]
    and s' = adds_nodeD(4) [OF add]
  note fresh_refs = fresh_refs [OF add]
  note old_inode = old_inode [OF add]
  note tree = vfs_okD(2) [OF ok] and refs = vfs_okD(1) [OF ok]
  have old: "tnodes s' t = Some x" if "tnodes s t = Some x" for t x
    using that fresh_refs(2) unfolding s' add_node_inodes by auto
  show ?thesis
    unfolding tree_ok_def
  proof (intro conjI allI impI)
    fix t x assume "tnodes s' t = Some x"
    then consider "x = \<lparr>tname = take VFS_MAX_NAME_LEN n, tinode = Some (next_ref s), tparent = Some i\<rparr>"
      | "tnodes s t = Some x"
      unfolding s' add_node_inodes by (cases "t = next_ref s + 1") simp_all
    then show "\<exists>i y. tinode x = Some i \<and> inodes s' i = Some y"
    proof cases
      case 1
      then show ?thesis unfolding s' add_node_inodes by simp
    next
      case 2
      then obtain k z where "tinode x = Some k" "inodes s k = Some z" by (rule tree_inode [OF tree])
      then show ?thesis using old_inode by blast
    qed
  next
    fix j z' assume z': "inodes s' j = Some z'"
    show "distinct (map (field_name s') (child z'))"
    proof (cases rule: new_inode_cases [OF add z'])
      case (2 z)
      have keep: "map (field_name s') (child z) = map (field_name s) (child z)"
      proof (rule map_cong [OF refl])
        fix c assume "c \<in> set (child z)"
        then have "tnodes s c \<noteq> None" by (auto elim: tree_child [OF tree 2(1)])
        then have "c \<noteq> next_ref s + 1" using fresh_refs(2) by auto
        then show "field_name s' c = field_name s c" by (simp add: s' field_name_add)
      qed
      have name: "field_name s' (next_ref s + 1) = take VFS_MAX_NAME_LEN n"
        by (simp add: s' field_name_add)
      have d: "distinct (map (field_name s') (child z))"
        unfolding keep by (rule tree_names [OF tree 2(1)])
      have im: "field_name s' ` set (child z) = field_name s ` set (child z)"
        using arg_cong [OF keep, of set] by (simp only: set_map)
      show ?thesis
      proof (cases "j = i")
        case True
        then have "z = y" using 2(1) y by simp
        then show ?thesis using new d im name True 2(9) by simp
      next
        case False
        then show ?thesis using 2(9) d by simp
      qed
    qed simp
  next
    fix j z' assume z': "inodes s' j = Some z'"
    show "\<forall>c\<in>set (child z'). \<exists>x. tnodes s' c = Some x \<and> tparent x = Some j"
    proof (cases rule: new_inode_cases [OF add z'])
      case (2 z)
      have "\<exists>x. tnodes s' c = Some x \<and> tparent x = Some j" if "c \<in> set (child z)" for c
        using tree_child [OF tree 2(1) that] old by metis
      moreover have "tnodes s' (next_ref s + 1) =
          Some \<lparr>tname = take VFS_MAX_NAME_LEN n, tinode = Some (next_ref s), tparent = Some i\<rparr>"
        unfolding s' add_node_inodes by simp
      ultimately show ?thesis using 2 by auto
    qed simp
  next
    show "\<exists>x. tnodes s' (vfs_root s') = Some x \<and> tparent x = None"
      using tree_root [OF tree] old unfolding s' add_node_inodes(6) by metis
  next
    fix t x assume t: "tnodes s' t = Some x" "t \<noteq> vfs_root s'"
    show "\<exists>p y. tparent x = Some p \<and> inodes s' p = Some y \<and> t \<in> set (child y)"
    proof (cases "t = next_ref s + 1")
      case True
      then show ?thesis using t fresh_refs y unfolding s' add_node_inodes by auto
    next
      case False
      then have "tnodes s t = Some x" "t \<noteq> vfs_root s" using t unfolding s' add_node_inodes by simp_all
      then obtain p z where "tparent x = Some p" "inodes s p = Some z" "t \<in> set (child z)"
        by (rule tree_parent [OF tree])
      then show ?thesis using old_inode by blast
    qed
  qed
qed

lemma add_count:
  assumes add: "adds_node s i y n ty s'"
  shows "count_ok s'"
  unfolding count_ok_def
proof (intro allI impI)
  fix j z' assume z': "inodes s' j = Some z'"
  note ok = adds_nodeD(1) [OF add] and y = adds_nodeD(2) [OF add] and new = adds_nodeD(3) [OF add]
    and s' = adds_nodeD(4) [OF add]
  note fresh_refs = fresh_refs [OF add]
  have "links s' j = links s j + of_bool (next_ref s = j)"
    using links_upd [OF vfs_okD(1) [OF ok] add_node_inodes(2)] fresh_refs(2) unfolding s' by simp
  moreover have "opens s' = opens s" by (rule opens_cong) (simp add: s' add_node_inodes)
  ultimately show "unat (refcount z') = links s' j + opens s' j"
    using unused_inode [OF ok fresh_refs(1)] count_eq [OF vfs_okD(3) [OF ok]]
    by (cases rule: new_inode_cases [OF add z']) simp_all
qed

lemma add_desc:
  assumes add: "adds_node s i y n ty s'"
  shows "desc_ok s'"
proof -
  note ok = adds_nodeD(1) [OF add] and y = adds_nodeD(2) [OF add] and new = adds_nodeD(3) [OF add]
    and s' = adds_nodeD(4) [OF add]
  note fresh_refs = fresh_refs [OF add]
  note old_inode = old_inode [OF add]
  have "slot_of s' = slot_of s" by (intro ext) (simp add: slot_of_def s' add_node_inodes)
  then show ?thesis
    using vfs_okD(4) [OF ok] old_inode unfolding desc_ok_def by (metis add_node_inodes(4) s')
qed

lemma add_data:
  assumes add: "adds_node s i y n ty s'"
  shows "data_ok s'"
proof -
  note ok = adds_nodeD(1) [OF add] and y = adds_nodeD(2) [OF add] and new = adds_nodeD(3) [OF add]
    and s' = adds_nodeD(4) [OF add]
  note fresh_refs = fresh_refs [OF add]
  note old_inode = old_inode [OF add]
  note data = vfs_okD(5) [OF ok]
  have ids: "idents s' r = idents s r" if "idents s r \<noteq> None" for r
    using that fresh_refs(3) unfolding s' add_node_inodes by auto
  obtain f where f: "ifs y = Some f" using data_fs [OF data y] by blast
  have old: "ident z \<noteq> Some (next_ref s + 2)" if "inodes s j = Some z" for j z
    using data_for_inode [OF data that] fresh_refs(3)
    by (auto simp: data_for_def split: option.splits fs_id.splits)
  show ?thesis
    unfolding data_ok_def
  proof (intro conjI allI impI)
    fix j z' assume z': "inodes s' j = Some z'"
    show "data_for s' z'"
    proof (cases rule: new_inode_cases [OF add z'])
      case 1
      have "idents s' (next_ref s + 2) = Some (fresh_data f (junk s))"
        by (simp add: s' add_node_inodes f)
      then show ?thesis
        using 1 f by (cases f) (auto simp: data_for_def fresh_data_def block_ok_def tty_ok_def)
    next
      case (2 z)
      have "block_ok z' x = block_ok z x" for x using 2 by (simp add: block_ok_def)
      then show ?thesis
        using data_for_inode [OF data 2(1)] 2 ids
        by (auto simp: data_for_def split: option.splits fs_id.splits)
    qed
  next
    fix j z k w r
    assume "inodes s' j = Some z" "inodes s' k = Some w" "ident z = Some r" "ident w = Some r"
    then show "j = k"
      using data old unfolding data_ok_def by (elim new_inode_cases [OF add]) metis+
  qed
qed

lemma add_mount:
  assumes add: "adds_node s i y n ty s'"
  shows "mount_ok s'"
proof -
  note ok = adds_nodeD(1) [OF add] and y = adds_nodeD(2) [OF add] and new = adds_nodeD(3) [OF add]
    and s' = adds_nodeD(4) [OF add]
  note fresh_refs = fresh_refs [OF add]
  note old_inode = old_inode [OF add]
  note mount = vfs_okD(6) [OF ok]
  have proj: "\<exists>j' z. inodes s j' = Some z \<and> mountpoint z = mountpoint z' \<and> ifs z = ifs z'"
    if z': "inodes s' j = Some z'" for j z'
    using y by (cases rule: new_inode_cases [OF add z']) metis+
  show ?thesis
    unfolding mount_ok_def
  proof (intro conjI allI impI)
    fix j z k w assume "inodes s' j = Some z" "inodes s' k = Some w" "mountpoint z = mountpoint w"
    then show "ifs z = ifs w" using mount proj unfolding mount_ok_def by metis
  next
    fix j z' m x k w
    assume a: "inodes s' j = Some z'" "mountpoint z' = Some m" "tnodes s' m = Some x" "tinode x = Some k"
      "inodes s' k = Some w"
    obtain j' z where z: "inodes s j' = Some z" "mountpoint z = Some m" using proj [OF a(1)] a(2) by auto
    then have "m < next_ref s" by (rule refs_less(5) [OF vfs_okD(1) [OF ok]])
    then have x: "tnodes s m = Some x" using a(3) unfolding s' add_node_inodes by simp
    then obtain v where v: "inodes s k = Some v"
      using tree_inode [OF vfs_okD(2) [OF ok] x] a(4) by auto
    have "itype w = itype v" using old_inode [OF v] a(5) by auto
    then show "itype w = VFS_NODE_MOUNTPOINT" using mount z x a(4) v unfolding mount_ok_def by metis
  qed
qed

lemma add_node_ok: "adds_node s i y n ty s' \<Longrightarrow> vfs_ok s'"
  by (simp add: vfs_ok_def add_refs add_tree add_count add_desc add_data add_mount)

section \<open>What a path names, in a good state\<close>

definition short_path :: "u8 list \<Rightarrow> bool" where
  "short_path path \<longleftrightarrow> (case path of [] \<Rightarrow> True | c # p \<Rightarrow> c = SLASH \<longrightarrow> short_names p)"

lemma entry_None:
  assumes "entry s n t = None" and "inode_of s t = Some y"
  shows "take VFS_MAX_NAME_LEN n \<notin> field_name s ` set (child y)"
  using assms by (auto simp: entry_def entries_def find_None_iff)

lemma path_cases:
  assumes ok: "vfs_ok s" and short: "short_path path"
  obtains (nowhere) "path_to_node path md ty s = Inr (None, s)"
  | (found) t x i y where "path_to_node path md ty s = Inr (Some t, s)" and "tnodes s t = Some x"
      and "tinode x = Some i" and "inodes s i = Some y" and "md AND ERR_ON_EXIST = 0"
  | (created) i y n where
      "path_to_node path md ty s = Inr (Some (next_ref s + 1), add_node i y n ty s)"
      and "adds_node s i y n ty (add_node i y n ty s)" and "md AND CREATE \<noteq> 0"
proof -
  note ok' = vfs_okD [OF ok]
  show thesis
  proof (cases path)
    case Nil
    then show thesis using nowhere by (simp add: path_to_node_relative)
  next
    case (Cons c p)
    show thesis
    proof (cases "c = SLASH")
      case False
      then show thesis using nowhere Cons by (simp add: path_to_node_relative)
    next
      case True
      then have sn: "short_names p" using short Cons by (simp add: short_path_def)
      obtain t fnd n where w: "walk s (components p) (vfs_root s) True [] = (t, fnd, n)"
        using prod_cases3 by blast
      have "tnodes s (vfs_root s) \<noteq> None" using tree_root [OF ok'(2)] by auto
      then obtain x where x: "tnodes s t = Some x" using walk_alive [OF ok'(2) w] by auto
      obtain i y where y: "tinode x = Some i" "inodes s i = Some y" "inode_of s t = Some y"
        by (rule inode_of_alive [OF ok'(2) x])
      show thesis
      proof (cases fnd)
        case found': True
        then show thesis
          using path_to_node_found [OF ok'(2) sn, of t n md ty] w found [OF _ x y(1,2)] nowhere Cons True
          by (cases "md AND ERR_ON_EXIST = 0") simp_all
      next
        case False
        then have w': "walk s (components p) (vfs_root s) True [] = (t, False, n)" using w by simp
        note eq = path_to_node_missing [OF ok'(2,1,5) sn w' x y(1,2), of md ty]
        show thesis
        proof (cases "dir_at s t \<and> md AND CREATE \<noteq> 0 \<and> can_end p")
          case create: True
          then have "entry s n t = None" using walk_missing [OF w'] by simp
          then have "adds_node s i y n ty (add_node i y n ty s)"
            using entry_None y ok by (simp add: adds_node_def)
          then show thesis using eq create created Cons True by simp
        next
          case no: False
          then show thesis using eq nowhere Cons True by (simp only: if_False)
        qed
      qed
    qed
  qed
qed

lemma vfs_open_ok:
  assumes ok: "vfs_ok s" and few: "few_objects s" and short: "short_path path"
  shows "\<exists>r s'. vfs_open cur path md s = Inr (r, s') \<and> vfs_ok s'"
  using ok short
proof (cases rule: path_cases [where md = NO_CREATE and ty = VFS_NODE_FILE])
  case nowhere
  then show ?thesis by (simp add: vfs_open_def ok)
next
  case (found t x i y)
  then show ?thesis using vfs_open_eq opened_ok [OF ok few] by blast
qed simp

lemma vfs_create_ok:
  assumes ok: "vfs_ok s" and short: "short_path path"
  shows "\<exists>r s'. vfs_create path ty s = Inr (r, s') \<and> vfs_ok s'"
  using ok short
proof (cases rule: path_cases [where md = "CREATE OR ERR_ON_EXIST" and ty = ty])
  case (created i y n)
  then show ?thesis using add_node_ok by (simp add: vfs_create_def)
qed (simp_all add: vfs_create_def ok)

lemma vfs_getdent_ok:
  assumes ok: "vfs_ok s"
  shows "\<exists>r e s'. vfs_getdent cur h s = Inr (r, e, s') \<and> vfs_ok s'"
proof (cases "handle_to_fd cur h s")
  case (Some d)
  note ok' = vfs_okD [OF ok]
  obtain x y f where x: "descs s d = Some x" "inodes s (nd_inode x) = Some y" "ifs y = Some f"
    by (rule handle_parts [OF ok Some])
  show ?thesis
  proof (cases "is_traversable y \<and> unat (seek_pos x) < length (child y)")
    case True
    then have "child y ! unat (seek_pos x) \<in> set (child y)" by simp
    then obtain e where e: "tnodes s (child y ! unat (seek_pos x)) = Some e"
      by (rule tree_child [OF ok'(2) x(2)])
    obtain i z where "tinode e = Some i" "inodes s i = Some z" by (rule tree_inode [OF ok'(2) e])
    then show ?thesis
      using True x Some e by (simp add: vfs_getdent_def vfs_ok_desc [OF ok x(1)])
  next
    case False
    then show ?thesis using x Some ok by (auto simp: vfs_getdent_def)
  qed
qed (simp add: vfs_getdent_def ok)

end
