(* ===== verification/VfsLink.thy ===== *)
theory VfsLink
  imports VfsTree
begin

text \<open>
  Links, removal and mounts: the three places where the virtual file system frees inodes. They are
  composed of three changes (a tnode is moved to another inode, a tnode is removed, an inode that
  nothing refers to is freed), each of which keeps everything but the condition on mounts.
\<close>

definition core_ok :: "vfs \<Rightarrow> bool" where
  "core_ok s \<longleftrightarrow> refs_ok s \<and> tree_ok s \<and> count_ok s \<and> desc_ok s \<and> data_ok s"

lemma vfs_ok_core: "vfs_ok s \<longleftrightarrow> core_ok s \<and> mount_ok s"
  by (auto simp: vfs_ok_def core_ok_def)

lemma core_okD:
  assumes "core_ok s"
  shows "refs_ok s" and "tree_ok s" and "count_ok s" and "desc_ok s" and "data_ok s"
  using assms by (simp_all add: core_ok_def)

lemma slot_of_cong: "files s' = files s \<Longrightarrow> slot_of s' = slot_of s"
  by (intro ext) (simp add: slot_of_def)

lemma field_name_cong: "tnodes s' = tnodes s \<Longrightarrow> field_name s' = field_name s"
  by (intro ext) (simp add: field_name_def)

lemma no_links: "refs_ok s \<Longrightarrow> links s i = 0 \<Longrightarrow> tnodes s t = Some x \<Longrightarrow> tinode x \<noteq> Some i"
  using linked_pos [of s t x i] by auto

lemma no_opens: "refs_ok s \<Longrightarrow> opens s i = 0 \<Longrightarrow> descs s d = Some x \<Longrightarrow> nd_inode x \<noteq> i"
  using opened_pos [of s d x i] by auto

section \<open>Freeing an inode\<close>

definition drop_inode :: "inode_ref \<Rightarrow> (ident_ref \<Rightarrow> ident_data option) \<Rightarrow> vfs \<Rightarrow> vfs" where
  "drop_inode i ids s = s\<lparr>inodes := (inodes s)(i := None), idents := ids\<rparr>"

definition own_ident :: "vfs \<Rightarrow> inode \<Rightarrow> (ident_ref \<Rightarrow> ident_data option) \<Rightarrow> bool" where
  "own_ident s y ids \<longleftrightarrow> (\<forall>r. ident y \<noteq> Some r \<longrightarrow> ids r = idents s r) \<and> (\<forall>r. idents s r = None \<longrightarrow> ids r = None)"

lemma drop_core:
  assumes ok: "core_ok s" and y: "inodes s i = Some y" and free: "links s i = 0" "opens s i = 0"
    and empty: "child y = []" and ids: "own_ident s y ids"
  shows "core_ok (drop_inode i ids s)"
proof -
  note ok' = core_okD [OF ok]
  let ?s = "drop_inode i ids s"
  have ino: "inodes ?s j = (if j = i then None else inodes s j)" for j by (simp add: drop_inode_def)
  have same: "tnodes ?s = tnodes s" "descs ?s = descs s" "vfs_root ?s = vfs_root s"
    "next_ref ?s = next_ref s" "idents ?s = ids" "files ?s = files s"
    by (simp_all add: drop_inode_def)
  have "refs_ok ?s"
    using ok'(1) ids refs_less(5) [OF ok'(1)] unfolding refs_ok_def same ino own_ident_def by auto
  moreover have "tree_ok ?s"
    unfolding tree_ok_def same field_name_cong [OF same(1)]
  proof (intro conjI allI impI)
    fix t x assume t: "tnodes s t = Some x"
    then have "tinode x \<noteq> Some i" by (rule no_links [OF ok'(1) free(1)])
    with tree_inode [OF ok'(2) t] show "\<exists>i y. tinode x = Some i \<and> inodes ?s i = Some y"
      by (metis ino)
  next
    fix j z assume "inodes ?s j = Some z"
    then have z: "inodes s j = Some z" by (simp add: ino split: if_splits)
    show "distinct (map (field_name s) (child z))" by (rule tree_names [OF ok'(2) z])
    show "\<forall>c\<in>set (child z). \<exists>x. tnodes s c = Some x \<and> tparent x = Some j"
      using tree_child [OF ok'(2) z] by metis
  next
    show "\<exists>x. tnodes s (vfs_root s) = Some x \<and> tparent x = None" using tree_root [OF ok'(2)] by metis
  next
    fix t x assume "tnodes s t = Some x" "t \<noteq> vfs_root s"
    then obtain p z where p: "tparent x = Some p" "inodes s p = Some z" "t \<in> set (child z)"
      by (rule tree_parent [OF ok'(2)])
    then have "p \<noteq> i" using y empty by auto
    then show "\<exists>p y. tparent x = Some p \<and> inodes ?s p = Some y \<and> t \<in> set (child y)"
      using p by (simp add: ino)
  qed
  moreover have "count_ok ?s"
    using ok'(3) unfolding count_ok_def names_cong [OF same(1)] opens_cong [OF same(2)] by (simp add: ino)
  moreover have "desc_ok ?s"
    using ok'(4) no_opens [OF ok'(1) free(2)] unfolding desc_ok_def slot_of_cong [OF same(6)] same
    by (simp add: ino)
  moreover have "data_ok ?s"
    unfolding data_ok_def
  proof (intro conjI allI impI)
    fix j z assume "inodes ?s j = Some z"
    then have z: "inodes s j = Some z" "j \<noteq> i" by (simp_all add: ino split: if_splits)
    have "ident y \<noteq> Some r" if "ident z = Some r" for r
      using ok'(5) z y that unfolding data_ok_def by metis
    then have "ids r = idents s r" if "ident z = Some r" for r using ids that by (simp add: own_ident_def)
    then show "data_for ?s z"
      using data_for_inode [OF ok'(5) z(1)]
      by (auto simp: data_for_def same split: option.splits fs_id.splits)
  next
    fix j z k w r
    assume "inodes ?s j = Some z" "inodes ?s k = Some w" "ident z = Some r" "ident w = Some r"
    then show "j = k" using ok'(5) unfolding data_ok_def ino by (metis option.distinct(1))
  qed
  ultimately show ?thesis by (simp add: core_ok_def)
qed

lemma mount_okD:
  assumes "mount_ok s"
  shows "inodes s i = Some y \<Longrightarrow> inodes s j = Some z \<Longrightarrow> mountpoint y = mountpoint z \<Longrightarrow> ifs y = ifs z"
    and "inodes s i = Some y \<Longrightarrow> mountpoint y = Some m \<Longrightarrow> tnodes s m = Some x \<Longrightarrow> tinode x = Some k \<Longrightarrow>
      inodes s k = Some z \<Longrightarrow> itype z = VFS_NODE_MOUNTPOINT"
  using assms unfolding mount_ok_def by blast+

text \<open>With fewer inodes and tnodes the condition on mounts still holds.\<close>

lemma mount_ok_fewer:
  assumes "mount_ok s" and ts: "\<And>t x. tnodes s' t = Some x \<Longrightarrow> tnodes s t = Some x"
    and ino: "\<And>j z'. inodes s' j = Some z' \<Longrightarrow>
      \<exists>z. inodes s j = Some z \<and> mountpoint z' = mountpoint z \<and> ifs z' = ifs z \<and> itype z' = itype z"
  shows "mount_ok s'"
  unfolding mount_ok_def
proof (intro conjI allI impI)
  fix j z k w assume "inodes s' j = Some z" "inodes s' k = Some w" "mountpoint z = mountpoint w"
  then show "ifs z = ifs w" using ino mount_okD(1) [OF assms(1)] by metis
next
  fix j z m x k w
  assume a: "inodes s' j = Some z" "mountpoint z = Some m" "tnodes s' m = Some x" "tinode x = Some k"
    "inodes s' k = Some w"
  obtain z0 w0 where "inodes s j = Some z0" "mountpoint z0 = Some m" "inodes s k = Some w0" "itype w = itype w0"
    using ino [OF a(1)] ino [OF a(5)] a(2) by auto
  then show "itype w = VFS_NODE_MOUNTPOINT"
    using mount_okD(2) [OF assms(1) _ _ ts [OF a(3)] a(4)] by simp
qed

lemma drop_mount: "mount_ok s \<Longrightarrow> mount_ok (drop_inode i ids s)"
  by (rule mount_ok_fewer) (auto simp: drop_inode_def split: if_splits)

section \<open>Moving a tnode to another inode\<close>

definition retarget :: "tnode_ref \<Rightarrow> tnode \<Rightarrow> inode_ref \<Rightarrow> inode \<Rightarrow> inode_ref \<Rightarrow> inode \<Rightarrow> vfs \<Rightarrow> vfs" where
  "retarget t x a ya b yb s =
     s\<lparr>inodes := (inodes s)(a \<mapsto> ya\<lparr>refcount := refcount ya - 1\<rparr>, b \<mapsto> yb\<lparr>refcount := refcount yb + 1\<rparr>),
       tnodes := (tnodes s)(t \<mapsto> x\<lparr>tinode := Some b\<rparr>)\<rparr>"

lemma retarget_links:
  assumes "refs_ok s" and "tnodes s t = Some x" and "tinode x = Some a" and "a \<noteq> b"
  shows "links (retarget t x a ya b yb s) j =
    (if j = a then links s a - 1 else if j = b then links s b + 1 else links s j)"
  using links_upd [OF assms(1), of "retarget t x a ya b yb s" t "Some (x\<lparr>tinode := Some b\<rparr>)" j] assms(2-4)
  by (auto simp: retarget_def)

lemma retarget_core:
  assumes ok: "core_ok s" and x: "tnodes s t = Some x" "tinode x = Some a"
    and ya: "inodes s a = Some ya" and yb: "inodes s b = Some yb" and ab: "a \<noteq> b"
    and few: "unat (refcount yb) + 1 < 2 ^ 32"
  shows "core_ok (retarget t x a ya b yb s)"
proof -
  note ok' = core_okD [OF ok]
  let ?s = "retarget t x a ya b yb s"
  let ?s1 = "s\<lparr>inodes := (inodes s)(a \<mapsto> ya\<lparr>refcount := refcount ya - 1\<rparr>)\<rparr>"
  let ?s2 = "?s1\<lparr>inodes := (inodes ?s1)(b \<mapsto> yb\<lparr>refcount := refcount yb + 1\<rparr>)\<rparr>"
  have tree1: "tree_ok ?s1" by (rule recount(1) [OF ya _ _ _ _ ok'(2)]) simp_all
  have data1: "data_ok ?s1" by (rule recount(2) [OF ya _ _ _ _ ok'(5)]) simp_all
  have yb1: "inodes ?s1 b = Some yb" using yb ab by simp
  have tree2: "tree_ok ?s2" by (rule recount(1) [OF yb1 _ _ _ _ tree1]) simp_all
  have data2: "data_ok ?s2" by (rule recount(2) [OF yb1 _ _ _ _ data1]) simp_all
  have eq: "?s = ?s2\<lparr>tnodes := (tnodes ?s2)(t \<mapsto> x\<lparr>tinode := Some b\<rparr>)\<rparr>" by (simp add: retarget_def)
  have names: "field_name ?s = field_name ?s2" by (rule ext) (simp add: field_name_def retarget_def x)
  have old: "\<exists>v'. tnodes ?s u = Some v' \<and> tparent v' = tparent v" if "tnodes s u = Some v" for u v
    using that x by (cases "u = t") (auto simp: retarget_def)
  have ino: "inodes ?s = inodes ?s2" by (simp add: retarget_def)
  have refs: "refs_ok ?s"
    using ok'(1) refs_less(1,2) [OF ok'(1)] x ya yb unfolding refs_ok_def retarget_def
    by (auto split: if_splits)
  have "tree_ok ?s"
    unfolding tree_ok_def names ino
  proof (intro conjI allI impI)
    fix u v assume u: "tnodes ?s u = Some v"
    show "\<exists>i y. tinode v = Some i \<and> inodes ?s2 i = Some y"
    proof (cases "u = t")
      case True
      then show ?thesis using u by (auto simp: retarget_def)
    next
      case False
      then have "tnodes ?s2 u = Some v" using u by (simp add: retarget_def)
      then show ?thesis by (rule tree_inode [OF tree2]) blast
    qed
  next
    fix j z assume z: "inodes ?s2 j = Some z"
    show "distinct (map (field_name ?s2) (child z))" by (rule tree_names [OF tree2 z])
    show "\<forall>c\<in>set (child z). \<exists>x. tnodes ?s c = Some x \<and> tparent x = Some j"
    proof
      fix c assume "c \<in> set (child z)"
      then obtain v where v: "tnodes ?s2 c = Some v" "tparent v = Some j" by (rule tree_child [OF tree2 z])
      then show "\<exists>x. tnodes ?s c = Some x \<and> tparent x = Some j" using old [of c v] by simp
    qed
  next
    obtain v where "tnodes ?s2 (vfs_root ?s2) = Some v" "tparent v = None" by (rule tree_root [OF tree2])
    then show "\<exists>x. tnodes ?s (vfs_root ?s) = Some x \<and> tparent x = None"
      using old [of "vfs_root s" v] by (simp add: retarget_def)
  next
    fix u v assume u: "tnodes ?s u = Some v" "u \<noteq> vfs_root ?s"
    then obtain w where w: "tnodes ?s2 u = Some w" "tparent v = tparent w"
      using x by (cases "u = t") (auto simp: retarget_def)
    moreover have "u \<noteq> vfs_root ?s2" using u by (simp add: retarget_def)
    ultimately show "\<exists>p y. tparent v = Some p \<and> inodes ?s2 p = Some y \<and> u \<in> set (child y)"
      using tree_parent [OF tree2 w(1)] by metis
  qed
  moreover have "count_ok ?s"
    unfolding count_ok_def
  proof (intro allI impI)
    fix j z assume z: "inodes ?s j = Some z"
    have op: "opens ?s = opens s" by (rule opens_cong) (simp add: retarget_def)
    note li = retarget_links [OF ok'(1) x ab, of ya yb j]
    have pos: "0 < links s a" by (rule linked_pos [OF ok'(1) x])
    consider "j = a" | "j = b" | "j \<noteq> a" "j \<noteq> b" by blast
    then show "unat (refcount z) = links ?s j + opens ?s j"
    proof cases
      case 1
      then have zz: "z = ya\<lparr>refcount := refcount ya - 1\<rparr>" using z ab by (simp add: retarget_def)
      have c: "unat (refcount ya) = links s a + opens s a" by (rule count_eq [OF ok'(3) ya])
      then have "1 \<le> refcount ya" using pos by (simp add: word_le_nat_alt)
      then show ?thesis using 1 zz c pos li op by (simp add: unat_sub)
    next
      case 2
      then have zz: "z = yb\<lparr>refcount := refcount yb + 1\<rparr>" using z ab by (simp add: retarget_def)
      then show ?thesis using 2 count_eq [OF ok'(3) yb] li op few ab by (simp add: unat_add_lt)
    next
      case 3
      then have "inodes s j = Some z" using z by (simp add: retarget_def)
      then show ?thesis using 3 count_eq [OF ok'(3)] li op by simp
    qed
  qed
  moreover have "desc_ok ?s"
    using ok'(4) unfolding desc_ok_def slot_of_cong [of ?s s, OF eq [THEN arg_cong, of files, simplified]]
    by (simp add: retarget_def)
  moreover have "data_for ?s z = data_for ?s2 z" for z
    by (rule data_for_cong) (simp add: retarget_def)
  with data2 have "data_ok ?s" unfolding data_ok_def ino by blast
  ultimately show ?thesis using refs by (simp add: core_ok_def)
qed

section \<open>Removing a tnode\<close>

definition removed :: "tnode_ref \<Rightarrow> inode_ref \<Rightarrow> inode \<Rightarrow> inode_ref \<Rightarrow> inode \<Rightarrow> vfs \<Rightarrow> vfs" where
  "removed t i y p yp s =
     s\<lparr>inodes := (inodes s)(i \<mapsto> y\<lparr>refcount := refcount y - 1\<rparr>, p \<mapsto> yp\<lparr>child := remove1 t (child yp)\<rparr>),
       tnodes := (tnodes s)(t := None)\<rparr>"

lemma removed_links:
  assumes "refs_ok s" and "tnodes s t = Some x" and "tinode x = Some i"
  shows "links (removed t i y p yp s) j = (if j = i then links s i - 1 else links s j)"
  using links_upd [OF assms(1), of "removed t i y p yp s" t None j] assms(2,3)
  by (auto simp: removed_def)

lemma removed_core:
  assumes ok: "core_ok s" and x: "tnodes s t = Some x" "tinode x = Some i" "tparent x = Some p"
    and y: "inodes s i = Some y" "child y = []" and yp: "inodes s p = Some yp" "t \<in> set (child yp)"
  shows "core_ok (removed t i y p yp s)"
proof -
  note ok' = core_okD [OF ok]
  let ?s = "removed t i y p yp s"
  have ip: "i \<noteq> p" using y yp by auto
  have same: "descs ?s = descs s" "vfs_root ?s = vfs_root s" "next_ref ?s = next_ref s"
    "idents ?s = idents s" "files ?s = files s" by (simp_all add: removed_def)
  have tn: "tnodes ?s u = (if u = t then None else tnodes s u)" for u by (simp add: removed_def)
  have names: "field_name ?s u = field_name s u" if "u \<noteq> t" for u
    using that by (simp add: field_name_def tn)
  have inoD: "\<exists>z. inodes s j = Some z \<and> child z' = remove1 t (child z) \<and> ident z' = ident z
      \<and> ifs z' = ifs z \<and> itype z' = itype z \<and> isize z' = isize z
      \<and> mountpoint z' = mountpoint z \<and> (j \<noteq> i \<longrightarrow> refcount z' = refcount z)"
    if "inodes ?s j = Some z'" for j z'
  proof -
    consider "j = i" | "j = p" | "j \<noteq> i" "j \<noteq> p" by blast
    then show ?thesis
    proof cases
      case 1
      then show ?thesis using that y ip by (auto simp: removed_def)
    next
      case 2
      then show ?thesis using that yp ip by (auto simp: removed_def)
    next
      case 3
      then have z: "inodes s j = Some z'" using that by (simp add: removed_def)
      have "t \<notin> set (child z')"
        using tree_child [OF ok'(2) z, of t] x(1,3) 3(2) by force
      then show ?thesis using z by (simp add: remove1_idem)
    qed
  qed
  have inoI: "\<exists>z'. inodes ?s j = Some z' \<and> child z' = remove1 t (child z)" if "inodes s j = Some z" for j z
  proof -
    have "t \<notin> set (child z)" if "j \<noteq> p"
      using tree_child [OF ok'(2) \<open>inodes s j = Some z\<close>, of t] x(1,3) that by force
    then show ?thesis
      using that y yp ip by (cases "j = i"; cases "j = p") (auto simp: removed_def remove1_idem)
  qed
  have "refs_ok ?s"
    using ok'(1) refs_less(1) [OF ok'(1)] y yp unfolding refs_ok_def removed_def by (auto split: if_splits)
  moreover have "tree_ok ?s"
    unfolding tree_ok_def
  proof (intro conjI allI impI)
    fix u v assume "tnodes ?s u = Some v"
    then have "tnodes s u = Some v" by (simp add: tn split: if_splits)
    then show "\<exists>i y. tinode v = Some i \<and> inodes ?s i = Some y"
      using tree_inode [OF ok'(2)] inoI by metis
  next
    fix j z' assume z': "inodes ?s j = Some z'"
    then obtain z where z: "inodes s j = Some z" "child z' = remove1 t (child z)" using inoD by blast
    have d: "distinct (child z)" by (rule tree_distinct [OF ok'(2) z(1)])
    have notin: "t \<notin> set (child z')" using z(2) d by simp
    then have "map (field_name ?s) (child z') = map (field_name s) (child z')"
      by (intro map_cong refl names) auto
    moreover have "distinct (map (field_name s) (child z'))"
      using tree_names [OF ok'(2) z(1)] z(2) d set_remove1_subset [of t "child z"]
      by (auto simp: distinct_map inj_on_def)
    ultimately show "distinct (map (field_name ?s) (child z'))" by (simp only:)
    show "\<forall>c\<in>set (child z'). \<exists>x. tnodes ?s c = Some x \<and> tparent x = Some j"
    proof
      fix c assume c: "c \<in> set (child z')"
      then have "c \<in> set (child z)" "c \<noteq> t" using z(2) d by auto
      then show "\<exists>x. tnodes ?s c = Some x \<and> tparent x = Some j"
        using tree_child [OF ok'(2) z(1)] by (metis tn)
    qed
  next
    obtain v where v: "tnodes s (vfs_root s) = Some v" "tparent v = None" by (rule tree_root [OF ok'(2)])
    then have "vfs_root s \<noteq> t" using x by auto
    then show "\<exists>x. tnodes ?s (vfs_root ?s) = Some x \<and> tparent x = None" using v by (simp add: tn same)
  next
    fix u v assume u: "tnodes ?s u = Some v" "u \<noteq> vfs_root ?s"
    then have "tnodes s u = Some v" "u \<noteq> t" "u \<noteq> vfs_root s" by (simp_all add: tn same split: if_splits)
    then obtain q z where q: "tparent v = Some q" "inodes s q = Some z" "u \<in> set (child z)"
      using tree_parent [OF ok'(2)] by metis
    then obtain z' where "inodes ?s q = Some z'" "child z' = remove1 t (child z)" using inoI by blast
    moreover have "u \<in> set (remove1 t (child z))" using q \<open>u \<noteq> t\<close> by simp
    ultimately show "\<exists>p y. tparent v = Some p \<and> inodes ?s p = Some y \<and> u \<in> set (child y)"
      using q by auto
  qed
  moreover have "count_ok ?s"
    unfolding count_ok_def
  proof (intro allI impI)
    fix j z' assume z': "inodes ?s j = Some z'"
    have op: "opens ?s = opens s" by (rule opens_cong) (simp add: removed_def)
    note li = removed_links [OF ok'(1) x(1,2), of y p yp j]
    have pos: "0 < links s i" by (rule linked_pos [OF ok'(1) x(1,2)])
    show "unat (refcount z') = links ?s j + opens ?s j"
    proof (cases "j = i")
      case True
      then have zz: "z' = y\<lparr>refcount := refcount y - 1\<rparr>" using z' ip by (simp add: removed_def)
      have c: "unat (refcount y) = links s i + opens s i" by (rule count_eq [OF ok'(3) y(1)])
      then have "1 \<le> refcount y" using pos by (simp add: word_le_nat_alt)
      then show ?thesis using True zz c pos li op by (simp add: unat_sub)
    next
      case False
      then obtain z where "inodes s j = Some z" "refcount z' = refcount z" using inoD [OF z'] by blast
      then show ?thesis using False count_eq [OF ok'(3)] li op by simp
    qed
  qed
  moreover have "desc_ok ?s"
    using desc_okD [OF ok'(4)] inoI unfolding desc_ok_def slot_of_cong [OF same(5)] same by blast
  moreover have "data_ok ?s"
    unfolding data_ok_def
  proof (intro conjI allI impI)
    fix j z' assume "inodes ?s j = Some z'"
    then obtain z where z: "inodes s j = Some z" "ident z' = ident z" "ifs z' = ifs z" "itype z' = itype z"
      "isize z' = isize z" using inoD by blast
    then show "data_for ?s z'"
      using data_for_inode [OF ok'(5) z(1)] data_for_same [OF same(4) z(2-5)] by simp
  next
    fix j z k w r
    assume a: "inodes ?s j = Some z" "inodes ?s k = Some w" "ident z = Some r" "ident w = Some r"
    obtain z0 where "inodes s j = Some z0" "ident z0 = Some r" using inoD [OF a(1)] a(3) by metis
    moreover obtain w0 where "inodes s k = Some w0" "ident w0 = Some r" using inoD [OF a(2)] a(4) by metis
    ultimately show "j = k" using ok'(5) unfolding data_ok_def by blast
  qed
  ultimately show ?thesis by (simp add: core_ok_def)
qed

lemma removed_mount:
  assumes "mount_ok s" and "inodes s i = Some y" and "inodes s p = Some yp" and "i \<noteq> p"
  shows "mount_ok (removed t i y p yp s)"
  by (rule mount_ok_fewer [OF assms(1)]) (use assms(2-4) in \<open>auto simp: removed_def split: if_splits\<close>)

section \<open>Unlinking\<close>

text \<open>What \<open>setlink\<close> does to the driver data: \<open>ramfs\<close> frees those of an inode without references.\<close>

definition released ::
  "fs_id \<Rightarrow> inode \<Rightarrow> (ident_ref \<Rightarrow> ident_data option) \<Rightarrow> ident_ref \<Rightarrow> ident_data option" where
  "released f y ids =
     (if f = RAMFS \<and> refcount y = 0 then (case ident y of None \<Rightarrow> ids | Some r \<Rightarrow> ids(r := None)) else ids)"

lemma released_own: "own_ident s y (released f y (idents s))"
  by (auto simp: own_ident_def released_def split: option.split)

lemma fs_setlink_eq:
  assumes "tnodes s t = Some x" and "tinode x = Some i" and "inodes s i = Some y"
    and "data_for s y" and "ifs y = Some f"
  shows "fs_setlink f t tgt s = Inr (0, s\<lparr>idents := released f y (idents s)\<rparr>)"
proof (cases f)
  case RAMFS
  then obtain r z where "ident y = Some r" "get_ram y s = Inr (r, z)"
    using ram_ident [OF assms(4)] assms(5) by blast
  then show ?thesis
    using assms(1-3) RAMFS by (simp add: fs_setlink_def ramfs_setlink_def released_def)
qed (simp add: fs_setlink_def ttyfs_setlink_def released_def)

definition unlinked :: "tnode_ref \<Rightarrow> inode_ref \<Rightarrow> inode \<Rightarrow> inode_ref \<Rightarrow> inode \<Rightarrow> vfs \<Rightarrow> vfs" where
  "unlinked t i y p yp s =
     (if refcount y = 1
      then drop_inode i (released (the (ifs y)) (y\<lparr>refcount := 0\<rparr>) (idents s)) (removed t i y p yp s)
      else removed t i y p yp s)"

lemma vfs_unlink_eq:
  assumes path: "path_to_node path NO_CREATE VFS_NODE_FILE s = Inr (Some t, s)"
    and x: "tnodes s t = Some x" "tinode x = Some i" and y: "inodes s i = Some y" "child y = []"
    and p: "tparent x = Some p" "inodes s p = Some yp" "i \<noteq> p"
    and data: "data_for s y" and f: "ifs y = Some f"
  shows "vfs_unlink path s = Inr (0, unlinked t i y p yp s)"
proof -
  let ?y = "y\<lparr>refcount := refcount y - 1\<rparr>"
  let ?s = "s\<lparr>inodes := (inodes s)(i \<mapsto> ?y)\<rparr>"
  have d: "data_for ?s ?y" using data data_for_same [of ?s s ?y y] by simp
  have set_eq: "fs_setlink f t None ?s = Inr (0, ?s\<lparr>idents := released f ?y (idents s)\<rparr>)"
    using fs_setlink_eq [of ?s t x i ?y f None] x d f by simp
  have zero: "refcount y - 1 = 0 \<longleftrightarrow> refcount y = 1" by simp
  have keep: "released f ?y (idents s) = idents s" if "refcount y \<noteq> 1" using that by (simp add: released_def)
  show ?thesis
    using path x y p f
    by (simp add: vfs_unlink_def fs_of_def set_eq vfs_free_nodes_def removed_def drop_inode_def
        unlinked_def free_inode_def keep zero)
qed

lemma vfs_unlink_root:
  assumes ok: "vfs_ok s" and path: "path_to_node path NO_CREATE VFS_NODE_FILE s = Inr (Some t, s)"
    and x: "tnodes s t = Some x" "tinode x = Some i" and y: "inodes s i = Some y" "child y = []"
    and root: "tparent x = None"
  shows "vfs_unlink path s = Inl Null_Deref"
proof -
  obtain f where f: "ifs y = Some f" using data_fs [OF vfs_okD(5) [OF ok] y(1)] by blast
  let ?y = "y\<lparr>refcount := refcount y - 1\<rparr>"
  let ?s = "s\<lparr>inodes := (inodes s)(i \<mapsto> ?y)\<rparr>"
  have d: "data_for ?s ?y"
    using data_for_inode [OF vfs_okD(5) [OF ok] y(1)] data_for_same [of ?s s ?y y] by simp
  have set_eq: "fs_setlink f t None ?s = Inr (0, ?s\<lparr>idents := released f ?y (idents s)\<rparr>)"
    using fs_setlink_eq [of ?s t x i ?y f None] x d f by simp
  show ?thesis
    using path x y root f by (simp add: vfs_unlink_def fs_of_def set_eq upd_inode_def)
qed

lemma unlinked_ok:
  assumes ok: "vfs_ok s" and x: "tnodes s t = Some x" "tinode x = Some i" "tparent x = Some p"
    and y: "inodes s i = Some y" "child y = []" and yp: "inodes s p = Some yp" "t \<in> set (child yp)"
  shows "vfs_ok (unlinked t i y p yp s)"
proof -
  have core: "core_ok s" and mount: "mount_ok s" using ok by (simp_all add: vfs_ok_core)
  note ok' = core_okD [OF core]
  have ip: "i \<noteq> p" using y yp by auto
  let ?r = "removed t i y p yp s"
  have r: "core_ok ?r" by (rule removed_core [OF core x y yp])
  have m: "mount_ok ?r" by (rule removed_mount [OF mount y(1) yp(1) ip])
  show ?thesis
  proof (cases "refcount y = 1")
    case False
    then show ?thesis using r m by (simp add: vfs_ok_core unlinked_def)
  next
    case True
    let ?y = "y\<lparr>refcount := refcount y - 1\<rparr>"
    have "links s i + opens s i = 1" using count_eq [OF ok'(3) y(1)] True by simp
    moreover have "0 < links s i" by (rule linked_pos [OF ok'(1) x(1,2)])
    moreover have "opens ?r = opens s" by (rule opens_cong) (simp add: removed_def)
    ultimately have "links ?r i = 0" "opens ?r i = 0"
      using removed_links [OF ok'(1) x(1,2), of y p yp i] by simp_all
    moreover have "inodes ?r i = Some ?y" using ip by (simp add: removed_def)
    moreover have "own_ident ?r ?y (released (the (ifs y)) (y\<lparr>refcount := 0\<rparr>) (idents s))"
      using released_own [of s "y\<lparr>refcount := 0\<rparr>"] by (simp add: own_ident_def removed_def)
    ultimately have "core_ok (drop_inode i (released (the (ifs y)) (y\<lparr>refcount := 0\<rparr>) (idents s)) ?r)"
      using y by (intro drop_core [OF r]) simp_all
    then show ?thesis using True drop_mount [OF m] by (simp add: vfs_ok_core unlinked_def)
  qed
qed

text \<open>Unlinking never follows a dangling pointer; it faults on the root, and only there.\<close>

lemma vfs_unlink_ok:
  assumes ok: "vfs_ok s" and short: "short_path path"
  shows "(\<exists>r s'. vfs_unlink path s = Inr (r, s') \<and> vfs_ok s')
    \<or> (vfs_unlink path s = Inl Null_Deref
       \<and> path_to_node path NO_CREATE VFS_NODE_FILE s = Inr (Some (vfs_root s), s))"
  using ok short
proof (cases rule: path_cases [where md = NO_CREATE and ty = VFS_NODE_FILE])
  case nowhere
  then show ?thesis by (simp add: vfs_unlink_def ok)
next
  case (found t x i y)
  note ok' = vfs_okD [OF ok]
  consider "child y \<noteq> []" | "child y = []" "t = vfs_root s" | "child y = []" "t \<noteq> vfs_root s" by blast
  then show ?thesis
  proof cases
    case 1
    then show ?thesis using found by (simp add: vfs_unlink_def ok)
  next
    case 2
    then have "tparent x = None" using found tree_root [OF ok'(2)] by auto
    from vfs_unlink_root [OF ok found(1,2,3,4) 2(1) this] show ?thesis using found 2 by simp
  next
    case 3
    obtain p yp where p: "tparent x = Some p" "inodes s p = Some yp" "t \<in> set (child yp)"
      by (rule tree_parent [OF ok'(2) found(2) 3(2)])
    obtain f where f: "ifs y = Some f" using data_fs [OF ok'(5) found(4)] by blast
    have ip: "i \<noteq> p" using p 3 found(4) by auto
    from vfs_unlink_eq [OF found(1-4) 3(1) p(1,2) ip data_for_inode [OF ok'(5) found(4)] f]
      unlinked_ok [OF ok found(2,3) p(1) found(4) 3(1) p(2,3)]
    show ?thesis by blast
  qed
qed simp

section \<open>Linking\<close>

lemma retarget_mount:
  assumes "mount_ok s" and "inodes s a = Some ya" and "inodes s b = Some yb"
    and nomount: "\<And>j z. inodes s j = Some z \<Longrightarrow> mountpoint z \<noteq> Some t"
  shows "mount_ok (retarget t x a ya b yb s)"
proof -
  let ?s = "retarget t x a ya b yb s"
  have ino: "\<exists>z. inodes s j = Some z \<and> mountpoint z' = mountpoint z \<and> ifs z' = ifs z \<and> itype z' = itype z"
    if "inodes ?s j = Some z'" for j z'
    using that assms(2,3) by (auto simp: retarget_def split: if_splits)
  have m: "mount_ok (?s\<lparr>tnodes := (tnodes s)(t := None)\<rparr>)"
    by (rule mount_ok_fewer [OF assms(1)]) (use ino in \<open>auto split: if_splits\<close>)
  show ?thesis
    unfolding mount_ok_def
  proof (intro conjI allI impI)
    fix j z k w assume "inodes ?s j = Some z" "inodes ?s k = Some w" "mountpoint z = mountpoint w"
    then show "ifs z = ifs w" using mount_okD(1) [OF m, of j z k w] by simp
  next
    fix j z m' v k w
    assume a: "inodes ?s j = Some z" "mountpoint z = Some m'" "tnodes ?s m' = Some v" "tinode v = Some k"
      "inodes ?s k = Some w"
    have "m' \<noteq> t" using ino [OF a(1)] a(2) nomount by metis
    then show "itype w = VFS_NODE_MOUNTPOINT"
      using mount_okD(2) [OF m, of j z m' v k w] a by (simp add: retarget_def)
  qed
qed

text \<open>The fresh inode of the new name is freed, its tnode gets the old inode.\<close>

definition linked :: "inode_ref \<Rightarrow> inode_ref \<Rightarrow> inode \<Rightarrow> vfs \<Rightarrow> vfs" where
  "linked i ni oi s =
     (case (inodes s ni, tnodes s (ni + 1)) of
        (Some nz, Some ntx) \<Rightarrow>
          drop_inode ni (released (the (ifs oi)) (nz\<lparr>refcount := 0\<rparr>) (idents s))
            (retarget (ni + 1) ntx ni nz i oi s)
      | _ \<Rightarrow> s)"

lemma vfs_link_eq:
  assumes old: "path_to_node a NO_CREATE VFS_NODE_FILE s = Inr (Some t, s)"
    and x: "tnodes s t = Some x" "tinode x = Some i" and y: "inodes s i = Some y"
    and new: "path_to_node b (CREATE OR ERR_ON_EXIST) (itype y) s = Inr (Some (next_ref s + 1), s1)"
    and add: "adds_node s p yp n (itype y) s1" and oi: "inodes s1 i = Some oi"
    and m: "mountpoint oi = mountpoint yp"
  shows "vfs_link a b s = Inr (0, linked i (next_ref s) oi s1)"
proof -
  note ok = adds_nodeD(1) [OF add] and s1 = adds_nodeD(4) [OF add]
  have "i < next_ref s" "t < next_ref s" using refs_less(1,2) [OF vfs_okD(1) [OF ok]] x(1) y by simp_all
  then have neq: "i \<noteq> next_ref s" "t \<noteq> next_ref s + 1" by simp_all
  define nz where "nz = \<lparr>itype = itype y, isize = 0, perms = 511, uid = 0, refcount = 1, ifs = ifs yp,
    ident = Some (next_ref s + 2), mountpoint = mountpoint yp, child = []\<rparr>"
  define ntx where "ntx = \<lparr>tname = take VFS_MAX_NAME_LEN n, tinode = Some (next_ref s), tparent = Some p\<rparr>"
  have nz: "inodes s1 (next_ref s) = Some nz" and ntx: "tnodes s1 (next_ref s + 1) = Some ntx"
    by (simp_all add: s1 add_node_inodes nz_def ntx_def)
  have t1: "tnodes s1 t = Some x" using neq x by (simp add: s1 add_node_inodes)
  have s1ok: "vfs_ok s1" by (rule add_node_ok [OF add])
  have fs: "ifs nz = ifs oi"
    using mount_okD(1) [OF vfs_okD(6) [OF s1ok] nz oi] m by (simp add: nz_def)
  obtain f where f: "ifs oi = Some f" using data_fs [OF vfs_okD(5) [OF s1ok] oi] by blast
  let ?s = "s1\<lparr>inodes := (inodes s1)(i \<mapsto> oi\<lparr>refcount := refcount oi + 1\<rparr>,
    next_ref s \<mapsto> nz\<lparr>refcount := 0\<rparr>)\<rparr>"
  have "data_for ?s (nz\<lparr>refcount := 0\<rparr>)"
    using data_for_inode [OF vfs_okD(5) [OF s1ok] nz] data_for_same [of ?s s1 "nz\<lparr>refcount := 0\<rparr>" nz] by simp
  then have set_eq: "fs_setlink f (next_ref s + 1) (Some i) ?s
      = Inr (0, ?s\<lparr>idents := released f (nz\<lparr>refcount := 0\<rparr>) (idents s1)\<rparr>)"
    using fs_setlink_eq [of ?s "next_ref s + 1" ntx "next_ref s" "nz\<lparr>refcount := 0\<rparr>" f "Some i"] ntx fs f
    by (simp add: ntx_def)
  have rc: "refcount nz - 1 = 0" by (simp add: nz_def)
  have mp: "mountpoint nz = mountpoint oi" using m by (simp add: nz_def)
  have tn: "tinode ntx = Some (next_ref s)" by (simp add: ntx_def)
  have upd1: "upd_inode (Some (next_ref s)) (\<lambda>x. x\<lparr>refcount := 0\<rparr>)
      (s1\<lparr>inodes := (inodes s1)(i \<mapsto> oi\<lparr>refcount := refcount oi + 1\<rparr>)\<rparr>) = Inr ?s"
    using nz neq by simp
  have ti: "upd_inode (Some i) (\<lambda>x. x\<lparr>refcount := refcount x + 1\<rparr>) s1
      = Inr (s1\<lparr>inodes := (inodes s1)(i \<mapsto> oi\<lparr>refcount := refcount oi + 1\<rparr>)\<rparr>)"
    using oi by simp
  have "vfs_link a b s = Inr (0, free_inode (next_ref s)
      (?s\<lparr>idents := released f (nz\<lparr>refcount := 0\<rparr>) (idents s1),
          tnodes := (tnodes s1)(next_ref s + 1 \<mapsto> ntx\<lparr>tinode := Some i\<rparr>)\<rparr>))"
    using old x y new nz ntx oi mp f
    by (simp add: vfs_link_def tn ti upd1 fs_of_def set_eq del: get_simps(5) fun_upd_apply
        Suc_eq_plus1_left add_Suc_right One_nat_def)
  then show ?thesis
    using nz ntx neq f rc
    by (simp add: linked_def free_inode_def drop_inode_def retarget_def fun_upd_twist [of "next_ref s" i])
qed

lemma linked_ok:
  assumes add: "adds_node s p yp n ty s1" and i: "i < next_ref s" and oi: "inodes s1 i = Some oi"
    and m: "mountpoint oi = mountpoint yp" and few: "unat (refcount oi) + 1 < 2 ^ 32"
  shows "vfs_ok (linked i (next_ref s) oi s1)"
proof -
  note ok = adds_nodeD(1) [OF add] and s1 = adds_nodeD(4) [OF add]
  have s1ok: "vfs_ok s1" by (rule add_node_ok [OF add])
  then have core: "core_ok s1" and mount: "mount_ok s1" by (simp_all add: vfs_ok_core)
  let ?ni = "next_ref s" and ?nt = "next_ref s + 1"
  obtain nz where nz: "inodes s1 ?ni = Some nz" "refcount nz = 1" "child nz = []" "mountpoint nz = mountpoint yp"
    by (simp add: s1 add_node_inodes)
  obtain ntx where ntx: "tnodes s1 ?nt = Some ntx" "tinode ntx = Some ?ni"
    by (simp add: s1 add_node_inodes)
  let ?r = "retarget ?nt ntx ?ni nz i oi s1"
  have neq: "?ni \<noteq> i" using i by simp
  have r: "core_ok ?r" by (rule retarget_core [OF core ntx nz(1) oi neq few])
  have "mountpoint z \<noteq> Some ?nt" if "inodes s1 j = Some z" for j z
  proof
    assume mp: "mountpoint z = Some ?nt"
    have "\<exists>k w. inodes s k = Some w \<and> mountpoint w = Some ?nt"
      by (rule new_inode_cases [OF add that]) (use mp adds_nodeD(2) [OF add] in auto)
    then obtain k w where "inodes s k = Some w" "mountpoint w = Some ?nt" by blast
    then have "?nt < next_ref s" by (rule refs_less(5) [OF vfs_okD(1) [OF ok]])
    then show False by simp
  qed
  then have mo: "mount_ok ?r" by (intro retarget_mount [OF mount nz(1) oi]) blast
  have "links s1 ?ni + opens s1 ?ni = 1"
    using count_eq [OF core_okD(3) [OF core] nz(1)] nz(2) by simp
  moreover have "0 < links s1 ?ni" by (rule linked_pos [OF core_okD(1) [OF core] ntx])
  moreover have "opens ?r = opens s1" by (rule opens_cong) (simp add: retarget_def)
  ultimately have "links ?r ?ni = 0" "opens ?r ?ni = 0"
    using retarget_links [OF core_okD(1) [OF core] ntx neq, of nz oi ?ni] by simp_all
  moreover have "inodes ?r ?ni = Some (nz\<lparr>refcount := refcount nz - 1\<rparr>)"
    using neq by (simp add: retarget_def)
  moreover have "own_ident ?r (nz\<lparr>refcount := refcount nz - 1\<rparr>)
      (released (the (ifs oi)) (nz\<lparr>refcount := 0\<rparr>) (idents s1))"
    using released_own [of s1 "nz\<lparr>refcount := 0\<rparr>"] by (simp add: own_ident_def retarget_def)
  ultimately have "core_ok (drop_inode ?ni (released (the (ifs oi)) (nz\<lparr>refcount := 0\<rparr>) (idents s1)) ?r)"
    using nz(3) by (intro drop_core [OF r]) simp_all
  then show ?thesis using nz ntx drop_mount [OF mo] by (simp add: linked_def vfs_ok_core)
qed

text \<open>A link that reports success leaves a good state.\<close>

lemma vfs_link_ok:
  assumes ok: "vfs_ok s" and few: "few_objects s" and short: "short_path a" "short_path b"
    and run: "vfs_link a b s = Inr (0, s')"
  shows "vfs_ok s'"
  using ok short(1)
proof (cases rule: path_cases [where md = NO_CREATE and ty = VFS_NODE_FILE])
  case nowhere
  then show ?thesis using run by (simp add: vfs_link_def)
next
  case (found t x i y)
  show ?thesis
    using ok short(2)
  proof (cases rule: path_cases [where md = "CREATE OR ERR_ON_EXIST" and ty = "itype y"])
    case nowhere
    then show ?thesis using run found by (simp add: vfs_link_def)
  next
    case (created p yp n)
    let ?s1 = "add_node p yp n (itype y) s"
    obtain oi where oi: "inodes ?s1 i = Some oi" using old_inode [OF created(2) found(4)] by blast
    have i: "i < next_ref s" by (rule refs_less(1) [OF vfs_okD(1) [OF ok] found(4)])
    have rc: "refcount oi = refcount y"
      by (rule new_inode_cases [OF created(2) oi]) (use i found(4) in auto)
    have "unat (refcount y + 1) = unat (refcount y) + 1"
      using refcount_incr [OF ok few found(4)] count_eq [OF vfs_okD(3) [OF ok] found(4)] by simp
    then have lt: "unat (refcount oi) + 1 < 2 ^ 32"
      using unsigned_less [of "refcount y + 1", where ?'a = nat] rc by simp
    show ?thesis
    proof (cases "mountpoint oi = mountpoint yp")
      case True
      note eq = vfs_link_eq [OF found(1-4) created(1,2) oi True]
      show ?thesis using run linked_ok [OF created(2) i oi True lt] eq by simp
    next
      case False
      have "?s1 = ?s1" ..
      then have "\<exists>nz ntx. inodes ?s1 (next_ref s) = Some nz \<and> mountpoint nz = mountpoint yp
          \<and> tnodes ?s1 (next_ref s + 1) = Some ntx \<and> tinode ntx = Some (next_ref s)"
        by (simp add: add_node_inodes)
      then obtain nz ntx where "inodes ?s1 (next_ref s) = Some nz" "mountpoint nz = mountpoint yp"
        "tnodes ?s1 (next_ref s + 1) = Some ntx" "tinode ntx = Some (next_ref s)" by blast
      then show ?thesis
        using run found(1-3) found(4) created(1) oi False
        by (auto simp: vfs_link_def and_then_eq_Inr)
    qed
  qed simp
qed simp

section \<open>Mounting\<close>

definition add_inode :: "inode \<Rightarrow> (ident_ref \<Rightarrow> ident_data option) \<Rightarrow> nat \<Rightarrow> vfs \<Rightarrow> vfs" where
  "add_inode z ids k s =
     s\<lparr>inodes := (inodes s)(next_ref s \<mapsto> z), idents := ids, next_ref := k\<rparr>"

lemma add_inode_core:
  assumes ok: "core_ok s" and z: "child z = []" "refcount z = 0" "data_for (add_inode z ids k s) z"
    and m: "\<And>m. mountpoint z = Some m \<Longrightarrow> m < k" and k: "next_ref s < k"
    and ids: "\<And>r. r < next_ref s \<Longrightarrow> ids r = idents s r" "\<And>r. k \<le> r \<Longrightarrow> ids r = None"
    and own: "\<And>r. ident z = Some r \<Longrightarrow> next_ref s \<le> r"
  shows "core_ok (add_inode z ids k s)"
proof -
  note ok' = core_okD [OF ok]
  let ?s = "add_inode z ids k s"
  have ino: "inodes ?s j = (if j = next_ref s then Some z else inodes s j)" for j by (simp add: add_inode_def)
  have same: "tnodes ?s = tnodes s" "descs ?s = descs s" "vfs_root ?s = vfs_root s"
    "next_ref ?s = k" "idents ?s = ids" "files ?s = files s"
    by (simp_all add: add_inode_def)
  have none: "inodes s (next_ref s) = None" by (rule refs_fresh [OF ok'(1) order_refl])
  have keep: "inodes ?s j = Some w" if "inodes s j = Some w" for j w using that none by (auto simp: ino)
  have idkeep: "ident w \<noteq> Some r" if "inodes s j = Some w" "next_ref s \<le> r" for j w r
    using data_for_inode [OF ok'(5) that(1)] refs_fresh(4) [OF ok'(1) that(2)]
    by (auto simp: data_for_def split: option.splits fs_id.splits)
  have "refs_ok ?s"
    unfolding refs_ok_def same
  proof (intro conjI allI impI)
    fix r assume "k \<le> r"
    then show "inodes ?s r = None" "tnodes s r = None" "descs s r = None" "ids r = None"
      using refs_fresh [OF ok'(1), of r] k ids(2) by (simp_all add: ino)
  next
    fix j w m' assume "inodes ?s j = Some w" "mountpoint w = Some m'"
    then show "m' < k"
      using m [of m'] refs_less(5) [OF ok'(1), of j w m'] k by (cases "j = next_ref s") (simp_all add: ino)
  qed
  moreover have "tree_ok ?s"
    unfolding tree_ok_def same field_name_cong [OF same(1)]
  proof (intro conjI allI impI)
    fix t x assume t: "tnodes s t = Some x"
    then show "\<exists>i y. tinode x = Some i \<and> inodes ?s i = Some y"
      using tree_inode [OF ok'(2) t] keep by metis
  next
    fix j w assume w: "inodes ?s j = Some w"
    show "distinct (map (field_name s) (child w))"
      using w z(1) tree_names [OF ok'(2)] by (auto simp: ino split: if_splits)
    show "\<forall>c\<in>set (child w). \<exists>x. tnodes s c = Some x \<and> tparent x = Some j"
      using w z(1) tree_child [OF ok'(2), of j w] by (auto simp: ino split: if_splits)
  next
    show "\<exists>x. tnodes s (vfs_root s) = Some x \<and> tparent x = None" using tree_root [OF ok'(2)] by metis
  next
    fix t x assume t: "tnodes s t = Some x" "t \<noteq> vfs_root s"
    show "\<exists>p y. tparent x = Some p \<and> inodes ?s p = Some y \<and> t \<in> set (child y)"
      by (rule tree_parent [OF ok'(2) t]) (blast dest: keep)
  qed
  moreover have "links s (next_ref s) = 0" "opens s (next_ref s) = 0"
  proof -
    show "links s (next_ref s) = 0"
      unfolding links_def count_if_0 [OF finite_refs(2) [OF ok'(1)]]
      using none by (auto elim: tree_inode [OF ok'(2)])
    show "opens s (next_ref s) = 0"
      unfolding opens_def count_if_0 [OF finite_refs(3) [OF ok'(1)]]
      using none by (auto dest: desc_okD(1) [OF ok'(4)])
  qed
  then have "count_ok ?s"
    using count_eq [OF ok'(3)] z(2) unfolding count_ok_def names_cong [OF same(1)] opens_cong [OF same(2)]
    by (auto simp: ino)
  moreover have "desc_ok ?s"
    using desc_okD [OF ok'(4)] keep unfolding desc_ok_def slot_of_cong [OF same(6)] same by blast
  moreover have "data_ok ?s"
    unfolding data_ok_def
  proof (intro conjI allI impI)
    fix j w assume w: "inodes ?s j = Some w"
    show "data_for ?s w"
    proof (cases "j = next_ref s")
      case True
      then show ?thesis using w z(3) by (simp add: ino)
    next
      case False
      then have 2: "inodes s j = Some w" using w by (simp add: ino)
      have "ids r = idents s r" if "ident w = Some r" for r
        using idkeep [OF 2, of r] that ids(1) [of r] by (cases "next_ref s \<le> r") simp_all
      then show ?thesis
        using data_for_inode [OF ok'(5) 2] by (auto simp: data_for_def same split: option.splits fs_id.splits)
    qed
  next
    fix j w l v r assume a: "inodes ?s j = Some w" "inodes ?s l = Some v" "ident w = Some r" "ident v = Some r"
    show "j = l"
    proof (cases "j = next_ref s \<or> l = next_ref s")
      case True
      then have "next_ref s \<le> r" using a own [of r] by (auto simp: ino split: if_splits)
      then have "j = next_ref s" "l = next_ref s"
        using a idkeep [of j w r] idkeep [of l v r] by (auto simp: ino split: if_splits)
      then show ?thesis by simp
    next
      case False
      then have "inodes s j = Some w" "inodes s l = Some v" using a(1,2) by (simp_all add: ino)
      then show ?thesis using a(3,4) ok'(5) unfolding data_ok_def by blast
    qed
  qed
  ultimately show ?thesis by (simp add: core_ok_def)
qed

definition mount_inode :: "fs_id \<Rightarrow> tnode_ref \<Rightarrow> vfs \<Rightarrow> inode" where
  "mount_inode f t s =
     \<lparr>itype = VFS_NODE_MOUNTPOINT, isize = 0, perms = 511, uid = 0, refcount = 1, ifs = Some f,
      ident = (case f of RAMFS \<Rightarrow> Some (next_ref s + 1) | TTYFS \<Rightarrow> None), mountpoint = Some t, child = []\<rparr>"

definition mount_idents :: "fs_id \<Rightarrow> vfs \<Rightarrow> ident_ref \<Rightarrow> ident_data option" where
  "mount_idents f s =
     (case f of RAMFS \<Rightarrow> (idents s)(next_ref s + 1 \<mapsto> fresh_data RAMFS (junk s)) | TTYFS \<Rightarrow> idents s)"

definition mount_refs :: "fs_id \<Rightarrow> nat" where
  "mount_refs f = (case f of RAMFS \<Rightarrow> 2 | TTYFS \<Rightarrow> 1)"

definition mounted :: "fs_id \<Rightarrow> tnode_ref \<Rightarrow> tnode \<Rightarrow> inode_ref \<Rightarrow> vfs \<Rightarrow> vfs" where
  "mounted f t x i s =
     s\<lparr>inodes := (inodes s)(i := None, next_ref s \<mapsto> mount_inode f t s),
       tnodes := (tnodes s)(t \<mapsto> x\<lparr>tinode := Some (next_ref s)\<rparr>),
       idents := mount_idents f s, next_ref := next_ref s + mount_refs f\<rparr>"

lemma vfs_mount_eq:
  assumes fs: "vfs_get_fs fsname s = Some f"
    and path: "path_to_node path NO_CREATE VFS_NODE_FILE s = Inr (Some t, s)"
    and x: "tnodes s t = Some x" "tinode x = Some i" and y: "inodes s i = Some y"
  shows "vfs_mount device path fsname s =
    (if itype y \<noteq> VFS_NODE_FOLDER \<or> child y \<noteq> [] then Inr (- 1, s) else Inr (0, mounted f t x i s))"
  using assms
  by (cases f) (simp_all add: vfs_mount_def fs_istemp_def fs_mount_def ramfs_mount_def ttyfs_mount_def
      create_ident_def alloc_ident_def vfs_alloc_inode_def free_inode_def mounted_def mount_inode_def
      mount_idents_def mount_refs_def fresh_data_def)

lemma mounted_ok:
  assumes ok: "vfs_ok s" and x: "tnodes s t = Some x" "tinode x = Some i"
    and y: "inodes s i = Some y" "itype y = VFS_NODE_FOLDER" "child y = []" and one: "refcount y = 1"
  shows "vfs_ok (mounted f t x i s)"
proof -
  have core: "core_ok s" and mount: "mount_ok s" using ok by (simp_all add: vfs_ok_core)
  note ok' = core_okD [OF core]
  let ?n = "next_ref s" and ?k = "next_ref s + mount_refs f"
  define z where "z = (mount_inode f t s)\<lparr>refcount := 0\<rparr>"
  let ?a = "add_inode z (mount_idents f s) ?k s"
  let ?r = "retarget t x i y ?n z ?a"
  have lt: "i < ?n" "t < ?n" using refs_less(1,2) [OF ok'(1)] x y by simp_all
  have neq: "i \<noteq> ?n" using lt by simp
  have data: "data_for ?a z"
    by (cases f) (auto simp: data_for_def z_def mount_inode_def add_inode_def mount_idents_def
        fresh_data_def block_ok_def)
  have a: "core_ok ?a"
  proof (rule add_inode_core [OF core _ _ data])
    show "child z = []" "refcount z = 0" by (simp_all add: z_def mount_inode_def)
    show "m < ?k" if "mountpoint z = Some m" for m using that lt by (simp add: z_def mount_inode_def)
    show "?n < ?k" by (simp add: mount_refs_def split: fs_id.split)
    show "mount_idents f s r = idents s r" if "r < ?n" for r
      using that by (simp add: mount_idents_def split: fs_id.split)
    show "mount_idents f s r = None" if "?k \<le> r" for r
      using that refs_fresh(4) [OF ok'(1), of r] by (cases f) (simp_all add: mount_idents_def mount_refs_def)
    show "?n \<le> r" if "ident z = Some r" for r
      using that by (cases f) (simp_all add: z_def mount_inode_def)
  qed
  have xa: "tnodes ?a t = Some x" and ya: "inodes ?a i = Some y" and za: "inodes ?a ?n = Some z"
    using x y neq by (simp_all add: add_inode_def)
  have r: "core_ok ?r"
    by (rule retarget_core [OF a xa x(2) ya za neq]) (simp add: z_def)
  have "links s i + opens s i = 1" using count_eq [OF ok'(3) y(1)] one by simp
  moreover have "0 < links s i" by (rule linked_pos [OF ok'(1) x])
  moreover have "opens ?r = opens s" by (rule opens_cong) (simp add: retarget_def add_inode_def)
  moreover have "links ?a = links s" by (rule names_cong) (simp add: add_inode_def)
  ultimately have "links ?r i = 0" "opens ?r i = 0"
    using retarget_links [OF core_okD(1) [OF a] xa x(2) neq, of y z i] by simp_all
  moreover have "inodes ?r i = Some (y\<lparr>refcount := refcount y - 1\<rparr>)" using neq by (simp add: retarget_def)
  moreover have "own_ident ?r (y\<lparr>refcount := refcount y - 1\<rparr>) (mount_idents f s)"
    by (simp add: own_ident_def retarget_def add_inode_def)
  ultimately have d: "core_ok (drop_inode i (mount_idents f s) ?r)"
    using y(3) by (intro drop_core [OF r]) simp_all
  have z1: "z\<lparr>refcount := refcount z + 1\<rparr> = mount_inode f t s" by (simp add: z_def mount_inode_def)
  have eq: "drop_inode i (mount_idents f s) ?r = mounted f t x i s"
    using neq z1 by (auto simp: drop_inode_def retarget_def add_inode_def mounted_def fun_eq_iff)
  have old: "mountpoint w \<noteq> Some t" if "inodes s j = Some w" for j w
    using mount_okD(2) [OF mount that _ x y(1)] y(2) by auto
  have ino: "inodes (mounted f t x i s) j = Some w \<Longrightarrow>
      j = ?n \<and> w = mount_inode f t s \<or> j \<noteq> ?n \<and> j \<noteq> i \<and> inodes s j = Some w" for j w
    by (auto simp: mounted_def split: if_splits)
  have "mount_ok (mounted f t x i s)"
    unfolding mount_ok_def
  proof (intro conjI allI impI)
    fix j v k w
    assume b: "inodes (mounted f t x i s) j = Some v" "inodes (mounted f t x i s) k = Some w"
      "mountpoint v = mountpoint w"
    have new: "mountpoint (mount_inode f t s) = Some t" by (simp add: mount_inode_def)
    show "ifs v = ifs w"
      using ino [OF b(1)] ino [OF b(2)] b(3) new old mount_okD(1) [OF mount] by metis
  next
    fix j v m u k w
    assume b: "inodes (mounted f t x i s) j = Some v" "mountpoint v = Some m"
      "tnodes (mounted f t x i s) m = Some u" "tinode u = Some k" "inodes (mounted f t x i s) k = Some w"
    show "itype w = VFS_NODE_MOUNTPOINT"
    proof (cases "m = t")
      case True
      then have "k = ?n" using b(3,4) by (auto simp: mounted_def)
      then show ?thesis using b(5) by (auto simp: mounted_def mount_inode_def)
    next
      case False
      then have u: "tnodes s m = Some u" using b(3) by (simp add: mounted_def)
      have k: "k < ?n" using tree_inode [OF ok'(2) u] b(4) refs_less(1) [OF ok'(1)] by fastforce
      then have w: "inodes s k = Some w" using ino [OF b(5)] by auto
      have v: "inodes s j = Some v" using ino [OF b(1)] b(2) False by (auto simp: mount_inode_def)
      show ?thesis by (rule mount_okD(2) [OF mount v b(2) u b(4) w])
    qed
  qed
  then show ?thesis using d eq by (simp add: vfs_ok_core)
qed

end
