(* ===== verification/VfsExample.thy ===== *)
theory VfsExample
  imports VfsLink
begin

text \<open>
  The state the kernel starts from, the invariant after \<open>vfs_init\<close>, and a small file system that the
  witnesses of the file-system properties use: a ramfs root with the file \<open>/f\<close> (three bytes), a ttyfs
  mounted at \<open>/d\<close> with the terminal \<open>/d/t\<close>, and a task that has \<open>/f\<close>, \<open>/\<close> and \<open>/d/t\<close> open.
\<close>

section \<open>The first state\<close>

definition boot_vfs :: "(nat \<Rightarrow> u8) \<Rightarrow> vfs" where
  "boot_vfs jk =
     \<lparr>inodes = Map.empty, tnodes = [0 \<mapsto> \<lparr>tname = [], tinode = None, tparent = None\<rparr>],
      descs = Map.empty, idents = Map.empty, files = (\<lambda>_. []), vfs_root = 0, fslist = [],
      next_ref = 1, junk = jk\<rparr>"

text \<open>What \<open>vfs_init\<close> makes of it: \<open>ramfs\<close> mounted at the root.\<close>

definition started_vfs :: "(nat \<Rightarrow> u8) \<Rightarrow> vfs" where
  "started_vfs jk =
     \<lparr>inodes = [2 \<mapsto> \<lparr>itype = VFS_NODE_MOUNTPOINT, isize = 0, perms = 511, uid = 0, refcount = 1,
        ifs = Some RAMFS, ident = Some 3, mountpoint = Some 0, child = []\<rparr>],
      tnodes = [0 \<mapsto> \<lparr>tname = [], tinode = Some 2, tparent = None\<rparr>],
      descs = Map.empty, idents = [3 \<mapsto> Ram_Ident \<lparr>ram_alloc = 0, ram_data = None\<rparr>],
      files = (\<lambda>_. []), vfs_root = 0, fslist = [RAMFS], next_ref = 4, junk = jk\<rparr>"

lemma vfs_init_eq: "vfs_init (boot_vfs jk) = Inr (started_vfs jk)"
  by (simp add: vfs_init_def boot_vfs_def started_vfs_def vfs_alloc_inode_def vfs_register_fs_def
      vfs_mount_def vfs_get_fs_def fs_name_def fs_istemp_def path_to_node_def path_walk_end fs_mount_def
      ramfs_mount_def create_ident_def alloc_ident_def free_inode_def fun_upd_twist numeral_eq_Suc)

section \<open>Counting in finite tables\<close>

lemma count_if_map_of:
  assumes "distinct (map fst xs)"
  shows "count_if (map_of xs) P = length (filter (\<lambda>(k, x). P x) xs)"
proof -
  have "{k. \<exists>x. map_of xs k = Some x \<and> P x} = set (map fst (filter (\<lambda>(k, x). P x) xs))"
    using assms by (auto simp: map_of_eq_Some_iff image_iff)
  moreover have "distinct (map fst (filter (\<lambda>(k, x). P x) xs))"
    using assms by (rule distinct_map_filter)
  ultimately show ?thesis unfolding count_if_def using distinct_card length_map by metis
qed

lemma all_map_of:
  assumes "distinct (map fst xs)"
  shows "(\<forall>k x. map_of xs k = Some x \<longrightarrow> Q k x) \<longleftrightarrow> list_all (\<lambda>(k, x). Q k x) xs"
  using assms by (auto simp: list_all_iff map_of_eq_Some_iff)

lemma map_of_Some_set: "map_of xs k = Some x \<Longrightarrow> (k, x) \<in> set xs"
  by (rule map_of_SomeD)

text \<open>The invariant for a state whose tables are finite lists, as conditions on the lists.\<close>

definition finite_vfs ::
  "(nat \<times> inode) list \<Rightarrow> (nat \<times> tnode) list \<Rightarrow> (nat \<times> node_desc) list \<Rightarrow> (nat \<times> ident_data) list \<Rightarrow> vfs \<Rightarrow> bool" where
  "finite_vfs is ts ds xs s \<longleftrightarrow>
     inodes s = map_of is \<and> tnodes s = map_of ts \<and> descs s = map_of ds \<and> idents s = map_of xs
     \<and> distinct (map fst is) \<and> distinct (map fst ts) \<and> distinct (map fst ds) \<and> distinct (map fst xs)
     \<and> (\<forall>k\<in>set (map fst is @ map fst ts @ map fst ds @ map fst xs). k < next_ref s)"

lemma map_of_beyond: "\<forall>x\<in>set zs. fst x < n \<Longrightarrow> (n :: nat) \<le> k \<Longrightarrow> map_of zs k = None"
  by (force simp: map_of_eq_None_iff)

lemma finite_refs_ok:
  assumes "finite_vfs is ts ds xs s" and "\<forall>(k, y)\<in>set is. \<forall>m. mountpoint y = Some m \<longrightarrow> m < next_ref s"
  shows "refs_ok s"
proof -
  show ?thesis
    unfolding refs_ok_def
  proof (intro conjI allI impI)
    fix k assume "next_ref s \<le> k"
    then show "inodes s k = None" "tnodes s k = None" "descs s k = None" "idents s k = None"
      using assms(1) by (simp_all add: finite_vfs_def map_of_beyond [of _ "next_ref s" k])
  next
    fix i y m assume "inodes s i = Some y" "mountpoint y = Some m"
    moreover have "inodes s = map_of is" using assms(1) unfolding finite_vfs_def by blast
    ultimately show "m < next_ref s" using assms(2) map_of_Some_set [of "is" i y] by fastforce
  qed
qed

lemma finite_count_ok:
  assumes "finite_vfs is ts ds xs s"
    and "\<forall>(k, y)\<in>set is. unat (refcount y) = length (filter (\<lambda>(j, x). tinode x = Some k) ts)
      + length (filter (\<lambda>(j, d). nd_inode d = k) ds)"
  shows "count_ok s"
  using assms unfolding finite_vfs_def count_ok_def links_def opens_def
  by (auto simp: count_if_map_of dest!: map_of_Some_set)

section \<open>The example\<close>

definition ex_inodes :: "(nat \<times> inode) list" where
  "ex_inodes =
     [(1, \<lparr>itype = VFS_NODE_MOUNTPOINT, isize = 0, perms = 511, uid = 0, refcount = 2, ifs = Some RAMFS,
           ident = Some 2, mountpoint = Some 0, child = [10, 20]\<rparr>),
      (11, \<lparr>itype = VFS_NODE_MOUNTPOINT, isize = 0, perms = 511, uid = 0, refcount = 1, ifs = Some TTYFS,
           ident = None, mountpoint = Some 10, child = [12]\<rparr>),
      (13, \<lparr>itype = VFS_NODE_CHAR_DEVICE, isize = 0, perms = 511, uid = 0, refcount = 2, ifs = Some TTYFS,
           ident = Some 14, mountpoint = Some 10, child = []\<rparr>),
      (21, \<lparr>itype = VFS_NODE_FILE, isize = 3, perms = 511, uid = 0, refcount = 2, ifs = Some RAMFS,
           ident = Some 22, mountpoint = Some 0, child = []\<rparr>)]"

definition ex_tnodes :: "(nat \<times> tnode) list" where
  "ex_tnodes =
     [(0, \<lparr>tname = [], tinode = Some 1, tparent = None\<rparr>),
      (10, \<lparr>tname = [100], tinode = Some 11, tparent = Some 1\<rparr>),
      (12, \<lparr>tname = [116], tinode = Some 13, tparent = Some 11\<rparr>),
      (20, \<lparr>tname = [102], tinode = Some 21, tparent = Some 1\<rparr>)]"

definition ex_descs :: "(nat \<times> node_desc) list" where
  "ex_descs =
     [(30, \<lparr>nd_tnode = 20, nd_inode = 21, nd_mode = VFS_MODE_READWRITE, seek_pos = 1\<rparr>),
      (31, \<lparr>nd_tnode = 0, nd_inode = 1, nd_mode = VFS_MODE_READ, seek_pos = 0\<rparr>),
      (32, \<lparr>nd_tnode = 12, nd_inode = 13, nd_mode = VFS_MODE_READWRITE, seek_pos = 0\<rparr>)]"

definition ex_idents :: "(nat \<times> ident_data) list" where
  "ex_idents =
     [(2, Ram_Ident \<lparr>ram_alloc = 0, ram_data = None\<rparr>),
      (14, Tty_Ident \<lparr>buff_in = replicate 16 0, buff_out = replicate 16 0, in_start = 0, in_size = 0,
             out_start = 0, out_size = 0\<rparr>),
      (22, Ram_Ident \<lparr>ram_alloc = 3, ram_data = Some [7, 8, 9]\<rparr>)]"

definition example_vfs :: vfs where
  "example_vfs =
     \<lparr>inodes = map_of ex_inodes, tnodes = map_of ex_tnodes, descs = map_of ex_descs,
      idents = map_of ex_idents, files = (\<lambda>c. if c = 0 then [Some 30, Some 31, Some 32] else []),
      vfs_root = 0, fslist = [RAMFS, TTYFS], next_ref = 40, junk = (\<lambda>_. 0)\<rparr>"

lemmas ex_defs = example_vfs_def ex_inodes_def ex_tnodes_def ex_descs_def ex_idents_def

lemma ex_finite: "finite_vfs ex_inodes ex_tnodes ex_descs ex_idents example_vfs"
  by (simp add: finite_vfs_def ex_defs)

lemma ex_inodeD: "inodes example_vfs i = Some y \<Longrightarrow> (i, y) \<in> set ex_inodes"
  and ex_tnodeD: "tnodes example_vfs t = Some x \<Longrightarrow> (t, x) \<in> set ex_tnodes"
  and ex_descD: "descs example_vfs d = Some z \<Longrightarrow> (d, z) \<in> set ex_descs"
  by (simp_all add: example_vfs_def map_of_Some_set)

lemma ex_refs: "refs_ok example_vfs"
  by (rule finite_refs_ok [OF ex_finite]) (simp add: ex_defs)

lemma ex_count: "count_ok example_vfs"
  by (rule finite_count_ok [OF ex_finite]) (simp add: ex_defs)

lemma ex_tree: "tree_ok example_vfs"
  unfolding tree_ok_def
proof (intro conjI allI impI)
  fix t x assume "tnodes example_vfs t = Some x"
  from ex_tnodeD [OF this]
  have "tinode x \<noteq> None \<and> inodes example_vfs (the (tinode x)) \<noteq> None" by (auto simp: ex_defs)
  then show "\<exists>i y. tinode x = Some i \<and> inodes example_vfs i = Some y" by auto
next
  fix i y assume "inodes example_vfs i = Some y"
  note * = ex_inodeD [OF this]
  from * show "distinct (map (field_name example_vfs) (child y))"
    by (auto simp: ex_defs field_name_def)
  from * show "\<forall>c\<in>set (child y). \<exists>x. tnodes example_vfs c = Some x \<and> tparent x = Some i"
    by (auto simp: ex_defs)
next
  show "\<exists>x. tnodes example_vfs (vfs_root example_vfs) = Some x \<and> tparent x = None" by (simp add: ex_defs)
next
  fix t x assume "tnodes example_vfs t = Some x" "t \<noteq> vfs_root example_vfs"
  with ex_tnodeD [OF this(1)]
  have "tparent x \<noteq> None \<and> inodes example_vfs (the (tparent x)) \<noteq> None
    \<and> t \<in> set (child (the (inodes example_vfs (the (tparent x)))))"
    by (auto simp: ex_defs)
  then show "\<exists>p y. tparent x = Some p \<and> inodes example_vfs p = Some y \<and> t \<in> set (child y)" by auto
qed

lemma ex_slot: "slot_of example_vfs c h =
    (if c = 0 \<and> h = 0 then Some 30 else if c = 0 \<and> h = 1 then Some 31 else if c = 0 \<and> h = 2 then Some 32 else None)"
  by (auto simp: slot_of_def example_vfs_def nth_Cons' less_Suc_eq numeral_3_eq_3)

lemma ex_desc: "desc_ok example_vfs"
  unfolding desc_ok_def
proof (intro conjI allI impI)
  fix d x assume "descs example_vfs d = Some x"
  from ex_descD [OF this] show "\<exists>y. inodes example_vfs (nd_inode x) = Some y" by (auto simp: ex_defs)
next
  fix c h d assume "slot_of example_vfs c h = Some d"
  then have "d = 30 \<or> d = 31 \<or> d = 32" by (auto simp: ex_slot split: if_splits)
  then show "\<exists>x. descs example_vfs d = Some x" by (auto simp: ex_defs)
next
  fix c h c' h' d assume "slot_of example_vfs c h = Some d" "slot_of example_vfs c' h' = Some d"
  then show "c = c'" "h = h'" by (auto simp: ex_slot split: if_splits)
qed

lemma ex_data: "data_ok example_vfs"
  unfolding data_ok_def
proof (intro conjI allI impI)
  fix i y assume "inodes example_vfs i = Some y"
  from ex_inodeD [OF this] show "data_for example_vfs y"
    by (auto simp: ex_defs data_for_def block_ok_def tty_ok_def)
next
  fix i y j z r assume "inodes example_vfs i = Some y" "inodes example_vfs j = Some z"
    "ident y = Some r" "ident z = Some r"
  with ex_inodeD [OF this(1)] ex_inodeD [OF this(2)] show "i = j" by (auto simp: ex_inodes_def)
qed

lemma ex_mount: "mount_ok example_vfs"
  unfolding mount_ok_def
proof (intro conjI allI impI)
  fix i y j z assume "inodes example_vfs i = Some y" "inodes example_vfs j = Some z"
    "mountpoint y = mountpoint z"
  with ex_inodeD [OF this(1)] ex_inodeD [OF this(2)] show "ifs y = ifs z" by (auto simp: ex_inodes_def)
next
  fix i y m x k z assume a: "inodes example_vfs i = Some y" "mountpoint y = Some m"
    "tnodes example_vfs m = Some x" "tinode x = Some k" "inodes example_vfs k = Some z"
  have "m = 0 \<or> m = 10" using ex_inodeD [OF a(1)] a(2) by (auto simp: ex_inodes_def)
  then show "itype z = VFS_NODE_MOUNTPOINT" using a(3-5) by (auto simp: ex_defs)
qed

lemma example_vfs_ok: "vfs_ok example_vfs"
  by (simp add: vfs_ok_def ex_refs ex_tree ex_count ex_desc ex_data ex_mount)

lemma started_vfs_ok: "vfs_ok (started_vfs jk)"
proof -
  have 1: "inodes (started_vfs jk) i = Some y \<Longrightarrow> i = 2 \<and> itype y = VFS_NODE_MOUNTPOINT \<and> isize y = 0
      \<and> refcount y = 1 \<and> ifs y = Some RAMFS \<and> ident y = Some 3 \<and> mountpoint y = Some 0 \<and> child y = []" for i y
    by (auto simp: started_vfs_def split: if_splits)
  have 2: "tnodes (started_vfs jk) t = Some x \<Longrightarrow> t = 0 \<and> tinode x = Some 2 \<and> tparent x = None" for t x
    by (auto simp: started_vfs_def split: if_splits)
  have links: "links (started_vfs jk) 2 = 1"
    using count_if_map_of [of "[(0, \<lparr>tname = [], tinode = Some 2, tparent = None\<rparr>)]" "\<lambda>x. tinode x = Some 2"]
    by (simp add: links_def started_vfs_def)
  have opens: "opens (started_vfs jk) 2 = 0" by (simp add: opens_def count_if_def started_vfs_def)
  have ino: "\<exists>y. inodes (started_vfs jk) 2 = Some y" by (simp add: started_vfs_def)
  have id: "idents (started_vfs jk) 3 = Some (Ram_Ident \<lparr>ram_alloc = 0, ram_data = None\<rparr>)"
    by (simp add: started_vfs_def)
  have "refs_ok (started_vfs jk)" by (auto simp: refs_ok_def started_vfs_def split: if_splits)
  moreover have "tree_ok (started_vfs jk)"
    unfolding tree_ok_def
  proof (intro conjI allI impI)
    fix t x assume "tnodes (started_vfs jk) t = Some x"
    then show "\<exists>i y. tinode x = Some i \<and> inodes (started_vfs jk) i = Some y" using 2 ino by blast
  next
    fix i y assume "inodes (started_vfs jk) i = Some y"
    then show "distinct (map (field_name (started_vfs jk)) (child y))"
      "\<forall>c\<in>set (child y). \<exists>x. tnodes (started_vfs jk) c = Some x \<and> tparent x = Some i"
      using 1 [of i y] by simp_all
  next
    show "\<exists>x. tnodes (started_vfs jk) (vfs_root (started_vfs jk)) = Some x \<and> tparent x = None"
      by (simp add: started_vfs_def)
  next
    fix t x assume t: "tnodes (started_vfs jk) t = Some x" "t \<noteq> vfs_root (started_vfs jk)"
    have "vfs_root (started_vfs jk) = 0" by (simp add: started_vfs_def)
    then show "\<exists>p y. tparent x = Some p \<and> inodes (started_vfs jk) p = Some y \<and> t \<in> set (child y)"
      using 2 [OF t(1)] t(2) by (simp only: simp_thms)
  qed
  moreover have "count_ok (started_vfs jk)"
    unfolding count_ok_def
  proof (intro allI impI)
    fix i y assume "inodes (started_vfs jk) i = Some y"
    then show "unat (refcount y) = links (started_vfs jk) i + opens (started_vfs jk) i"
      using 1 [of i y] links opens by simp
  qed
  moreover have "desc_ok (started_vfs jk)" by (simp add: desc_ok_def slot_of_def started_vfs_def)
  moreover have "data_ok (started_vfs jk)"
    unfolding data_ok_def
  proof (intro conjI allI impI)
    fix i y assume "inodes (started_vfs jk) i = Some y"
    then show "data_for (started_vfs jk) y" using 1 [of i y] id by (simp add: data_for_def block_ok_def)
  next
    fix i y j z r assume "inodes (started_vfs jk) i = Some y" "inodes (started_vfs jk) j = Some z"
    then show "i = j" using 1 [of i y] 1 [of j z] by simp
  qed
  moreover have "mount_ok (started_vfs jk)"
    unfolding mount_ok_def
  proof (intro conjI allI impI)
    fix i y j z assume "inodes (started_vfs jk) i = Some y" "inodes (started_vfs jk) j = Some z"
    then show "ifs y = ifs z" using 1 [of i y] 1 [of j z] by simp
  next
    fix i y m x k z assume "inodes (started_vfs jk) k = Some z"
    then show "itype z = VFS_NODE_MOUNTPOINT" using 1 [of k z] by simp
  qed
  ultimately show ?thesis by (simp add: vfs_ok_def)
qed

end
