(* ===== verification/VfsHistory.thy ===== *)
theory VfsHistory
  imports VfsExample
begin

text \<open>
  Histories of the virtual file system: any sequence of its operations, with any arguments, from
  \<open>vfs_init\<close> on. No operation is left out; the calls that the code does not handle are recorded as
  hazards. A history without hazards keeps the invariant, and in it an operation returns unless it
  unlinks the root or reads or writes where a node has no data. Two lemmas show that the hazards are
  real: a mount over an open folder and a link across mounts leave pointers to freed nodes.
\<close>

section \<open>Operations\<close>

datatype vfs_op =
    Op_Open nat "u8 list" openmode
  | Op_Close nat int
  | Op_Read nat int u64
  | Op_Write nat int "u8 list"
  | Op_Seek nat int u64
  | Op_Chmod nat int u32
  | Op_Getdent nat int
  | Op_Create "u8 list" node_type
  | Op_Link "u8 list" "u8 list"
  | Op_Unlink "u8 list"
  | Op_Register fs_id
  | Op_Mount "u8 list" "u8 list" "u8 list"

text \<open>The state after an operation, whatever it returns, or the fault it runs into.\<close>

primrec vfs_do :: "vfs_op \<Rightarrow> vfs \<Rightarrow> vfs result" where
  "vfs_do (Op_Open cur path md) s = and_then (vfs_open cur path md s) (\<lambda>(_, s). Inr s)"
| "vfs_do (Op_Close cur h) s = and_then (vfs_close cur h s) (\<lambda>(_, s). Inr s)"
| "vfs_do (Op_Read cur h n) s = and_then (vfs_read cur h n s) (\<lambda>(_, _, s). Inr s)"
| "vfs_do (Op_Write cur h bs) s = and_then (vfs_write cur h bs s) (\<lambda>(_, s). Inr s)"
| "vfs_do (Op_Seek cur h pos) s = and_then (vfs_seek cur h pos s) (\<lambda>(_, s). Inr s)"
| "vfs_do (Op_Chmod cur h p) s = and_then (vfs_chmod cur h p s) (\<lambda>(_, s). Inr s)"
| "vfs_do (Op_Getdent cur h) s = and_then (vfs_getdent cur h s) (\<lambda>(_, _, s). Inr s)"
| "vfs_do (Op_Create path ty) s = and_then (vfs_create path ty s) (\<lambda>(_, s). Inr s)"
| "vfs_do (Op_Link a b) s = and_then (vfs_link a b s) (\<lambda>(_, s). Inr s)"
| "vfs_do (Op_Unlink path) s = and_then (vfs_unlink path s) (\<lambda>(_, s). Inr s)"
| "vfs_do (Op_Register f) s = Inr (vfs_register_fs f s)"
| "vfs_do (Op_Mount device path fsname) s = and_then (vfs_mount device path fsname s) (\<lambda>(_, s). Inr s)"

section \<open>Hazards\<close>

text \<open>
  A path component longer than the static buffer of \<open>path_to_node\<close>; \<open>2 ^ 31\<close> objects (handles and
  reference counts have 32 bits); a buffer of \<open>2 ^ 64\<close> bytes (which no caller has); a link whose new name
  lies in another mount than the old one (\<open>link.c:26\<close>); a mount over an empty folder that has
  another name or is open (\<open>misc.c:69\<close>).
\<close>

datatype vfs_hazard = Long_Component | Too_Many_Objects | Endless_Buffer | Link_Across_Mounts | Mount_Over_Shared

primrec op_paths :: "vfs_op \<Rightarrow> u8 list list" where
  "op_paths (Op_Open cur path md) = [path]"
| "op_paths (Op_Close cur h) = []"
| "op_paths (Op_Read cur h n) = []"
| "op_paths (Op_Write cur h bs) = []"
| "op_paths (Op_Seek cur h pos) = []"
| "op_paths (Op_Chmod cur h p) = []"
| "op_paths (Op_Getdent cur h) = []"
| "op_paths (Op_Create path ty) = [path]"
| "op_paths (Op_Link a b) = [a, b]"
| "op_paths (Op_Unlink path) = [path]"
| "op_paths (Op_Register f) = []"
| "op_paths (Op_Mount device path fsname) = [path]"

text \<open>The nodes of a link once the new one is created, and the folder a mount would replace.\<close>

definition crosses_mounts :: "u8 list \<Rightarrow> u8 list \<Rightarrow> vfs \<Rightarrow> bool" where
  "crosses_mounts a b s =
     (case path_to_node a NO_CREATE VFS_NODE_FILE s of
        Inr (Some t, _) \<Rightarrow>
          (case inode_of s t of
             Some y \<Rightarrow>
               (case path_to_node b (CREATE OR ERR_ON_EXIST) (itype y) s of
                  Inr (Some c, s') \<Rightarrow> map_option mountpoint (inode_of s' c) \<noteq> map_option mountpoint (inode_of s' t)
                | _ \<Rightarrow> False)
           | None \<Rightarrow> False)
      | _ \<Rightarrow> False)"

definition mounts_over_shared :: "u8 list \<Rightarrow> u8 list \<Rightarrow> vfs \<Rightarrow> bool" where
  "mounts_over_shared path fsname s =
     (vfs_get_fs fsname s \<noteq> None \<and>
      (case path_to_node path NO_CREATE VFS_NODE_FILE s of
         Inr (Some t, _) \<Rightarrow>
           (case inode_of s t of
              Some y \<Rightarrow> itype y = VFS_NODE_FOLDER \<and> child y = [] \<and> refcount y \<noteq> 1
            | None \<Rightarrow> False)
       | _ \<Rightarrow> False))"

primrec vfs_occurs :: "vfs_hazard \<Rightarrow> vfs_op \<Rightarrow> vfs \<Rightarrow> bool" where
  "vfs_occurs Long_Component e s \<longleftrightarrow> \<not> list_all short_path (op_paths e)"
| "vfs_occurs Too_Many_Objects e s \<longleftrightarrow> \<not> few_objects s"
| "vfs_occurs Endless_Buffer e s \<longleftrightarrow> (case e of Op_Write cur h bs \<Rightarrow> 2 ^ 64 \<le> length bs | _ \<Rightarrow> False)"
| "vfs_occurs Link_Across_Mounts e s \<longleftrightarrow> (case e of Op_Link a b \<Rightarrow> crosses_mounts a b s | _ \<Rightarrow> False)"
| "vfs_occurs Mount_Over_Shared e s \<longleftrightarrow>
     (case e of Op_Mount device path fsname \<Rightarrow> mounts_over_shared path fsname s | _ \<Rightarrow> False)"

definition vfs_hazards :: "vfs_op \<Rightarrow> vfs \<Rightarrow> vfs_hazard set" where
  "vfs_hazards e s =
     set (filter (\<lambda>h. vfs_occurs h e s)
       [Long_Component, Too_Many_Objects, Endless_Buffer, Link_Across_Mounts, Mount_Over_Shared])"

lemma vfs_hazards_iff: "h \<in> vfs_hazards e s \<longleftrightarrow> vfs_occurs h e s"
  by (cases h) (auto simp: vfs_hazards_def)

text \<open>\<open>vfs_history H s\<close>: some sequence of operations leads from \<open>vfs_init\<close> to \<open>s\<close>, and \<open>H\<close> are the hazards
  that occurred on the way.\<close>

inductive vfs_history :: "vfs_hazard set \<Rightarrow> vfs \<Rightarrow> bool" where
  vfs_start: "vfs_init (boot_vfs jk) = Inr s \<Longrightarrow> vfs_history {} s"
| vfs_next: "vfs_history H s \<Longrightarrow> vfs_do e s = Inr s' \<Longrightarrow> vfs_history (H \<union> vfs_hazards e s) s'"

lemma no_hazardD:
  assumes "vfs_hazards e s = {}"
  shows "\<And>p. p \<in> set (op_paths e) \<Longrightarrow> short_path p" and "few_objects s"
    and "\<And>cur h bs. e = Op_Write cur h bs \<Longrightarrow> length bs < 2 ^ 64"
    and "\<And>a b. e = Op_Link a b \<Longrightarrow> \<not> crosses_mounts a b s"
    and "\<And>d p f. e = Op_Mount d p f \<Longrightarrow> \<not> mounts_over_shared p f s"
proof -
  have none: "\<not> vfs_occurs h e s" for h using assms by (auto simp: vfs_hazards_iff [symmetric])
  show "short_path p" if "p \<in> set (op_paths e)" for p
    using none [of Long_Component] that by (simp add: list_all_iff)
  show "few_objects s" using none [of Too_Many_Objects] by simp
  show "length bs < 2 ^ 64" if "e = Op_Write cur h bs" for cur h bs
    using none [of Endless_Buffer] that by simp
  show "\<not> crosses_mounts a b s" if "e = Op_Link a b" for a b
    using none [of Link_Across_Mounts] that by simp
  show "\<not> mounts_over_shared p f s" if "e = Op_Mount d p f" for d p f
    using none [of Mount_Over_Shared] that by simp
qed

section \<open>Reading and writing where there is no data\<close>

text \<open>The length a read is cut to.\<close>

definition cut_len :: "inode \<Rightarrow> u64 \<Rightarrow> u64 \<Rightarrow> u64" where
  "cut_len y pos n = (if pos + n > isize y \<and> has_size y then isize y - pos else n)"

definition cut_off :: "inode \<Rightarrow> u64 \<Rightarrow> u64 \<Rightarrow> bool" where
  "cut_off y pos n \<longleftrightarrow> pos + n > isize y \<and> has_size y \<and> isize y = pos"

lemma vfs_read_eq:
  assumes "handle_to_fd cur h s = Some d" and "descs s d = Some x" and "inodes s (nd_inode x) = Some y"
    and "ifs y = Some f"
  shows "vfs_read cur h n s =
    (if cut_off y (seek_pos x) n then Inr (0, [], s)
     else and_then (fs_read f (nd_inode x) (seek_pos x) (cut_len y (seek_pos x) n) s) (\<lambda>(got, bs, s).
          and_then (upd_desc d (\<lambda>d. d\<lparr>seek_pos := seek_pos d + got\<rparr>) s)
            (\<lambda>s. Inr (cut_len y (seek_pos x) n, bs, s))))"
proof -
  have "fs_of y = Inr f" using assms(4) by (simp add: fs_of_def)
  then show ?thesis
    using assms(1-3)
    by (cases "seek_pos x + n > isize y \<and> has_size y")
      (auto simp: vfs_read_def Let_def cut_off_def cut_len_def)
qed

text \<open>The descriptor and the inode of an open handle.\<close>

definition open_node :: "nat \<Rightarrow> int \<Rightarrow> vfs \<Rightarrow> (node_desc \<times> inode) option" where
  "open_node cur h s =
     (case handle_to_fd cur h s of
        None \<Rightarrow> None
      | Some d \<Rightarrow>
          (case descs s d of
             None \<Rightarrow> None
           | Some x \<Rightarrow> (case inodes s (nd_inode x) of None \<Rightarrow> None | Some y \<Rightarrow> Some (x, y))))"

text \<open>The directories and devices of ramfs have no block, the root of a ttyfs has no buffers.\<close>

definition no_contents :: "inode \<Rightarrow> bool" where
  "no_contents y \<longleftrightarrow>
     (case ifs y of
        None \<Rightarrow> True
      | Some RAMFS \<Rightarrow> \<not> has_size y
      | Some TTYFS \<Rightarrow> itype y = VFS_NODE_MOUNTPOINT)"

text \<open>
  Where an operation may fault: the removal of the root, and a read or write of a node without
  contents, of bytes whose end leaves 64 bits, or (a read) from behind the end of a ramfs file.
\<close>

definition may_fault :: "vfs_op \<Rightarrow> vfs \<Rightarrow> bool" where
  "may_fault e s \<longleftrightarrow>
     (case e of
        Op_Unlink path \<Rightarrow> path_to_node path NO_CREATE VFS_NODE_FILE s = Inr (Some (vfs_root s), s)
      | Op_Read cur h n \<Rightarrow>
          (case open_node cur h s of
             None \<Rightarrow> False
           | Some (x, y) \<Rightarrow> no_contents y \<or> ifs y = Some RAMFS
               \<and> (isize y < seek_pos x \<or> 2 ^ 64 \<le> unat (seek_pos x) + unat n))
      | Op_Write cur h bs \<Rightarrow>
          (case open_node cur h s of
             None \<Rightarrow> False
           | Some (x, y) \<Rightarrow> no_contents y \<or> ifs y = Some RAMFS \<and> 2 ^ 64 \<le> unat (seek_pos x) + length bs)
      | _ \<Rightarrow> False)"

abbreviation null_or_bounds :: "'a result \<Rightarrow> bool" where
  "null_or_bounds r \<equiv> r = Inl Null_Deref \<or> r = Inl Out_Of_Bounds"

lemma block_range_cases: "(\<exists>bs. block_range d off n = Inr bs) \<or> null_or_bounds (block_range d off n)"
  by (auto simp: block_range_def split: option.split)

lemma block_range_inside:
  assumes "block_ok y x" and "unat off + unat n \<le> unat (isize y)"
  shows "\<exists>bs. block_range (ram_data x) off n = Inr bs"
proof (cases "ram_data x")
  case None
  then have "unat n = 0" using assms by (auto simp: block_ok_def word_le_nat_alt)
  then show ?thesis by (simp add: block_range_def unat_eq_0)
next
  case (Some bs)
  then have "unat (isize y) \<le> length bs" using assms(1) by (simp add: block_ok_def word_le_nat_alt)
  then show ?thesis using Some assms(2) by (simp add: block_range_def)
qed

lemma get_tty_cases:
  assumes "data_for s y" and "ifs y = Some TTYFS"
  shows "(\<exists>r x. get_tty y s = Inr (r, x)) \<or> itype y = VFS_NODE_MOUNTPOINT \<and> get_tty y s = Inl Null_Deref"
  using assms by (auto simp: data_for_def get_tty_def)

lemma fs_read_cases:
  assumes ok: "vfs_ok s" and y: "inodes s i = Some y" and f: "ifs y = Some f"
  shows "(\<exists>k bs s'. fs_read f i off n s = Inr (k, bs, s'))
    \<or> null_or_bounds (fs_read f i off n s)
      \<and> (f = RAMFS \<and> unat (isize y) < unat off + unat n \<or> f = TTYFS \<and> no_contents y)"
proof -
  have d: "data_for s y" by (rule data_for_inode [OF vfs_okD(5) [OF ok] y])
  show ?thesis
  proof (cases f)
    case RAMFS
    then obtain r x where x: "block_ok y x" "get_ram y s = Inr (r, x)" using f ram_ident [OF d] by metis
    then show ?thesis
      using RAMFS y block_range_cases [of "ram_data x" off n] block_range_inside [OF x(1), of off n]
      by (force simp: fs_read_def ramfs_read_def)
  next
    case TTYFS
    then show ?thesis
      using y f get_tty_cases [OF d] by (auto simp: fs_read_def ttyfs_read_def no_contents_def Let_def)
  qed
qed

lemma fs_write_cases:
  assumes ok: "vfs_ok s" and y: "inodes s i = Some y" and f: "ifs y = Some f"
  shows "(\<exists>k s'. fs_write f i off new s = Inr (k, s'))
    \<or> null_or_bounds (fs_write f i off new s)
      \<and> (f = RAMFS \<and> unat (isize y) < unat off + unat (of_nat (length new) :: u64) \<or> f = TTYFS \<and> no_contents y)"
proof -
  have d: "data_for s y" by (rule data_for_inode [OF vfs_okD(5) [OF ok] y])
  show ?thesis
  proof (cases f)
    case RAMFS
    then obtain r x where x: "block_ok y x" "get_ram y s = Inr (r, x)" using f ram_ident [OF d] by metis
    then show ?thesis
      using RAMFS y block_range_cases [of "ram_data x" off "of_nat (length new)"]
        block_range_inside [OF x(1), of off "of_nat (length new)"]
      by (force simp: fs_write_def ramfs_write_def)
  next
    case TTYFS
    then show ?thesis
      using y f get_tty_cases [OF d] by (auto simp: fs_write_def ttyfs_write_def no_contents_def)
  qed
qed

lemma cut_len_inside:
  assumes "has_size y" and "seek_pos x \<le> isize y" and "unat (seek_pos x) + unat n < 2 ^ 64"
  shows "unat (seek_pos x) + unat (cut_len y (seek_pos x) n) \<le> unat (isize y)"
proof (cases "seek_pos x + n > isize y")
  case True
  then show ?thesis using assms by (simp add: cut_len_def unat_sub word_le_nat_alt)
next
  case False
  have "unat (seek_pos x + n) = unat (seek_pos x) + unat n" using assms(3) by (subst unat_add_lt [symmetric]) simp_all
  moreover have "unat (seek_pos x + n) \<le> unat (isize y)" using False by (simp add: not_less word_le_nat_alt)
  moreover have "cut_len y (seek_pos x) n = n" using False by (simp add: cut_len_def)
  ultimately show ?thesis by simp
qed

lemma open_node_parts:
  assumes "handle_to_fd cur h s = Some d" and "descs s d = Some x" and "inodes s (nd_inode x) = Some y"
  shows "open_node cur h s = Some (x, y)"
  using assms by (simp add: open_node_def)

lemma vfs_read_cases:
  assumes ok: "vfs_ok s"
  shows "(\<exists>k bs s'. vfs_read cur h n s = Inr (k, bs, s'))
    \<or> may_fault (Op_Read cur h n) s \<and> null_or_bounds (vfs_read cur h n s)"
proof (cases "handle_to_fd cur h s")
  case None
  then show ?thesis by (simp add: vfs_read_def)
next
  case (Some d)
  obtain x y f where x: "descs s d = Some x" "inodes s (nd_inode x) = Some y" "ifs y = Some f"
    by (rule handle_parts [OF ok Some])
  note eq = vfs_read_eq [OF Some x, of n] and node = open_node_parts [OF Some x(1,2)]
  let ?n = "cut_len y (seek_pos x) n"
  consider k bs s1 where "fs_read f (nd_inode x) (seek_pos x) ?n s = Inr (k, bs, s1)"
    | "null_or_bounds (fs_read f (nd_inode x) (seek_pos x) ?n s)"
      "f = RAMFS \<and> unat (isize y) < unat (seek_pos x) + unat ?n \<or> f = TTYFS \<and> no_contents y"
    using fs_read_cases [OF ok x(2,3)] by blast
  then show ?thesis
  proof cases
    case 1
    from driver_descs(2) [OF fs_read_step [OF ok x(2,3) 1] x(1)] show ?thesis using eq 1 by simp
  next
    case 2
    have "may_fault (Op_Read cur h n) s"
    proof (cases f)
      case RAMFS
      have "no_contents y \<or> isize y < seek_pos x \<or> 2 ^ 64 \<le> unat (seek_pos x) + unat n"
        using 2(2) RAMFS x(3) cut_len_inside [of y x n] by (fastforce simp: no_contents_def)
      then show ?thesis using node x(3) RAMFS by (simp add: may_fault_def)
    qed (use 2 node in \<open>simp add: may_fault_def\<close>)
    then show ?thesis using eq 2(1) by (cases "cut_off y (seek_pos x) n") auto
  qed
qed

text \<open>The inode a write leaves before it calls the driver.\<close>

definition extended :: "inode \<Rightarrow> u64 \<Rightarrow> u64 \<Rightarrow> inode" where
  "extended y pos n = (if pos + n > isize y \<and> has_size y then y\<lparr>isize := pos + n\<rparr> else y)"

lemma vfs_write_eq:
  assumes ok: "vfs_ok s" and d: "handle_to_fd cur h s = Some d" and x: "descs s d = Some x"
    and y: "inodes s (nd_inode x) = Some y" "ifs y = Some f" and md: "nd_mode x \<noteq> VFS_MODE_READ"
  shows "\<exists>s1. driver_step (nd_inode x) (extended y (seek_pos x) (of_nat (length bs))) s s1
    \<and> vfs_write cur h bs s =
        and_then (fs_write f (nd_inode x) (seek_pos x) bs s1) (\<lambda>(put, s).
        and_then (upd_desc d (\<lambda>d. d\<lparr>seek_pos := seek_pos d + put\<rparr>) s) (\<lambda>s. Inr (of_nat (length bs), s)))"
proof -
  let ?n = "of_nat (length bs) :: u64"
  let ?y = "extended y (seek_pos x) ?n"
  have f: "fs_of y = Inr f" using y(2) by (simp add: fs_of_def)
  show ?thesis
  proof (cases "seek_pos x + ?n > isize y \<and> has_size y")
    case True
    have "same_node y ?y" by (simp add: same_node_def extended_def)
    from fs_sync_step [OF ok y this] obtain s1
      where s1: "fs_sync f (nd_inode x) (s\<lparr>inodes := (inodes s)(nd_inode x \<mapsto> ?y)\<rparr>) = Inr (0, s1)"
        "driver_step (nd_inode x) ?y s s1" by blast
    have "fs_of (y\<lparr>isize := z\<rparr>) = Inr f" for z using y(2) by (simp add: fs_of_def)
    then show ?thesis using s1 True d x y(1) md f by (auto simp: vfs_write_def Let_def extended_def)
  next
    case False
    then have "driver_step (nd_inode x) ?y s s" using no_step [OF ok y(1)] by (auto simp: extended_def)
    then show ?thesis using False d x y(1) md f by (auto simp: vfs_write_def Let_def)
  qed
qed

lemma extended_inside:
  assumes "has_size y" and "unat pos + unat n < 2 ^ 64"
  shows "unat pos + unat n \<le> unat (isize (extended y pos n))"
proof -
  have "unat (pos + n) = unat pos + unat n" using assms(2) by (subst unat_add_lt [symmetric]) simp_all
  then show ?thesis using assms(1) by (auto simp: extended_def word_less_nat_alt)
qed

lemma vfs_write_cases:
  assumes ok: "vfs_ok s" and len: "length bs < 2 ^ 64"
  shows "(\<exists>k s'. vfs_write cur h bs s = Inr (k, s'))
    \<or> may_fault (Op_Write cur h bs) s \<and> null_or_bounds (vfs_write cur h bs s)"
proof (cases "handle_to_fd cur h s")
  case None
  then show ?thesis by (simp add: vfs_write_def)
next
  case (Some d)
  obtain x y f where x: "descs s d = Some x" "inodes s (nd_inode x) = Some y" "ifs y = Some f"
    by (rule handle_parts [OF ok Some])
  note node = open_node_parts [OF Some x(1,2)]
  let ?n = "of_nat (length bs) :: u64"
  let ?y = "extended y (seek_pos x) ?n"
  have same: "ifs ?y = Some f" "no_contents ?y = no_contents y" "has_size ?y = has_size y"
    using x(3) by (simp_all add: extended_def no_contents_def has_size_def split: fs_id.split)
  show ?thesis
  proof (cases "nd_mode x = VFS_MODE_READ")
    case True
    then show ?thesis using Some x by (simp add: vfs_write_def)
  next
    case False
    obtain s1 where s1: "driver_step (nd_inode x) ?y s s1"
      and eq: "vfs_write cur h bs s =
        and_then (fs_write f (nd_inode x) (seek_pos x) bs s1) (\<lambda>(put, s).
        and_then (upd_desc d (\<lambda>d. d\<lparr>seek_pos := seek_pos d + put\<rparr>) s) (\<lambda>s. Inr (?n, s)))"
      using vfs_write_eq [OF ok Some x False] by blast
    have ok1: "vfs_ok s1" and y1: "inodes s1 (nd_inode x) = Some ?y" and x1: "descs s1 d = Some x"
      using s1 x(1) by (simp_all add: driver_step_def)
    consider k s2 where "fs_write f (nd_inode x) (seek_pos x) bs s1 = Inr (k, s2)"
      | "null_or_bounds (fs_write f (nd_inode x) (seek_pos x) bs s1)"
        "f = RAMFS \<and> unat (isize ?y) < unat (seek_pos x) + unat ?n \<or> f = TTYFS \<and> no_contents y"
      using fs_write_cases [OF ok1 y1 same(1)] same(2) by blast
    then show ?thesis
    proof cases
      case 1
      from driver_descs(2) [OF fs_write_step(1) [OF ok1 y1 same(1) 1 len] x1] show ?thesis using eq 1 by simp
    next
      case 2
      have un: "unat ?n = length bs" using len by simp
      have "may_fault (Op_Write cur h bs) s"
      proof (cases f)
        case RAMFS
        have "no_contents y \<or> 2 ^ 64 \<le> unat (seek_pos x) + length bs"
          using 2(2) RAMFS x(3) extended_inside [of y "seek_pos x" ?n] un
          by (fastforce simp: no_contents_def)
        then show ?thesis using node x(3) RAMFS by (auto simp: may_fault_def)
      qed (use 2 node in \<open>simp add: may_fault_def\<close>)
      then show ?thesis using eq 2(1) by auto
    qed
  qed
qed

section \<open>The invariant over histories\<close>

lemma vfs_ok_register: "vfs_ok s \<Longrightarrow> vfs_ok (vfs_register_fs f s)"
proof -
  assume ok: "vfs_ok s"
  let ?s = "vfs_register_fs f s"
  have same: "inodes ?s = inodes s" "tnodes ?s = tnodes s" "descs ?s = descs s" "idents ?s = idents s"
    "files ?s = files s" "vfs_root ?s = vfs_root s" "next_ref ?s = next_ref s"
    by (simp_all add: vfs_register_fs_def)
  have "refs_ok ?s = refs_ok s" unfolding refs_ok_def same ..
  moreover have "tree_ok ?s = tree_ok s" unfolding tree_ok_def field_name_cong [OF same(2)] same ..
  moreover have "count_ok ?s = count_ok s"
    unfolding count_ok_def names_cong [OF same(2)] opens_cong [OF same(3)] same ..
  moreover have "desc_ok ?s = desc_ok s" unfolding desc_ok_def slot_of_cong [OF same(5)] same ..
  moreover have "data_ok ?s = data_ok s" unfolding data_ok_def data_for_cong [OF same(4)] same ..
  moreover have "mount_ok ?s = mount_ok s" unfolding mount_ok_def same ..
  ultimately show ?thesis using ok by (simp only: vfs_ok_def)
qed

lemma inode_of_eq: "tnodes s t = Some x \<Longrightarrow> tinode x = Some i \<Longrightarrow> inode_of s t = inodes s i"
  by (simp add: inode_of_def)

text \<open>A mount that does not replace a shared folder.\<close>

lemma vfs_mount_safe:
  assumes ok: "vfs_ok s" and short: "short_path path" and free: "\<not> mounts_over_shared path fsname s"
  shows "\<exists>r s'. vfs_mount device path fsname s = Inr (r, s') \<and> vfs_ok s'"
proof (cases "vfs_get_fs fsname s")
  case None
  then show ?thesis by (simp add: vfs_mount_def ok)
next
  case (Some f)
  show ?thesis
    using ok short
  proof (cases rule: path_cases [where md = NO_CREATE and ty = VFS_NODE_FILE])
    case nowhere
    then show ?thesis using Some ok by (cases f) (simp_all add: vfs_mount_def fs_istemp_def)
  next
    case (found t x i y)
    then have "itype y = VFS_NODE_FOLDER \<Longrightarrow> child y = [] \<Longrightarrow> refcount y = 1"
      using free Some inode_of_eq [OF found(2,3)] by (simp add: mounts_over_shared_def)
    then show ?thesis
      using vfs_mount_eq [OF Some found(1-4), of device] ok mounted_ok [OF ok found(2-4)] by auto
  qed simp
qed

text \<open>A link inside one mount, whether it succeeds or not.\<close>

lemma vfs_link_safe:
  assumes ok: "vfs_ok s" and few: "few_objects s" and short: "short_path a" "short_path b"
    and one: "\<not> crosses_mounts a b s"
  shows "\<exists>r s'. vfs_link a b s = Inr (r, s') \<and> vfs_ok s'"
  using ok short(1)
proof (cases rule: path_cases [where md = NO_CREATE and ty = VFS_NODE_FILE])
  case nowhere
  then show ?thesis using ok by (simp add: vfs_link_def)
next
  case (found t x i y)
  show ?thesis
    using ok short(2)
  proof (cases rule: path_cases [where md = "CREATE OR ERR_ON_EXIST" and ty = "itype y"])
    case nowhere
    then show ?thesis using found ok by (simp add: vfs_link_def)
  next
    case (created p yp n)
    let ?s1 = "add_node p yp n (itype y) s"
    obtain oi where oi: "inodes ?s1 i = Some oi" using old_inode [OF created(2) found(4)] by blast
    have t: "t \<noteq> next_ref s + 1" using refs_less(2) [OF vfs_okD(1) [OF ok] found(2)] by simp
    have "inode_of ?s1 (next_ref s + 1) = Some \<lparr>itype = itype y, isize = 0, perms = 511, uid = 0, refcount = 1,
        ifs = ifs yp, ident = Some (next_ref s + 2), mountpoint = mountpoint yp, child = []\<rparr>"
      by (simp add: inode_of_def add_node_inodes)
    moreover have "inode_of ?s1 t = Some oi" using t found(2,3) oi by (simp add: inode_of_def add_node_inodes)
    ultimately have "mountpoint oi = mountpoint yp"
      using one found(1) inode_of_eq [OF found(2,3)] found(4) created(1) by (simp add: crosses_mounts_def)
    from vfs_link_eq [OF found(1-4) created(1,2) oi this] vfs_link_ok [OF ok few short]
    show ?thesis by blast
  qed simp
qed simp

text \<open>What a step does to a good state.\<close>

lemma vfs_do_step:
  assumes ok: "vfs_ok s" and safe: "vfs_hazards e s = {}"
  shows "(\<exists>s'. vfs_do e s = Inr s' \<and> vfs_ok s') \<or> may_fault e s \<and> null_or_bounds (vfs_do e s)"
proof (cases e)
  case (Op_Open cur path md)
  then show ?thesis using vfs_open_ok [OF ok, of path cur md] no_hazardD(1,2) [OF safe] by force
next
  case (Op_Close cur h)
  then show ?thesis using vfs_close_ok [OF ok, of cur h] by force
next
  case (Op_Read cur h n)
  then show ?thesis using vfs_read_cases [OF ok, of cur h n] vfs_read_ok [OF ok, of cur h n] by force
next
  case (Op_Write cur h bs)
  note len = no_hazardD(3) [OF safe Op_Write]
  show ?thesis using Op_Write vfs_write_cases [OF ok len, of cur h] vfs_write_ok [OF ok _ len, of cur h] by force
next
  case (Op_Seek cur h pos)
  then show ?thesis using vfs_seek_ok [OF ok, of cur h pos] by force
next
  case (Op_Chmod cur h p)
  then show ?thesis using vfs_chmod_ok [OF ok, of cur h p] by force
next
  case (Op_Getdent cur h)
  then show ?thesis using vfs_getdent_ok [OF ok, of cur h] by force
next
  case (Op_Create path ty)
  then show ?thesis using vfs_create_ok [OF ok, of path ty] no_hazardD(1) [OF safe] by force
next
  case (Op_Link a b)
  then show ?thesis
    using vfs_link_safe [OF ok no_hazardD(2) [OF safe], of a b] no_hazardD(1,4) [OF safe] by force
next
  case (Op_Unlink path)
  then show ?thesis
    using vfs_unlink_ok [OF ok, of path] no_hazardD(1) [OF safe] by (force simp: may_fault_def)
next
  case (Op_Register f)
  then show ?thesis using vfs_ok_register [OF ok] by simp
next
  case (Op_Mount device path fsname)
  then show ?thesis
    using vfs_mount_safe [OF ok, of path fsname device] no_hazardD(1,5) [OF safe] by force
qed

lemma vfs_history_ok: "vfs_history H s \<Longrightarrow> H = {} \<Longrightarrow> vfs_ok s"
proof (induction rule: vfs_history.induct)
  case (vfs_start jk s)
  then show ?case using started_vfs_ok by (auto simp: vfs_init_eq)
next
  case (vfs_next H s e s')
  then show ?case using vfs_do_step [of s e] by auto
qed

lemma started_history: "vfs_history {} (started_vfs jk)"
  by (rule vfs_start [OF vfs_init_eq])

section \<open>The hazards are real\<close>

text \<open>A mount over a folder that is open frees its inode: the next use of the handle follows a freed pointer.\<close>

lemma mount_over_open_folder_dangles:
  assumes "vfs_get_fs fsname s = Some f" and "path_to_node path NO_CREATE VFS_NODE_FILE s = Inr (Some t, s)"
    and "tnodes s t = Some x" and "tinode x = Some i" and "inodes s i = Some y"
    and "itype y = VFS_NODE_FOLDER" and "child y = []" and "i < next_ref s"
    and "handle_to_fd cur h s = Some d" and "descs s d = Some z" and "nd_inode z = i"
  shows "\<exists>s'. vfs_mount device path fsname s = Inr (0, s') \<and> vfs_close cur h s' = Inl Dangling
    \<and> vfs_getdent cur h s' = Inl Dangling"
  using assms vfs_mount_eq [OF assms(1-5), of device]
  by (simp add: mounted_def vfs_close_def vfs_getdent_def handle_to_fd_def upd_inode_def get_inode_def split: if_splits)

text \<open>
  A link across mounts fails, frees the new name and leaves it in its directory, and leaves its inode
  (with reference count 1) without a name.
\<close>

lemma link_across_mounts_dangles:
  assumes ok: "vfs_ok s" and short: "short_path a" "short_path b" and cross: "crosses_mounts a b s"
  shows "\<exists>s' p yp c i z. vfs_link a b s = Inr (- 1, s') \<and> inodes s' p = Some yp \<and> c \<in> set (child yp)
    \<and> tnodes s' c = None \<and> inodes s' i = Some z \<and> refcount z = 1 \<and> inodes s i = None"
  using ok short(1)
proof (cases rule: path_cases [where md = NO_CREATE and ty = VFS_NODE_FILE])
  case nowhere
  then show ?thesis using cross by (simp add: crosses_mounts_def)
next
  case (found t x i y)
  show ?thesis
    using ok short(2)
  proof (cases rule: path_cases [where md = "CREATE OR ERR_ON_EXIST" and ty = "itype y"])
    case nowhere
    then show ?thesis using cross found inode_of_eq [OF found(2,3)] by (simp add: crosses_mounts_def)
  next
    case (created p yp n)
    let ?s1 = "add_node p yp n (itype y) s" and ?c = "next_ref s + 1" and ?i = "next_ref s"
    define z where "z = \<lparr>itype = itype y, isize = 0, perms = 511, uid = 0, refcount = 1,
        ifs = ifs yp, ident = Some (next_ref s + 2), mountpoint = mountpoint yp, child = []\<rparr>"
    obtain oi where oi: "inodes ?s1 i = Some oi" using old_inode [OF created(2) found(4)] by blast
    have t: "t \<noteq> ?c" using refs_less(2) [OF vfs_okD(1) [OF ok] found(2)] by simp
    have x1: "tnodes ?s1 t = Some x" using t found(2) by (simp add: add_node_inodes)
    have z: "inodes ?s1 ?i = Some z" and nt: "\<exists>ntx. tnodes ?s1 ?c = Some ntx \<and> tinode ntx = Some ?i"
      by (simp_all add: add_node_inodes z_def)
    then obtain ntx where ntx: "tnodes ?s1 ?c = Some ntx" "tinode ntx = Some ?i" by blast
    have m: "mountpoint z \<noteq> mountpoint oi"
      using cross found(1) inode_of_eq [OF found(2,3)] found(4) created(1) inode_of_eq [OF ntx] z
        inode_of_eq [OF x1 found(3)] oi by (auto simp: crosses_mounts_def)
    obtain f where f: "ifs z = Some f"
      using data_fs [OF vfs_okD(5) [OF add_node_ok [OF created(2)]] z] by blast
    have set_eq: "fs_setlink f ?c None ?s1 = Inr (0, ?s1)"
      using ntx z by (cases f) (simp_all add: fs_setlink_def ramfs_setlink_def ttyfs_setlink_def z_def)
    have "vfs_link a b s = Inr (- 1, ?s1\<lparr>tnodes := (tnodes ?s1)(?c := None)\<rparr>)"
      using found(1-3) found(4) created(1) ntx z oi m f set_eq
      by (simp add: vfs_link_def fs_of_def vfs_free_nodes_def) (simp add: z_def Let_def)
    moreover have "\<exists>w. inodes ?s1 p = Some w \<and> ?c \<in> set (child w)"
    proof -
      have "p \<noteq> ?i" using adds_nodeD(2) [OF created(2)] refs_less(1) [OF vfs_okD(1) [OF ok]] by fastforce
      then show ?thesis by (simp add: add_node_inodes)
    qed
    moreover have "inodes s ?i = None" by (rule refs_fresh [OF vfs_okD(1) [OF ok]]) simp
    moreover have "refcount z = 1" by (simp add: z_def)
    ultimately show ?thesis using z by fastforce
  qed simp
qed simp

end
