(* ===== verification/VfsProps.thy ===== *)
theory VfsProps
  imports VfsHistory
begin

text \<open>
  The properties of the virtual file system: no operation follows a dangling pointer in a history without
  hazards (theory \<open>VfsHistory\<close>), paths resolve to what their components name, new
  nodes appear where they should, and open files survive the removal of their names.
\<close>

section \<open>Histories\<close>



text \<open>C7: In every history without these hazards the reference count of each inode is the number of names it
  has plus the number of descriptors open on it, and the inode of every open descriptor is alive.\<close>

theorem refcount_counts_users:
  assumes "vfs_history H s" and "H = {}"
  shows "(\<forall>i y. inodes s i = Some y \<longrightarrow> unat (refcount y)
      = card {t. \<exists>x. tnodes s t = Some x \<and> tinode x = Some i}
        + card {d. \<exists>x. descs s d = Some x \<and> nd_inode x = i})
    \<and> (\<forall>cur h d. handle_to_fd cur h s = Some d \<longrightarrow>
      (\<exists>x y. descs s d = Some x \<and> inodes s (nd_inode x) = Some y \<and> 0 < refcount y))"
proof -
  note ok = vfs_history_ok [OF assms]
  have count: "unat (refcount y) = card {t. \<exists>x. tnodes s t = Some x \<and> tinode x = Some i}
        + card {d. \<exists>x. descs s d = Some x \<and> nd_inode x = i}" if "inodes s i = Some y" for i y
    using count_eq [OF vfs_okD(3) [OF ok] that] by (simp add: links_def opens_def count_if_def)
  have live: "\<exists>x y. descs s d = Some x \<and> inodes s (nd_inode x) = Some y \<and> 0 < refcount y"
    if d: "handle_to_fd cur h s = Some d" for cur h d
  proof -
    obtain x y where x: "descs s d = Some x" "inodes s (nd_inode x) = Some y"
      by (rule handle_desc [OF vfs_okD(4) [OF ok] d])
    have "0 < unat (refcount y)"
      using count_eq [OF vfs_okD(3) [OF ok] x(2)] opened_pos [OF vfs_okD(1) [OF ok] x(1)] by simp
    then show ?thesis using x by (auto simp: word_less_nat_alt)
  qed
  show ?thesis using count live by blast
qed

theorem refcount_counts_users_witness:
  "1 = card {t. \<exists>x. tnodes (started_vfs (\<lambda>_. 0)) t = Some x \<and> tinode x = Some 2}
    + card {d. \<exists>x. descs (started_vfs (\<lambda>_. 0)) d = Some x \<and> nd_inode x = 2}"
proof -
  obtain y where "inodes (started_vfs (\<lambda>_. 0)) 2 = Some y" "refcount y = 1" by (simp add: started_vfs_def)
  then show ?thesis using refcount_counts_users [OF started_history refl, of "\<lambda>_. 0"] by fastforce
qed

section \<open>Paths\<close>

lemma handle_opened:
  "handle_to_fd c h (opened cur t i y md s) =
    (if c = cur \<and> h = int (length (files s cur)) then Some (next_ref s) else handle_to_fd c h s)"
  by (auto simp: slot_handle slot_opened)

lemma open_resolves:
  assumes ok: "vfs_ok s" and short: "short_names p"
  shows "resolve s (components p) (vfs_root s) = Some t \<Longrightarrow>
      \<exists>i s' d. vfs_open cur (SLASH # p) md s = Inr (int (length (files s cur)), s')
        \<and> Option.bind (tnodes s t) tinode = Some i
        \<and> handle_to_fd cur (int (length (files s cur))) s' = Some d
        \<and> descs s' d = Some \<lparr>nd_tnode = t, nd_inode = i, nd_mode = md, seek_pos = 0\<rparr>
        \<and> (\<forall>c h. c \<noteq> cur \<or> h \<noteq> int (length (files s cur)) \<longrightarrow> handle_to_fd c h s' = handle_to_fd c h s)"
    and "components p = ds @ [n] \<Longrightarrow> resolve s ds (vfs_root s) = Some e \<Longrightarrow> dir_at s e \<Longrightarrow>
      entry s n e = None \<Longrightarrow> vfs_open cur (SLASH # p) md s = Inr (- 1, s)"
proof -
  note ok' = vfs_okD [OF ok]
  have root: "tnodes s (vfs_root s) \<noteq> None" using tree_root [OF ok'(2)] by auto
  show "\<exists>i s' d. vfs_open cur (SLASH # p) md s = Inr (int (length (files s cur)), s')
        \<and> Option.bind (tnodes s t) tinode = Some i
        \<and> handle_to_fd cur (int (length (files s cur))) s' = Some d
        \<and> descs s' d = Some \<lparr>nd_tnode = t, nd_inode = i, nd_mode = md, seek_pos = 0\<rparr>
        \<and> (\<forall>c h. c \<noteq> cur \<or> h \<noteq> int (length (files s cur)) \<longrightarrow> handle_to_fd c h s' = handle_to_fd c h s)"
    if t: "resolve s (components p) (vfs_root s) = Some t"
  proof -
    obtain b where w: "walk s (components p) (vfs_root s) True [] = (t, True, b)"
      using walk_resolve [OF t] by blast
    obtain x where x: "tnodes s t = Some x" using walk_alive [OF ok'(2) w root] by auto
    obtain i y where y: "tinode x = Some i" "inodes s i = Some y" by (rule tree_inode [OF ok'(2) x])
    have "path_to_node (SLASH # p) NO_CREATE VFS_NODE_FILE s = Inr (Some t, s)"
      using path_to_node_found [OF ok'(2) short w] by simp
    from vfs_open_eq [OF this x y, of cur md] show ?thesis
      using x y handle_opened by (fastforce simp: opened_def)
  qed
  show "vfs_open cur (SLASH # p) md s = Inr (- 1, s)"
    if p: "components p = ds @ [n]" "resolve s ds (vfs_root s) = Some e" "dir_at s e" "entry s n e = None"
  proof -
    have w: "walk s (components p) (vfs_root s) True [] = (e, False, n)"
      unfolding p(1) by (rule walk_resolve_last [OF p(2-4)])
    obtain x where x: "tnodes s e = Some x" using walk_alive [OF ok'(2) w root] by auto
    obtain i y where y: "tinode x = Some i" "inodes s i = Some y" by (rule tree_inode [OF ok'(2) x])
    show ?thesis
      using path_to_node_missing [OF ok'(2,1,5) short w x y, of NO_CREATE VFS_NODE_FILE]
      by (simp add: vfs_open_def)
  qed
qed

text \<open>C8: A path whose components each name an entry of the directory before it is opened as that
  node: a new handle at offset 0, no other handle changed. When only the last component is missing,
  opening fails and changes nothing.\<close>

theorem open_resolves_path:
  assumes ok: "vfs_ok s" and short: "short_names p"
  shows "(\<forall>t. resolve s (components p) (vfs_root s) = Some t \<longrightarrow>
      (\<exists>i s' d. vfs_open cur (SLASH # p) md s = Inr (int (length (files s cur)), s')
        \<and> Option.bind (tnodes s t) tinode = Some i
        \<and> handle_to_fd cur (int (length (files s cur))) s' = Some d
        \<and> descs s' d = Some \<lparr>nd_tnode = t, nd_inode = i, nd_mode = md, seek_pos = 0\<rparr>
        \<and> (\<forall>c h. c \<noteq> cur \<or> h \<noteq> int (length (files s cur)) \<longrightarrow> handle_to_fd c h s' = handle_to_fd c h s)))
    \<and> (\<forall>ds n e. components p = ds @ [n] \<longrightarrow> resolve s ds (vfs_root s) = Some e \<longrightarrow> dir_at s e \<longrightarrow>
      entry s n e = None \<longrightarrow> vfs_open cur (SLASH # p) md s = Inr (- 1, s))"
  using open_resolves [OF ok short] by blast

lemma ex_components: "components [102] = [[102]]" "components [100, SLASH, 116] = [[100], [116]]"
  by (simp_all add: components.simps)

lemma ex_nodes:
  "inode_of example_vfs 0 = Some \<lparr>itype = VFS_NODE_MOUNTPOINT, isize = 0, perms = 511, uid = 0,
     refcount = 2, ifs = Some RAMFS, ident = Some 2, mountpoint = Some 0, child = [10, 20]\<rparr>"
  "inode_of example_vfs 10 = Some \<lparr>itype = VFS_NODE_MOUNTPOINT, isize = 0, perms = 511, uid = 0,
     refcount = 1, ifs = Some TTYFS, ident = None, mountpoint = Some 10, child = [12]\<rparr>"
  by (simp_all add: inode_of_def ex_defs)

lemma ex_dirs: "dir_at example_vfs 0" "dir_at example_vfs 10" "entries example_vfs 0 = [10, 20]"
  "entries example_vfs 10 = [12]"
  by (simp_all add: dir_at_def entries_def ex_nodes is_traversable_def)

lemma ex_root: "vfs_root example_vfs = 0"
  by (simp add: example_vfs_def)

lemma ex_names: "field_name example_vfs 10 = [100]" "field_name example_vfs 20 = [102]"
  "field_name example_vfs 12 = [116]"
  by (simp_all add: field_name_def example_vfs_def ex_tnodes_def)

lemma ex_resolve: "resolve example_vfs [[102]] 0 = Some 20" "resolve example_vfs [[100], [116]] 0 = Some 12"
  by (simp_all add: entry_def ex_dirs ex_names)

theorem open_resolves_path_witness:
  "\<exists>s' d. vfs_open 0 [SLASH, 102] VFS_MODE_READ example_vfs = Inr (3, s') \<and> handle_to_fd 0 3 s' = Some d
    \<and> descs s' d = Some \<lparr>nd_tnode = 20, nd_inode = 21, nd_mode = VFS_MODE_READ, seek_pos = 0\<rparr>"
proof -
  have short: "short_names [102]" by (simp add: short_names_def ex_components)
  have files: "int (length (files example_vfs 0)) = 3" and root: "vfs_root example_vfs = 0"
    and ino: "Option.bind (tnodes example_vfs 20) tinode = Some 21"
    by (simp_all add: ex_defs)
  have "resolve example_vfs (components [102]) (vfs_root example_vfs) = Some 20"
    by (simp add: ex_components root entry_def ex_dirs ex_names)
  with open_resolves_path [OF example_vfs_ok short, of 0 VFS_MODE_READ] show ?thesis
    unfolding files using ino by fastforce
qed

lemma components_slash:
  assumes "SLASH \<notin> set a"
  shows "components (a @ SLASH # b) = a # components b"
proof -
  have "takeWhile (\<lambda>c. c \<noteq> SLASH) (a @ SLASH # b) = a"
    using assms by (subst takeWhile_append2) auto
  then show ?thesis by (subst components.simps) simp
qed

lemma walk_found_flag:
  "cs \<noteq> [] \<Longrightarrow> walk s cs t f b = walk s cs t f' b'"
  by (cases cs) (simp_all split: option.split)

text \<open>A first component that does not exist is skipped: \<open>/a/b\<close> names the node \<open>/b\<close>, for every
  operation, although there is no \<open>/a\<close> (a lookup should fail, a creation should not put \<open>b\<close> into the
  root).\<close>

theorem missing_component_skipped:
  assumes ok: "vfs_ok s" and short: "short_names b" "length a < VFS_MAX_PATH_LEN"
    and a: "SLASH \<notin> set a" "entry s a (vfs_root s) = None" "dir_at s (vfs_root s)" and b: "b \<noteq> []"
  shows "path_to_node (SLASH # a @ SLASH # b) md ty s = path_to_node (SLASH # b) md ty s"
proof -
  note ok' = vfs_okD [OF ok]
  have root: "tnodes s (vfs_root s) \<noteq> None" using tree_root [OF ok'(2)] by auto
  note comps = components_slash [OF a(1), of b]
  have ne: "components b \<noteq> []" using b by (simp add: components.simps)
  have short': "short_names (a @ SLASH # b)" using short by (simp add: short_names_def comps)
  obtain t fnd n where w: "walk s (components b) (vfs_root s) True [] = (t, fnd, n)"
    using prod_cases3 by blast
  then have w': "walk s (components (a @ SLASH # b)) (vfs_root s) True [] = (t, fnd, n)"
    using a(2,3) walk_found_flag [OF ne, of s "vfs_root s" True "[]" False a] by (simp add: comps)
  obtain x where x: "tnodes s t = Some x" using walk_alive [OF ok'(2) w root] by auto
  obtain i y where y: "tinode x = Some i" "inodes s i = Some y" by (rule tree_inode [OF ok'(2) x])
  have ends: "can_end (a @ SLASH # b) = can_end b" using b by (simp add: can_end_def)
  show ?thesis
  proof (cases fnd)
    case True
    then show ?thesis
      using path_to_node_found [OF ok'(2) short'] path_to_node_found [OF ok'(2) short(1)] w w' by simp
  next
    case False
    then show ?thesis
      using path_to_node_missing [OF ok'(2,1,5) short' _ x y, of n md ty]
        path_to_node_missing [OF ok'(2,1,5) short(1) _ x y, of n md ty] w w' ends by simp
  qed
qed

theorem missing_component_skipped_witness:
  "path_to_node [SLASH, 120, SLASH, 102] NO_CREATE VFS_NODE_FILE example_vfs
    = path_to_node [SLASH, 102] NO_CREATE VFS_NODE_FILE example_vfs"
proof -
  have "entry example_vfs [120] (vfs_root example_vfs) = None" "dir_at example_vfs (vfs_root example_vfs)"
    by (simp_all add: entry_def ex_dirs ex_names ex_root)
  then show ?thesis
    using missing_component_skipped [OF example_vfs_ok, of "[102]" "[120]" NO_CREATE VFS_NODE_FILE]
    by (simp add: short_names_def ex_components)
qed

section \<open>Creating\<close>

lemma add_node_old:
  assumes add: "adds_node s i y n ty s'" and t: "tnodes s t = Some x"
  shows "tnodes s' t = Some x" and "dir_at s' t = dir_at s t" and "field_name s' t = field_name s t"
    and "entry s m t = Some c \<Longrightarrow> entry s' m t = Some c"
    and "tinode x = Some i \<Longrightarrow> entry s n t = None \<Longrightarrow> entry s' n t = Some (next_ref s + 1)"
    and "entry s' m t = Some c \<Longrightarrow> c = next_ref s + 1 \<or> entry s m t = Some c"
proof -
  note s' = adds_nodeD(4) [OF add] and tree = vfs_okD(2) [OF adds_nodeD(1) [OF add]]
  have tn: "t \<noteq> next_ref s + 1" using t fresh_refs(2) [OF add] by auto
  show t': "tnodes s' t = Some x" using t tn by (simp add: s' add_node_inodes)
  show "field_name s' t = field_name s t" using tn by (simp add: s' field_name_add)
  obtain j z where z: "tinode x = Some j" "inodes s j = Some z" "inode_of s t = Some z"
    by (rule inode_of_alive [OF tree t])
  obtain z' where z': "inodes s' j = Some z'" using old_inode [OF add z(2)] by blast
  have jn: "j \<noteq> next_ref s" using z(2) fresh_refs(1) [OF add] by auto
  have zz: "itype z' = itype z" "child z' = child z @ (if j = i then [next_ref s + 1] else [])"
    by (rule new_inode_cases [OF add z']; use z(2) jn in simp)+
  have of': "inode_of s' t = Some z'" using t' z(1) z' by (simp add: inode_of_def)
  show "dir_at s' t = dir_at s t" using zz(1) of' z(3) by (simp add: dir_at_def is_traversable_def)
  have ents: "entries s' t = entries s t @ (if j = i then [next_ref s + 1] else [])"
    using zz(2) of' z(3) by (simp add: entries_def)
  have names: "field_name s' c = field_name s c" if "c \<in> set (entries s t)" for c
  proof -
    have "tnodes s c \<noteq> None" using that z by (auto simp: entries_def elim: tree_child [OF tree])
    then have "c \<noteq> next_ref s + 1" using fresh_refs(2) [OF add] by auto
    then show ?thesis by (simp add: s' field_name_add)
  qed
  have find_append: "find P (xs @ ys) = (case find P xs of None \<Rightarrow> find P ys | Some c \<Rightarrow> Some c)"
    for P and xs ys :: "nat list" by (induction xs) simp_all
  have same: "find (\<lambda>c. field_name s' c = m') (entries s t) = find (\<lambda>c. field_name s c = m') (entries s t)" for m'
    using names by (intro find_cong) auto
  show "entry s' m t = Some c" if "entry s m t = Some c"
    using that by (simp add: entry_def ents find_append same)
  show "c = next_ref s + 1 \<or> entry s m t = Some c" if "entry s' m t = Some c"
    using that by (auto simp: entry_def ents find_append same split: option.splits if_splits)
  show "entry s' n t = Some (next_ref s + 1)" if "tinode x = Some i" "entry s n t = None"
  proof -
    have "field_name s' (next_ref s + 1) = take VFS_MAX_NAME_LEN n" by (simp add: s' field_name_add)
    then show ?thesis using that z(1) by (simp add: entry_def ents find_append same)
  qed
qed

lemma add_node_resolve:
  assumes add: "adds_node s i y n ty s'"
  shows "resolve s cs t = Some c \<Longrightarrow> tnodes s t \<noteq> None \<Longrightarrow> resolve s' cs t = Some c"
proof (induction cs arbitrary: t)
  case (Cons m cs)
  then obtain x e where x: "tnodes s t = Some x" "dir_at s t" "entry s m t = Some e" "resolve s cs e = Some c"
    by (auto split: if_splits option.splits)
  have "tnodes s e \<noteq> None"
    using entry_alive(1) [OF vfs_okD(2) [OF adds_nodeD(1) [OF add]] x(3)] by simp
  then show ?case using Cons.IH [OF x(4)] add_node_old(2,4) [OF add x(1)] x by simp
qed simp

text \<open>The new node is empty, so a path that resolves afterwards resolved before or ends at it.\<close>

lemma add_node_leaf:
  assumes "adds_node s i y n ty s'"
  shows "resolve s' cs (next_ref s + 1) = Some t \<Longrightarrow> t = next_ref s + 1"
  using adds_nodeD(4) [OF assms]
  by (cases cs) (simp_all add: entry_def entries_def inode_of_def add_node_inodes split: if_splits)

lemma add_node_resolve_back:
  assumes add: "adds_node s i y n ty s'"
  shows "resolve s' cs t = Some c \<Longrightarrow> tnodes s t \<noteq> None \<Longrightarrow> c = next_ref s + 1 \<or> resolve s cs t = Some c"
proof (induction cs arbitrary: t)
  case (Cons m cs)
  then obtain x where x: "tnodes s t = Some x" by auto
  obtain e where e: "dir_at s' t" "entry s' m t = Some e" "resolve s' cs e = Some c"
    using Cons.prems(1) by (auto split: if_splits option.splits)
  consider "e = next_ref s + 1" | "entry s m t = Some e" using add_node_old(6) [OF add x e(2)] by blast
  then show ?case
  proof cases
    case 1
    then show ?thesis using add_node_leaf [OF add] e(3) by blast
  next
    case 2
    then have "tnodes s e \<noteq> None"
      using entry_alive(1) [OF vfs_okD(2) [OF adds_nodeD(1) [OF add]]] by fastforce
    from Cons.IH [OF e(3) this] show ?thesis using 2 e(1) add_node_old(2) [OF add x] by simp
  qed
qed simp

lemma resolve_append:
  "resolve s (cs @ ds) t = (case resolve s cs t of None \<Rightarrow> None | Some u \<Rightarrow> resolve s ds u)"
  by (induction cs arbitrary: t) (simp_all split: option.split)

lemma resolve_alive: "tree_ok s \<Longrightarrow> resolve s cs t = Some c \<Longrightarrow> tnodes s t \<noteq> None \<Longrightarrow> tnodes s c \<noteq> None"
  by (induction cs arbitrary: t) (auto split: if_splits option.splits dest: entry_alive(1))

text \<open>C9: Creating a path whose components but the last resolve to a directory, under a last name that the directory
  does not have (every component short, no slash at the end), succeeds and adds exactly one node: a single new tnode
  and a single new inode, empty and of the given type, to which the path then resolves; every other tnode, every
  descriptor and every handle is as before; every path that resolved before resolves to the same node, and a path that
  resolves afterwards resolved before or leads to the new node. A second creation fails.\<close>

theorem create_adds_one_node:
  assumes ok: "vfs_ok s" and short: "short_names p" and ends: "can_end p"
    and p: "components p = ds @ [n]" "resolve s ds (vfs_root s) = Some e" "dir_at s e" "entry s n e = None"
  shows "\<exists>s' c i z. vfs_create (SLASH # p) ty s = Inr (0, s') \<and> vfs_ok s'
    \<and> tnodes s c = None \<and> dom (tnodes s') = insert c (dom (tnodes s))
    \<and> inodes s i = None \<and> dom (inodes s') = insert i (dom (inodes s))
    \<and> resolve s' (components p) (vfs_root s') = Some c
    \<and> inodes s' i = Some z \<and> inode_of s' c = Some z
    \<and> itype z = ty \<and> isize z = 0 \<and> refcount z = 1 \<and> child z = []
    \<and> (\<forall>t. t \<noteq> c \<longrightarrow> tnodes s' t = tnodes s t) \<and> descs s' = descs s \<and> files s' = files s
    \<and> (\<forall>q t. resolve s q (vfs_root s) = Some t \<longrightarrow> resolve s' q (vfs_root s') = Some t)
    \<and> (\<forall>q t. resolve s' q (vfs_root s') = Some t \<longrightarrow> t = c \<or> resolve s q (vfs_root s) = Some t)
    \<and> vfs_create (SLASH # p) ty s' = Inr (- 1, s')"
proof -
  note ok' = vfs_okD [OF ok]
  have root: "tnodes s (vfs_root s) \<noteq> None" using tree_root [OF ok'(2)] by auto
  obtain x where x: "tnodes s e = Some x" using resolve_alive [OF ok'(2) p(2) root] by auto
  obtain i y where y: "tinode x = Some i" "inodes s i = Some y" "inode_of s e = Some y"
    by (rule inode_of_alive [OF ok'(2) x])
  have w: "walk s (components p) (vfs_root s) True [] = (e, False, n)"
    unfolding p(1) by (rule walk_resolve_last [OF p(2-4)])
  let ?s = "add_node i y n ty s"
  have add: "adds_node s i y n ty ?s"
    using ok y entry_None [OF p(4) y(3)] by (simp add: adds_node_def)
  have s'ok: "vfs_ok ?s" by (rule add_node_ok [OF add])
  have root': "vfs_root ?s = vfs_root s" by (simp add: add_node_inodes)
  have run: "vfs_create (SLASH # p) ty s = Inr (0, ?s)"
    using path_to_node_missing [OF ok'(2,1,5) short w x y(1,2), of "CREATE OR ERR_ON_EXIST" ty] p(3) ends
    by (simp add: vfs_create_def)
  have keep: "resolve ?s q (vfs_root s) = Some t" if "resolve s q (vfs_root s) = Some t" for q t
    by (rule add_node_resolve [OF add that root])
  have new: "resolve ?s (components p) (vfs_root s) = Some (next_ref s + 1)"
    using keep [OF p(2)] add_node_old(2,5) [OF add x] p(3,4) y(1) by (simp add: p(1) resolve_append)
  have before: "t = next_ref s + 1 \<or> resolve s q (vfs_root s) = Some t" if "resolve ?s q (vfs_root s) = Some t" for q t
    by (rule add_node_resolve_back [OF add that root])
  have doms: "dom (tnodes ?s) = insert (next_ref s + 1) (dom (tnodes s))"
    "dom (inodes ?s) = insert (next_ref s) (dom (inodes s))"
    using y(2) by (auto simp: add_node_def)
  have others: "\<forall>t. t \<noteq> next_ref s + 1 \<longrightarrow> tnodes ?s t = tnodes s t" "descs ?s = descs s" "files ?s = files s"
    by (simp_all add: add_node_def)
  have "\<exists>z. inodes ?s (next_ref s) = Some z \<and> inode_of ?s (next_ref s + 1) = Some z
      \<and> itype z = ty \<and> isize z = 0 \<and> refcount z = 1 \<and> child z = []"
    by (simp add: inode_of_def add_node_inodes)
  moreover obtain b where "walk ?s (components p) (vfs_root ?s) True [] = (next_ref s + 1, True, b)"
    using walk_resolve [OF new] root' by metis
  then have "vfs_create (SLASH # p) ty ?s = Inr (- 1, ?s)"
    using path_to_node_found [OF vfs_okD(2) [OF s'ok] short, of "next_ref s + 1" b "CREATE OR ERR_ON_EXIST" ty]
    by (simp add: vfs_create_def)
  ultimately show ?thesis
    using run s'ok new keep before doms others fresh_refs(1,2) [OF add] unfolding root' [symmetric] by blast
qed

theorem create_adds_one_node_witness:
  "\<exists>s' c. vfs_create [SLASH, 103] VFS_NODE_FOLDER example_vfs = Inr (0, s')
    \<and> resolve s' [[103]] (vfs_root s') = Some c"
proof -
  have comp: "components [103] = [] @ [[103]]" by (simp add: components.simps)
  have "entry example_vfs [103] 0 = None" by (simp add: entry_def ex_dirs ex_names)
  moreover have "short_names [103]" "can_end [103]" by (simp_all add: short_names_def comp can_end_def)
  ultimately show ?thesis
    using create_adds_one_node [OF example_vfs_ok _ _ comp, of 0 VFS_NODE_FOLDER] ex_dirs(1) ex_root
    by (fastforce simp: comp)
qed

section \<open>Open files and removed names\<close>

lemma get_ram_cong:
  assumes "ident y' = ident y" and "\<And>r. ident y = Some r \<Longrightarrow> idents s' r = idents s r"
  shows "get_ram y' s' = get_ram y s"
  using assms by (cases "ident y") (simp_all add: get_ram_def)

lemma get_tty_cong:
  assumes "ident y' = ident y" and "\<And>r. ident y = Some r \<Longrightarrow> idents s' r = idents s r"
  shows "get_tty y' s' = get_tty y s"
  using assms by (cases "ident y") (simp_all add: get_tty_def)

lemma fs_read_cong:
  assumes "inodes s i = Some y" and "inodes s' i = Some y'" and "ident y' = ident y"
    and "\<And>r. ident y = Some r \<Longrightarrow> idents s' r = idents s r"
    and "fs_read f i off n s = Inr (k, bs, s1)"
  shows "\<exists>s2. fs_read f i off n s' = Inr (k, bs, s2) \<and> descs s2 = descs s'"
proof (cases f)
  case RAMFS
  then show ?thesis
    using assms(5,1,2) get_ram_cong [OF assms(3,4)]
    by (auto simp: fs_read_def ramfs_read_def and_then_eq_Inr)
next
  case TTYFS
  then show ?thesis
    using assms(5,1,2) get_tty_cong [OF assms(3,4)]
    by (auto simp: fs_read_def ttyfs_read_def and_then_eq_Inr Let_def set_tty_def)
qed

text \<open>What unlinking does to an inode that is open.\<close>

lemma unlinked_open:
  assumes ok: "vfs_ok s" and x: "tnodes s t = Some x" "tinode x = Some i"
    and y: "inodes s i = Some y" and p: "inodes s p = Some yp" "i \<noteq> p"
    and d: "descs s d = Some z" and w: "inodes s (nd_inode z) = Some w"
  shows "\<exists>w'. inodes (unlinked t i y p yp s) (nd_inode z) = Some w' \<and> itype w' = itype w \<and> isize w' = isize w
    \<and> ifs w' = ifs w \<and> ident w' = ident w"
    and "ident w = Some r \<Longrightarrow> idents (unlinked t i y p yp s) r = idents s r"
proof -
  note ok' = vfs_okD [OF ok]
  have two: "nd_inode z \<noteq> i" if "refcount y = 1"
  proof
    assume "nd_inode z = i"
    then have "0 < opens s i" using opened_pos [OF ok'(1) d] by simp
    moreover have "0 < links s i" by (rule linked_pos [OF ok'(1) x])
    ultimately show False using count_eq [OF ok'(3) y] that by simp
  qed
  show "\<exists>w'. inodes (unlinked t i y p yp s) (nd_inode z) = Some w' \<and> itype w' = itype w \<and> isize w' = isize w
    \<and> ifs w' = ifs w \<and> ident w' = ident w"
    using two w y p by (cases "nd_inode z = i"; cases "nd_inode z = p")
      (auto simp: unlinked_def drop_inode_def removed_def)
  show "idents (unlinked t i y p yp s) r = idents s r" if r: "ident w = Some r"
  proof (cases "refcount y = 1")
    case True
    have "ident y \<noteq> Some r" using ok'(5) y w two [OF True] r unfolding data_ok_def by metis
    then show ?thesis using True by (simp add: unlinked_def drop_inode_def released_def split: option.split)
  qed (simp add: unlinked_def removed_def)
qed

text \<open>What unlinking returns when it returns.\<close>

lemma vfs_unlink_result:
  assumes ok: "vfs_ok s" and short: "short_path path" and un: "vfs_unlink path s = Inr (r, s')"
  shows "s' = s \<or> (\<exists>t x i y p yp. tnodes s t = Some x \<and> tinode x = Some i \<and> inodes s i = Some y
    \<and> inodes s p = Some yp \<and> i \<noteq> p \<and> s' = unlinked t i y p yp s)"
  using ok short
proof (cases rule: path_cases [where md = NO_CREATE and ty = VFS_NODE_FILE])
  case nowhere
  then show ?thesis using un by (simp add: vfs_unlink_def)
next
  case (found t x i y)
  note ok' = vfs_okD [OF ok]
  show ?thesis
  proof (cases "child y = []")
    case False
    then show ?thesis using un found by (simp add: vfs_unlink_def)
  next
    case True
    have "t \<noteq> vfs_root s"
    proof
      assume "t = vfs_root s"
      then have "tparent x = None" using found(2) tree_root [OF ok'(2)] by auto
      then show False using vfs_unlink_root [OF ok found(1-4) True] un by simp
    qed
    then obtain p yp where p: "tparent x = Some p" "inodes s p = Some yp" "t \<in> set (child yp)"
      by (rule tree_parent [OF ok'(2) found(2)])
    obtain f where f: "ifs y = Some f" using data_fs [OF ok'(5) found(4)] by blast
    have ip: "i \<noteq> p" using p True found(4) by auto
    have "s' = unlinked t i y p yp s"
      using vfs_unlink_eq [OF found(1-4) True p(1,2) ip data_for_inode [OF ok'(5) found(4)] f] un by simp
    then show ?thesis using found(2-4) p(2) ip by blast
  qed
qed simp

text \<open>A read depends on the descriptor, the inode and its driver data only.\<close>

lemma vfs_read_cong:
  assumes d: "handle_to_fd cur h s = Some d" and hd: "handle_to_fd cur h s' = Some d"
    and z: "descs s d = Some z" "inodes s (nd_inode z) = Some w" "ifs w = Some g" and z': "descs s' d = Some z"
    and w': "inodes s' (nd_inode z) = Some w'" "itype w' = itype w" "isize w' = isize w"
      "ifs w' = ifs w" "ident w' = ident w"
    and ids: "\<And>q. ident w = Some q \<Longrightarrow> idents s' q = idents s q"
    and rd: "vfs_read cur h n s = Inr (k, bs, s1)"
  shows "\<exists>s2. vfs_read cur h n s' = Inr (k, bs, s2)"
proof -
  have "has_size w' = has_size w" using w' by (simp add: has_size_def)
  then have cuts: "cut_off w' = cut_off w" "cut_len w' = cut_len w"
    using w' by (simp_all add: cut_off_def cut_len_def fun_eq_iff)
  note eq = vfs_read_eq [OF d z, of n]
  have "ifs w' = Some g" using z w' by simp
  note eq' = vfs_read_eq [OF hd z' w'(1) this, of n, unfolded cuts]
  show ?thesis
  proof (cases "cut_off w (seek_pos z) n")
    case True
    then show ?thesis using rd eq eq' by simp
  next
    case False
    then obtain got sx where sx: "fs_read g (nd_inode z) (seek_pos z) (cut_len w (seek_pos z) n) s = Inr (got, bs, sx)"
      and k: "k = cut_len w (seek_pos z) n"
      using rd eq by (auto simp: and_then_eq_Inr)
    obtain s2 where "fs_read g (nd_inode z) (seek_pos z) (cut_len w (seek_pos z) n) s' = Inr (got, bs, s2)"
      "descs s2 = descs s'"
      using fs_read_cong [OF z(2) w'(1,5) ids sx] by blast
    then show ?thesis using False eq' k z' by simp
  qed
qed

text \<open>C13: A file that is open stays readable, with the same contents, after any name has been
  unlinked, its own included.\<close>

theorem open_file_survives_unlink:
  assumes ok: "vfs_ok s" and short: "short_path path" and un: "vfs_unlink path s = Inr (r, s')"
    and rd: "vfs_read cur h n s = Inr (k, bs, s1)"
  shows "\<exists>s2. vfs_read cur h n s' = Inr (k, bs, s2)"
  using vfs_unlink_result [OF ok short un]
proof (elim disjE exE conjE)
  assume "s' = s"
  then show ?thesis using rd by blast
next
  fix t x i y p yp
  assume u: "tnodes s t = Some x" "tinode x = Some i" "inodes s i = Some y" "inodes s p = Some yp" "i \<noteq> p"
    and s': "s' = unlinked t i y p yp s"
  have same: "files s' = files s" "descs s' = descs s"
    by (simp_all add: s' unlinked_def drop_inode_def removed_def)
  have hd: "handle_to_fd cur h s' = handle_to_fd cur h s" by (simp add: handle_to_fd_def same)
  show ?thesis
  proof (cases "handle_to_fd cur h s")
    case None
    then show ?thesis using rd hd by (simp add: vfs_read_def)
  next
    case (Some d)
    obtain z w g where z: "descs s d = Some z" "inodes s (nd_inode z) = Some w" "ifs w = Some g"
      by (rule handle_parts [OF ok Some])
    obtain w' where w': "inodes s' (nd_inode z) = Some w'" "itype w' = itype w" "isize w' = isize w"
      "ifs w' = ifs w" "ident w' = ident w"
      using unlinked_open(1) [OF ok u z(1,2)] s' by blast
    have "\<And>q. ident w = Some q \<Longrightarrow> idents s' q = idents s q"
      using unlinked_open(2) [OF ok u z(1,2)] s' by simp
    from vfs_read_cong [OF Some _ z _ w' this rd] show ?thesis using hd Some same z(1) by simp
  qed
qed

lemma ex_path_f: "path_to_node [SLASH, 102] NO_CREATE VFS_NODE_FILE example_vfs = Inr (Some 20, example_vfs)"
proof -
  have "walk example_vfs (components [102]) (vfs_root example_vfs) True [] = (20, True, [102])"
    by (simp add: ex_components ex_root ex_dirs entry_def ex_names)
  then show ?thesis
    using path_to_node_found [OF vfs_okD(2) [OF example_vfs_ok], of "[102]"]
    by (simp add: short_names_def ex_components)
qed

lemma ex_unlink_f: "\<exists>s'. vfs_unlink [SLASH, 102] example_vfs = Inr (0, s')"
proof -
  obtain x y where x: "tnodes example_vfs 20 = Some x" "tinode x = Some 21" "tparent x = Some 1"
    and y: "inodes example_vfs 21 = Some y" "child y = []" "ifs y = Some RAMFS"
    by (simp add: ex_defs)
  obtain yp where "inodes example_vfs 1 = Some yp" by (simp add: ex_defs)
  then show ?thesis
    using vfs_unlink_eq [OF ex_path_f x(1,2) y(1,2) x(3)] y(3)
      data_for_inode [OF vfs_okD(5) [OF example_vfs_ok] y(1)] by fastforce
qed

lemma ex_handles: "handle_to_fd 0 0 example_vfs = Some 30" "handle_to_fd 0 1 example_vfs = Some 31"
  "handle_to_fd 0 2 example_vfs = Some 32"
  by (simp_all add: slot_handle ex_slot)

lemma ex_read_f: "\<exists>s1. vfs_read 0 0 2 example_vfs = Inr (2, [8, 9], s1)"
proof -
  have d: "descs example_vfs 30 = Some \<lparr>nd_tnode = 20, nd_inode = 21, nd_mode = VFS_MODE_READWRITE, seek_pos = 1\<rparr>"
    by (simp add: ex_defs)
  have y: "inodes example_vfs 21 = Some \<lparr>itype = VFS_NODE_FILE, isize = 3, perms = 511, uid = 0, refcount = 2,
    ifs = Some RAMFS, ident = Some 22, mountpoint = Some 0, child = []\<rparr>" by (simp add: ex_defs)
  have r: "idents example_vfs 22 = Some (Ram_Ident \<lparr>ram_alloc = 3, ram_data = Some [7, 8, 9]\<rparr>)"
    by (simp add: ex_defs)
  show ?thesis
    using vfs_read_eq [OF ex_handles(1) d, of _ RAMFS 2] y d r
    by (simp add: cut_off_def cut_len_def fs_read_def ramfs_read_def get_ram_def block_range_def)
qed

theorem open_file_survives_unlink_witness:
  "\<exists>s' s2. vfs_unlink [SLASH, 102] example_vfs = Inr (0, s') \<and> vfs_read 0 0 2 s' = Inr (2, [8, 9], s2)"
proof -
  obtain s' s1 where "vfs_unlink [SLASH, 102] example_vfs = Inr (0, s')"
    "vfs_read 0 0 2 example_vfs = Inr (2, [8, 9], s1)" using ex_unlink_f ex_read_f by blast
  moreover have "short_path [SLASH, 102]" by (simp add: short_path_def short_names_def ex_components)
  ultimately show ?thesis using open_file_survives_unlink [OF example_vfs_ok] by blast
qed

end
