(* ===== verification/VfsFiles.thy ===== *)
theory VfsFiles
  imports VfsProps
begin

text \<open>
  The contents of files: what a read returns, what a write changes, that the two agree, what a
  directory lists, and the bytes a terminal keeps.
\<close>

section \<open>The contents of a ramfs file\<close>

lemma handle_cong: "files s' = files s \<Longrightarrow> handle_to_fd cur h s' = handle_to_fd cur h s"
  by (simp add: handle_to_fd_def)

lemma handle_descs [simp]: "handle_to_fd cur h (s\<lparr>descs := ds\<rparr>) = handle_to_fd cur h s"
  by (simp add: handle_to_fd_def)

definition file_bytes :: "vfs \<Rightarrow> inode \<Rightarrow> u8 list" where
  "file_bytes s y =
     (case get_ram y s of
        Inl _ \<Rightarrow> []
      | Inr (r, x) \<Rightarrow> (case ram_data x of None \<Rightarrow> [] | Some bs \<Rightarrow> take (unat (isize y)) bs))"

lemma file_bytes_eq:
  assumes "data_for s y" and "ifs y = Some RAMFS"
  obtains r x where "ident y = Some r" and "idents s r = Some (Ram_Ident x)" and "get_ram y s = Inr (r, x)"
    and "block_ok y x" and "file_bytes s y = (case ram_data x of None \<Rightarrow> [] | Some bs \<Rightarrow> take (unat (isize y)) bs)"
    and "length (file_bytes s y) = unat (isize y)"
proof -
  obtain r x where x: "ident y = Some r" "idents s r = Some (Ram_Ident x)" "block_ok y x" "get_ram y s = Inr (r, x)"
    by (rule ram_ident [OF assms])
  have eq: "file_bytes s y = (case ram_data x of None \<Rightarrow> [] | Some bs \<Rightarrow> take (unat (isize y)) bs)"
    by (simp add: file_bytes_def x)
  have "length (file_bytes s y) = unat (isize y)"
    using x(3) by (auto simp: eq block_ok_def word_le_nat_alt split: option.splits)
  then show thesis using x eq that by blast
qed

text \<open>A read inside the block.\<close>

lemma ramfs_read_inside:
  assumes "inodes s i = Some y" and "get_ram y s = Inr (r, x)" and "block_ok y x"
    and "unat pos + unat n \<le> unat (isize y)"
  shows "ramfs_read i pos n s = Inr (n,
    take (unat n) (drop (unat pos) (case ram_data x of None \<Rightarrow> [] | Some bs \<Rightarrow> take (unat (isize y)) bs)), s)"
proof (cases "n = 0")
  case True
  then show ?thesis using assms by (simp add: ramfs_read_def block_range_def)
next
  case False
  then have "0 < unat n" by (simp add: unat_gt_0)
  then have "0 < unat (ram_alloc x)" "unat (isize y) \<le> unat (ram_alloc x)"
    using assms(3,4) by (auto simp: block_ok_def word_le_nat_alt)
  then obtain bs where bs: "ram_data x = Some bs" "length bs = unat (ram_alloc x)"
    using assms(3) by (auto simp: block_ok_def split: option.splits)
  have "unat pos + unat n \<le> length bs" using assms(4) bs \<open>unat (isize y) \<le> _\<close> by simp
  moreover have "take (unat n) (drop (unat pos) (take (unat (isize y)) bs)) = take (unat n) (drop (unat pos) bs)"
    using assms(4) by (simp add: drop_take min_def)
  ultimately show ?thesis using False assms(1,2) bs by (simp add: ramfs_read_def block_range_def)
qed

definition ram_file :: "vfs \<Rightarrow> nat \<Rightarrow> int \<Rightarrow> desc_ref \<Rightarrow> node_desc \<Rightarrow> inode \<Rightarrow> bool" where
  "ram_file s cur h d x y \<longleftrightarrow>
     handle_to_fd cur h s = Some d \<and> descs s d = Some x \<and> inodes s (nd_inode x) = Some y
     \<and> ifs y = Some RAMFS \<and> has_size y"

lemma upd_desc_same: "descs s d = Some x \<Longrightarrow> s\<lparr>descs := (descs s)(d \<mapsto> x)\<rparr> = s"
  by (simp add: fun_upd_idem)

lemma unat_sub_le: "(a :: u64) \<le> b \<Longrightarrow> unat (b - a) = unat b - unat a"
  by (simp add: unat_sub)

text \<open>Reading an open ramfs file returns the bytes of the file from the offset on, as many as were
  asked for or as there are, and advances the offset by their number; nothing else changes.\<close>

theorem read_returns_contents:
  assumes ok: "vfs_ok s" and f: "ram_file s cur h d x y"
    and pos: "seek_pos x \<le> isize y" and nowrap: "unat (seek_pos x) + unat n < 2 ^ 64"
  shows "\<exists>k. vfs_read cur h n s =
      Inr (k, take (unat n) (drop (unat (seek_pos x)) (file_bytes s y)),
           s\<lparr>descs := (descs s)(d \<mapsto> x\<lparr>seek_pos := seek_pos x + k\<rparr>)\<rparr>)
    \<and> unat k = min (unat n) (length (file_bytes s y) - unat (seek_pos x))"
proof -
  have x: "handle_to_fd cur h s = Some d" "descs s d = Some x" "inodes s (nd_inode x) = Some y"
    "ifs y = Some RAMFS" "has_size y" using f by (simp_all add: ram_file_def)
  obtain r z where z: "get_ram y s = Inr (r, z)" "block_ok y z"
    "file_bytes s y = (case ram_data z of None \<Rightarrow> [] | Some bs \<Rightarrow> take (unat (isize y)) bs)"
    "length (file_bytes s y) = unat (isize y)"
    by (rule file_bytes_eq [OF data_for_inode [OF vfs_okD(5) [OF ok] x(3)] x(4)])
  let ?k = "cut_len y (seek_pos x) n"
  have add: "unat (seek_pos x + n) = unat (seek_pos x) + unat n" using nowrap by (simp add: unat_add_lt)
  have le: "unat (seek_pos x) \<le> unat (isize y)" using pos by (simp add: word_le_nat_alt)
  have k: "unat ?k = min (unat n) (unat (isize y) - unat (seek_pos x))"
    using add le x(5) by (auto simp: cut_len_def word_less_nat_alt unat_sub_le [OF pos])
  note eq = vfs_read_eq [OF x(1-4), of n]
  show ?thesis
  proof (cases "cut_off y (seek_pos x) n")
    case True
    then have "isize y = seek_pos x" by (simp add: cut_off_def)
    then have "vfs_read cur h n s = Inr (0, [], s)" "drop (unat (seek_pos x)) (file_bytes s y) = []" "unat ?k = 0"
      using True eq z(4) k by simp_all
    then show ?thesis using k z(4) upd_desc_same [OF x(2)] by (intro exI [of _ 0]) simp
  next
    case False
    have inside: "unat (seek_pos x) + unat ?k \<le> unat (isize y)" using k le by simp
    have "take (unat ?k) (drop (unat (seek_pos x)) (file_bytes s y)) = take (unat n) (drop (unat (seek_pos x)) (file_bytes s y))"
      unfolding k using z(4) by (simp add: min_def)
    then have "vfs_read cur h n s = Inr (?k, take (unat n) (drop (unat (seek_pos x)) (file_bytes s y)),
        s\<lparr>descs := (descs s)(d \<mapsto> x\<lparr>seek_pos := seek_pos x + ?k\<rparr>)\<rparr>)"
      using False eq ramfs_read_inside [OF x(3) z(1,2) inside] z(3) x(2) by (simp add: fs_read_def)
    then show ?thesis using k z(4) by auto
  qed
qed

lemma ex_file: "ram_file example_vfs 0 0 30
    \<lparr>nd_tnode = 20, nd_inode = 21, nd_mode = VFS_MODE_READWRITE, seek_pos = 1\<rparr>
    \<lparr>itype = VFS_NODE_FILE, isize = 3, perms = 511, uid = 0, refcount = 2, ifs = Some RAMFS, ident = Some 22,
     mountpoint = Some 0, child = []\<rparr>"
  unfolding ram_file_def ex_handles by (simp add: ex_defs has_size_def)

lemma ex_bytes: "file_bytes example_vfs
    \<lparr>itype = VFS_NODE_FILE, isize = 3, perms = 511, uid = 0, refcount = 2, ifs = Some RAMFS, ident = Some 22,
     mountpoint = Some 0, child = []\<rparr> = [7, 8, 9]"
  by (simp add: file_bytes_def get_ram_def ex_defs)

theorem read_returns_contents_witness: "\<exists>k s'. vfs_read 0 0 9 example_vfs = Inr (k, [8, 9], s') \<and> unat k = 2"
  using read_returns_contents [OF example_vfs_ok ex_file, of 9] by (auto simp: ex_bytes)

text \<open>Reading a ramfs file whose offset is past the end (a seek that is allowed unless the file is
  open for reading only) is not answered with no data: the length underflows and the copy leaves the
  block.\<close>

theorem read_past_end_faults:
  assumes ok: "vfs_ok s" and f: "ram_file s cur h d x y"
    and pos: "isize y < seek_pos x" and nowrap: "unat (seek_pos x) + unat n < 2 ^ 64"
  shows "vfs_read cur h n s = Inl Out_Of_Bounds \<or> vfs_read cur h n s = Inl Null_Deref"
proof -
  have x: "handle_to_fd cur h s = Some d" "descs s d = Some x" "inodes s (nd_inode x) = Some y"
    "ifs y = Some RAMFS" "has_size y" using f by (simp_all add: ram_file_def)
  obtain r z where z: "get_ram y s = Inr (r, z)" "block_ok y z"
    by (rule file_bytes_eq [OF data_for_inode [OF vfs_okD(5) [OF ok] x(3)] x(4)])
  have lt: "unat (isize y) < unat (seek_pos x)" using pos by (simp add: word_less_nat_alt)
  have "unat (seek_pos x + n) = unat (seek_pos x) + unat n" using nowrap by (simp add: unat_add_lt)
  then have cut: "seek_pos x + n > isize y" using lt by (simp add: word_less_nat_alt)
  have "unat (isize y - seek_pos x) = 2 ^ 64 + unat (isize y) - unat (seek_pos x)"
    using lt unsigned_less [of "seek_pos x", where ?'a = nat]
    by (simp add: unat_sub_if_size word_size)
  then have big: "2 ^ 64 \<le> unat (seek_pos x) + unat (isize y - seek_pos x)"
    using unsigned_less [of "seek_pos x", where ?'a = nat] by simp
  have ne: "isize y - seek_pos x \<noteq> 0" using pos by auto
  have "fs_read RAMFS (nd_inode x) (seek_pos x) (isize y - seek_pos x) s \<in> {Inl Out_Of_Bounds, Inl Null_Deref}"
  proof (cases "ram_data z")
    case None
    then show ?thesis using x(3) z(1) ne by (simp add: fs_read_def ramfs_read_def block_range_def)
  next
    case (Some bs)
    then have "length bs < 2 ^ 64" using z(2) unsigned_less [of "ram_alloc z", where ?'a = nat] by (simp add: block_ok_def)
    then show ?thesis using Some x(3) z(1) ne big by (simp add: fs_read_def ramfs_read_def block_range_def)
  qed
  moreover have "\<not> cut_off y (seek_pos x) n" "cut_len y (seek_pos x) n = isize y - seek_pos x"
    using cut x(5) pos by (auto simp: cut_off_def cut_len_def)
  ultimately show ?thesis using vfs_read_eq [OF x(1-4), of n] by auto
qed

theorem read_past_end_faults_witness:
  "\<exists>s. vfs_ok s \<and> (vfs_read 0 0 2 s = Inl Out_Of_Bounds \<or> vfs_read 0 0 2 s = Inl Null_Deref)"
proof -
  let ?x = "\<lparr>nd_tnode = 20, nd_inode = 21, nd_mode = VFS_MODE_READWRITE, seek_pos = 5\<rparr>"
  let ?s = "example_vfs\<lparr>descs := (descs example_vfs)(30 \<mapsto> ?x)\<rparr>"
  have ok: "vfs_ok ?s"
    by (rule vfs_ok_desc [OF example_vfs_ok,
          of 30 "\<lparr>nd_tnode = 20, nd_inode = 21, nd_mode = VFS_MODE_READWRITE, seek_pos = 1\<rparr>"])
      (simp_all add: ex_defs)
  moreover have "ram_file ?s 0 0 30 ?x
      \<lparr>itype = VFS_NODE_FILE, isize = 3, perms = 511, uid = 0, refcount = 2, ifs = Some RAMFS, ident = Some 22,
       mountpoint = Some 0, child = []\<rparr>"
    using ex_file by (simp add: ram_file_def)
  ultimately show ?thesis using read_past_end_faults [of ?s 0 0 30 ?x _ 2] by fastforce
qed

section \<open>Writing\<close>


definition grown :: "inode \<Rightarrow> u64 \<Rightarrow> u64 \<Rightarrow> inode" where
  "grown y pos n = (if pos + n > isize y \<and> has_size y then y\<lparr>isize := pos + n\<rparr> else y)"

lemma overwrite_length: "k + length new \<le> length bs \<Longrightarrow> length (overwrite bs k new) = length bs"
  by (simp add: overwrite_def)

lemma take_overwrite_grow:
  assumes "k \<le> m" and "m \<le> length bs" and "m' = max m (k + length new)" and "m' \<le> length bs"
  shows "take m' (overwrite bs k new) = overwrite (take m bs) k new"
proof -
  have "m' - (k + length new) = m - (k + length new)" using assms(3) by simp
  moreover have "k + length new \<le> m'" "k \<le> length bs" using assms by simp_all
  ultimately show ?thesis using assms(1) by (simp add: overwrite_def drop_take min_absorb1 min_absorb2)
qed

text \<open>The data of the file after the size was raised and \<open>sync\<close> has run: at least the new size long,
  beginning with the old contents.\<close>

lemma sync_contents:
  assumes ok: "vfs_ok s" and y: "inodes s i = Some y" "ifs y = Some RAMFS" and big: "isize y \<le> isize y'"
    and pos: "0 < isize y'" and node: "same_node y y'"
  shows "\<exists>s1 r x bs. ramfs_sync i (s\<lparr>inodes := (inodes s)(i \<mapsto> y')\<rparr>) = Inr (0, s1)
    \<and> driver_step i y' s s1 \<and> get_ram y' s1 = Inr (r, x) \<and> ram_data x = Some bs
    \<and> unat (isize y') \<le> length bs \<and> take (unat (isize y)) bs = file_bytes s y"
proof -
  have d: "data_for s y" by (rule data_for_inode [OF vfs_okD(5) [OF ok] y(1)])
  obtain r x where x: "ident y = Some r" "idents s r = Some (Ram_Ident x)" "get_ram y s = Inr (r, x)"
    "block_ok y x" "file_bytes s y = (case ram_data x of None \<Rightarrow> [] | Some bs \<Rightarrow> take (unat (isize y)) bs)"
    by (rule file_bytes_eq [OF d y(2)])
  let ?s = "s\<lparr>inodes := (inodes s)(i \<mapsto> y')\<rparr>"
  obtain s1 where s1: "fs_sync RAMFS i ?s = Inr (0, s1)" "driver_step i y' s s1"
    using fs_sync_step [OF ok y node] by blast
  have id: "ident y' = ident y" using node by (simp add: same_node_def)
  have ram: "get_ram y' ?s = Inr (r, x)" using x id by (simp add: get_ram_def)
  show ?thesis
  proof (cases "isize y' > ram_alloc x")
    case True
    let ?bs = "grow (junk s) (isize y') (ram_data x)"
    have run: "s1 = set_ram r \<lparr>ram_alloc = isize y', ram_data = Some ?bs\<rparr> ?s"
      using s1(1) ram True by (simp add: fs_sync_def ramfs_sync_def)
    have len: "length (case ram_data x of None \<Rightarrow> [] | Some bs \<Rightarrow> bs) = unat (ram_alloc x)"
      using x(4) by (auto simp: block_ok_def split: option.splits)
    have "unat (isize y) \<le> unat (ram_alloc x)" using x(4) by (simp add: block_ok_def word_le_nat_alt)
    then have "take (unat (isize y)) ?bs = file_bytes s y"
      using len x(5) by (cases "ram_data x") (simp_all add: grow_def Let_def)
    moreover have "unat (isize y') \<le> length ?bs"
      using len True by (simp add: length_grow word_less_nat_alt)
    moreover have "get_ram y' s1 = Inr (r, \<lparr>ram_alloc = isize y', ram_data = Some ?bs\<rparr>)"
      using x id by (simp add: run get_ram_def set_ram_def)
    ultimately show ?thesis using s1 by (auto simp: fs_sync_def)
  next
    case False
    then have run: "s1 = ?s" using s1(1) ram by (simp add: fs_sync_def ramfs_sync_def)
    have "0 < unat (ram_alloc x)" using False pos by (simp add: word_less_nat_alt)
    then obtain bs where bs: "ram_data x = Some bs" "length bs = unat (ram_alloc x)"
      using x(4) by (auto simp: block_ok_def split: option.splits)
    then show ?thesis
      using s1 run ram x(5) False by (auto simp: fs_sync_def word_less_nat_alt not_less)
  qed
qed

text \<open>What a write to an open ramfs file does, in one piece.\<close>

lemma vfs_write_ram:
  assumes ok: "vfs_ok s" and f: "ram_file s cur h d x y" and md: "nd_mode x \<noteq> VFS_MODE_READ"
    and buff: "buff \<noteq> []" and nowrap: "unat (seek_pos x) + length buff < 2 ^ 64"
  shows "\<exists>s1 y1. vfs_write cur h buff s = Inr (of_nat (length buff), s1) \<and> vfs_ok s1
    \<and> ram_file s1 cur h d (x\<lparr>seek_pos := seek_pos x + of_nat (length buff)\<rparr>) y1
    \<and> unat (isize y1) = max (unat (isize y)) (unat (seek_pos x) + length buff)
    \<and> take (length buff) (drop (unat (seek_pos x)) (file_bytes s1 y1)) = buff
    \<and> (seek_pos x \<le> isize y \<longrightarrow> file_bytes s1 y1 = overwrite (file_bytes s y) (unat (seek_pos x)) buff)"
proof -
  have x: "handle_to_fd cur h s = Some d" "descs s d = Some x" "inodes s (nd_inode x) = Some y"
    "ifs y = Some RAMFS" "has_size y" using f by (simp_all add: ram_file_def)
  let ?n = "of_nat (length buff) :: u64" and ?i = "nd_inode x" and ?p = "unat (seek_pos x)"
  define y' where "y' = grown y (seek_pos x) ?n"
  have n: "unat ?n = length buff" using nowrap by (intro unat_of_nat64) simp
  have add: "unat (seek_pos x + ?n) = ?p + length buff" using nowrap n by (simp add: unat_add_lt)
  have node: "same_node y y'" by (simp add: y'_def grown_def same_node_def)
  have size: "unat (isize y') = max (unat (isize y)) (?p + length buff)"
    using add x(5) by (auto simp: y'_def grown_def word_less_nat_alt)
  have bound: "?p + length buff \<le> unat (isize y')" using size by simp
  have mono: "isize y \<le> isize y'" using size by (simp add: word_le_nat_alt)
  have "0 < unat (isize y')" using bound buff by (cases buff) simp_all
  then have pos: "0 < isize y'" by (simp add: word_less_nat_alt)
  obtain s1 r z bs where sync: "ramfs_sync ?i (s\<lparr>inodes := (inodes s)(?i \<mapsto> y')\<rparr>) = Inr (0, s1)"
    and step: "driver_step ?i y' s s1" and z: "get_ram y' s1 = Inr (r, z)" "ram_data z = Some bs"
    and bs: "unat (isize y') \<le> length bs" "take (unat (isize y)) bs = file_bytes s y"
    using sync_contents [OF ok x(3,4) mono pos node] by blast
  let ?bs = "overwrite bs ?p buff"
  define s2 where "s2 = set_ram r (z\<lparr>ram_data := Some ?bs\<rparr>) s1"
  have y1: "inodes s1 ?i = Some y'" and ds1: "descs s1 = descs s" and ok1: "vfs_ok s1"
    and fl1: "files s1 = files s" using step by (simp_all add: driver_step_def same_links_def)
  have nz: "?n \<noteq> 0" using n buff by (metis length_0_conv unat_0)
  have wr: "fs_write RAMFS ?i (seek_pos x) buff s1 = Inr (?n, s2)"
    using y1 z bs(1) bound nz n buff by (simp add: fs_write_def ramfs_write_def block_range_def s2_def)
  have fs': "ifs y' = Some RAMFS" "has_size y' = has_size y"
    using node x(4) by (simp_all add: same_node_def has_size_def)
  have "length buff < 2 ^ 64" using nowrap by simp
  from fs_write_step(1) [OF ok1 y1 fs'(1) wr this] have step2: "driver_step ?i y' s1 s2" .
  then have y2: "inodes s2 ?i = Some y'" and ds2: "descs s2 = descs s" and ok2: "vfs_ok s2"
    and fl2: "files s2 = files s" using ds1 fl1 by (simp_all add: driver_step_def same_links_def)
  define s3 where "s3 = s2\<lparr>descs := (descs s2)(d \<mapsto> x\<lparr>seek_pos := seek_pos x + ?n\<rparr>)\<rparr>"
  have ok3: "vfs_ok s3"
    unfolding s3_def by (rule vfs_ok_desc [OF ok2]) (use ds2 x(2) in simp_all)
  have same: "y' = y \<Longrightarrow> s\<lparr>inodes := (inodes s)(?i \<mapsto> y')\<rparr> = s" using x(3) by (simp add: fun_upd_idem)
  have run: "vfs_write cur h buff s = Inr (?n, s3)"
  proof (cases "seek_pos x + ?n > isize y")
    case True
    then have "y' = y\<lparr>isize := seek_pos x + ?n\<rparr>" using x(5) by (simp add: y'_def grown_def)
    then show ?thesis
      using True x md sync wr ds2
      by (simp add: vfs_write_def fs_of_def fs_sync_def s3_def Let_def)
  next
    case False
    then have "y' = y" by (simp add: y'_def grown_def)
    then have "ramfs_sync ?i s = Inr (0, s1)" using sync same by simp
    moreover have "ramfs_sync ?i s = Inr (0, s)"
    proof -
      obtain q w where "get_ram y s = Inr (q, w)" "block_ok y w"
        by (rule file_bytes_eq [OF data_for_inode [OF vfs_okD(5) [OF ok] x(3)] x(4)])
      moreover from this have "\<not> isize y > ram_alloc w" by (simp add: block_ok_def not_less)
      ultimately show ?thesis using x(3) by (simp add: ramfs_sync_def)
    qed
    ultimately have "s1 = s" by simp
    then show ?thesis using False x md wr ds2 by (simp add: vfs_write_def fs_of_def s3_def Let_def)
  qed
  have fd: "ram_file s3 cur h d (x\<lparr>seek_pos := seek_pos x + ?n\<rparr>) y'"
    using x fs' y2 fl2 by (simp add: ram_file_def s3_def handle_cong [OF fl2])
  have "get_ram y' s3 = Inr (r, z\<lparr>ram_data := Some ?bs\<rparr>)"
    using z(1) get_ram_def by (cases "ident y'") (auto simp: get_ram_def s3_def s2_def set_ram_def and_then_eq_Inr split: ident_data.splits)
  then have fb: "file_bytes s3 y' = take (unat (isize y')) ?bs" by (simp add: file_bytes_def)
  have mid: "take (length buff) (drop ?p (file_bytes s3 y')) = buff"
    using bound bs(1) by (simp add: fb overwrite_def drop_take min_def)
  have "file_bytes s3 y' = overwrite (file_bytes s y) ?p buff" if "seek_pos x \<le> isize y"
    using take_overwrite_grow [of ?p "unat (isize y)" bs "unat (isize y')" buff] that bs size mono
    by (simp add: fb word_le_nat_alt)
  then show ?thesis using run ok3 fd size mid by blast
qed

text \<open>C10: Writing to an open ramfs file at an offset inside it (or at its end) replaces exactly the bytes
  from the offset on, extending the file as needed; seeking back and reading returns what was written.\<close>

theorem write_seek_read:
  assumes ok: "vfs_ok s" and f: "ram_file s cur h d x y" and md: "nd_mode x \<noteq> VFS_MODE_READ"
    and buff: "buff \<noteq> []" and nowrap: "unat (seek_pos x) + length buff < 2 ^ 64"
  shows "\<exists>s1 s2 s3 y1. vfs_write cur h buff s = Inr (of_nat (length buff), s1)
    \<and> inodes s1 (nd_inode x) = Some y1
    \<and> (seek_pos x \<le> isize y \<longrightarrow> file_bytes s1 y1 = overwrite (file_bytes s y) (unat (seek_pos x)) buff)
    \<and> vfs_seek cur h (seek_pos x) s1 = Inr (0, s2)
    \<and> vfs_read cur h (of_nat (length buff)) s2 = Inr (of_nat (length buff), buff, s3)"
proof -
  let ?n = "of_nat (length buff) :: u64"
  obtain s1 y1 where w: "vfs_write cur h buff s = Inr (?n, s1)" and ok1: "vfs_ok s1"
    and f1: "ram_file s1 cur h d (x\<lparr>seek_pos := seek_pos x + ?n\<rparr>) y1"
    and size: "unat (isize y1) = max (unat (isize y)) (unat (seek_pos x) + length buff)"
    and mid: "take (length buff) (drop (unat (seek_pos x)) (file_bytes s1 y1)) = buff"
    and over: "seek_pos x \<le> isize y \<longrightarrow> file_bytes s1 y1 = overwrite (file_bytes s y) (unat (seek_pos x)) buff"
    using vfs_write_ram [OF ok f md buff nowrap] by blast
  let ?x = "x\<lparr>seek_pos := seek_pos x + ?n\<rparr>"
  have g: "handle_to_fd cur h s1 = Some d" "descs s1 d = Some ?x" "inodes s1 (nd_inode x) = Some y1"
    "ifs y1 = Some RAMFS" "has_size y1" using f1 by (simp_all add: ram_file_def)
  let ?s2 = "s1\<lparr>descs := (descs s1)(d \<mapsto> x)\<rparr>"
  have seek: "vfs_seek cur h (seek_pos x) s1 = Inr (0, ?s2)" using g md by (simp add: vfs_seek_def)
  have ok2: "vfs_ok ?s2" by (rule vfs_ok_desc [OF ok1 g(2)]) simp
  have f2: "ram_file ?s2 cur h d x y1" using g by (simp add: ram_file_def)
  have n: "unat ?n = length buff" using nowrap by (intro unat_of_nat64) simp
  have fb: "file_bytes ?s2 y1 = file_bytes s1 y1"
    using get_ram_cong [of y1 y1 ?s2 s1] by (simp add: file_bytes_def)
  have le: "seek_pos x \<le> isize y1" using size by (simp add: word_le_nat_alt)
  have len: "length (file_bytes ?s2 y1) = unat (isize y1)"
  proof -
    have "inodes ?s2 (nd_inode x) = Some y1" using g(3) by simp
    from data_for_inode [OF vfs_okD(5) [OF ok2] this] show ?thesis by (rule file_bytes_eq [OF _ g(4)])
  qed
  obtain k s3 where r: "vfs_read cur h ?n ?s2 = Inr (k, take (unat ?n) (drop (unat (seek_pos x)) (file_bytes ?s2 y1)), s3)"
    and k: "unat k = min (unat ?n) (length (file_bytes ?s2 y1) - unat (seek_pos x))"
    using read_returns_contents [OF ok2 f2 le, of ?n] nowrap n by auto
  have "unat k = unat ?n" using k n len size by simp
  then have "k = ?n" by (simp add: word_unat_eq_iff)
  then show ?thesis using w g(3) over seek r mid n fb by auto
qed

theorem write_seek_read_witness:
  "\<exists>s1 s2 s3 y1. vfs_write 0 0 [5, 6, 7] example_vfs = Inr (3, s1) \<and> inodes s1 21 = Some y1
    \<and> file_bytes s1 y1 = [7, 5, 6, 7] \<and> vfs_seek 0 0 1 s1 = Inr (0, s2)
    \<and> vfs_read 0 0 3 s2 = Inr (3, [5, 6, 7], s3)"
  using write_seek_read [OF example_vfs_ok ex_file, of "[5, 6, 7]"] by (simp add: ex_bytes overwrite_def)

section \<open>Directories\<close>

text \<open>A program that reads directory entries until there are no more.\<close>

fun list_dir :: "nat \<Rightarrow> nat \<Rightarrow> int \<Rightarrow> vfs \<Rightarrow> dirent list result" where
  "list_dir 0 cur h s = Inl Diverges"
| "list_dir (Suc fuel) cur h s =
     and_then (vfs_getdent cur h s) (\<lambda>(r, e, s').
       case e of None \<Rightarrow> Inr [] | Some e \<Rightarrow> and_then (list_dir fuel cur h s') (\<lambda>es. Inr (e # es)))"

definition dirent_of :: "vfs \<Rightarrow> tnode_ref \<Rightarrow> dirent" where
  "dirent_of s t = \<lparr>dtype = itype (the (inode_of s t)), dname = tname (the (tnodes s t))\<rparr>"

lemma getdent_step:
  assumes ok: "vfs_ok s" and x: "handle_to_fd cur h s = Some d" "descs s d = Some x" "inodes s (nd_inode x) = Some y"
    and dir: "is_traversable y" and k: "unat (seek_pos x) < length (child y)"
  shows "vfs_getdent cur h s = Inr (1, Some (dirent_of s (child y ! unat (seek_pos x))),
    s\<lparr>descs := (descs s)(d \<mapsto> x\<lparr>seek_pos := seek_pos x + 1\<rparr>)\<rparr>)"
proof -
  note tree = vfs_okD(2) [OF ok]
  have "child y ! unat (seek_pos x) \<in> set (child y)" using k by simp
  then obtain e where e: "tnodes s (child y ! unat (seek_pos x)) = Some e"
    by (rule tree_child [OF tree x(3)])
  obtain i z where "tinode e = Some i" "inodes s i = Some z" "inode_of s (child y ! unat (seek_pos x)) = Some z"
    by (rule inode_of_alive [OF tree e])
  then show ?thesis using x dir k e by (simp add: vfs_getdent_def dirent_of_def)
qed

lemma list_dir_from:
  assumes "vfs_ok s" and "handle_to_fd cur h s = Some d" and "descs s d = Some x"
    and "inodes s (nd_inode x) = Some y" and "is_traversable y" and "length (child y) < 2 ^ 64"
    and "unat (seek_pos x) \<le> length (child y)" and "length (child y) - unat (seek_pos x) < fuel"
  shows "list_dir fuel cur h s = Inr (map (dirent_of s) (drop (unat (seek_pos x)) (child y)))"
  using assms
proof (induction fuel arbitrary: s x)
  case (Suc fuel)
  show ?case
  proof (cases "unat (seek_pos x) < length (child y)")
    case False
    then show ?thesis using Suc.prems by (simp add: vfs_getdent_def)
  next
    case True
    let ?x = "x\<lparr>seek_pos := seek_pos x + 1\<rparr>"
    let ?s = "s\<lparr>descs := (descs s)(d \<mapsto> ?x)\<rparr>"
    note step = getdent_step [OF Suc.prems(1-5) True]
    have nx: "unat (seek_pos x + 1) = unat (seek_pos x) + 1"
      using True Suc.prems(6) by (subst unat_add_lt) simp_all
    have "vfs_ok ?s" by (rule vfs_ok_desc [OF Suc.prems(1,3)]) simp
    then have "list_dir fuel cur h ?s = Inr (map (dirent_of ?s) (drop (unat (seek_pos ?x)) (child y)))"
      using Suc.prems(2-8) nx True by (intro Suc.IH) simp_all
    moreover have "dirent_of ?s = dirent_of s" by (rule ext) (simp add: dirent_of_def inode_of_def)
    moreover have "drop (unat (seek_pos x)) (child y) = child y ! unat (seek_pos x) # drop (unat (seek_pos x) + 1) (child y)"
      using True by (simp add: Cons_nth_drop_Suc)
    ultimately show ?thesis using step nx by simp
  qed
qed simp

text \<open>C14: Reading a directory from its start until there is no entry left gives each entry once, in
  order, with its name and type.\<close>

theorem getdent_lists_directory:
  assumes "vfs_ok s" and "handle_to_fd cur h s = Some d" and "descs s d = Some x"
    and "inodes s (nd_inode x) = Some y" and "is_traversable y" and "length (child y) < 2 ^ 64"
    and "seek_pos x = 0"
  shows "list_dir (length (child y) + 1) cur h s = Inr (map (dirent_of s) (child y))"
  using list_dir_from [OF assms(1-6), of "length (child y) + 1"] assms(7) by simp

theorem getdent_lists_directory_witness:
  "list_dir 3 0 1 example_vfs = Inr [\<lparr>dtype = VFS_NODE_MOUNTPOINT, dname = [100]\<rparr>, \<lparr>dtype = VFS_NODE_FILE, dname = [102]\<rparr>]"
proof -
  have d: "descs example_vfs 31 = Some \<lparr>nd_tnode = 0, nd_inode = 1, nd_mode = VFS_MODE_READ, seek_pos = 0\<rparr>"
    by (simp add: ex_defs)
  have y: "inodes example_vfs 1 = Some \<lparr>itype = VFS_NODE_MOUNTPOINT, isize = 0, perms = 511, uid = 0,
     refcount = 2, ifs = Some RAMFS, ident = Some 2, mountpoint = Some 0, child = [10, 20]\<rparr>"
    by (simp add: ex_defs)
  have "dirent_of example_vfs 10 = \<lparr>dtype = VFS_NODE_MOUNTPOINT, dname = [100]\<rparr>"
    "dirent_of example_vfs 20 = \<lparr>dtype = VFS_NODE_FILE, dname = [102]\<rparr>"
    by (simp_all add: dirent_of_def inode_of_def ex_defs)
  then show ?thesis
    using getdent_lists_directory [OF example_vfs_ok ex_handles(2) d, of
        "\<lparr>itype = VFS_NODE_MOUNTPOINT, isize = 0, perms = 511, uid = 0,
     refcount = 2, ifs = Some RAMFS, ident = Some 2, mountpoint = Some 0, child = [10, 20]\<rparr>"] y
    by (simp add: is_traversable_def numeral_3_eq_3)
qed

end
