(* ===== verification/Initrd.thy ===== *)
theory Initrd
  imports VfsFiles KlogFormat Pmm
begin

text \<open>
  \<open>kernel/boot/initrd/initrd.c\<close> and \<open>saf.h\<close>: unpacking the boot archive into the virtual file system. The
  archive is in memory; the path under construction is in the array \<open>path_buff\<close>. The recursion follows
  offsets in the archive, which may be cyclic, so it has fuel: the depth the kernel's stack allows.
\<close>

section \<open>Operations\<close>

definition SAF_MAGIC_NUMBER :: u64 where "SAF_MAGIC_NUMBER = 0x766863726c706d73"
definition SAF_FLAG_ISFOLDER :: u64 where "SAF_FLAG_ISFOLDER = 1"

text \<open>The offsets of the fields of a node; the header has 280 bytes.\<close>

definition saf_magic :: "mem \<Rightarrow> u64 \<Rightarrow> u64" where "saf_magic m a = load64 m a"
definition saf_name :: "u64 \<Rightarrow> u64" where "saf_name a = a + 16"
definition saf_flags :: "mem \<Rightarrow> u64 \<Rightarrow> u64" where "saf_flags m a = load64 m (a + 272)"
definition saf_file_size :: "mem \<Rightarrow> u64 \<Rightarrow> u64" where "saf_file_size m a = load64 m (a + 280)"
definition saf_file_addr :: "mem \<Rightarrow> u64 \<Rightarrow> u64" where "saf_file_addr m a = load64 m (a + 288)"
definition saf_num_children :: "mem \<Rightarrow> u64 \<Rightarrow> u64" where "saf_num_children m a = load64 m (a + 280)"
definition saf_child :: "mem \<Rightarrow> u64 \<Rightarrow> nat \<Rightarrow> u64" where "saf_child m a i = load64 m (a + 288 + 8 * of_nat i)"

text \<open>The bytes from an address on.\<close>

definition mem_bytes :: "mem \<Rightarrow> u64 \<Rightarrow> nat \<Rightarrow> u8 list" where
  "mem_bytes m a n = map (\<lambda>i. m (a + of_nat i)) [0..<n]"

text \<open>Writing into \<open>path_buff\<close>, and the string it holds.\<close>

definition put_bytes :: "nat \<Rightarrow> u8 list \<Rightarrow> u8 list \<Rightarrow> u8 list result" where
  "put_bytes i bs buf =
     (if length buf < i + length bs then Inl Out_Of_Bounds
      else Inr (take i buf @ bs @ drop (i + length bs) buf))"

definition path_string :: "u8 list \<Rightarrow> u8 list" where
  "path_string buf = takeWhile (\<lambda>c. c \<noteq> 0) buf"

text \<open>Opening the new file and writing its bytes.\<close>

definition write_file :: "nat \<Rightarrow> u8 list \<Rightarrow> u8 list \<Rightarrow> vfs \<Rightarrow> vfs result" where
  "write_file cur path data s =
     and_then (vfs_open cur path VFS_MODE_WRITE s) (\<lambda>(fh, s).
     and_then (vfs_write cur fh data s) (\<lambda>(_, s).
     and_then (vfs_close cur fh s) (\<lambda>(_, s). Inr s)))"

primrec initrd_helper :: "nat \<Rightarrow> mem \<Rightarrow> nat \<Rightarrow> u64 \<Rightarrow> u64 \<Rightarrow> nat \<Rightarrow> u8 list \<times> vfs \<Rightarrow> (u8 list \<times> vfs) result" where
  "initrd_helper 0 m cur arch from path_offset st = Inl Diverges"
| "initrd_helper (Suc fuel) m cur arch from path_offset st =
     (case st of (path_buff, s) \<Rightarrow>
      if saf_magic m from \<noteq> SAF_MAGIC_NUMBER then Inl (Kernel_Panic ''initrd format invalid or corrupt'')
      else and_then (strlen m (saf_name from)) (\<lambda>len.
        let namelen = unat len; name = mem_bytes m (saf_name from) namelen
        in and_then (put_bytes path_offset (name @ [0]) path_buff) (\<lambda>path_buff.
           if saf_flags m from AND SAF_FLAG_ISFOLDER \<noteq> 0
           then and_then (vfs_create (path_string path_buff) VFS_NODE_FOLDER s) (\<lambda>(_, s).
                and_then (put_bytes (path_offset + namelen) [47, 0] path_buff) (\<lambda>path_buff.
                for_each (\<lambda>i. initrd_helper fuel m cur arch (arch + saf_child m from i) (path_offset + namelen + 1))
                  [0..<unat (saf_num_children m from)] (path_buff, s)))
           else and_then (vfs_create (path_string path_buff) VFS_NODE_FILE s) (\<lambda>(_, s).
                and_then (write_file cur (path_string path_buff)
                    (mem_bytes m (arch + saf_file_addr m from) (unat (saf_file_size m from))) s) (\<lambda>s.
                Inr (path_buff, s))))))"

text \<open>A call of \<open>strcmp\<close> with a literal: it reads no further than the end of the literal.\<close>

definition is_string :: "mem \<Rightarrow> u64 \<Rightarrow> u8 list \<Rightarrow> bool" where
  "is_string m a str \<longleftrightarrow> mem_bytes m a (length str + 1) = str @ [0]"

text \<open>The first module: its begin, end and name are at the offsets 24, 32 and 40 of the tag.\<close>

definition initrd_init :: "nat \<Rightarrow> nat \<Rightarrow> u64 \<Rightarrow> u8 list \<times> vfs \<times> kernel \<times> klog \<Rightarrow>
    (u8 list \<times> vfs \<times> kernel \<times> klog) result" where
  "initrd_init fuel cur md = (\<lambda>(path_buff, s, kn, k).
     let m = mem kn; start = load64 m (md + 24); stop = load64 m (md + 32)
     in if \<not> is_string m (md + 40) (bytes ''initrd'') then Inl (Kernel_Panic ''initrd not found'')
        else let root = PHYS_TO_VIRT start
             in and_then (initrd_helper fuel m cur root root 0 (path_buff, s)) (\<lambda>(path_buff, s).
                and_then (pmm_free start (NUM_PAGES (stop - start)) kn) (\<lambda>kn.
                and_then (klog_from LOG_SUCCESS ''initrd_init'' (bytes ''done'' @ [10]) [] k) (\<lambda>k.
                Inr (path_buff, s, kn, k)))))"

section \<open>Archives\<close>

text \<open>The archive as a tree, how it lies in memory, and the reference: what unpacking it does.\<close>

datatype archive = File "u8 list" "u8 list" | Folder "u8 list" "archive list"

fun archive_at :: "mem \<Rightarrow> u64 \<Rightarrow> u64 \<Rightarrow> archive \<Rightarrow> bool"
  and archives_at :: "mem \<Rightarrow> u64 \<Rightarrow> u64 \<Rightarrow> nat \<Rightarrow> archive list \<Rightarrow> bool" where
  "archive_at m arch a (File name data) \<longleftrightarrow>
     saf_magic m a = SAF_MAGIC_NUMBER \<and> cstring_at m (saf_name a) name \<and> length name < 256
     \<and> saf_flags m a AND SAF_FLAG_ISFOLDER = 0 \<and> unat (saf_file_size m a) = length data
     \<and> mem_bytes m (arch + saf_file_addr m a) (length data) = data"
| "archive_at m arch a (Folder name ts) \<longleftrightarrow>
     saf_magic m a = SAF_MAGIC_NUMBER \<and> cstring_at m (saf_name a) name \<and> length name < 256
     \<and> saf_flags m a AND SAF_FLAG_ISFOLDER \<noteq> 0 \<and> unat (saf_num_children m a) = length ts
     \<and> archives_at m arch a 0 ts"
| "archives_at m arch a i [] \<longleftrightarrow> True"
| "archives_at m arch a i (t # ts) \<longleftrightarrow>
     archive_at m arch (arch + saf_child m a i) t \<and> archives_at m arch a (i + 1) ts"

fun unpack :: "nat \<Rightarrow> u8 list \<Rightarrow> archive \<Rightarrow> vfs \<Rightarrow> vfs result"
  and unpack_all :: "nat \<Rightarrow> u8 list \<Rightarrow> archive list \<Rightarrow> vfs \<Rightarrow> vfs result" where
  "unpack cur dir (File name data) s =
     and_then (vfs_create (dir @ name) VFS_NODE_FILE s) (\<lambda>(_, s). write_file cur (dir @ name) data s)"
| "unpack cur dir (Folder name ts) s =
     and_then (vfs_create (dir @ name) VFS_NODE_FOLDER s) (\<lambda>(_, s). unpack_all cur (dir @ name @ [SLASH]) ts s)"
| "unpack_all cur dir [] s = Inr s"
| "unpack_all cur dir (t # ts) s = and_then (unpack cur dir t s) (\<lambda>s. unpack_all cur dir ts s)"

text \<open>The nesting of an archive, and the bytes its longest path takes in \<open>path_buff\<close>.\<close>

fun depth :: "archive \<Rightarrow> nat" and depth_all :: "archive list \<Rightarrow> nat" where
  "depth (File name data) = 1"
| "depth (Folder name ts) = Suc (depth_all ts)"
| "depth_all [] = 0"
| "depth_all (t # ts) = max (depth t) (depth_all ts)"

fun path_room :: "archive \<Rightarrow> nat" and path_room_all :: "archive list \<Rightarrow> nat" where
  "path_room (File name data) = length name + 1"
| "path_room (Folder name ts) = length name + max 2 (path_room_all ts + 1)"
| "path_room_all [] = 0"
| "path_room_all (t # ts) = max (path_room t) (path_room_all ts)"

end
