(* ===== verification/InitrdProps.thy ===== *)
theory InitrdProps
  imports Initrd
begin

text \<open>
  Unpacking the boot archive: the recursion of \<open>initrd_helper\<close> through \<open>path_buff\<close> does to the file system
  what the reference \<open>unpack\<close> does, and a cyclic archive is never unpacked.
\<close>

section \<open>The path buffer\<close>

lemma put_bytes_fits:
  assumes "i + length bs \<le> length buf"
  shows "\<exists>buf'. put_bytes i bs buf = Inr buf' \<and> length buf' = length buf \<and> take i buf' = take i buf
    \<and> drop i buf' = bs @ drop (i + length bs) buf"
  using assms by (auto simp: put_bytes_def)

lemma take_split: "take i buf = dir \<Longrightarrow> drop i buf = bs @ rest \<Longrightarrow> buf = dir @ bs @ rest"
  by (metis append_take_drop_id)

lemma path_string_dir: "0 \<notin> set dir \<Longrightarrow> path_string (dir @ 0 # rest) = dir"
  unfolding path_string_def by (subst takeWhile_tail) (auto simp: takeWhile_eq_all_conv)

lemma mem_bytes_name:
  assumes "cstring_at m a name" shows "mem_bytes m a (length name) = name"
  using assms
proof (induction name arbitrary: a)
  case (Cons x xs)
  have "map (\<lambda>i. m (a + of_nat i)) [0..<Suc (length xs)]
      = m a # map (\<lambda>i. m (a + 1 + of_nat i)) [0..<length xs]"
    by (simp add: map_upt_Suc algebra_simps del: upt_Suc)
  then show ?case using Cons by (simp add: mem_bytes_def)
qed (simp add: mem_bytes_def)

section \<open>The recursion\<close>

text \<open>One call on a node in memory, and the loop over the children.\<close>

definition unpacks :: "nat \<Rightarrow> u8 list \<Rightarrow> (u8 list \<times> vfs \<Rightarrow> (u8 list \<times> vfs) result) \<Rightarrow> (vfs \<Rightarrow> vfs result) \<Rightarrow> bool" where
  "unpacks off buf f g \<longleftrightarrow> (\<exists>buf'. length buf' = length buf \<and> take off buf' = take off buf
     \<and> (\<forall>s. f (buf, s) = and_then (g s) (\<lambda>s'. Inr (buf', s'))))"

lemma name_put:
  assumes "cstring_at m a name" and "length name < 256" and "0 \<notin> set (take off buf)"
    and "off + length name + 1 \<le> length buf"
  obtains buf' where "strlen m a = Inr (of_nat (length name))" and "unat (of_nat (length name) :: u64) = length name"
    and "mem_bytes m a (length name) = name" and "put_bytes off (name @ [0]) buf = Inr buf'"
    and "length buf' = length buf" and "take off buf' = take off buf" and "path_string buf' = take off buf @ name"
    and "take (off + length name) buf' = take off buf @ name"
proof -
  obtain buf' where b: "put_bytes off (name @ [0]) buf = Inr buf'" "length buf' = length buf"
    "take off buf' = take off buf" "drop off buf' = (name @ [0]) @ drop (off + length (name @ [0])) buf"
    using put_bytes_fits [of off "name @ [0]" buf] assms(4) by auto
  have eq: "buf' = (take off buf @ name) @ 0 # drop (off + length name + 1) buf"
    using take_split [OF b(3,4)] by simp
  have "0 \<notin> set (take off buf @ name)" using assms(3) cstring_at_nonzero [OF assms(1)] by simp
  then have p: "path_string buf' = take off buf @ name" unfolding eq by (rule path_string_dir)
  have t: "take (off + length name) buf' = take off buf @ name" unfolding eq using assms(4) by simp
  have l: "unat (of_nat (length name) :: u64) = length name" using assms(2) by (simp add: unat_of_nat)
  show thesis
    by (rule that [OF strlen_cstring [OF assms(1)] l mem_bytes_name [OF assms(1)] b(1,2,3) p t])
qed

lemma unpacks_file:
  assumes "archive_at m arch a (File name data)" and "0 \<notin> set (take off buf)"
    and "off + length name + 1 \<le> length buf"
  shows "unpacks off buf (initrd_helper (Suc fuel) m cur arch a off) (unpack cur (take off buf) (File name data))"
proof -
  have n: "cstring_at m (saf_name a) name" "length name < 256" using assms(1) by auto
  obtain buf' where b: "strlen m (saf_name a) = Inr (of_nat (length name))"
    "unat (of_nat (length name) :: u64) = length name" "mem_bytes m (saf_name a) (length name) = name"
    "put_bytes off (name @ [0]) buf = Inr buf'" "length buf' = length buf" "take off buf' = take off buf"
    "path_string buf' = take off buf @ name"
    by (rule name_put [OF n assms(2,3)])
  show ?thesis
    unfolding unpacks_def
    by (rule exI [of _ buf']) (use assms(1) b in \<open>simp add: and_then_def split: sum.split\<close>)
qed

lemma unpacks_folder:
  assumes "archive_at m arch a (Folder name ts)" and "0 \<notin> set (take off buf)"
    and "off + length name + 2 \<le> length buf"
    and loop: "\<And>buf'. length buf' = length buf \<Longrightarrow> take (off + length name + 1) buf' = take off buf @ name @ [SLASH] \<Longrightarrow>
      unpacks (off + length name + 1) buf'
        (for_each (\<lambda>i. initrd_helper fuel m cur arch (arch + saf_child m a i) (off + length name + 1)) [0..<length ts])
        (unpack_all cur (take off buf @ name @ [SLASH]) ts)"
  shows "unpacks off buf (initrd_helper (Suc fuel) m cur arch a off) (unpack cur (take off buf) (Folder name ts))"
proof -
  have n: "cstring_at m (saf_name a) name" "length name < 256" using assms(1) by auto
  have room: "off + length name + 1 \<le> length buf" using assms(3) by simp
  obtain b1 where b1: "strlen m (saf_name a) = Inr (of_nat (length name))"
    "unat (of_nat (length name) :: u64) = length name" "mem_bytes m (saf_name a) (length name) = name"
    "put_bytes off (name @ [0]) buf = Inr b1" "length b1 = length buf" "take off b1 = take off buf"
    "path_string b1 = take off buf @ name" "take (off + length name) b1 = take off buf @ name"
    by (rule name_put [OF n assms(2) room])
  obtain b2 where b2: "put_bytes (off + length name) [47, 0] b1 = Inr b2" "length b2 = length buf"
    "take (off + length name) b2 = take off buf @ name"
    "drop (off + length name) b2 = [47, 0] @ drop (off + length name + 2) b1"
    using put_bytes_fits [of "off + length name" "[47, 0]" b1] b1(5,8) assms(3) by auto
  have eq: "b2 = (take off buf @ name @ [SLASH]) @ 0 # drop (off + length name + 2) b1"
    using take_split [OF b2(3,4)] by simp
  have len: "length (take off buf @ name @ [SLASH]) = off + length name + 1" using assms(3) by simp
  have pre: "take (off + length name + 1) b2 = take off buf @ name @ [SLASH]"
    unfolding len [symmetric] by (subst eq) (rule append_eq_conv_conj [THEN iffD1, THEN conjunct1, symmetric], rule refl)
  have dir: "take off b2 = take off buf"
    using arg_cong [OF b2(3), of "take off"] assms(3) by simp
  obtain b3 where b3: "length b3 = length b2" "take (off + length name + 1) b3 = take (off + length name + 1) b2"
    "\<And>s. for_each (\<lambda>i. initrd_helper fuel m cur arch (arch + saf_child m a i) (off + length name + 1)) [0..<length ts]
        (b2, s) = and_then (unpack_all cur (take off buf @ name @ [SLASH]) ts s) (\<lambda>s'. Inr (b3, s'))"
    using loop [OF b2(2) pre] by (auto simp: unpacks_def)
  have "take off b3 = take off buf"
    using arg_cong [OF b3(2), of "take off"] dir by simp
  then show ?thesis
    unfolding unpacks_def
    by (intro exI [of _ b3]) (use assms(1) b1 b2(1,2) b3(1,3) in \<open>simp add: and_then_def split: sum.split\<close>)
qed

lemma unpacks_Cons:
  assumes "unpacks off buf (f i) g" and "\<And>b. length b = length buf \<Longrightarrow> take off b = take off buf \<Longrightarrow> unpacks off b (for_each f is) h"
  shows "unpacks off buf (for_each f (i # is)) (\<lambda>s. and_then (g s) h)"
proof -
  obtain b1 where b1: "length b1 = length buf" "take off b1 = take off buf"
    "\<And>s. f i (buf, s) = and_then (g s) (\<lambda>s'. Inr (b1, s'))" using assms(1) by (auto simp: unpacks_def)
  obtain b2 where b2: "length b2 = length buf" "take off b2 = take off buf"
    "\<And>s. for_each f is (b1, s) = and_then (h s) (\<lambda>s'. Inr (b2, s'))"
    using assms(2) [OF b1(1,2)] b1(1,2) by (auto simp: unpacks_def)
  show ?thesis
    unfolding unpacks_def
    by (intro exI [of _ b2]) (use b1(3) b2 in \<open>simp add: and_then_def split: sum.split\<close>)
qed

lemma helper_unpacks:
  "archive_at m arch a t \<Longrightarrow> 0 \<notin> set (take off buf) \<Longrightarrow> off + path_room t \<le> length buf \<Longrightarrow> depth t \<le> fuel \<Longrightarrow>
    unpacks off buf (initrd_helper fuel m cur arch a off) (unpack cur (take off buf) t)"
  "archives_at m arch a i ts \<Longrightarrow> 0 \<notin> set (take off buf) \<Longrightarrow> off + path_room_all ts \<le> length buf \<Longrightarrow> depth_all ts \<le> fuel \<Longrightarrow>
    unpacks off buf (for_each (\<lambda>i. initrd_helper fuel m cur arch (arch + saf_child m a i) off) [i..<i + length ts])
      (unpack_all cur (take off buf) ts)"
proof (induction t and ts arbitrary: a off buf fuel and a i off buf fuel rule: depth_depth_all.induct)
  case (1 name data)
  then obtain fuel' where f: "fuel = Suc fuel'" by (cases fuel) auto
  show ?case unfolding f by (rule unpacks_file [OF 1(1,2)]) (use 1(3) in simp)
next
  case (2 name ts)
  then obtain fuel' where f: "fuel = Suc fuel'" "depth_all ts \<le> fuel'" by (cases fuel) auto
  have zero: "0 \<notin> set (take off buf @ name @ [SLASH])" using 2(2,3) cstring_at_nonzero by fastforce
  have "unpacks off buf (initrd_helper (Suc fuel') m cur arch a off) (unpack cur (take off buf) (Folder name ts))"
  proof (rule unpacks_folder [OF 2(2,3)])
    show "off + length name + 2 \<le> length buf" using 2(4) by simp
    fix b assume b: "length b = length buf" "take (off + length name + 1) b = take off buf @ name @ [SLASH]"
    show "unpacks (off + length name + 1) b
        (for_each (\<lambda>i. initrd_helper fuel' m cur arch (arch + saf_child m a i) (off + length name + 1)) [0..<length ts])
        (unpack_all cur (take off buf @ name @ [SLASH]) ts)"
      using 2(1) [of a 0 "off + length name + 1" b fuel'] 2(2,4) b zero f(2) by simp
  qed
  then show ?case by (simp only: f(1))
next
  case 3
  then show ?case by (auto simp: unpacks_def)
next
  case (4 t ts)
  have up: "[i..<i + length (t # ts)] = i # [i + 1..<i + 1 + length ts]"
    using upt_conv_Cons [of i "i + length (t # ts)"] by simp
  have "unpacks off buf (initrd_helper fuel m cur arch (arch + saf_child m a i) off) (unpack cur (take off buf) t)"
    using 4(1) [of "arch + saf_child m a i" off buf fuel] 4(3-6) by simp
  moreover have "unpacks off b
      (for_each (\<lambda>i. initrd_helper fuel m cur arch (arch + saf_child m a i) off) [i + 1..<i + 1 + length ts])
      (unpack_all cur (take off buf) ts)" if "length b = length buf" "take off b = take off buf" for b
    using 4(2) [of a "i + 1" off b fuel] 4(3-6) that by simp
  ultimately have
    "unpacks off buf
      (for_each (\<lambda>i. initrd_helper fuel m cur arch (arch + saf_child m a i) off) (i # [i + 1..<i + 1 + length ts]))
      (\<lambda>s. and_then (unpack cur (take off buf) t s) (unpack_all cur (take off buf) ts))"
    by (rule unpacks_Cons)
  then show ?case unfolding up by (simp add: unpacks_def)
qed

text \<open>C40: On an archive that lies well-formed in memory, whose depth the fuel allows and whose longest path fits
  the 1024 bytes of \<open>path_buff\<close>, the recursion that builds each path in the shared buffer by offsets does to
  the file system exactly what the reference does: a folder is created before its children, a file is created,
  opened, written and closed under its full path, in the order of the archive, and a fault of the file system
  is the only fault.\<close>

theorem initrd_helper_unpacks:
  assumes "archive_at m arch a t" and "depth t \<le> fuel" and "length path_buff = 1024" and "path_room t \<le> 1024"
  shows "and_then (initrd_helper fuel m cur arch a 0 (path_buff, s)) (\<lambda>(_, s'). Inr s') = unpack cur [] t s"
proof -
  have "unpacks 0 path_buff (initrd_helper fuel m cur arch a 0) (unpack cur (take 0 path_buff) t)"
    by (rule helper_unpacks(1)) (use assms in auto)
  then show ?thesis by (cases "unpack cur [] t s") (auto simp: unpacks_def)
qed

text \<open>An archive with a folder at 0 and a file of one byte at 512.\<close>

definition put_list :: "u64 \<Rightarrow> u8 list \<Rightarrow> mem \<Rightarrow> mem" where
  "put_list a bs m = fold (\<lambda>(i, b) m. m(a + of_nat i := b)) (List.enumerate 0 bs) m"

definition small_archive :: mem where
  "small_archive = put_list 0 [0x73, 0x6d, 0x70, 0x6c, 0x72, 0x63, 0x68, 0x76]
     (put_list 512 [0x73, 0x6d, 0x70, 0x6c, 0x72, 0x63, 0x68, 0x76]
     ((\<lambda>_. 0)(16 := SLASH, 272 := 1, 280 := 1, 289 := 2, 528 := 97, 792 := 1, 801 := 4, 1024 := 65)))"

lemma small_archive_at: "archive_at small_archive 0 0 (Folder [SLASH] [File [97] [65]])"
  by (simp add: small_archive_def put_list_def load64_bytes saf_magic_def saf_name_def saf_flags_def saf_file_size_def
      saf_file_addr_def saf_num_children_def saf_child_def mem_bytes_def SAF_MAGIC_NUMBER_def SAF_FLAG_ISFOLDER_def)

theorem initrd_helper_unpacks_witness:
  "and_then (initrd_helper 2 small_archive 0 0 0 0 (replicate 1024 0, started_vfs (\<lambda>_. 0))) (\<lambda>(_, s'). Inr s')
    = unpack_all 0 [SLASH, SLASH] [File [97] [65]] (started_vfs (\<lambda>_. 0))"
proof -
  have "vfs_create [SLASH] VFS_NODE_FOLDER (started_vfs (\<lambda>_. 0)) = Inr (- 1, started_vfs (\<lambda>_. 0))"
    by (simp add: vfs_create_def path_to_node_def path_walk_end)
  then show ?thesis
    using initrd_helper_unpacks [OF small_archive_at, of 2 "replicate 1024 0" 0 "started_vfs (\<lambda>_. 0)"]
    by simp
qed

end
