(* ===== verification/InitrdFiles.thy ===== *)
theory InitrdFiles
  imports InitrdProps
begin

text \<open>
  What the file system holds after the boot archive is unpacked: every folder, and every file with its
  contents, under the path the archive gives it, and everything that was there before.
\<close>

section \<open>Growing a file system\<close>

text \<open>
  Between two states only new nodes appear: the old names and inodes stay, old ramfs contents stay, and the
  directory \<open>p\<close> has gained entries with the names \<open>ns\<close>, other old directories none.
\<close>

definition old_kept :: "vfs \<Rightarrow> vfs \<Rightarrow> inode \<Rightarrow> inode \<Rightarrow> u8 list list \<Rightarrow> bool" where
  "old_kept s s' y y' ns \<longleftrightarrow>
     itype y' = itype y \<and> ifs y' = ifs y \<and> (ifs y = Some RAMFS \<longrightarrow> file_bytes s' y' = file_bytes s y)
     \<and> (\<exists>cs. child y' = child y @ cs \<and> map (field_name s') cs = map (take VFS_MAX_NAME_LEN) ns)"

definition grows :: "vfs \<Rightarrow> inode_ref \<Rightarrow> u8 list list \<Rightarrow> vfs \<Rightarrow> bool" where
  "grows s p ns s' \<longleftrightarrow>
     vfs_ok s \<and> vfs_ok s' \<and> vfs_root s' = vfs_root s
     \<and> (\<forall>t x. tnodes s t = Some x \<longrightarrow> tnodes s' t = Some x)
     \<and> (\<forall>i y. inodes s i = Some y \<longrightarrow>
          (\<exists>y'. inodes s' i = Some y' \<and> old_kept s s' y y' (if i = p then ns else [])))"

lemma growsD:
  assumes "grows s p ns s'"
  shows "vfs_ok s" and "vfs_ok s'" and "vfs_root s' = vfs_root s" and "tnodes s t = Some x \<Longrightarrow> tnodes s' t = Some x"
    and "inodes s i = Some y \<Longrightarrow> \<exists>y'. inodes s' i = Some y' \<and> old_kept s s' y y' (if i = p then ns else [])"
  using assms by (simp_all add: grows_def)

lemma old_names:
  assumes "grows s p ns s'" and "inodes s i = Some y" and "c \<in> set (child y)"
  shows "field_name s' c = field_name s c"
proof -
  obtain x where "tnodes s c = Some x"
    by (rule tree_child [OF vfs_okD(2) [OF growsD(1) [OF assms(1)]] assms(2,3)])
  then show ?thesis using growsD(4) [OF assms(1)] by (simp add: field_name_def)
qed

lemma new_alive:
  assumes "grows s p ns s'" and "inodes s i = Some y" and "inodes s' i = Some y'" and "child y' = child y @ cs"
  shows "\<forall>c\<in>set cs. tnodes s' c \<noteq> None"
proof
  fix c assume "c \<in> set cs"
  then have "c \<in> set (child y')" using assms(4) by simp
  then show "tnodes s' c \<noteq> None"
    by (auto elim: tree_child [OF vfs_okD(2) [OF growsD(2) [OF assms(1)]] assms(3)])
qed

lemma old_kept_trans:
  assumes a: "old_kept s s1 y y1 ns" and b: "old_kept s1 s2 y1 y2 ms"
    and names: "\<And>cs. child y1 = child y @ cs \<Longrightarrow> map (field_name s2) cs = map (field_name s1) cs"
  shows "old_kept s s2 y y2 (ns @ ms)"
proof -
  obtain cs where cs: "child y1 = child y @ cs" "map (field_name s1) cs = map (take VFS_MAX_NAME_LEN) ns"
    using a by (auto simp: old_kept_def)
  obtain ds where ds: "child y2 = child y1 @ ds" "map (field_name s2) ds = map (take VFS_MAX_NAME_LEN) ms"
    using b by (auto simp: old_kept_def)
  have "map (field_name s2) cs = map (take VFS_MAX_NAME_LEN) ns" using names [OF cs(1)] cs(2) by (rule trans)
  then have "child y2 = child y @ (cs @ ds)"
    "map (field_name s2) (cs @ ds) = map (take VFS_MAX_NAME_LEN) (ns @ ms)"
    using cs(1) ds by (simp_all only: map_append append_assoc)
  then show ?thesis using a b unfolding old_kept_def by auto
qed

lemma grows_more:
  assumes a: "grows s p ns s1" and b: "grows s1 q ms s2" and q: "q = p \<or> inodes s q = None"
  shows "grows s p (ns @ (if q = p then ms else [])) s2"
  unfolding grows_def
proof (intro conjI allI impI)
  show "vfs_ok s" "vfs_ok s2" "vfs_root s2 = vfs_root s" using growsD(1,3) [OF a] growsD(2,3) [OF b] by simp_all
  show "tnodes s2 t = Some x" if "tnodes s t = Some x" for t x
    using growsD(4) [OF b growsD(4) [OF a that]] .
  fix i y assume y: "inodes s i = Some y"
  obtain y1 where y1: "inodes s1 i = Some y1" "old_kept s s1 y y1 (if i = p then ns else [])"
    using growsD(5) [OF a y] by blast
  obtain y2 where y2: "inodes s2 i = Some y2" "old_kept s1 s2 y1 y2 (if i = q then ms else [])"
    using growsD(5) [OF b y1(1)] by blast
  have "old_kept s s2 y y2 ((if i = p then ns else []) @ (if i = q then ms else []))"
  proof (rule old_kept_trans [OF y1(2) y2(2)])
    fix cs assume "child y1 = child y @ cs"
    then have "\<forall>c\<in>set cs. tnodes s1 c \<noteq> None" by (rule new_alive [OF a y y1(1)])
    then show "map (field_name s2) cs = map (field_name s1) cs"
      using growsD(4) [OF b] by (auto simp: field_name_def)
  qed
  moreover have "(if i = p then ns else []) @ (if i = q then ms else [])
      = (if i = p then ns @ (if q = p then ms else []) else [])"
    using q y by auto
  ultimately show "\<exists>y'. inodes s2 i = Some y' \<and> old_kept s s2 y y' (if i = p then ns @ (if q = p then ms else []) else [])"
    using y2(1) by auto
qed

section \<open>What growth keeps\<close>

lemma find_append: "find P (xs @ ys) = (case find P xs of None \<Rightarrow> find P ys | Some c \<Rightarrow> Some c)"
  by (induction xs) simp_all

lemma grows_dir:
  assumes g: "grows s p ns s'" and t: "tnodes s t = Some x" "tinode x = Some i"
  shows "dir_at s' t = dir_at s t"
    and "entry s m t = Some c \<Longrightarrow> entry s' m t = Some c"
    and "entry s m t = None \<Longrightarrow> i \<noteq> p \<or> take VFS_MAX_NAME_LEN m \<notin> take VFS_MAX_NAME_LEN ` set ns \<Longrightarrow> entry s' m t = None"
proof -
  obtain y where y: "inodes s i = Some y" "inode_of s t = Some y"
    using tree_inode [OF vfs_okD(2) [OF growsD(1) [OF g]] t(1)] t by (auto simp: inode_of_def)
  obtain y' where y': "inodes s' i = Some y'" "old_kept s s' y y' (if i = p then ns else [])"
    using growsD(5) [OF g y(1)] by blast
  then have of': "inode_of s' t = Some y'" using growsD(4) [OF g t(1)] t(2) by (simp add: inode_of_def)
  show "dir_at s' t = dir_at s t"
    using y'(2) of' y(2) by (simp add: dir_at_def is_traversable_def old_kept_def)
  obtain cs where cs: "child y' = child y @ cs"
    "map (field_name s') cs = map (take VFS_MAX_NAME_LEN) (if i = p then ns else [])"
    using y'(2) by (auto simp: old_kept_def)
  have same: "find (\<lambda>c. field_name s' c = m') (child y) = find (\<lambda>c. field_name s c = m') (child y)" for m'
    using old_names [OF g y(1)] by (intro find_cong) auto
  have eq: "entry s' m t = (case entry s m t of None \<Rightarrow> find (\<lambda>c. field_name s' c = take VFS_MAX_NAME_LEN m) cs | Some c \<Rightarrow> Some c)" for m
    using of' y(2) cs(1) by (simp add: entry_def entries_def find_append same)
  show "entry s m t = Some c \<Longrightarrow> entry s' m t = Some c" by (simp add: eq)
  assume none: "entry s m t = None" and fresh: "i \<noteq> p \<or> take VFS_MAX_NAME_LEN m \<notin> take VFS_MAX_NAME_LEN ` set ns"
  have "field_name s' ` set cs = take VFS_MAX_NAME_LEN ` set (if i = p then ns else [])"
    using arg_cong [OF cs(2), of set] by simp
  then have "take VFS_MAX_NAME_LEN m \<notin> field_name s' ` set cs" using fresh by auto
  then have "find (\<lambda>c. field_name s' c = take VFS_MAX_NAME_LEN m) cs = None"
    unfolding find_None_iff by (metis imageI)
  then show "entry s' m t = None" using none by (simp add: eq)
qed

lemma grows_resolve:
  assumes g: "grows s p ns s'"
  shows "resolve s cs t = Some c \<Longrightarrow> tnodes s t \<noteq> None \<Longrightarrow> resolve s' cs t = Some c"
proof (induction cs arbitrary: t)
  case (Cons m cs)
  have tree: "tree_ok s" by (rule vfs_okD(2) [OF growsD(1) [OF g]])
  obtain x e where x: "tnodes s t = Some x" "dir_at s t" "entry s m t = Some e" "resolve s cs e = Some c"
    using Cons.prems by (auto split: if_splits option.splits)
  obtain i where i: "tinode x = Some i" by (rule tree_inode [OF tree x(1)])
  have "tnodes s e \<noteq> None" using entry_alive(1) [OF tree x(3)] by simp
  then show ?case using Cons.IH [OF x(4)] grows_dir(1,2) [OF g x(1) i] x by simp
qed simp

section \<open>A new node, and a new file with its contents\<close>

lemma file_bytes_cong:
  assumes "ident y' = ident y" and "isize y' = isize y" and "\<And>r. ident y = Some r \<Longrightarrow> idents s' r = idents s r"
  shows "file_bytes s' y' = file_bytes s y"
proof -
  have "get_ram y' s' = get_ram y s" by (rule get_ram_cong [OF assms(1,3)])
  then show ?thesis unfolding file_bytes_def assms(2) by (simp only:)
qed

lemma add_grows:
  assumes add: "adds_node s i y n ty s'"
  shows "grows s i [n] s'"
  unfolding grows_def
proof (intro conjI allI impI)
  note ok = adds_nodeD(1) [OF add] and s' = adds_nodeD(4) [OF add]
  show "vfs_ok s" "vfs_ok s'" by (rule ok, rule add_node_ok [OF add])
  show "vfs_root s' = vfs_root s" by (simp add: s' add_node_inodes)
  show "tnodes s' t = Some x" if "tnodes s t = Some x" for t x by (rule add_node_old(1) [OF add that])
  fix j z assume z: "inodes s j = Some z"
  have jn: "j \<noteq> next_ref s" using z fresh_refs(1) [OF add] by auto
  obtain z' where z': "inodes s' j = Some z'" using old_inode [OF add z] by blast
  have same: "ident z' = ident z" "ifs z' = ifs z" "itype z' = itype z" "isize z' = isize z"
    "child z' = child z @ (if j = i then [next_ref s + 1] else [])"
    by (rule new_inode_cases [OF add z']; use z jn in simp)+
  have "idents s' r = idents s r" if "ident z = Some r" "ifs z = Some RAMFS" for r
  proof -
    have "idents s r \<noteq> None"
      using data_for_inode [OF vfs_okD(5) [OF ok] z] that by (auto simp: data_for_def)
    then have "r \<noteq> next_ref s + 2" using fresh_refs(3) [OF add] by auto
    then show ?thesis by (simp add: s' add_node_inodes)
  qed
  then have "ifs z = Some RAMFS \<longrightarrow> file_bytes s' z' = file_bytes s z"
    using file_bytes_cong [OF same(1,4)] by blast
  moreover have "field_name s' (next_ref s + 1) = take VFS_MAX_NAME_LEN n" by (simp add: s' field_name_add)
  ultimately have "old_kept s s' z z' (if j = i then [n] else [])"
    using same by (simp add: old_kept_def)
  then show "\<exists>z'. inodes s' j = Some z' \<and> old_kept s s' z z' (if j = i then [n] else [])" using z' by blast
qed

text \<open>The state after \<open>write_file\<close> on an empty file: the slot of the handle stays in the table, closed.\<close>

definition stored :: "nat \<Rightarrow> inode_ref \<Rightarrow> inode \<Rightarrow> ident_ref \<Rightarrow> u8 list \<Rightarrow> vfs \<Rightarrow> vfs" where
  "stored cur j z r data s =
     s\<lparr>inodes := (inodes s)(j \<mapsto> z\<lparr>isize := of_nat (length data)\<rparr>),
       idents := (if data = [] then idents s
         else (idents s)(r \<mapsto> Ram_Ident \<lparr>ram_alloc = of_nat (length data), ram_data = Some data\<rparr>)),
       next_ref := next_ref s + 1, files := (files s)(cur := files s cur @ [None])\<rparr>"

lemma overwrite_all: "length new = length bs \<Longrightarrow> overwrite bs 0 new = new"
  by (simp add: overwrite_def)

lemma write_opened:
  assumes j: "inodes s j = Some z" "itype z = VFS_NODE_FILE" "ifs z = Some RAMFS" "isize z = 0"
    and r: "ident z = Some r" "idents s r = Some (Ram_Ident \<lparr>ram_alloc = 0, ram_data = None\<rparr>)"
    and len: "length data < 2 ^ 64"
  shows "vfs_write cur (int (length (files s cur))) data (opened cur t j z VFS_MODE_WRITE s)
    = Inr (of_nat (length data), (opened cur t j z VFS_MODE_WRITE s)
        \<lparr>inodes := (inodes s)(j \<mapsto> z\<lparr>refcount := refcount z + 1, isize := of_nat (length data)\<rparr>),
          idents := idents (stored cur j z r data s),
          descs := (descs s)(next_ref s \<mapsto>
            \<lparr>nd_tnode = t, nd_inode = j, nd_mode = VFS_MODE_WRITE, seek_pos = of_nat (length data)\<rparr>)\<rparr>)"
proof (cases "data = []")
  case True
  then show ?thesis
    using j r by (cases z) (simp add: vfs_write_def handle_to_fd_def opened_def fs_of_def fs_write_def ramfs_write_def
        get_ram_def block_range_def stored_def Let_def)
next
  case False
  let ?n = "of_nat (length data) :: u64"
  have u: "unat ?n = length data" using len by (rule unat_of_nat64)
  have n: "?n \<noteq> 0" "0 < ?n" using False u by (auto simp: word_less_nat_alt)
  have g: "length (grow jk ?n None) = length data" for jk by (simp add: grow_def Let_def u)
  show ?thesis
    using j r n False u g overwrite_all [of data] unfolding vfs_write_def
    by (simp add: handle_to_fd_def opened_def fs_of_def fs_write_def ramfs_write_def
        get_ram_def block_range_def stored_def Let_def has_size_def fs_sync_def ramfs_sync_def set_ram_def)
qed

lemma write_file_stored:
  assumes ok: "vfs_ok s" and few: "few_objects s"
    and path: "path_to_node path NO_CREATE VFS_NODE_FILE s = Inr (Some t, s)" "tnodes s t = Some x" "tinode x = Some j"
    and j: "inodes s j = Some z" "itype z = VFS_NODE_FILE" "ifs z = Some RAMFS" "isize z = 0"
    and r: "ident z = Some r" "idents s r = Some (Ram_Ident \<lparr>ram_alloc = 0, ram_data = None\<rparr>)"
    and len: "length data < 2 ^ 64"
  shows "write_file cur path data s = Inr (stored cur j z r data s)" and "vfs_ok (stored cur j z r data s)"
proof -
  let ?h = "int (length (files s cur))" and ?s1 = "opened cur t j z VFS_MODE_WRITE s"
  let ?d = "\<lparr>nd_tnode = t, nd_inode = j, nd_mode = VFS_MODE_WRITE, seek_pos = of_nat (length data)\<rparr>"
  let ?z = "z\<lparr>refcount := refcount z + 1, isize := of_nat (length data)\<rparr>"
  note open' = vfs_open_eq [OF path j(1), of cur VFS_MODE_WRITE]
  define s2 where "s2 = ?s1\<lparr>inodes := (inodes s)(j \<mapsto> ?z),
    idents := idents (stored cur j z r data s), descs := (descs s)(next_ref s \<mapsto> ?d)\<rparr>"
  have wr: "vfs_write cur ?h data ?s1 = Inr (of_nat (length data), s2)"
    using write_opened [OF j r len] by (simp add: s2_def)
  have ok2: "vfs_ok s2" by (rule vfs_write_ok [OF opened_ok [OF ok few j(1)] wr len])
  have fresh: "descs s (next_ref s) = None" using refs_fresh [OF vfs_okD(1) [OF ok]] by simp
  have h: "handle_to_fd cur ?h s2 = Some (next_ref s)" by (simp add: handle_to_fd_def s2_def opened_def)
  have d: "descs s2 (next_ref s) = Some ?d" "inodes s2 (nd_inode ?d) = Some ?z" by (simp_all add: s2_def)
  have dd: "(descs s)(next_ref s := None) = descs s" using fresh by (simp add: fun_upd_idem)
  have zz: "?z\<lparr>refcount := refcount ?z - 1\<rparr> = z\<lparr>isize := of_nat (length data)\<rparr>" by (cases z) simp
  have "closed cur (nat ?h) (next_ref s) (nd_inode ?d) ?z s2 = stored cur j z r data s"
    unfolding closed_def zz by (simp add: s2_def opened_def stored_def dd)
  then have close: "vfs_close cur ?h s2 = Inr (0, stored cur j z r data s)"
    using vfs_close_eq [OF h d] by simp
  show "write_file cur path data s = Inr (stored cur j z r data s)"
    unfolding write_file_def using open' wr close by simp
  show "vfs_ok (stored cur j z r data s)" using vfs_close_ok [OF ok2, of cur ?h] close by simp
qed

section \<open>Paths of the archive\<close>

definition good_name :: "u8 list \<Rightarrow> bool" where
  "good_name n \<longleftrightarrow> n \<noteq> [] \<and> SLASH \<notin> set n \<and> length n < VFS_MAX_NAME_LEN"

definition dir_path :: "u8 list list \<Rightarrow> u8 list" where
  "dir_path ds = concat (map (\<lambda>d. d @ [SLASH]) ds)"

lemma dir_path_simps [simp]: "dir_path [] = []" "dir_path (d # ds) = d @ SLASH # dir_path ds"
  "dir_path (ds @ [n]) = dir_path ds @ n @ [SLASH]"
  by (simp_all add: dir_path_def)

lemma components_name: "good_name n \<Longrightarrow> components n = [n]"
proof -
  assume n: "good_name n"
  then have tw: "takeWhile (\<lambda>c. c \<noteq> SLASH) n = n" by (auto simp: good_name_def takeWhile_eq_all_conv)
  show ?thesis using n by (subst components.simps) (simp add: good_name_def tw del: takeWhile_eq_all_conv)
qed

lemma components_dir_path:
  "\<forall>d\<in>set ds. good_name d \<Longrightarrow> good_name n \<Longrightarrow> components (dir_path ds @ n) = ds @ [n]"
  by (induction ds) (simp_all add: components_name components_slash good_name_def)

lemma good_path:
  assumes "\<forall>d\<in>set ds. good_name d" and "good_name n"
  shows "short_names (dir_path ds @ n)" and "can_end (dir_path ds @ n)"
proof -
  have "length d < VFS_MAX_PATH_LEN" if "good_name d" for d using that by (simp add: good_name_def)
  then show "short_names (dir_path ds @ n)"
    using assms by (auto simp: short_names_def components_dir_path [OF assms])
  have "last n \<in> set n" "n \<noteq> []" using assms(2) by (simp_all add: good_name_def)
  moreover have "SLASH \<notin> set n" using assms(2) by (simp add: good_name_def)
  ultimately have "last n \<noteq> SLASH" "n \<noteq> []" by metis+
  then show "can_end (dir_path ds @ n)" by (simp add: can_end_def)
qed

text \<open>A directory of a ramfs under its path.\<close>

definition ram_dir :: "vfs \<Rightarrow> u8 list list \<Rightarrow> tnode_ref \<Rightarrow> inode_ref \<Rightarrow> bool" where
  "ram_dir s ds e i \<longleftrightarrow> (\<forall>d\<in>set ds. good_name d) \<and> resolve s ds (vfs_root s) = Some e \<and> dir_at s e
     \<and> (\<exists>x y. tnodes s e = Some x \<and> tinode x = Some i \<and> inodes s i = Some y \<and> ifs y = Some RAMFS)"

lemma create_grows:
  assumes ok: "vfs_ok s" and dir: "ram_dir s ds e i" and n: "good_name n" and new: "entry s n e = None"
  obtains s' x z where "vfs_create (SLASH # dir_path ds @ n) ty s = Inr (0, s')" and "grows s i [n] s'"
    and "vfs_ok s'" and "resolve s' (ds @ [n]) (vfs_root s') = Some (next_ref s + 1)"
    and "tnodes s' (next_ref s + 1) = Some x" and "tinode x = Some (next_ref s)" and "inodes s (next_ref s) = None"
    and "inodes s' (next_ref s) = Some z" and "itype z = ty" and "isize z = 0" and "ifs z = Some RAMFS"
    and "child z = []" and "ident z = Some (next_ref s + 2)"
    and "idents s' (next_ref s + 2) = Some (Ram_Ident \<lparr>ram_alloc = 0, ram_data = None\<rparr>)"
    and "next_ref s' = next_ref s + 3"
proof -
  obtain x y where x: "tnodes s e = Some x" "tinode x = Some i" "inodes s i = Some y" "ifs y = Some RAMFS"
    and res: "resolve s ds (vfs_root s) = Some e" "dir_at s e" "\<forall>d\<in>set ds. good_name d"
    using dir by (auto simp: ram_dir_def)
  note ok' = vfs_okD [OF ok]
  have root: "tnodes s (vfs_root s) \<noteq> None" using tree_root [OF ok'(2)] by auto
  have of_e: "inode_of s e = Some y" using x by (simp add: inode_of_def)
  have add: "adds_node s i y n ty (add_node i y n ty s)"
    using ok x entry_None [OF new of_e] by (simp add: adds_node_def)
  have w: "walk s (components (dir_path ds @ n)) (vfs_root s) True [] = (e, False, n)"
    unfolding components_dir_path [OF res(3) n] by (rule walk_resolve_last [OF res(1,2) new])
  have run: "vfs_create (SLASH # dir_path ds @ n) ty s = Inr (0, add_node i y n ty s)"
    using path_to_node_missing [OF ok'(2,1,5) good_path(1) [OF res(3) n] w x(1-3), of "CREATE OR ERR_ON_EXIST" ty]
      res(2) good_path(2) [OF res(3) n] by (simp add: vfs_create_def)
  have root': "vfs_root (add_node i y n ty s) = vfs_root s" by (simp add: add_node_inodes)
  have reach: "resolve (add_node i y n ty s) (ds @ [n]) (vfs_root s) = Some (next_ref s + 1)"
    using add_node_resolve [OF add res(1) root] add_node_old(2,5) [OF add x(1)] x(2) new res(2)
    by (simp add: resolve_append)
  show thesis
    by (rule that [OF run add_grows [OF add] add_node_ok [OF add] reach [folded root'],
          where x = "\<lparr>tname = take VFS_MAX_NAME_LEN n, tinode = Some (next_ref s), tparent = Some i\<rparr>"
          and z = "\<lparr>itype = ty, isize = 0, perms = 511, uid = 0, refcount = 1, ifs = Some RAMFS,
            ident = Some (next_ref s + 2), mountpoint = mountpoint y, child = []\<rparr>"])
      (simp_all add: add_node_inodes x(4) fresh_data_def fresh_refs(1) [OF add])
qed

section \<open>Unpacking\<close>

text \<open>The ramfs node under a path, its type and (for a file) its contents.\<close>

definition has_node :: "vfs \<Rightarrow> u8 list list \<Rightarrow> node_type \<Rightarrow> u8 list \<Rightarrow> bool" where
  "has_node s cs ty data \<longleftrightarrow> (\<exists>t x i y. resolve s cs (vfs_root s) = Some t \<and> tnodes s t = Some x \<and> tinode x = Some i
     \<and> inodes s i = Some y \<and> itype y = ty \<and> ifs y = Some RAMFS \<and> file_bytes s y = data)"

fun holds :: "vfs \<Rightarrow> u8 list list \<Rightarrow> archive \<Rightarrow> bool"
  and holds_all :: "vfs \<Rightarrow> u8 list list \<Rightarrow> archive list \<Rightarrow> bool" where
  "holds s ds (File n data) \<longleftrightarrow> has_node s (ds @ [n]) VFS_NODE_FILE data"
| "holds s ds (Folder n ts) \<longleftrightarrow> has_node s (ds @ [n]) VFS_NODE_FOLDER [] \<and> holds_all s (ds @ [n]) ts"
| "holds_all s ds [] \<longleftrightarrow> True"
| "holds_all s ds (t # ts) \<longleftrightarrow> holds s ds t \<and> holds_all s ds ts"

text \<open>An archive with good names, no two the same in a folder, and its number of nodes.\<close>

fun label :: "archive \<Rightarrow> u8 list" where
  "label (File n data) = n"
| "label (Folder n ts) = n"

fun good :: "archive \<Rightarrow> bool" and good_all :: "archive list \<Rightarrow> bool" where
  "good (File n data) \<longleftrightarrow> good_name n \<and> length data < 2 ^ 64"
| "good (Folder n ts) \<longleftrightarrow> good_name n \<and> good_all ts"
| "good_all [] \<longleftrightarrow> True"
| "good_all (t # ts) \<longleftrightarrow> good t \<and> label t \<notin> label ` set ts \<and> good_all ts"

fun nodes :: "archive \<Rightarrow> nat" and nodes_all :: "archive list \<Rightarrow> nat" where
  "nodes (File n data) = 1"
| "nodes (Folder n ts) = Suc (nodes_all ts)"
| "nodes_all [] = 0"
| "nodes_all (t # ts) = nodes t + nodes_all ts"

lemma good_label: "good t \<Longrightarrow> good_name (label t)"
  by (cases t) simp_all

lemma take_label: "good_name n \<Longrightarrow> take VFS_MAX_NAME_LEN n = n"
  by (simp add: good_name_def)

lemma has_node_kept:
  assumes g: "grows s p ns s'" and h: "has_node s cs ty data"
  shows "has_node s' cs ty data"
proof -
  obtain t x i y where t: "resolve s cs (vfs_root s) = Some t" "tnodes s t = Some x" "tinode x = Some i"
    "inodes s i = Some y" "itype y = ty" "ifs y = Some RAMFS" "file_bytes s y = data"
    using h by (auto simp: has_node_def)
  have "tnodes s (vfs_root s) \<noteq> None" using tree_root [OF vfs_okD(2) [OF growsD(1) [OF g]]] by auto
  then have "resolve s' cs (vfs_root s') = Some t" using grows_resolve [OF g t(1)] growsD(3) [OF g] by simp
  then show ?thesis
    using growsD(4) [OF g t(2)] growsD(5) [OF g t(4)] t(3,5-7) unfolding has_node_def old_kept_def by metis
qed

lemma holds_kept:
  assumes "grows s p ns s'"
  shows "holds s ds t \<Longrightarrow> holds s' ds t" and "holds_all s ds ts \<Longrightarrow> holds_all s' ds ts"
  by (induction t and ts arbitrary: ds and ds rule: nodes_nodes_all.induct) (auto simp: has_node_kept [OF assms])

lemma ram_dir_kept:
  assumes g: "grows s p ns s'" and d: "ram_dir s ds e i"
  shows "ram_dir s' ds e i"
proof -
  obtain x y where x: "tnodes s e = Some x" "tinode x = Some i" "inodes s i = Some y" "ifs y = Some RAMFS"
    and r: "resolve s ds (vfs_root s) = Some e" "dir_at s e" "\<forall>d\<in>set ds. good_name d"
    using d by (auto simp: ram_dir_def)
  have "tnodes s (vfs_root s) \<noteq> None" using tree_root [OF vfs_okD(2) [OF growsD(1) [OF g]]] by auto
  then have "resolve s' ds (vfs_root s') = Some e" using grows_resolve [OF g r(1)] growsD(3) [OF g] by simp
  moreover have "dir_at s' e" using grows_dir(1) [OF g x(1,2)] r(2) by simp
  moreover obtain y' where "inodes s' i = Some y'" "ifs y' = Some RAMFS"
    using growsD(5) [OF g x(3)] x(4) by (auto simp: old_kept_def)
  ultimately show ?thesis using growsD(4) [OF g x(1)] x(2) r(3) by (auto simp: ram_dir_def)
qed

lemma sibling_free:
  assumes g: "grows s i [n] s'" and d: "ram_dir s ds e i" and "good_name n" "good_name m" and "m \<noteq> n"
    and "entry s m e = None"
  shows "entry s' m e = None"
proof -
  obtain x where "tnodes s e = Some x" "tinode x = Some i" using d by (auto simp: ram_dir_def)
  from grows_dir(3) [OF g this assms(6)] show ?thesis using assms(3-5) by (simp add: take_label)
qed

lemma resolve_stored:
  assumes "inodes s j = Some z"
  shows "resolve (stored cur j z r data s) cs t = resolve s cs t"
proof -
  let ?s = "stored cur j z r data s"
  have tn: "tnodes ?s = tnodes s" by (simp add: stored_def)
  have of': "inode_of ?s t = map_option (\<lambda>y. if Option.bind (tnodes s t) tinode = Some j
      then y\<lparr>isize := of_nat (length data)\<rparr> else y) (inode_of s t)" for t
    using assms by (cases "tnodes s t"; cases "tinode (the (tnodes s t))") (auto simp: inode_of_def stored_def option.map_ident)
  have "dir_at ?s t = dir_at s t" "entries ?s t = entries s t" for t
    by (cases "inode_of s t"; simp add: dir_at_def entries_def of' is_traversable_def)+
  then have dir: "dir_at ?s = dir_at s" and ents: "entries ?s = entries s" by auto
  have "field_name ?s = field_name s" by (rule ext) (simp add: field_name_def tn)
  then have "entry ?s n t = entry s n t" for n t by (simp add: entry_def ents)
  then show ?thesis by (induction cs arbitrary: t) (simp_all add: dir split: option.split)
qed

text \<open>One file: created and filled.\<close>

lemma unpack_file:
  assumes ok: "vfs_ok s" and dir: "ram_dir s ds e i" and n: "good_name n" and new: "entry s n e = None"
    and len: "length data < 2 ^ 64" and few: "next_ref s + 4 < 2 ^ 31"
  shows "\<exists>s'. unpack cur (SLASH # dir_path ds) (File n data) s = Inr s' \<and> grows s i [n] s'
    \<and> has_node s' (ds @ [n]) VFS_NODE_FILE data \<and> next_ref s' = next_ref s + 4"
proof -
  obtain s1 x z where c: "vfs_create (SLASH # dir_path ds @ n) VFS_NODE_FILE s = Inr (0, s1)"
    and g: "grows s i [n] s1" and ok1: "vfs_ok s1"
    and res: "resolve s1 (ds @ [n]) (vfs_root s1) = Some (next_ref s + 1)"
    and x: "tnodes s1 (next_ref s + 1) = Some x" "tinode x = Some (next_ref s)" and fresh: "inodes s (next_ref s) = None"
    and z: "inodes s1 (next_ref s) = Some z" "itype z = VFS_NODE_FILE" "ifs z = Some RAMFS" "isize z = 0"
    and r: "ident z = Some (next_ref s + 2)"
      "idents s1 (next_ref s + 2) = Some (Ram_Ident \<lparr>ram_alloc = 0, ram_data = None\<rparr>)"
    and k: "next_ref s1 = next_ref s + 3"
    by (rule create_grows [OF ok dir n new, of VFS_NODE_FILE]) metis
  have names: "\<forall>d\<in>set ds. good_name d" using dir by (simp add: ram_dir_def)
  obtain b where "walk s1 (components (dir_path ds @ n)) (vfs_root s1) True [] = (next_ref s + 1, True, b)"
    using walk_resolve [OF res] components_dir_path [OF names n] by metis
  then have path: "path_to_node (SLASH # dir_path ds @ n) NO_CREATE VFS_NODE_FILE s1 = Inr (Some (next_ref s + 1), s1)"
    using path_to_node_found [OF vfs_okD(2) [OF ok1] good_path(1) [OF names n]] by simp
  have few1: "few_objects s1" using few k by (simp add: few_objects_def)
  let ?s = "stored cur (next_ref s) z (next_ref s + 2) data s1"
  note st = write_file_stored [OF ok1 few1 path x z(1-4) r len, of cur]
  have u: "unat (of_nat (length data) :: u64) = length data" using len by (rule unat_of_nat64)
  have old: "old_kept s ?s y y1 ns" if y: "inodes s j = Some y" "inodes s1 j = Some y1" "old_kept s s1 y y1 ns" for j y y1 ns
  proof -
    have "ident y1 \<noteq> Some (next_ref s + 2)"
      using vfs_okD(5) [OF ok1] y(1,2) z(1) r(1) fresh unfolding data_ok_def by (metis option.distinct(1))
    then have "file_bytes ?s y1 = file_bytes s1 y1" by (intro file_bytes_cong) (auto simp: stored_def)
    moreover have "field_name ?s = field_name s1" by (rule ext) (simp add: field_name_def stored_def)
    ultimately show ?thesis using y(3) by (simp add: old_kept_def)
  qed
  have "grows s i [n] ?s"
    unfolding grows_def
  proof (intro conjI allI impI)
    show "vfs_ok s" "vfs_ok ?s" by (rule ok, rule st(2))
    show "vfs_root ?s = vfs_root s" using growsD(3) [OF g] by (simp add: stored_def)
    show "tnodes ?s t = Some x" if "tnodes s t = Some x" for t x
      using growsD(4) [OF g that] by (simp add: stored_def)
    fix j y assume y: "inodes s j = Some y"
    then obtain y1 where y1: "inodes s1 j = Some y1" "old_kept s s1 y y1 (if j = i then [n] else [])"
      using growsD(5) [OF g] by blast
    have "inodes ?s j = Some y1" using y1(1) y fresh by (auto simp: stored_def)
    then show "\<exists>y'. inodes ?s j = Some y' \<and> old_kept s ?s y y' (if j = i then [n] else [])"
      using old [OF y y1] by blast
  qed
  moreover have "has_node ?s (ds @ [n]) VFS_NODE_FILE data"
  proof -
    have "resolve ?s (ds @ [n]) (vfs_root ?s) = Some (next_ref s + 1)"
      using res resolve_stored [OF z(1)] by (simp add: stored_def)
    moreover have "tnodes ?s (next_ref s + 1) = Some x" using x by (simp add: stored_def)
    moreover have "inodes ?s (next_ref s) = Some (z\<lparr>isize := of_nat (length data)\<rparr>)" by (simp add: stored_def)
    moreover have "file_bytes ?s (z\<lparr>isize := of_nat (length data)\<rparr>) = data"
      using r u by (simp add: file_bytes_def get_ram_def stored_def)
    ultimately show ?thesis using x(2) z(2,3) by (auto simp: has_node_def)
  qed
  ultimately show ?thesis using c st(1) k by (auto simp: stored_def)
qed

lemma unpack_holds:
  "vfs_ok s \<Longrightarrow> ram_dir s ds e i \<Longrightarrow> good t \<Longrightarrow> entry s (label t) e = None \<Longrightarrow> next_ref s + 4 * nodes t < 2 ^ 31 \<Longrightarrow>
    \<exists>s'. unpack cur (SLASH # dir_path ds) t s = Inr s' \<and> grows s i [label t] s' \<and> holds s' ds t
      \<and> next_ref s' \<le> next_ref s + 4 * nodes t"
  "vfs_ok s \<Longrightarrow> ram_dir s ds e i \<Longrightarrow> good_all ts \<Longrightarrow> (\<forall>t\<in>set ts. entry s (label t) e = None) \<Longrightarrow>
    next_ref s + 4 * nodes_all ts < 2 ^ 31 \<Longrightarrow>
    \<exists>s'. unpack_all cur (SLASH # dir_path ds) ts s = Inr s' \<and> grows s i (map label ts) s' \<and> holds_all s' ds ts
      \<and> next_ref s' \<le> next_ref s + 4 * nodes_all ts"
proof (induction t and ts arbitrary: s ds e i and s ds e i rule: nodes_nodes_all.induct)
  case (1 n data)
  then obtain s' where "unpack cur (SLASH # dir_path ds) (File n data) s = Inr s'" "grows s i [n] s'"
    "has_node s' (ds @ [n]) VFS_NODE_FILE data" "next_ref s' = next_ref s + 4"
    using unpack_file [OF 1(1,2), of n data cur] by auto
  then show ?case by simp
next
  case (2 n ts)
  have n: "good_name n" and new: "entry s n e = None" using 2(4,5) by simp_all
  obtain s1 x z where c: "vfs_create (SLASH # dir_path ds @ n) VFS_NODE_FOLDER s = Inr (0, s1)"
    and g: "grows s i [n] s1" and ok1: "vfs_ok s1"
    and res: "resolve s1 (ds @ [n]) (vfs_root s1) = Some (next_ref s + 1)"
    and x: "tnodes s1 (next_ref s + 1) = Some x" "tinode x = Some (next_ref s)" and fresh: "inodes s (next_ref s) = None"
    and z: "inodes s1 (next_ref s) = Some z" "itype z = VFS_NODE_FOLDER" "isize z = 0" "ifs z = Some RAMFS" "child z = []"
    and k: "next_ref s1 = next_ref s + 3"
    by (rule create_grows [OF 2(2,3) n new, of VFS_NODE_FOLDER]) metis
  have of1: "inode_of s1 (next_ref s + 1) = Some z" using x z(1) by (simp add: inode_of_def)
  have dir1: "ram_dir s1 (ds @ [n]) (next_ref s + 1) (next_ref s)"
    using 2(3) n res x z of1 by (auto simp: ram_dir_def dir_at_def is_traversable_def)
  have empty: "\<forall>t\<in>set ts. entry s1 (label t) (next_ref s + 1) = None"
    using of1 z(5) by (simp add: entry_def entries_def)
  have gd: "good_all ts" using 2(4) by simp
  have few: "next_ref s1 + 4 * nodes_all ts < 2 ^ 31" using 2(6) k by simp
  obtain s2 where s2: "unpack_all cur (SLASH # dir_path (ds @ [n])) ts s1 = Inr s2"
    "grows s1 (next_ref s) (map label ts) s2" "holds_all s2 (ds @ [n]) ts" "next_ref s2 \<le> next_ref s1 + 4 * nodes_all ts"
    using 2(1) [OF ok1 dir1 gd empty few] by blast
  have "file_bytes s1 z = []"
    using z(3) by (auto simp: file_bytes_def split: sum.split option.split)
  then have "has_node s1 (ds @ [n]) VFS_NODE_FOLDER []" using res x z by (auto simp: has_node_def)
  then have "has_node s2 (ds @ [n]) VFS_NODE_FOLDER []" by (rule has_node_kept [OF s2(2)])
  moreover have "next_ref s \<noteq> i" using fresh 2(3) by (auto simp: ram_dir_def)
  then have "grows s i [n] s2" using grows_more [OF g s2(2)] fresh by simp
  ultimately show ?case using c s2 k by simp
next
  case 3
  then show ?case by (auto simp: grows_def old_kept_def)
next
  case (4 t ts)
  have t: "good t" "entry s (label t) e = None" "next_ref s + 4 * nodes t < 2 ^ 31" using 4(5-7) by simp_all
  obtain s1 where s1: "unpack cur (SLASH # dir_path ds) t s = Inr s1" "grows s i [label t] s1" "holds s1 ds t"
    "next_ref s1 \<le> next_ref s + 4 * nodes t" using 4(1) [OF 4(3,4) t] by blast
  have gl: "good_name (label u)" if "u \<in> set ts" for u
  proof -
    have "good_all ts \<Longrightarrow> good u" using that by (induction ts) auto
    then show ?thesis using 4(5) good_label by simp
  qed
  have free: "\<forall>u\<in>set ts. entry s1 (label u) e = None"
  proof
    fix u assume u: "u \<in> set ts"
    have "label t \<notin> label ` set ts" using 4(5) by simp
    then have "label u \<noteq> label t" using u by (metis imageI)
    moreover have "entry s (label u) e = None" using 4(6) u by simp
    ultimately show "entry s1 (label u) e = None"
      by (rule sibling_free [OF s1(2) 4(4) good_label [OF t(1)] gl [OF u]])
  qed
  have ts: "good_all ts" "next_ref s1 + 4 * nodes_all ts < 2 ^ 31" using 4(5,7) s1(4) by simp_all
  obtain s2 where s2: "unpack_all cur (SLASH # dir_path ds) ts s1 = Inr s2" "grows s1 i (map label ts) s2"
    "holds_all s2 ds ts" "next_ref s2 \<le> next_ref s1 + 4 * nodes_all ts"
    using 4(2) [OF growsD(2) [OF s1(2)] ram_dir_kept [OF s1(2) 4(4)] ts(1) free ts(2)] by blast
  have "grows s i (map label (t # ts)) s2" using grows_more [OF s1(2) s2(2)] by simp
  moreover have "holds s2 ds t" by (rule holds_kept(1) [OF s2(2) s1(3)])
  ultimately show ?case using s1(1,4) s2 by simp
qed

section \<open>Reading what was unpacked\<close>

fun files_in :: "u8 list list \<Rightarrow> archive \<Rightarrow> (u8 list list \<times> u8 list) list"
  and files_all :: "u8 list list \<Rightarrow> archive list \<Rightarrow> (u8 list list \<times> u8 list) list" where
  "files_in ds (File n data) = [(ds @ [n], data)]"
| "files_in ds (Folder n ts) = files_all (ds @ [n]) ts"
| "files_all ds [] = []"
| "files_all ds (t # ts) = files_in ds t @ files_all ds ts"

lemma holds_files:
  "holds s ds t \<Longrightarrow> (cs, data) \<in> set (files_in ds t) \<Longrightarrow> has_node s cs VFS_NODE_FILE data"
  "holds_all s ds ts \<Longrightarrow> (cs, data) \<in> set (files_all ds ts) \<Longrightarrow> has_node s cs VFS_NODE_FILE data"
  by (induction t and ts arbitrary: ds and ds rule: nodes_nodes_all.induct) auto

lemma read_opened:
  assumes ok: "vfs_ok s" and few: "few_objects s" and short: "short_names p"
    and node: "has_node s (components p) VFS_NODE_FILE data" and n: "length data \<le> unat n"
  shows "\<exists>h s1 s2. vfs_open cur (SLASH # p) VFS_MODE_READ s = Inr (h, s1)
    \<and> vfs_read cur h n s1 = Inr (of_nat (length data), data, s2)"
proof -
  obtain t x i y where t: "resolve s (components p) (vfs_root s) = Some t" "tnodes s t = Some x" "tinode x = Some i"
    "inodes s i = Some y" "itype y = VFS_NODE_FILE" "ifs y = Some RAMFS" "file_bytes s y = data"
    using node by (auto simp: has_node_def)
  obtain b where "walk s (components p) (vfs_root s) True [] = (t, True, b)" using walk_resolve [OF t(1)] by blast
  then have path: "path_to_node (SLASH # p) NO_CREATE VFS_NODE_FILE s = Inr (Some t, s)"
    using path_to_node_found [OF vfs_okD(2) [OF ok] short] by simp
  let ?h = "int (length (files s cur))" and ?s = "opened cur t i y VFS_MODE_READ s"
  let ?y = "y\<lparr>refcount := refcount y + 1\<rparr>"
  let ?d = "\<lparr>nd_tnode = t, nd_inode = i, nd_mode = VFS_MODE_READ, seek_pos = 0\<rparr>"
  have open': "vfs_open cur (SLASH # p) VFS_MODE_READ s = Inr (?h, ?s)" by (rule vfs_open_eq [OF path t(2-4)])
  have ok1: "vfs_ok ?s" by (rule opened_ok [OF ok few t(4)])
  have fb: "file_bytes ?s ?y = data" using t(7) by (subst file_bytes_cong [of ?y y _ s]) (simp_all add: opened_def)
  have f: "ram_file ?s cur ?h (next_ref s) ?d ?y"
    using t(5,6) by (simp add: ram_file_def handle_to_fd_def opened_def has_size_def)
  from read_returns_contents [OF ok1 f, of n] obtain k where
    "vfs_read cur ?h n ?s = Inr (k, take (unat n) data, ?s\<lparr>descs := (descs ?s)(next_ref s \<mapsto> ?d\<lparr>seek_pos := k\<rparr>)\<rparr>)"
    "unat k = min (unat n) (length data)"
    using fb unsigned_less [of n, where ?'a = nat] by auto
  moreover from this(2) have "k = of_nat (length data)" using n by (metis min.absorb2 of_nat_unat ucast_id)
  ultimately show ?thesis using open' n by auto
qed

lemma helper_holds:
  assumes at: "archive_at m arch a (Folder [] ts)" and fuel: "depth_all ts < fuel"
    and buf: "length path_buff = 1024" "path_room (Folder [] ts) \<le> 1024"
    and ok: "vfs_ok s" and root: "ram_dir s [] e i" and good: "good_all ts"
    and new: "\<forall>t\<in>set ts. entry s (label t) e = None" and few: "next_ref s + 4 * nodes_all ts < 2 ^ 31"
  obtains buf' s' where "initrd_helper fuel m cur arch a 0 (path_buff, s) = Inr (buf', s')" and "grows s i (map label ts) s'"
    and "holds_all s' [] ts" and "vfs_ok s'" and "few_objects s'"
proof -
  obtain s' where s': "unpack_all cur (SLASH # dir_path []) ts s = Inr s'" "grows s i (map label ts) s'"
    "holds_all s' [] ts" "next_ref s' \<le> next_ref s + 4 * nodes_all ts"
    using unpack_holds(2) [OF ok root good new few, of cur] by blast
  have "unpack cur [] (Folder [] ts) s = Inr s'"
    using s'(1) by (simp add: vfs_create_def path_to_node_relative)
  moreover have "unpacks 0 path_buff (initrd_helper fuel m cur arch a 0) (unpack cur (take 0 path_buff) (Folder [] ts))"
    by (rule helper_unpacks(1) [OF at]) (use fuel buf in auto)
  ultimately obtain buf' where "initrd_helper fuel m cur arch a 0 (path_buff, s) = Inr (buf', s')"
    by (auto simp: unpacks_def)
  moreover have "few_objects s'" using s'(4) few by (simp add: few_objects_def)
  ultimately show thesis using that s'(2,3) growsD(2) [OF s'(2)] by blast
qed

text \<open>C12: Starting from a file system with a ramfs at its root, unpacking a well-formed archive (good names, no
  two the same in a folder, paths that fit the buffer) ends without a fault, and then every file of the archive
  opens under its path and reads back as the bytes the archive has for it; the invariant holds and all that was
  there before is kept.\<close>

theorem initrd_files_readable:
  assumes at: "archive_at m arch a (Folder [] ts)" and fuel: "depth_all ts < fuel"
    and buf: "length path_buff = 1024" "path_room (Folder [] ts) \<le> 1024"
    and ok: "vfs_ok s" and root: "ram_dir s [] e i" and good: "good_all ts"
    and new: "\<forall>t\<in>set ts. entry s (label t) e = None" and few: "next_ref s + 4 * nodes_all ts < 2 ^ 31"
  shows "\<exists>buf' s'. initrd_helper fuel m cur arch a 0 (path_buff, s) = Inr (buf', s') \<and> grows s i (map label ts) s'
    \<and> (\<forall>(cs, data)\<in>set (files_all [] ts). \<forall>p n. components p = cs \<longrightarrow> short_names p \<longrightarrow> length data \<le> unat n \<longrightarrow>
        (\<exists>h s1 s2. vfs_open cur (SLASH # p) VFS_MODE_READ s' = Inr (h, s1)
          \<and> vfs_read cur h n s1 = Inr (of_nat (length data), data, s2)))"
proof -
  obtain buf' s' where s': "initrd_helper fuel m cur arch a 0 (path_buff, s) = Inr (buf', s')"
    "grows s i (map label ts) s'" "holds_all s' [] ts" "vfs_ok s'" "few_objects s'"
    by (rule helper_holds [OF assms])
  have "\<exists>h s1 s2. vfs_open cur (SLASH # p) VFS_MODE_READ s' = Inr (h, s1)
          \<and> vfs_read cur h n s1 = Inr (of_nat (length data), data, s2)"
    if "(components p, data) \<in> set (files_all [] ts)" "short_names p" "length data \<le> unat n" for p data n
    using read_opened [OF s'(4,5) that(2) holds_files(2) [OF s'(3) that(1)] that(3)] by blast
  then show ?thesis using s'(1,2) by blast
qed

text \<open>A folder with an empty name at 0 that holds a file \<open>a\<close> of one byte at 512.\<close>

definition root_archive :: mem where
  "root_archive = put_list 0 [0x73, 0x6d, 0x70, 0x6c, 0x72, 0x63, 0x68, 0x76]
     (put_list 512 [0x73, 0x6d, 0x70, 0x6c, 0x72, 0x63, 0x68, 0x76]
     ((\<lambda>_. 0)(272 := 1, 280 := 1, 289 := 2, 528 := 97, 792 := 1, 801 := 4, 1024 := 65)))"

lemma root_archive_at: "archive_at root_archive 0 0 (Folder [] [File [97] [65]])"
  by (simp add: root_archive_def put_list_def load64_bytes saf_magic_def saf_name_def saf_flags_def saf_file_size_def
      saf_file_addr_def saf_num_children_def saf_child_def mem_bytes_def SAF_MAGIC_NUMBER_def SAF_FLAG_ISFOLDER_def)

theorem initrd_files_readable_witness:
  "\<exists>buf' s'. initrd_helper 3 root_archive 0 0 0 0 (replicate 1024 0, started_vfs (\<lambda>_. 0)) = Inr (buf', s')
    \<and> (\<exists>h s1 s2. vfs_open 0 [SLASH, 97] VFS_MODE_READ s' = Inr (h, s1) \<and> vfs_read 0 h 100 s1 = Inr (1, [65], s2))"
proof -
  let ?s = "started_vfs (\<lambda>_. 0)"
  have root: "ram_dir ?s [] 0 2"
    by (simp add: ram_dir_def started_vfs_def dir_at_def inode_of_def is_traversable_def)
  have new: "\<forall>t\<in>set [File [97] [65]]. entry ?s (label t) 0 = None"
    by (simp add: entry_def entries_def inode_of_def started_vfs_def)
  have a: "good_name [97]" by (simp add: good_name_def)
  have comp: "components [97] = [[97]]" by (rule components_name [OF a])
  then have short: "short_names [97]" by (simp add: short_names_def)
  have few: "next_ref ?s + 4 * nodes_all [File [97] [65]] < 2 ^ 31" by (simp add: started_vfs_def)
  have good: "good_all [File [97] [65]]" using a by simp
  have room: "length (replicate 1024 (0 :: u8)) = 1024" "path_room (Folder [] [File [97] [65]]) \<le> 1024" "depth_all [File [97] [65]] < 3"
    by simp_all
  from initrd_files_readable [OF root_archive_at room(3,1,2) started_vfs_ok root good new few, of 0]
  obtain buf' s' where "initrd_helper 3 root_archive 0 0 0 0 (replicate 1024 0, ?s) = Inr (buf', s')"
    and "\<forall>p n. components p = [[97]] \<longrightarrow> short_names p \<longrightarrow> length [65 :: u8] \<le> unat n \<longrightarrow>
        (\<exists>h s1 s2. vfs_open 0 (SLASH # p) VFS_MODE_READ s' = Inr (h, s1)
          \<and> vfs_read 0 h n s1 = Inr (of_nat (length [65 :: u8]), [65], s2))"
    by auto
  then show ?thesis using comp short by fastforce
qed

end
