(* ===== verification/Tqueue.thy ===== *)
theory Tqueue
  imports Interfaces
begin

text \<open>
  \<open>kernel/proc/task.h\<close> and \<open>kernel/proc/sched/tqueue.c\<close>: the task structure and the doubly
  linked queues of tasks. Tasks live in a store from references to records, so the aliasing of
  the queues' links is kept; following a pointer to a freed task is the fault \<open>Dangling\<close>.
\<close>

section \<open>Tasks\<close>

datatype tmode = TASK_KERNEL_MODE | TASK_USER_MODE

abbreviation TASK_READY :: u32 where "TASK_READY \<equiv> 0"
abbreviation TASK_RUNNING :: u32 where "TASK_RUNNING \<equiv> 1"
abbreviation TASK_BLOCKED :: u32 where "TASK_BLOCKED \<equiv> 2"
abbreviation TASK_ASLEEP :: u32 where "TASK_ASLEEP \<equiv> 4"
abbreviation TASK_DEAD :: u32 where "TASK_DEAD \<equiv> 8"

type_synonym task_ref = nat

text \<open>\<open>openfiles\<close> holds references to node descriptors; a closed handle is a null slot.\<close>

record task =
  kstack_top :: u64
  cr3 :: u64
  tid :: u64
  priority :: u8
  status :: u32
  wakeuptime :: u64
  mode :: tmode
  kstack_limit :: u64
  openfiles :: "nat option list"
  tnext :: "task_ref option"
  tprev :: "task_ref option"

type_synonym task_heap = "task_ref \<Rightarrow> task option"

record tqueue =
  qfront :: "task_ref option"
  qback :: "task_ref option"
  qlen :: u64

definition load_task :: "task_ref \<Rightarrow> task_heap \<Rightarrow> task result" where
  "load_task r h = from_option Dangling (h r)"

definition store_task :: "task_ref \<Rightarrow> (task \<Rightarrow> task) \<Rightarrow> task_heap \<Rightarrow> task_heap result" where
  "store_task r f h = (case h r of None \<Rightarrow> Inl Dangling | Some t \<Rightarrow> Inr (h(r \<mapsto> f t)))"

section \<open>Queue operations\<close>

definition tq_push_front :: "tqueue \<Rightarrow> task_ref \<Rightarrow> task_heap \<Rightarrow> (tqueue \<times> task_heap) result" where
  "tq_push_front q t h =
     and_then (store_task t (\<lambda>x. x\<lparr>tprev := None, tnext := qfront q\<rparr>) h) (\<lambda>h.
       case qfront q of
         Some f \<Rightarrow> and_then (store_task f (\<lambda>x. x\<lparr>tprev := Some t\<rparr>) h)
                     (\<lambda>h. Inr (q\<lparr>qfront := Some t\<rparr>, h))
       | None \<Rightarrow> Inr (q\<lparr>qback := Some t, qfront := Some t\<rparr>, h))"

definition tq_insert_after ::
  "tqueue \<Rightarrow> task_ref option \<Rightarrow> task_ref \<Rightarrow> task_heap \<Rightarrow> (tqueue \<times> task_heap) result" where
  "tq_insert_after q a t h =
     and_then (store_task t (\<lambda>x. x\<lparr>tprev := None, tnext := None\<rparr>) h) (\<lambda>h.
       case a of
         None \<Rightarrow> tq_push_front q t h
       | Some a \<Rightarrow>
           if qback q = Some a then
             and_then (store_task a (\<lambda>x. x\<lparr>tnext := Some t\<rparr>) h) (\<lambda>h.
             and_then (store_task t (\<lambda>x. x\<lparr>tprev := Some a\<rparr>) h) (\<lambda>h.
               Inr (q\<lparr>qback := Some t\<rparr>, h)))
           else
             and_then (load_task a h) (\<lambda>ta.
               case tnext ta of
                 None \<Rightarrow> Inl Null_Deref
               | Some b \<Rightarrow>
                   and_then (store_task b (\<lambda>x. x\<lparr>tprev := Some t\<rparr>) h) (\<lambda>h.
                   and_then (store_task a (\<lambda>x. x\<lparr>tnext := Some t\<rparr>) h) (\<lambda>h.
                   and_then (store_task t (\<lambda>x. x\<lparr>tprev := Some a, tnext := Some b\<rparr>) h) (\<lambda>h.
                     Inr (q, h))))))"

definition tq_remove :: "task_ref \<Rightarrow> tqueue \<Rightarrow> task_heap \<Rightarrow> (tqueue \<times> task_heap) result" where
  "tq_remove t q h =
     and_then (load_task t h) (\<lambda>x.
     and_then
       (case (tprev x, tnext x) of
          (Some p, Some n) \<Rightarrow>
            and_then (store_task p (\<lambda>y. y\<lparr>tnext := Some n\<rparr>) h) (\<lambda>h.
            and_then (store_task n (\<lambda>y. y\<lparr>tprev := Some p\<rparr>) h) (\<lambda>h. Inr (q, h)))
        | (Some p, None) \<Rightarrow>
            and_then (store_task p (\<lambda>y. y\<lparr>tnext := None\<rparr>) h) (\<lambda>h. Inr (q\<lparr>qback := Some p\<rparr>, h))
        | (None, Some n) \<Rightarrow>
            and_then (store_task n (\<lambda>y. y\<lparr>tprev := None\<rparr>) h) (\<lambda>h. Inr (q\<lparr>qfront := Some n\<rparr>, h))
        | (None, None) \<Rightarrow> Inr (q, h)) (\<lambda>(q, h).
     and_then (store_task t (\<lambda>y. y\<lparr>tnext := None, tprev := None\<rparr>) h) (\<lambda>h. Inr (q, h))))"

definition tq_pop_back :: "tqueue \<Rightarrow> task_heap \<Rightarrow> (task_ref option \<times> tqueue \<times> task_heap) result" where
  "tq_pop_back q h =
     (case qback q of
        None \<Rightarrow> Inr (None, q, h)
      | Some r \<Rightarrow>
          and_then (load_task r h) (\<lambda>x.
            let q = q\<lparr>qback := tprev x\<rparr>
            in case qback q of
                 None \<Rightarrow> Inr (Some r, q\<lparr>qfront := None\<rparr>, h)
               | Some b \<Rightarrow> and_then (store_task b (\<lambda>y. y\<lparr>tnext := None\<rparr>) h) (\<lambda>h. Inr (Some r, q, h))))"

text \<open>The walk of \<open>tq_find\<close> follows \<open>next\<close> links, which need not end in a damaged queue.\<close>

partial_function (option) tq_find_from ::
  "task_ref option \<Rightarrow> u64 \<Rightarrow> task_heap \<Rightarrow> task_ref option result option" where
  "tq_find_from t key h =
     (case t of
        None \<Rightarrow> Some (Inr None)
      | Some r \<Rightarrow>
          (case h r of
             None \<Rightarrow> Some (Inl Dangling)
           | Some x \<Rightarrow> if tid x = key then Some (Inr (Some r)) else tq_find_from (tnext x) key h))"

definition tq_find :: "tqueue \<Rightarrow> u64 \<Rightarrow> task_heap \<Rightarrow> task_ref option result" where
  "tq_find q key h = (case tq_find_from (qfront q) key h of None \<Rightarrow> Inl Diverges | Some r \<Rightarrow> r)"

section \<open>The list a queue represents\<close>

definition head_or :: "'a list \<Rightarrow> 'a option \<Rightarrow> 'a option" where
  "head_or xs n = (case xs of [] \<Rightarrow> n | x # _ \<Rightarrow> Some x)"

definition last_or :: "'a list \<Rightarrow> 'a option \<Rightarrow> 'a option" where
  "last_or xs p = (if xs = [] then p else Some (last xs))"

lemma head_or_simps [simp]:
  "head_or [] n = n" "head_or (x # xs) n = Some x" "head_or (xs @ ys) n = head_or xs (head_or ys n)"
  by (simp_all add: head_or_def split: list.split)

lemma last_or_simps [simp]:
  "last_or [] p = p" "last_or (xs @ ys) p = last_or ys (last_or xs p)" "last_or [x] p = Some x"
  "last_or (x # y # ys) p = last_or (y # ys) p"
  by (simp_all add: last_or_def)

lemma last_or_Cons: "last_or (x # xs) p = last_or xs (Some x)"
  by (simp add: last_or_def)

text \<open>
  \<open>links h p xs n\<close>: the tasks \<open>xs\<close> are linked in this order; the first one's \<open>prev\<close> is \<open>p\<close> and
  the last one's \<open>next\<close> is \<open>n\<close>.
\<close>

primrec links :: "task_heap \<Rightarrow> task_ref option \<Rightarrow> task_ref list \<Rightarrow> task_ref option \<Rightarrow> bool" where
  "links h p [] n \<longleftrightarrow> True"
| "links h p (x # xs) n \<longleftrightarrow>
     (\<exists>t. h x = Some t \<and> tprev t = p \<and> tnext t = head_or xs n) \<and> links h (Some x) xs n"

definition tq_rep :: "task_heap \<Rightarrow> tqueue \<Rightarrow> task_ref list \<Rightarrow> bool" where
  "tq_rep h q xs \<longleftrightarrow>
     distinct xs \<and> links h None xs None \<and> qfront q = head_or xs None \<and> qback q = last_or xs None"

lemma links_append:
  "links h p (xs @ ys) n \<longleftrightarrow> links h p xs (head_or ys n) \<and> links h (last_or xs p) ys n"
  by (induction xs arbitrary: p) (auto simp: last_or_Cons)

lemma links_cong:
  assumes "\<And>x. x \<in> set xs \<Longrightarrow> map_option (\<lambda>t. (tprev t, tnext t)) (h' x)
      = map_option (\<lambda>t. (tprev t, tnext t)) (h x)"
  shows "links h' p xs n = links h p xs n"
  using assms
proof (induction xs arbitrary: p)
  case (Cons x xs)
  then have "links h' (Some x) xs n = links h (Some x) xs n" by simp
  moreover have "(\<exists>t. h' x = Some t \<and> tprev t = p \<and> tnext t = head_or xs n)
      \<longleftrightarrow> (\<exists>t. h x = Some t \<and> tprev t = p \<and> tnext t = head_or xs n)"
    using Cons.prems [of x] by (cases "h x"; cases "h' x") auto
  ultimately show ?case by simp
qed simp

lemma links_upd_outside [simp]: "r \<notin> set xs \<Longrightarrow> links (h(r := v)) p xs n = links h p xs n"
  by (rule links_cong) auto

lemma links_allocated: "links h p xs n \<Longrightarrow> x \<in> set xs \<Longrightarrow> \<exists>t. h x = Some t"
  by (induction xs arbitrary: p) auto

text \<open>What every queue operation leaves alone: everything but the links.\<close>

definition payload :: "task \<Rightarrow> task" where
  "payload t = t\<lparr>tnext := None, tprev := None\<rparr>"

definition same_payload :: "task_heap \<Rightarrow> task_heap \<Rightarrow> bool" where
  "same_payload h h' \<longleftrightarrow> (\<forall>r. map_option payload (h' r) = map_option payload (h r))"

lemma same_payload_refl [simp]: "same_payload h h"
  by (simp add: same_payload_def)

lemma same_payload_trans [trans]:
  "same_payload h1 h2 \<Longrightarrow> same_payload h2 h3 \<Longrightarrow> same_payload h1 h3"
  by (simp add: same_payload_def)

lemma same_payload_upd:
  "h r = Some t \<Longrightarrow> payload t' = payload t \<Longrightarrow> same_payload h h0 \<Longrightarrow> h0 = h \<Longrightarrow>
   same_payload h (h0(r \<mapsto> t'))"
  by (auto simp: same_payload_def)

lemma payload_links [simp]:
  "payload (t\<lparr>tnext := n\<rparr>) = payload t" "payload (t\<lparr>tprev := p\<rparr>) = payload t"
  by (simp_all add: payload_def)

lemma store_task_simps [simp, res_simps]:
  "h r = Some t \<Longrightarrow> store_task r f h = Inr (h(r \<mapsto> f t))"
  "h r = None \<Longrightarrow> store_task r f h = Inl Dangling"
  by (simp_all add: store_task_def)

lemma load_task_simps [simp, res_simps]:
  "h r = Some t \<Longrightarrow> load_task r h = Inr t"
  "h r = None \<Longrightarrow> load_task r h = Inl Dangling"
  by (simp_all add: load_task_def)

section \<open>The operations on well-formed queues\<close>

text \<open>
  Each operation on a queue that represents a list yields a queue that represents the list one
  expects; it changes only the links of the tasks involved.
\<close>

definition outside_same :: "task_ref set \<Rightarrow> task_heap \<Rightarrow> task_heap \<Rightarrow> bool" where
  "outside_same X h h' \<longleftrightarrow> (\<forall>r. r \<notin> X \<longrightarrow> h' r = h r)"

definition queue_step ::
  "task_heap \<Rightarrow> task_ref set \<Rightarrow> task_heap \<Rightarrow> tqueue \<Rightarrow> task_ref list \<Rightarrow> bool" where
  "queue_step h X h' q' xs' \<longleftrightarrow> tq_rep h' q' xs' \<and> same_payload h h' \<and> outside_same X h h'"

lemma same_payload_upd1: "h r = Some t \<Longrightarrow> payload t' = payload t \<Longrightarrow> same_payload h (h(r \<mapsto> t'))"
  by (simp add: same_payload_def)

lemma same_payload_upd2:
  "h r = Some t \<Longrightarrow> payload t' = payload t \<Longrightarrow> h s = Some u \<Longrightarrow> payload u' = payload u \<Longrightarrow>
   same_payload h (h(r \<mapsto> t', s \<mapsto> u'))"
  by (auto simp: same_payload_def)

lemma same_payload_upd3:
  "h r = Some t \<Longrightarrow> payload t' = payload t \<Longrightarrow> h s = Some u \<Longrightarrow> payload u' = payload u \<Longrightarrow>
   h w = Some v \<Longrightarrow> payload v' = payload v \<Longrightarrow>
   same_payload h (h(r \<mapsto> t', s \<mapsto> u', w \<mapsto> v'))"
  by (auto simp: same_payload_def)

lemma tq_push_front_spec:
  assumes rep: "tq_rep h q xs" and t: "t \<notin> set xs" "h t = Some x"
  obtains q' h' where "tq_push_front q t h = Inr (q', h')"
    and "queue_step h (insert t (set xs)) h' q' (t # xs)"
proof (cases xs)
  case Nil
  show thesis
  proof (rule that)
    show "tq_push_front q t h = Inr (q\<lparr>qback := Some t, qfront := Some t\<rparr>,
        h(t \<mapsto> x\<lparr>tprev := None, tnext := qfront q\<rparr>))"
      using rep t Nil by (simp add: tq_push_front_def tq_rep_def)
    show "queue_step h (insert t (set xs)) (h(t \<mapsto> x\<lparr>tprev := None, tnext := qfront q\<rparr>))
        (q\<lparr>qback := Some t, qfront := Some t\<rparr>) (t # xs)"
      using rep t Nil
      by (simp add: queue_step_def tq_rep_def outside_same_def same_payload_upd1)
  qed
next
  case (Cons f fs)
  then obtain y where f: "h f = Some y" "qfront q = Some f" "f \<noteq> t" "tprev y = None"
      "tnext y = head_or fs None" "links h (Some f) fs None" "f \<notin> set fs" "t \<notin> set fs"
    using rep t by (auto simp: tq_rep_def)
  let ?h = "h(t \<mapsto> x\<lparr>tprev := None, tnext := qfront q\<rparr>, f \<mapsto> y\<lparr>tprev := Some t\<rparr>)"
  show thesis
  proof (rule that)
    show "tq_push_front q t h = Inr (q\<lparr>qfront := Some t\<rparr>, ?h)"
      using f t by (simp add: tq_push_front_def)
    show "queue_step h (insert t (set xs)) ?h (q\<lparr>qfront := Some t\<rparr>) (t # xs)"
      using rep f t Cons
      by (auto simp: queue_step_def tq_rep_def outside_same_def intro!: same_payload_upd2)
  qed
qed

lemma links_last_next:
  "links h p (xs @ [a]) n \<Longrightarrow> a \<notin> set xs \<Longrightarrow> h a = Some y \<Longrightarrow>
   links (h(a \<mapsto> y\<lparr>tnext := m\<rparr>)) p (xs @ [a]) m"
  by (auto simp: links_append)

lemma tq_insert_after_spec:
  assumes rep: "tq_rep h q (us @ vs)" and t: "t \<notin> set (us @ vs)" "h t = Some x"
  obtains q' h' where "tq_insert_after q (last_or us None) t h = Inr (q', h')"
    and "queue_step h (insert t (set (us @ vs))) h' q' (us @ t # vs)"
proof (cases us rule: rev_cases)
  case Nil
  let ?h = "h(t \<mapsto> x\<lparr>tprev := None, tnext := None\<rparr>)"
  have rep': "tq_rep ?h q vs" using rep t Nil by (simp add: tq_rep_def)
  obtain q' h' where push: "tq_push_front q t ?h = Inr (q', h')"
      "queue_step ?h (insert t (set vs)) h' q' (t # vs)"
    by (rule tq_push_front_spec [OF rep', of t "x\<lparr>tprev := None, tnext := None\<rparr>"])
      (use t Nil in auto)
  have "same_payload h ?h" using t(2) by (simp add: same_payload_def payload_def)
  then have "queue_step h (insert t (set (us @ vs))) h' q' (us @ t # vs)"
    using push(2) Nil by (auto simp: queue_step_def outside_same_def intro: same_payload_trans)
  then show thesis
    using that push(1) t Nil by (simp add: tq_insert_after_def)
next
  case us: (snoc ys a)
  then obtain y where a: "h a = Some y" "a \<noteq> t" "a \<notin> set ys" "tprev y = last_or ys None"
      "tnext y = head_or vs None" "links h None ys (Some a)" "links h (Some a) vs None" "a \<notin> set vs"
    using rep t by (auto simp: tq_rep_def links_append)
  have bk: "qback q = last_or vs (Some a)" using rep us by (simp add: tq_rep_def last_or_Cons)
  have ne: "t \<notin> set ys" "t \<notin> set vs" using t us by auto
  show thesis
  proof (cases vs)
    case Nil
    let ?h = "h(a \<mapsto> y\<lparr>tnext := Some t\<rparr>, t \<mapsto> x\<lparr>tnext := None, tprev := Some a\<rparr>)"
    have "tq_insert_after q (last_or us None) t h = Inr (q\<lparr>qback := Some t\<rparr>, ?h)"
      using a t us bk Nil by (simp add: tq_insert_after_def fun_upd_twist)
    moreover have "same_payload h ?h" using a(1) t(2) by (auto simp: same_payload_def payload_def)
    then have "queue_step h (insert t (set (us @ vs))) ?h (q\<lparr>qback := Some t\<rparr>) (us @ t # vs)"
      using rep a ne us Nil
      by (auto simp: queue_step_def tq_rep_def outside_same_def links_append)
    ultimately show thesis by (rule that)
  next
    case vs: (Cons b bs)
    then obtain z where b: "h b = Some z" "b \<noteq> a" "b \<noteq> t" "b \<notin> set ys" "b \<notin> set bs"
        "tprev z = Some a" "tnext z = head_or bs None" "links h (Some b) bs None"
      using a rep us t by (auto simp: tq_rep_def)
    have "qback q \<noteq> Some a"
      using bk vs rep us by (auto simp: tq_rep_def last_or_def)
    let ?h = "h(b \<mapsto> z\<lparr>tprev := Some t\<rparr>, a \<mapsto> y\<lparr>tnext := Some t\<rparr>,
      t \<mapsto> x\<lparr>tprev := Some a, tnext := Some b\<rparr>)"
    have "tq_insert_after q (last_or us None) t h = Inr (q, ?h)"
      using a b t us vs \<open>qback q \<noteq> Some a\<close>
      by (auto simp: tq_insert_after_def fun_eq_iff)
    moreover have "same_payload h ?h"
      using b(1) a(1) t(2) by (auto simp: same_payload_def payload_def)
    then have "queue_step h (insert t (set (us @ vs))) ?h q (us @ t # vs)"
      using rep a b ne us vs
      by (auto simp: queue_step_def tq_rep_def outside_same_def links_append)
    ultimately show thesis by (rule that)
  qed
qed

lemma tq_pop_back_spec:
  assumes rep: "tq_rep h q (xs @ [r])"
  obtains q' h' where "tq_pop_back q h = Inr (Some r, q', h')"
    and "queue_step h (set xs) h' q' xs"
proof -
  obtain x where r: "h r = Some x" "tprev x = last_or xs None" "qback q = Some r" "r \<notin> set xs"
    using rep by (auto simp: tq_rep_def links_append last_or_def)
  show thesis
  proof (cases xs rule: rev_cases)
    case Nil
    then show thesis
      using r by (intro that [of "q\<lparr>qback := None, qfront := None\<rparr>" h])
        (simp_all add: tq_pop_back_def queue_step_def tq_rep_def outside_same_def)
  next
    case (snoc ys b)
    then obtain y where b: "h b = Some y" "b \<noteq> r" "b \<notin> set ys"
      using rep by (auto simp: tq_rep_def links_append)
    let ?h = "h(b \<mapsto> y\<lparr>tnext := None\<rparr>)"
    have "tq_pop_back q h = Inr (Some r, q\<lparr>qback := Some b\<rparr>, ?h)"
      using r b snoc by (simp add: tq_pop_back_def Let_def)
    moreover have "queue_step h (set xs) ?h (q\<lparr>qback := Some b\<rparr>) xs"
      using rep b snoc
      by (cases ys) (auto simp: queue_step_def tq_rep_def outside_same_def links_append
          last_or_Cons intro!: same_payload_upd1)
    ultimately show thesis by (rule that)
  qed
qed

lemma tq_pop_back_empty: "tq_rep h q [] \<Longrightarrow> tq_pop_back q h = Inr (None, q, h)"
  by (simp add: tq_rep_def tq_pop_back_def)

lemma tq_find_spec:
  "links h p xs None \<Longrightarrow>
   tq_find_from (head_or xs None) key h = Some (Inr (find (\<lambda>r. tid (the (h r)) = key) xs))"
proof (induction xs arbitrary: p)
  case Nil
  then show ?case by (subst tq_find_from.simps) simp
next
  case (Cons x xs)
  then show ?case by (subst tq_find_from.simps) auto
qed

text \<open>
  \<open>tq_remove\<close> is right on queues of two tasks or more.
\<close>

lemma tq_remove_spec:
  assumes rep: "tq_rep h q (us @ t # vs)" and two: "us \<noteq> [] \<or> vs \<noteq> []"
  obtains q' h' where "tq_remove t q h = Inr (q', h')"
    and "queue_step h (set (us @ t # vs)) h' q' (us @ vs)"
    and "\<exists>x'. h' t = Some x' \<and> tnext x' = None \<and> tprev x' = None"
proof -
  obtain x where x: "h t = Some x" "tprev x = last_or us None" "tnext x = head_or vs None"
      "links h None us (Some t)" "links h (Some t) vs None" "t \<notin> set us" "t \<notin> set vs"
    using rep by (auto simp: tq_rep_def links_append)
  have dist: "distinct us" "distinct vs" "set us \<inter> set vs = {}"
    using rep by (auto simp: tq_rep_def)
  have ends: "qfront q = head_or us (Some t)" "qback q = last_or vs (Some t)"
    using rep by (auto simp: tq_rep_def last_or_def)
  consider (last) ys a where "us = ys @ [a]" "vs = []"
    | (first) b bs where "us = []" "vs = b # bs"
    | (middle) ys a b bs where "us = ys @ [a]" "vs = b # bs"
    using two by (cases us rule: rev_cases; cases vs) auto
  then show thesis
  proof cases
    case last
    then obtain y where a: "h a = Some y" "a \<noteq> t" "a \<notin> set ys" "t \<notin> set ys"
      using x dist by (auto simp: links_append)
    let ?h = "h(a \<mapsto> y\<lparr>tnext := None\<rparr>, t \<mapsto> x\<lparr>tnext := None, tprev := None\<rparr>)"
    have "tq_remove t q h = Inr (q\<lparr>qback := Some a\<rparr>, ?h)"
      using x a last by (simp add: tq_remove_def)
    moreover have "queue_step h (set (us @ t # vs)) ?h (q\<lparr>qback := Some a\<rparr>) (us @ vs)"
      using x a last dist ends
      by (auto simp: queue_step_def tq_rep_def outside_same_def links_append
          head_or_def payload_def same_payload_def split: list.splits)
    ultimately show thesis by (rule that) simp
  next
    case first
    then obtain z where b: "h b = Some z" "b \<noteq> t" "b \<notin> set bs" "t \<notin> set bs"
      using x dist by auto
    let ?h = "h(b \<mapsto> z\<lparr>tprev := None\<rparr>, t \<mapsto> x\<lparr>tnext := None, tprev := None\<rparr>)"
    have "tq_remove t q h = Inr (q\<lparr>qfront := Some b\<rparr>, ?h)"
      using x b first by (simp add: tq_remove_def)
    moreover have "queue_step h (set (us @ t # vs)) ?h (q\<lparr>qfront := Some b\<rparr>) (us @ vs)"
      using x b first dist ends
      by (auto simp: queue_step_def tq_rep_def outside_same_def last_or_def
          payload_def same_payload_def)
    ultimately show thesis by (rule that) simp
  next
    case middle
    then obtain y z where ab: "h a = Some y" "a \<noteq> t" "a \<notin> set ys" "t \<notin> set ys"
        "h b = Some z" "b \<noteq> t" "b \<notin> set bs" "t \<notin> set bs" "a \<noteq> b" "a \<notin> set bs" "b \<notin> set ys"
      using x dist by (auto simp: links_append)
    let ?h = "h(a \<mapsto> y\<lparr>tnext := Some b\<rparr>, b \<mapsto> z\<lparr>tprev := Some a\<rparr>,
      t \<mapsto> x\<lparr>tnext := None, tprev := None\<rparr>)"
    have "tq_remove t q h = Inr (q, ?h)"
      using x ab middle by (simp add: tq_remove_def)
    moreover have "queue_step h (set (us @ t # vs)) ?h q (us @ vs)"
      using x ab middle dist ends
      by (auto simp: queue_step_def tq_rep_def outside_same_def links_append
          last_or_def payload_def same_payload_def)
    ultimately show thesis by (rule that) simp
  qed
qed

text \<open>On a queue of one task it takes the task's links and leaves the queue pointing at it.\<close>

lemma tq_remove_only:
  assumes "tq_rep h q [t]"
  shows "tq_remove t q h = Inr (q, h)" and "qfront q = Some t" and "qback q = Some t"
proof -
  obtain x where x: "h t = Some x" "tprev x = None" "tnext x = None" "qfront q = Some t"
      "qback q = Some t"
    using assms by (auto simp: tq_rep_def)
  have "x\<lparr>tnext := None, tprev := None\<rparr> = x" using x by simp
  then show "tq_remove t q h = Inr (q, h)"
    using x by (simp add: tq_remove_def fun_upd_idem)
  show "qfront q = Some t" "qback q = Some t" by (fact x)+
qed

section \<open>The contract, and the properties\<close>

text \<open>What a step of a queue operation leaves alone.\<close>

definition links_only :: "task_ref set \<Rightarrow> task_heap \<Rightarrow> task_heap \<Rightarrow> bool" where
  "links_only X h h' \<longleftrightarrow> same_payload h h' \<and> outside_same X h h'"

definition allocated_task :: "task_heap \<Rightarrow> task_ref \<Rightarrow> bool" where
  "allocated_task h r \<longleftrightarrow> h r \<noteq> None"

lemma queue_step_links_only: "queue_step h X h' q' xs' \<longleftrightarrow> tq_rep h' q' xs' \<and> links_only X h h'"
  by (simp add: queue_step_def links_only_def)

interpretation tq: linked_queue tq_rep allocated_task links_only
  tq_push_front tq_insert_after tq_pop_back
proof
  fix h q xs t assume a: "tq_rep h q xs" "t \<notin> set xs" "allocated_task h t"
  then obtain x where x: "h t = Some x" by (auto simp: allocated_task_def)
  show "\<exists>q' h'. tq_push_front q t h = Inr (q', h') \<and> tq_rep h' q' (t # xs)
      \<and> links_only (insert t (set xs)) h h'"
    using tq_push_front_spec [OF a(1,2) x] by (metis queue_step_links_only)
  show "\<exists>q' h'. tq_insert_after q None t h = Inr (q', h') \<and> tq_rep h' q' (t # xs)
      \<and> links_only (insert t (set xs)) h h'"
    using tq_insert_after_spec [of h q "[]" xs t x] a x by (metis append_Nil last_or_simps(1) queue_step_links_only)
next
  fix h q us a vs t assume a: "tq_rep h q (us @ a # vs)" "t \<notin> set (us @ a # vs)" "allocated_task h t"
  then obtain x where x: "h t = Some x" by (auto simp: allocated_task_def)
  have "last_or (us @ [a]) None = Some a" by simp
  then show "\<exists>q' h'. tq_insert_after q (Some a) t h = Inr (q', h') \<and> tq_rep h' q' (us @ a # t # vs)
      \<and> links_only (insert t (set (us @ a # vs))) h h'"
    using tq_insert_after_spec [of h q "us @ [a]" vs t x] a(1,2) x
    by (metis append.assoc append_Cons append_Nil queue_step_links_only)
next
  fix h q xs r assume "tq_rep h q (xs @ [r])"
  then show "\<exists>q' h'. tq_pop_back q h = Inr (Some r, q', h') \<and> tq_rep h' q' xs \<and> links_only (set xs) h h'"
    by (rule tq_pop_back_spec) (auto simp: queue_step_links_only)
qed (rule tq_pop_back_empty)

text \<open>Tasks 1, 2 and 3, none of them on a queue, for the witnesses.\<close>

definition example_task :: "u64 \<Rightarrow> task" where
  "example_task i =
     \<lparr>kstack_top = 0, cr3 = 0, tid = i, priority = 10, status = 0, wakeuptime = 0,
      mode = TASK_KERNEL_MODE, kstack_limit = 0, openfiles = [], tnext = None, tprev = None\<rparr>"

definition example_heap :: task_heap where
  "example_heap = [1 \<mapsto> example_task 1, 2 \<mapsto> example_task 2, 3 \<mapsto> example_task 3]"

definition empty_queue :: tqueue where
  "empty_queue = \<lparr>qfront = None, qback = None, qlen = 0\<rparr>"

lemma empty_queue_rep [simp]: "tq_rep h empty_queue []"
  by (simp add: tq_rep_def empty_queue_def)

lemma example_queue:
  obtains q h where "tq_rep h q [2, 1]" and "allocated_task h 3"
proof -
  obtain q1 h1 where 1: "tq_rep h1 q1 [1]" "links_only {1} example_heap h1"
    using tq.push_law [of example_heap empty_queue "[]" 1]
    by (auto simp: allocated_task_def example_heap_def)
  have h1: "h1 2 = example_heap 2" "h1 3 = example_heap 3"
    using 1(2) by (simp_all add: links_only_def outside_same_def)
  obtain q2 h2 where 2: "tq_rep h2 q2 [2, 1]" "links_only {2, 1} h1 h2"
    using tq.push_law [OF 1(1), of 2] h1 by (auto simp: allocated_task_def example_heap_def)
  have "h2 3 = example_heap 3"
    using 2(2) h1 by (simp add: links_only_def outside_same_def)
  then have "allocated_task h2 3" by (simp add: allocated_task_def example_heap_def)
  with 2(1) show thesis by (rule that)
qed

text \<open>The task queue is first in, first out: after a push on a non-empty queue, the next pop
  returns the task that was at the back, and the queue then holds the rest with the new task in
  front.\<close>

theorem tqueue_fifo:
  assumes "tq_rep h q (xs @ [r])" and "t \<notin> set (xs @ [r])" and "allocated_task h t"
  shows "\<exists>q1 h1 q2 h2. tq_push_front q t h = Inr (q1, h1) \<and> tq_pop_back q1 h1 = Inr (Some r, q2, h2)
    \<and> tq_rep h2 q2 (t # xs)"
  using assms by (rule tq.fifo)

theorem tqueue_fifo_witness:
  "\<exists>h q q1 h1 q2 h2. tq_push_front q 3 h = Inr (q1, h1) \<and> tq_pop_back q1 h1 = Inr (Some 1, q2, h2)
     \<and> tq_rep h2 q2 [3, 2]"
proof -
  obtain q h where "tq_rep h q ([2] @ [1])" "allocated_task h 3"
    by (rule example_queue) simp
  moreover have "3 \<notin> set ([2] @ [1 :: nat])" by simp
  ultimately show ?thesis using tqueue_fifo [of h q "[2]" 1 3] by blast
qed

text \<open>On a queue of at least two tasks, \<open>tq_remove\<close> unlinks exactly the given task: the others
  keep their order, no task's other fields change, and the removed task has no links left.\<close>

theorem tq_remove_unlinks:
  assumes "tq_rep h q (us @ t # vs)" and "us \<noteq> [] \<or> vs \<noteq> []"
  shows "\<exists>q' h'. tq_remove t q h = Inr (q', h') \<and> tq_rep h' q' (us @ vs)
    \<and> links_only (set (us @ t # vs)) h h'
    \<and> (\<exists>x. h' t = Some x \<and> tnext x = None \<and> tprev x = None)"
  using tq_remove_spec [OF assms] by (metis queue_step_links_only)

theorem tq_remove_unlinks_witness:
  "\<exists>h q q' h'. tq_rep h q [2, 1] \<and> tq_remove 1 q h = Inr (q', h') \<and> tq_rep h' q' [2]"
proof -
  obtain q h where "tq_rep h q ([2] @ [1])" by (rule example_queue) simp
  then show ?thesis using tq_remove_unlinks [of h q "[2]" 1 "[]"] by (simp only: append.simps) blast
qed

text \<open>Removing the only task of a queue does not empty the queue: both ends still point at the
  removed task, so the queue keeps reporting it.\<close>

theorem tq_remove_last_task_stays:
  assumes "tq_rep h q [t]"
  shows "\<exists>q' h'. tq_remove t q h = Inr (q', h') \<and> tq_rep h' q' [t]
    \<and> (\<exists>q2 h2. tq_pop_back q' h' = Inr (Some t, q2, h2))"
  using tq_remove_only(1) [OF assms] assms tq.pop_law [of h q "[]" t] by auto

theorem tq_remove_last_task_stays_witness:
  "\<exists>h q q' h'. tq_rep h q [1] \<and> tq_remove 1 q h = Inr (q', h') \<and> tq_rep h' q' [1]"
proof -
  obtain h q where "tq_rep h q [1]"
    using tq.push_law [of example_heap empty_queue "[]" 1]
    by (auto simp: allocated_task_def example_heap_def)
  from tq_remove_last_task_stays [OF this] this show ?thesis by blast
qed

end
