(* ===== verification/Sched.thy ===== *)
theory Sched
  imports Tqueue
begin

text \<open>
  \<open>kernel/proc/task.c\<close> and \<open>kernel/proc/sched/sched.c\<close>: creating tasks, and the round-robin
  scheduler. Every operation runs under \<open>sched_lock\<close> with interrupts off, so each is one atomic
  step on the state. What comes from outside is an argument: the number of the calling CPU, the
  readings of the HPET clock (\<open>clock k\<close> is the k-th reading, \<open>ticks\<close> counts them), and, for a new
  task, what the allocator returned and what that memory held before. The log is not part of the state:
  the messages about invalid thread ids are left out.
\<close>

section \<open>State\<close>

definition TID_MAX :: u64 where "TID_MAX = 65536"
abbreviation KSTACK_SIZE :: u64 where "KSTACK_SIZE \<equiv> 4096"
definition TIMESLICE_DEFAULT :: u64 where "TIMESLICE_DEFAULT = 2 * 1000000"

text \<open>The register frame on a kernel stack (\<open>task_state_t\<close>, 20 words of 8 bytes).\<close>

record task_state =
  r15 :: u64  r14 :: u64  r13 :: u64  r12 :: u64  r11 :: u64  r10 :: u64  r9 :: u64  r8 :: u64
  rbp :: u64  rdi :: u64  rsi :: u64  rdx :: u64  rcx :: u64  rbx :: u64  rax :: u64
  rip :: u64  cs :: u64  rflags :: u64  rsp :: u64  ss :: u64

abbreviation task_state_size :: u64 where "task_state_size \<equiv> 160"

text \<open>
  The table \<open>tasks_all\<close> is a vector of task pointers indexed by thread id. \<open>vec_resize\<close> does not
  clear what it adds, so a slot is garbage until it is written. The slots of the heap block are
  those below \<open>talloc div 8\<close>.
\<close>

datatype slot = Garbage | Slot "task_ref option"

record task_table =
  tlen :: u64
  talloc :: u64
  tslots :: "nat \<Rightarrow> slot"

record sched =
  tasks :: task_heap
  fresh :: task_ref
  stacks :: "u64 \<Rightarrow> task_state"
  curr_tid :: u64
  tasks_idle :: "nat \<Rightarrow> task_ref option"
  tasks_running :: "nat \<Rightarrow> task_ref option"
  tasks_all :: task_table
  tasks_asleep :: tqueue
  tasks_dead :: tqueue
  rsp0 :: "nat \<Rightarrow> u64"
  ticks :: nat

section \<open>The task table\<close>

definition table_resize :: "u64 \<Rightarrow> task_table \<Rightarrow> task_table" where
  "table_resize n t =
     (let t = t\<lparr>tlen := n\<rparr>
      in if talloc t < tlen t * 8 then t\<lparr>talloc := (tlen t * 8) * 2\<rparr> else t)"

definition table_get :: "u64 \<Rightarrow> task_table \<Rightarrow> task_ref option result" where
  "table_get i t =
     (if 8 * unat i + 8 \<le> unat (talloc t)
      then case tslots t (unat i) of Garbage \<Rightarrow> Inl Undefined_Behaviour | Slot x \<Rightarrow> Inr x
      else Inl Out_Of_Bounds)"

definition table_set :: "u64 \<Rightarrow> task_ref option \<Rightarrow> task_table \<Rightarrow> task_table result" where
  "table_set i x t =
     (if 8 * unat i + 8 \<le> unat (talloc t)
      then Inr (t\<lparr>tslots := (tslots t)(unat i := Slot x)\<rparr>)
      else Inl Out_Of_Bounds)"

text \<open>\<open>IS_TID_VALID\<close>, returning the task the valid thread id names.\<close>

definition valid_tid :: "u64 \<Rightarrow> task_table \<Rightarrow> task_ref option result" where
  "valid_tid i t = (if i < tlen t then table_get i t else Inr None)"

section \<open>Creating tasks\<close>

text \<open>
  A new task: \<open>raw\<close> is what the memory of its structure held, \<open>limit\<close> is the address of its
  kernel stack, \<open>cr3_now\<close> the current value of CR3. \<open>mode\<close> is not stored in the structure.
\<close>

record fresh_task =
  raw :: task
  limit :: u64
  cr3_now :: u64

definition task_frame :: "u64 \<Rightarrow> tmode \<Rightarrow> u64 \<Rightarrow> u64 \<Rightarrow> u64 \<Rightarrow> task_state \<Rightarrow> task_state" where
  "task_frame entry md sp ktop ntid f =
     (let f = (if md = TASK_KERNEL_MODE then f\<lparr>cs := 0x08, ss := 0x10\<rparr> else f\<lparr>cs := 0x1b, ss := 0x23\<rparr>)
      in f\<lparr>rflags := 0x0202, rip := entry, rsp := (if sp \<noteq> 0 then sp else ktop), rdi := ntid\<rparr>)"

definition task_make ::
  "u64 \<Rightarrow> u8 \<Rightarrow> tmode \<Rightarrow> u64 \<Rightarrow> u64 \<Rightarrow> fresh_task \<Rightarrow> sched \<Rightarrow> task_ref option \<times> sched" where
  "task_make entry pri md sp pagemap new s =
     (let ntid = curr_tid s;
          s = s\<lparr>curr_tid := curr_tid s + 1\<rparr>
      in if ntid > TID_MAX then (None, s)
         else
           let r = fresh s;
               ktop = limit new + KSTACK_SIZE;
               frame = ktop - task_state_size;
               t = (raw new)\<lparr>kstack_limit := limit new, kstack_top := frame,
                     cr3 := (if pagemap \<noteq> 0 then pagemap else cr3_now new),
                     tid := ntid, priority := pri, status := TASK_READY, wakeuptime := 0,
                     openfiles := []\<rparr>
           in (Some r,
               s\<lparr>fresh := fresh s + 1, tasks := (tasks s)(r \<mapsto> t),
                 stacks := (stacks s)(frame := task_frame entry md sp ktop ntid (stacks s frame))\<rparr>))"

definition sched_add :: "task_ref \<Rightarrow> sched \<Rightarrow> sched result" where
  "sched_add t s =
     and_then (load_task t (tasks s)) (\<lambda>x.
     and_then (table_set (tid x) (Some t) (table_resize (tid x + 1) (tasks_all s))) (\<lambda>tab.
       Inr (s\<lparr>tasks_all := tab\<rparr>)))"

definition task_add ::
  "u64 \<Rightarrow> u8 \<Rightarrow> tmode \<Rightarrow> u64 \<Rightarrow> u64 \<Rightarrow> fresh_task \<Rightarrow> sched \<Rightarrow> (u64 \<times> sched) result" where
  "task_add entry pri md sp pagemap new s =
     (case task_make entry pri md sp pagemap new s of
        (None, s) \<Rightarrow> Inr (- 1, s)
      | (Some t, s) \<Rightarrow>
          and_then (sched_add t s) (\<lambda>s.
          and_then (load_task t (tasks s)) (\<lambda>x. Inr (tid x, s))))"

section \<open>The queue of sleeping tasks\<close>

text \<open>
  The queue is kept with the latest wake-up time in front. The walk looks for the first task
  that wakes no later than the new one.
\<close>

partial_function (option) find_sleeper ::
  "task_ref option \<Rightarrow> u64 \<Rightarrow> task_heap \<Rightarrow> task_ref option result option" where
  "find_sleeper i w h =
     (case i of
        None \<Rightarrow> Some (Inr None)
      | Some r \<Rightarrow>
          (case h r of
             None \<Rightarrow> Some (Inl Dangling)
           | Some x \<Rightarrow> if wakeuptime x \<le> w then Some (Inr (Some r)) else find_sleeper (tnext x) w h))"

definition add_sleeping_sorted :: "task_ref \<Rightarrow> tqueue \<Rightarrow> task_heap \<Rightarrow> (tqueue \<times> task_heap) result" where
  "add_sleeping_sorted t q h =
     (if qfront q = None then tq_push_front q t h
      else and_then (from_option Null_Deref (qback q)) (\<lambda>b.
           and_then (load_task b h) (\<lambda>xb.
           and_then (load_task t h) (\<lambda>xt.
             if wakeuptime xb > wakeuptime xt then tq_insert_after q (Some b) t h
             else case find_sleeper (qfront q) (wakeuptime xt) h of
                    None \<Rightarrow> Inl Diverges
                  | Some (Inl e) \<Rightarrow> Inl e
                  | Some (Inr None) \<Rightarrow> Inr (q, h)
                  | Some (Inr (Some i)) \<Rightarrow>
                      and_then (load_task i h) (\<lambda>xi. tq_insert_after q (tprev xi) t h)))))"

text \<open>The loop that wakes the tasks whose time has come, from the back of the queue.\<close>

partial_function (option) wake_loop :: "(nat \<Rightarrow> u64) \<Rightarrow> sched \<Rightarrow> sched result option" where
  "wake_loop clock s =
     (case qback (tasks_asleep s) of
        None \<Rightarrow> Some (Inr s)
      | Some b \<Rightarrow>
          (case tasks s b of
             None \<Rightarrow> Some (Inl Dangling)
           | Some x \<Rightarrow>
               let now = clock (ticks s); s = s\<lparr>ticks := ticks s + 1\<rparr>
               in if wakeuptime x < now
                  then (case tq_pop_back (tasks_asleep s) (tasks s) of
                          Inl e \<Rightarrow> Some (Inl e)
                        | Inr (None, q, h) \<Rightarrow> Some (Inl Null_Deref)
                        | Inr (Some t, q, h) \<Rightarrow>
                            (case store_task t (\<lambda>y. y\<lparr>status := status y AND NOT TASK_ASLEEP\<rparr>) h of
                               Inl e \<Rightarrow> Some (Inl e)
                             | Inr h \<Rightarrow> wake_loop clock (s\<lparr>tasks := h, tasks_asleep := q\<rparr>)))
                  else Some (Inr s)))"

section \<open>Switching tasks\<close>

lemma unat_Suc_less: "i < (lim :: u64) \<Longrightarrow> unat (i + 1) = unat i + 1"
proof -
  assume "i < lim"
  then have "unat i < unat lim" by (simp add: word_less_nat_alt)
  then show ?thesis
    using unsigned_less [of lim, where ?'a = nat] by (subst unat_add_lt) simp_all
qed

text \<open>
  The search for a ready task: \<open>for (i = from; i < lim; i++)\<close>. The second of the two loops of the
  source runs while \<open>i <= curr->tid\<close>, that is, below \<open>curr->tid + 1\<close>.
\<close>

function find_ready :: "u64 \<Rightarrow> u64 \<Rightarrow> sched \<Rightarrow> task_ref option result" where
  "find_ready i lim s =
     (if i < lim
      then and_then (table_get i (tasks_all s)) (\<lambda>t.
             case t of
               None \<Rightarrow> find_ready (i + 1) lim s
             | Some r \<Rightarrow> and_then (load_task r (tasks s)) (\<lambda>x.
                 if status x = TASK_READY then Inr (Some r) else find_ready (i + 1) lim s))
      else Inr None)"
  by pat_completeness auto

termination
  by (relation "measure (\<lambda>(i, lim, s). unat lim - unat i)")
    (auto simp: unat_Suc_less word_less_nat_alt)

declare find_ready.simps [simp del]

definition do_context_switch ::
  "(nat \<Rightarrow> u64) \<Rightarrow> nat \<Rightarrow> u64 \<Rightarrow> sched \<Rightarrow> (task_ref \<times> sched) result" where
  "do_context_switch clock cpu state s =
     and_then (from_option Null_Deref (tasks_running s cpu)) (\<lambda>curr.
     and_then (store_task curr
         (\<lambda>x. x\<lparr>kstack_top := state, status := status x AND NOT TASK_RUNNING\<rparr>) (tasks s)) (\<lambda>h.
     and_then (case wake_loop clock (s\<lparr>tasks := h\<rparr>) of None \<Rightarrow> Inl Diverges | Some r \<Rightarrow> r) (\<lambda>s.
     and_then (load_task curr (tasks s)) (\<lambda>c.
     and_then (find_ready (tid c + 1) (tlen (tasks_all s)) s) (\<lambda>n.
     and_then (case n of Some r \<Rightarrow> Inr n | None \<Rightarrow> find_ready 0 (tid c + 1) s) (\<lambda>n.
     and_then (case n of Some r \<Rightarrow> Inr r | None \<Rightarrow> from_option Null_Deref (tasks_idle s cpu)) (\<lambda>nxt.
     and_then (store_task nxt (\<lambda>x. x\<lparr>status := status x OR TASK_RUNNING\<rparr>) (tasks s)) (\<lambda>h.
     and_then (load_task nxt h) (\<lambda>x.
       Inr (nxt, s\<lparr>tasks := h, tasks_running := (tasks_running s)(cpu := Some nxt),
                    rsp0 := (rsp0 s)(cpu := kstack_limit x + KSTACK_SIZE)\<rparr>))))))))))"

section \<open>Sleeping, blocking, killing\<close>

partial_function (option) nanosleep_loop :: "(nat \<Rightarrow> u64) \<Rightarrow> u64 \<Rightarrow> nat \<Rightarrow> nat option" where
  "nanosleep_loop clock tgt k =
     (if clock k < tgt then nanosleep_loop clock tgt (k + 1) else Some (k + 1))"

definition hpet_nanosleep :: "(nat \<Rightarrow> u64) \<Rightarrow> u64 \<Rightarrow> nat \<Rightarrow> nat result" where
  "hpet_nanosleep clock nanos k = from_option Diverges (nanosleep_loop clock (clock k + nanos) (k + 1))"

definition sched_sleep :: "(nat \<Rightarrow> u64) \<Rightarrow> nat \<Rightarrow> u64 \<Rightarrow> sched \<Rightarrow> sched result" where
  "sched_sleep clock cpu nanos s =
     (if nanos \<le> TIMESLICE_DEFAULT
      then and_then (hpet_nanosleep clock nanos (ticks s)) (\<lambda>k. Inr (s\<lparr>ticks := k\<rparr>))
      else
        and_then (from_option Null_Deref (tasks_running s cpu)) (\<lambda>curr.
        and_then (store_task curr
            (\<lambda>x. x\<lparr>wakeuptime := clock (ticks s) + nanos, status := status x OR TASK_ASLEEP\<rparr>) (tasks s)) (\<lambda>h.
        and_then (add_sleeping_sorted curr (tasks_asleep s) h) (\<lambda>(q, h).
          Inr (s\<lparr>ticks := ticks s + 1, tasks_asleep := q, tasks := h\<rparr>)))))"

text \<open>The operations on a thread id return -1 when there is no such task.\<close>

definition sched_kill :: "nat \<Rightarrow> u64 \<Rightarrow> sched \<Rightarrow> (int \<times> bool \<times> sched) result" where
  "sched_kill cpu tno s =
     and_then (valid_tid tno (tasks_all s)) (\<lambda>v. case v of
       None \<Rightarrow> Inr (- 1, False, s)
     | Some t \<Rightarrow>
         and_then (store_task t (\<lambda>x. x\<lparr>status := status x OR TASK_DEAD\<rparr>) (tasks s)) (\<lambda>h.
         and_then (table_set tno None (tasks_all s)) (\<lambda>tab.
         and_then (tq_push_front (tasks_dead s) t h) (\<lambda>(dead, h).
         and_then (load_task t h) (\<lambda>x.
         and_then
           (if status x AND TASK_ASLEEP \<noteq> 0
            then and_then (tq_remove t (tasks_asleep s) h) (\<lambda>(q, h).
                 and_then (store_task t (\<lambda>x. x\<lparr>status := status x AND NOT TASK_ASLEEP\<rparr>) h) (\<lambda>h.
                   Inr (q, h)))
            else Inr (tasks_asleep s, h)) (\<lambda>(asleep, h).
           Inr (0, tasks_running s cpu = Some t,
                s\<lparr>tasks := h, tasks_all := tab, tasks_dead := dead, tasks_asleep := asleep\<rparr>)))))))"

definition sched_block :: "nat \<Rightarrow> u64 \<Rightarrow> sched \<Rightarrow> (int \<times> bool \<times> sched) result" where
  "sched_block cpu tno s =
     and_then (valid_tid tno (tasks_all s)) (\<lambda>v. case v of
       None \<Rightarrow> Inr (- 1, False, s)
     | Some t \<Rightarrow>
         and_then (load_task t (tasks s)) (\<lambda>x.
           if status x AND TASK_BLOCKED \<noteq> 0 then Inr (- 1, False, s)
           else and_then (store_task t (\<lambda>x. x\<lparr>status := status x OR TASK_BLOCKED\<rparr>) (tasks s)) (\<lambda>h.
             Inr (0, tasks_running s cpu = Some t, s\<lparr>tasks := h\<rparr>))))"

definition sched_unblock :: "u64 \<Rightarrow> sched \<Rightarrow> (int \<times> sched) result" where
  "sched_unblock tno s =
     and_then (valid_tid tno (tasks_all s)) (\<lambda>v. case v of
       None \<Rightarrow> Inr (- 1, s)
     | Some t \<Rightarrow>
         and_then (load_task t (tasks s)) (\<lambda>x.
           if \<not> (status x AND TASK_BLOCKED \<noteq> 0) then Inr (- 1, s)
           else and_then (store_task t (\<lambda>x. x\<lparr>status := status x AND NOT TASK_BLOCKED\<rparr>) (tasks s)) (\<lambda>h.
             Inr (0, s\<lparr>tasks := h\<rparr>))))"

text \<open>One round of the janitor: it empties the queue of dead tasks and frees them.\<close>

partial_function (option) reap_loop :: "sched \<Rightarrow> sched result option" where
  "reap_loop s =
     (case tq_pop_back (tasks_dead s) (tasks s) of
        Inl e \<Rightarrow> Some (Inl e)
      | Inr (None, q, h) \<Rightarrow> Some (Inr s)
      | Inr (Some t, q, h) \<Rightarrow>
          (case load_task t h of
             Inl e \<Rightarrow> Some (Inl e)
           | Inr x \<Rightarrow>
               (case table_set (tid x) None (tasks_all s) of
                  Inl e \<Rightarrow> Some (Inl e)
                | Inr tab \<Rightarrow> reap_loop (s\<lparr>tasks := h(t := None), tasks_dead := q, tasks_all := tab\<rparr>))))"

definition sched_janitor :: "sched \<Rightarrow> sched result" where
  "sched_janitor s = (case reap_loop s of None \<Rightarrow> Inl Diverges | Some r \<Rightarrow> r)"

definition sched_get_current :: "nat \<Rightarrow> sched \<Rightarrow> task_ref option" where
  "sched_get_current cpu s = tasks_running s cpu"

section \<open>Initialisation\<close>

text \<open>
  \<open>idle\<close>, \<open>janitor\<close> and \<open>first\<close> are the addresses of the entry points; \<open>first = 0\<close> on the
  application processors. The idle task is taken out of the table again.
\<close>

abbreviation PRIORITY_MIN :: u8 where "PRIORITY_MIN \<equiv> 10"
abbreviation PRIORITY_MID :: u8 where "PRIORITY_MID \<equiv> 35"

definition sched_init ::
  "u64 \<Rightarrow> u64 \<Rightarrow> nat \<Rightarrow> u64 \<Rightarrow> fresh_task \<times> fresh_task \<times> fresh_task \<Rightarrow> sched \<Rightarrow> sched result" where
  "sched_init idle janitor cpu first new s =
     (case new of (n1, n2, n3) \<Rightarrow>
        and_then (task_add idle 0 TASK_KERNEL_MODE 0 0 n1 s) (\<lambda>(t, s).
        and_then (table_get t (tasks_all s)) (\<lambda>r.
        let s = s\<lparr>tasks_idle := (tasks_idle s)(cpu := r), tasks_running := (tasks_running s)(cpu := r)\<rparr>
        in and_then (table_set t None (tasks_all s)) (\<lambda>tab.
        let s = s\<lparr>tasks_all := tab\<rparr>
        in if first \<noteq> 0
           then and_then (task_add first PRIORITY_MID TASK_KERNEL_MODE 0 0 n2 s) (\<lambda>(_, s).
                and_then (task_add janitor PRIORITY_MIN TASK_KERNEL_MODE 0 0 n3 s) (\<lambda>(_, s). Inr s))
           else Inr s))))"

end
