(* ===== verification/SchedInv.thy ===== *)
theory SchedInv
  imports Sched
begin

text \<open>
  What the scheduler's operations do, in terms of the lists its queues represent: the sorted
  insertion of sleepers, the wake-up loop and the search for a ready task.
\<close>

section \<open>What queue operations keep\<close>

text \<open>The fields the scheduler decides on.\<close>

definition info :: "task_heap \<Rightarrow> task_ref \<Rightarrow> (u64 \<times> u32 \<times> u64) option" where
  "info h r = map_option (\<lambda>x. (tid x, status x, wakeuptime x)) (h r)"

abbreviation wake :: "task_heap \<Rightarrow> task_ref \<Rightarrow> u64" where
  "wake h r \<equiv> snd (snd (the (info h r)))"

lemma info_simps [simp]:
  "h r = Some x \<Longrightarrow> info h r = Some (tid x, status x, wakeuptime x)"
  "h r = None \<Longrightarrow> info h r = None"
  "info (h(t \<mapsto> x)) = (info h)(t \<mapsto> (tid x, status x, wakeuptime x))"
  "info (h(t := None)) = (info h)(t := None)"
  by (auto simp: info_def)

lemma info_None [simp]: "info h r = None \<longleftrightarrow> h r = None"
  by (simp add: info_def)

lemma info_SomeD: "info h r = Some (i, st, w) \<Longrightarrow> \<exists>x. h r = Some x \<and> tid x = i \<and> status x = st \<and> wakeuptime x = w"
  by (auto simp: info_def)

lemma same_payload_info:
  assumes "same_payload h h'"
  shows "info h' = info h"
proof
  fix r
  have eq: "map_option payload (h' r) = map_option payload (h r)"
    using assms by (simp add: same_payload_def)
  have f: "tid (payload t) = tid t" "status (payload t) = status t"
      "wakeuptime (payload t) = wakeuptime t" for t
    by (simp_all add: payload_def)
  show "info h' r = info h r"
    using eq f by (cases "h r"; cases "h' r") (auto simp: info_def, (metis f)+)
qed

lemma links_only_info: "links_only X h h' \<Longrightarrow> info h' = info h"
  by (simp add: links_only_def same_payload_info)

lemma links_only_alive: "links_only X h h' \<Longrightarrow> h' r = None \<longleftrightarrow> h r = None"
  by (metis info_None links_only_info)

lemma links_only_outside: "links_only X h h' \<Longrightarrow> r \<notin> X \<Longrightarrow> h' r = h r"
  by (simp add: links_only_def outside_same_def)

lemma links_only_trans:
  "links_only X h1 h2 \<Longrightarrow> links_only Y h2 h3 \<Longrightarrow> links_only (X \<union> Y) h1 h3"
  unfolding links_only_def by (auto simp: outside_same_def intro: same_payload_trans)

lemma tq_rep_cong:
  assumes "\<And>r. r \<in> set xs \<Longrightarrow> map_option (\<lambda>t. (tprev t, tnext t)) (h' r)
      = map_option (\<lambda>t. (tprev t, tnext t)) (h r)"
  shows "tq_rep h' q xs = tq_rep h q xs"
  unfolding tq_rep_def using links_cong [of xs h' h] assms by simp

lemma tq_rep_outside: "links_only X h h' \<Longrightarrow> X \<inter> set xs = {} \<Longrightarrow> tq_rep h' q xs = tq_rep h q xs"
  by (rule tq_rep_cong) (metis disjoint_iff links_only_outside)

lemma tq_rep_store [simp]:
  assumes "h t = Some x" and "tprev y = tprev x" and "tnext y = tnext x"
  shows "tq_rep (h(t \<mapsto> y)) q xs = tq_rep h q xs"
  by (rule tq_rep_cong) (use assms in auto)

lemma tq_rep_drop [simp]: "t \<notin> set xs \<Longrightarrow> tq_rep (h(t := v)) q xs = tq_rep h q xs"
  by (rule tq_rep_cong) auto

lemma tq_rep_alive: "tq_rep h q xs \<Longrightarrow> r \<in> set xs \<Longrightarrow> \<exists>x. h r = Some x"
  unfolding tq_rep_def using links_allocated by blast

section \<open>Sorted insertion\<close>

text \<open>The sleepers, latest wake-up time first.\<close>

definition sleep_sorted :: "task_heap \<Rightarrow> task_ref list \<Rightarrow> bool" where
  "sleep_sorted h xs \<longleftrightarrow> sorted_wrt (\<lambda>a b. wake h b \<le> wake h a) xs"

lemma find_sleeper_spec:
  "links h p xs None \<Longrightarrow>
   find_sleeper (head_or xs None) w h = Some (Inr (find (\<lambda>r. wake h r \<le> w) xs))"
proof (induction xs arbitrary: p)
  case Nil
  then show ?case by (subst find_sleeper.simps) simp
next
  case (Cons x xs)
  then show ?case by (subst find_sleeper.simps) auto
qed

lemma sorted_split:
  assumes "sleep_sorted h (us @ vs)" and "\<And>u. u \<in> set us \<Longrightarrow> w < wake h u"
    and "vs \<noteq> [] \<Longrightarrow> wake h (hd vs) \<le> w" and "wake h t = w"
  shows "sleep_sorted h (us @ t # vs)"
proof -
  have "wake h v \<le> w" if "v \<in> set vs" for v
  proof (cases vs)
    case (Cons a as)
    have "wake h v \<le> wake h a"
      using assms(1) that Cons by (auto simp: sleep_sorted_def sorted_wrt_append)
    then show ?thesis using assms(3) Cons by auto
  qed (use that in simp)
  then show ?thesis
    using assms by (force simp: sleep_sorted_def sorted_wrt_append)
qed

lemma find_split:
  assumes "find P xs = Some i"
  obtains us vs where "xs = us @ i # vs" and "P i" and "\<And>u. u \<in> set us \<Longrightarrow> \<not> P u"
proof -
  obtain k where k: "k < length xs" "P (xs ! k)" "i = xs ! k" "\<forall>j<k. \<not> P (xs ! j)"
    using assms by (auto simp: find_Some_iff)
  show thesis
  proof (rule that [of "take k xs" "drop (Suc k) xs"])
    show "xs = take k xs @ i # drop (Suc k) xs" using k by (simp add: id_take_nth_drop [symmetric])
    show "P i" using k by simp
    fix u assume "u \<in> set (take k xs)"
    then show "\<not> P u" using k by (auto simp: in_set_conv_nth)
  qed
qed

text \<open>
  The new sleeper comes after all that wake later and before all that wake no later, in every
  case of the source: empty queue, new earliest sleeper, or a place found by the walk.
\<close>

lemma add_sleeping_sorted_spec:
  assumes rep: "tq_rep h q xs" and t: "t \<notin> set xs" "h t = Some x" and sorted: "sleep_sorted h xs"
  obtains q' h' us vs where "add_sleeping_sorted t q h = Inr (q', h')" and "xs = us @ vs"
    and "tq_rep h' q' (us @ t # vs)" and "links_only (insert t (set xs)) h h'"
    and "sleep_sorted h (us @ t # vs)"
proof (cases xs rule: rev_cases)
  case Nil
  obtain q' h' where push: "tq_push_front q t h = Inr (q', h')" "tq_rep h' q' [t]"
      "links_only {t} h h'"
    using tq.push_law [OF rep t(1)] t(2) Nil by (auto simp: allocated_task_def)
  moreover have "qfront q = None" using rep Nil by (simp add: tq_rep_def)
  ultimately show thesis
    using Nil by (intro that [of q' h' "[]" "[]"]) (simp_all add: add_sleeping_sorted_def sleep_sorted_def)
next
  case (snoc ys b)
  obtain xb where b: "h b = Some xb" using tq_rep_alive [OF rep, of b] snoc by auto
  have ends: "qback q = Some b" "qfront q = head_or xs None" "head_or xs None \<noteq> None"
    using rep snoc by (auto simp: tq_rep_def head_or_def split: list.split)
  show thesis
  proof (cases "wakeuptime xb > wakeuptime x")
    case True
    obtain q' h' where ins: "tq_insert_after q (Some b) t h = Inr (q', h')"
        "tq_rep h' q' (ys @ b # [t])" "links_only (insert t (set xs)) h h'"
      using tq.insert_law [of h q ys b "[]" t] rep t snoc by (auto simp: allocated_task_def)
    have "wake h b \<le> wake h u" if "u \<in> set xs" for u
      using sorted that snoc by (auto simp: sleep_sorted_def sorted_wrt_append)
    then have later: "wakeuptime x < wake h u" if "u \<in> set xs" for u
      using True b that by force
    show thesis
    proof (rule that [of q' h' xs "[]"])
      show "add_sleeping_sorted t q h = Inr (q', h')"
        using ends True b t(2) ins(1) by (auto simp: add_sleeping_sorted_def)
      show "sleep_sorted h (xs @ t # [])"
        by (rule sorted_split [where w = "wakeuptime x"]) (use sorted later t(2) in simp_all)
    qed (use ins snoc in simp_all)
  next
    case False
    have walk: "find_sleeper (head_or xs None) (wakeuptime x) h
        = Some (Inr (find (\<lambda>r. wake h r \<le> wakeuptime x) xs))"
      by (rule find_sleeper_spec [where p = None]) (use rep in \<open>simp add: tq_rep_def\<close>)
    have "find (\<lambda>r. wake h r \<le> wakeuptime x) xs \<noteq> None"
      using False b snoc by (auto simp: find_None_iff)
    then obtain i where find: "find (\<lambda>r. wake h r \<le> wakeuptime x) xs = Some i" by blast
    obtain us vs where split: "xs = us @ i # vs" "wake h i \<le> wakeuptime x"
        "\<And>u. u \<in> set us \<Longrightarrow> \<not> wake h u \<le> wakeuptime x"
      by (rule find_split [OF find]) blast
    obtain xi where i: "h i = Some xi" "tprev xi = last_or us None"
      using rep split(1) by (auto simp: tq_rep_def links_append)
    have "\<exists>q' h'. tq_insert_after q (last_or us None) t h = Inr (q', h')
        \<and> tq_rep h' q' (us @ t # i # vs) \<and> links_only (insert t (set xs)) h h'"
    proof (cases us rule: rev_cases)
      case Nil
      then show ?thesis
        using tq.insert_first_law [OF rep t(1)] t(2) split(1) by (auto simp: allocated_task_def)
    next
      case us: (snoc ws a)
      then show ?thesis
        using tq.insert_law [of h q ws a "i # vs" t] rep t split(1) by (auto simp: allocated_task_def)
    qed
    then obtain q' h' where ins: "tq_insert_after q (last_or us None) t h = Inr (q', h')"
        "tq_rep h' q' (us @ t # i # vs)" "links_only (insert t (set xs)) h h'"
      by blast
    show thesis
    proof (rule that [of q' h' us "i # vs"])
      show "add_sleeping_sorted t q h = Inr (q', h')"
        using ends False b t(2) walk find i ins(1) by (auto simp: add_sleeping_sorted_def)
      show "sleep_sorted h (us @ t # i # vs)"
        by (rule sorted_split [where w = "wakeuptime x"])
          (use sorted split t(2) in \<open>auto simp: not_le\<close>)
    qed (use ins split in simp_all)
  qed
qed

section \<open>The wake-up loop\<close>

text \<open>Waking a set of tasks: their sleep bit is cleared, nothing else about any task changes.\<close>

definition woken :: "task_ref set \<Rightarrow> task_heap \<Rightarrow> task_ref \<Rightarrow> (u64 \<times> u32 \<times> u64) option" where
  "woken W h r = (if r \<in> W then map_option (\<lambda>(i, st, w). (i, st AND NOT TASK_ASLEEP, w)) (info h r)
     else info h r)"

text \<open>
  The loop wakes a final segment of the queue, that is, the earliest sleepers: each was due at
  the reading of the clock made for it, and the first one kept was not due at the last reading.
\<close>

definition wakes :: "(nat \<Rightarrow> u64) \<Rightarrow> sched \<Rightarrow> task_ref list \<Rightarrow> task_ref list \<Rightarrow> sched \<Rightarrow> bool" where
  "wakes clock s us vs s' \<longleftrightarrow>
     tq_rep (tasks s') (tasks_asleep s') us \<and> info (tasks s') = woken (set vs) (tasks s)
     \<and> (\<forall>r. r \<notin> set (us @ vs) \<longrightarrow> tasks s' r = tasks s r)
     \<and> s' = s\<lparr>tasks := tasks s', tasks_asleep := tasks_asleep s', ticks := ticks s'\<rparr>
     \<and> ticks s \<le> ticks s'
     \<and> (\<forall>v\<in>set vs. \<exists>k. ticks s \<le> k \<and> k < ticks s' \<and> wake (tasks s) v < clock k)
     \<and> (us \<noteq> [] \<longrightarrow> ticks s < ticks s' \<and> clock (ticks s' - 1) \<le> wake (tasks s) (last us))"

lemma wake_loop_stop:
  assumes "tq_rep (tasks s) (tasks_asleep s) (ys @ [b])" and "tasks s b = Some x"
    and "\<not> wakeuptime x < clock (ticks s)"
  shows "wake_loop clock s = Some (Inr (s\<lparr>ticks := ticks s + 1\<rparr>))"
    and "wakes clock s (ys @ [b]) [] (s\<lparr>ticks := ticks s + 1\<rparr>)"
proof -
  have "qback (tasks_asleep s) = Some b" using assms(1) by (simp add: tq_rep_def)
  then show "wake_loop clock s = Some (Inr (s\<lparr>ticks := ticks s + 1\<rparr>))"
    using assms by (subst wake_loop.simps) (simp add: Let_def)
  show "wakes clock s (ys @ [b]) [] (s\<lparr>ticks := ticks s + 1\<rparr>)"
    using assms by (auto simp: wakes_def woken_def fun_eq_iff)
qed

lemma wake_loop_step:
  assumes rep: "tq_rep (tasks s) (tasks_asleep s) (ys @ [b])" and b: "tasks s b = Some x"
    and due: "wakeuptime x < clock (ticks s)"
  obtains s2 where "wake_loop clock s = wake_loop clock s2"
    and "tq_rep (tasks s2) (tasks_asleep s2) ys" and "info (tasks s2) = woken {b} (tasks s)"
    and "\<And>r. r \<notin> set (ys @ [b]) \<Longrightarrow> tasks s2 r = tasks s r"
    and "s2 = s\<lparr>tasks := tasks s2, tasks_asleep := tasks_asleep s2, ticks := ticks s + 1\<rparr>"
proof -
  have bk: "qback (tasks_asleep s) = Some b" and dist: "b \<notin> set ys"
    using rep by (auto simp: tq_rep_def)
  obtain q h where pop: "tq_pop_back (tasks_asleep s) (tasks s) = Inr (Some b, q, h)"
      "tq_rep h q ys" "links_only (set ys) (tasks s) h"
    using tq.pop_law [OF rep] by blast
  let ?f = "\<lambda>y. y\<lparr>status := status y AND NOT TASK_ASLEEP\<rparr>"
  have hb: "h b = Some x" using links_only_outside [OF pop(3) dist] b by simp
  let ?s2 = "s\<lparr>ticks := ticks s + 1, tasks := h(b \<mapsto> ?f x), tasks_asleep := q\<rparr>"
  show thesis
  proof (rule that [of ?s2])
    show "wake_loop clock s = wake_loop clock ?s2"
      using due b bk pop(1) hb by (subst wake_loop.simps) (simp add: Let_def)
    show "info (tasks ?s2) = woken {b} (tasks s)"
      using links_only_info [OF pop(3)] b by (auto simp: woken_def fun_eq_iff)
    show "tasks ?s2 r = tasks s r" if "r \<notin> set (ys @ [b])" for r
      using that links_only_outside [OF pop(3), of r] by simp
  qed (use pop(2) hb in simp_all)
qed

lemma woken_wake [simp]: "info h' = woken W h \<Longrightarrow> wake h' r = wake h r"
  by (cases "h r") (auto simp: woken_def)

lemma wakes_Cons:
  assumes "info (tasks s2) = woken {b} (tasks s)" and "b \<notin> set (us @ vs)"
    and out: "\<And>r. r \<notin> set (us @ vs @ [b]) \<Longrightarrow> tasks s2 r = tasks s r"
    and s2: "s2 = s\<lparr>tasks := tasks s2, tasks_asleep := tasks_asleep s2, ticks := ticks s + 1\<rparr>"
    and due: "wake (tasks s) b < clock (ticks s)" and rest: "wakes clock s2 us vs s'"
  shows "wakes clock s us (vs @ [b]) s'"
proof -
  have ticks: "ticks s2 = ticks s + 1" by (subst s2) simp
  have le: "ticks s < ticks s'" using rest ticks by (simp add: wakes_def)
  have keep: "wake (tasks s2) r = wake (tasks s) r" for r using assms(1) by (rule woken_wake)
  have "info (tasks s') = woken (set (vs @ [b])) (tasks s)"
    using rest assms(1,2) by (auto simp: wakes_def woken_def fun_eq_iff)
  moreover have "s' = s\<lparr>tasks := tasks s', tasks_asleep := tasks_asleep s', ticks := ticks s'\<rparr>"
  proof -
    have "s' = s2\<lparr>tasks := tasks s', tasks_asleep := tasks_asleep s', ticks := ticks s'\<rparr>"
      using rest by (simp add: wakes_def)
    then show ?thesis by (subst (asm) s2) simp
  qed
  moreover have "\<exists>k. ticks s \<le> k \<and> k < ticks s' \<and> wake (tasks s) v < clock k" if "v \<in> set (vs @ [b])" for v
  proof (cases "v = b")
    case True
    then show ?thesis using le due by auto
  next
    case False
    then have "v \<in> set vs" using that by simp
    then obtain k where "ticks s2 \<le> k" "k < ticks s'" "wake (tasks s2) v < clock k"
      using rest unfolding wakes_def by blast
    then show ?thesis unfolding keep ticks by (intro exI [of _ k]) simp
  qed
  moreover have "ticks s < ticks s' \<and> clock (ticks s' - 1) \<le> wake (tasks s) (last us)" if "us \<noteq> []"
    using rest that le unfolding wakes_def keep by simp
  ultimately show ?thesis
    using rest out le unfolding wakes_def by auto
qed

lemma wake_loop_spec:
  assumes "tq_rep (tasks s) (tasks_asleep s) xs"
  shows "\<exists>s' us vs. wake_loop clock s = Some (Inr s') \<and> xs = us @ vs \<and> wakes clock s us vs s'"
  using assms
proof (induction xs arbitrary: s rule: rev_induct)
  case Nil
  then have "qback (tasks_asleep s) = None" by (simp add: tq_rep_def)
  then have "wake_loop clock s = Some (Inr s)" by (subst wake_loop.simps) simp
  moreover have "wakes clock s [] [] s" using Nil by (simp add: wakes_def woken_def fun_eq_iff)
  ultimately show ?case by blast
next
  case (snoc b ys)
  obtain x where b: "tasks s b = Some x" using tq_rep_alive [OF snoc.prems, of b] by auto
  show ?case
  proof (cases "wakeuptime x < clock (ticks s)")
    case False
    from wake_loop_stop [where clock = clock, OF snoc.prems b False] show ?thesis
      by (metis append_Nil2)
  next
    case True
    obtain s2 where s2: "wake_loop clock s = wake_loop clock s2" "tq_rep (tasks s2) (tasks_asleep s2) ys"
      "info (tasks s2) = woken {b} (tasks s)"
      "\<And>r. r \<notin> set (ys @ [b]) \<Longrightarrow> tasks s2 r = tasks s r"
      "s2 = s\<lparr>tasks := tasks s2, tasks_asleep := tasks_asleep s2, ticks := ticks s + 1\<rparr>"
      by (rule wake_loop_step [where clock = clock, OF snoc.prems b True]) (rule that; assumption)
    obtain s' us vs where IH: "wake_loop clock s2 = Some (Inr s')" "ys = us @ vs" "wakes clock s2 us vs s'"
      using snoc.IH [OF s2(2)] by blast
    have "b \<notin> set (us @ vs)" using snoc.prems IH(2) by (simp add: tq_rep_def)
    then have "wakes clock s us (vs @ [b]) s'"
      by (rule wakes_Cons [OF s2(3) _ _ s2(5) _ IH(3)]) (use s2(4) IH(2) b True in auto)
    then show ?thesis using s2(1) IH(1,2) by auto
  qed
qed

section \<open>The search for a ready task\<close>

definition ready_at :: "sched \<Rightarrow> nat \<Rightarrow> bool" where
  "ready_at s k \<longleftrightarrow> (\<exists>r x. tslots (tasks_all s) k = Slot (Some r) \<and> tasks s r = Some x
     \<and> status x = TASK_READY)"

definition task_at :: "sched \<Rightarrow> nat \<Rightarrow> task_ref option" where
  "task_at s k = (case tslots (tasks_all s) k of Garbage \<Rightarrow> None | Slot x \<Rightarrow> x)"

definition first_ready :: "sched \<Rightarrow> nat list \<Rightarrow> task_ref option" where
  "first_ready s ks = (case find (ready_at s) ks of None \<Rightarrow> None | Some k \<Rightarrow> task_at s k)"

text \<open>The table has been written at every index below its length, and points at live tasks.\<close>

definition table_ok :: "sched \<Rightarrow> bool" where
  "table_ok s \<longleftrightarrow> 8 * unat (tlen (tasks_all s)) \<le> unat (talloc (tasks_all s))
     \<and> (\<forall>k<unat (tlen (tasks_all s)). \<exists>e. tslots (tasks_all s) k = Slot e
          \<and> (\<forall>r. e = Some r \<longrightarrow> tasks s r \<noteq> None))"

lemma table_get_ok:
  assumes "table_ok s" and "unat i < unat (tlen (tasks_all s))"
  shows "table_get i (tasks_all s) = Inr (task_at s (unat i))"
    and "task_at s (unat i) = Some r \<Longrightarrow> \<exists>x. tasks s r = Some x"
    and "tslots (tasks_all s) (unat i) = Slot (task_at s (unat i))"
  using assms by (auto simp: table_ok_def table_get_def task_at_def)

lemma first_ready_append:
  "first_ready s (ks @ js) = (case first_ready s ks of None \<Rightarrow> first_ready s js | Some r \<Rightarrow> Some r)"
proof (cases "find (ready_at s) ks")
  case None
  then have "find (ready_at s) (ks @ js) = find (ready_at s) js"
    by (induction ks) (auto split: if_splits)
  then show ?thesis using None by (simp add: first_ready_def)
next
  case (Some k)
  then have "find (ready_at s) (ks @ js) = Some k"
    by (induction ks) (auto split: if_splits)
  moreover have "ready_at s k" using Some by (auto simp: find_Some_iff)
  then have "\<exists>r. task_at s k = Some r" by (auto simp: ready_at_def task_at_def)
  ultimately show ?thesis using Some by (auto simp: first_ready_def)
qed

lemma find_ready_spec:
  assumes "table_ok s" and "unat lim \<le> unat (tlen (tasks_all s))"
  shows "find_ready i lim s = Inr (first_ready s [unat i..<unat lim])"
  using assms
proof (induction i lim s rule: find_ready.induct)
  case (1 i lim s)
  show ?case
  proof (cases "i < lim")
    case False
    then show ?thesis
      by (subst find_ready.simps) (simp add: first_ready_def word_less_nat_alt)
  next
    case True
    then have i: "unat i < unat (tlen (tasks_all s))" and upt: "[unat i..<unat lim] = unat i # [unat (i + 1)..<unat lim]"
      using "1.prems"(2) unat_Suc_less [OF True] by (auto simp: word_less_nat_alt upt_conv_Cons)
    note get = table_get_ok [OF "1.prems"(1) i]
    show ?thesis
    proof (cases "task_at s (unat i)")
      case None
      then have "\<not> ready_at s (unat i)" using get(3) by (simp add: ready_at_def)
      then show ?thesis
        using True get(1) None "1.IH"(1) [OF True get(1) None "1.prems"]
        by (subst find_ready.simps) (simp add: upt first_ready_def)
    next
      case (Some r)
      obtain x where x: "tasks s r = Some x" using get(2) [OF Some] by blast
      then have ld: "load_task r (tasks s) = Inr x" by simp
      have iff: "ready_at s (unat i) \<longleftrightarrow> status x = TASK_READY"
        using get(3) Some x by (auto simp: ready_at_def)
      show ?thesis
      proof (cases "status x = TASK_READY")
        case True
        then show ?thesis
          using \<open>i < lim\<close> get(1) Some x iff
          by (subst find_ready.simps) (simp add: upt first_ready_def)
      next
        case False
        then show ?thesis
          using \<open>i < lim\<close> get(1) Some x iff "1.IH"(2) [OF \<open>i < lim\<close> get(1) Some ld False "1.prems"]
          by (subst find_ready.simps) (simp add: upt first_ready_def)
      qed
    qed
  qed
qed

text \<open>The order in which a switch away from the task with id \<open>c\<close> looks for the next one.\<close>

definition round_robin :: "nat \<Rightarrow> nat \<Rightarrow> nat list" where
  "round_robin c n = [Suc c..<n] @ [0..<Suc c]"

lemma set_round_robin: "c < n \<Longrightarrow> set (round_robin c n) = {..<n}"
  by (auto simp: round_robin_def)

end
