(* ===== verification/SchedSafe.thy ===== *)
theory SchedSafe
  imports SchedInv
begin

text \<open>
  The invariant of the scheduler: queues, table, status bits and processors agree. What a context switch does
  under it, and that switching, blocking, unblocking, sleeping and killing keep it.
\<close>

section \<open>The invariant\<close>

definition flagged :: "nat \<Rightarrow> task_heap \<Rightarrow> task_ref set" where
  "flagged b h = {r. \<exists>i st w. info h r = Some (i, st, w) \<and> bit st b}"

abbreviation "running_set \<equiv> flagged 0"
abbreviation "blocked_set \<equiv> flagged 1"
abbreviation "asleep_set \<equiv> flagged 2"
abbreviation "dead_set \<equiv> flagged 3"

definition queues_ok :: "sched \<Rightarrow> task_ref list \<Rightarrow> task_ref list \<Rightarrow> bool" where
  "queues_ok s zs ds \<longleftrightarrow>
     tq_rep (tasks s) (tasks_asleep s) zs \<and> tq_rep (tasks s) (tasks_dead s) ds
     \<and> set zs = asleep_set (tasks s) \<and> set ds \<subseteq> dead_set (tasks s) \<and> set zs \<inter> set ds = {}
     \<and> sleep_sorted (tasks s) zs"

text \<open>
  A running task carries the status bit, except that \<open>sched_init\<close> starts the idle task of a CPU
  without it.
\<close>

definition cpus_ok :: "sched \<Rightarrow> bool" where
  "cpus_ok s \<longleftrightarrow>
     (\<forall>c r. tasks_running s c = Some r \<longrightarrow> r \<in> running_set (tasks s) \<or> tasks_idle s c = Some r)
     \<and> (\<forall>c d r. tasks_running s c = Some r \<longrightarrow> tasks_running s d = Some r \<longrightarrow> c = d)
     \<and> (\<forall>c r. tasks_idle s c = Some r \<longrightarrow> tasks s r \<noteq> None
          \<and> (\<forall>d. tasks_running s d = Some r \<longrightarrow> d = c) \<and> (\<forall>d. tasks_idle s d = Some r \<longrightarrow> d = c))
     \<and> (\<forall>c. tasks_running s c = None \<longleftrightarrow> tasks_idle s c = None)"

definition listed :: "sched \<Rightarrow> task_ref set" where
  "listed s = {r. \<exists>k<unat (tlen (tasks_all s)). tslots (tasks_all s) k = Slot (Some r)}"

definition table_inv :: "sched \<Rightarrow> bool" where
  "table_inv s \<longleftrightarrow>
     8 * unat (tlen (tasks_all s)) \<le> unat (talloc (tasks_all s))
     \<and> (\<forall>k<unat (tlen (tasks_all s)). tslots (tasks_all s) k \<noteq> Garbage)
     \<and> (\<forall>k<unat (tlen (tasks_all s)). \<forall>r. tslots (tasks_all s) k = Slot (Some r) \<longrightarrow>
          (\<exists>x. tasks s r = Some x \<and> unat (tid x) = k))
     \<and> (\<forall>r x. tasks s r = Some x \<longrightarrow> tid x \<le> TID_MAX \<and> tid x < curr_tid s)
     \<and> (\<forall>r q x y. tasks s r = Some x \<longrightarrow> tasks s q = Some y \<longrightarrow> tid x = tid y \<longrightarrow> r = q)
     \<and> tlen (tasks_all s) \<le> curr_tid s"

text \<open>Tasks that were made, but whose thread id the table does not reach yet.\<close>

definition loose :: "sched \<Rightarrow> task_ref set" where
  "loose s = {r. \<exists>x. tasks s r = Some x \<and> \<not> tid x < tlen (tasks_all s)}"

definition sched_inv :: "sched \<Rightarrow> task_ref list \<Rightarrow> task_ref list \<Rightarrow> bool" where
  "sched_inv s zs ds \<longleftrightarrow>
     queues_ok s zs ds \<and> cpus_ok s \<and> table_inv s
     \<and> listed s \<inter> (set ds \<union> ran (tasks_idle s)) = {} \<and> set ds \<inter> ran (tasks_idle s) = {}
     \<and> loose s \<inter> (set ds \<union> ran (tasks_idle s) \<union> ran (tasks_running s)) = {}
     \<and> (\<forall>r\<ge>fresh s. tasks s r = None)"

lemma table_invD:
  assumes "table_inv s"
  shows "8 * unat (tlen (tasks_all s)) \<le> unat (talloc (tasks_all s))"
    and "k < unat (tlen (tasks_all s)) \<Longrightarrow> tslots (tasks_all s) k \<noteq> Garbage"
    and "k < unat (tlen (tasks_all s)) \<Longrightarrow> tslots (tasks_all s) k = Slot (Some r) \<Longrightarrow>
      \<exists>x. tasks s r = Some x \<and> unat (tid x) = k"
    and "tasks s r = Some x \<Longrightarrow> tid x \<le> TID_MAX"
    and "tasks s r = Some x \<Longrightarrow> tid x < curr_tid s"
    and "tasks s r = Some x \<Longrightarrow> tasks s q = Some y \<Longrightarrow> tid x = tid y \<Longrightarrow> r = q"
    and "tlen (tasks_all s) \<le> curr_tid s"
  using assms unfolding table_inv_def by blast+

lemma cpus_okD:
  assumes "cpus_ok s"
  shows "tasks_running s c = Some r \<Longrightarrow> r \<in> running_set (tasks s) \<or> tasks_idle s c = Some r"
    and "tasks_running s c = Some r \<Longrightarrow> tasks_running s d = Some r \<Longrightarrow> c = d"
    and "tasks_idle s c = Some r \<Longrightarrow> tasks s r \<noteq> None"
    and "tasks_idle s c = Some r \<Longrightarrow> tasks_running s d = Some r \<Longrightarrow> d = c"
    and "tasks_idle s c = Some r \<Longrightarrow> tasks_idle s d = Some r \<Longrightarrow> d = c"
    and "tasks_running s c = None \<longleftrightarrow> tasks_idle s c = None"
  using assms unfolding cpus_ok_def by blast+

lemma sched_invD:
  assumes "sched_inv s zs ds"
  shows "queues_ok s zs ds" and "cpus_ok s" and "table_inv s"
    and "listed s \<inter> (set ds \<union> ran (tasks_idle s)) = {}" and "set ds \<inter> ran (tasks_idle s) = {}"
    and "r \<ge> fresh s \<Longrightarrow> tasks s r = None"
    and "loose s \<inter> (set ds \<union> ran (tasks_idle s) \<union> ran (tasks_running s)) = {}"
  using assms unfolding sched_inv_def by blast+

text \<open>The tasks the scheduler works on have a slot in the table.\<close>

lemma in_table:
  assumes "sched_inv s zs ds" and "tasks s r = Some x"
  shows "tasks_running s c = Some r \<Longrightarrow> tid x < tlen (tasks_all s)"
    and "tasks_idle s c = Some r \<Longrightarrow> tid x < tlen (tasks_all s)"
    and "r \<in> set ds \<Longrightarrow> tid x < tlen (tasks_all s)"
  using sched_invD(7) [OF assms(1)] assms(2) unfolding loose_def ran_def by blast+

lemma queues_okD:
  assumes "queues_ok s zs ds"
  shows "tq_rep (tasks s) (tasks_asleep s) zs" and "tq_rep (tasks s) (tasks_dead s) ds"
    and "set zs = asleep_set (tasks s)" and "set ds \<subseteq> dead_set (tasks s)"
    and "set zs \<inter> set ds = {}" and "sleep_sorted (tasks s) zs"
  using assms unfolding queues_ok_def by blast+

subsection \<open>How single updates change the flagged tasks\<close>

lemma flagged_alt: "r \<in> flagged b h \<longleftrightarrow> (\<exists>x. h r = Some x \<and> bit (status x) b)"
  by (auto simp: flagged_def info_def)

lemma flagged_cong: "info h' = info h \<Longrightarrow> flagged b h' = flagged b h"
  by (simp add: flagged_def)

lemma flagged_upd:
  "flagged b (h(r \<mapsto> y)) = (if bit (status y) b then insert r (flagged b h) else flagged b h - {r})"
  by (rule set_eqI) (simp add: flagged_alt)

lemma flagged_drop [simp]: "flagged b (h(r := None)) = flagged b h - {r}"
  by (rule set_eqI) (simp add: flagged_alt)

lemma flagged_alive: "r \<in> flagged b h \<Longrightarrow> \<exists>x. h r = Some x"
  by (auto simp: flagged_alt)

lemma flagged_iff: "h r = Some x \<Longrightarrow> r \<in> flagged b h \<longleftrightarrow> bit (status x) b"
  by (simp add: flagged_alt)

lemma ready_not_flagged: "h r = Some x \<Longrightarrow> status x = TASK_READY \<Longrightarrow> r \<notin> flagged b h"
  by (simp add: flagged_iff)

lemma woken_flagged:
  assumes "info h' = woken W h"
  shows "flagged b h' = (if b = 2 then flagged b h - W else flagged b h)"
proof -
  have "bit (st AND NOT TASK_ASLEEP) b \<longleftrightarrow> bit st b \<and> b \<noteq> 2" for st :: u32
  proof -
    have "bit (4 :: u32) b \<longleftrightarrow> b = 2"
      using bit_exp_iff [of 2 b, where ?'a = "32 word"] by auto
    moreover have "bit st b \<Longrightarrow> b < 32" using bit_imp_le_length [of st b] by simp
    ultimately show ?thesis by (auto simp: bit_simps)
  qed
  then show ?thesis
    unfolding flagged_def assms by (auto simp: woken_def)
qed

lemma sleep_sorted_cong:
  assumes "\<And>r. r \<in> set zs \<Longrightarrow> wake h' r = wake h r"
  shows "sleep_sorted h' zs = sleep_sorted h zs"
  unfolding sleep_sorted_def using assms
  by (intro iffI; elim sorted_wrt_mono_rel [rotated]) auto

section \<open>A context switch, step by step\<close>

definition after_save :: "u64 \<Rightarrow> task_ref \<Rightarrow> task \<Rightarrow> sched \<Rightarrow> sched" where
  "after_save st cur cx s =
     s\<lparr>tasks := (tasks s)(cur \<mapsto> cx\<lparr>kstack_top := st, status := status cx AND NOT TASK_RUNNING\<rparr>)\<rparr>"

definition run_next :: "nat \<Rightarrow> task_ref \<Rightarrow> task \<Rightarrow> sched \<Rightarrow> sched" where
  "run_next c nxt x s =
     s\<lparr>tasks := (tasks s)(nxt \<mapsto> x\<lparr>status := status x OR TASK_RUNNING\<rparr>),
       tasks_running := (tasks_running s)(c := Some nxt),
       rsp0 := (rsp0 s)(c := kstack_limit x + KSTACK_SIZE)\<rparr>"

text \<open>The choice: the first ready task in round-robin order, else the CPU's idle task.\<close>

definition choose_next :: "sched \<Rightarrow> nat \<Rightarrow> u64 \<Rightarrow> task_ref" where
  "choose_next s c t =
     (case first_ready s (round_robin (unat t) (unat (tlen (tasks_all s)))) of
        Some r \<Rightarrow> r
      | None \<Rightarrow> the (tasks_idle s c))"

lemma cpus_alive: "cpus_ok s \<Longrightarrow> tasks_running s c = Some r \<Longrightarrow> \<exists>x. tasks s r = Some x"
  using cpus_okD(1,3) [of s c r] flagged_alive by blast

lemma table_inv_ok:
  assumes inv: "table_inv s" and eq: "tasks_all s' = tasks_all s"
    and alive: "\<And>r. tasks s' r = None \<longleftrightarrow> tasks s r = None"
  shows "table_ok s'"
  unfolding table_ok_def eq
proof (intro conjI allI impI table_invD(1) [OF inv])
  fix k assume k: "k < unat (tlen (tasks_all s))"
  then obtain e where e: "tslots (tasks_all s) k = Slot e"
    using table_invD(2) [OF inv] by (cases "tslots (tasks_all s) k") auto
  have "tasks s' r \<noteq> None" if "e = Some r" for r
    using table_invD(3) [OF inv k, of r] e that alive [of r] by auto
  then show "\<exists>e. tslots (tasks_all s) k = Slot e \<and> (\<forall>r. e = Some r \<longrightarrow> tasks s' r \<noteq> None)"
    using e by blast
qed

lemma first_ready_SomeD:
  assumes "first_ready s ks = Some r"
  shows "\<exists>x k. tasks s r = Some x \<and> status x = TASK_READY \<and> k \<in> set ks \<and> tslots (tasks_all s) k = Slot (Some r)"
proof -
  obtain k where k: "find (ready_at s) ks = Some k" "task_at s k = Some r"
    using assms by (auto simp: first_ready_def split: option.splits)
  then have "ready_at s k" "k \<in> set ks" by (auto simp: find_Some_iff)
  then show ?thesis using k(2) by (auto simp: ready_at_def task_at_def)
qed

lemma wakes_fields:
  assumes "wakes clock s us vs s'"
  shows "tasks_all s' = tasks_all s" "tasks_running s' = tasks_running s" "tasks_idle s' = tasks_idle s"
    "tasks_dead s' = tasks_dead s" "curr_tid s' = curr_tid s" "fresh s' = fresh s" "rsp0 s' = rsp0 s"
    "stacks s' = stacks s"
proof -
  have "s' = s\<lparr>tasks := tasks s', tasks_asleep := tasks_asleep s', ticks := ticks s'\<rparr>"
    using assms by (simp add: wakes_def)
  from arg_cong [OF this, of "\<lambda>t. (tasks_all t, tasks_running t, tasks_idle t, tasks_dead t,
      curr_tid t, fresh t, rsp0 t, stacks t)"]
  show "tasks_all s' = tasks_all s" "tasks_running s' = tasks_running s" "tasks_idle s' = tasks_idle s"
    "tasks_dead s' = tasks_dead s" "curr_tid s' = curr_tid s" "fresh s' = fresh s" "rsp0 s' = rsp0 s"
    "stacks s' = stacks s"
    by simp_all
qed

lemma woken_Some:
  assumes "info h' = woken W h" and "h r = Some x"
  shows "\<exists>y. h' r = Some y \<and> tid y = tid x \<and> wakeuptime y = wakeuptime x
    \<and> status y = (if r \<in> W then status x AND NOT TASK_ASLEEP else status x)"
proof -
  have "info h' r = Some (tid x, if r \<in> W then status x AND NOT TASK_ASLEEP else status x, wakeuptime x)"
    unfolding assms(1) woken_def by (simp add: assms(2))
  then show ?thesis by (rule info_SomeD [THEN ex_forward]) simp
qed

lemma woken_alive: "info h' = woken W h \<Longrightarrow> h' r = None \<longleftrightarrow> h r = None"
proof -
  assume a: "info h' = woken W h"
  have "h r = None \<Longrightarrow> info h' r = None" unfolding a woken_def by simp
  then show ?thesis using woken_Some [OF a, of r] by (cases "h r") auto
qed

lemma do_context_switch_eq:
  assumes inv: "sched_inv s zs ds" and run: "tasks_running s c = Some cur"
  shows "\<exists>cx us vs s1 x. tasks s cur = Some cx \<and> zs = us @ vs
    \<and> wakes clock (after_save st cur cx s) us vs s1 \<and> table_ok s1
    \<and> tasks s1 (choose_next s1 c (tid cx)) = Some x
    \<and> do_context_switch clock c st s =
        Inr (choose_next s1 c (tid cx), run_next c (choose_next s1 c (tid cx)) x s1)"
proof -
  obtain cx where cx: "tasks s cur = Some cx"
    using cpus_alive [OF sched_invD(2) [OF inv] run] by blast
  let ?s0 = "after_save st cur cx s"
  have "tq_rep (tasks ?s0) (tasks_asleep ?s0) zs"
    using inv cx by (simp add: sched_inv_def queues_ok_def after_save_def)
  then obtain s1 us vs where w: "wake_loop clock ?s0 = Some (Inr s1)" "zs = us @ vs" "wakes clock ?s0 us vs s1"
    using wake_loop_spec by blast
  note f = wakes_fields [OF w(3)]
  have info1: "info (tasks s1) = woken (set vs) (tasks ?s0)" using w(3) by (simp add: wakes_def)
  have alive: "tasks s1 r = None \<longleftrightarrow> tasks s r = None" for r
    using woken_alive [OF info1, of r] cx by (auto simp: after_save_def)
  have table: "table_ok s1"
    by (rule table_inv_ok [OF sched_invD(3) [OF inv] _ alive]) (simp add: f(1) after_save_def)
  obtain c1 where c1: "tasks s1 cur = Some c1" "tid c1 = tid cx"
    using woken_Some [OF info1, of cur "cx\<lparr>kstack_top := st, status := status cx AND NOT TASK_RUNNING\<rparr>"]
    by (auto simp: after_save_def)
  have lt: "tid cx < tlen (tasks_all s1)"
    using in_table(1) [OF inv cx run] f(1) by (simp add: after_save_def)
  then have suc: "unat (tid cx + 1) = Suc (unat (tid cx))" "unat (tid cx + 1) \<le> unat (tlen (tasks_all s1))"
    using unat_Suc_less [OF lt] by (simp_all add: word_less_nat_alt)
  let ?n = "unat (tlen (tasks_all s1))"
  have search: "find_ready (tid cx + 1) (tlen (tasks_all s1)) s1 = Inr (first_ready s1 [Suc (unat (tid cx))..<?n])"
      "find_ready 0 (tid cx + 1) s1 = Inr (first_ready s1 [0..<Suc (unat (tid cx))])"
    using find_ready_spec [OF table, of "tlen (tasks_all s1)"] find_ready_spec [OF table suc(2)]
    by (simp_all only: suc(1) unsigned_0 order_refl)
  have both: "first_ready s1 (round_robin (unat (tid cx)) ?n)
      = (case first_ready s1 [Suc (unat (tid cx))..<?n] of
           None \<Rightarrow> first_ready s1 [0..<Suc (unat (tid cx))] | Some r \<Rightarrow> Some r)"
    unfolding round_robin_def by (rule first_ready_append)
  obtain i where i: "tasks_idle s1 c = Some i" "tasks s i \<noteq> None"
    using cpus_okD(3,6) [OF sched_invD(2) [OF inv], of c] run f(3)
    by (cases "tasks_idle s c") (auto simp: after_save_def)
  let ?nxt = "choose_next s1 c (tid cx)"
  have "\<exists>x. tasks s1 ?nxt = Some x"
  proof (cases "first_ready s1 (round_robin (unat (tid cx)) ?n)")
    case None
    then show ?thesis using i alive [of i] by (auto simp: choose_next_def)
  next
    case (Some r)
    then show ?thesis using first_ready_SomeD [OF Some] by (auto simp: choose_next_def)
  qed
  then obtain x where x: "tasks s1 ?nxt = Some x" by blast
  have "do_context_switch clock c st s = Inr (?nxt, run_next c ?nxt x s1)"
  proof (cases "first_ready s1 (round_robin (unat (tid cx)) ?n)")
    case None
    then have "?nxt = i" using i by (simp add: choose_next_def)
    then show ?thesis
      using None both run cx w(1) c1 search i x
      by (simp add: do_context_switch_def after_save_def run_next_def split: option.splits)
  next
    case (Some r)
    then have "?nxt = r" by (simp add: choose_next_def)
    then show ?thesis
      using Some both run cx w(1) c1 search i x
      by (simp add: do_context_switch_def after_save_def run_next_def split: option.splits)
  qed
  then show ?thesis using cx w(2,3) table x by blast
qed

section \<open>Every operation keeps the invariant\<close>

definition same_tids :: "task_heap \<Rightarrow> task_heap \<Rightarrow> bool" where
  "same_tids h h' \<longleftrightarrow> (\<forall>r. map_option tid (h' r) = map_option tid (h r))"

lemma same_tids_trans [trans]: "same_tids h1 h2 \<Longrightarrow> same_tids h2 h3 \<Longrightarrow> same_tids h1 h3"
  by (simp add: same_tids_def)

lemma same_tids_upd: "h r = Some x \<Longrightarrow> tid y = tid x \<Longrightarrow> same_tids h (h(r \<mapsto> y))"
  by (simp add: same_tids_def)

lemma same_tids_info: "info h' = info h \<Longrightarrow> same_tids h h'"
proof -
  assume a: "info h' = info h"
  have "map_option tid (k r) = map_option fst (info k r)" for k r by (cases "k r") simp_all
  then show ?thesis by (simp add: same_tids_def a)
qed

lemma same_tids_woken: "info h' = woken W h \<Longrightarrow> same_tids h h'"
  unfolding same_tids_def
proof
  fix r
  assume a: "info h' = woken W h"
  show "map_option tid (h' r) = map_option tid (h r)"
    using woken_Some [OF a, of r] woken_alive [OF a, of r] by (cases "h r") auto
qed

lemma same_tids_alive: "same_tids h h' \<Longrightarrow> h' r = None \<longleftrightarrow> h r = None"
  by (metis map_option_is_None same_tids_def)

lemma same_tids_Some: "same_tids h h' \<Longrightarrow> h r = Some x \<Longrightarrow> \<exists>y. h' r = Some y \<and> tid y = tid x"
  by (metis map_option_eq_Some option.simps(9) same_tids_def)

lemma table_inv_cong:
  assumes inv: "table_inv s" and eq: "tasks_all s' = tasks_all s" "curr_tid s' = curr_tid s"
    and same: "same_tids (tasks s) (tasks s')"
  shows "table_inv s'"
  unfolding table_inv_def eq
proof (intro conjI allI impI)
  show "\<exists>y. tasks s' r = Some y \<and> unat (tid y) = k"
    if "k < unat (tlen (tasks_all s))" "tslots (tasks_all s) k = Slot (Some r)" for k r
    using table_invD(3) [OF inv that] same_tids_Some [OF same, of r] by metis
  have old: "\<exists>x. tasks s r = Some x \<and> tid x = tid y" if y: "tasks s' r = Some y" for r y
  proof -
    obtain x where x: "tasks s r = Some x" using same_tids_alive [OF same, of r] y by auto
    then show ?thesis using same_tids_Some [OF same x] y by auto
  qed
  show "tid y \<le> TID_MAX" "tid y < curr_tid s" if "tasks s' r = Some y" for r y
    using old [OF that] table_invD(4,5) [OF inv] by metis+
  show "r = q" if "tasks s' r = Some x" "tasks s' q = Some y" "tid x = tid y" for r q x y
    using old [OF that(1)] old [OF that(2)] table_invD(6) [OF inv] that(3) by metis
qed (use table_invD(1,2,7) [OF inv] in auto)

lemma loose_cong:
  assumes "tasks_all s' = tasks_all s" and "same_tids (tasks s) (tasks s')"
  shows "loose s' = loose s"
proof -
  have "loose t = {r. \<exists>i. map_option tid (tasks t r) = Some i \<and> \<not> i < tlen (tasks_all t)}" for t
    unfolding loose_def map_option_eq_Some by blast
  then show ?thesis using assms unfolding same_tids_def by (simp del: map_option_eq_Some)
qed

text \<open>What a step leaves to the processors that are starting: the tasks that were made, and which processors run.\<close>

definition calm :: "sched \<Rightarrow> sched \<Rightarrow> bool" where
  "calm s s' \<longleftrightarrow> loose s \<subseteq> loose s' \<and> dom (tasks_running s') = dom (tasks_running s)"

lemma calm_refl [simp]: "calm s s"
  by (simp add: calm_def)

lemma calmI:
  "tasks_all s' = tasks_all s \<Longrightarrow> same_tids (tasks s) (tasks s') \<Longrightarrow> tasks_running s' = tasks_running s \<Longrightarrow> calm s s'"
  by (simp add: calm_def loose_cong)

text \<open>The rest of the invariant speaks about references only.\<close>

lemma sched_invI:
  assumes inv: "sched_inv s zs ds" and q: "queues_ok s' zs' ds'" and c: "cpus_ok s'"
    and eq: "tasks_all s' = tasks_all s" "curr_tid s' = curr_tid s" "tasks_idle s' = tasks_idle s"
      "fresh s' = fresh s" and ds: "ds' = ds" and same: "same_tids (tasks s) (tasks s')"
    and run: "loose s \<inter> ran (tasks_running s') = {}"
  shows "sched_inv s' zs' ds'"
proof -
  have "table_inv s'" by (rule table_inv_cong [OF sched_invD(3) [OF inv] eq(1,2) same])
  moreover have "listed s' = listed s" by (simp add: listed_def eq)
  moreover have "tasks s' r = None" if "r \<ge> fresh s'" for r
    using sched_invD(6) [OF inv, of r] that same_tids_alive [OF same, of r] by (simp add: eq)
  moreover have "loose s' = loose s" by (rule loose_cong [OF eq(1) same])
  ultimately show ?thesis
    using q c sched_invD(4,5,7) [OF inv] run by (simp add: sched_inv_def eq ds) blast
qed

lemma sched_invI_same:
  assumes "sched_inv s zs ds" and "queues_ok s' zs' ds'" and "cpus_ok s'"
    and "tasks_all s' = tasks_all s" and "curr_tid s' = curr_tid s" and "tasks_idle s' = tasks_idle s"
    and "fresh s' = fresh s" and "ds' = ds" and "same_tids (tasks s) (tasks s')"
    and "tasks_running s' = tasks_running s"
  shows "sched_inv s' zs' ds'"
  by (rule sched_invI [OF assms(1-9)]) (use sched_invD(7) [OF assms(1)] assms(10) in auto)

text \<open>Changing the status of one task in bits that the queues do not depend on.\<close>

lemma queues_ok_status:
  assumes q: "queues_ok s zs ds" and x: "tasks s r = Some x"
    and y: "tprev y = tprev x" "tnext y = tnext x" "wakeuptime y = wakeuptime x"
    and bits: "bit (status y) 2 \<longleftrightarrow> bit (status x) 2" "bit (status x) 3 \<Longrightarrow> bit (status y) 3"
    and s': "tasks s' = (tasks s)(r \<mapsto> y)" "tasks_asleep s' = tasks_asleep s" "tasks_dead s' = tasks_dead s"
  shows "queues_ok s' zs ds"
proof -
  note qq = queues_okD [OF q]
  have mem: "r \<in> flagged b (tasks s) \<longleftrightarrow> bit (status x) b" for b by (rule flagged_iff) (fact x)
  have "asleep_set (tasks s') = asleep_set (tasks s)"
    using mem [of 2] bits(1) by (auto simp: s' flagged_upd)
  moreover have "dead_set (tasks s) \<subseteq> dead_set (tasks s')"
    using mem [of 3] bits(2) by (auto simp: s' flagged_upd)
  moreover have "sleep_sorted (tasks s') zs"
    using qq(6) sleep_sorted_cong [of zs "tasks s'" "tasks s"] x y(3) by (simp add: s')
  ultimately show ?thesis
    using qq(1-5) x y by (auto simp: queues_ok_def s')
qed

lemma bit_status [simp]:
  "bit ((st :: u32) AND NOT TASK_RUNNING) 0 \<longleftrightarrow> False" "bit (st AND NOT TASK_RUNNING) 2 \<longleftrightarrow> bit st 2"
  "bit (st AND NOT TASK_RUNNING) 3 \<longleftrightarrow> bit st 3"
  "bit (st OR TASK_RUNNING) 0" "bit (st OR TASK_RUNNING) 2 \<longleftrightarrow> bit st 2"
  "bit (st OR TASK_RUNNING) 3 \<longleftrightarrow> bit st 3"
  "bit (st AND NOT TASK_BLOCKED) 0 \<longleftrightarrow> bit st 0" "bit (st AND NOT TASK_BLOCKED) 2 \<longleftrightarrow> bit st 2"
  "bit (st AND NOT TASK_BLOCKED) 3 \<longleftrightarrow> bit st 3"
  "bit (st OR TASK_BLOCKED) 0 \<longleftrightarrow> bit st 0" "bit (st OR TASK_BLOCKED) 2 \<longleftrightarrow> bit st 2"
  "bit (st OR TASK_BLOCKED) 3 \<longleftrightarrow> bit st 3"
  "bit (st OR TASK_ASLEEP) 0 \<longleftrightarrow> bit st 0" "bit (st OR TASK_ASLEEP) 2"
  "bit (st OR TASK_ASLEEP) 3 \<longleftrightarrow> bit st 3"
  "bit (st OR TASK_DEAD) 0 \<longleftrightarrow> bit st 0" "bit (st OR TASK_DEAD) 2 \<longleftrightarrow> bit st 2"
  "bit (st OR TASK_DEAD) 3"
  by (auto simp: bit_simps)

text \<open>The same with the complements evaluated, as the simplifier writes them.\<close>

lemmas bit_status_eval [simp] = bit_status [simplified]

lemma wakes_queues:
  assumes q: "queues_ok s (us @ vs) ds" and w: "wakes clock s us vs s1"
  shows "queues_ok s1 us ds"
proof -
  note qq = queues_okD [OF q]
  have info1: "info (tasks s1) = woken (set vs) (tasks s)" and rep: "tq_rep (tasks s1) (tasks_asleep s1) us"
    using w by (simp_all add: wakes_def)
  have dist: "distinct (us @ vs)" using qq(1) by (simp add: tq_rep_def)
  have keep: "tasks s1 r = tasks s r" if "r \<in> set ds" for r
    using w qq(5) that unfolding wakes_def by blast
  have "tq_rep (tasks s1) (tasks_dead s1) ds"
    using qq(2) tq_rep_cong [of ds "tasks s1" "tasks s"] keep by (simp add: wakes_fields [OF w])
  moreover have "set us = asleep_set (tasks s1)"
    using qq(3) dist by (auto simp: woken_flagged [OF info1])
  moreover have "set ds \<subseteq> dead_set (tasks s1)"
    using qq(4) by (simp add: woken_flagged [OF info1])
  moreover have "sleep_sorted (tasks s1) us"
    using qq(6) sleep_sorted_cong [of us "tasks s1" "tasks s"] woken_wake [OF info1]
    by (simp add: sleep_sorted_def sorted_wrt_append)
  ultimately show ?thesis using rep qq(5) by (auto simp: queues_ok_def)
qed

lemma choose_next_cases:
  assumes "sched_inv s zs ds" and "tasks_idle s c = Some i" and "tasks_all s1 = tasks_all s"
    and "tasks_idle s1 = tasks_idle s" and "tid cx < tlen (tasks_all s)"
  shows "choose_next s1 c (tid cx) = i
    \<or> (choose_next s1 c (tid cx) \<in> listed s \<and> (\<exists>x. tasks s1 (choose_next s1 c (tid cx)) = Some x \<and> status x = TASK_READY))"
proof (cases "first_ready s1 (round_robin (unat (tid cx)) (unat (tlen (tasks_all s))))")
  case None
  then show ?thesis using assms by (simp add: choose_next_def)
next
  case (Some r)
  obtain x k where "tasks s1 r = Some x" "status x = TASK_READY"
      "k \<in> set (round_robin (unat (tid cx)) (unat (tlen (tasks_all s))))" "tslots (tasks_all s) k = Slot (Some r)"
    using first_ready_SomeD [OF Some] assms(3) by auto
  moreover have "unat (tid cx) < unat (tlen (tasks_all s))" using assms(5) by (simp add: word_less_nat_alt)
  ultimately show ?thesis using Some assms(3) by (auto simp: choose_next_def listed_def set_round_robin)
qed

lemma do_context_switch_inv:
  assumes inv: "sched_inv s zs ds" and run: "tasks_running s c = Some cur"
    and sw: "do_context_switch clock c st s = Inr (nxt, s')"
  obtains us vs where "zs = us @ vs" and "sched_inv s' us ds" and "calm s s'"
    and "tasks_running s' = (tasks_running s)(c := Some nxt)"
proof -
  obtain cx us vs s1 x where cx: "tasks s cur = Some cx" and zs: "zs = us @ vs"
    and w: "wakes clock (after_save st cur cx s) us vs s1" and x: "tasks s1 nxt = Some x"
    and nxt: "nxt = choose_next s1 c (tid cx)" and s': "s' = run_next c nxt x s1"
    using do_context_switch_eq [where clock = clock and st = st, OF inv run] sw by auto
  let ?s0 = "after_save st cur cx s"
  let ?c0 = "cx\<lparr>kstack_top := st, status := status cx AND NOT TASK_RUNNING\<rparr>"
  note f = wakes_fields [OF w, unfolded after_save_def, simplified]
  have s0: "tasks ?s0 = (tasks s)(cur \<mapsto> ?c0)" by (simp add: after_save_def)
  have info1: "info (tasks s1) = woken (set vs) (tasks ?s0)" using w by (simp add: wakes_def)
  have q0: "queues_ok ?s0 (us @ vs) ds"
    by (rule queues_ok_status [OF sched_invD(1) [OF inv, unfolded zs] cx]) (simp_all add: after_save_def)
  have q': "queues_ok s' us ds"
    by (rule queues_ok_status [OF wakes_queues [OF q0 w] x]) (simp_all add: s' run_next_def)
  have same1: "same_tids (tasks s) (tasks ?s0)"
    unfolding s0 by (rule same_tids_upd [where r = cur and x = cx]) (use cx in simp_all)
  also have "same_tids (tasks ?s0) (tasks s1)" by (rule same_tids_woken [OF info1])
  also have "same_tids (tasks s1) (tasks s')"
    unfolding s' run_next_def by simp (rule same_tids_upd [where r = nxt and x = x], use x in simp_all)
  finally have same: "same_tids (tasks s) (tasks s')" .
  note cpu = cpus_okD [OF sched_invD(2) [OF inv]]
  have ran0: "running_set (tasks s1) = running_set (tasks s) - {cur}"
    using cx by (simp add: woken_flagged [OF info1] s0 flagged_upd)
  have ran': "running_set (tasks s') = insert nxt (running_set (tasks s) - {cur})"
    by (simp add: s' run_next_def flagged_upd ran0)
  have running': "tasks_running s' = (tasks_running s)(c := Some nxt)" and idle': "tasks_idle s' = tasks_idle s"
    by (simp_all add: s' run_next_def f)
  obtain i where i: "tasks_idle s c = Some i" using cpu(6) [of c] run by (cases "tasks_idle s c") auto
  have cases: "nxt = i \<or> (nxt \<in> listed s \<and> nxt \<notin> running_set (tasks s1))"
  proof -
    have "tid cx < tlen (tasks_all s)" by (rule in_table(1) [OF inv cx run])
    from choose_next_cases [OF inv i f(1) f(3) this] show ?thesis
      unfolding nxt [symmetric] using ready_not_flagged by blast
  qed
  have other: "tasks_running s d \<noteq> Some nxt" if "d \<noteq> c" for d
  proof
    assume d: "tasks_running s d = Some nxt"
    then have ne: "nxt \<noteq> cur" using cpu(2) [OF d, of c] run that by auto
    from cases show False
    proof
      assume "nxt = i"
      then show False using cpu(4) [OF i, of d] d that by simp
    next
      assume n: "nxt \<in> listed s \<and> nxt \<notin> running_set (tasks s1)"
      then have "nxt \<notin> running_set (tasks s)" using ne ran0 by blast
      moreover have "tasks_idle s d \<noteq> Some nxt"
        using n sched_invD(4) [OF inv] by (auto simp: ran_def)
      ultimately show False using cpu(1) [OF d] by blast
    qed
  qed
  have not_idle: "c' = c" if "tasks_idle s c' = Some nxt" for c'
    using cases cpu(5) [OF i, of c'] that sched_invD(4) [OF inv] by (auto simp: ran_def)
  have "cpus_ok s'"
    unfolding cpus_ok_def running' idle'
  proof (intro conjI allI impI)
    show "r \<in> running_set (tasks s') \<or> tasks_idle s d = Some r"
      if "((tasks_running s)(c := Some nxt)) d = Some r" for d r
    proof (cases "d = c")
      case False
      then have d: "tasks_running s d = Some r" using that by simp
      then have "r \<noteq> cur" using cpu(2) [OF d, of c] run False by auto
      then show ?thesis using cpu(1) [OF d] by (auto simp: ran')
    qed (use that ran' in simp)
    show "d = e" if "((tasks_running s)(c := Some nxt)) d = Some r"
        "((tasks_running s)(c := Some nxt)) e = Some r" for d e r
      using that cpu(2) [of d r e] other by (auto split: if_splits)
    show "tasks s' r \<noteq> None" if "tasks_idle s d = Some r" for d r
      using cpu(3) [OF that] same_tids_alive [OF same, of r] by simp
    show "e = d" if "tasks_idle s d = Some r" "((tasks_running s)(c := Some nxt)) e = Some r" for d e r
    proof (cases "e = c")
      case True
      then have "r = nxt" using that(2) by simp
      then show ?thesis using not_idle [of d] that(1) True by simp
    next
      case False
      then have "tasks_running s e = Some r" using that(2) by simp
      then show ?thesis by (rule cpu(4) [OF that(1)])
    qed
    show "e = d" if "tasks_idle s d = Some r" "tasks_idle s e = Some r" for d e r
      by (rule cpu(5) [OF that])
    show "((tasks_running s)(c := Some nxt)) d = None \<longleftrightarrow> tasks_idle s d = None" for d
      using cpu(6) [of d] i by simp
  qed
  moreover have "loose s \<inter> ran (tasks_running s') = {}"
  proof -
    have "nxt \<notin> loose s"
      using cases i sched_invD(7) [OF inv] table_invD(3) [OF sched_invD(3) [OF inv]]
      by (fastforce simp: loose_def listed_def ran_def word_less_nat_alt)
    then show ?thesis using sched_invD(7) [OF inv] running' by (auto simp: ran_def split: if_splits)
  qed
  ultimately have "sched_inv s' us ds"
    by (intro sched_invI [OF inv q' _ _ _ _ _ refl same]) (simp_all add: s' run_next_def f)
  moreover have "calm s s'"
    unfolding calm_def using loose_cong [OF _ same] running' run by (auto simp: s' run_next_def f)
  ultimately show thesis using zs running' that by blast
qed

lemma cpus_ok_same:
  assumes c: "cpus_ok s" and eq: "tasks_running s' = tasks_running s" "tasks_idle s' = tasks_idle s"
    and ran: "running_set (tasks s) \<subseteq> running_set (tasks s')" and same: "same_tids (tasks s) (tasks s')"
  shows "cpus_ok s'"
  unfolding cpus_ok_def eq
proof (intro conjI allI impI)
  show "r \<in> running_set (tasks s') \<or> tasks_idle s d = Some r" if "tasks_running s d = Some r" for d r
    using cpus_okD(1) [OF c that] ran by blast
  show "tasks s' r \<noteq> None" if "tasks_idle s d = Some r" for d r
    using cpus_okD(3) [OF c that] same_tids_alive [OF same, of r] by simp
qed (rule cpus_okD [OF c]; assumption)+

text \<open>Blocking and unblocking change one bit of one task.\<close>

lemma sched_inv_status:
  assumes inv: "sched_inv s zs ds" and x: "tasks s t = Some x"
    and bits: "\<And>b. b \<noteq> 1 \<Longrightarrow> bit (st :: u32) b \<longleftrightarrow> bit (status x) b"
  shows "sched_inv (s\<lparr>tasks := (tasks s)(t \<mapsto> x\<lparr>status := st\<rparr>)\<rparr>) zs ds"
    and "calm s (s\<lparr>tasks := (tasks s)(t \<mapsto> x\<lparr>status := st\<rparr>)\<rparr>)"
proof -
  let ?s = "s\<lparr>tasks := (tasks s)(t \<mapsto> x\<lparr>status := st\<rparr>)\<rparr>"
  have same: "same_tids (tasks s) (tasks ?s)"
    by simp (rule same_tids_upd [where r = t and x = x], use x in simp_all)
  have q: "queues_ok ?s zs ds"
    by (rule queues_ok_status [OF sched_invD(1) [OF inv] x]) (simp_all add: bits)
  have "running_set (tasks ?s) = running_set (tasks s)"
    using bits [of 0] flagged_iff [of "tasks s" t x 0] x by (auto simp: flagged_upd)
  then have "cpus_ok ?s" by (intro cpus_ok_same [OF sched_invD(2) [OF inv] _ _ _ same]) simp_all
  with q same show "sched_inv ?s zs ds" by (intro sched_invI_same [OF inv]) simp_all
  show "calm s ?s" by (rule calmI [OF _ same]) simp_all
qed

lemma valid_tid_cases:
  assumes inv: "sched_inv s zs ds"
  obtains "valid_tid i (tasks_all s) = Inr None"
  | t x where "valid_tid i (tasks_all s) = Inr (Some t)" and "tasks s t = Some x" and "tid x = i"
    and "i < tlen (tasks_all s)" and "tslots (tasks_all s) (unat i) = Slot (Some t)"
proof (cases "i < tlen (tasks_all s)")
  case True
  then have i: "unat i < unat (tlen (tasks_all s))" by (simp add: word_less_nat_alt)
  have ok: "table_ok s" by (rule table_inv_ok [OF sched_invD(3) [OF inv]]) simp_all
  note get = table_get_ok [OF ok i]
  show thesis
  proof (cases "task_at s (unat i)")
    case None
    then show thesis using that(1) True get(1) by (simp add: valid_tid_def)
  next
    case (Some t)
    then have slot: "tslots (tasks_all s) (unat i) = Slot (Some t)" using get(3) by simp
    from table_invD(3) [OF sched_invD(3) [OF inv] i slot] obtain x where
      "tasks s t = Some x" "tid x = i" by (auto simp: word_unat_eq_iff)
    then show thesis using that(2) True get(1) Some slot by (simp add: valid_tid_def)
  qed
qed (use that(1) in \<open>simp add: valid_tid_def\<close>)

lemma bit_blocked:
  "b \<noteq> 1 \<Longrightarrow> bit (st OR TASK_BLOCKED :: u32) b \<longleftrightarrow> bit st b"
  "b \<noteq> 1 \<Longrightarrow> bit (st AND NOT TASK_BLOCKED :: u32) b \<longleftrightarrow> bit st b"
proof -
  assume b: "b \<noteq> 1"
  then have two: "\<not> bit (2 :: u32) b" using bit_exp_iff [of 1 b, where ?'a = "32 word"] by auto
  then show "bit (st OR TASK_BLOCKED) b \<longleftrightarrow> bit st b" by (auto simp: bit_or_iff)
  show "bit (st AND NOT TASK_BLOCKED) b \<longleftrightarrow> bit st b"
    unfolding bit_and_iff bit_not_iff using two bit_imp_le_length [of st b] by auto
qed

lemma sched_block_inv:
  assumes inv: "sched_inv s zs ds"
  shows "\<exists>v cur s'. sched_block c i s = Inr (v, cur, s') \<and> sched_inv s' zs ds \<and> calm s s'"
proof (rule valid_tid_cases [OF inv, of i])
  assume "valid_tid i (tasks_all s) = Inr None"
  then show ?thesis using inv by (auto simp: sched_block_def)
next
  fix t x assume v: "valid_tid i (tasks_all s) = Inr (Some t)" "tasks s t = Some x"
  then show ?thesis
    using inv sched_inv_status [OF inv v(2) bit_blocked(1)] by (auto simp: sched_block_def)
qed

lemma sched_unblock_inv:
  assumes inv: "sched_inv s zs ds"
  shows "\<exists>v s'. sched_unblock i s = Inr (v, s') \<and> sched_inv s' zs ds \<and> calm s s'"
proof (rule valid_tid_cases [OF inv, of i])
  assume "valid_tid i (tasks_all s) = Inr None"
  then show ?thesis using inv by (simp add: sched_unblock_def)
next
  fix t x assume v: "valid_tid i (tasks_all s) = Inr (Some t)" "tasks s t = Some x"
  note after = sched_inv_status [OF inv v(2) bit_blocked(2)]
  then show ?thesis using inv v by (simp add: sched_unblock_def)
qed

lemma sched_sleep_inv:
  assumes inv: "sched_inv s zs ds" and run: "tasks_running s c = Some cur"
    and awake: "cur \<notin> asleep_set (tasks s)" "cur \<notin> dead_set (tasks s)"
    and long: "\<not> nanos \<le> TIMESLICE_DEFAULT"
  shows "\<exists>s' us vs. sched_sleep clock c nanos s = Inr s' \<and> zs = us @ vs
    \<and> sched_inv s' (us @ cur # vs) ds \<and> calm s s' \<and> wake (tasks s') cur = clock (ticks s) + nanos"
proof -
  obtain x where x: "tasks s cur = Some x"
    using cpus_alive [OF sched_invD(2) [OF inv] run] by blast
  note q = queues_okD [OF sched_invD(1) [OF inv]]
  let ?y = "x\<lparr>wakeuptime := clock (ticks s) + nanos, status := status x OR TASK_ASLEEP\<rparr>"
  let ?h = "(tasks s)(cur \<mapsto> ?y)"
  have out: "cur \<notin> set zs" "cur \<notin> set ds" using q(3,4) awake by auto
  have keep: "wake ?h r = wake (tasks s) r" if "r \<in> set zs" for r
    using that out(1) by auto
  have pre: "tq_rep ?h (tasks_asleep s) zs" "?h cur = Some ?y" "sleep_sorted ?h zs"
    using q(1,6) x sleep_sorted_cong [of zs ?h "tasks s"] keep by simp_all
  obtain q' h' us vs where add: "add_sleeping_sorted cur (tasks_asleep s) ?h = Inr (q', h')"
      "zs = us @ vs" "tq_rep h' q' (us @ cur # vs)" "links_only (insert cur (set zs)) ?h h'"
      "sleep_sorted ?h (us @ cur # vs)"
    by (rule add_sleeping_sorted_spec [OF pre(1) out(1) pre(2,3)])
  let ?s' = "s\<lparr>ticks := ticks s + 1, tasks_asleep := q', tasks := h'\<rparr>"
  have run': "sched_sleep clock c nanos s = Inr ?s'"
    using run x add(1) long by (simp add: sched_sleep_def)
  have info': "info h' = info ?h" by (rule links_only_info [OF add(4)])
  then have fl: "flagged b h' = flagged b ?h" for b by (rule flagged_cong)
  have dead: "tq_rep h' (tasks_dead s) ds"
    using tq_rep_outside [OF add(4), of ds] q(2,5) out(2) x by auto
  have mem: "cur \<in> flagged b (tasks s) \<longleftrightarrow> bit (status x) b" for b by (rule flagged_iff) (fact x)
  have "asleep_set h' = insert cur (set zs)" unfolding fl q(3) by (simp add: flagged_upd)
  moreover have "set ds \<subseteq> dead_set h'" unfolding fl using q(4) mem [of 3] by (auto simp: flagged_upd)
  moreover have "sleep_sorted h' (us @ cur # vs)"
    using add(5) sleep_sorted_cong [of "us @ cur # vs" h' ?h] by (simp only: info')
  ultimately have "queues_ok ?s' (us @ cur # vs) ds"
    using add(2,3) dead q(5) out(2) by (simp add: queues_ok_def)
  moreover have same: "same_tids (tasks s) (tasks ?s')"
  proof -
    have "same_tids (tasks s) ?h" by (rule same_tids_upd [where r = cur and x = x]) (use x in simp_all)
    also have "same_tids ?h (tasks ?s')" by (rule same_tids_info) (simp add: info')
    finally show ?thesis .
  qed
  moreover have "running_set (tasks s) \<subseteq> running_set (tasks ?s')"
    using mem [of 0] by (auto simp: fl flagged_upd)
  then have "cpus_ok ?s'" by (intro cpus_ok_same [OF sched_invD(2) [OF inv] _ _ _ same]) simp_all
  ultimately have "sched_inv ?s' (us @ cur # vs) ds" by (intro sched_invI_same [OF inv]) simp_all
  moreover have "calm s ?s'" by (rule calmI [OF _ same]) simp_all
  moreover have "wake (tasks ?s') cur = clock (ticks s) + nanos" by (simp add: info')
  ultimately show ?thesis using run' add(2) by blast
qed

lemma table_set_ok:
  assumes "table_inv s" and "i < tlen (tasks_all s)"
  shows "table_set i e (tasks_all s) =
    Inr ((tasks_all s)\<lparr>tslots := (tslots (tasks_all s))(unat i := Slot e)\<rparr>)"
  using table_invD(1) [OF assms(1)] assms(2) by (simp add: table_set_def word_less_nat_alt)

lemma table_inv_clear:
  assumes inv: "table_inv s" and tab: "tasks_all s' = (tasks_all s)\<lparr>tslots := (tslots (tasks_all s))(k := Slot None)\<rparr>"
    and eq: "curr_tid s' = curr_tid s" and alive: "\<And>r y. tasks s' r = Some y \<Longrightarrow> \<exists>x. tasks s r = Some x \<and> tid y = tid x"
    and listed: "\<And>r x. r \<in> listed s \<Longrightarrow> tasks s r = Some x \<Longrightarrow>
      \<exists>y. tasks s' r = Some y \<and> tid y = tid x"
  shows "table_inv s'"
  unfolding table_inv_def tab eq
proof (intro conjI allI impI)
  fix j assume j: "j < unat (tlen ((tasks_all s)\<lparr>tslots := (tslots (tasks_all s))(k := Slot None)\<rparr>))"
  then have j: "j < unat (tlen (tasks_all s))" by simp
  then show "tslots ((tasks_all s)\<lparr>tslots := (tslots (tasks_all s))(k := Slot None)\<rparr>) j \<noteq> Garbage"
    using table_invD(2) [OF inv] by simp
  fix r assume slot: "tslots ((tasks_all s)\<lparr>tslots := (tslots (tasks_all s))(k := Slot None)\<rparr>) j = Slot (Some r)"
  then have slot: "tslots (tasks_all s) j = Slot (Some r)" by (auto split: if_splits)
  obtain x where x: "tasks s r = Some x" "unat (tid x) = j" using table_invD(3) [OF inv j slot] by blast
  have "r \<in> listed s" using j slot by (auto simp: listed_def)
  then show "\<exists>y. tasks s' r = Some y \<and> unat (tid y) = j" using listed [OF _ x(1)] x(2) by auto
next
  show "tid y \<le> TID_MAX" "tid y < curr_tid s" if "tasks s' r = Some y" for r y
    using alive [OF that] table_invD(4,5) [OF inv] by metis+
  show "r = q" if "tasks s' r = Some x" "tasks s' q = Some y" "tid x = tid y" for r q x y
    using alive [OF that(1)] alive [OF that(2)] table_invD(6) [OF inv] that(3) by metis
qed (use table_invD(1,7) [OF inv] in simp_all)

lemma loose_clear:
  assumes tab: "tasks_all s' = (tasks_all s)\<lparr>tslots := (tslots (tasks_all s))(k := Slot None)\<rparr>"
    and alive: "\<And>r y. tasks s' r = Some y \<Longrightarrow> \<exists>x. tasks s r = Some x \<and> tid y = tid x"
  shows "loose s' \<subseteq> loose s"
  using alive by (auto simp: loose_def tab) metis

lemma listed_clear:
  assumes "tasks_all s' = (tasks_all s)\<lparr>tslots := (tslots (tasks_all s))(k := Slot None)\<rparr>"
  shows "listed s' \<subseteq> listed s"
  unfolding listed_def assms by (auto split: if_splits)

text \<open>
  A kill of a task that is not asleep moves it from the table to the queue of dead tasks. It goes
  on running on its CPU until that CPU switches.
\<close>

lemma sched_kill_inv:
  assumes inv: "sched_inv s zs ds"
    and awake: "\<And>t x. tasks s t = Some x \<Longrightarrow> tid x = i \<Longrightarrow> t \<in> listed s \<Longrightarrow> t \<notin> asleep_set (tasks s)"
  shows "\<exists>v cur s' ds'. sched_kill c i s = Inr (v, cur, s') \<and> sched_inv s' zs ds' \<and> calm s s'"
proof (rule valid_tid_cases [OF inv, of i])
  assume "valid_tid i (tasks_all s) = Inr None"
  then show ?thesis using inv by (auto simp: sched_kill_def)
next
  fix t x assume v: "valid_tid i (tasks_all s) = Inr (Some t)" and x: "tasks s t = Some x" and ti: "tid x = i"
    and lt: "i < tlen (tasks_all s)" and slot: "tslots (tasks_all s) (unat i) = Slot (Some t)"
  note q = queues_okD [OF sched_invD(1) [OF inv]]
  have tl: "t \<in> listed s" using lt slot by (auto simp: listed_def word_less_nat_alt)
  then have out: "t \<notin> set ds" "t \<notin> set zs" "t \<notin> ran (tasks_idle s)"
    using sched_invD(4) [OF inv] awake [OF x ti] q(3) by auto
  let ?y = "x\<lparr>status := status x OR TASK_DEAD\<rparr>"
  let ?h = "(tasks s)(t \<mapsto> ?y)"
  let ?tab = "(tasks_all s)\<lparr>tslots := (tslots (tasks_all s))(unat i := Slot None)\<rparr>"
  have tab: "table_set i None (tasks_all s) = Inr ?tab" by (rule table_set_ok [OF sched_invD(3) [OF inv] lt])
  have "tq_rep ?h (tasks_dead s) ds" using q(2) x by simp
  then obtain q' h' where push: "tq_push_front (tasks_dead s) t ?h = Inr (q', h')" "tq_rep h' q' (t # ds)"
      "links_only (insert t (set ds)) ?h h'"
    using tq.push_law [of ?h "tasks_dead s" ds t] out(1) by (auto simp: allocated_task_def)
  have info': "info h' = info ?h" by (rule links_only_info [OF push(3)])
  then have fl: "flagged b h' = flagged b ?h" for b by (rule flagged_cong)
  have mem: "t \<in> flagged b (tasks s) \<longleftrightarrow> bit (status x) b" for b by (rule flagged_iff) (fact x)
  have "info h' t = Some (tid x, status x OR TASK_DEAD, wakeuptime x)" by (simp add: info')
  then obtain z where z: "h' t = Some z" "status z = status x OR TASK_DEAD"
    by (auto dest: info_SomeD)
  have "\<not> bit (status z) 2" using z(2) mem [of 2] awake [OF x ti tl] by simp
  then have "status z AND TASK_ASLEEP = 0" by (simp add: bit_iff_and_push_bit_not_eq_0)
  then have run: "sched_kill c i s = Inr (0, tasks_running s c = Some t, s\<lparr>tasks := h', tasks_all := ?tab, tasks_dead := q'\<rparr>)"
    (is "_ = Inr (_, _, ?s')")
    using v x tab push(1) z(1) by (simp add: sched_kill_def)
  have "tq_rep h' (tasks_asleep s) zs"
    using tq_rep_outside [OF push(3), of zs] q(1,5) out(2) x by auto
  moreover have "set zs = asleep_set h'" unfolding fl q(3) using mem [of 2] by (auto simp: flagged_upd)
  moreover have "set (t # ds) \<subseteq> dead_set h'" unfolding fl using q(4) by (auto simp: flagged_upd)
  moreover have "wake h' r = wake (tasks s) r" for r using x by (simp add: info')
  then have "sleep_sorted h' zs" using q(6) sleep_sorted_cong [of zs h' "tasks s"] by simp
  ultimately have queues: "queues_ok ?s' zs (t # ds)"
    using push(2) q(5) out(2) by (simp add: queues_ok_def)
  have same: "same_tids (tasks s) (tasks ?s')"
  proof -
    have "same_tids (tasks s) ?h" by (rule same_tids_upd [where r = t and x = x]) (use x in simp_all)
    also have "same_tids ?h (tasks ?s')" by (rule same_tids_info) (simp add: info')
    finally show ?thesis .
  qed
  have "running_set (tasks s) \<subseteq> running_set (tasks ?s')"
    using mem [of 0] by (auto simp: fl flagged_upd)
  then have cpus: "cpus_ok ?s'" by (intro cpus_ok_same [OF sched_invD(2) [OF inv] _ _ _ same]) simp_all
  have old: "\<exists>z. tasks s r = Some z \<and> tid y = tid z" if "tasks ?s' r = Some y" for r y
    using that same_tids_Some [OF same, of r] same_tids_alive [OF same, of r] by (cases "tasks s r") auto
  have "loose ?s' = loose (s\<lparr>tasks := h'\<rparr>)" by (simp add: loose_def)
  also have "\<dots> = loose s" by (rule loose_cong) (use same in simp_all)
  finally have loose: "loose ?s' = loose s" .
  then have calm: "calm s ?s'" by (simp add: calm_def)
  have tloose: "t \<notin> loose s" using x ti lt by (auto simp: loose_def)
  have table: "table_inv ?s'"
  proof (rule table_inv_clear [OF sched_invD(3) [OF inv]])
    show "\<exists>z. tasks s r = Some z \<and> tid y = tid z" if "tasks ?s' r = Some y" for r y
      by (rule old [OF that])
    show "\<exists>y. tasks ?s' r = Some y \<and> tid y = tid z" if "tasks s r = Some z" for r z
      using same_tids_Some [OF same that] by blast
  qed simp_all
  have "listed ?s' \<subseteq> listed s - {t}"
  proof
    fix r assume "r \<in> listed ?s'"
    then obtain k where k: "k < unat (tlen (tasks_all s))" "k \<noteq> unat i" "tslots (tasks_all s) k = Slot (Some r)"
      by (auto simp: listed_def split: if_splits)
    then show "r \<in> listed s - {t}"
      using table_invD(3) [OF sched_invD(3) [OF inv] k(1,3)] x ti by (auto simp: listed_def)
  qed
  moreover have "tasks ?s' r = None" if "r \<ge> fresh ?s'" for r
    using sched_invD(6) [OF inv, of r] that same_tids_alive [OF same, of r] by simp
  ultimately have "sched_inv ?s' zs (t # ds)"
    using queues cpus table sched_invD(4,5,7) [OF inv] out(3) loose tloose by (auto simp: sched_inv_def)
  with run calm show ?thesis by blast
qed

end
