(* ===== verification/SchedSteps.thy ===== *)
theory SchedSteps
  imports SchedSafe
begin

text \<open>
  The janitor, the creation of tasks and the initialisation of a CPU keep the invariant; the order in which
  a processor that only switches gets to the tasks.
\<close>

section \<open>Reaping dead tasks\<close>

lemma reap_step:
  assumes inv: "sched_inv s zs (ds @ [t])" and idle: "t \<notin> ran (tasks_running s)"
    and awake: "t \<notin> set zs"
  shows "\<exists>s'. reap_loop s = reap_loop s' \<and> sched_inv s' zs ds \<and> tasks_running s' = tasks_running s
    \<and> (\<forall>r. r \<notin> set (ds @ [t]) \<longrightarrow> tasks s' r = tasks s r) \<and> tasks s' t = None
    \<and> tlen (tasks_all s') = tlen (tasks_all s)"
proof -
  note q = queues_okD [OF sched_invD(1) [OF inv]]
  obtain x where x: "tasks s t = Some x" using tq_rep_alive [OF q(2), of t] by auto
  obtain q' h' where pop: "tq_pop_back (tasks_dead s) (tasks s) = Inr (Some t, q', h')" "tq_rep h' q' ds"
      "links_only (set ds) (tasks s) h'"
    using tq.pop_law [OF q(2)] by blast
  have dist: "t \<notin> set ds" using q(2) by (simp add: tq_rep_def)
  have ht: "h' t = Some x" using links_only_outside [OF pop(3) dist] x by simp
  have lt: "tid x < tlen (tasks_all s)" by (rule in_table(3) [OF inv x]) simp
  let ?tab = "(tasks_all s)\<lparr>tslots := (tslots (tasks_all s))(unat (tid x) := Slot None)\<rparr>"
  let ?s' = "s\<lparr>tasks := h'(t := None), tasks_dead := q', tasks_all := ?tab\<rparr>"
  have step: "reap_loop s = reap_loop ?s'"
    using pop(1) ht table_set_ok [OF sched_invD(3) [OF inv] lt]
    by (subst reap_loop.simps) simp
  have info': "info h' = info (tasks s)" by (rule links_only_info [OF pop(3)])
  have fl: "flagged b (h'(t := None)) = flagged b (tasks s) - {t}" for b
    using flagged_cong [OF info'] by simp
  have "tq_rep (h'(t := None)) (tasks_asleep s) zs"
    using tq_rep_outside [OF pop(3), of zs] q(1,5) awake by auto
  moreover have "tq_rep (h'(t := None)) q' ds" using pop(2) dist by simp
  moreover have "sleep_sorted (tasks ?s') zs"
  proof -
    have "wake (tasks ?s') r = wake (tasks s) r" if "r \<in> set zs" for r
      using that awake by (auto simp: info')
    then show ?thesis using q(6) sleep_sorted_cong [of zs "tasks ?s'" "tasks s"] by simp
  qed
  ultimately have queues: "queues_ok ?s' zs ds"
    using q(3-5) dist awake by (auto simp: queues_ok_def fl simp del: flagged_drop)
  have tidle: "t \<notin> ran (tasks_idle s)" and tlist: "t \<notin> listed s"
    using sched_invD(4,5) [OF inv] by auto
  have same: "tasks ?s' r = None \<longleftrightarrow> tasks s r = None" if "r \<noteq> t" for r
    using links_only_alive [OF pop(3), of r] that by simp
  have tids: "\<exists>y. tasks ?s' r = Some y \<and> tid y = tid z" if "tasks s r = Some z" "r \<noteq> t" for r z
    using same_tids_Some [OF same_tids_info [OF info'] that(1)] that(2) by simp
  note cpu = cpus_okD [OF sched_invD(2) [OF inv]]
  have cpus: "cpus_ok ?s'"
    unfolding cpus_ok_def
  proof (intro conjI allI impI)
    show "r \<in> running_set (tasks ?s') \<or> tasks_idle ?s' c = Some r" if "tasks_running ?s' c = Some r" for c r
      using that cpu(1) [of c r] idle by (auto simp: fl ran_def simp del: flagged_drop)
    show "tasks ?s' r \<noteq> None" if "tasks_idle ?s' c = Some r" for c r
      using that cpu(3) [of c r] tidle same [of r] by (auto simp: ran_def)
  qed (use cpu(2,4,5,6) in simp_all)
  have old: "\<exists>z. tasks s r = Some z \<and> tid y = tid z" if "tasks ?s' r = Some y" for r y
  proof -
    have "r \<noteq> t" using that by auto
    then have "tasks s r \<noteq> None" using same [of r] that by auto
    then obtain z where "tasks s r = Some z" by blast
    then show ?thesis using tids [of r z] that \<open>r \<noteq> t\<close> by auto
  qed
  have loose: "loose ?s' \<subseteq> loose s" by (rule loose_clear [OF _ old]) simp_all
  have table: "table_inv ?s'"
  proof (rule table_inv_clear [OF sched_invD(3) [OF inv]])
    show "\<exists>z. tasks s r = Some z \<and> tid y = tid z" if "tasks ?s' r = Some y" for r y
      by (rule old [OF that])
    show "\<exists>y. tasks ?s' r = Some y \<and> tid y = tid z" if "r \<in> listed s" "tasks s r = Some z" for r z
      by (rule tids [OF that(2)]) (use that(1) tlist in auto)
  qed simp_all
  have "listed ?s' \<subseteq> listed s" by (rule listed_clear) simp
  moreover have "tasks ?s' r = None" if "r \<ge> fresh ?s'" for r
    using sched_invD(6) [OF inv, of r] that same [of r] by (cases "r = t") simp_all
  ultimately have "sched_inv ?s' zs ds"
    using queues cpus table sched_invD(4,5,7) [OF inv] loose by (auto simp: sched_inv_def)
  moreover have "tasks ?s' r = tasks s r" if "r \<notin> set (ds @ [t])" for r
    using links_only_outside [OF pop(3), of r] that by simp
  ultimately show ?thesis using step by (intro exI [of _ ?s']) simp
qed

lemma reap_loop_inv:
  assumes "sched_inv s zs ds" and "set ds \<inter> ran (tasks_running s) = {}"
  shows "\<exists>s'. reap_loop s = Some (Inr s') \<and> sched_inv s' zs [] \<and> (\<forall>r\<in>set ds. tasks s' r = None)
    \<and> (\<forall>r. r \<notin> set ds \<longrightarrow> tasks s' r = tasks s r)
    \<and> tasks_running s' = tasks_running s \<and> tlen (tasks_all s') = tlen (tasks_all s)"
  using assms
proof (induction ds arbitrary: s rule: rev_induct)
  case Nil
  have "tq_pop_back (tasks_dead s) (tasks s) = Inr (None, tasks_dead s, tasks s)"
    using Nil.prems(1) by (intro tq.pop_empty_law) (simp add: sched_inv_def queues_ok_def)
  then have "reap_loop s = Some (Inr s)" by (subst reap_loop.simps) simp
  then show ?case using Nil.prems(1) by simp
next
  case (snoc t ds)
  have "t \<notin> set zs" using snoc.prems(1) by (auto simp: sched_inv_def queues_ok_def)
  then obtain s1 where s1: "reap_loop s = reap_loop s1" "sched_inv s1 zs ds"
      "tasks_running s1 = tasks_running s" "\<And>r. r \<notin> set (ds @ [t]) \<Longrightarrow> tasks s1 r = tasks s r" "tasks s1 t = None"
      "tlen (tasks_all s1) = tlen (tasks_all s)"
    using reap_step [OF snoc.prems(1)] snoc.prems(2) by auto
  obtain s' where "reap_loop s1 = Some (Inr s')" "sched_inv s' zs []" "\<forall>r\<in>set ds. tasks s' r = None"
      "\<forall>r. r \<notin> set ds \<longrightarrow> tasks s' r = tasks s1 r" "tasks_running s' = tasks_running s1"
      "tlen (tasks_all s') = tlen (tasks_all s1)"
    using snoc.IH [OF s1(2)] snoc.prems(2) s1(3) by auto
  moreover have "t \<notin> set ds"
    using snoc.prems(1) by (simp add: sched_inv_def queues_ok_def tq_rep_def)
  ultimately show ?case using s1 by (intro exI [of _ s']) auto
qed

lemma sched_janitor_inv:
  assumes inv: "sched_inv s zs ds" and idle: "set ds \<inter> ran (tasks_running s) = {}"
  shows "\<exists>s'. sched_janitor s = Inr s' \<and> sched_inv s' zs [] \<and> calm s s'"
proof -
  obtain s' where s': "reap_loop s = Some (Inr s')" "sched_inv s' zs []" "\<forall>r. r \<notin> set ds \<longrightarrow> tasks s' r = tasks s r"
    "tasks_running s' = tasks_running s" "tlen (tasks_all s') = tlen (tasks_all s)"
    using reap_loop_inv [OF inv idle] by blast
  have "loose s \<subseteq> loose s'"
    using sched_invD(7) [OF inv] s'(3,5) by (fastforce simp: loose_def)
  then show ?thesis using s' by (simp add: sched_janitor_def calm_def)
qed

section \<open>Creating tasks\<close>

text \<open>
  A new task enters the table at the index that is the table's length, so the resize leaves no
  gap. Once the thread ids are used up, only the counter moves.
\<close>

lemma task_make_some:
  assumes "curr_tid s \<le> TID_MAX"
  obtains x stk where "task_make entry pri md sp pm new s = (Some (fresh s),
      s\<lparr>curr_tid := curr_tid s + 1, fresh := fresh s + 1, tasks := (tasks s)(fresh s \<mapsto> x),
        stacks := stk\<rparr>)"
    and "tid x = curr_tid s" and "status x = TASK_READY" and "wakeuptime x = 0" and "openfiles x = []"
    and "mode x = mode (raw new)"
proof -
  let ?top = "limit new + KSTACK_SIZE"
  let ?x = "(raw new)\<lparr>kstack_limit := limit new, kstack_top := ?top - task_state_size,
     cr3 := (if pm \<noteq> 0 then pm else cr3_now new),
     tid := curr_tid s, priority := pri, status := TASK_READY, wakeuptime := 0, openfiles := []\<rparr>"
  show thesis
    by (rule that [where x = ?x and stk = "(stacks s)(?top - task_state_size :=
        task_frame entry md sp ?top (curr_tid s) (stacks s (?top - task_state_size)))"])
      (use assms in \<open>simp_all add: task_make_def Let_def not_less [symmetric]\<close>)
qed

lemma task_make_none:
  assumes "curr_tid s > TID_MAX"
  shows "task_make entry pri md sp pm new s = (None, s\<lparr>curr_tid := curr_tid s + 1\<rparr>)"
  using assms by (simp add: task_make_def Let_def)

lemma table_resize_fields:
  assumes "unat n \<le> 65537"
  shows "tlen (table_resize n t) = n" and "tslots (table_resize n t) = tslots t"
    and "8 * unat n \<le> unat (talloc (table_resize n t))"
proof -
  have m: "unat (n * 8) = unat n * 8" "unat (n * 8 * 2) = unat n * 16"
    using assms by (simp_all add: unat_word_ariths)
  show "tlen (table_resize n t) = n" "tslots (table_resize n t) = tslots t"
    by (simp_all add: table_resize_def Let_def)
  show "8 * unat n \<le> unat (talloc (table_resize n t))"
    using m by (simp add: table_resize_def Let_def word_less_nat_alt)
qed

text \<open>What the two halves of a creation do to the state: the task is made, then it enters the table.\<close>

definition makes :: "sched \<Rightarrow> task \<Rightarrow> sched \<Rightarrow> bool" where
  "makes s x s' \<longleftrightarrow>
     tid x = curr_tid s \<and> status x = TASK_READY
     \<and> tasks s' = (tasks s)(fresh s \<mapsto> x) \<and> fresh s' = fresh s + 1 \<and> curr_tid s' = curr_tid s + 1
     \<and> tasks_all s' = tasks_all s \<and> tasks_idle s' = tasks_idle s \<and> tasks_running s' = tasks_running s
     \<and> tasks_asleep s' = tasks_asleep s \<and> tasks_dead s' = tasks_dead s \<and> ticks s' = ticks s"

definition adds :: "sched \<Rightarrow> task_ref \<Rightarrow> task \<Rightarrow> sched \<Rightarrow> bool" where
  "adds s r x s' \<longleftrightarrow>
     tlen (tasks_all s') = tid x + 1
     \<and> tslots (tasks_all s') = (tslots (tasks_all s))(unat (tid x) := Slot (Some r))
     \<and> 8 * unat (tid x + 1) \<le> unat (talloc (tasks_all s'))
     \<and> s' = s\<lparr>tasks_all := tasks_all s'\<rparr>"

lemma task_make_makes:
  assumes "curr_tid s \<le> TID_MAX"
  obtains x s' where "task_make entry pri md sp pm new s = (Some (fresh s), s')" and "makes s x s'"
proof -
  obtain x stk where "task_make entry pri md sp pm new s = (Some (fresh s),
      s\<lparr>curr_tid := curr_tid s + 1, fresh := fresh s + 1, tasks := (tasks s)(fresh s \<mapsto> x),
        stacks := stk\<rparr>)"
      "tid x = curr_tid s" "status x = TASK_READY"
    by (rule task_make_some [OF assms]) blast
  then show thesis using that by (simp add: makes_def)
qed

lemma unat_tid_Suc: "i \<le> TID_MAX \<Longrightarrow> unat (i + 1) = Suc (unat i) \<and> unat i \<le> 65536"
proof -
  assume "i \<le> TID_MAX"
  then have "unat i \<le> 65536" by (simp add: TID_MAX_def word_le_nat_alt)
  then show ?thesis by (subst unat_add_lt) simp_all
qed

lemma sched_add_adds:
  assumes x: "tasks s r = Some x" and le: "tid x \<le> TID_MAX"
  obtains s' where "sched_add r s = Inr s'" and "adds s r x s'"
proof -
  note suc = unat_tid_Suc [OF le]
  let ?t = "table_resize (tid x + 1) (tasks_all s)"
  have len: "tlen ?t = tid x + 1" "tslots ?t = tslots (tasks_all s)"
      "8 * unat (tid x + 1) \<le> unat (talloc ?t)"
    using table_resize_fields [of "tid x + 1"] suc by simp_all
  let ?tab = "?t\<lparr>tslots := (tslots ?t)(unat (tid x) := Slot (Some r))\<rparr>"
  have "table_set (tid x) (Some r) ?t = Inr ?tab" using len(3) suc by (simp add: table_set_def)
  then have "sched_add r s = Inr (s\<lparr>tasks_all := ?tab\<rparr>)" using x by (simp add: sched_add_def)
  then show thesis by (rule that) (use len in \<open>simp add: adds_def\<close>)
qed

lemma slots_insert:
  "{r. \<exists>k<Suc n. (f(n := Slot (Some r0))) k = Slot (Some r)} = insert r0 {r. \<exists>k<n. f k = Slot (Some r)}"
  by (auto simp: Ex_less_Suc cong: conj_cong)

lemma queues_ok_fields:
  "tasks s' = tasks s \<Longrightarrow> tasks_asleep s' = tasks_asleep s \<Longrightarrow> tasks_dead s' = tasks_dead s \<Longrightarrow>
   queues_ok s' zs ds = queues_ok s zs ds"
  by (simp only: queues_ok_def)

lemma not_fresh:
  assumes inv: "sched_inv s zs ds"
  shows "fresh s \<notin> set zs \<union> set ds \<union> ran (tasks_idle s) \<union> ran (tasks_running s) \<union> listed s \<union> loose s"
proof -
  have none: "tasks s (fresh s) = None" by (rule sched_invD(6) [OF inv]) simp
  note q = queues_okD [OF sched_invD(1) [OF inv]] and cpu = cpus_okD [OF sched_invD(2) [OF inv]]
    and tab = table_invD [OF sched_invD(3) [OF inv]]
  have "fresh s \<notin> set zs" "fresh s \<notin> set ds"
    using tq_rep_alive [OF q(1)] tq_rep_alive [OF q(2)] none by fastforce+
  moreover have "fresh s \<notin> ran (tasks_running s)" "fresh s \<notin> ran (tasks_idle s)"
    using cpus_alive [OF sched_invD(2) [OF inv]] cpu(3) none by (fastforce simp: ran_def)+
  moreover have "fresh s \<notin> listed s" "fresh s \<notin> loose s"
    using tab(3) none by (fastforce simp: listed_def loose_def)+
  ultimately show ?thesis by blast
qed

lemma makes_inv:
  assumes inv: "sched_inv s zs ds" and le: "curr_tid s \<le> TID_MAX" and m: "makes s x s'"
  shows "sched_inv s' zs ds" and "loose s' = insert (fresh s) (loose s)" and "listed s' = listed s"
proof -
  let ?r = "fresh s"
  note q = queues_okD [OF sched_invD(1) [OF inv]] and cpu = cpus_okD [OF sched_invD(2) [OF inv]]
    and tab = table_invD [OF sched_invD(3) [OF inv]] and out = not_fresh [OF inv] and suc = unat_tid_Suc [OF le]
  have none: "tasks s ?r = None" by (rule sched_invD(6) [OF inv]) simp
  have f: "tid x = curr_tid s" "tasks s' = (tasks s)(?r \<mapsto> x)" "fresh s' = ?r + 1" "curr_tid s' = curr_tid s + 1"
    "tasks_all s' = tasks_all s" "tasks_idle s' = tasks_idle s" "tasks_running s' = tasks_running s"
    "tasks_asleep s' = tasks_asleep s" "tasks_dead s' = tasks_dead s" "status x = TASK_READY"
    using m by (simp_all add: makes_def)
  have fl: "flagged b (tasks s') = flagged b (tasks s)" for b
  proof -
    have "?r \<notin> flagged b (tasks s)" using none flagged_alive by fastforce
    then show ?thesis by (simp add: f flagged_upd)
  qed
  show listed': "listed s' = listed s" by (simp add: listed_def f)
  have low: "\<not> curr_tid s < tlen (tasks_all s)" using tab(7) by (simp add: not_less)
  then show loose': "loose s' = insert ?r (loose s)" using none by (auto simp: loose_def f)
  have "sleep_sorted (tasks s') zs"
    using q(6) sleep_sorted_cong [of zs "tasks s'" "tasks s"] out unfolding f(2)
    by (metis Un_iff fun_upd_apply info_simps(3))
  then have queues: "queues_ok s' zs ds"
    using q out by (simp add: queues_ok_def fl) (simp add: f)
  have cpus: "cpus_ok s'" using cpu fl [of 0] unfolding cpus_ok_def by (auto simp: f)
  have lt: "curr_tid s < curr_tid s + 1" using suc by (simp add: word_less_nat_alt)
  have "table_inv s'"
    unfolding table_inv_def f(4,5)
  proof (intro conjI allI impI)
    show "\<exists>y. tasks s' r = Some y \<and> unat (tid y) = k"
      if "k < unat (tlen (tasks_all s))" "tslots (tasks_all s) k = Slot (Some r)" for k r
      using tab(3) [OF that] none by (auto simp: f(2))
    show "tid y \<le> TID_MAX" if "tasks s' r = Some y" for r y
      using that tab(4) [of r y] le f(1) by (auto simp: f(2) split: if_splits)
    show "tid y < curr_tid s + 1" if "tasks s' r = Some y" for r y
      using that tab(5) [of r y] lt f(1) by (auto simp: f(2) split: if_splits)
    show "r = p" if "tasks s' r = Some y" "tasks s' p = Some z" "tid y = tid z" for r p y z
    proof -
      have "tid y \<noteq> curr_tid s" if "tasks s r = Some y" for r y using tab(5) [OF that] by auto
      then show ?thesis using that tab(6) [of r y p z] f(1) by (auto simp: f(2) split: if_splits)
    qed
    show "tlen (tasks_all s) \<le> curr_tid s + 1" using tab(7) lt by simp
  qed (use tab(1,2) in simp_all)
  moreover have "tasks s' r = None" if "r \<ge> fresh s'" for r
    using sched_invD(6) [OF inv, of r] that by (simp add: f)
  ultimately show "sched_inv s' zs ds"
    using queues cpus sched_invD(4,5,7) [OF inv] out unfolding sched_inv_def listed' loose' f(6,7) by blast
qed

text \<open>When the thread id of the new entry is the length of the table, the resize leaves no gap.\<close>

lemma adds_inv:
  assumes inv: "sched_inv s zs ds" and x: "tasks s r = Some x" and next_id: "tid x = tlen (tasks_all s)"
    and a: "adds s r x s'"
  shows "sched_inv s' zs ds" and "loose s' = loose s - {r}" and "listed s' = insert r (listed s)"
proof -
  note tab = table_invD [OF sched_invD(3) [OF inv]] and suc = unat_tid_Suc [OF table_invD(4) [OF sched_invD(3) [OF inv] x]]
  have t: "tlen (tasks_all s') = tid x + 1" "tslots (tasks_all s') = (tslots (tasks_all s))(unat (tid x) := Slot (Some r))"
    "8 * unat (tid x + 1) \<le> unat (talloc (tasks_all s'))"
    using a by (simp_all add: adds_def)
  have s': "s' = s\<lparr>tasks_all := tasks_all s'\<rparr>" using a by (simp add: adds_def)
  from arg_cong [OF s', of "\<lambda>t. (tasks t, tasks_idle t, tasks_running t, tasks_asleep t, tasks_dead t, curr_tid t, fresh t)"]
  have f: "tasks s' = tasks s" "tasks_idle s' = tasks_idle s" "tasks_running s' = tasks_running s"
    "tasks_asleep s' = tasks_asleep s" "tasks_dead s' = tasks_dead s" "curr_tid s' = curr_tid s" "fresh s' = fresh s"
    by simp_all
  have out: "r \<in> loose s" using x next_id by (simp add: loose_def)
  show listed': "listed s' = insert r (listed s)"
    using suc slots_insert [of "unat (tid x)" "tslots (tasks_all s)" r] by (simp add: listed_def t next_id [symmetric])
  have lt: "i < tid x + 1 \<longleftrightarrow> i < tid x \<or> i = tid x" for i
    using suc by (auto simp: word_less_nat_alt word_unat_eq_iff less_Suc_eq)
  show loose': "loose s' = loose s - {r}"
  proof (rule set_eqI)
    fix p
    show "p \<in> loose s' \<longleftrightarrow> p \<in> loose s - {r}"
    proof (cases "tasks s p")
      case (Some y)
      have "tid y = tid x \<longleftrightarrow> p = r" using tab(6) [OF Some x] Some x by auto
      then show ?thesis using Some by (simp add: loose_def f t lt next_id [symmetric])
    qed (simp add: loose_def f)
  qed
  have queues: "queues_ok s' zs ds" using sched_invD(1) [OF inv] queues_ok_fields [of s' s zs ds] f by simp
  have cpus: "cpus_ok s'" using sched_invD(2) [OF inv] by (simp add: cpus_ok_def f)
  have "table_inv s'"
    unfolding table_inv_def f(1,6)
  proof (intro conjI allI impI)
    show "8 * unat (tlen (tasks_all s')) \<le> unat (talloc (tasks_all s'))" using t by simp
    show "tid x \<le> TID_MAX" "tid x < curr_tid s" if "tasks s r = Some x" for r x using that tab(4,5) by blast+
    show "p = q" if "tasks s p = Some y" "tasks s q = Some z" "tid y = tid z" for p q y z using that tab(6) by blast
    show "tlen (tasks_all s') \<le> curr_tid s"
      unfolding t using tab(5) [OF x] suc by (simp add: word_less_nat_alt word_le_nat_alt)
    fix k assume k: "k < unat (tlen (tasks_all s'))"
    then have k': "k = unat (tid x) \<or> k < unat (tlen (tasks_all s))" using suc by (auto simp: t next_id)
    then show "tslots (tasks_all s') k \<noteq> Garbage" using tab(2) [of k] by (auto simp: t)
    fix p assume slot: "tslots (tasks_all s') k = Slot (Some p)"
    show "\<exists>y. tasks s p = Some y \<and> unat (tid y) = k"
    proof (cases "k = unat (tid x)")
      case True
      then show ?thesis using slot x by (simp add: t)
    next
      case False
      then show ?thesis using tab(3) [of k p] k' slot by (simp add: t)
    qed
  qed
  then show "sched_inv s' zs ds"
    using queues cpus sched_invD(4-7) [OF inv] out unfolding sched_inv_def listed' loose' f by blast
qed

text \<open>A state in which every task that was made is in the table.\<close>

abbreviation settled :: "sched \<Rightarrow> bool" where
  "settled s \<equiv> tlen (tasks_all s) = curr_tid s"

lemma settled_loose: "sched_inv s zs ds \<Longrightarrow> settled s \<Longrightarrow> loose s = {}"
  using table_invD(5) [OF sched_invD(3)] by (fastforce simp: loose_def)

text \<open>Both halves without an interruption.\<close>

lemma task_add_settled:
  assumes inv: "sched_inv s zs ds" and le: "curr_tid s \<le> TID_MAX" and settled: "settled s"
  obtains x s1 s' where "task_make entry pri md sp pm new s = (Some (fresh s), s1)" and "makes s x s1"
    and "sched_add (fresh s) s1 = Inr s'" and "adds s1 (fresh s) x s'"
    and "task_add entry pri md sp pm new s = Inr (curr_tid s, s')" and "sched_inv s' zs ds" and "settled s'"
    and "listed s' = insert (fresh s) (listed s)"
proof -
  obtain x s1 where m: "task_make entry pri md sp pm new s = (Some (fresh s), s1)" "makes s x s1"
    by (rule task_make_makes [OF le])
  have x: "tasks s1 (fresh s) = Some x" "tid x = curr_tid s" "tasks_all s1 = tasks_all s" "curr_tid s1 = curr_tid s + 1"
    using m(2) by (simp_all add: makes_def)
  obtain s' where a: "sched_add (fresh s) s1 = Inr s'" "adds s1 (fresh s) x s'"
    by (rule sched_add_adds [OF x(1)]) (use x le in simp)
  have eq: "tid x = tlen (tasks_all s1)" using x settled by simp
  have keep: "tasks s' = tasks s1" "curr_tid s' = curr_tid s1"
  proof -
    have "s' = s1\<lparr>tasks_all := tasks_all s'\<rparr>" using a(2) by (simp add: adds_def)
    from arg_cong [OF this, of "\<lambda>t. (tasks t, curr_tid t)"] show "tasks s' = tasks s1" "curr_tid s' = curr_tid s1" by simp_all
  qed
  have add: "task_add entry pri md sp pm new s = Inr (curr_tid s, s')"
    using m(1) a(1) x keep by (simp add: task_add_def)
  have settled': "settled s'" using a(2) x(2,4) keep by (simp add: adds_def)
  note i1 = makes_inv [OF inv le m(2)]
  note i2 = adds_inv [OF i1(1) x(1) eq a(2)]
  show thesis by (rule that [OF m a add i2(1) settled']) (simp add: i2(3) i1(3))
qed

section \<open>Starting a CPU\<close>

text \<open>The accesses of \<open>sched_init\<close> that take the idle task out of the table.\<close>

lemma take_idle_inv:
  assumes inv: "sched_inv s zs ds" and r: "tslots (tasks_all s) k = Slot (Some r)" "k < unat (tlen (tasks_all s))"
    and off: "tasks_running s c = None" and new: "r \<notin> ran (tasks_running s)"
    and s': "s' = s\<lparr>tasks_idle := (tasks_idle s)(c := Some r), tasks_running := (tasks_running s)(c := Some r),
      tasks_all := (tasks_all s)\<lparr>tslots := (tslots (tasks_all s))(k := Slot None)\<rparr>\<rparr>"
  shows "sched_inv s' zs ds" and "loose s' = loose s" and "listed s' = listed s - {r}"
proof -
  note tab = table_invD [OF sched_invD(3) [OF inv]]
  have idle_off: "tasks_idle s c = None" using cpus_okD(6) [OF sched_invD(2) [OF inv], of c] off by simp
  have rl: "r \<in> listed s" using r by (auto simp: listed_def)
  then have out: "r \<notin> set ds" "r \<notin> ran (tasks_idle s)" using sched_invD(4) [OF inv] by auto
  obtain x where x: "tasks s r = Some x" "unat (tid x) = k" using tab(3) [OF r(2,1)] by blast
  have "queues_ok s' zs ds" using sched_invD(1) [OF inv] queues_ok_fields [of s' s zs ds] by (simp add: s')
  moreover have "cpus_ok s'"
  proof -
    note cpu = cpus_okD [OF sched_invD(2) [OF inv]]
    have no: "tasks_running s d \<noteq> Some r" "tasks_idle s d \<noteq> Some r" for d using new out(2) by (auto simp: ran_def)
    show ?thesis unfolding cpus_ok_def using cpu no x by (auto simp: s')
  qed
  moreover have "table_inv s'"
    by (rule table_inv_clear [OF sched_invD(3) [OF inv], where k = k]) (simp_all add: s')
  moreover have listed': "listed s' = listed s - {r}"
  proof (rule set_eqI)
    fix p
    have "j = k" if "j < unat (tlen (tasks_all s))" "tslots (tasks_all s) j = Slot (Some r)" for j
      using tab(3) [OF that] x by simp
    moreover have "p = r" if "tslots (tasks_all s) k = Slot (Some p)" using that r(1) by simp
    moreover have "p \<in> listed s' \<longleftrightarrow> (\<exists>j<unat (tlen (tasks_all s)). j \<noteq> k \<and> tslots (tasks_all s) j = Slot (Some p))"
      unfolding listed_def s' by (simp add: ex_simps) (metis (no_types))
    ultimately show "p \<in> listed s' \<longleftrightarrow> p \<in> listed s - {r}" unfolding listed_def by blast
  qed
  moreover have loose': "loose s' = loose s" by (simp add: loose_def s')
  moreover have "r \<notin> loose s" using x r(2) by (simp add: loose_def word_less_nat_alt)
  moreover have "ran (tasks_idle s') = insert r (ran (tasks_idle s))" using idle_off by (simp add: s' ran_map_upd)
  moreover have "ran (tasks_running s') = insert r (ran (tasks_running s))" using off by (simp add: s' ran_map_upd)
  ultimately show "sched_inv s' zs ds"
    using sched_invD(4-7) [OF inv] out unfolding sched_inv_def by (auto simp: s')
  show "loose s' = loose s" "listed s' = listed s - {r}" by (fact loose', fact listed')
qed

lemma sched_init_inv:
  assumes inv: "sched_inv s zs ds" and le: "unat (curr_tid s) + 2 \<le> 65536" and settled: "settled s"
    and off: "tasks_running s c = None"
  shows "\<exists>s'. sched_init idle janitor c first new s = Inr s' \<and> sched_inv s' zs ds \<and> settled s'
    \<and> tasks_running s' = (tasks_running s)(c := Some (fresh s))
    \<and> tasks_idle s' = (tasks_idle s)(c := Some (fresh s))"
proof -
  obtain n1 n2 n3 where new: "new = (n1, n2, n3)" by (cases new)
  have ok: "curr_tid s \<le> TID_MAX" using le by (simp add: TID_MAX_def word_le_nat_alt)
  have run_keep: "tasks_running s' = tasks_running t \<and> tasks_idle s' = tasks_idle t \<and> curr_tid s' = curr_tid t + 1"
    if "makes t x t1" "adds t1 r x s'" for t x t1 r s'
  proof -
    have "s' = t1\<lparr>tasks_all := tasks_all s'\<rparr>" using that(2) by (simp add: adds_def)
    from arg_cong [OF this, of "\<lambda>t. (tasks_running t, tasks_idle t, curr_tid t)"] show ?thesis
      using that(1) by (simp add: makes_def)
  qed
  let ?r = "fresh s" and ?k = "unat (curr_tid s)"
  obtain x s0 s1 where c1: "makes s x s0" "adds s0 ?r x s1" "task_add idle 0 TASK_KERNEL_MODE 0 0 n1 s = Inr (curr_tid s, s1)"
      "sched_inv s1 zs ds" "settled s1" "listed s1 = insert ?r (listed s)"
    by (rule task_add_settled [OF inv ok settled])
  note k1 = run_keep [OF c1(1,2)] and suc = unat_tid_Suc [OF ok]
  have tx: "tid x = curr_tid s" using c1(1) by (simp add: makes_def)
  let ?tab = "(tasks_all s1)\<lparr>tslots := (tslots (tasks_all s1))(?k := Slot None)\<rparr>"
  let ?s2 = "s1\<lparr>tasks_idle := (tasks_idle s1)(c := Some ?r), tasks_running := (tasks_running s1)(c := Some ?r),
    tasks_all := ?tab\<rparr>"
  have slot: "tslots (tasks_all s1) ?k = Slot (Some ?r)" "?k < unat (tlen (tasks_all s1))"
    and alloc: "8 * unat (curr_tid s + 1) \<le> unat (talloc (tasks_all s1))"
    using c1(2) tx suc by (simp_all add: adds_def)
  have get: "table_get (curr_tid s) (tasks_all s1) = Inr (Some ?r)"
    using slot alloc suc by (simp add: table_get_def)
  have set: "table_set (curr_tid s) None (tasks_all s1) = Inr ?tab"
    using alloc suc by (simp add: table_set_def)
  have "?r \<notin> ran (tasks_running s1)" using not_fresh [OF inv] k1 by simp
  note i2 = take_idle_inv [OF c1(4) slot _ this refl, of c]
  have inv2: "sched_inv ?s2 zs ds" by (rule i2(1)) (use off k1 in simp)
  have settled2: "settled ?s2" using c1(5) by simp
  show ?thesis
  proof (cases "first = 0")
    case True
    then show ?thesis
      using c1(3) get set inv2 settled2 k1 by (simp add: sched_init_def new)
  next
    case False
    have ok2: "curr_tid ?s2 \<le> TID_MAX" using le suc k1 by (simp add: TID_MAX_def word_le_nat_alt)
    obtain y t0 s3 where s3: "makes ?s2 y t0" "adds t0 (fresh ?s2) y s3"
        "task_add first PRIORITY_MID TASK_KERNEL_MODE 0 0 n2 ?s2 = Inr (curr_tid ?s2, s3)"
        "sched_inv s3 zs ds" "settled s3"
      by (rule task_add_settled [OF inv2 ok2 settled2])
    note k3 = run_keep [OF s3(1,2)]
    have "curr_tid s3 = curr_tid s + 2" using k3 k1 by simp
    moreover have "unat (curr_tid s + 2) = unat (curr_tid s) + 2" using le by (subst unat_add_lt) simp_all
    ultimately have ok3: "curr_tid s3 \<le> TID_MAX" using le by (simp add: TID_MAX_def word_le_nat_alt)
    obtain z u0 s4 where s4: "makes s3 z u0" "adds u0 (fresh s3) z s4"
        "task_add janitor PRIORITY_MIN TASK_KERNEL_MODE 0 0 n3 s3 = Inr (curr_tid s3, s4)"
        "sched_inv s4 zs ds" "settled s4"
      by (rule task_add_settled [OF s3(4) ok3 s3(5)])
    have "sched_init idle janitor c first new s = Inr s4"
      using c1(3) get set s3(3) s4(3) False by (simp add: sched_init_def new)
    moreover have "tasks_running s4 = (tasks_running s)(c := Some ?r)" "tasks_idle s4 = (tasks_idle s)(c := Some ?r)"
      using run_keep [OF s4(1,2)] k3 k1 by simp_all
    ultimately show ?thesis using s4(4,5) by blast
  qed
qed

section \<open>Round robin\<close>

text \<open>How many slots the search passes before it looks at slot \<open>k\<close>.\<close>

definition rr_distance :: "nat \<Rightarrow> nat \<Rightarrow> nat \<Rightarrow> nat" where
  "rr_distance n a k = (if a < k then k - a - 1 else (n - a - 1) + k)"

lemma round_robin_nth:
  assumes "a < n" and "k < n"
  shows "rr_distance n a k < length (round_robin a n)" and "round_robin a n ! rr_distance n a k = k"
  using assms by (auto simp: round_robin_def rr_distance_def nth_append)

lemma rr_distance_nth:
  assumes "a < n" and "i < n"
  shows "rr_distance n a (round_robin a n ! i) = i"
  using assms by (auto simp: round_robin_def rr_distance_def nth_append)

lemma length_round_robin: "a < n \<Longrightarrow> length (round_robin a n) = n"
  by (simp add: round_robin_def)

text \<open>If slot \<open>k\<close> is ready, the search stops no later than there; and then it is closer.\<close>

lemma first_ready_distance:
  assumes a: "a < n" and k: "k < n" and ready: "ready_at s k"
  obtains j r where "first_ready s (round_robin a n) = Some r" and "j < n" and "ready_at s j"
    and "tslots (tasks_all s) j = Slot (Some r)" and "j = k \<or> rr_distance n j k < rr_distance n a k"
proof -
  let ?L = "round_robin a n"
  have "find (ready_at s) ?L \<noteq> None"
    using ready set_round_robin [OF a] k by (auto simp: find_None_iff)
  then obtain j where j: "find (ready_at s) ?L = Some j" by blast
  then obtain i where i: "i < length ?L" "ready_at s (?L ! i)" "j = ?L ! i" "\<forall>i'<i. \<not> ready_at s (?L ! i')"
    by (auto simp: find_Some_iff)
  have jn: "j < n" using i(1,3) set_round_robin [OF a] nth_mem by blast
  obtain r where r: "task_at s j = Some r" "tslots (tasks_all s) j = Slot (Some r)"
    using i(2,3) by (auto simp: ready_at_def task_at_def)
  have "i \<le> rr_distance n a k"
    using i(4) round_robin_nth(2) [OF a k] ready by (metis not_le)
  moreover have "rr_distance n a j = i"
    using rr_distance_nth [OF a] i(1,3) length_round_robin [OF a] by simp
  ultimately have "j = k \<or> rr_distance n j k < rr_distance n a k"
    using a k jn unfolding rr_distance_def by (auto split: if_splits)
  then show thesis using that j r jn i(2,3) by (simp add: first_ready_def)
qed

text \<open>One context switch, seen from a ready task.\<close>

definition ready_in :: "sched \<Rightarrow> nat \<Rightarrow> task_ref \<Rightarrow> bool" where
  "ready_in s k r \<longleftrightarrow> k < unat (tlen (tasks_all s)) \<and> tslots (tasks_all s) k = Slot (Some r)
     \<and> (\<exists>x. tasks s r = Some x \<and> status x = TASK_READY)"

lemma switch_approaches:
  assumes inv: "sched_inv s zs ds" and run: "tasks_running s c = Some cur" and cur: "tasks s cur = Some cx"
    and ready: "ready_in s k r"
  obtains nxt s' us nx where "do_context_switch clock c st s = Inr (nxt, s')" and "sched_inv s' us ds"
    and "tasks_running s' c = Some nxt" and "tasks s' nxt = Some nx" and "tlen (tasks_all s') = tlen (tasks_all s)"
    and "nxt \<in> listed s"
    and "nxt = r \<or> (ready_in s' k r \<and>
      rr_distance (unat (tlen (tasks_all s))) (unat (tid nx)) k
        < rr_distance (unat (tlen (tasks_all s))) (unat (tid cx)) k)"
proof -
  let ?n = "unat (tlen (tasks_all s))"
  obtain us vs s1 x where zs: "zs = us @ vs"
    and w: "wakes clock (after_save st cur cx s) us vs s1" and ok1: "table_ok s1"
    and x: "tasks s1 (choose_next s1 c (tid cx)) = Some x"
    and sw: "do_context_switch clock c st s =
        Inr (choose_next s1 c (tid cx), run_next c (choose_next s1 c (tid cx)) x s1)"
    using do_context_switch_eq [where clock = clock and st = st, OF inv run] cur by auto
  note f = wakes_fields [OF w, unfolded after_save_def, simplified]
  have info1: "info (tasks s1) = woken (set vs) (tasks (after_save st cur cx s))"
    using w by (simp add: wakes_def)
  obtain y where y: "tasks s r = Some y" "status y = TASK_READY"
    and k: "k < ?n" "tslots (tasks_all s) k = Slot (Some r)"
    using ready by (auto simp: ready_in_def)
  have "r \<noteq> cur"
  proof
    assume "r = cur"
    then have "cur \<notin> running_set (tasks s)" "cur \<in> listed s"
      using ready_not_flagged [where h = "tasks s" and r = r and x = y] y k by (auto simp: listed_def)
    then show False
      using cpus_okD(1) [OF sched_invD(2) [OF inv] run] sched_invD(4) [OF inv] by (auto simp: ran_def)
  qed
  then obtain y1 where y1: "tasks s1 r = Some y1" "status y1 = TASK_READY"
    using woken_Some [OF info1, of r y] y by (auto simp: after_save_def split: if_splits)
  have rdy: "ready_at s1 k" using y1 k(2) f(1) by (auto simp: ready_at_def)
  have a: "unat (tid cx) < ?n"
    using in_table(1) [OF inv cur run] by (simp add: word_less_nat_alt)
  obtain j nxt where j: "first_ready s1 (round_robin (unat (tid cx)) ?n) = Some nxt" "j < ?n" "ready_at s1 j"
      "tslots (tasks_all s1) j = Slot (Some nxt)"
      "j = k \<or> rr_distance ?n j k < rr_distance ?n (unat (tid cx)) k"
    by (rule first_ready_distance [OF a k(1) rdy])
  have nxt: "choose_next s1 c (tid cx) = nxt" using j(1) f(1) by (simp add: choose_next_def)
  let ?s' = "run_next c nxt x s1"
  obtain us' where inv': "sched_inv ?s' us' ds"
    by (rule do_context_switch_inv [OF inv run sw]) (simp add: nxt)
  have slot: "tslots (tasks_all s) j = Slot (Some nxt)" using j(4) f(1) by simp
  let ?nx = "x\<lparr>status := status x OR TASK_RUNNING\<rparr>"
  have n': "tasks ?s' nxt = Some ?nx" by (simp add: run_next_def)
  have "\<exists>z. tasks ?s' nxt = Some z \<and> unat (tid z) = j"
    using table_invD(3) [OF sched_invD(3) [OF inv'], of j nxt] j(2) slot f(1) by (simp add: run_next_def)
  then have tidj: "unat (tid ?nx) = j" using n' by simp
  show thesis
  proof (rule that)
    show "do_context_switch clock c st s = Inr (nxt, ?s')" using sw nxt by simp
    show "sched_inv ?s' us' ds" by (fact inv')
    show "tasks_running ?s' c = Some nxt" by (simp add: run_next_def)
    show "tasks ?s' nxt = Some ?nx" by (fact n')
    show "tlen (tasks_all ?s') = tlen (tasks_all s)" using f(1) by (simp add: run_next_def)
    show "nxt \<in> listed s" using j(2) slot by (auto simp: listed_def)
    show "nxt = r \<or> (ready_in ?s' k r \<and>
        rr_distance ?n (unat (tid ?nx)) k < rr_distance ?n (unat (tid cx)) k)"
    proof (cases "nxt = r")
      case False
      then have "ready_in ?s' k r" using y1 k f(1) by (simp add: ready_in_def run_next_def)
      moreover have "j \<noteq> k" using slot k(2) False by auto
      ultimately show ?thesis using j(5) tidj by simp
    qed simp
  qed
qed

text \<open>A CPU that only switches: \<open>run_switches clock c st m\<close> gives the task the last of \<open>m + 1\<close>
  switches chose.\<close>

primrec run_switches :: "(nat \<Rightarrow> u64) \<Rightarrow> nat \<Rightarrow> u64 \<Rightarrow> nat \<Rightarrow> sched \<Rightarrow> (task_ref \<times> sched) result" where
  "run_switches clock c st 0 s = do_context_switch clock c st s"
| "run_switches clock c st (Suc m) s =
     and_then (do_context_switch clock c st s) (\<lambda>(r, s). run_switches clock c st m s)"

lemma run_switches_reach:
  assumes "sched_inv s zs ds" and "tasks_running s c = Some cur" and "tasks s cur = Some cx"
    and "ready_in s k r"
  shows "\<exists>m s'. m \<le> rr_distance (unat (tlen (tasks_all s))) (unat (tid cx)) k
    \<and> run_switches clock c st m s = Inr (r, s')"
  using assms
proof (induction "rr_distance (unat (tlen (tasks_all s))) (unat (tid cx)) k" arbitrary: s zs cur cx rule: less_induct)
  case less
  let ?n = "unat (tlen (tasks_all s))"
  obtain nxt s' us nx where sw: "do_context_switch clock c st s = Inr (nxt, s')" "sched_inv s' us ds"
      "tasks_running s' c = Some nxt" "tasks s' nxt = Some nx" "tlen (tasks_all s') = tlen (tasks_all s)"
      "nxt = r \<or> (ready_in s' k r \<and> rr_distance ?n (unat (tid nx)) k < rr_distance ?n (unat (tid cx)) k)"
    by (rule switch_approaches [where clock = clock and st = st, OF less.prems])
  show ?case
  proof (cases "nxt = r")
    case True
    then show ?thesis using sw(1) by (intro exI [of _ 0]) simp
  next
    case False
    then have d: "ready_in s' k r" "rr_distance ?n (unat (tid nx)) k < rr_distance ?n (unat (tid cx)) k"
      using sw(6) by auto
    from less.hyps [OF _ sw(2-4) d(1)] d(2) sw(5) obtain m s'' where
      "m \<le> rr_distance ?n (unat (tid nx)) k" "run_switches clock c st m s' = Inr (r, s'')" by auto
    then show ?thesis using sw(1) d(2) by (intro exI [of _ "Suc m"]) auto
  qed
qed

end
