(* ===== verification/SchedWorld.thy ===== *)
theory SchedWorld
  imports SchedSteps
begin

text \<open>
  The processors together. Operations that hold \<open>sched_lock\<close> are one step; what the code does without the
  lock is not: \<open>task_add\<close> is two steps (\<open>task_make\<close>, and \<open>sched_add\<close> under the lock), between which anything may
  happen, and \<open>sched_init\<close> is one step for each of its accesses to the shared statics. The position of a
  processor that starts is its \<open>phase\<close>. No step is left out because the code does not handle it; a history
  records such steps instead, as hazards.
\<close>

section \<open>Processors and their steps\<close>

text \<open>What a processor does next in \<open>sched_init\<close>: enter the idle task into the table, store it in \<open>tasks_idle\<close>
  and \<open>tasks_running\<close>, clear its slot, and on the first processor make and enter the first task (\<open>f\<close> is its entry
  point, 0 elsewhere) and the janitor.\<close>

datatype phase = Off
  | Adding_Idle u64 task_ref
  | Saving_Idle u64 u64
  | Saving_Running u64 u64
  | Clearing_Slot u64 u64
  | Making_First u64
  | Adding_First task_ref
  | Making_Janitor
  | Adding_Janitor task_ref
  | Up

text \<open>\<open>made\<close> are the tasks that \<open>task_make\<close> returned to a \<open>task_add\<close> that has not called \<open>sched_add\<close> yet.\<close>

record world =
  sch :: sched
  made :: "task_ref set"
  phase :: "nat \<Rightarrow> phase"
  idle_entry :: u64
  janitor_entry :: u64

datatype sched_event =
    Switch nat u64
  | Sleep nat u64
  | Block nat u64
  | Unblock nat u64
  | Kill nat u64
  | Reap nat
  | Make nat u64 u8 tmode u64 u64 fresh_task
  | Add nat task_ref
  | Start nat u64 fresh_task
  | Go_On nat fresh_task

primrec cpu_of :: "sched_event \<Rightarrow> nat" where
  "cpu_of (Switch c st) = c"
| "cpu_of (Sleep c n) = c"
| "cpu_of (Block c i) = c"
| "cpu_of (Unblock c i) = c"
| "cpu_of (Kill c i) = c"
| "cpu_of (Reap c) = c"
| "cpu_of (Make c entry pri md sp pm new) = c"
| "cpu_of (Add c r) = c"
| "cpu_of (Start c f new) = c"
| "cpu_of (Go_On c new) = c"

text \<open>The timer and the tasks of a processor run once \<open>sched_init\<close> has ended there; before it begins, the boot
  code may create tasks.\<close>

definition enabled :: "sched_event \<Rightarrow> world \<Rightarrow> bool" where
  "enabled e w \<longleftrightarrow> cpu_of e < CPU_MAX \<and>
     (case e of
        Start c f new \<Rightarrow> phase w c = Off
      | Go_On c new \<Rightarrow> phase w c \<noteq> Off \<and> phase w c \<noteq> Up
      | Make c entry pri md sp pm new \<Rightarrow> phase w c = Off \<or> phase w c = Up
      | Add c r \<Rightarrow> r \<in> made w \<and> (phase w c = Off \<or> phase w c = Up)
      | _ \<Rightarrow> phase w (cpu_of e) = Up)"

abbreviation at_phase :: "nat \<Rightarrow> phase \<Rightarrow> world \<Rightarrow> world" where
  "at_phase c p w \<equiv> w\<lparr>phase := (phase w)(c := p)\<rparr>"

text \<open>The rest of \<open>sched_init\<close>, one access at a time.\<close>

fun go_on :: "nat \<Rightarrow> fresh_task \<Rightarrow> phase \<Rightarrow> world \<Rightarrow> world result" where
  "go_on c new (Adding_Idle f r) w =
     and_then (sched_add r (sch w)) (\<lambda>s.
     and_then (load_task r (tasks s)) (\<lambda>x. Inr (at_phase c (Saving_Idle f (tid x)) (w\<lparr>sch := s\<rparr>))))"
| "go_on c new (Saving_Idle f t) w =
     and_then (table_get t (tasks_all (sch w))) (\<lambda>r.
       Inr (at_phase c (Saving_Running f t) (w\<lparr>sch := (sch w)\<lparr>tasks_idle := (tasks_idle (sch w))(c := r)\<rparr>\<rparr>)))"
| "go_on c new (Saving_Running f t) w =
     and_then (table_get t (tasks_all (sch w))) (\<lambda>r.
       Inr (at_phase c (Clearing_Slot f t) (w\<lparr>sch := (sch w)\<lparr>tasks_running := (tasks_running (sch w))(c := r)\<rparr>\<rparr>)))"
| "go_on c new (Clearing_Slot f t) w =
     and_then (table_set t None (tasks_all (sch w))) (\<lambda>tab.
       Inr (at_phase c (if f \<noteq> 0 then Making_First f else Up) (w\<lparr>sch := (sch w)\<lparr>tasks_all := tab\<rparr>\<rparr>)))"
| "go_on c new (Making_First f) w =
     (case task_make f PRIORITY_MID TASK_KERNEL_MODE 0 0 new (sch w) of
        (None, s) \<Rightarrow> Inr (at_phase c Making_Janitor (w\<lparr>sch := s\<rparr>))
      | (Some r, s) \<Rightarrow> Inr (at_phase c (Adding_First r) (w\<lparr>sch := s\<rparr>)))"
| "go_on c new (Adding_First r) w =
     and_then (sched_add r (sch w)) (\<lambda>s. Inr (at_phase c Making_Janitor (w\<lparr>sch := s\<rparr>)))"
| "go_on c new Making_Janitor w =
     (case task_make (janitor_entry w) PRIORITY_MIN TASK_KERNEL_MODE 0 0 new (sch w) of
        (None, s) \<Rightarrow> Inr (at_phase c Up (w\<lparr>sch := s\<rparr>))
      | (Some r, s) \<Rightarrow> Inr (at_phase c (Adding_Janitor r) (w\<lparr>sch := s\<rparr>)))"
| "go_on c new (Adding_Janitor r) w =
     and_then (sched_add r (sch w)) (\<lambda>s. Inr (at_phase c Up (w\<lparr>sch := s\<rparr>)))"
| "go_on c new Off w = Inr w"
| "go_on c new Up w = Inr w"

text \<open>One step. A \<open>task_add\<close> that gets no thread id returns -1, which \<open>sched_init\<close> then uses as the index of the
  idle task.\<close>

primrec sched_do :: "(nat \<Rightarrow> u64) \<Rightarrow> sched_event \<Rightarrow> world \<Rightarrow> world result" where
  "sched_do clock (Switch c st) w =
     and_then (do_context_switch clock c st (sch w)) (\<lambda>(_, s). Inr (w\<lparr>sch := s\<rparr>))"
| "sched_do clock (Sleep c n) w = and_then (sched_sleep clock c n (sch w)) (\<lambda>s. Inr (w\<lparr>sch := s\<rparr>))"
| "sched_do clock (Block c i) w = and_then (sched_block c i (sch w)) (\<lambda>(_, _, s). Inr (w\<lparr>sch := s\<rparr>))"
| "sched_do clock (Unblock c i) w = and_then (sched_unblock i (sch w)) (\<lambda>(_, s). Inr (w\<lparr>sch := s\<rparr>))"
| "sched_do clock (Kill c i) w = and_then (sched_kill c i (sch w)) (\<lambda>(_, _, s). Inr (w\<lparr>sch := s\<rparr>))"
| "sched_do clock (Reap c) w = and_then (sched_janitor (sch w)) (\<lambda>s. Inr (w\<lparr>sch := s\<rparr>))"
| "sched_do clock (Make c entry pri md sp pm new) w =
     (case task_make entry pri md sp pm new (sch w) of
        (None, s) \<Rightarrow> Inr (w\<lparr>sch := s\<rparr>)
      | (Some r, s) \<Rightarrow> Inr (w\<lparr>sch := s, made := insert r (made w)\<rparr>))"
| "sched_do clock (Add c r) w =
     and_then (sched_add r (sch w)) (\<lambda>s. Inr (w\<lparr>sch := s, made := made w - {r}\<rparr>))"
| "sched_do clock (Start c f new) w =
     (case task_make (idle_entry w) 0 TASK_KERNEL_MODE 0 0 new (sch w) of
        (None, s) \<Rightarrow> Inr (at_phase c (Saving_Idle f (- 1)) (w\<lparr>sch := s\<rparr>))
      | (Some r, s) \<Rightarrow> Inr (at_phase c (Adding_Idle f r) (w\<lparr>sch := s\<rparr>)))"
| "sched_do clock (Go_On c new) w = go_on c new (phase w c) w"

section \<open>Hazards\<close>

text \<open>A processor is exposed from the moment its idle task is in the table until it has taken it out again.\<close>

primrec exposed :: "phase \<Rightarrow> bool" where
  "exposed Off = False"
| "exposed (Adding_Idle f r) = False"
| "exposed (Saving_Idle f t) = True"
| "exposed (Saving_Running f t) = True"
| "exposed (Clearing_Slot f t) = True"
| "exposed (Making_First f) = False"
| "exposed (Adding_First r) = False"
| "exposed Making_Janitor = False"
| "exposed (Adding_Janitor r) = False"
| "exposed Up = False"

primrec adding :: "phase \<Rightarrow> task_ref option" where
  "adding Off = None"
| "adding (Adding_Idle f r) = Some r"
| "adding (Saving_Idle f t) = None"
| "adding (Saving_Running f t) = None"
| "adding (Clearing_Slot f t) = None"
| "adding (Making_First f) = None"
| "adding (Adding_First r) = Some r"
| "adding Making_Janitor = None"
| "adding (Adding_Janitor r) = Some r"
| "adding Up = None"

primrec making :: "phase \<Rightarrow> bool" where
  "making Off = False"
| "making (Adding_Idle f r) = False"
| "making (Saving_Idle f t) = False"
| "making (Saving_Running f t) = False"
| "making (Clearing_Slot f t) = False"
| "making (Making_First f) = True"
| "making (Adding_First r) = False"
| "making Making_Janitor = True"
| "making (Adding_Janitor r) = False"
| "making Up = False"

text \<open>
  What the source does not handle. A step between the accesses of another processor's \<open>sched_init\<close>; a task
  that enters the table when its thread id is not the table's length (\<open>sched_add\<close> then cuts off the tasks behind it, or
  leaves slots that were never written); the kill of a sleeping task; a task that sleeps although it was killed (or
  sleeps) already; the janitor while a killed task still runs; and no thread ids left.
\<close>

datatype hazard = Startup_Disturbed | Added_Out_Of_Order | Sleeper_Killed | Dead_Task_Sleeps
  | Running_Task_Reaped | Thread_Ids_Used_Up

primrec occurs :: "hazard \<Rightarrow> sched_event \<Rightarrow> world \<Rightarrow> bool" where
  "occurs Startup_Disturbed e w \<longleftrightarrow> (\<exists>c<CPU_MAX. exposed (phase w c) \<and> cpu_of e \<noteq> c)"
| "occurs Added_Out_Of_Order e w \<longleftrightarrow>
     (case (case e of Add c r \<Rightarrow> Some r | Go_On c new \<Rightarrow> adding (phase w c) | _ \<Rightarrow> None) of
        None \<Rightarrow> False
      | Some r \<Rightarrow> map_option tid (tasks (sch w) r) \<noteq> Some (tlen (tasks_all (sch w))))"
| "occurs Sleeper_Killed e w \<longleftrightarrow>
     (case e of
        Kill c i \<Rightarrow> (case valid_tid i (tasks_all (sch w)) of
                      Inr (Some t) \<Rightarrow> t \<in> asleep_set (tasks (sch w))
                    | _ \<Rightarrow> False)
      | _ \<Rightarrow> False)"
| "occurs Dead_Task_Sleeps e w \<longleftrightarrow>
     (case e of
        Sleep c n \<Rightarrow> \<not> n \<le> TIMESLICE_DEFAULT \<and>
          (case tasks_running (sch w) c of
             Some t \<Rightarrow> t \<in> asleep_set (tasks (sch w)) \<or> t \<in> dead_set (tasks (sch w))
           | None \<Rightarrow> False)
      | _ \<Rightarrow> False)"
| "occurs Running_Task_Reaped e w \<longleftrightarrow>
     (case e of
        Reap c \<Rightarrow> \<exists>d<CPU_MAX. \<exists>t. tasks_running (sch w) d = Some t \<and> t \<in> dead_set (tasks (sch w))
      | _ \<Rightarrow> False)"
| "occurs Thread_Ids_Used_Up e w \<longleftrightarrow>
     (case e of
        Start c f new \<Rightarrow> curr_tid (sch w) > TID_MAX
      | Make c entry pri md sp pm new \<Rightarrow> curr_tid (sch w) = - 1
      | Go_On c new \<Rightarrow> making (phase w c) \<and> curr_tid (sch w) = - 1
      | _ \<Rightarrow> False)"

definition hazards :: "sched_event \<Rightarrow> world \<Rightarrow> hazard set" where
  "hazards e w = {h. occurs h e w}"

lemma no_hazard [simp]: "hazards e w = {} \<longleftrightarrow> (\<forall>h. \<not> occurs h e w)"
  by (simp add: hazards_def)

section \<open>Histories\<close>

text \<open>The statics of \<open>sched.c\<close> and \<open>task.c\<close> before anything ran, whatever memory holds.\<close>

definition boot_sched :: "(u64 \<Rightarrow> task_state) \<Rightarrow> sched" where
  "boot_sched mem0 =
     \<lparr>tasks = (\<lambda>_. None), fresh = 0, stacks = mem0, curr_tid = 0, tasks_idle = (\<lambda>_. None),
      tasks_running = (\<lambda>_. None),
      tasks_all = \<lparr>tlen = 0, talloc = 0, tslots = (\<lambda>_. Garbage)\<rparr>,
      tasks_asleep = empty_queue, tasks_dead = empty_queue, rsp0 = (\<lambda>_. 0), ticks = 0\<rparr>"

definition boot_world :: "(u64 \<Rightarrow> task_state) \<Rightarrow> u64 \<Rightarrow> u64 \<Rightarrow> world" where
  "boot_world mem0 idle janitor =
     \<lparr>sch = boot_sched mem0, made = {}, phase = (\<lambda>_. Off), idle_entry = idle, janitor_entry = janitor\<rparr>"

text \<open>\<open>history clock H w\<close>: some interleaving of steps leads from the boot to \<open>w\<close>, and \<open>H\<close> are the hazards that
  occurred on the way.\<close>

inductive history :: "(nat \<Rightarrow> u64) \<Rightarrow> hazard set \<Rightarrow> world \<Rightarrow> bool" for clock where
  boot: "history clock {} (boot_world mem0 idle janitor)"
| step: "history clock H w \<Longrightarrow> enabled e w \<Longrightarrow> sched_do clock e w = Inr w' \<Longrightarrow>
    history clock (H \<union> hazards e w) w'"

end
