(* ===== verification/SchedHistory.thy ===== *)
theory SchedHistory
  imports SchedWorld
begin

text \<open>
  The invariant of the processors together, and that every step without a hazard keeps it: between the
  accesses of a startup the state is the one before, with the idle task on its way out of the table.
\<close>

section \<open>The invariant\<close>

primrec runs :: "phase \<Rightarrow> bool" where
  "runs Off = False"
| "runs (Adding_Idle f r) = False"
| "runs (Saving_Idle f t) = False"
| "runs (Saving_Running f t) = False"
| "runs (Clearing_Slot f t) = True"
| "runs (Making_First f) = True"
| "runs (Adding_First r) = True"
| "runs Making_Janitor = True"
| "runs (Adding_Janitor r) = True"
| "runs Up = True"

text \<open>Every task on its way into the table is made, once, and not yet in it.\<close>

definition phases_ok :: "world \<Rightarrow> bool" where
  "phases_ok w \<longleftrightarrow>
     (\<forall>c. CPU_MAX \<le> c \<longrightarrow> phase w c = Off)
     \<and> made w \<subseteq> loose (sch w) \<and> (\<forall>c r. adding (phase w c) = Some r \<longrightarrow> r \<in> loose (sch w) \<and> r \<notin> made w)
     \<and> (\<forall>c d r. adding (phase w c) = Some r \<longrightarrow> adding (phase w d) = Some r \<longrightarrow> c = d)
     \<and> (\<forall>c. c \<in> dom (tasks_running (sch w)) \<longleftrightarrow> runs (phase w c))"

text \<open>The state \<open>s\<close> after some of the accesses that take the idle task \<open>r\<close> out of slot \<open>t\<close>.\<close>

inductive taking_idle :: "nat \<Rightarrow> task_ref \<Rightarrow> sched \<Rightarrow> phase \<Rightarrow> u64 \<Rightarrow> sched \<Rightarrow> bool" where
  "taking_idle c r s1 (Saving_Idle f t) t s1"
| "taking_idle c r s1 (Saving_Running f t) t (s1\<lparr>tasks_idle := (tasks_idle s1)(c := Some r)\<rparr>)"
| "taking_idle c r s1 (Clearing_Slot f t) t
    (s1\<lparr>tasks_idle := (tasks_idle s1)(c := Some r), tasks_running := (tasks_running s1)(c := Some r)\<rparr>)"

definition idle_in_table :: "nat \<Rightarrow> task_ref \<Rightarrow> sched \<Rightarrow> u64 \<Rightarrow> bool" where
  "idle_in_table c r s t \<longleftrightarrow> t < tlen (tasks_all s) \<and> tslots (tasks_all s) (unat t) = Slot (Some r)
     \<and> tasks_running s c = None \<and> r \<notin> ran (tasks_running s)"

definition world_inv :: "world \<Rightarrow> bool" where
  "world_inv w \<longleftrightarrow> phases_ok w \<and>
     ((\<forall>c. \<not> exposed (phase w c)) \<and> (\<exists>zs ds. sched_inv (sch w) zs ds)
      \<or> (\<exists>c r s1 t zs ds. (\<forall>d. exposed (phase w d) \<longleftrightarrow> d = c) \<and> sched_inv s1 zs ds \<and> idle_in_table c r s1 t
          \<and> taking_idle c r s1 (phase w c) t (sch w)))"

lemma phases_okD:
  assumes "phases_ok w"
  shows "CPU_MAX \<le> c \<Longrightarrow> phase w c = Off" and "made w \<subseteq> loose (sch w)"
    and "adding (phase w c) = Some r \<Longrightarrow> r \<in> loose (sch w)" and "adding (phase w c) = Some r \<Longrightarrow> r \<notin> made w"
    and "adding (phase w c) = Some r \<Longrightarrow> adding (phase w d) = Some r \<Longrightarrow> c = d"
    and "c \<in> dom (tasks_running (sch w)) \<longleftrightarrow> runs (phase w c)"
  using assms unfolding phases_ok_def by blast+

lemma boot_inv: "sched_inv (boot_sched mem0) [] []"
  by (simp add: sched_inv_def queues_ok_def cpus_ok_def table_inv_def listed_def loose_def boot_sched_def
      flagged_def info_def sleep_sorted_def)

lemma boot_world_inv: "world_inv (boot_world mem0 idle janitor)"
proof -
  have "phases_ok (boot_world mem0 idle janitor)" by (simp add: phases_ok_def boot_world_def boot_sched_def)
  then show ?thesis using boot_inv [of mem0] by (auto simp: world_inv_def boot_world_def)
qed

section \<open>Steps under the lock\<close>

lemma quiet_step:
  assumes "phases_ok w" and "\<forall>c. \<not> exposed (phase w c)" and "sched_inv s zs ds" and "calm (sch w) s"
  shows "world_inv (w\<lparr>sch := s\<rparr>)"
proof -
  have "phases_ok (w\<lparr>sch := s\<rparr>)"
    using assms(1,4) unfolding phases_ok_def calm_def by (simp add: subset_iff)
  then show ?thesis using assms(2,3) by (auto simp: world_inv_def)
qed

lemma sched_sleep_short:
  assumes inv: "sched_inv s zs ds" and "nanos \<le> TIMESLICE_DEFAULT"
  shows "sched_sleep clock c nanos s = Inl Diverges
    \<or> (\<exists>s'. sched_sleep clock c nanos s = Inr s' \<and> sched_inv s' zs ds \<and> calm s s')"
proof (cases "hpet_nanosleep clock nanos (ticks s)")
  case (Inl e)
  then have "e = Diverges" by (auto simp: hpet_nanosleep_def from_option_def split: option.splits)
  then show ?thesis using Inl assms(2) by (simp add: sched_sleep_def)
next
  case (Inr k)
  let ?s = "s\<lparr>ticks := k\<rparr>"
  have "sched_inv ?s zs ds"
    using sched_invD(1,2) [OF inv] queues_ok_fields [of ?s s zs ds]
    by (intro sched_invI_same [OF inv]) (simp_all add: cpus_ok_def same_tids_def)
  moreover have "calm s ?s" by (rule calmI) (simp_all add: same_tids_def)
  ultimately show ?thesis using Inr assms(2) by (simp add: sched_sleep_def)
qed

section \<open>Creation in two steps\<close>

lemma task_make_cases:
  assumes inv: "sched_inv s zs ds" and "curr_tid s \<noteq> - 1"
  obtains (made) s' where "task_make entry pri md sp pm new s = (Some (fresh s), s')" and "sched_inv s' zs ds"
    and "loose s' = insert (fresh s) (loose s)" and "fresh s \<notin> loose s" and "tasks_running s' = tasks_running s"
    and "curr_tid s \<le> TID_MAX"
  | (none) s' where "task_make entry pri md sp pm new s = (None, s')" and "sched_inv s' zs ds" and "calm s s'"
    and "TID_MAX < curr_tid s"
proof (cases "curr_tid s \<le> TID_MAX")
  case True
  obtain x s' where m: "task_make entry pri md sp pm new s = (Some (fresh s), s')" "makes s x s'"
    by (rule task_make_makes [OF True])
  show thesis
    by (rule made [OF m(1)]) (use makes_inv [OF inv True m(2)] not_fresh [OF inv] m(2) True in \<open>auto simp: makes_def\<close>)
next
  case False
  let ?s' = "s\<lparr>curr_tid := curr_tid s + 1\<rparr>"
  have suc: "unat (curr_tid s + 1) = unat (curr_tid s) + 1"
    using assms(2) by (metis Suc_eq_plus1 add.commute add_eq_0_iff unatSuc)
  have later: "i < curr_tid s \<Longrightarrow> i < curr_tid s + 1" "i \<le> curr_tid s \<Longrightarrow> i \<le> curr_tid s + 1" for i
    using suc by (simp_all add: word_less_nat_alt word_le_nat_alt)
  have "table_inv ?s'"
    using table_invD [OF sched_invD(3) [OF inv]] later unfolding table_inv_def by simp
  moreover have l: "loose ?s' = loose s" by (simp add: loose_def)
  ultimately have "sched_inv ?s' zs ds"
    using sched_invD [OF inv] queues_ok_fields [of ?s' s zs ds]
    by (simp add: sched_inv_def cpus_ok_def listed_def)
  then show thesis using False l by (intro none [of ?s']) (simp_all add: task_make_none not_le calm_def)
qed

lemma sched_add_next:
  assumes inv: "sched_inv s zs ds" and next_id: "map_option tid (tasks s r) = Some (tlen (tasks_all s))"
  obtains s' x where "sched_add r s = Inr s'" and "sched_inv s' zs ds" and "loose s' = loose s - {r}"
    and "tasks_running s' = tasks_running s" and "tasks s' r = Some x" and "tid x < tlen (tasks_all s')"
    and "tslots (tasks_all s') (unat (tid x)) = Slot (Some r)"
proof -
  obtain x where x: "tasks s r = Some x" "tid x = tlen (tasks_all s)" using next_id by auto
  have le: "tid x \<le> TID_MAX" by (rule table_invD(4) [OF sched_invD(3) [OF inv] x(1)])
  obtain s' where a: "sched_add r s = Inr s'" "adds s r x s'" by (rule sched_add_adds [OF x(1) le])
  note i = adds_inv [OF inv x a(2)]
  have "s' = s\<lparr>tasks_all := tasks_all s'\<rparr>" using a(2) by (simp add: adds_def)
  from arg_cong [OF this, of "\<lambda>t. (tasks t, tasks_running t)"]
  have f: "tasks s' = tasks s" "tasks_running s' = tasks_running s" by simp_all
  have t: "tlen (tasks_all s') = tid x + 1" "tslots (tasks_all s') (unat (tid x)) = Slot (Some r)"
    using a(2) by (simp_all add: adds_def)
  show thesis
    by (rule that [OF a(1) i(1,2) f(2)])
      (use f(1) x(1) t unat_tid_Suc [OF le] in \<open>simp_all add: word_less_nat_alt\<close>)
qed

text \<open>What creation does to the phases.\<close>

lemma phases_make:
  assumes "phases_ok w" and "loose s = insert r (loose (sch w))" and "r \<notin> loose (sch w)"
    and "tasks_running s = tasks_running (sch w)"
  shows "phases_ok (w\<lparr>sch := s, made := insert r (made w)\<rparr>)"
    and "c < CPU_MAX \<Longrightarrow> adding p = Some r \<Longrightarrow> runs p = runs (phase w c) \<Longrightarrow> phases_ok (at_phase c p (w\<lparr>sch := s\<rparr>))"
  using assms(1) assms(2-4) unfolding phases_ok_def by (auto simp: domIff)

lemma phases_add:
  assumes "phases_ok w" and "loose s = loose (sch w) - {r}" and "tasks_running s = tasks_running (sch w)"
  shows "r \<in> made w \<Longrightarrow> phases_ok (w\<lparr>sch := s, made := made w - {r}\<rparr>)"
    and "adding (phase w c) = Some r \<Longrightarrow> c < CPU_MAX \<Longrightarrow> adding p = None \<Longrightarrow> runs p = runs (phase w c) \<Longrightarrow>
      phases_ok (at_phase c p (w\<lparr>sch := s\<rparr>))"
  using assms(1) assms(2,3) unfolding phases_ok_def by (auto simp: domIff)

lemma phases_move:
  assumes "phases_ok w" and "loose (sch w) \<subseteq> loose s" and "adding p = None" and "c < CPU_MAX"
    and "dom (tasks_running s) = (if runs p then insert c else (\<lambda>X. X - {c})) (dom (tasks_running (sch w)))"
  shows "phases_ok (at_phase c p (w\<lparr>sch := s\<rparr>))"
  using assms unfolding phases_ok_def by (auto simp: domIff split: if_splits)

section \<open>Every step without a hazard\<close>

lemma world_invI:
  "phases_ok w \<Longrightarrow> \<forall>c. \<not> exposed (phase w c) \<Longrightarrow> sched_inv (sch w) zs ds \<Longrightarrow> world_inv w"
  by (auto simp: world_inv_def)

lemma up_running:
  assumes "phases_ok w" and "phase w c = Up"
  obtains t where "tasks_running (sch w) c = Some t"
  using phases_okD(6) [OF assms(1), of c] assms(2) by auto

lemma start_step:
  assumes ok: "phases_ok w" and quiet: "\<forall>c. \<not> exposed (phase w c)" and inv: "sched_inv (sch w) zs ds"
    and c: "c < CPU_MAX" "phase w c = Off" and le: "curr_tid (sch w) \<le> TID_MAX"
  shows "\<exists>w'. sched_do clock (Start c f new) w = Inr w' \<and> world_inv w'"
proof -
  have "\<not> (- 1 :: u64) \<le> TID_MAX" by (simp add: TID_MAX_def word_le_nat_alt unsigned_minus_1_eq_mask mask_eq_exp_minus_1)
  then have "curr_tid (sch w) \<noteq> - 1" using le by metis
  then obtain s' where m: "task_make (idle_entry w) 0 TASK_KERNEL_MODE 0 0 new (sch w) = (Some (fresh (sch w)), s')"
    "sched_inv s' zs ds" "loose s' = insert (fresh (sch w)) (loose (sch w))" "fresh (sch w) \<notin> loose (sch w)"
    "tasks_running s' = tasks_running (sch w)"
    by (rule task_make_cases [OF inv]) (use le in auto)
  have "phases_ok (at_phase c (Adding_Idle f (fresh (sch w))) (w\<lparr>sch := s'\<rparr>))"
    by (rule phases_make(2) [OF ok m(3-5) c(1)]) (simp_all add: c)
  then have "world_inv (at_phase c (Adding_Idle f (fresh (sch w))) (w\<lparr>sch := s'\<rparr>))"
    by (rule world_invI) (use quiet m(2) in auto)
  then show ?thesis using m(1) by simp
qed

text \<open>The creations of \<open>sched_init\<close> after the idle task.\<close>

lemma go_on_make:
  assumes ok: "phases_ok w" and quiet: "\<forall>c. \<not> exposed (phase w c)" and inv: "sched_inv (sch w) zs ds"
    and c: "c < CPU_MAX" and p: "making (phase w c)" and room: "curr_tid (sch w) \<noteq> - 1"
  shows "\<exists>w'. go_on c new (phase w c) w = Inr w' \<and> world_inv w'"
proof -
  obtain entry pri next_p skip where eq: "go_on c new (phase w c) w =
      (case task_make entry pri TASK_KERNEL_MODE 0 0 new (sch w) of
        (None, s) \<Rightarrow> Inr (at_phase c skip (w\<lparr>sch := s\<rparr>))
      | (Some r, s) \<Rightarrow> Inr (at_phase c (next_p r) (w\<lparr>sch := s\<rparr>)))"
    and next_p: "\<And>r. adding (next_p r) = Some r" "\<And>r. runs (next_p r)" "\<And>r. \<not> exposed (next_p r)"
    and skip: "adding skip = None" "runs skip" "\<not> exposed skip" and run: "runs (phase w c)"
  proof (cases "phase w c")
    case (Making_First f)
    then show thesis by (intro that [where entry = f and pri = PRIORITY_MID and skip = Making_Janitor and next_p = Adding_First]) simp_all
  next
    case Making_Janitor
    then show thesis by (intro that [where entry = "janitor_entry w" and pri = PRIORITY_MIN and skip = Up and next_p = Adding_Janitor]) simp_all
  qed (use p in simp_all)
  show ?thesis
  proof (rule task_make_cases [OF inv room, of entry pri TASK_KERNEL_MODE 0 0 new])
    fix s' assume m: "task_make entry pri TASK_KERNEL_MODE 0 0 new (sch w) = (Some (fresh (sch w)), s')"
      "sched_inv s' zs ds" "loose s' = insert (fresh (sch w)) (loose (sch w))" "fresh (sch w) \<notin> loose (sch w)"
      "tasks_running s' = tasks_running (sch w)"
    have "phases_ok (at_phase c (next_p (fresh (sch w))) (w\<lparr>sch := s'\<rparr>))"
      by (rule phases_make(2) [OF ok m(3-5) c]) (simp_all add: next_p run)
    then have "world_inv (at_phase c (next_p (fresh (sch w))) (w\<lparr>sch := s'\<rparr>))"
      by (rule world_invI) (use quiet m(2) next_p(3) in auto)
    then show ?thesis using m(1) eq by simp
  next
    fix s' assume m: "task_make entry pri TASK_KERNEL_MODE 0 0 new (sch w) = (None, s')" "sched_inv s' zs ds" "calm (sch w) s'"
    have "c \<in> dom (tasks_running (sch w))" using phases_okD(6) [OF ok] run by blast
    then have "phases_ok (at_phase c skip (w\<lparr>sch := s'\<rparr>))"
      by (intro phases_move [OF ok _ _ c]) (use m(3) skip in \<open>auto simp: calm_def\<close>)
    then have "world_inv (at_phase c skip (w\<lparr>sch := s'\<rparr>))"
      by (rule world_invI) (use quiet m(2) skip(3) in auto)
    then show ?thesis using m(1) eq by simp
  qed
qed

text \<open>Entering the table: the idle task gets exposed by it, the others do not.\<close>

lemma go_on_add:
  assumes ok: "phases_ok w" and quiet: "\<forall>c. \<not> exposed (phase w c)" and inv: "sched_inv (sch w) zs ds"
    and c: "c < CPU_MAX" and p: "adding (phase w c) = Some r"
    and next_id: "map_option tid (tasks (sch w) r) = Some (tlen (tasks_all (sch w)))"
  shows "\<exists>w'. go_on c new (phase w c) w = Inr w' \<and> world_inv w'"
proof -
  obtain s' x where a: "sched_add r (sch w) = Inr s'" "sched_inv s' zs ds" "loose s' = loose (sch w) - {r}"
    "tasks_running s' = tasks_running (sch w)" "tasks s' r = Some x" "tid x < tlen (tasks_all s')"
    "tslots (tasks_all s') (unat (tid x)) = Slot (Some r)"
    by (rule sched_add_next [OF inv next_id])
  have keep: "phases_ok (at_phase c q (w\<lparr>sch := s'\<rparr>))" if "adding q = None" "runs q = runs (phase w c)" for q
    by (rule phases_add(2) [OF ok a(3,4) p c that])
  show ?thesis
  proof (cases "phase w c")
    case (Adding_Idle f r')
    then have r': "r' = r" using p by simp
    let ?w = "at_phase c (Saving_Idle f (tid x)) (w\<lparr>sch := s'\<rparr>)"
    have "r \<notin> ran (tasks_running (sch w))" using phases_okD(3) [OF ok p] sched_invD(7) [OF inv] by blast
    moreover have "tasks_running (sch w) c = None"
      using phases_okD(6) [OF ok, of c] Adding_Idle by (cases "tasks_running (sch w) c") auto
    ultimately have "idle_in_table c r s' (tid x)" using a by (simp add: idle_in_table_def)
    moreover have "taking_idle c r s' (phase ?w c) (tid x) (sch ?w)" by (simp add: taking_idle.intros)
    moreover have "\<forall>d. exposed (phase ?w d) \<longleftrightarrow> d = c" using quiet by simp
    moreover have "phases_ok ?w" by (rule keep) (simp_all add: Adding_Idle)
    ultimately have "world_inv ?w" unfolding world_inv_def using a(2) by blast
    then show ?thesis using a(1,5) Adding_Idle r' by simp
  next
    case (Adding_First r')
    then have r': "r' = r" using p by simp
    have "world_inv (at_phase c Making_Janitor (w\<lparr>sch := s'\<rparr>))"
      by (rule world_invI [OF keep]) (use quiet a(2) Adding_First in auto)
    then show ?thesis using a(1) Adding_First r' by simp
  next
    case (Adding_Janitor r')
    then have r': "r' = r" using p by simp
    have "world_inv (at_phase c Up (w\<lparr>sch := s'\<rparr>))"
      by (rule world_invI [OF keep]) (use quiet a(2) Adding_Janitor in auto)
    then show ?thesis using a(1) Adding_Janitor r' by simp
  qed (use p in simp_all)
qed

text \<open>The three accesses of an exposed processor.\<close>

lemma go_on_exposed:
  assumes ok: "phases_ok w" and only: "\<forall>d. exposed (phase w d) \<longleftrightarrow> d = c" and inv: "sched_inv s1 zs ds"
    and idle: "idle_in_table c r s1 t" and p: "taking_idle c r s1 (phase w c) t (sch w)"
  shows "\<exists>w'. go_on c new (phase w c) w = Inr w' \<and> world_inv w'"
proof -
  have c: "c < CPU_MAX" using phases_okD(1) [OF ok, of c] only by (metis exposed.simps(1) not_le)
  have t: "t < tlen (tasks_all s1)" "tslots (tasks_all s1) (unat t) = Slot (Some r)" "tasks_running s1 c = None"
    "r \<notin> ran (tasks_running s1)"
    using idle by (simp_all add: idle_in_table_def)
  have alloc: "8 * unat t + 8 \<le> unat (talloc (tasks_all s1))"
    using table_invD(1) [OF sched_invD(3) [OF inv]] t(1) by (simp add: word_less_nat_alt)
  have get: "table_get t (tasks_all s1) = Inr (Some r)" using alloc t(2) by (simp add: table_get_def)
  note move = phases_move [OF ok _ _ c]
  show ?thesis
    using p
  proof cases
    case (1 f)
    let ?w = "at_phase c (Saving_Running f t) (w\<lparr>sch := s1\<lparr>tasks_idle := (tasks_idle s1)(c := Some r)\<rparr>\<rparr>)"
    have "phases_ok ?w" by (rule move) (use 1 t(3) in \<open>auto simp: loose_def\<close>)
    moreover have "taking_idle c r s1 (phase ?w c) t (sch ?w)" by (simp add: taking_idle.intros)
    moreover have "\<forall>d. exposed (phase ?w d) \<longleftrightarrow> d = c" using only by simp
    ultimately have "world_inv ?w" unfolding world_inv_def using inv idle by blast
    then show ?thesis using 1 get by simp
  next
    case (2 f)
    let ?w = "at_phase c (Clearing_Slot f t)
      (w\<lparr>sch := s1\<lparr>tasks_idle := (tasks_idle s1)(c := Some r), tasks_running := (tasks_running s1)(c := Some r)\<rparr>\<rparr>)"
    have "phases_ok ?w" by (rule move) (use 2 in \<open>auto simp: loose_def\<close>)
    moreover have "taking_idle c r s1 (phase ?w c) t (sch ?w)" by (simp add: taking_idle.intros)
    moreover have "\<forall>d. exposed (phase ?w d) \<longleftrightarrow> d = c" using only by simp
    ultimately have "world_inv ?w" unfolding world_inv_def using inv idle by blast
    then show ?thesis using 2 get by simp
  next
    case (3 f)
    let ?s = "s1\<lparr>tasks_idle := (tasks_idle s1)(c := Some r), tasks_running := (tasks_running s1)(c := Some r),
      tasks_all := (tasks_all s1)\<lparr>tslots := (tslots (tasks_all s1))(unat t := Slot None)\<rparr>\<rparr>"
    let ?p = "if f \<noteq> 0 then Making_First f else Up"
    note i = take_idle_inv [OF inv t(2) _ t(3,4) refl]
    have lt: "unat t < unat (tlen (tasks_all s1))" using t(1) by (simp add: word_less_nat_alt)
    have "phases_ok (at_phase c ?p (w\<lparr>sch := ?s\<rparr>))"
      by (rule move) (use 3 in \<open>auto simp: loose_def\<close>)
    then have "world_inv (at_phase c ?p (w\<lparr>sch := ?s\<rparr>))"
      by (rule world_invI) (use only i(1) [OF lt] in auto)
    moreover have "table_set t None (tasks_all s1)
      = Inr ((tasks_all s1)\<lparr>tslots := (tslots (tasks_all s1))(unat t := Slot None)\<rparr>)"
      using alloc by (simp add: table_set_def)
    ultimately show ?thesis using 3 by simp
  qed
qed

text \<open>Steps of a processor that is up.\<close>

lemma up_step:
  assumes ok: "phases_ok w" and quiet: "\<forall>c. \<not> exposed (phase w c)" and inv: "sched_inv (sch w) zs ds"
    and up: "phase w (cpu_of e) = Up" and safe: "hazards e w = {}"
    and kind: "case e of Make c entry pri md sp pm new \<Rightarrow> False | Add c r \<Rightarrow> False | Start c f new \<Rightarrow> False
      | Go_On c new \<Rightarrow> False | _ \<Rightarrow> True"
  shows "(\<exists>w'. sched_do clock e w = Inr w' \<and> world_inv w')
    \<or> (\<exists>c n. e = Sleep c n \<and> n \<le> TIMESLICE_DEFAULT \<and> sched_do clock e w = Inl Diverges)"
proof -
  obtain t where run: "tasks_running (sch w) (cpu_of e) = Some t" by (rule up_running [OF ok up])
  note quiet_step = quiet_step [OF ok quiet]
  have safe: "\<not> occurs h e w" for h using safe by simp
  show ?thesis
  proof (cases e)
    case (Switch c st)
    then have run: "tasks_running (sch w) c = Some t" using run by simp
    obtain nxt s' where sw: "do_context_switch clock c st (sch w) = Inr (nxt, s')"
      using do_context_switch_eq [OF inv run] by blast
    from do_context_switch_inv [OF inv run sw] obtain us where "sched_inv s' us ds" "calm (sch w) s'" by blast
    from quiet_step [OF this] sw Switch show ?thesis by simp
  next
    case (Sleep c n)
    show ?thesis
    proof (cases "n \<le> TIMESLICE_DEFAULT")
      case True
      from sched_sleep_short [OF inv True, of clock c] show ?thesis using quiet_step Sleep True by auto
    next
      case False
      have "t \<notin> asleep_set (tasks (sch w))" "t \<notin> dead_set (tasks (sch w))"
        using safe [of Dead_Task_Sleeps] Sleep False run by simp_all
      moreover have "tasks_running (sch w) c = Some t" using run Sleep by simp
      ultimately obtain s' zs' where "sched_sleep clock c n (sch w) = Inr s'" "sched_inv s' zs' ds" "calm (sch w) s'"
        using sched_sleep_inv [OF inv _ _ _ False, of c t clock] by blast
      then show ?thesis using quiet_step Sleep by simp
    qed
  next
    case (Block c i)
    from sched_block_inv [OF inv, of c i] quiet_step Block show ?thesis by auto
  next
    case (Unblock c i)
    from sched_unblock_inv [OF inv, of i] quiet_step Unblock show ?thesis by auto
  next
    case (Kill c i)
    have awake: "r \<notin> asleep_set (tasks (sch w))"
      if r: "tasks (sch w) r = Some x" "tid x = i" "r \<in> listed (sch w)" for r x
    proof -
      obtain k where k: "k < unat (tlen (tasks_all (sch w)))" "tslots (tasks_all (sch w)) k = Slot (Some r)"
        using r(3) by (auto simp: listed_def)
      then have "k = unat i" using table_invD(3) [OF sched_invD(3) [OF inv] k] r(1,2) by auto
      then have "valid_tid i (tasks_all (sch w)) = Inr (Some r)"
        using k table_invD(1) [OF sched_invD(3) [OF inv]] by (simp add: valid_tid_def table_get_def word_less_nat_alt)
      then show ?thesis using safe [of Sleeper_Killed] Kill by simp
    qed
    have "\<exists>v cur s' ds'. sched_kill c i (sch w) = Inr (v, cur, s') \<and> sched_inv s' zs ds' \<and> calm (sch w) s'"
      by (rule sched_kill_inv [OF inv]) (rule awake)
    then show ?thesis using quiet_step Kill by auto
  next
    case (Reap c)
    have "r \<notin> dead_set (tasks (sch w))" if "tasks_running (sch w) d = Some r" for d r
    proof -
      have "runs (phase w d)" using phases_okD(6) [OF ok, of d] that by blast
      then have "d < CPU_MAX" using phases_okD(1) [OF ok, of d] by (metis runs.simps(1) not_le)
      then show ?thesis using safe [of Running_Task_Reaped] Reap that by auto
    qed
    then have "set ds \<inter> ran (tasks_running (sch w)) = {}"
      using queues_okD(4) [OF sched_invD(1) [OF inv]] by (auto simp: ran_def)
    from sched_janitor_inv [OF inv this] quiet_step Reap show ?thesis by auto
  qed (use kind in simp_all)
qed

text \<open>A step without a hazard returns and keeps the invariant; only a busy wait on a clock that stands still
  does not end.\<close>

lemma world_step:
  assumes "world_inv w" and on: "enabled e w" and safe: "hazards e w = {}"
  shows "(\<exists>w'. sched_do clock e w = Inr w' \<and> world_inv w')
    \<or> (\<exists>c n. e = Sleep c n \<and> n \<le> TIMESLICE_DEFAULT \<and> sched_do clock e w = Inl Diverges)"
proof -
  have ok: "phases_ok w" using assms(1) by (simp add: world_inv_def)
  have free: "\<not> occurs h e w" for h using safe by simp
  consider (quiet) zs ds where "\<forall>c. \<not> exposed (phase w c)" "sched_inv (sch w) zs ds"
    | (exposed) c r s1 t zs ds where "\<forall>d. exposed (phase w d) \<longleftrightarrow> d = c" "sched_inv s1 zs ds" "idle_in_table c r s1 t"
        "taking_idle c r s1 (phase w c) t (sch w)"
    using assms(1) unfolding world_inv_def by blast
  then show ?thesis
  proof cases
    case exposed
    have "c < CPU_MAX" using phases_okD(1) [OF ok, of c] exposed(1) by (metis exposed.simps(1) not_le)
    then have "cpu_of e = c" using free [of Startup_Disturbed] exposed(1) by auto
    moreover have "phase w c \<noteq> Off" "phase w c \<noteq> Up" using exposed(1) by (metis exposed.simps(1), metis exposed.simps(10))
    ultimately obtain new where "e = Go_On c new" using on by (cases e) (auto simp: enabled_def)
    then show ?thesis using go_on_exposed [OF ok exposed, of new] by simp
  next
    case quiet
    note pre = ok quiet
    show ?thesis
    proof (cases e)
      case (Make c entry pri md sp pm new)
      then have "curr_tid (sch w) \<noteq> - 1" using free [of Thread_Ids_Used_Up] by simp
      then show ?thesis
      proof (rule task_make_cases [OF quiet(2), of entry pri md sp pm new])
        fix s' assume m: "task_make entry pri md sp pm new (sch w) = (Some (fresh (sch w)), s')"
          "sched_inv s' zs ds" "loose s' = insert (fresh (sch w)) (loose (sch w))" "fresh (sch w) \<notin> loose (sch w)"
          "tasks_running s' = tasks_running (sch w)"
        have "world_inv (w\<lparr>sch := s', made := insert (fresh (sch w)) (made w)\<rparr>)"
          by (rule world_invI [OF phases_make(1) [OF ok m(3-5)]]) (use quiet m(2) in simp_all)
        then show ?thesis using m(1) Make by simp
      next
        fix s' assume m: "task_make entry pri md sp pm new (sch w) = (None, s')" "sched_inv s' zs ds" "calm (sch w) s'"
        from quiet_step [OF ok quiet(1) m(2,3)] m(1) Make show ?thesis by simp
      qed
    next
      case (Add c r)
      have r: "r \<in> made w" using on Add by (simp add: enabled_def)
      have "map_option tid (tasks (sch w) r) = Some (tlen (tasks_all (sch w)))"
        using free [of Added_Out_Of_Order] Add by simp
      then obtain s' where a: "sched_add r (sch w) = Inr s'" "sched_inv s' zs ds" "loose s' = loose (sch w) - {r}"
          "tasks_running s' = tasks_running (sch w)"
        by (rule sched_add_next [OF quiet(2)])
      have "world_inv (w\<lparr>sch := s', made := made w - {r}\<rparr>)"
        by (rule world_invI [OF phases_add(1) [OF ok a(3,4) r]]) (use quiet a(2) in simp_all)
      then show ?thesis using a(1) Add by simp
    next
      case (Start c f new)
      then have "c < CPU_MAX" "phase w c = Off" "curr_tid (sch w) \<le> TID_MAX"
        using on free [of Thread_Ids_Used_Up] by (auto simp: enabled_def)
      from start_step [OF pre this] show ?thesis using Start by simp
    next
      case (Go_On c new)
      then have p: "c < CPU_MAX" "phase w c \<noteq> Off" "phase w c \<noteq> Up" using on by (auto simp: enabled_def)
      then consider "making (phase w c)" | r where "adding (phase w c) = Some r"
        using quiet(1) by (cases "phase w c") (auto dest: spec [of _ c])
      then show ?thesis
      proof cases
        case 1
        then have "curr_tid (sch w) \<noteq> - 1" using free [of Thread_Ids_Used_Up] Go_On by simp
        from go_on_make [OF pre p(1) 1 this, of new] show ?thesis using Go_On by simp
      next
        case 2
        have "map_option tid (tasks (sch w) r) = Some (tlen (tasks_all (sch w)))"
          using free [of Added_Out_Of_Order] Go_On 2 by simp
        from go_on_add [OF pre p(1) 2 this, of new] show ?thesis using Go_On by simp
      qed
    qed (rule up_step [OF pre _ safe]; use on in \<open>simp add: enabled_def\<close>)+
  qed
qed

lemma history_inv: "history clock H w \<Longrightarrow> H = {} \<Longrightarrow> world_inv w"
proof (induction rule: history.induct)
  case (boot mem0 idle janitor)
  show ?case by (rule boot_world_inv)
next
  case (step H w e w')
  then show ?case using world_step [of w e clock] by auto
qed

lemma world_quietD:
  assumes "world_inv w" and "hazards e w = {}" and "phase w (cpu_of e) = Up"
  obtains zs ds where "phases_ok w" and "\<forall>c. \<not> exposed (phase w c)" and "sched_inv (sch w) zs ds"
proof -
  have ok: "phases_ok w" using assms(1) by (simp add: world_inv_def)
  have "\<not> exposed (phase w c)" for c
  proof
    assume c: "exposed (phase w c)"
    then have "c < CPU_MAX" using phases_okD(1) [OF ok, of c] by (metis exposed.simps(1) not_le)
    moreover have "\<not> occurs Startup_Disturbed e w" using assms(2) by simp
    ultimately have "cpu_of e = c" using c by auto
    then show False using assms(3) c by simp
  qed
  then show thesis using that assms(1) ok unfolding world_inv_def by blast
qed

text \<open>Which processor runs a task is unique also while one of them starts.\<close>

lemma world_running:
  assumes "world_inv w" and c: "tasks_running (sch w) c = Some r" and d: "tasks_running (sch w) d = Some r"
  shows "c = d"
proof -
  consider zs ds where "sched_inv (sch w) zs ds"
    | e p s1 t zs ds where "sched_inv s1 zs ds" "idle_in_table e p s1 t" "taking_idle e p s1 (phase w e) t (sch w)"
    using assms(1) unfolding world_inv_def by blast
  then show ?thesis
  proof cases
    case 1
    then show ?thesis using cpus_okD(2) [OF sched_invD(2)] c d by blast
  next
    case 2
    have same: "tasks_running s1 c' = Some r \<Longrightarrow> tasks_running s1 d' = Some r \<Longrightarrow> c' = d'" for c' d'
      using cpus_okD(2) [OF sched_invD(2) [OF 2(1)]] by blast
    have "p \<notin> ran (tasks_running s1)" using 2(2) by (simp add: idle_in_table_def)
    with 2(3) c d same show ?thesis by cases (auto simp: ran_def split: if_splits)
  qed
qed

section \<open>Startup without interruption\<close>

text \<open>Running a list of steps.\<close>

primrec steps :: "(nat \<Rightarrow> u64) \<Rightarrow> sched_event list \<Rightarrow> world \<Rightarrow> (hazard set \<times> world) result" where
  "steps clock [] w = Inr ({}, w)"
| "steps clock (e # es) w =
     (if enabled e w
      then and_then (sched_do clock e w) (\<lambda>w'.
           and_then (steps clock es w') (\<lambda>(H, w''). Inr (hazards e w \<union> H, w'')))
      else Inl Undefined_Behaviour)"

lemma history_steps:
  "steps clock es w = Inr (H', w') \<Longrightarrow> history clock H w \<Longrightarrow> history clock (H \<union> H') w'"
proof (induction es arbitrary: w H H')
  case (Cons e es)
  then obtain w1 H1 where "enabled e w" "sched_do clock e w = Inr w1" "steps clock es w1 = Inr (H1, w')"
    "H' = hazards e w \<union> H1"
    by (auto elim!: and_then_InrE split: if_splits prod.splits)
  then show ?case using Cons.IH [of w1 H1 "H \<union> hazards e w"] history.step [OF Cons.prems(2)] by (simp add: Un_assoc)
qed simp

text \<open>A creation inside \<open>sched_init\<close>, seen from its phase.\<close>

lemma go_on_creates:
  assumes add: "task_add entry pri TASK_KERNEL_MODE 0 0 new (sch w) = Inr (t, s)" and c: "c < CPU_MAX"
    and mk: "\<And>v. phase v c = phase w c \<Longrightarrow> janitor_entry v = janitor_entry w \<Longrightarrow> go_on c new (phase v c) v =
      (case task_make entry pri TASK_KERNEL_MODE 0 0 new (sch v) of
        (None, s) \<Rightarrow> Inr (at_phase c done_p (v\<lparr>sch := s\<rparr>))
      | (Some r, s) \<Rightarrow> Inr (at_phase c (add_p r) (v\<lparr>sch := s\<rparr>)))"
    and ad: "\<And>r v. go_on c new (add_p r) v = and_then (sched_add r (sch v)) (\<lambda>s. Inr (at_phase c done_p (v\<lparr>sch := s\<rparr>)))"
    and on: "phase w c \<noteq> Off" "phase w c \<noteq> Up" "\<And>r. add_p r \<noteq> Off" "\<And>r. add_p r \<noteq> Up"
  obtains n H w' where "steps clock (replicate n (Go_On c new)) w = Inr (H, w')" and "w' = at_phase c done_p (w\<lparr>sch := s\<rparr>)"
proof (cases "task_make entry pri TASK_KERNEL_MODE 0 0 new (sch w)")
  case (Pair v s1)
  show thesis
  proof (cases v)
    case None
    then have "s1 = s" using add Pair by (simp add: task_add_def)
    then have "steps clock (replicate 1 (Go_On c new)) w
        = Inr (hazards (Go_On c new) w, at_phase c done_p (w\<lparr>sch := s\<rparr>))"
      using None Pair mk [of w] on c by (simp add: enabled_def)
    then show thesis using that by blast
  next
    case (Some r)
    then obtain s2 where s2: "sched_add r s1 = Inr s2" "s2 = s"
      using add Pair by (auto simp: task_add_def elim!: and_then_InrE)
    let ?v = "at_phase c (add_p r) (w\<lparr>sch := s1\<rparr>)"
    have "steps clock (replicate 2 (Go_On c new)) w
        = Inr (hazards (Go_On c new) w \<union> hazards (Go_On c new) ?v, at_phase c done_p (w\<lparr>sch := s\<rparr>))"
      using Some Pair mk [of w] ad s2 on c by (simp add: enabled_def numeral_2_eq_2)
    then show thesis using that by blast
  qed
qed

lemma steps_append:
  "steps clock es w = Inr (H, w1) \<Longrightarrow> steps clock fs w1 = Inr (H', w2) \<Longrightarrow> steps clock (es @ fs) w = Inr (H \<union> H', w2)"
  by (induction es arbitrary: w H) (auto simp: Un_assoc elim!: and_then_InrE split: if_splits)

text \<open>When no other processor comes in between, the single accesses do what \<open>sched_init\<close> does as a whole.\<close>

lemma startup_is_sched_init:
  assumes init: "sched_init (idle_entry w) (janitor_entry w) c f (n1, n2, n3) (sch w) = Inr s"
    and off: "phase w c = Off" and c: "c < CPU_MAX"
  obtains es H where "steps clock es w = Inr (H, at_phase c Up (w\<lparr>sch := s\<rparr>))" and "\<forall>e\<in>set es. cpu_of e = c"
proof -
  obtain t s1 r tab where idle: "task_add (idle_entry w) 0 TASK_KERNEL_MODE 0 0 n1 (sch w) = Inr (t, s1)"
    and get: "table_get t (tasks_all s1) = Inr r" and set: "table_set t None (tasks_all s1) = Inr tab"
    and rest: "(let s = s1\<lparr>tasks_idle := (tasks_idle s1)(c := r), tasks_running := (tasks_running s1)(c := r), tasks_all := tab\<rparr>
      in if f \<noteq> 0
         then and_then (task_add f PRIORITY_MID TASK_KERNEL_MODE 0 0 n2 s) (\<lambda>(_, s).
              and_then (task_add (janitor_entry w) PRIORITY_MIN TASK_KERNEL_MODE 0 0 n3 s) (\<lambda>(_, s). Inr s))
         else Inr s) = Inr s"
    using init by (auto simp: sched_init_def elim!: and_then_InrE)
  let ?s2 = "s1\<lparr>tasks_idle := (tasks_idle s1)(c := r), tasks_running := (tasks_running s1)(c := r), tasks_all := tab\<rparr>"
  let ?p = "if f \<noteq> 0 then Making_First f else Up"
  obtain r0 s0 where mk: "task_make (idle_entry w) 0 TASK_KERNEL_MODE 0 0 n1 (sch w) = (Some r0, s0)"
  proof (cases "task_make (idle_entry w) 0 TASK_KERNEL_MODE 0 0 n1 (sch w)")
    case (Pair v s0)
    have False if "v = None"
    proof -
      have "t = - 1" using idle Pair that by (simp add: task_add_def)
      then have "8 * unat (- 1 :: u64) + 8 \<le> unat (talloc (tasks_all s1))"
        using get by (simp add: table_get_def split: if_splits)
      moreover have "unat (talloc (tasks_all s1)) < 2 ^ 64" using unsigned_less [of "talloc (tasks_all s1)"] by simp
      ultimately show False by (simp add: unsigned_minus_1_eq_mask mask_eq_exp_minus_1)
    qed
    then show thesis using that Pair by (cases v) auto
  qed
  then obtain x where ad: "sched_add r0 s0 = Inr s1" "load_task r0 (tasks s1) = Inr x" "tid x = t"
    using idle by (auto simp: task_add_def elim!: and_then_InrE)
  have first: "\<exists>H. steps clock (Start c f n1 # replicate 4 (Go_On c n1)) w = Inr (H, at_phase c ?p (w\<lparr>sch := ?s2\<rparr>))"
    using mk ad get set off c by (simp add: enabled_def numeral_eq_Suc)
  show thesis
  proof (cases "f = 0")
    case True
    then show thesis using first rest that [of "Start c f n1 # replicate 4 (Go_On c n1)"] by auto
  next
    case False
    obtain t3 s3 t4 where s3: "task_add f PRIORITY_MID TASK_KERNEL_MODE 0 0 n2 ?s2 = Inr (t3, s3)"
      and s4: "task_add (janitor_entry w) PRIORITY_MIN TASK_KERNEL_MODE 0 0 n3 s3 = Inr (t4, s)"
      using rest False by (auto simp: Let_def elim!: and_then_InrE)
    let ?w2 = "at_phase c (Making_First f) (w\<lparr>sch := ?s2\<rparr>)"
    obtain H1 where e1: "steps clock (Start c f n1 # replicate 4 (Go_On c n1)) w = Inr (H1, ?w2)" using first False by auto
    obtain n H2 w3 where e2: "steps clock (replicate n (Go_On c n2)) ?w2 = Inr (H2, w3)"
        "w3 = at_phase c Making_Janitor (?w2\<lparr>sch := s3\<rparr>)"
      by (rule go_on_creates [where w = ?w2 and entry = f and pri = PRIORITY_MID and new = n2 and t = t3 and s = s3 and c = c
            and add_p = Adding_First and done_p = Making_Janitor and clock = clock]) (use s3 c in \<open>simp_all\<close>)
    obtain m H3 w4 where e3: "steps clock (replicate m (Go_On c n3)) w3 = Inr (H3, w4)" "w4 = at_phase c Up (w3\<lparr>sch := s\<rparr>)"
      by (rule go_on_creates [where w = w3 and entry = "janitor_entry w" and pri = PRIORITY_MIN and new = n3 and t = t4
            and s = s and c = c and add_p = Adding_Janitor and done_p = Up and clock = clock])
        (use s4 c e2(2) in \<open>simp_all\<close>)
    have w4: "w4 = at_phase c Up (w\<lparr>sch := s\<rparr>)" using e2(2) e3(2) by simp
    show thesis
      by (rule that [OF steps_append [OF steps_append [OF e1 e2(1)] e3(1), unfolded w4]]) auto
  qed
qed

end
