(* ===== verification/SchedProps.thy ===== *)
theory SchedProps
  imports SchedHistory
begin

text \<open>
  The properties of the scheduler, each with a witness, and situations in which it breaks: the
  kill of a sleeping task, the reaping of a task that still runs, and a switch while another processor starts.
\<close>

section \<open>Example states\<close>

definition sleeper :: "u64 \<Rightarrow> u64 \<Rightarrow> task_ref option \<Rightarrow> task_ref option \<Rightarrow> task" where
  "sleeper i w p n = (example_task i)\<lparr>status := TASK_ASLEEP, wakeuptime := w, tprev := p, tnext := n\<rparr>"

text \<open>CPU 0 runs its idle task; tasks 1 and 2 sleep until 10 and 20; task 3 is ready.\<close>

definition example_sched :: sched where
  "example_sched =
     \<lparr>tasks = [0 \<mapsto> example_task 0, 1 \<mapsto> sleeper 1 10 (Some 2) None, 2 \<mapsto> sleeper 2 20 None (Some 1),
        3 \<mapsto> example_task 3],
      fresh = 4, stacks = (\<lambda>_. undefined), curr_tid = 4,
      tasks_idle = [0 \<mapsto> 0], tasks_running = [0 \<mapsto> 0],
      tasks_all = \<lparr>tlen = 4, talloc = 64,
        tslots = (\<lambda>_. Garbage)(0 := Slot None, 1 := Slot (Some 1), 2 := Slot (Some 2), 3 := Slot (Some 3))\<rparr>,
      tasks_asleep = \<lparr>qfront = Some 2, qback = Some 1, qlen = 0\<rparr>, tasks_dead = empty_queue,
      rsp0 = (\<lambda>_. 0), ticks = 0\<rparr>"

lemma example_task_fields [simp]:
  "tid (example_task i) = i" "status (example_task i) = 0" "wakeuptime (example_task i) = 0"
  "tid (sleeper i w p n) = i" "status (sleeper i w p n) = 4" "wakeuptime (sleeper i w p n) = w"
  "tprev (sleeper i w p n) = p" "tnext (sleeper i w p n) = n"
  by (simp_all add: example_task_def sleeper_def)

lemma example_sched_inv: "sched_inv example_sched [2, 1] []"
proof -
  let ?s = example_sched
  have fl: "flagged b (tasks ?s) = (if b = 2 then {1, 2} else {})" for b
  proof -
    have "bit (4 :: u32) b \<longleftrightarrow> b = 2" using bit_exp_iff [of 2 b, where ?'a = "32 word"] by auto
    then show ?thesis by (auto simp: flagged_alt example_sched_def split: if_splits)
  qed
  have "queues_ok ?s [2, 1] []"
    unfolding queues_ok_def fl
    by (auto simp: example_sched_def tq_rep_def sleep_sorted_def empty_queue_def)
  moreover have "cpus_ok ?s"
    unfolding cpus_ok_def fl by (auto simp: example_sched_def)
  moreover have "table_inv ?s"
    unfolding table_inv_def
  proof (intro conjI allI impI)
    have four: "unat (tlen (tasks_all ?s)) = 4" by (simp add: example_sched_def)
    fix k assume "k < unat (tlen (tasks_all ?s))"
    then have k: "k = 0 \<or> k = 1 \<or> k = 2 \<or> k = 3" unfolding four by linarith
    then show "tslots (tasks_all ?s) k \<noteq> Garbage" by (elim disjE) (simp_all add: example_sched_def)
    fix r assume "tslots (tasks_all ?s) k = Slot (Some r)"
    with k show "\<exists>x. tasks ?s r = Some x \<and> unat (tid x) = k"
      by (elim disjE) (auto simp: example_sched_def)
  next
    have low: "unat (tid x) < 4 \<and> r = unat (tid x)" if "tasks ?s r = Some x" for r x
      using that by (auto simp: example_sched_def split: if_splits)
    then show "tid x \<le> TID_MAX" "tid x < curr_tid ?s" if "tasks ?s r = Some x" for r x
      using low [OF that] by (simp_all add: TID_MAX_def word_le_nat_alt word_less_nat_alt example_sched_def)
    show "r = q" if "tasks ?s r = Some x" "tasks ?s q = Some y" "tid x = tid y" for r q x y
      using low [OF that(1)] low [OF that(2)] that(3) by simp
  qed (simp_all add: example_sched_def)
  moreover have "loose ?s = {}"
    by (auto simp: loose_def example_sched_def split: if_splits)
  moreover have "listed ?s \<subseteq> {1, 2, 3}"
    by (auto simp: listed_def example_sched_def split: if_splits)
  then have "0 \<notin> listed ?s" by auto
  ultimately show ?thesis
    by (simp add: sched_inv_def) (simp add: example_sched_def)
qed

lemma example_sched_running: "tasks_running example_sched 0 = Some 0"
  by (simp add: example_sched_def)

text \<open>Processor 0 starts, without a first task.\<close>

definition example_new :: fresh_task where
  "example_new = \<lparr>raw = example_task 0, limit = 0x9000, cr3_now = 0\<rparr>"

definition one_started :: world where
  "one_started = (boot_world (\<lambda>_. undefined) 0x1000 0x2000)
     \<lparr>sch := (boot_sched (\<lambda>_. undefined))
        \<lparr>tasks := [0 \<mapsto> (example_task 0)\<lparr>kstack_limit := 0x9000, kstack_top := 0x9f60, priority := 0, openfiles := []\<rparr>],
         fresh := 1, curr_tid := 1,
         stacks := (\<lambda>_. undefined)(0x9f60 := task_frame 0x1000 TASK_KERNEL_MODE 0 0xa000 0 undefined),
         tasks_idle := [0 \<mapsto> 0], tasks_running := [0 \<mapsto> 0],
         tasks_all := \<lparr>tlen = 1, talloc = 16, tslots = (\<lambda>_. Garbage)(0 := Slot None)\<rparr>\<rparr>,
      phase := (\<lambda>_. Off)(0 := Up)\<rparr>"

text \<open>And processor 1 has entered its idle task into the table.\<close>

definition two_starting :: world where
  "two_starting = one_started
     \<lparr>sch := (sch one_started)
        \<lparr>tasks := (tasks (sch one_started))(1 \<mapsto>
           (example_task 1)\<lparr>kstack_limit := 0x9000, kstack_top := 0x9f60, priority := 0, openfiles := []\<rparr>),
         fresh := 2, curr_tid := 2,
         stacks := (stacks (sch one_started))(0x9f60 := task_frame 0x1000 TASK_KERNEL_MODE 0 0xa000 1
           (stacks (sch one_started) 0x9f60)),
         tasks_all := \<lparr>tlen = 2, talloc = 16, tslots = (\<lambda>_. Garbage)(0 := Slot None, 1 := Slot (Some 1))\<rparr>\<rparr>,
      phase := (\<lambda>_. Off)(0 := Up, 1 := Saving_Idle 0 1)\<rparr>"

lemma all_hazards: "(\<forall>h. P h) \<longleftrightarrow> P Startup_Disturbed \<and> P Added_Out_Of_Order \<and> P Sleeper_Killed \<and> P Dead_Task_Sleeps
    \<and> P Running_Task_Reaped \<and> P Thread_Ids_Used_Up"
  by (metis hazard.exhaust)

lemma one_started_history: "history clock {} one_started"
proof -
  let ?w = "boot_world (\<lambda>_. undefined) 0x1000 0x2000"
  have "steps clock [Start 0 0 example_new, Go_On 0 example_new, Go_On 0 example_new, Go_On 0 example_new, Go_On 0 example_new] ?w
    = Inr ({}, one_started)"
    by (simp add: enabled_def boot_world_def boot_sched_def task_make_def Let_def TID_MAX_def example_new_def all_hazards
        sched_add_def table_resize_def table_set_def table_get_def one_started_def example_task_def empty_queue_def)
  from history_steps [OF this history.boot] show ?thesis by simp
qed

section \<open>Safety\<close>

text \<open>C1: in every history of the processors - whatever the interleaving of switches, sleeps, blocks, unblocks, kills,
  reaping, the two halves of task creations and the single accesses of processors that start - in which none of the six hazards
  occurred that \<open>hazard\<close> lists, no task runs on two processors; also not while one of them is starting.\<close>

theorem no_task_on_two_cpus:
  assumes "history clock H w" and "H = {}"
    and "tasks_running (sch w) c = Some r" and "tasks_running (sch w) d = Some r"
  shows "c = d"
  by (rule world_running [OF history_inv [OF assms(1,2)] assms(3,4)])

theorem no_task_on_two_cpus_witness:
  "history (\<lambda>k. of_nat k) {} one_started \<and> tasks_running (sch one_started) 0 = Some 0
     \<and> tasks_running (sch one_started) 1 \<noteq> Some 0"
proof -
  have h: "history (\<lambda>k. of_nat k) {} one_started" by (rule one_started_history)
  have r: "tasks_running (sch one_started) 0 = Some 0" by (simp add: one_started_def)
  have "tasks_running (sch one_started) 1 \<noteq> Some 0"
  proof
    assume "tasks_running (sch one_started) 1 = Some 0"
    from no_task_on_two_cpus [OF h refl r this] show False by simp
  qed
  with h r show ?thesis by blast
qed



section \<open>Fairness\<close>

text \<open>C3: round robin starves nobody: on a CPU that only switches tasks, every ready task of the
  table is chosen within as many switches as the table is long, counted from the CPU's current
  task.\<close>

theorem round_robin_starves_nobody:
  assumes "sched_inv s zs ds" and "tasks_running s c = Some cur" and "ready_in s k r"
  shows "\<exists>m s'. m < unat (tlen (tasks_all s)) \<and> run_switches clock c st m s = Inr (r, s')"
proof -
  obtain cx where cx: "tasks s cur = Some cx"
    using cpus_alive [OF sched_invD(2) [OF assms(1)] assms(2)] by blast
  have "unat (tid cx) < unat (tlen (tasks_all s))"
    using in_table(1) [OF assms(1) cx assms(2)] by (simp add: word_less_nat_alt)
  moreover have "k < unat (tlen (tasks_all s))" using assms(3) by (simp add: ready_in_def)
  ultimately have "rr_distance (unat (tlen (tasks_all s))) (unat (tid cx)) k < unat (tlen (tasks_all s))"
    using round_robin_nth(1) length_round_robin by metis
  then show ?thesis
    using run_switches_reach [where clock = clock and st = st, OF assms(1,2) cx assms(3)]
    by (meson le_less_trans)
qed

theorem round_robin_starves_nobody_witness:
  "\<exists>m s'. m < 4 \<and> run_switches (\<lambda>k. of_nat k) 0 0x9000 m example_sched = Inr (3, s')"
proof -
  have "ready_in example_sched 3 3" by (simp add: ready_in_def example_sched_def)
  from round_robin_starves_nobody [OF example_sched_inv example_sched_running this, of "\<lambda>k. of_nat k" "0x9000"]
  show ?thesis by (simp add: example_sched_def)
qed

section \<open>Sleeping\<close>

text \<open>C4: a context switch wakes exactly the sleepers whose time has come: each task it wakes was
  due at one of the clock readings made during the switch, and a task that goes on sleeping was
  not due at the last reading.\<close>

theorem context_switch_wakes_due_tasks:
  assumes "sched_inv s zs ds" and "tasks_running s c = Some cur"
    and "do_context_switch clock c st s = Inr (nxt, s')"
  shows "asleep_set (tasks s') \<subseteq> asleep_set (tasks s)
    \<and> (\<forall>r\<in>asleep_set (tasks s). if r \<in> asleep_set (tasks s')
         then clock (ticks s' - 1) \<le> wake (tasks s) r
         else \<exists>k. ticks s \<le> k \<and> k < ticks s' \<and> wake (tasks s) r < clock k)"
proof -
  obtain cx us vs s1 x where cx: "tasks s cur = Some cx" and zs: "zs = us @ vs"
    and w: "wakes clock (after_save st cur cx s) us vs s1" and x: "tasks s1 nxt = Some x"
    and s': "s' = run_next c nxt x s1"
    using do_context_switch_eq [where clock = clock and st = st, OF assms(1,2)] assms(3) by auto
  let ?s0 = "after_save st cur cx s"
  note q = queues_okD [OF sched_invD(1) [OF assms(1)]]
  have wake0: "wake (tasks ?s0) r = wake (tasks s) r" for r
    using cx by (simp add: after_save_def)
  have "set us = asleep_set (tasks s')"
  proof -
    have "queues_ok ?s0 (us @ vs) ds"
      by (rule queues_ok_status [OF sched_invD(1) [OF assms(1), unfolded zs] cx]) (simp_all add: after_save_def)
    from queues_okD(3) [OF queues_ok_status [OF wakes_queues [OF this w] x, where s' = s']]
    show ?thesis by (simp add: s' run_next_def)
  qed
  moreover have "ticks s' = ticks s1" "ticks ?s0 = ticks s"
    by (simp_all add: s' run_next_def after_save_def)
  moreover have "clock (ticks s1 - 1) \<le> wake (tasks s) u" if "u \<in> set us" for u
  proof -
    have ne: "us \<noteq> []" using that by auto
    then have "clock (ticks s1 - 1) \<le> wake (tasks s) (last us)"
      using w wake0 by (simp add: wakes_def)
    also have "wake (tasks s) (last us) \<le> wake (tasks s) u"
      using q(6) that ne unfolding zs sleep_sorted_def
      by (cases us rule: rev_cases) (auto simp: sorted_wrt_append)
    finally show ?thesis .
  qed
  moreover have "\<exists>k. ticks s \<le> k \<and> k < ticks s1 \<and> wake (tasks s) v < clock k" if "v \<in> set vs" for v
    using w that wake0 calculation(3) by (simp add: wakes_def)
  moreover have "set us \<union> set vs = asleep_set (tasks s)" using q(3) zs by auto
  ultimately show ?thesis by auto
qed

theorem context_switch_wakes_due_tasks_witness:
  "\<exists>nxt s'. do_context_switch (\<lambda>_. 15) 0 0x9000 example_sched = Inr (nxt, s')
     \<and> asleep_set (tasks s') \<subseteq> {1, 2} \<and> 1 \<notin> asleep_set (tasks s')"
proof -
  let ?clock = "\<lambda>_ :: nat. 15 :: u64"
  obtain nxt s' where sw: "do_context_switch ?clock 0 0x9000 example_sched = Inr (nxt, s')"
    using do_context_switch_eq [OF example_sched_inv example_sched_running] by metis
  have zs: "asleep_set (tasks example_sched) = {1, 2}"
    using queues_okD(3) [OF sched_invD(1) [OF example_sched_inv]] by auto
  have "wake (tasks example_sched) 1 = 10" by (simp add: example_sched_def)
  then have "1 \<notin> asleep_set (tasks s')"
    using context_switch_wakes_due_tasks [OF example_sched_inv example_sched_running sw] zs by auto
  then show ?thesis
    using context_switch_wakes_due_tasks [OF example_sched_inv example_sched_running sw] zs sw by auto
qed

text \<open>\<open>sched_sleep\<close> of more than a time slice puts the current task, and no other, to sleep:
  it takes the place in the queue that keeps it sorted by wake-up time, and the invariant holds
  again.\<close>

theorem sched_sleep_keeps_queue_sorted:
  assumes "sched_inv s zs ds" and "tasks_running s c = Some t" and "t \<notin> asleep_set (tasks s)"
    and "t \<notin> dead_set (tasks s)" and "\<not> nanos \<le> TIMESLICE_DEFAULT"
  shows "\<exists>s' us vs. sched_sleep clock c nanos s = Inr s' \<and> zs = us @ vs
    \<and> sched_inv s' (us @ t # vs) ds \<and> wake (tasks s') t = clock (ticks s) + nanos
    \<and> asleep_set (tasks s') = insert t (asleep_set (tasks s)) \<and> sleep_sorted (tasks s') (us @ t # vs)"
proof -
  obtain s' us vs where s': "sched_sleep clock c nanos s = Inr s'" "zs = us @ vs"
      "sched_inv s' (us @ t # vs) ds" "wake (tasks s') t = clock (ticks s) + nanos"
    using sched_sleep_inv [OF assms(1-4,5), of clock] by blast
  have "asleep_set (tasks s') = set (us @ t # vs)" "asleep_set (tasks s) = set zs"
    using queues_okD(3) [OF sched_invD(1) [OF s'(3)]] queues_okD(3) [OF sched_invD(1) [OF assms(1)]]
    by simp_all
  then show ?thesis using s' queues_okD(6) [OF sched_invD(1) [OF s'(3)]] by auto
qed

theorem sched_sleep_keeps_queue_sorted_witness:
  "\<exists>s'. sched_sleep (\<lambda>_. 15) 0 0x200000 example_sched = Inr s' \<and> asleep_set (tasks s') = {0, 1, 2}"
proof -
  have zs: "asleep_set (tasks example_sched) = {1, 2}" "dead_set (tasks example_sched) = {}"
    using queues_okD(3) [OF sched_invD(1) [OF example_sched_inv]]
    by (auto simp: flagged_alt example_sched_def split: if_splits)
  have "\<not> (0x200000 :: u64) \<le> TIMESLICE_DEFAULT" by (simp add: TIMESLICE_DEFAULT_def)
  from sched_sleep_keeps_queue_sorted [OF example_sched_inv example_sched_running _ _ this, of "\<lambda>_. 15"]
  show ?thesis using zs by auto
qed

section \<open>Where the scheduler breaks\<close>

text \<open>Killing the sleeping task that is due next loses all other sleepers. \<open>sched_kill\<close> pushes
  the task on the queue of dead tasks before it takes it off the queue of sleepers, so its links
  are gone when \<open>tq_remove\<close> looks at them: the dead task stays at the back of the sleepers, and
  once it is popped the queue is empty while the others still sleep.\<close>

theorem kill_of_sleeper_loses_the_others:
  assumes inv: "sched_inv s (us @ [t]) []" and x: "tasks s t = Some x" and t: "t \<in> listed s"
  shows "\<exists>cur s' q h. sched_kill c (tid x) s = Inr (0, cur, s')
    \<and> tq_pop_back (tasks_asleep s') (tasks s') = Inr (Some t, q, h)
    \<and> qfront q = None \<and> qback q = None \<and> set us \<subseteq> asleep_set h"
proof -
  note q = queues_okD [OF sched_invD(1) [OF inv]]
  obtain k where k: "k < unat (tlen (tasks_all s))" "tslots (tasks_all s) k = Slot (Some t)"
    using t by (auto simp: listed_def)
  then have kx: "unat (tid x) = k" using table_invD(3) [OF sched_invD(3) [OF inv] k] x by auto
  have lt: "tid x < tlen (tasks_all s)" using k kx by (simp add: word_less_nat_alt)
  have alloc: "8 * unat (tid x) + 8 \<le> unat (talloc (tasks_all s))"
    using table_invD(1) [OF sched_invD(3) [OF inv]] k kx by simp
  have v: "valid_tid (tid x) (tasks_all s) = Inr (Some t)"
    using lt alloc k kx by (simp add: valid_tid_def table_get_def)
  have empty: "qfront (tasks_dead s) = None" using q(2) by (simp add: tq_rep_def)
  have bk: "qback (tasks_asleep s) = Some t" using q(1) by (simp add: tq_rep_def)
  have "t \<in> asleep_set (tasks s)" using q(3) by auto
  then have st: "bit (status x) 2" using flagged_iff [of "tasks s" t x 2] x by simp
  let ?tab = "(tasks_all s)\<lparr>tslots := (tslots (tasks_all s))(unat (tid x) := Slot None)\<rparr>"
  have tab: "table_set (tid x) None (tasks_all s) = Inr ?tab" using alloc by (simp add: table_set_def)
  let ?y = "x\<lparr>status := status x OR TASK_DEAD, tprev := None, tnext := None\<rparr>"
  let ?w = "?y\<lparr>tnext := None, tprev := None\<rparr>"
  let ?z = "?w\<lparr>status := status ?w AND NOT TASK_ASLEEP\<rparr>"
  have push: "tq_push_front (tasks_dead s) t ((tasks s)(t \<mapsto> x\<lparr>status := status x OR TASK_DEAD\<rparr>))
      = Inr (\<lparr>qfront = Some t, qback = Some t, qlen = qlen (tasks_dead s)\<rparr>, (tasks s)(t \<mapsto> ?y))"
    using empty by (simp add: tq_push_front_def)
  have remove: "tq_remove t (tasks_asleep s) ((tasks s)(t \<mapsto> ?y)) = Inr (tasks_asleep s, (tasks s)(t \<mapsto> ?w))"
    by (simp add: tq_remove_def)
  have "status ?y AND TASK_ASLEEP \<noteq> 0"
    using st by (simp add: bit_iff_and_push_bit_not_eq_0 [symmetric, of _ 2, simplified])
  then have kill: "sched_kill c (tid x) s = Inr (0, tasks_running s c = Some t,
      s\<lparr>tasks := (tasks s)(t \<mapsto> ?z), tasks_all := ?tab,
        tasks_dead := \<lparr>qfront = Some t, qback = Some t, qlen = qlen (tasks_dead s)\<rparr>\<rparr>)"
    (is "_ = Inr (_, _, ?s')")
    using v x tab push remove by (simp add: sched_kill_def)
  have "tq_pop_back (tasks_asleep ?s') (tasks ?s') =
      Inr (Some t, (tasks_asleep s)\<lparr>qback := None, qfront := None\<rparr>, (tasks s)(t \<mapsto> ?z))"
    using bk by (simp add: tq_pop_back_def)
  moreover have "set us \<subseteq> asleep_set ((tasks s)(t \<mapsto> ?z))"
    using q(1,3) by (auto simp: flagged_upd tq_rep_def)
  ultimately show ?thesis using kill by (intro exI conjI) (assumption | simp)+
qed

theorem kill_of_sleeper_loses_the_others_witness:
  "\<exists>cur s' q h. sched_kill 0 1 example_sched = Inr (0, cur, s')
     \<and> tq_pop_back (tasks_asleep s') (tasks s') = Inr (Some 1, q, h) \<and> qback q = None \<and> 2 \<in> asleep_set h"
proof -
  have inv: "sched_inv example_sched ([2] @ [1]) []" using example_sched_inv by simp
  have x: "tasks example_sched 1 = Some (sleeper 1 10 (Some 2) None)" by (simp add: example_sched_def)
  have "1 \<in> listed example_sched" by (auto simp: listed_def example_sched_def intro!: exI [of _ 1])
  from kill_of_sleeper_loses_the_others [OF inv x this, of 0] show ?thesis by auto
qed

text \<open>C23: the janitor frees a killed task that is still running, as a task that killed itself is
  until its CPU switches: the next context switch on that CPU then follows a freed pointer.\<close>

theorem janitor_frees_running_task:
  assumes inv: "sched_inv s zs [r]" and run: "tasks_running s c = Some r"
  shows "\<exists>s'. sched_janitor s = Inr s' \<and> do_context_switch clock c st s' = Inl Dangling"
proof -
  note q = queues_okD [OF sched_invD(1) [OF inv]]
  have rep: "tq_rep (tasks s) (tasks_dead s) ([] @ [r])" using q(2) by simp
  obtain x where x: "tasks s r = Some x" using tq_rep_alive [OF q(2), of r] by auto
  obtain q' h' where pop: "tq_pop_back (tasks_dead s) (tasks s) = Inr (Some r, q', h')" "tq_rep h' q' []"
      "links_only {} (tasks s) h'"
    using tq.pop_law [OF rep] by auto
  have hr: "h' r = Some x" using links_only_outside [OF pop(3), of r] x by simp
  let ?tab = "(tasks_all s)\<lparr>tslots := (tslots (tasks_all s))(unat (tid x) := Slot None)\<rparr>"
  let ?s' = "s\<lparr>tasks := h'(r := None), tasks_dead := q', tasks_all := ?tab\<rparr>"
  have "table_set (tid x) None (tasks_all s) = Inr ?tab"
    by (rule table_set_ok [OF sched_invD(3) [OF inv] in_table(3) [OF inv x]]) simp
  then have "reap_loop s = reap_loop ?s'" using pop(1) hr by (subst reap_loop.simps) simp
  moreover have "tq_pop_back (tasks_dead ?s') (tasks ?s') = Inr (None, q', h'(r := None))"
    using pop(2) by (simp add: tq_pop_back_def tq_rep_def)
  then have "reap_loop ?s' = Some (Inr ?s')" by (subst reap_loop.simps) simp
  ultimately have "sched_janitor s = Inr ?s'" by (simp add: sched_janitor_def)
  moreover have "do_context_switch clock c st ?s' = Inl Dangling"
    using run by (simp add: do_context_switch_def)
  ultimately show ?thesis by blast
qed

text \<open>The example, after CPU 0 switched to task 3 and that killed itself.\<close>

definition example_suicide :: sched where
  "example_suicide = example_sched
     \<lparr>tasks := (tasks example_sched)(3 \<mapsto> (example_task 3)\<lparr>status := 9\<rparr>),
      tasks_running := [0 \<mapsto> 3],
      tasks_all := (tasks_all example_sched)\<lparr>tslots := (tslots (tasks_all example_sched))(3 := Slot None)\<rparr>,
      tasks_dead := \<lparr>qfront = Some 3, qback = Some 3, qlen = 0\<rparr>\<rparr>"

lemma example_suicide_inv: "sched_inv example_suicide [2, 1] [3]"
proof -
  let ?s = example_suicide
  have old: "tasks example_sched 3 = Some (example_task 3)" by (simp add: example_sched_def)
  note inv = sched_invD [OF example_sched_inv]
  have awake: "3 \<notin> asleep_set (tasks example_sched)" using old by (simp add: flagged_alt)
  then have fl: "asleep_set (tasks ?s) = asleep_set (tasks example_sched)" "3 \<in> dead_set (tasks ?s)"
      "3 \<in> running_set (tasks ?s)"
    by (simp_all add: example_suicide_def flagged_upd)
  have "tq_rep (tasks ?s) (tasks_asleep ?s) [2, 1]" "sleep_sorted (tasks ?s) [2, 1]"
    using queues_okD(1,6) [OF inv(1)] by (simp_all add: example_suicide_def sleep_sorted_def)
  moreover have "tq_rep (tasks ?s) (tasks_dead ?s) [3]"
    by (simp add: example_suicide_def tq_rep_def example_task_def)
  ultimately have queues: "queues_ok ?s [2, 1] [3]"
    using queues_okD(3) [OF inv(1)] fl(1,2) awake by (simp add: queues_ok_def)
  have cpus: "cpus_ok ?s"
    unfolding cpus_ok_def using fl(3) by (auto simp: example_suicide_def example_sched_def)
  have table: "table_inv ?s"
  proof (rule table_inv_clear [OF inv(3), where k = 3])
    show "\<exists>z. tasks example_sched r = Some z \<and> tid y = tid z" if "tasks ?s r = Some y" for r y
      using that old by (auto simp: example_suicide_def split: if_splits)
    show "\<exists>y. tasks ?s r = Some y \<and> tid y = tid z" if "tasks example_sched r = Some z" for r z
      using that old by (auto simp: example_suicide_def)
  qed (simp_all add: example_suicide_def)
  have "loose ?s = {}" by (auto simp: loose_def example_suicide_def example_sched_def split: if_splits)
  moreover have "listed ?s \<subseteq> {1, 2}"
    by (auto simp: listed_def example_suicide_def example_sched_def split: if_splits)
  then have "0 \<notin> listed ?s" "3 \<notin> listed ?s" by auto
  ultimately show ?thesis
    using queues cpus table by (simp add: sched_inv_def) (simp add: example_suicide_def example_sched_def)
qed

theorem janitor_frees_running_task_witness:
  "\<exists>s'. sched_janitor example_suicide = Inr s' \<and> do_context_switch (\<lambda>_. 15) 0 0x9000 s' = Inl Dangling"
  by (rule janitor_frees_running_task [OF example_suicide_inv]) (simp add: example_suicide_def)

text \<open>C35: the first hazard is real. \<open>sched_init\<close> takes the idle task of its processor out of the table without holding
  the lock; when another processor switches in between it may choose that idle task, and then both run it, on one
  kernel stack.\<close>

theorem startup_race_runs_task_twice:
  "\<exists>H w r. history clock H w \<and> H = {Startup_Disturbed}
     \<and> tasks_running (sch w) 0 = Some r \<and> tasks_running (sch w) 1 = Some r"
proof -
  have wake: "wake_loop clock s = Some (Inr s)" if "qback (tasks_asleep s) = None" for s
    using that by (subst wake_loop.simps) simp
  have found: "find_ready 1 2 s = Inr (Some r)"
    if "table_get 1 (tasks_all s) = Inr (Some r)" "tasks s r = Some x" "status x = TASK_READY" for s r x
    using that by (subst find_ready.simps) simp
  note defs = enabled_def one_started_def two_starting_def boot_world_def boot_sched_def task_make_def Let_def TID_MAX_def
    example_new_def sched_add_def table_resize_def table_set_def table_get_def example_task_def empty_queue_def
  have "steps clock [Start 1 0 example_new, Go_On 1 example_new] one_started = Inr ({}, two_starting)"
    by (simp add: defs all_hazards)
  from history_steps [OF this one_started_history] have h1: "history clock {} two_starting" by simp
  let ?e = "Switch 0 0x9000"
  have disturbed: "hazards ?e two_starting = {Startup_Disturbed}"
  proof -
    have "occurs Startup_Disturbed ?e two_starting" by (auto simp: defs intro!: exI [of _ 1])
    moreover have "\<not> occurs h ?e two_starting" if "h \<noteq> Startup_Disturbed" for h
      using that by (cases h) simp_all
    ultimately show ?thesis unfolding hazards_def by blast
  qed
  have en: "enabled ?e two_starting" by (simp add: defs)
  obtain w2 where sw: "sched_do clock ?e two_starting = Inr w2"
    and w2: "\<exists>w. steps clock [Go_On 1 example_new, Go_On 1 example_new] w2 = Inr ({}, w)
      \<and> tasks_running (sch w) 0 = Some 1 \<and> tasks_running (sch w) 1 = Some 1"
    by (simp add: defs do_context_switch_def wake found all_hazards)
  then obtain w where "steps clock [Go_On 1 example_new, Go_On 1 example_new] w2 = Inr ({}, w)"
      "tasks_running (sch w) 0 = Some 1" "tasks_running (sch w) 1 = Some 1" by blast
  with history_steps [OF this(1) history.step [OF h1 en sw]] disturbed show ?thesis
    by (intro exI [of _ "{Startup_Disturbed}"] exI [of _ w] exI [of _ 1]) simp
qed

end
