(* ===== verification/Preempt.thy ===== *)
theory Preempt
  imports SchedProps Smp CpuProps
begin

text \<open>
  The time slices: the parts of \<open>kernel/proc/sched/sched.c\<close> that program the timer of the interrupt controller,
  over the state of the scheduler and that of the controller of the processor that runs them. The address of
  the handler (\<open>init_context_switch\<close>, assembly) is a parameter. The timer itself counts down once from what was
  written last to its count register, and interrupts when it gets to 0; until the end of an interrupt is
  signalled no other is delivered.
\<close>

section \<open>Operations\<close>

text \<open>A switch ends with the next time slice programmed and the interrupt acknowledged.\<close>

definition context_switch :: "(nat \<Rightarrow> u64) \<Rightarrow> nat \<Rightarrow> u64 \<Rightarrow> sched \<times> apic_state \<Rightarrow> (task_ref \<times> sched \<times> apic_state) result" where
  "context_switch clock cpu state = (\<lambda>(s, a).
     and_then (do_context_switch clock cpu state s) (\<lambda>(nxt, s).
     and_then (apic_timer_set_period TIMESLICE_DEFAULT a) (\<lambda>a.
       Inr (nxt, s, apic_send_eoi a))))"

definition start_timeslices :: "u64 \<Rightarrow> apic_state \<Rightarrow> apic_state result" where
  "start_timeslices switch_addr a =
     and_then (apic_timer_set_period TIMESLICE_DEFAULT a) (\<lambda>a.
       let a = apic_timer_set_mode APIC_TIMER_MODE_ONESHOT a;
           a = apic_timer_set_handler switch_addr a
       in Inr (apic_timer_start a))"

text \<open>\<open>sched_init\<close> in full: the tasks, the message of the first processor, and the timer.\<close>

definition sched_start :: "u64 \<Rightarrow> u64 \<Rightarrow> u64 \<Rightarrow> nat \<Rightarrow> u64 \<Rightarrow> fresh_task \<times> fresh_task \<times> fresh_task \<Rightarrow>
    sched \<times> apic_state \<times> klog \<Rightarrow> (sched \<times> apic_state \<times> klog) result" where
  "sched_start switch_addr idle janitor cpu first new = (\<lambda>(s, a, k).
     and_then (sched_init idle janitor cpu first new s) (\<lambda>s.
     and_then (if first \<noteq> 0 then klog_from LOG_SUCCESS ''sched_init'' (bytes ''started on bsp'' @ [10]) [] k else Inr k) (\<lambda>k.
     and_then (start_timeslices switch_addr a) (\<lambda>a. Inr (s, a, k)))))"

text \<open>The whole entry of an application processor.\<close>

definition ap_entry :: "cpuid_table \<Rightarrow> smp_env \<Rightarrow> u64 \<Rightarrow> u64 \<Rightarrow> u64 \<Rightarrow> nat \<Rightarrow> fresh_task \<times> fresh_task \<times> fresh_task \<Rightarrow>
    sched \<times> cpu_regs \<times> smp \<Rightarrow> (sched \<times> cpu_regs \<times> smp) result" where
  "ap_entry cpuid env switch_addr idle janitor n new = (\<lambda>(s, c, p).
     and_then (smp_ap_entrypoint cpuid env n (c, p)) (\<lambda>(c, p).
     and_then (sched_start switch_addr idle janitor n 0 new (s, smp_apic p, smp_log p)) (\<lambda>(s, a, k).
       Inr (s, c, p\<lparr>smp_apic := a, smp_log := k\<rparr>))))"

section \<open>The timer as it runs\<close>

text \<open>The ticks that are left, whether an interrupt is requested, and whether one is being served.\<close>

record lapic_timer =
  ticks_left :: nat
  requested :: bool
  serving :: bool

text \<open>A tick of the clock. At 0 a one-shot timer stays there; a periodic one (bit 17 of its entry of the vector
  table) starts again. A masked timer (bit 16) requests nothing.\<close>

definition timer_tick :: "apic_state \<Rightarrow> lapic_timer \<Rightarrow> lapic_timer" where
  "timer_tick a t =
     (case ticks_left t of
        0 \<Rightarrow> t
      | Suc n \<Rightarrow> t\<lparr>ticks_left := (if n = 0 \<and> bit (lapic_regs a APIC_REG_TIMER_LVT) 17
                                then unat (lapic_regs a APIC_REG_TIMER_ICR) else n),
                  requested := requested t \<or> n = 0 \<and> \<not> bit (lapic_regs a APIC_REG_TIMER_LVT) 16\<rparr>)"

text \<open>How the timer answers the registers the processor has written since.\<close>

definition timer_written :: "u16 \<times> u32 \<Rightarrow> lapic_timer \<Rightarrow> lapic_timer" where
  "timer_written = (\<lambda>(r, v) t.
     if r = APIC_REG_TIMER_ICR then t\<lparr>ticks_left := unat v\<rparr>
     else if r = APIC_REG_EOI then t\<lparr>serving := False\<rparr>
     else t)"

definition timer_sees :: "apic_state \<Rightarrow> apic_state \<Rightarrow> lapic_timer \<Rightarrow> lapic_timer" where
  "timer_sees a a' t = fold timer_written (drop (length (lapic_writes a)) (lapic_writes a')) t"

text \<open>
  What happens on a started processor \<open>cpu\<close>: ticks of its timer, its switches, which a delivered interrupt starts,
  and between them any steps of the scheduler, by any processor, that are no hazard; \<open>n\<close> counts the switches.
\<close>

inductive time_slices :: "(nat \<Rightarrow> u64) \<Rightarrow> nat \<Rightarrow> world \<times> apic_state \<times> lapic_timer \<Rightarrow>
    nat \<Rightarrow> world \<Rightarrow> apic_state \<Rightarrow> lapic_timer \<Rightarrow> bool"
  for clock cpu st where
  started: "st = (w, a, t) \<Longrightarrow> time_slices clock cpu st 0 w a t"
| others: "time_slices clock cpu st n w a t \<Longrightarrow> enabled e w \<Longrightarrow> hazards e w = {} \<Longrightarrow> sched_do clock e w = Inr w' \<Longrightarrow>
    time_slices clock cpu st n w' a t"
| tick: "time_slices clock cpu st n w a t \<Longrightarrow> time_slices clock cpu st n w a (timer_tick a t)"
| switched: "time_slices clock cpu st n w a t \<Longrightarrow> requested t \<Longrightarrow> \<not> serving t \<Longrightarrow> hazards (Switch cpu state) w = {} \<Longrightarrow>
    context_switch clock cpu state (sch w, a) = Inr (nxt, s', a') \<Longrightarrow>
    time_slices clock cpu st (Suc n) (w\<lparr>sch := s'\<rparr>) a' (timer_sees a a' (t\<lparr>requested := False, serving := True\<rparr>))"

section \<open>The timer\<close>

text \<open>The state \<open>apic_timer_init\<close> and \<open>apic_timer_enable\<close> leave, on a bus fast enough for a count of a time slice.\<close>

definition timer_ready :: "apic_state \<Rightarrow> bool" where
  "timer_ready a \<longleftrightarrow> lapic_regs a APIC_REG_TIMER_LVT = APIC_TIMER_FLAG_MASKED OR ucast (timer_vector a)
     \<and> divisor a = 4 \<and> 2000 \<le> unat (base_freq a) \<and> unat (base_freq a) < 2 ^ 32"

text \<open>The timer will interrupt once: its entry of the vector table is neither masked nor periodic, its vector has the
  handler, and it counts down from a number of ticks that is not zero.\<close>

definition armed :: "u64 \<Rightarrow> apic_state \<Rightarrow> bool" where
  "armed h a \<longleftrightarrow> lapic_regs a APIC_REG_TIMER_LVT = ucast (timer_vector a)
     \<and> gate_handler (IDT (idt a) (timer_vector a)) = h
     \<and> lapic_regs a APIC_REG_TIMER_ICR = ucast (base_freq a div 2000)
     \<and> divisor a = 4 \<and> 2000 \<le> unat (base_freq a) \<and> unat (base_freq a) < 2 ^ 32"

definition acknowledged :: "apic_state \<Rightarrow> nat" where
  "acknowledged a = length (filter (\<lambda>w. w = (APIC_REG_EOI, 1)) (lapic_writes a))"

lemma slice_period:
  assumes "divisor a = 4"
  shows "apic_timer_set_period TIMESLICE_DEFAULT a = Inr (apic_write_reg APIC_REG_TIMER_ICR (ucast (base_freq a div 2000)) a)"
  using assms by (simp add: apic_timer_set_period_def apic_timer_set_frequency_def TIMESLICE_DEFAULT_def Let_def)

lemma flag_bits: "bit APIC_TIMER_FLAG_MASKED n \<longleftrightarrow> n = 16" "bit APIC_TIMER_FLAG_PERIODIC n \<longleftrightarrow> n = 17"
  unfolding APIC_TIMER_FLAG_MASKED_def APIC_TIMER_FLAG_PERIODIC_def by (simp_all only: bit_push_bit_iff bit_1_iff) auto

lemma vector_flags:
  "((APIC_TIMER_FLAG_MASKED OR ucast (v :: u8)) AND NOT APIC_TIMER_FLAG_PERIODIC) AND NOT APIC_TIMER_FLAG_MASKED = ucast v"
  by (rule bit_word_eqI) (auto simp: bit_simps flag_bits dest: bit_imp_le_length)

lemmas timer_regs = APIC_REG_TIMER_ICR_def APIC_REG_TIMER_LVT_def APIC_REG_EOI_def

text \<open>The ticks of a time slice.\<close>

definition slice_ticks :: "apic_state \<Rightarrow> nat" where
  "slice_ticks a = unat (base_freq a) div 2000"

lemma slice_count:
  assumes "2000 \<le> unat (base_freq a)" and "unat (base_freq a) < 2 ^ 32"
  shows "unat (ucast (base_freq a div 2000) :: u32) = slice_ticks a" and "0 < slice_ticks a"
proof -
  have "unat (base_freq a) div 2000 < 2 ^ 32" using assms(2) div_le_dividend le_less_trans by blast
  then show "unat (ucast (base_freq a div 2000) :: u32) = slice_ticks a"
    by (simp add: unsigned_ucast_eq unat_div take_bit_nat_eq_self slice_ticks_def)
  show "0 < slice_ticks a" using assms(1) by (simp add: slice_ticks_def div_greater_zero_iff)
qed

lemma start_armed:
  assumes "timer_ready a"
  obtains a' where "start_timeslices h a = Inr a'" and "armed h a'" and "base_freq a' = base_freq a"
    and "timer_sees a a' t = t\<lparr>ticks_left := slice_ticks a\<rparr>"
proof -
  have d: "divisor a = 4" and lvt: "lapic_regs a APIC_REG_TIMER_LVT = APIC_TIMER_FLAG_MASKED OR ucast (timer_vector a)"
    using assms by (simp_all add: timer_ready_def)
  let ?a1 = "apic_write_reg APIC_REG_TIMER_ICR (ucast (base_freq a div 2000)) a"
  let ?a' = "apic_timer_start (apic_timer_set_handler h (apic_timer_set_mode APIC_TIMER_MODE_ONESHOT ?a1))"
  note defs = apic_timer_set_mode_def apic_timer_start_def apic_timer_set_handler_def idt_set_handler_def apic_write_reg_def
    apic_read_reg_def timer_regs Let_def
  have "lapic_regs ?a' APIC_REG_TIMER_LVT = ucast (timer_vector a)" "lapic_regs ?a' APIC_REG_TIMER_ICR = ucast (base_freq a div 2000)"
    using lvt vector_flags [of "timer_vector a"] by (simp_all add: defs)
  moreover have "timer_vector ?a' = timer_vector a" "base_freq ?a' = base_freq a" "divisor ?a' = 4"
    "IDT (idt ?a') (timer_vector a) = idt_make_entry h False" using d by (simp_all add: defs)
  ultimately have "armed h ?a'" using assms by (simp add: armed_def timer_ready_def gate_handler_back)
  moreover have "start_timeslices h a = Inr ?a'" by (simp add: start_timeslices_def slice_period [OF d] Let_def)
  moreover have "timer_sees a ?a' t = t\<lparr>ticks_left := slice_ticks a\<rparr>"
    using slice_count(1) [of a] assms by (simp add: timer_sees_def timer_written_def timer_ready_def defs)
  ultimately show thesis using that \<open>base_freq ?a' = base_freq a\<close> by blast
qed

text \<open>The calibration of the boot processor gets the timer ready, when the bus makes at least 250 ticks of the divided
  clock in half a second, and not so many that the 32 bits overflow.\<close>

lemma timer_init_ready:
  assumes "apic_timer_init handler (0xffffffff - n) a k = Inr (a', k')" and "250 \<le> unat n" and "unat n * 8 < 2 ^ 32"
  shows "timer_ready a'"
proof -
  have "lapic_regs a' APIC_REG_TIMER_LVT = APIC_TIMER_FLAG_MASKED OR ucast (timer_vector a')"
    using assms(1)
    by (auto simp: apic_timer_init_def Let_def and_then_eq_Inr apic_write_reg_def apic_read_reg_def
        APIC_REG_TIMER_CCR_def APIC_REG_TIMER_DCR_def timer_regs split: prod.splits)
  then show ?thesis using calibrated [OF assms(1,3)] assms(2,3) by (simp add: timer_ready_def)
qed

text \<open>An application processor uses the calibration of the boot processor.\<close>

lemma timer_enable_ready:
  assumes "divisor a = 4" and "2000 \<le> unat (base_freq a)" and "unat (base_freq a) < 2 ^ 32"
  shows "timer_ready (apic_timer_enable a)"
  using assms by (simp add: timer_ready_def apic_timer_enable_def apic_write_reg_def APIC_REG_TIMER_DCR_def timer_regs)

lemma switch_armed:
  assumes "armed h a"
  obtains a' where "apic_timer_set_period TIMESLICE_DEFAULT a = Inr a'" and "armed h (apic_send_eoi a')"
    and "acknowledged (apic_send_eoi a') = acknowledged a + 1" and "base_freq (apic_send_eoi a') = base_freq a"
    and "timer_sees a (apic_send_eoi a') t = t\<lparr>ticks_left := slice_ticks a, serving := False\<rparr>"
proof -
  have "divisor a = 4" using assms by (simp add: armed_def)
  moreover have "unat (ucast (base_freq a div 2000) :: u32) = slice_ticks a"
    using slice_count(1) [of a] assms by (simp add: armed_def)
  ultimately show thesis
    by (intro that [OF slice_period])
      (use assms in \<open>simp_all add: armed_def acknowledged_def apic_send_eoi_def apic_write_reg_def timer_sees_def
        timer_written_def timer_regs\<close>)
qed

text \<open>An armed timer requests its interrupt after the ticks that are left, and not before.\<close>

lemma armed_tick:
  assumes "armed h a"
  shows "ticks_left (timer_tick a t) = ticks_left t - 1"
    and "requested (timer_tick a t) \<longleftrightarrow> requested t \<or> ticks_left t = 1"
    and "serving (timer_tick a t) = serving t"
proof -
  have "lapic_regs a APIC_REG_TIMER_LVT = ucast (timer_vector a)" using assms by (simp add: armed_def)
  then have "\<not> bit (lapic_regs a APIC_REG_TIMER_LVT) 16" "\<not> bit (lapic_regs a APIC_REG_TIMER_LVT) 17"
    by (simp_all add: bit_ucast_iff) (auto dest: bit_imp_le_length)
  then show "ticks_left (timer_tick a t) = ticks_left t - 1"
    "requested (timer_tick a t) \<longleftrightarrow> requested t \<or> ticks_left t = 1" "serving (timer_tick a t) = serving t"
    by (auto simp: timer_tick_def split: nat.split)
qed

lemma armed_fires:
  assumes "armed h a" and "0 < ticks_left t"
  shows "requested ((timer_tick a ^^ k) t) \<longleftrightarrow> requested t \<or> ticks_left t \<le> k"
proof -
  have "ticks_left ((timer_tick a ^^ k) t) = ticks_left t - k"
    by (induction k) (simp_all add: armed_tick(1) [OF assms(1)])
  note left = this
  show ?thesis
  proof (induction k)
    case (Suc k)
    have "ticks_left ((timer_tick a ^^ k) t) = ticks_left t - k" for k
      by (induction k) (simp_all add: armed_tick(1) [OF assms(1)])
    then show ?case using Suc by (auto simp: armed_tick(2) [OF assms(1)])
  qed (use assms(2) in simp)
qed

section \<open>The scheduler\<close>

text \<open>No step takes a processor off once it is up.\<close>

lemma stays_up:
  assumes "enabled e w" and "sched_do clock e w = Inr w'" and "phase w c = Up"
  shows "phase w' c = Up"
proof (cases e)
  case (Go_On d new)
  then have "d \<noteq> c" using assms(1,3) by (auto simp: enabled_def)
  then show ?thesis
    using Go_On assms(2,3) by (cases "phase w d") (auto elim!: and_then_InrE split: prod.splits option.splits)
next
  case (Start d f new)
  then have "d \<noteq> c" using assms(1,3) by (auto simp: enabled_def)
  then show ?thesis using Start assms(2,3) by (auto split: prod.splits option.splits)
qed (use assms(2,3) in \<open>auto elim!: and_then_InrE split: prod.splits option.splits\<close>)

lemma switch_steps:
  assumes inv: "world_inv w" and up: "phase w c = Up" and safe: "hazards (Switch c st) w = {}"
  obtains nxt s' where "do_context_switch clock c st (sch w) = Inr (nxt, s')" and "world_inv (w\<lparr>sch := s'\<rparr>)"
proof -
  have ok: "phases_ok w" using inv by (simp add: world_inv_def)
  have "c < CPU_MAX" using phases_okD(1) [OF ok, of c] up by (cases "c < CPU_MAX") auto
  then have "enabled (Switch c st) w" using up by (simp add: enabled_def)
  from world_step [OF inv this safe, of clock] obtain w' where "sched_do clock (Switch c st) w = Inr w'" "world_inv w'" by auto
  then show thesis using that by (auto elim!: and_then_InrE)
qed

text \<open>What holds of the processor and its timer at any time.\<close>

definition sliced :: "nat \<Rightarrow> u64 \<Rightarrow> apic_state \<Rightarrow> nat \<Rightarrow> world \<Rightarrow> apic_state \<Rightarrow> lapic_timer \<Rightarrow> bool" where
  "sliced c h a0 n w a t \<longleftrightarrow> world_inv w \<and> phase w c = Up \<and> armed h a \<and> base_freq a = base_freq a0
     \<and> acknowledged a = acknowledged a0 + n \<and> \<not> serving t \<and> ticks_left t \<le> slice_ticks a0
     \<and> (requested t \<or> 0 < ticks_left t)"

lemma slices_keep:
  assumes "time_slices clock c (w0, a0, t0) n w a t" and "sliced c h a0 0 w0 a0 t0"
  shows "sliced c h a0 n w a t"
  using assms(1)
proof (induction rule: time_slices.induct)
  case (started w a t)
  then show ?case using assms(2) by simp
next
  case (others n w a t e w')
  then have "world_inv w'" using world_step [of w e clock] by (auto simp: sliced_def)
  then show ?case using others stays_up [OF others.hyps(2,4)] by (simp add: sliced_def)
next
  case (tick n w a t)
  then have "armed h a" by (simp add: sliced_def)
  then show ?case using tick.IH armed_tick [of h a t] by (auto simp: sliced_def)
next
  case (switched n w a t state nxt s' a')
  note was = switched.IH [unfolded sliced_def]
  obtain nx s1 where s1: "do_context_switch clock c state (sch w) = Inr (nx, s1)" "world_inv (w\<lparr>sch := s1\<rparr>)"
    by (rule switch_steps [of w c state clock]) (use was switched.hyps(4) in auto)
  obtain a1 where a1: "apic_timer_set_period TIMESLICE_DEFAULT a = Inr a1" "armed h (apic_send_eoi a1)"
    "acknowledged (apic_send_eoi a1) = acknowledged a + 1" "base_freq (apic_send_eoi a1) = base_freq a"
    "timer_sees a (apic_send_eoi a1) (t\<lparr>requested := False, serving := True\<rparr>)
      = t\<lparr>requested := False, serving := True\<rparr>\<lparr>ticks_left := slice_ticks a, serving := False\<rparr>"
    by (rule switch_armed [of h a "t\<lparr>requested := False, serving := True\<rparr>"]) (use was in blast)
  have eq: "s' = s1" "a' = apic_send_eoi a1" using switched.hyps(5) s1(1) a1(1) by (simp_all add: context_switch_def)
  have "slice_ticks a = slice_ticks a0" using was by (simp add: slice_ticks_def)
  moreover have "0 < slice_ticks a" by (rule slice_count(2)) (use was in \<open>auto simp: armed_def\<close>)
  ultimately show ?case using was s1(2) a1 unfolding eq sliced_def by simp
qed

text \<open>C5: once a processor has started the scheduler it is preempted for ever. The start returns; and whatever ticks of its
  timer, switches of its own and steps of the other processors follow, without a hazard: if no interrupt is requested, the timer
  requests one after exactly the ticks that are left, which are at most those of a slice of 2 ms; no interrupt is still
  being served, so that it is delivered; the vector leads to the handler that switches tasks; the switch returns, and programs
  the ticks of a whole slice again; and as many interrupts as there were switches have been acknowledged.\<close>

theorem time_slices_go_on:
  assumes "history clock {} w" and off: "phase w c = Off" "c < CPU_MAX" and alone: "hazards (Start c first n1) w = {}"
    and settled: "tlen (tasks_all (sch w)) = curr_tid (sch w)" and room: "unat (curr_tid (sch w)) + 2 \<le> 65536"
    and timer: "timer_ready a" "\<not> serving t" and buf: "length (tmpbuf k) = 65"
  shows "\<exists>s0 a0 k0. sched_start h idle janitor c first new (sch w, a, k) = Inr (s0, a0, k0)
    \<and> (\<forall>n w' a' t'. time_slices clock c (at_phase c Up (w\<lparr>sch := s0\<rparr>), a0, timer_sees a a0 t) n w' a' t' \<longrightarrow>
        (\<not> requested t' \<longrightarrow> 0 < ticks_left t' \<and> (\<forall>m. requested ((timer_tick a' ^^ m) t') \<longleftrightarrow> ticks_left t' \<le> m))
        \<and> ticks_left t' \<le> slice_ticks a \<and> \<not> serving t' \<and> armed h a' \<and> acknowledged a' = acknowledged a0 + n
        \<and> (\<forall>st. hazards (Switch c st) w' = {} \<longrightarrow>
             (\<exists>nxt s'' a''. context_switch clock c st (sch w', a') = Inr (nxt, s'', a'')
                \<and> ticks_left (timer_sees a' a'' t') = slice_ticks a)))"
proof -
  have inv: "world_inv w" by (rule history_inv [OF assms(1) refl])
  have ok: "phases_ok w" using inv by (simp add: world_inv_def)
  have no_startup: "\<not> occurs Startup_Disturbed (Start c first n1) w" using alone by simp
  have quiet: "\<not> exposed (phase w d)" for d
  proof
    assume d: "exposed (phase w d)"
    then have "d < CPU_MAX" using phases_okD(1) [OF ok, of d] by (metis exposed.simps(1) not_le)
    then have "d = c" using no_startup d by auto
    then show False using off d by simp
  qed
  then obtain zs ds where si: "sched_inv (sch w) zs ds" using inv unfolding world_inv_def by blast
  have run: "tasks_running (sch w) c = None"
    using phases_okD(6) [OF ok, of c] off by (cases "tasks_running (sch w) c") auto
  obtain s0 where s0: "sched_init idle janitor c first new (sch w) = Inr s0" "sched_inv s0 zs ds"
      "tasks_running s0 = (tasks_running (sch w))(c := Some (fresh (sch w)))"
    using sched_init_inv [OF si room settled run, of idle janitor first new] by auto
  have msg: "format_text (bytes ''started on bsp'' @ [10]) [] = Inr (bytes ''started on bsp'' @ [10])" by (simp add: bytes_def)
  obtain k0 where k0: "(if first \<noteq> 0 then klog_from LOG_SUCCESS ''sched_init'' (bytes ''started on bsp'' @ [10]) [] k else Inr k) = Inr k0"
    using from_printed [OF buf msg, of LOG_SUCCESS "''sched_init''"] by (cases "first = 0") auto
  obtain a0 where a0: "start_timeslices h a = Inr a0" "armed h a0" "base_freq a0 = base_freq a"
      "timer_sees a a0 t = t\<lparr>ticks_left := slice_ticks a\<rparr>"
    by (rule start_armed [OF timer(1)])
  have start: "sched_start h idle janitor c first new (sch w, a, k) = Inr (s0, a0, k0)"
    unfolding sched_start_def using s0(1) k0 a0(1) by simp
  let ?w0 = "at_phase c Up (w\<lparr>sch := s0\<rparr>)"
  have slice: "slice_ticks a0 = slice_ticks a" "0 < slice_ticks a"
    using a0(2,3) slice_count(2) [of a] by (simp_all add: slice_ticks_def armed_def)
  have "phases_ok ?w0"
    by (rule phases_move [OF ok _ _ off(2)]) (use settled_loose [OF si settled] s0(3) in auto)
  then have "world_inv ?w0" by (rule world_invI) (use quiet s0(2) in auto)
  then have go: "sliced c h a0 0 ?w0 a0 (timer_sees a a0 t)"
    using a0 slice timer(2) by (simp add: sliced_def)
  have rest: "(\<not> requested t' \<longrightarrow> 0 < ticks_left t' \<and> (\<forall>m. requested ((timer_tick a' ^^ m) t') \<longleftrightarrow> ticks_left t' \<le> m))
        \<and> ticks_left t' \<le> slice_ticks a \<and> \<not> serving t' \<and> armed h a' \<and> acknowledged a' = acknowledged a0 + n
        \<and> (\<forall>st. hazards (Switch c st) w' = {} \<longrightarrow>
             (\<exists>nxt s'' a''. context_switch clock c st (sch w', a') = Inr (nxt, s'', a'')
                \<and> ticks_left (timer_sees a' a'' t') = slice_ticks a))"
    if on: "time_slices clock c (?w0, a0, timer_sees a a0 t) n w' a' t'" for n w' a' t'
  proof -
    note keep = slices_keep [OF on go, unfolded sliced_def]
    have "\<exists>nxt s'' a''. context_switch clock c st (sch w', a') = Inr (nxt, s'', a'')
        \<and> ticks_left (timer_sees a' a'' t') = slice_ticks a" if safe: "hazards (Switch c st) w' = {}" for st
    proof -
      obtain nx s1 where "do_context_switch clock c st (sch w') = Inr (nx, s1)"
        by (rule switch_steps [OF _ _ safe, where clock = clock]) (use keep in auto)
      moreover obtain a1 where "apic_timer_set_period TIMESLICE_DEFAULT a' = Inr a1"
        "timer_sees a' (apic_send_eoi a1) t' = t'\<lparr>ticks_left := slice_ticks a', serving := False\<rparr>"
        by (rule switch_armed [of h a' t']) (use keep in blast)
      moreover have "slice_ticks a' = slice_ticks a" using keep a0(3) by (simp add: slice_ticks_def)
      ultimately show ?thesis by (simp add: context_switch_def)
    qed
    then show ?thesis using keep armed_fires [of h a' t'] slice(1) by auto
  qed
  show ?thesis by (intro exI [of _ s0] exI [of _ a0] exI [of _ k0] conjI [OF start] allI impI) (erule rest)
qed

theorem time_slices_go_on_witness:
  "\<exists>s0 a0 k0. sched_start 0x4000 0x1000 0x2000 0 0x3000 (undefined, undefined, undefined)
      (boot_sched (\<lambda>_. undefined), timer_example\<lparr>lapic_regs := (\<lambda>_. APIC_TIMER_FLAG_MASKED OR 61)\<rparr>, empty_klog) = Inr (s0, a0, k0)
    \<and> (\<exists>r. context_switch (\<lambda>k. of_nat k) 0 0x9000 (s0, a0) = Inr r)"
proof -
  let ?w = "boot_world (\<lambda>_. undefined) 0x1000 0x2000"
  let ?a = "timer_example\<lparr>lapic_regs := (\<lambda>_. APIC_TIMER_FLAG_MASKED OR 61)\<rparr>"
  let ?t = "\<lparr>ticks_left = 0, requested = False, serving = False\<rparr>"
  have ready: "timer_ready ?a" by (simp add: timer_ready_def timer_example_def)
  have boot: "phase ?w 0 = Off" "hazards (Start 0 0x3000 example_new) ?w = {}"
      "tlen (tasks_all (sch ?w)) = curr_tid (sch ?w)" "unat (curr_tid (sch ?w)) + 2 \<le> 65536"
    by (simp_all add: boot_world_def boot_sched_def all_hazards TID_MAX_def)
  have idle: "\<not> serving ?t" and cpu: "(0 :: nat) < CPU_MAX" by simp_all
  note go = time_slices_go_on [OF history.boot boot(1) cpu boot(2-4) ready idle empty_klog_tmpbuf, where clock = "\<lambda>k. of_nat k"
        and h = "0x4000" and idle = "0x1000" and janitor = "0x2000" and new = "(undefined, undefined, undefined)"]
  show ?thesis
    using go
  proof (elim exE conjE, goal_cases)
    case (1 s0 a0 k0)
    have safe: "hazards (Switch 0 0x9000) (at_phase 0 Up (?w\<lparr>sch := s0\<rparr>)) = {}"
      by (simp add: all_hazards boot_world_def)
    from 1(2) [rule_format, OF time_slices.started [OF refl]]
    have "hazards (Switch 0 0x9000) (at_phase 0 Up (?w\<lparr>sch := s0\<rparr>)) = {} \<longrightarrow>
        (\<exists>r. context_switch (\<lambda>k. of_nat k) 0 0x9000 (s0, a0) = Inr r)"
      by (simp del: no_hazard) blast
    with safe show ?case using 1(1) by (auto simp: boot_world_def)
  qed
qed

end
