(* ===== verification/Panic.thy ===== *)
theory Panic
  imports Apic Terminal Ports
begin

text \<open>
  \<open>kernel/sys/panic.c\<close>, \<open>exc_handler.c\<close> and \<open>syscall.c\<close>: the symbol table, the stack trace and what a panic
  prints before the processor halts. The symbol table is generated by \<open>gensym\<close> at build time, so it is a
  parameter, as are the frame pointer, the address of the handler that halts and what the interval timer
  answers. \<open>panic_lock\<close> is taken and never released.
\<close>

section \<open>Operations\<close>

record symbol =
  sym_addr :: u64
  sym_name :: "u8 list"

abbreviation UINT64_MAX :: u64 where "UINT64_MAX \<equiv> 0xffffffffffffffff"

text \<open>The entry after the current one is read only when the first comparison holds.\<close>

fun symtab_get_func :: "symbol list \<Rightarrow> u64 \<Rightarrow> u8 list option result" where
  "symtab_get_func [] a = Inl Out_Of_Bounds"
| "symtab_get_func (x # tab) a =
     (if \<not> sym_addr x < UINT64_MAX then Inr None
      else if sym_addr x < a
      then (case tab of [] \<Rightarrow> Inl Out_Of_Bounds
            | y # _ \<Rightarrow> if a \<le> sym_addr y then Inr (Some (sym_name x)) else symtab_get_func tab a)
      else symtab_get_func tab a)"

text \<open>The walk up the frames: the return address lies above the saved frame pointer.\<close>

partial_function (option) trace_loop ::
  "symbol list \<Rightarrow> mem \<Rightarrow> u64 \<Rightarrow> nat \<Rightarrow> klog \<Rightarrow> klog result option" where
  "trace_loop tab m rbp i k =
     (let func_addr = load64 m (rbp + 8)
      in case and_then (klog_printf ([32] @ [9] @ bytes ''%d: '') [Word_Arg (of_nat i)] k) (\<lambda>k.
              and_then (symtab_get_func tab func_addr) (\<lambda>func_name.
              and_then (klog_printf ([9] @ bytes ''%x'') [Word_Arg func_addr] k) (\<lambda>k.
              Inr (func_name, k)))) of
           Inl e \<Rightarrow> Some (Inl e)
         | Inr (None, k) \<Rightarrow> Some (klog_printf (bytes '' (Unknown Function)'') [] k)
         | Inr (Some f, k) \<Rightarrow>
             (case klog_printf (bytes '' (%s)'' @ [10]) [Str_Arg f] k of
                Inl e \<Rightarrow> Some (Inl e)
              | Inr k \<Rightarrow> trace_loop tab m (load64 m rbp) (i + 1) k))"

definition do_stacktrace :: "symbol list \<Rightarrow> mem \<Rightarrow> u64 \<Rightarrow> klog \<Rightarrow> klog result" where
  "do_stacktrace tab m rbp k =
     and_then (klog_printf ([10] @ bytes ''Stack Trace:'' @ [10]) [] k) (\<lambda>k.
       if rbp \<le> MEM_VIRT_OFFSET then klog_printf ([10] @ bytes '' '' @ [9] @ bytes ''<optimised out>'') [] k
       else and_then (from_option Diverges (trace_loop tab m rbp 0 k)) id)"

record panic_env =
  halt_addr :: u64
  symtab :: "symbol list"
  frame_pointer :: u64
  pit_reads :: "nat \<Rightarrow> u8 \<times> u8"

text \<open>The state in which the processor halts for good.\<close>

definition kernel_panic :: "panic_env \<Rightarrow> u8 list \<Rightarrow> varg list \<Rightarrow> mem \<Rightarrow> apic_state \<times> klog \<times> terminal \<Rightarrow>
    (apic_state \<times> klog \<times> terminal) result" where
  "kernel_panic env fmt args m = (\<lambda>(s, k, t).
     let s = apic_timer_set_handler (halt_addr env) s
     in and_then (from_option Diverges (pit_wait (pit_reads env) 10)) (\<lambda>_.
        let k = klog_puts (ESC # bytes ''[31m[PANIC] '' @ ESC # bytes ''[37;1m'') k
        in and_then (klog_vprintf fmt args k) (\<lambda>k.
           let k = klog_puts (ESC # bytes ''[0m'') k
           in and_then (do_stacktrace (symtab env) m (frame_pointer env) k) (\<lambda>k.
              and_then (klog_show_now k t) (\<lambda>t. Inr (s, k, t))))))"

definition exc_handler :: "panic_env \<Rightarrow> u64 \<Rightarrow> u64 \<Rightarrow> mem \<Rightarrow> apic_state \<times> klog \<times> terminal \<Rightarrow>
    (apic_state \<times> klog \<times> terminal) result" where
  "exc_handler env errcode excno m st =
     and_then (exc_name excno) (\<lambda>nm.
       kernel_panic env (bytes ''Unhandled Exception: %s. Error Code: %d.'' @ [10])
         [Str_Arg (bytes nm), Word_Arg errcode] m st)"

definition syscall_dispatcher :: "panic_env \<Rightarrow> u64 \<Rightarrow> u64 \<Rightarrow> u64 \<Rightarrow> mem \<Rightarrow> apic_state \<times> klog \<times> terminal \<Rightarrow>
    (apic_state \<times> klog \<times> terminal) result" where
  "syscall_dispatcher env index param1 param2 m st =
     kernel_panic env (bytes ''syscall %d not implemented'' @ [10]) [Word_Arg index] m st"

section \<open>The symbol table\<close>

text \<open>A table in the order of its addresses, with the entry that ends it.\<close>

definition symtab_ok :: "symbol list \<Rightarrow> symbol list \<Rightarrow> bool" where
  "symtab_ok tab syms \<longleftrightarrow> (\<exists>e. tab = syms @ [e] \<and> sym_addr e = UINT64_MAX)
     \<and> sorted (map sym_addr syms) \<and> (\<forall>x\<in>set syms. sym_addr x < UINT64_MAX)"

text \<open>The function an address is in: the last symbol before it.\<close>

definition enclosing :: "symbol list \<Rightarrow> u64 \<Rightarrow> u8 list option" where
  "enclosing syms a = (case rev (filter (\<lambda>x. sym_addr x < a) syms) of [] \<Rightarrow> None | x # _ \<Rightarrow> Some (sym_name x))"

text \<open>Whatever the table, a name that is found is that of an entry before the address whose successor is not before it.\<close>

lemma symtab_get_func_sound:
  "symtab_get_func tab a = Inr (Some f) \<Longrightarrow>
    \<exists>xs x y ys. tab = xs @ x # y # ys \<and> sym_addr x < a \<and> a \<le> sym_addr y \<and> sym_name x = f"
proof (induction tab)
  case (Cons z tab)
  from Cons.prems consider (found) y ys where "tab = y # ys" "sym_addr z < a" "a \<le> sym_addr y" "sym_name z = f"
    | (later) "symtab_get_func tab a = Inr (Some f)"
    by (cases tab) (auto split: if_splits)
  then show ?case
  proof cases
    case found
    then show ?thesis by (intro exI [of _ "[]"] exI [of _ z] exI [of _ y] exI [of _ ys]) simp
  next
    case later
    obtain xs x y ys where "tab = xs @ x # y # ys" "sym_addr x < a" "a \<le> sym_addr y" "sym_name x = f"
      using Cons.IH [OF later] by blast
    then show ?thesis by (intro exI [of _ "z # xs"] exI [of _ x] exI [of _ y] exI [of _ ys]) simp
  qed
qed simp

lemma le_UINT64_MAX: "a \<le> UINT64_MAX"
proof -
  have "UINT64_MAX = (- 1 :: u64)" by simp
  then show ?thesis by (simp only: word_n1_ge)
qed

lemma symtab_get_func_sorted:
  "sorted (map sym_addr syms) \<Longrightarrow> \<forall>x\<in>set syms. sym_addr x < UINT64_MAX \<Longrightarrow> sym_addr e = UINT64_MAX \<Longrightarrow>
    symtab_get_func (syms @ [e]) a = Inr (enclosing syms a)"
proof (induction syms)
  case Nil
  then show ?case by (simp add: enclosing_def)
next
  case (Cons x syms)
  then have ih: "symtab_get_func (syms @ [e]) a = Inr (enclosing syms a)" by simp
  have x: "sym_addr x < UINT64_MAX" using Cons.prems(2) by simp
  show ?case
  proof (cases "sym_addr x < a")
    case False
    then have "filter (\<lambda>x. sym_addr x < a) syms = []" "filter (\<lambda>x. sym_addr x < a) (x # syms) = []"
      using Cons.prems(1) by (auto simp: filter_empty_conv intro: order_trans)
    then have "enclosing (x # syms) a = enclosing syms a" unfolding enclosing_def by simp
    then show ?thesis using False x ih by simp
  next
    case True
    show ?thesis
    proof (cases syms)
      case Nil
      then show ?thesis using True x Cons.prems(3) le_UINT64_MAX by (simp add: enclosing_def)
    next
      case (Cons y ys)
      show ?thesis
      proof (cases "a \<le> sym_addr y")
        case le: True
        then have "filter (\<lambda>x. sym_addr x < a) syms = []"
          using Cons.prems(1) Cons by (auto simp: filter_empty_conv not_less intro: order_trans)
        then show ?thesis using le True x Cons by (simp add: enclosing_def)
      next
        case False
        then have "filter (\<lambda>x. sym_addr x < a) syms \<noteq> []" using Cons by (simp add: not_le)
        then have "enclosing (x # syms) a = enclosing syms a"
          by (cases "rev (filter (\<lambda>x. sym_addr x < a) syms)") (auto simp: enclosing_def)
        then show ?thesis using False True x ih Cons by simp
      qed
    qed
  qed
qed

end
