(* ===== verification/FsDrivers.thy ===== *)
theory FsDrivers
  imports VfsFiles
begin

text \<open>
  The two drivers as providers of the interface of the virtual file system (\<open>fs_driver\<close>,
  \<open>storage_driver\<close>), and the ring buffer of a terminal as a queue of its last 16 bytes.
\<close>

section \<open>The drivers as interfaces\<close>

definition fs_node :: "fs_id \<Rightarrow> inode_ref \<Rightarrow> vfs \<Rightarrow> bool" where
  "fs_node f i s \<longleftrightarrow> vfs_ok s \<and> (\<exists>y. inodes s i = Some y \<and> ifs y = Some f)"

definition driver_keeps :: "inode_ref \<Rightarrow> vfs \<Rightarrow> vfs \<Rightarrow> bool" where
  "driver_keeps i s s' \<longleftrightarrow> inodes s' = inodes s \<and> same_links s s' \<and> descs s' = descs s"

lemma driver_step_keeps:
  assumes "driver_step i y s s'" and "inodes s i = Some y" and "ifs y = Some f"
  shows "fs_node f i s' \<and> driver_keeps i s s'"
proof -
  have "inodes s' = inodes s" using assms(1,2) by (auto simp: driver_step_def)
  then show ?thesis using assms by (simp add: driver_step_def fs_node_def driver_keeps_def)
qed

lemma driver_keeps_trans: "driver_keeps i s s' \<Longrightarrow> driver_keeps i s' s'' \<Longrightarrow> driver_keeps i s s''"
  by (simp add: driver_keeps_def same_links_def)

lemma fs_read_node:
  assumes "fs_node f i s" and "fs_read f i off n s = Inr (k, bs, s')"
  shows "fs_node f i s' \<and> driver_keeps i s s'"
proof -
  obtain y where y: "vfs_ok s" "inodes s i = Some y" "ifs y = Some f" using assms(1) by (auto simp: fs_node_def)
  show ?thesis by (rule driver_step_keeps [OF fs_read_step [OF y assms(2)] y(2,3)])
qed

lemma fs_write_node:
  assumes "fs_node f i s" and "length bs < 2 ^ 64" and "fs_write f i off bs s = Inr (k, s')"
  shows "fs_node f i s' \<and> driver_keeps i s s' \<and> k = of_nat (length bs)"
proof -
  obtain y where y: "vfs_ok s" "inodes s i = Some y" "ifs y = Some f" using assms(1) by (auto simp: fs_node_def)
  show ?thesis
    using driver_step_keeps [OF fs_write_step(1) [OF y assms(3,2)] y(2,3)] fs_write_step(2) [OF y assms(3,2)]
    by simp
qed

interpretation tty: fs_driver ttyfs_read ttyfs_write "fs_node TTYFS" driver_keeps
proof unfold_locales
  show "fs_node TTYFS i s' \<and> driver_keeps i s s'"
    if "fs_node TTYFS i s" "ttyfs_read i off n s = Inr (k, bs, s')" for i off n k bs s s'
    using fs_read_node [OF that(1), of off n k bs s'] that(2) by (simp add: fs_read_def)
  show "fs_node TTYFS i s' \<and> driver_keeps i s s' \<and> k = of_nat (length bs)"
    if "fs_node TTYFS i s" "length bs < 2 ^ 64" "ttyfs_write i off bs s = Inr (k, s')" for i off k bs s s'
    using fs_write_node [OF that(1,2), of off k s'] that(3) by (simp add: fs_write_def)
qed (auto simp: driver_keeps_def same_links_def)

text \<open>The block of a ramfs inode: what the driver itself can reach.\<close>

definition block_bytes :: "inode_ref \<Rightarrow> vfs \<Rightarrow> u8 list" where
  "block_bytes i s =
     (case and_then (get_inode (Some i) s) (\<lambda>y. get_ram y s) of
        Inl _ \<Rightarrow> [] | Inr (r, x) \<Rightarrow> (case ram_data x of None \<Rightarrow> [] | Some bs \<Rightarrow> bs))"

lemma ram_node:
  assumes "fs_node RAMFS i s"
  obtains y r x where "inodes s i = Some y" and "ident y = Some r" and "get_ram y s = Inr (r, x)"
    and "block_bytes i s = (case ram_data x of None \<Rightarrow> [] | Some bs \<Rightarrow> bs)"
proof -
  obtain y where y: "vfs_ok s" "inodes s i = Some y" "ifs y = Some RAMFS"
    using assms by (auto simp: fs_node_def)
  obtain r x where "ident y = Some r" "get_ram y s = Inr (r, x)"
    by (rule ram_ident [OF data_for_inode [OF vfs_okD(5) [OF y(1)] y(2)] y(3)])
  then show thesis using y that by (simp add: block_bytes_def)
qed

lemma ramfs_read_block:
  assumes "fs_node RAMFS i s" and "unat off + unat n \<le> length (block_bytes i s)"
  shows "ramfs_read i off n s = Inr (n, take (unat n) (drop (unat off) (block_bytes i s)), s)"
proof -
  obtain y r x where x: "inodes s i = Some y" "get_ram y s = Inr (r, x)"
    "block_bytes i s = (case ram_data x of None \<Rightarrow> [] | Some bs \<Rightarrow> bs)"
    by (rule ram_node [OF assms(1)])
  show ?thesis
    using assms(2) x
    by (cases "ram_data x"; cases "n = 0") (simp_all add: ramfs_read_def block_range_def unat_eq_0)
qed

lemma ramfs_write_block:
  assumes "fs_node RAMFS i s" and "unat off + length bs \<le> length (block_bytes i s)" and "length bs < 2 ^ 64"
  shows "\<exists>s'. ramfs_write i off bs s = Inr (of_nat (length bs), s')
    \<and> block_bytes i s' = take (unat off) (block_bytes i s) @ bs @ drop (unat off + length bs) (block_bytes i s)"
proof -
  obtain y r x where x: "inodes s i = Some y" "ident y = Some r" "get_ram y s = Inr (r, x)"
    "block_bytes i s = (case ram_data x of None \<Rightarrow> [] | Some bs \<Rightarrow> bs)"
    by (rule ram_node [OF assms(1)])
  have n: "unat (of_nat (length bs) :: u64) = length bs" using assms(3) by simp
  show ?thesis
  proof (cases "bs = []")
    case True
    then show ?thesis using x by (simp add: ramfs_write_def block_range_def)
  next
    case False
    then have "(of_nat (length bs) :: u64) \<noteq> 0" using n by (metis length_0_conv unat_0)
    moreover obtain data where data: "ram_data x = Some data"
      using assms(2) x(4) False by (cases "ram_data x") simp_all
    ultimately have run: "ramfs_write i off bs s = Inr (of_nat (length bs),
        set_ram r (x\<lparr>ram_data := Some (overwrite data (unat off) bs)\<rparr>) s)"
      using assms(2) x n False by (simp add: ramfs_write_def block_range_def)
    have "block_bytes i (set_ram r (x\<lparr>ram_data := Some (overwrite data (unat off) bs)\<rparr>) s)
        = overwrite data (unat off) bs"
      using x by (simp add: block_bytes_def get_ram_def set_ram_def)
    then show ?thesis using run x(4) data by (simp add: overwrite_def)
  qed
qed

interpretation ram: storage_driver ramfs_read ramfs_write "fs_node RAMFS" driver_keeps block_bytes
proof unfold_locales
  show "fs_node RAMFS i s' \<and> driver_keeps i s s'"
    if "fs_node RAMFS i s" "ramfs_read i off n s = Inr (k, bs, s')" for i off n k bs s s'
    using fs_read_node [OF that(1), of off n k bs s'] that(2) by (simp add: fs_read_def)
  show "fs_node RAMFS i s' \<and> driver_keeps i s s' \<and> k = of_nat (length bs)"
    if "fs_node RAMFS i s" "length bs < 2 ^ 64" "ramfs_write i off bs s = Inr (k, s')" for i off k bs s s'
    using fs_write_node [OF that(1,2), of off k s'] that(3) by (simp add: fs_write_def)
qed (auto simp: driver_keeps_def same_links_def ramfs_read_block ramfs_write_block)

section \<open>The ring buffer of a terminal\<close>

text \<open>The bytes the output buffer holds, oldest first.\<close>

definition tty_out :: "ttyfs_ident \<Rightarrow> u8 list" where
  "tty_out x = ring_read (buff_out x) (out_start x) (unat (out_size x))"

definition keep_last :: "nat \<Rightarrow> 'a list \<Rightarrow> 'a list" where
  "keep_last n xs = drop (length xs - n) xs"

lemma ring_index_unat: "ring_index k = unat k mod 16"
  by (simp add: ring_index_def unat_mod)

lemma ring_index_add: "ring_index (k + of_nat j) = (ring_index k + j) mod 16"
proof -
  have "unat (k + of_nat j :: u64) mod 16 = ((unat k + j) mod 2 ^ 64) mod 16"
    by (simp add: unat_word_ariths unat_of_nat take_bit_eq_mod mod_simps)
  also have "\<dots> = (unat k + j) mod 16" by (rule mod_mod_cancel) simp
  finally show ?thesis by (simp add: ring_index_unat mod_simps)
qed

lemma ring_index_Suc: "ring_index (k + 1) = (ring_index k + 1) mod 16"
  using ring_index_add [of k 1] by simp

lemma ring_read_map: "ring_read b k n = map (\<lambda>j. b ! ((ring_index k + j) mod 16)) [0..<n]"
proof (induction n arbitrary: k)
  case (Suc n)
  have "(ring_index (k + 1) + j) mod 16 = (ring_index k + Suc j) mod 16" for j
    unfolding ring_index_Suc by (simp only: mod_add_left_eq) simp
  then have "ring_read b (k + 1) n = map (\<lambda>j. b ! ((ring_index k + Suc j) mod 16)) [0..<n]"
    by (simp only: Suc.IH)
  moreover have "ring_index k mod 16 = ring_index k" by (simp add: ring_index_unat)
  ultimately show ?case by (simp only: ring_read.simps map_upt_Suc add_0_right)
qed simp

lemma ring_write_cong: "ring_index k = ring_index k' \<Longrightarrow> ring_write b k cs = ring_write b k' cs"
proof (induction cs arbitrary: b k k')
  case (Cons c cs)
  have "ring_index (k + 1) = ring_index (k' + 1)"
    using Cons.prems by (simp only: ring_index_Suc)
  from Cons.IH [OF this] show ?case by (simp only: ring_write.simps Cons.prems)
qed simp

text \<open>The same on natural numbers: buffer, first index, number of bytes.\<close>

fun ring_put :: "u8 list \<Rightarrow> nat \<Rightarrow> u8 list \<Rightarrow> u8 list" where
  "ring_put b k [] = b"
| "ring_put b k (c # cs) = ring_put (b[k mod 16 := c]) (k + 1) cs"

definition ring_out :: "u8 list \<Rightarrow> nat \<Rightarrow> nat \<Rightarrow> u8 list" where
  "ring_out b a n = map (\<lambda>j. b ! ((a + j) mod 16)) [0..<n]"

definition ring_start :: "nat \<Rightarrow> nat \<Rightarrow> nat \<Rightarrow> nat" where
  "ring_start a n m = (if 16 < n + m then a + n + m - 16 else a)"

lemma length_ring_put [simp]: "length (ring_put b k cs) = length b"
  by (induction cs arbitrary: b k) simp_all

lemma ring_write_put: "ring_index k = a mod 16 \<Longrightarrow> ring_write b k cs = ring_put b a cs"
proof (induction cs arbitrary: b k a)
  case (Cons c cs)
  have "ring_index (k + 1) = (a + 1) mod 16"
    unfolding ring_index_Suc Cons.prems by (simp add: mod_simps)
  from Cons.IH [OF this] show ?case by (simp only: ring_write.simps ring_put.simps Cons.prems)
qed simp

lemma ring_out_mod: "a mod 16 = a' mod 16 \<Longrightarrow> ring_out b a n = ring_out b a' n"
proof -
  assume eq: "a mod 16 = a' mod 16"
  have "(a + j) mod 16 = (a' + j) mod 16" for j using eq by (metis mod_add_left_eq)
  then show ?thesis by (simp only: ring_out_def)
qed

lemma ring_put_mod: "a mod 16 = a' mod 16 \<Longrightarrow> ring_put b a cs = ring_put b a' cs"
proof (induction cs arbitrary: b a a')
  case (Cons c cs)
  have "(a + 1) mod 16 = (a' + 1) mod 16" using Cons.prems by (metis mod_add_left_eq)
  from Cons.IH [OF this] show ?case by (simp only: ring_put.simps Cons.prems)
qed simp

lemma tty_out_nat: "tty_out x = ring_out (buff_out x) (unat (out_start x)) (unat (out_size x))"
  unfolding tty_out_def ring_read_map ring_out_def ring_index_unat by (simp only: mod_add_left_eq)

lemma tty_put_nat:
  assumes ok: "tty_ok x" and len: "length new < 2 ^ 64 - 16"
  shows "tty_out (tty_put new x) =
    ring_out (ring_put (buff_out x) (unat (out_start x) + unat (out_size x)) new)
      (ring_start (unat (out_start x)) (unat (out_size x)) (length new))
      (min (unat (out_size x) + length new) 16)"
proof -
  let ?n = "of_nat (length new) :: u64" and ?a = "unat (out_start x)" and ?k = "unat (out_size x)"
  have n: "unat ?n = length new" using len by simp
  have k: "?k \<le> 16" "out_size x \<le> 16" using ok by (simp_all add: tty_ok_def word_le_nat_alt)
  have a: "?a < 16" using ok by (simp add: tty_ok_def word_less_nat_alt)
  have stop: "unat (out_start x + out_size x) = ?a + ?k" using a k by (subst unat_add_lt) simp_all
  have size: "unat (?n + out_size x) = length new + ?k" using n k len by (subst unat_add_lt) simp_all
  have room: "unat (16 - out_size x) = 16 - ?k" using k by (simp add: unat_sub_le)
  have buff: "buff_out (tty_put new x) = ring_put (buff_out x) (?a + ?k) new"
    unfolding tty_put_def Let_def by (simp add: ring_write_put [where a = "?a + ?k"] ring_index_unat stop)
  have sz: "unat (out_size (tty_put new x)) = min (?k + length new) 16"
    by (simp add: tty_put_def Let_def min_def word_le_nat_alt size)
  have full: "?n > 16 - out_size x \<longleftrightarrow> 16 < ?k + length new"
    using k(1) by (auto simp: word_less_nat_alt room n)
  have "unat (out_start (tty_put new x)) mod 16 = ring_start ?a ?k (length new) mod 16"
  proof (cases "16 < ?k + length new")
    case True
    then have "out_start (tty_put new x) = (out_start x + out_size x + ?n) mod 16"
      using full by (simp add: tty_put_def Let_def)
    then have "unat (out_start (tty_put new x)) mod 16 = ring_index (out_start x + out_size x + of_nat (length new))"
      by (simp add: ring_index_unat unat_mod)
    also have "\<dots> = (?a + ?k + length new) mod 16"
      by (simp only: ring_index_add) (simp only: ring_index_unat stop mod_add_left_eq)
    also have "\<dots> = (?a + ?k + length new - 16) mod 16" using True by (simp add: le_mod_geq)
    finally show ?thesis using True by (simp add: ring_start_def)
  next
    case False
    then show ?thesis using full by (simp add: tty_put_def Let_def ring_start_def)
  qed
  then show ?thesis unfolding tty_out_nat buff sz by (rule ring_out_mod)
qed

text \<open>One byte, into a ring that is full or not.\<close>

lemma ring_put_one:
  assumes "length b = 16" and "n \<le> 16"
  shows "ring_out (b[(a + n) mod 16 := c]) (ring_start a n 1) (min (n + 1) 16) = keep_last 16 (ring_out b a n @ [c])"
proof -
  have neq: "(a + j) mod 16 \<noteq> (a + n) mod 16" if "j < n" "n - j < 16" for j
  proof
    assume "(a + j) mod 16 = (a + n) mod 16"
    then have "16 dvd (a + n) - (a + j)" using that mod_eq_dvd_iff_nat [of "a + j" "a + n" 16] by simp
    then show False using that by (simp add: dvd_imp_le nat_dvd_not_less)
  qed
  have old: "b[(a + n) mod 16 := c] ! ((a + j) mod 16) = b ! ((a + j) mod 16)" if "j < n" "n - j < 16" for j
    using neq [OF that] by (metis nth_list_update_neq)
  have new: "b[(a + n) mod 16 := c] ! ((a + n) mod 16) = c" using assms(1) by simp
  show ?thesis
  proof (cases "n < 16")
    case True
    then have "ring_out (b[(a + n) mod 16 := c]) a (n + 1) = ring_out b a n @ [c]"
      using old new by (simp add: ring_out_def)
    then show ?thesis using True by (simp add: ring_start_def keep_last_def ring_out_def)
  next
    case False
    then have n: "n = 16" using assms(2) by simp
    have up: "[0..<16 :: nat] = [0..<15] @ [15]" using upt_Suc_append [of 0 15] by simp
    have "ring_out (b[(a + n) mod 16 := c]) (a + 1) 16
        = map (\<lambda>j. b[(a + n) mod 16 := c] ! ((a + Suc j) mod 16)) [0..<15] @ [c]"
      using new n unfolding ring_out_def up by simp
    also have "\<dots> = map (\<lambda>j. b ! ((a + Suc j) mod 16)) [0..<15] @ [c]"
    proof -
      have "b[(a + n) mod 16 := c] ! ((a + Suc j) mod 16) = b ! ((a + Suc j) mod 16)" if "j < 15" for j
        using old [of "Suc j"] that n by simp
      then have "map (\<lambda>j. b[(a + n) mod 16 := c] ! ((a + Suc j) mod 16)) [0..<15]
          = map (\<lambda>j. b ! ((a + Suc j) mod 16)) [0..<15]"
        by (intro map_cong refl) auto
      then show ?thesis by (simp only:)
    qed
    also have "\<dots> = drop 1 (ring_out b a n) @ [c]"
    proof -
      have "ring_out b a n = b ! (a mod 16) # map (\<lambda>j. b ! ((a + Suc j) mod 16)) [0..<15]"
        using map_upt_Suc [of "\<lambda>j. b ! ((a + j) mod 16)" 15] by (simp add: ring_out_def n)
      then show ?thesis by simp
    qed
    finally show ?thesis using n by (simp add: ring_start_def keep_last_def ring_out_def)
  qed
qed

lemma keep_last_append: "keep_last n (keep_last n xs @ ys) = keep_last n (xs @ ys)"
  by (cases "length xs \<le> n") (auto simp: keep_last_def add.commute)

lemma ring_put_all:
  "length b = 16 \<Longrightarrow> n \<le> 16 \<Longrightarrow>
    ring_out (ring_put b (a + n) cs) (ring_start a n (length cs)) (min (n + length cs) 16)
      = keep_last 16 (ring_out b a n @ cs)"
proof (induction cs arbitrary: b a n)
  case Nil
  then show ?case by (simp add: ring_start_def keep_last_def ring_out_def)
next
  case (Cons c cs)
  let ?b = "b[(a + n) mod 16 := c]" and ?a = "ring_start a n 1" and ?n = "min (n + 1) 16"
  have "?a + ?n = a + n + 1" "ring_start ?a ?n (length cs) = ring_start a n (length (c # cs))"
    "min (?n + length cs) 16 = min (n + length (c # cs)) 16"
    using Cons.prems(2) by (auto simp: ring_start_def min_def)
  moreover have "ring_out (ring_put ?b (?a + ?n) cs) (ring_start ?a ?n (length cs)) (min (?n + length cs) 16)
      = keep_last 16 (ring_out ?b ?a ?n @ cs)"
    using Cons.prems(1) by (intro Cons.IH) simp_all
  ultimately show ?case
    using ring_put_one [OF Cons.prems, of a c] keep_last_append [of 16 "ring_out b a n @ [c]" cs] by simp
qed

text \<open>C15: The output buffer of a terminal is the queue of the last 16 bytes written to it: writing
  appends, and what no longer fits is dropped from the front; the write reports all bytes as
  written.\<close>

theorem tty_keeps_last_bytes:
  assumes ok: "vfs_ok s" and y: "inodes s i = Some y" "ifs y = Some TTYFS" and x: "get_tty y s = Inr (r, x)"
    and len: "length new < 2 ^ 64 - 16"
  shows "\<exists>s' x'. ttyfs_write i off new s = Inr (of_nat (length new), s') \<and> vfs_ok s'
    \<and> get_tty y s' = Inr (r, x') \<and> tty_out x' = keep_last 16 (tty_out x @ new)"
proof -
  note d = data_for_tty [OF data_for_inode [OF vfs_okD(5) [OF ok] y(1)] y(2) x]
  have k: "length (buff_out x) = 16" "unat (out_size x) \<le> 16"
    using d(1) by (simp_all add: tty_ok_def word_le_nat_alt)
  have run: "ttyfs_write i off new s = Inr (of_nat (length new), set_tty r (tty_put new x) s)"
    using y x by (simp add: ttyfs_write_def)
  have "tty_out (tty_put new x) = keep_last 16 (tty_out x @ new)"
    by (simp only: tty_put_nat [OF d(1) len] ring_put_all [OF k] tty_out_nat [of x])
  moreover have "get_tty y (set_tty r (tty_put new x) s) = Inr (r, tty_put new x)"
    using d(2) by (simp add: get_tty_def set_tty_def)
  moreover have "vfs_ok (set_tty r (tty_put new x) s)"
    using set_tty_step [OF ok y d(2) tty_ok_put [OF d(1)]] by (simp add: driver_step_def)
  ultimately show ?thesis using run by blast
qed

theorem tty_keeps_last_bytes_witness:
  "\<exists>s' x'. ttyfs_write 13 0 [1, 2, 3] example_vfs = Inr (3, s') \<and> tty_out x' = [1, 2, 3]"
proof -
  let ?x = "\<lparr>buff_in = replicate 16 0, buff_out = replicate 16 0, in_start = 0, in_size = 0,
             out_start = 0, out_size = 0\<rparr> :: ttyfs_ident"
  obtain y where y: "inodes example_vfs 13 = Some y" "ifs y = Some TTYFS" "ident y = Some 14"
    by (simp add: ex_defs)
  have "get_tty y example_vfs = Inr (14, ?x)" using y(3) by (simp add: get_tty_def ex_defs)
  then show ?thesis
    using tty_keeps_last_bytes [OF example_vfs_ok y(1,2), of 14 ?x "[1, 2, 3]" 0]
    by (auto simp: keep_last_def tty_out_def)
qed

end
