(* ===== verification/VmmTree.thy ===== *)
theory VmmTree
  imports Vmm
begin

text \<open>
  The invariant of an address space and what the single steps of \<open>map_page\<close> and \<open>unmap_page\<close> do to
  it: the tables form a tree, each table is a page frame of its own that the physical memory
  manager holds in use, and every other table keeps its entries.
\<close>

section \<open>Entries of tables\<close>

definition aligned :: "u64 \<Rightarrow> bool" where
  "aligned t \<longleftrightarrow> unat (VIRT_TO_PHYS t) mod 4096 = 0"

lemma aligned_room: "aligned t \<Longrightarrow> k < 4096 \<Longrightarrow> unat (VIRT_TO_PHYS t) + k < 2 ^ 64"
proof -
  assume t: "aligned t" and k: "k < 4096"
  obtain f where f: "unat (VIRT_TO_PHYS t) = 4096 * f"
    using t by (auto simp: aligned_def)
  have "4096 * f < 2 ^ 64" using unsigned_less [of "VIRT_TO_PHYS t", where ?'a = nat] by (simp add: f)
  then have "f < 2 ^ 52" by simp
  then show ?thesis using k f by simp
qed

lemma page_of_table: "aligned t \<Longrightarrow> k < 4096 \<Longrightarrow> page_of (t + of_nat k) = page_of t"
  using page_of_direct [of "VIRT_TO_PHYS t" k] aligned_room [of t k]
  by (simp add: aligned_def page_of_def)

lemma entry_offset:
  assumes "i < (512 :: u64)" and "k < 8"
  shows "table + 8 * i + of_nat k = table + of_nat (8 * unat i + k)" and "8 * unat i + k < 4096"
proof -
  show "table + 8 * i + of_nat k = table + of_nat (8 * unat i + k)" by simp
  show "8 * unat i + k < 4096" using assms by (simp add: word_less_nat_alt)
qed

lemma entry_page:
  assumes "aligned t" and "i < 512" and "in_range (t + 8 * i) 8 x"
  shows "page_of x = page_of t"
proof -
  obtain k where k: "k < 8" "x = t + 8 * i + of_nat k" using assms(3) by (auto simp: in_range_def)
  show ?thesis
    unfolding k(2) entry_offset(1) [OF assms(2) k(1)]
    by (rule page_of_table [OF assms(1) entry_offset(2) [OF assms(2) k(1)]])
qed

text \<open>A change outside the page of a table does not change its entries.\<close>

lemma entry_cong:
  assumes "aligned t" and "i < 512" and "\<And>x. page_of x = page_of t \<Longrightarrow> mem s' x = mem s x"
  shows "entry s' t i = entry s t i"
  unfolding entry_def
proof (rule load_le_cong)
  fix k :: nat assume "k < 8"
  then show "mem s' (t + 8 * i + of_nat k) = mem s (t + 8 * i + of_nat k)"
    by (intro assms(3) entry_page [OF assms(1,2)] in_range_offset)
qed

lemma entry_set_same [simp]: "entry (set_entry t i v s) t i = v"
  by (simp add: entry_def set_entry_def)

lemma entry_set_other_index:
  assumes "aligned t" and "i < 512" and "j < 512" and "i \<noteq> j"
  shows "entry (set_entry t i v s) t j = entry s t j"
proof -
  have "load64 (store64 (t + 8 * i) v (mem s)) (t + 8 * j) = load64 (mem s) (t + 8 * j)"
  proof (rule load64_store64_other)
    fix x assume "in_range (t + 8 * j) 8 x"
    then obtain k where k: "k < 8" "x = t + 8 * j + of_nat k" by (auto simp: in_range_def)
    show "\<not> in_range (t + 8 * i) 8 x"
    proof
      assume "in_range (t + 8 * i) 8 x"
      then obtain l where l: "l < 8" "x = t + 8 * i + of_nat l" by (auto simp: in_range_def)
      have "t + of_nat (8 * unat j + k) = t + of_nat (8 * unat i + l)"
        using k(2) l(2) by simp
      then have "8 * unat j + k = 8 * unat i + l"
        by (rule offset_inj)
          (use entry_offset(2) [OF assms(3) k(1)] entry_offset(2) [OF assms(2) l(1)] in simp_all)
      then have "unat i = unat j" using k(1) l(1) by arith
      then show False using assms(4) by (simp add: word_unat_eq_iff)
    qed
  qed
  then show ?thesis by (simp add: entry_def set_entry_def)
qed

lemma set_entry_frame:
  assumes "aligned t" and "i < 512" and "page_of x \<noteq> page_of t"
  shows "mem (set_entry t i v s) x = mem s x"
  using entry_page [OF assms(1,2)] assms(3) by (auto simp: set_entry_def intro!: store_le_frame)

lemma entry_set_other_table:
  assumes "aligned t" and "aligned u" and "i < 512" and "j < 512" and "page_of u \<noteq> page_of t"
  shows "entry (set_entry t i v s) u j = entry s u j"
  using assms by (intro entry_cong) (simp_all add: set_entry_frame)

lemma set_entry_fields [simp]:
  "bitmap (set_entry t i v s) = bitmap s" "memstats (set_entry t i v s) = memstats s"
  "lastusedpage (set_entry t i v s) = lastusedpage s" "mmap (set_entry t i v s) = mmap s"
  by (simp_all add: set_entry_def)

lemma masks: "(0xfff :: u64) = mask 12" "(0x1ff :: u64) = mask 9" "(7 :: u64) = mask 3"
  by (simp_all add: mask_eq_exp_minus_1)

lemma index_less [simp]: "pte va < 512" "pde va < 512" "pdpe va < 512" "pml4e va < 512"
proof -
  have "drop_bit n va AND 0x1ff < (512 :: u64)" for n
  proof -
    have "drop_bit n va AND 0x1ff \<le> (0x1ff :: u64)" by (rule word_and_le1)
    also have "\<dots> < 512" by simp
    finally show ?thesis .
  qed
  then show "pte va < 512" "pde va < 512" "pdpe va < 512" "pml4e va < 512"
    by (simp_all add: pte_def pde_def pdpe_def pml4e_def)
qed

text \<open>The entry of a table leads back to it, with either mask.\<close>

definition table_entry :: "u64 \<Rightarrow> bool" where
  "table_entry e \<longleftrightarrow> e = 0 \<or> e AND 0xfff = 7"

lemma aligned_bits: "aligned t \<Longrightarrow> n < 12 \<Longrightarrow> \<not> bit (VIRT_TO_PHYS t) n"
proof -
  assume t: "aligned t" and n: "n < 12"
  have "unat (take_bit 12 (VIRT_TO_PHYS t)) = 0"
    using t by (simp add: aligned_def take_bit_eq_mod unat_mod)
  then have "take_bit 12 (VIRT_TO_PHYS t) = 0" by (simp add: unat_eq_0)
  then have "\<not> bit (take_bit 12 (VIRT_TO_PHYS t)) n" by simp
  then show ?thesis using n by (simp add: bit_take_bit_iff)
qed

lemma table_entry_make:
  assumes "aligned t"
  shows "next_table (MAKE_TABLE_ENTRY (VIRT_TO_PHYS t) VMM_FLAGS_USERMODE) = t"
    and "table_entry (MAKE_TABLE_ENTRY (VIRT_TO_PHYS t) VMM_FLAGS_USERMODE)"
    and "MAKE_TABLE_ENTRY (VIRT_TO_PHYS t) VMM_FLAGS_USERMODE AND VMM_FLAG_PRESENT \<noteq> 0"
proof -
  let ?e = "MAKE_TABLE_ENTRY (VIRT_TO_PHYS t) VMM_FLAGS_USERMODE"
  have fl: "VMM_FLAGS_USERMODE = 7" by (simp add: VMM_FLAGS_USERMODE_def VMM_FLAGS_DEFAULT_def)
  have b: "bit ?e n \<longleftrightarrow> (12 \<le> n \<and> bit (VIRT_TO_PHYS t) n) \<or> n < 3" if "n < 64" for n
    using that aligned_bits [OF assms, of n] unfolding MAKE_TABLE_ENTRY_def fl masks
    by (auto simp: bit_simps)
  have hi: "12 \<le> n" if "bit (VIRT_TO_PHYS t) n" for n
    using aligned_bits [OF assms, of n] that by (meson not_less)
  have "?e AND NOT 0xfff = VIRT_TO_PHYS t"
    unfolding masks by (rule bit_word_eqI) (use b hi in \<open>auto simp: bit_simps not_less\<close>)
  then show "next_table ?e = t" by (simp add: next_table_def)
  have "?e AND 0xfff = 7"
    by (rule bit_word_eqI) (use b in \<open>auto simp: bit_simps masks\<close>)
  then show "table_entry ?e" by (simp add: table_entry_def)
  have "bit (?e AND 1) 0" using b [of 0] by (simp add: bit_simps)
  then show "?e AND VMM_FLAG_PRESENT \<noteq> 0" by (intro notI) simp
qed

lemma child_table_eq: "table_entry e \<Longrightarrow> child_table e = next_table e"
proof -
  assume e: "table_entry e"
  have "e AND NOT 0x1ff = e AND NOT 0xfff"
  proof (cases "e = 0")
    case False
    then have low: "bit (e AND 0xfff) n \<longleftrightarrow> bit (7 :: u64) n" for n
      using e by (simp add: table_entry_def)
    have "12 \<le> n" if "bit e n" "9 \<le> n" for n
    proof (rule ccontr)
      assume "\<not> 12 \<le> n"
      then show False using low [of n] that unfolding masks by (simp add: bit_simps)
    qed
    then show ?thesis
      unfolding masks by (intro bit_word_eqI) (auto simp: bit_simps not_less)
  qed simp
  then show ?thesis by (simp add: child_table_def next_table_def)
qed

lemma table_entry_present: "table_entry e \<Longrightarrow> e AND VMM_FLAG_PRESENT = 0 \<longleftrightarrow> e = 0"
proof
  assume e: "table_entry e" and z: "e AND VMM_FLAG_PRESENT = 0"
  show "e = 0"
  proof (rule ccontr)
    assume "e \<noteq> 0"
    then have "e AND 0xfff = 7" using e by (simp add: table_entry_def)
    moreover have "e AND 1 = (e AND 0xfff) AND 1" by (simp add: and.assoc)
    ultimately show False using z by simp
  qed
qed simp

section \<open>The tree of tables\<close>

definition path :: "u64 list \<Rightarrow> bool" where
  "path p \<longleftrightarrow> length p \<le> 3 \<and> (\<forall>i\<in>set p. i < 512)"

definition owned :: "kernel \<Rightarrow> u64 \<Rightarrow> bool" where
  "owned s t \<longleftrightarrow> aligned t \<and> page_of t \<in> tracked s - usable s
     \<and> (\<forall>x\<in>bmp_bytes s (watched s). page_of x \<noteq> page_of t)"

definition space_ok :: "u64 \<Rightarrow> kernel \<Rightarrow> bool" where
  "space_ok r s \<longleftrightarrow> heap_ok 1 s
     \<and> (\<forall>p t. path p \<longrightarrow> node s r p = Some t \<longrightarrow> owned s t)
     \<and> (\<forall>p t i. path p \<longrightarrow> length p < 3 \<longrightarrow> node s r p = Some t \<longrightarrow> i < 512 \<longrightarrow> table_entry (entry s t i))
     \<and> (\<forall>p q t u. path p \<longrightarrow> path q \<longrightarrow> node s r p = Some t \<longrightarrow> node s r q = Some u \<longrightarrow>
           page_of t = page_of u \<longrightarrow> p = q)"

lemma space_okD:
  assumes "space_ok r s"
  shows "heap_ok 1 s" and "\<And>p t. path p \<Longrightarrow> node s r p = Some t \<Longrightarrow> owned s t"
    and "\<And>p t i. path p \<Longrightarrow> length p < 3 \<Longrightarrow> node s r p = Some t \<Longrightarrow> i < 512 \<Longrightarrow> table_entry (entry s t i)"
    and "\<And>p q t u. path p \<Longrightarrow> path q \<Longrightarrow> node s r p = Some t \<Longrightarrow> node s r q = Some u \<Longrightarrow>
           page_of t = page_of u \<Longrightarrow> p = q"
  using assms unfolding space_ok_def by blast+

lemma space_okI:
  assumes "heap_ok 1 s" and "\<And>p t. path p \<Longrightarrow> node s r p = Some t \<Longrightarrow> owned s t"
    and "\<And>p t i. path p \<Longrightarrow> length p < 3 \<Longrightarrow> node s r p = Some t \<Longrightarrow> i < 512 \<Longrightarrow> table_entry (entry s t i)"
    and "\<And>p q t u. path p \<Longrightarrow> path q \<Longrightarrow> node s r p = Some t \<Longrightarrow> node s r q = Some u \<Longrightarrow>
           page_of t = page_of u \<Longrightarrow> p = q"
  shows "space_ok r s"
  using assms unfolding space_ok_def by blast

lemma owned_aligned: "owned s t \<Longrightarrow> aligned t"
  by (simp add: owned_def)

lemma path_prefix: "path (p @ q) \<Longrightarrow> path p"
  by (simp add: path_def)

lemma path_snoc: "path (p @ [i]) \<longleftrightarrow> path p \<and> length p < 3 \<and> i < 512"
  by (auto simp: path_def)

lemma node_append:
  "node s r (p @ q) = (case node s r p of None \<Rightarrow> None | Some t \<Rightarrow> node s t q)"
  by (induction p arbitrary: r) simp_all

lemma node_snoc:
  "node s r (p @ [i]) = (case node s r p of None \<Rightarrow> None
     | Some t \<Rightarrow> if entry s t i AND VMM_FLAG_PRESENT = 0 then None else Some (next_table (entry s t i)))"
  by (simp add: node_append split: option.split)

lemma node_cong:
  assumes "\<And>q j rest u. p = q @ j # rest \<Longrightarrow> node s r q = Some u \<Longrightarrow> entry s' u j = entry s u j"
  shows "node s' r p = node s r p"
  using assms
proof (induction p arbitrary: r)
  case (Cons i p)
  have i: "entry s' r i = entry s r i" using Cons.prems [of "[]"] by simp
  show ?case
  proof (cases "entry s r i AND VMM_FLAG_PRESENT = 0")
    case False
    have "node s' (next_table (entry s r i)) p = node s (next_table (entry s r i)) p"
    proof (rule Cons.IH)
      fix q j rest u assume "p = q @ j # rest" "node s (next_table (entry s r i)) q = Some u"
      then show "entry s' u j = entry s u j"
        using Cons.prems [of "i # q" j rest u] False by simp
    qed
    then show ?thesis using i by simp
  qed (simp add: i)
qed simp

lemma leaf_entry_cong:
  assumes "node s' r (butlast p) = node s r (butlast p)"
    and "\<And>t. node s r (butlast p) = Some t \<Longrightarrow> entry s' t (last p) = entry s t (last p)"
  shows "leaf_entry s' r p = leaf_entry s r p"
  using assms by (simp add: leaf_entry_def split: option.split)

end
