(* ===== verification/VmmSteps.thy ===== *)
theory VmmSteps
  imports VmmTree
begin

text \<open>
  The steps of \<open>map_page\<close> and \<open>unmap_page\<close> one by one: taking a fresh zeroed frame, hooking it into a
  table, writing a leaf entry, and unhooking and freeing an empty table.
\<close>

section \<open>Changes outside the tree\<close>

lemma same_tree:
  assumes "space_ok r s"
    and "\<And>x t p. path p \<Longrightarrow> node s r p = Some t \<Longrightarrow> page_of x = page_of t \<Longrightarrow> mem s' x = mem s x"
  shows "path p \<Longrightarrow> node s r p = Some t \<Longrightarrow> i < 512 \<Longrightarrow> entry s' t i = entry s t i"
    and "path p \<Longrightarrow> node s' r p = node s r p"
proof -
  show *: "entry s' t i = entry s t i" if "path p" "node s r p = Some t" "i < 512" for p t i
    by (rule entry_cong [OF owned_aligned [OF space_okD(2) [OF assms(1) that(1,2)]] that(3)])
      (rule assms(2) [OF that(1,2)])
  show "node s' r p = node s r p" if p: "path p"
  proof (rule node_cong)
    fix q j rest u assume q: "p = q @ j # rest" "node s r q = Some u"
    have "path q" using path_prefix p q(1) by blast
    moreover have "j < 512" using p q(1) by (simp add: path_def)
    ultimately show "entry s' u j = entry s u j" using * q(2) by blast
  qed
qed

lemma heap_ok_frame:
  assumes "heap_ok n s" and "owned s t" and "\<And>x. page_of x \<noteq> page_of t \<Longrightarrow> mem s' x = mem s x"
    and "bitmap s' = bitmap s" "memstats s' = memstats s" "lastusedpage s' = lastusedpage s"
  shows "heap_ok n s'" and "usable s' = usable s" and "owned s u \<Longrightarrow> owned s' u"
proof -
  have b: "\<And>x. x \<in> bmp_bytes s (watched s) \<Longrightarrow> mem s' x = mem s x"
    using assms(2,3) by (auto simp: owned_def)
  show "heap_ok n s'" by (rule heap_ok_cong [OF assms(1)]) (use assms b in simp_all)
  show us: "usable s' = usable s" by (rule usable_cong) (use assms b in auto)
  show "owned s' u" if "owned s u"
    using that assms(4,5) by (simp add: owned_def us tracked_def watched_def bmp_bytes_def)
qed

text \<open>The first step of an allocation: the frame comes from the allocator.\<close>

lemma pmm_get_frame:
  assumes ok: "heap_ok 1 s" and get: "pmm_get 1 s = Inr (a, s')"
  shows "aligned (PHYS_TO_VIRT a)" and "page_of (PHYS_TO_VIRT a) = pfn a"
    and "pfn a \<in> usable s" and "usable s' = usable s - {pfn a}" and "heap_ok 1 s'"
    and "bitmap s' = bitmap s" and "lastusedpage s' = lastusedpage s"
    and "phys_limit (memstats s') = phys_limit (memstats s)"
    and "\<And>x. x \<notin> bmp_bytes s (watched s) \<Longrightarrow> mem s' x = mem s x"
proof -
  have ready: "pmm_ready 1 s" and top: "pfn (phys_limit (memstats s)) \<notin> frames s"
    using ok by (simp_all add: heap_ok_def)
  obtain p where p: "a = of_nat p * PAGE_SIZE" "p * 4096 < unat (phys_limit (memstats s))"
      "{p..<p + unat (1 :: u64)} \<subseteq> frames s" "s' = take_pages a 1 s" "no_wrap a 1"
    by (rule pmm_get_InrE [OF ready get]) blast
  have law: "unat a mod 4096 = 0" "frame_range a 1 \<subseteq> frames s" "frames s' = frames s - {pfn a}"
    using pmm.get_takes [OF ready get] by simp_all
  show "aligned (PHYS_TO_VIRT a)" using law(1) by (simp add: aligned_def)
  show "page_of (PHYS_TO_VIRT a) = pfn a" by (simp add: page_of_def)
  have same: "same_but_frames {pfn a} s s'" using take_pages_same [OF p(5), of s] p(4) by simp
  then show flds: "bitmap s' = bitmap s" "lastusedpage s' = lastusedpage s"
      "phys_limit (memstats s') = phys_limit (memstats s)"
    by (simp_all add: same_but_frames_def)
  have "p * 4096 < 2 ^ 64" using p(2) unsigned_less [of "phys_limit (memstats s)", where ?'a = nat] by simp
  then have pa: "pfn a = p" by (simp add: p(1) unat_page_address(2))
  have "p \<in> frames s" using p(3) by auto
  then have "p \<noteq> pfn (phys_limit (memstats s))" using top by blast
  moreover have "p \<le> pfn (phys_limit (memstats s))" using p(2) by (simp add: pfn_def less_eq_div_iff_mult_less_eq)
  ultimately show u: "pfn a \<in> usable s"
    using \<open>p \<in> frames s\<close> by (simp add: usable_def tracked_def pa)
  have t: "tracked s' = tracked s" by (rule tracked_same [OF same])
  show u': "usable s' = usable s - {pfn a}" unfolding usable_def t law(3) by blast
  show mem: "\<And>x. x \<notin> bmp_bytes s (watched s) \<Longrightarrow> mem s' x = mem s x"
  proof -
    fix x assume "x \<notin> bmp_bytes s (watched s)"
    moreover have "bmp_bytes s {pfn a} \<subseteq> bmp_bytes s (watched s)"
      by (rule bmp_bytes_mono) (use u in \<open>auto simp: usable_def\<close>)
    ultimately show "mem s' x = mem s x" using same by (auto simp: same_but_frames_def)
  qed
  show "heap_ok 1 s'"
    using ok u' flds law(3) by (auto simp: heap_ok_def pmm_ready_def watched_def bmp_bytes_def)
qed

section \<open>A fresh table\<close>

lemma memset_page:
  assumes "aligned t"
  shows "page_of x \<noteq> page_of t \<Longrightarrow> memset t 0 PAGE_SIZE m x = m x"
    and "k < 4096 \<Longrightarrow> memset t 0 PAGE_SIZE m (t + of_nat k) = 0"
  using page_of_table [OF assms] by (auto simp: memset_eq in_range_def)

lemma load_zero: "(\<And>k. k < n \<Longrightarrow> m (a + of_nat k) = 0) \<Longrightarrow> load_le n m a = 0"
proof (induction n arbitrary: a)
  case (Suc n)
  have "load_le n m (a + 1) = 0"
  proof (rule Suc.IH)
    fix k assume "k < n"
    then show "m (a + 1 + of_nat k) = 0" using Suc.prems [of "Suc k"] by (simp add: algebra_simps)
  qed
  then show ?case using Suc.prems [of 0] by simp
qed simp

text \<open>Taking frames from the allocator keeps the tables owned.\<close>

lemma space_ok_mono:
  assumes "space_ok r s" and "heap_ok 1 s'" and "usable s' \<subseteq> usable s" and "bitmap s' = bitmap s"
    and "phys_limit (memstats s') = phys_limit (memstats s)"
    and "\<And>x t p. path p \<Longrightarrow> node s r p = Some t \<Longrightarrow> page_of x = page_of t \<Longrightarrow> mem s' x = mem s x"
  shows "space_ok r s'"
proof -
  have t: "node s' r p = node s r p" if "path p" for p
    by (rule same_tree(2) [OF assms(1,6) that])
  have e: "entry s' t i = entry s t i" if "path p" "node s r p = Some t" "i < 512" for p t i
    by (rule same_tree(1) [OF assms(1,6) that])
  have "owned s' u" if "owned s u" for u
    using that assms(3-5) by (auto simp: owned_def tracked_def watched_def bmp_bytes_def)
  then show ?thesis
    using space_okD [OF assms(1)] by (intro space_okI [OF assms(2)]) (auto simp: t e)
qed

lemma fresh_table:
  assumes sp: "space_ok r s" and get: "pmm_get 1 s = Inr (a, s1)"
  defines "u \<equiv> PHYS_TO_VIRT a"
  defines "s2 \<equiv> s1\<lparr>mem := memset u 0 PAGE_SIZE (mem s1)\<rparr>"
  shows "space_ok r s2" and "owned s2 u" and "\<And>i. i < 512 \<Longrightarrow> entry s2 u i = 0"
    and "\<And>p. path p \<Longrightarrow> node s2 r p = node s r p"
    and "\<And>p t i. path p \<Longrightarrow> node s r p = Some t \<Longrightarrow> i < 512 \<Longrightarrow> entry s2 t i = entry s t i"
    and "\<And>p t. path p \<Longrightarrow> node s r p = Some t \<Longrightarrow> page_of t \<noteq> page_of u"
    and "usable s2 = usable s - {page_of u}" and "page_of u \<in> usable s"
proof -
  note sp = space_okD [OF assms(1)] and new = pmm_get_frame [OF sp(1) get, folded u_def]
  have b2: "mem s2 x = mem s1 x" if "x \<in> bmp_bytes s (watched s)" for x
  proof -
    have "page_of x \<noteq> page_of u" using sp(1) that new(2,3) by (auto simp: heap_ok_def)
    then show ?thesis by (simp add: s2_def memset_page(1) [OF new(1)])
  qed
  have w: "watched s1 = watched s" "tracked s1 = tracked s" "bmp_bytes s1 = bmp_bytes s"
    using new(6,8) by (simp_all add: watched_def tracked_def bmp_bytes_def fun_eq_iff)
  have h: "heap_ok 1 s2"
    by (rule heap_ok_cong [OF new(5)]) (use b2 in \<open>simp_all add: s2_def w\<close>)
  show us: "usable s2 = usable s - {page_of u}"
  proof -
    have "usable s2 = usable s1"
      by (rule usable_cong) (use b2 in \<open>auto simp: s2_def w\<close>)
    then show ?thesis using new(2,4) by simp
  qed
  show "page_of u \<in> usable s" using new(2,3) by simp
  show other: "page_of t \<noteq> page_of u" if "path p" "node s r p = Some t" for p t
    using sp(2) [OF that] new(2,3) by (auto simp: owned_def)
  have mem: "mem s2 x = mem s x" if "path p" "node s r p = Some t" "page_of x = page_of t" for x t p
  proof -
    have "page_of x \<noteq> page_of u" using other [OF that(1,2)] that(3) by simp
    moreover have "x \<notin> bmp_bytes s (watched s)" using sp(2) [OF that(1,2)] that(3) by (auto simp: owned_def)
    ultimately show ?thesis using new(9) by (simp add: s2_def memset_page(1) [OF new(1)])
  qed
  show "space_ok r s2"
    by (rule space_ok_mono [OF assms(1) h _ _ _ mem]) (use us new(6,8) in \<open>auto simp: s2_def\<close>)
  show "node s2 r p = node s r p" if "path p" for p by (rule same_tree(2) [OF assms(1) mem that])
  show "entry s2 t i = entry s t i" if "path p" "node s r p = Some t" "i < 512" for p t i
    by (rule same_tree(1) [OF assms(1) mem that])
  show "entry s2 u i = 0" if "i < 512" for i
    unfolding entry_def
  proof (rule load_zero)
    fix k :: nat assume k: "k < 8"
    show "mem s2 (u + 8 * i + of_nat k) = 0"
      unfolding entry_offset(1) [OF that k]
      using memset_page(2) [OF new(1) entry_offset(2) [OF that k]] by (simp add: s2_def)
  qed
  show "owned s2 u"
  proof -
    have "\<forall>x\<in>bmp_bytes s (watched s). page_of x \<noteq> page_of u" using sp(1) new(2,3) by (auto simp: heap_ok_def)
    moreover have "page_of u \<in> tracked s" using new(2,3) by (simp add: usable_def)
    moreover have "watched s2 = watched s" "tracked s2 = tracked s" "bmp_bytes s2 = bmp_bytes s"
      using new(6,8) by (simp_all add: s2_def watched_def tracked_def bmp_bytes_def fun_eq_iff)
    ultimately show ?thesis using new(1) us by (simp add: owned_def)
  qed
qed

section \<open>Writing an entry of a table of the tree\<close>

lemma set_entry_elsewhere:
  assumes "space_ok r s" and "path p" and "node s r p = Some t" and "i < 512"
    and "path q" and "node s r q = Some u" and "j < 512" and "q \<noteq> p \<or> j \<noteq> i"
  shows "entry (set_entry t i v s) u j = entry s u j"
proof (cases "q = p")
  case True
  then show ?thesis
    using assms entry_set_other_index [OF owned_aligned [OF space_okD(2) [OF assms(1-3)]]] by auto
next
  case False
  then have "page_of u \<noteq> page_of t" using space_okD(4) [OF assms(1,5,2,6,3)] by blast
  then show ?thesis
    using assms by (intro entry_set_other_table owned_aligned [OF space_okD(2)]) simp_all
qed

lemma set_entry_node:
  assumes "space_ok r s" and "path p" and "node s r p = Some t" and "i < 512"
    and "path q" and "\<And>rest. q \<noteq> p @ i # rest"
  shows "node (set_entry t i v s) r q = node s r q"
proof (rule node_cong)
  fix q' j rest u assume q: "q = q' @ j # rest" "node s r q' = Some u"
  have "path q'" using path_prefix assms(5) q(1) by blast
  moreover have "j < 512" using assms(5) q(1) by (simp add: path_def)
  ultimately show "entry (set_entry t i v s) u j = entry s u j"
    using q assms(6) by (intro set_entry_elsewhere [OF assms(1-4)]) auto
qed

lemma set_entry_heap:
  assumes "space_ok r s" and "path p" and "node s r p = Some t" and "i < 512"
  shows "heap_ok 1 (set_entry t i v s)" and "usable (set_entry t i v s) = usable s"
    and "owned s u \<Longrightarrow> owned (set_entry t i v s) u"
proof -
  have o: "owned s t" by (rule space_okD(2) [OF assms(1-3)])
  note h = heap_ok_frame [OF space_okD(1) [OF assms(1)] o set_entry_frame [OF owned_aligned [OF o] assms(4)]]
  show "heap_ok 1 (set_entry t i v s)" "usable (set_entry t i v s) = usable s"
    "owned s u \<Longrightarrow> owned (set_entry t i v s) u"
    by (rule h; simp)+
qed

text \<open>The paths of the leaf entries.\<close>

definition leaf_path :: "u64 list \<Rightarrow> bool" where
  "leaf_path v \<longleftrightarrow> length v = 4 \<and> (\<forall>i\<in>set v. i < 512)"

lemma leaf_pathE:
  assumes "leaf_path v"
  obtains p i where "v = p @ [i]" and "path p" and "length p = 3" and "i < 512"
    and "butlast v = p" and "last v = i"
proof (cases v rule: rev_cases)
  case (snoc p i)
  then show ?thesis using that assms by (auto simp: leaf_path_def path_def)
qed (use assms in \<open>simp add: leaf_path_def\<close>)

lemma leaf_path_vpn [simp]: "leaf_path (vpn va)"
  by (simp add: leaf_path_def vpn_def)

lemma node_extension:
  "node s r p = Some t \<Longrightarrow> node s r (p @ i # rest) =
     (if entry s t i AND VMM_FLAG_PRESENT = 0 then None else node s (next_table (entry s t i)) rest)"
  by (simp add: node_append)

lemma set_leaf:
  assumes sp: "space_ok r s" and p: "path p" "length p = 3" "node s r p = Some t" and i: "i < 512"
  shows "space_ok r (set_entry t i v s)"
    and "path q \<Longrightarrow> node (set_entry t i v s) r q = node s r q"
    and "leaf_path w \<Longrightarrow>
      leaf_entry (set_entry t i v s) r w = (if w = p @ [i] then v else leaf_entry s r w)"
proof -
  let ?s = "set_entry t i v s"
  show n: "node ?s r q = node s r q" if "path q" for q
    by (rule set_entry_node [OF sp p(1,3) i that]) (use that p(2) in \<open>auto simp: path_def\<close>)
  note e = set_entry_elsewhere [OF sp p(1,3) i]
  note h = set_entry_heap [OF sp p(1,3) i]
  show "space_ok r ?s"
  proof (rule space_okI [OF h(1)])
    fix q u and j :: u64 assume q: "path q" "length q < 3" "node ?s r q = Some u" "j < 512"
    then have "q \<noteq> p" using p(2) by auto
    then show "table_entry (entry ?s u j)"
      using q e [of q u j v] space_okD(3) [OF sp, of q u j] by (simp add: n)
  qed (use n h(3) space_okD [OF sp] in auto)
  show "leaf_entry ?s r w = (if w = p @ [i] then v else leaf_entry s r w)"
    if lw: "leaf_path w"
  proof -
    obtain q j where w: "w = q @ [j]" "path q" "length q = 3" "j < 512" using lw by (rule leaf_pathE)
    show ?thesis
    proof (cases "w = p @ [i]")
      case True
      then have "q = p" "j = i" using w(1) by simp_all
      then show ?thesis using w p by (simp add: leaf_entry_def n Let_def)
    next
      case False
      then have "q \<noteq> p \<or> j \<noteq> i" using w(1) by auto
      then have "leaf_entry ?s r w = leaf_entry s r w"
        using w e [OF w(2) _ w(4)] by (intro leaf_entry_cong) (auto simp: n)
      then show ?thesis using False by simp
    qed
  qed
qed

lemma hook_table:
  assumes sp: "space_ok r s" and p: "path p" "length p < 3" "node s r p = Some t" and i: "i < 512"
    and absent: "entry s t i AND VMM_FLAG_PRESENT = 0"
    and u: "owned s u" "\<And>j. j < 512 \<Longrightarrow> entry s u j = 0"
      "\<And>q t. path q \<Longrightarrow> node s r q = Some t \<Longrightarrow> page_of t \<noteq> page_of u"
  defines "s' \<equiv> set_entry t i (MAKE_TABLE_ENTRY (VIRT_TO_PHYS u) VMM_FLAGS_USERMODE) s"
  shows "space_ok r s'" and "node s' r (p @ [i]) = Some u"
    and "\<And>q. path q \<Longrightarrow> q \<noteq> p @ [i] \<Longrightarrow> node s' r q = node s r q"
    and "\<And>w. leaf_path w \<Longrightarrow> leaf_entry s' r w = leaf_entry s r w" and "usable s' = usable s"
proof -
  let ?v = "MAKE_TABLE_ENTRY (VIRT_TO_PHYS u) VMM_FLAGS_USERMODE"
  note v = table_entry_make [OF owned_aligned [OF u(1)]]
  have pi: "path (p @ [i])" using p i by (simp add: path_snoc)
  have before: "node s' r q = node s r q" if "path q" "\<And>rest. q \<noteq> p @ i # rest" for q
    unfolding s'_def by (rule set_entry_node [OF sp p(1,3) i that])
  have np: "node s' r p = Some t" using before [OF p(1)] p(3) by simp
  note e = set_entry_elsewhere [OF sp p(1,3) i, where v = ?v, folded s'_def]
  note h = set_entry_heap [OF sp p(1,3) i, where v = ?v, folded s'_def]
  show hooked: "node s' r (p @ [i]) = Some u"
    using v(1,3) by (simp add: node_snoc np) (simp add: s'_def)
  have eu: "entry s' u j = 0" if "j < 512" for j
    using u(2) [OF that] entry_set_other_table [OF owned_aligned [OF space_okD(2) [OF sp p(1,3)]]
        owned_aligned [OF u(1)] i that] u(3) [OF p(1,3)] by (simp add: s'_def)
  have below: "node s r (p @ i # rest) = None" for rest
    using absent by (simp add: node_extension [OF p(3)])
  show n: "node s' r q = node s r q" if q: "path q" "q \<noteq> p @ [i]" for q
  proof (cases "\<exists>rest. q = p @ i # rest")
    case True
    then obtain j rest where rest: "q = p @ i # j # rest" using q(2) by (metis list.exhaust)
    then have j: "j < 512" using q(1) by (simp add: path_def)
    have "node s' r ((p @ [i]) @ j # rest) = None"
      by (simp only: node_extension [OF hooked] eu [OF j]) simp
    then show ?thesis using below [of "j # rest"] by (simp add: rest)
  qed (use before q in auto)
  have root: "node s r q = None" if "q = p @ [i]" for q using below [of "[]"] that by simp
  show "space_ok r s'"
  proof (rule space_okI [OF h(1)])
    fix q x assume q: "path q" "node s' r q = Some x"
    show "owned s' x"
      using q h(3) u(1) hooked space_okD(2) [OF sp q(1)] by (cases "q = p @ [i]") (auto simp: n)
  next
    fix q x and j :: u64 assume q: "path q" "length q < 3" "node s' r q = Some x" "j < 512"
    show "table_entry (entry s' x j)"
    proof (cases "q = p @ [i]")
      case True
      then show ?thesis using hooked q eu by (simp add: table_entry_def)
    next
      case False
      then have x: "node s r q = Some x" using n q by simp
      show ?thesis
      proof (cases "q = p \<and> j = i")
        case True
        then show ?thesis using x p(3) v(2) by (simp add: s'_def)
      qed (use e [OF q(1) x q(4)] space_okD(3) [OF sp q(1,2) x q(4)] in auto)
    qed
  next
    fix q1 q2 x y assume q: "path q1" "path q2" "node s' r q1 = Some x" "node s' r q2 = Some y" "page_of x = page_of y"
    show "q1 = q2"
    proof (cases "q1 = p @ [i]"; cases "q2 = p @ [i]")
      assume "q1 = p @ [i]" "q2 \<noteq> p @ [i]"
      then show ?thesis using q hooked n [OF q(2)] u(3) [OF q(2)] by auto
    next
      assume "q1 \<noteq> p @ [i]" "q2 = p @ [i]"
      then show ?thesis using q hooked n [OF q(1)] u(3) [OF q(1)] by auto
    qed (use q n space_okD(4) [OF sp q(1,2)] in auto)
  qed
  show "leaf_entry s' r w = leaf_entry s r w" if lw: "leaf_path w" for w
  proof -
    obtain q j where w: "w = q @ [j]" "path q" "length q = 3" "j < 512" using lw by (rule leaf_pathE)
    show ?thesis
    proof (cases "q = p @ [i]")
      case True
      have bl: "butlast w = q" "last w = j" using w(1) by simp_all
      show ?thesis
        unfolding leaf_entry_def bl using True hooked eu [OF w(4)] root by (simp add: Let_def)
    next
      case False
      have "q \<noteq> p" using w(3) p(2) by auto
      then show ?thesis
        using False w e [OF w(2) _ w(4)] by (intro leaf_entry_cong) (auto simp: n)
    qed
  qed
  show "usable s' = usable s" by (rule h(2))
qed

lemma unhook_table:
  assumes sp: "space_ok r s" and p: "path p" "length p < 3" "node s r p = Some t" and i: "i < 512"
    and u: "node s r (p @ [i]) = Some u" "\<And>j. j < 512 \<Longrightarrow> entry s u j = 0"
  defines "s' \<equiv> set_entry t i 0 s"
  shows "space_ok r s'" and "\<And>q. path q \<Longrightarrow> q \<noteq> p @ [i] \<Longrightarrow> node s' r q = node s r q"
    and "node s' r (p @ [i]) = None"
    and "\<And>w. leaf_path w \<Longrightarrow> leaf_entry s' r w = leaf_entry s r w" and "usable s' = usable s"
    and "owned s' u" and "\<And>q x. path q \<Longrightarrow> node s' r q = Some x \<Longrightarrow> page_of x \<noteq> page_of u"
proof -
  have pi: "path (p @ [i])" using p i by (simp add: path_snoc)
  have before: "node s' r q = node s r q" if "path q" "\<And>rest. q \<noteq> p @ i # rest" for q
    unfolding s'_def by (rule set_entry_node [OF sp p(1,3) i that])
  have np: "node s' r p = Some t" using before [OF p(1)] p(3) by simp
  note e = set_entry_elsewhere [OF sp p(1,3) i, where v = 0, folded s'_def]
  note h = set_entry_heap [OF sp p(1,3) i, where v = 0, folded s'_def]
  have gone: "node s' r (p @ i # rest) = None" for rest
    by (simp add: node_extension [OF np]) (simp add: s'_def)
  then show none: "node s' r (p @ [i]) = None" by simp
  show n: "node s' r q = node s r q" if q: "path q" "q \<noteq> p @ [i]" for q
  proof (cases "\<exists>rest. q = p @ i # rest")
    case True
    then obtain j rest where rest: "q = p @ i # j # rest" using q(2) by (metis list.exhaust)
    then have j: "j < 512" using q(1) by (simp add: path_def)
    have "node s r ((p @ [i]) @ j # rest) = None"
      by (simp only: node_extension [OF u(1)] u(2) [OF j]) simp
    then show ?thesis using gone by (simp add: rest)
  qed (use before q in auto)
  have sub: "node s r q = Some x \<and> q \<noteq> p @ [i]" if "path q" "node s' r q = Some x" for q x
    using that none n by (cases "q = p @ [i]") auto
  show "space_ok r s'"
  proof (rule space_okI [OF h(1)])
    fix q x assume q: "path q" "node s' r q = Some x"
    then show "owned s' x" using sub [OF q] h(3) space_okD(2) [OF sp q(1)] by blast
  next
    fix q x and j :: u64 assume q: "path q" "length q < 3" "node s' r q = Some x" "j < 512"
    note x = conjunct1 [OF sub [OF q(1,3)]]
    show "table_entry (entry s' x j)"
    proof (cases "q = p \<and> j = i")
      case True
      then show ?thesis using x p(3) by (simp add: s'_def table_entry_def)
    qed (use e [OF q(1) x q(4)] space_okD(3) [OF sp q(1,2) x q(4)] in auto)
  next
    fix q1 q2 x y assume q: "path q1" "path q2" "node s' r q1 = Some x" "node s' r q2 = Some y" "page_of x = page_of y"
    show "q1 = q2"
      using space_okD(4) [OF sp q(1,2)] sub [OF q(1,3)] sub [OF q(2,4)] q(5) by blast
  qed
  show "leaf_entry s' r w = leaf_entry s r w" if lw: "leaf_path w" for w
  proof -
    obtain q j where w: "w = q @ [j]" "path q" "length q = 3" "j < 512" using lw by (rule leaf_pathE)
    have bl: "butlast w = q" "last w = j" using w(1) by simp_all
    show ?thesis
    proof (cases "q = p @ [i]")
      case True
      then show ?thesis
        unfolding leaf_entry_def bl using u(1) u(2) [OF w(4)] none by (simp add: Let_def)
    next
      case False
      have "q \<noteq> p" using w(3) p(2) by auto
      then show ?thesis
        using False w e [OF w(2) _ w(4)] by (intro leaf_entry_cong) (auto simp: n)
    qed
  qed
  show "usable s' = usable s" by (rule h(2))
  show "owned s' u" by (rule h(3) [OF space_okD(2) [OF sp pi u(1)]])
  show "page_of x \<noteq> page_of u" if "path q" "node s' r q = Some x" for q x
    using sub [OF that] space_okD(4) [OF sp that(1) pi _ u(1)] by blast
qed

text \<open>Giving an unhooked table back to the allocator.\<close>

lemma free_table:
  assumes sp: "space_ok r s" and u: "owned s u"
    and fresh: "\<And>q x. path q \<Longrightarrow> node s r q = Some x \<Longrightarrow> page_of x \<noteq> page_of u"
  obtains s' where "pmm_free (VIRT_TO_PHYS u) 1 s = Inr s'" and "space_ok r s'"
    and "\<And>q. path q \<Longrightarrow> node s' r q = node s r q"
    and "\<And>q x j. path q \<Longrightarrow> node s r q = Some x \<Longrightarrow> j < 512 \<Longrightarrow> entry s' x j = entry s x j"
    and "\<And>w. leaf_path w \<Longrightarrow> leaf_entry s' r w = leaf_entry s r w"
    and "usable s' = insert (page_of u) (usable s)"
proof -
  let ?f = "page_of u"
  have al: "aligned u" by (rule owned_aligned [OF u])
  have nw: "no_wrap (VIRT_TO_PHYS u) 1"
  proof -
    have "page_of u < pfn (phys_limit (memstats s))" using u by (simp add: owned_def tracked_def)
    moreover have "pfn (phys_limit (memstats s)) < 2 ^ 35"
      using space_okD(1) [OF sp] by (simp add: heap_ok_def pfn_def less_mult_imp_div_less)
    ultimately have "unat (VIRT_TO_PHYS u) div 4096 < 2 ^ 35" by (simp add: page_of_def pfn_def)
    then show ?thesis by (simp add: no_wrap_def)
  qed
  have R: "frame_range (VIRT_TO_PHYS u) (unat (1 :: u64)) = {?f}" by (simp add: page_of_def)
  obtain s' where s': "pmm_free (VIRT_TO_PHYS u) 1 s = Inr s'" "frames s' = frames s \<union> {?f}"
      "same_but_frames {?f} s s'"
    using pmm_free_spec [OF nw, of s, unfolded R] by blast
  have f: "?f \<in> tracked s" "?f \<notin> usable s" and bf: "\<forall>x\<in>bmp_bytes s (watched s). page_of x \<noteq> ?f"
    using u by (simp_all add: owned_def)
  have flds: "bitmap s' = bitmap s" "lastusedpage s' = lastusedpage s"
      "phys_limit (memstats s') = phys_limit (memstats s)"
    using s'(3) by (simp_all add: same_but_frames_def)
  have sets: "tracked s' = tracked s" "watched s' = watched s" "bmp_bytes s' = bmp_bytes s"
    using flds by (simp_all add: tracked_def watched_def bmp_bytes_def fun_eq_iff)
  have us: "usable s' = insert ?f (usable s)" using f(1) by (auto simp: usable_def s'(2) sets)
  have heap: "heap_ok 1 s'"
    using space_okD(1) [OF sp] f bf by (auto simp: heap_ok_def pmm_ready_def flds sets us s'(2) tracked_def)
  have mem: "mem s' x = mem s x" if "path q" "node s r q = Some t" "page_of x = page_of t" for x t q
  proof -
    have "x \<notin> bmp_bytes s {?f}"
      using space_okD(2) [OF sp that(1,2)] that(3) f(1) bmp_bytes_mono [of "{?f}" "watched s" s]
      by (auto simp: owned_def)
    then show ?thesis using s'(3) by (simp add: same_but_frames_def)
  qed
  have n: "node s' r q = node s r q" if "path q" for q by (rule same_tree(2) [OF sp mem that])
  have e: "entry s' x j = entry s x j" if "path q" "node s r q = Some x" "j < 512" for q x j
    by (rule same_tree(1) [OF sp mem that])
  have "space_ok r s'"
  proof (rule space_okI [OF heap])
    fix q x assume q: "path q" "node s' r q = Some x"
    then have "node s r q = Some x" by (simp add: n)
    then show "owned s' x" using space_okD(2) [OF sp q(1)] fresh [OF q(1)] us sets by (auto simp: owned_def)
  qed (use n e space_okD [OF sp] in auto)
  moreover have "leaf_entry s' r w = leaf_entry s r w" if lw: "leaf_path w" for w
  proof -
    obtain q j where "path q" "j < 512" "butlast w = q" "last w = j" using lw by (rule leaf_pathE)
    then show ?thesis using e by (intro leaf_entry_cong) (auto simp: n)
  qed
  ultimately show ?thesis using that s'(1) us n e by blast
qed

end
