(* ===== verification/VmmMap.thy ===== *)
theory VmmMap
  imports VmmSteps
begin

text \<open>
  What \<open>map_page\<close> and \<open>unmap_page\<close> do as a whole: they refine the update of one page of an abstract
  address space, the frames they take are exactly the tables that are missing, and the frames they
  give back exactly the tables that have become empty.
\<close>

section \<open>The tables of an address space\<close>

definition tables :: "u64 \<Rightarrow> kernel \<Rightarrow> u64 list set" where
  "tables r s = {p. path p \<and> node s r p \<noteq> None}"

definition table_pages :: "u64 \<Rightarrow> kernel \<Rightarrow> nat set" where
  "table_pages r s = {page_of t | p t. path p \<and> node s r p = Some t}"

text \<open>The frames an address space lives on: its tables, and what the allocator has left.\<close>

definition pool :: "u64 \<Rightarrow> kernel \<Rightarrow> nat set" where
  "pool r s = usable s \<union> table_pages r s"

text \<open>The abstract address space: the entry of each page number, 0 where there is none.\<close>

definition mapping :: "u64 \<Rightarrow> kernel \<Rightarrow> u64 list \<Rightarrow> u64" where
  "mapping r s v = (if leaf_path v then leaf_entry s r v else 0)"

text \<open>No table is there without need: each one but the root is on the way to an entry.\<close>

definition used :: "u64 \<Rightarrow> kernel \<Rightarrow> u64 list \<Rightarrow> bool" where
  "used r s p \<longleftrightarrow> (\<exists>w. mapping r s w \<noteq> 0 \<and> take (length p) w = p)"

definition lean_but :: "u64 list set \<Rightarrow> u64 \<Rightarrow> kernel \<Rightarrow> bool" where
  "lean_but A r s \<longleftrightarrow> (\<forall>p\<in>tables r s. p \<noteq> [] \<longrightarrow> p \<notin> A \<longrightarrow> used r s p)"

abbreviation lean :: "u64 \<Rightarrow> kernel \<Rightarrow> bool" where
  "lean r s \<equiv> lean_but {} r s"

lemma finite_usable [simp]: "finite (usable s)"
  by (simp add: usable_def)

section \<open>Getting a table\<close>

lemma get_table_present:
  assumes "node s r p = Some t" and "node s r (p @ [i]) = Some u"
  shows "get_table t i s = Inr (u, s)"
  using assms by (auto simp: get_table_def node_snoc split: if_splits)

lemma get_table_absent:
  assumes sp: "space_ok r s" and p: "path (p @ [i])" "node s r p = Some t"
    and none: "node s r (p @ [i]) = None" and some: "usable s \<noteq> {}"
  obtains u s' where "get_table t i s = Inr (u, s')" and "space_ok r s'"
    and "node s' r (p @ [i]) = Some u"
    and "\<And>q. path q \<Longrightarrow> q \<noteq> p @ [i] \<Longrightarrow> node s' r q = node s r q"
    and "\<And>w. leaf_path w \<Longrightarrow> leaf_entry s' r w = leaf_entry s r w"
    and "usable s' = usable s - {page_of u}" and "page_of u \<in> usable s"
proof -
  have heap: "heap_ok 1 s" by (rule space_okD(1) [OF sp])
  have path: "path p" "length p < 3" "i < 512" using p(1) by (simp_all add: path_snoc)
  have absent: "entry s t i AND VMM_FLAG_PRESENT = 0"
    using none p(2) by (simp add: node_snoc split: if_splits)
  obtain q where q: "q \<in> usable s" using some by blast
  have "\<exists>a s1. pmm_get 1 s = Inr (a, s1)"
  proof (cases "pmm_get 1 s")
    case (Inl e)
    have "pmm_ready 1 s" using heap by (simp add: heap_ok_def)
    moreover have "q * 4096 < unat (phys_limit (memstats s))"
      using q unfolding usable_def tracked_def pfn_def by (auto simp: less_eq_div_iff_mult_less_eq Suc_le_eq [symmetric])
    ultimately have "\<not> {q..<q + unat (1 :: u64)} \<subseteq> frames s" using pmm_get_Inl(2) Inl by blast
    then show ?thesis using q by (simp add: usable_def)
  qed auto
  then obtain a s1 where get: "pmm_get 1 s = Inr (a, s1)" by blast
  let ?u = "PHYS_TO_VIRT a" let ?s2 = "s1\<lparr>mem := memset ?u 0 PAGE_SIZE (mem s1)\<rparr>"
  note f = fresh_table [OF sp get]
  have t2: "node ?s2 r p = Some t" using f(4) [OF path(1)] p(2) by simp
  have a2: "entry ?s2 t i AND VMM_FLAG_PRESENT = 0"
    using f(5) [OF path(1) p(2) path(3)] absent by simp
  have other: "page_of x \<noteq> page_of ?u" if "path q" "node ?s2 r q = Some x" for q x
    using f(6) [OF that(1)] that f(4) [OF that(1)] by simp
  let ?s3 = "set_entry t i (MAKE_TABLE_ENTRY (VIRT_TO_PHYS ?u) VMM_FLAGS_USERMODE) ?s2"
  note h = hook_table [OF f(1) path(1,2) t2 path(3) a2 f(2)]
  show ?thesis
  proof (rule that [of ?u ?s3])
    show "get_table t i s = Inr (?u, ?s3)" using absent get by (simp add: get_table_def Let_def)
    show "leaf_entry ?s3 r w = leaf_entry s r w" if lw: "leaf_path w" for w
    proof -
      obtain q j where w: "path q" "j < 512" "butlast w = q" "last w = j" using lw by (rule leaf_pathE)
      have "leaf_entry ?s2 r w = leaf_entry s r w"
        using w f(4,5) by (intro leaf_entry_cong) simp_all
      moreover have "leaf_entry ?s3 r w = leaf_entry ?s2 r w"
        by (rule h(4)) (use f(3) other lw in auto)
      ultimately show ?thesis by simp
    qed
    show "space_ok r ?s3" by (rule h(1)) (use f(3) other in auto)
    show "node ?s3 r (p @ [i]) = Some ?u" by (rule h(2)) (use f(3) other in auto)
    show "node ?s3 r q = node s r q" if "path q" "q \<noteq> p @ [i]" for q
    proof -
      have "node ?s3 r q = node ?s2 r q" by (rule h(3)) (use f(3) other that in auto)
      then show ?thesis using f(4) [OF that(1)] by simp
    qed
    have "usable ?s3 = usable ?s2" by (rule h(5)) (use f(3) other in auto)
    then show "usable ?s3 = usable s - {page_of ?u}" by (simp only: f(7))
  qed (rule f(8))
qed

lemma get_table_Inl:
  assumes "space_ok r s" and "get_table t i s = Inl e"
  shows "e = Kernel_Panic ''Out of Physical Memory''"
proof -
  have "pmm_ready 1 s" using space_okD(1) [OF assms(1)] by (simp add: heap_ok_def)
  moreover have "pmm_get 1 s = Inl e"
    using assms(2) by (cases "pmm_get 1 s") (auto simp: get_table_def Let_def split: if_splits)
  ultimately show ?thesis by (rule pmm_get_Inl(1))
qed

text \<open>
  Both cases: when a frame is left or the table exists, the step returns the table, adds it to the
  tree, and changes nothing else; the pool of frames stays the same.
\<close>

lemma table_pages_eq: "table_pages r s = (\<lambda>p. page_of (the (node s r p))) ` tables r s"
  by (force simp: table_pages_def tables_def)

lemma get_table_spec:
  assumes sp: "space_ok r s" and p: "path (p @ [i])" "node s r p = Some t"
    and enough: "p @ [i] \<in> tables r s \<or> usable s \<noteq> {}"
  obtains u s' where "get_table t i s = Inr (u, s')" and "space_ok r s'"
    and "node s' r (p @ [i]) = Some u"
    and "\<And>q. path q \<Longrightarrow> q \<noteq> p @ [i] \<Longrightarrow> node s' r q = node s r q"
    and "\<And>w. leaf_path w \<Longrightarrow> leaf_entry s' r w = leaf_entry s r w"
    and "tables r s' = insert (p @ [i]) (tables r s)"
    and "card (usable s) = card (usable s') + card ({p @ [i]} - tables r s)"
    and "pool r s' = pool r s" and "usable s' \<subseteq> usable s"
proof (cases "node s r (p @ [i])")
  case (Some u)
  then have "p @ [i] \<in> tables r s" using p(1) by (simp add: tables_def)
  then show ?thesis
    using that [OF get_table_present [OF p(2) Some] sp Some] by (simp add: insert_absorb)
next
  case None
  then have not_in: "p @ [i] \<notin> tables r s" by (simp add: tables_def)
  then have some: "usable s \<noteq> {}" using enough by blast
  obtain u s' where u: "get_table t i s = Inr (u, s')" "space_ok r s'" "node s' r (p @ [i]) = Some u"
      "\<And>q. path q \<Longrightarrow> q \<noteq> p @ [i] \<Longrightarrow> node s' r q = node s r q"
      "\<And>w. leaf_path w \<Longrightarrow> leaf_entry s' r w = leaf_entry s r w"
      "usable s' = usable s - {page_of u}" "page_of u \<in> usable s"
    by (rule get_table_absent [OF sp p None some]) blast
  have "q \<in> tables r s' \<longleftrightarrow> q = p @ [i] \<or> q \<in> tables r s" for q
    using p(1) u(3,4) by (cases "q = p @ [i]") (auto simp: tables_def)
  then have tabs: "tables r s' = insert (p @ [i]) (tables r s)" by blast
  have "table_pages r s' = insert (page_of u) (table_pages r s)"
  proof -
    have "(\<lambda>q. page_of (the (node s' r q))) ` tables r s = (\<lambda>q. page_of (the (node s r q))) ` tables r s"
    proof (rule image_cong [OF refl])
      fix q assume "q \<in> tables r s"
      then have "path q" "q \<noteq> p @ [i]" using not_in by (auto simp: tables_def)
      then show "page_of (the (node s' r q)) = page_of (the (node s r q))" by (simp add: u(4))
    qed
    then show ?thesis using u(3) by (simp add: table_pages_eq tabs)
  qed
  then have "pool r s' = pool r s" using u(6,7) by (auto simp: pool_def)
  moreover have "card (usable s) = card (usable s') + card ({p @ [i]} - tables r s)"
  proof -
    have "{p @ [i]} - tables r s = {p @ [i]}" using not_in by blast
    then show ?thesis using u(6) card_Suc_Diff1 [OF finite_usable u(7)] by simp
  qed
  ultimately show ?thesis using that [OF u(1-3) _ _ tabs] u(4-6) by blast
qed

section \<open>Mapping a page\<close>

text \<open>The tables on the way to a page.\<close>

definition vpn_tables :: "u64 \<Rightarrow> u64 list set" where
  "vpn_tables va = {[pml4e va], [pml4e va, pdpe va], [pml4e va, pdpe va, pde va]}"

lemma card_diff_three:
  "a \<noteq> b \<Longrightarrow> a \<noteq> c \<Longrightarrow> b \<noteq> c \<Longrightarrow> card ({a, b, c} - T) = card ({a} - T) + card ({b} - T) + card ({c} - T)"
  by (simp add: insert_Diff_if)

lemma card_vpn_tables:
  "card (vpn_tables va - T) = card ({[pml4e va]} - T) + card ({[pml4e va, pdpe va]} - T)
     + card ({[pml4e va, pdpe va, pde va]} - T)"
  unfolding vpn_tables_def by (rule card_diff_three) simp_all

lemma flush_page_kern [simp]: "kern (flush_page r va m) = kern m" "cr3 (flush_page r va m) = cr3 m"
  "kaddrspace (flush_page r va m) = kaddrspace m"
  by (simp_all add: flush_page_def)

lemma set_leaf_pool:
  assumes "\<And>q. path q \<Longrightarrow> node s' r q = node s r q" and "usable s' = usable s"
  shows "tables r s' = tables r s" and "pool r s' = pool r s"
proof -
  show "tables r s' = tables r s" using assms(1) by (auto simp: tables_def)
  have "table_pages r s' = table_pages r s" unfolding table_pages_def using assms(1) by force
  then show "pool r s' = pool r s" by (simp add: pool_def assms(2))
qed

lemma map_page_spec:
  assumes sp: "space_ok r (kern m)"
    and enough: "card (vpn_tables va - tables r (kern m)) \<le> card (usable (kern m))"
  obtains m' where "map_page r va pa fl m = Inr m'" and "space_ok r (kern m')"
    and "mapping r (kern m') = (mapping r (kern m))(vpn va := MAKE_TABLE_ENTRY (pa AND NOT 0xfff) fl)"
    and "tables r (kern m') = tables r (kern m) \<union> vpn_tables va"
    and "card (usable (kern m)) = card (usable (kern m')) + card (vpn_tables va - tables r (kern m))"
    and "pool r (kern m') = pool r (kern m)"
    and "cr3 m' = cr3 m" and "kaddrspace m' = kaddrspace m"
proof -
  define v where "v = MAKE_TABLE_ENTRY (pa AND NOT 0xfff) fl"
  let ?s = "kern m"
  let ?i4 = "pml4e va" and ?i3 = "pdpe va" and ?i2 = "pde va" and ?i1 = "pte va"
  note need = enough [unfolded card_vpn_tables]
  have pre: "path ([] @ [?i4])" "path ([?i4] @ [?i3])" "path ([?i4, ?i3] @ [?i2])"
    by (simp_all add: path_def)
  have e1: "[] @ [?i4] \<in> tables r ?s \<or> usable ?s \<noteq> {}" using need by fastforce
  obtain t3 s1 where 1: "get_table r ?i4 ?s = Inr (t3, s1)" "space_ok r s1" "node s1 r [?i4] = Some t3"
      "\<And>w. leaf_path w \<Longrightarrow> leaf_entry s1 r w = leaf_entry ?s r w"
      "tables r s1 = insert [?i4] (tables r ?s)"
      "card (usable ?s) = card (usable s1) + card ({[?i4]} - tables r ?s)" "pool r s1 = pool r ?s"
    by (rule get_table_spec [OF sp pre(1) _ e1]) auto
  have d1: "{[?i4, ?i3]} - tables r s1 = {[?i4, ?i3]} - tables r ?s" unfolding 1(5) by auto
  have e2: "[?i4] @ [?i3] \<in> tables r s1 \<or> usable s1 \<noteq> {}" using need 1(6) d1 by fastforce
  obtain t2 s2 where 2: "get_table t3 ?i3 s1 = Inr (t2, s2)" "space_ok r s2" "node s2 r [?i4, ?i3] = Some t2"
      "\<And>w. leaf_path w \<Longrightarrow> leaf_entry s2 r w = leaf_entry s1 r w"
      "tables r s2 = insert [?i4, ?i3] (tables r s1)"
      "card (usable s1) = card (usable s2) + card ({[?i4, ?i3]} - tables r s1)" "pool r s2 = pool r s1"
    by (rule get_table_spec [OF 1(2) pre(2) 1(3) e2]) auto
  have d2: "{[?i4, ?i3, ?i2]} - tables r s2 = {[?i4, ?i3, ?i2]} - tables r ?s"
    unfolding 2(5) 1(5) by auto
  have e3: "[?i4, ?i3] @ [?i2] \<in> tables r s2 \<or> usable s2 \<noteq> {}"
    using need 1(6) 2(6) d1 d2 by fastforce
  obtain t1 s3 where 3: "get_table t2 ?i2 s2 = Inr (t1, s3)" "space_ok r s3" "node s3 r [?i4, ?i3, ?i2] = Some t1"
      "\<And>w. leaf_path w \<Longrightarrow> leaf_entry s3 r w = leaf_entry s2 r w"
      "tables r s3 = insert [?i4, ?i3, ?i2] (tables r s2)"
      "card (usable s2) = card (usable s3) + card ({[?i4, ?i3, ?i2]} - tables r s2)" "pool r s3 = pool r s2"
    by (rule get_table_spec [OF 2(2) pre(3) 2(3) e3]) auto
  let ?s4 = "set_entry t1 ?i1 v s3"
  have p3: "path [?i4, ?i3, ?i2]" "length [?i4, ?i3, ?i2] = 3" by (simp_all add: path_def)
  note l = set_leaf [OF 3(2) p3 3(3) index_less(1), where v = v]
  note h = set_entry_heap [OF 3(2) p3(1) 3(3) index_less(1), where v = v]
  note same = set_leaf_pool [OF l(2) h(2)]
  let ?m = "flush_page r va (m\<lparr>kern := ?s4\<rparr>)"
  show ?thesis
  proof (rule that [of ?m])
    show "map_page r va pa fl m = Inr ?m"
      by (simp add: map_page_def 1(1) 2(1) 3(1) Let_def v_def)
    show "mapping r (kern ?m) = (mapping r ?s)(vpn va := MAKE_TABLE_ENTRY (pa AND NOT 0xfff) fl)"
      unfolding v_def [symmetric]
    proof
      fix w show "mapping r (kern ?m) w = ((mapping r ?s)(vpn va := v)) w"
        using l(3) [of w] 1(4) [of w] 2(4) [of w] 3(4) [of w] leaf_path_vpn [of va]
        by (auto simp: mapping_def vpn_def)
    qed
    show "tables r (kern ?m) = tables r ?s \<union> vpn_tables va"
      by (auto simp: same 3(5) 2(5) 1(5) vpn_tables_def)
    show "card (usable ?s) = card (usable (kern ?m)) + card (vpn_tables va - tables r ?s)"
      using 1(6) 2(6) 3(6) d1 d2 h(2) by (simp add: card_vpn_tables)
    show "pool r (kern ?m) = pool r ?s" by (simp add: same 3(7) 2(7) 1(7))
  qed (use l(1) in simp_all)
qed

text \<open>A page is mapped only if the frames sufficed for its tables.\<close>

lemma get_table_InrD:
  assumes sp: "space_ok r s" and p: "path (p @ [i])" "node s r p = Some t" and run: "get_table t i s = Inr x"
  shows "p @ [i] \<in> tables r s \<or> usable s \<noteq> {}"
proof (cases "entry s t i AND VMM_FLAG_PRESENT = 0")
  case True
  then obtain a s1 where "pmm_get 1 s = Inr (a, s1)"
    using run by (auto simp: get_table_def elim!: and_then_InrE)
  then show ?thesis using pmm_get_frame(3) [OF space_okD(1) [OF sp]] by blast
next
  case False
  then show ?thesis using p by (simp add: tables_def node_snoc)
qed

lemma get_table_taken:
  assumes sp: "space_ok r s" and q: "q = p @ [i]" "path q" and p: "node s r p = Some t"
    and run: "get_table t i s = Inr (u, s')"
  shows "space_ok r s'" and "node s' r q = Some u" and "tables r s' = insert q (tables r s)"
    and "card (usable s) = card (usable s') + card ({q} - tables r s)"
proof -
  have pq: "path (p @ [i])" using q by simp
  obtain u1 s1 where 1: "get_table t i s = Inr (u1, s1)" "space_ok r s1" "node s1 r (p @ [i]) = Some u1"
      "tables r s1 = insert (p @ [i]) (tables r s)"
      "card (usable s) = card (usable s1) + card ({p @ [i]} - tables r s)"
    by (rule get_table_spec [OF sp pq p get_table_InrD [OF sp pq p run]])
  then show "space_ok r s'" "node s' r q = Some u" "tables r s' = insert q (tables r s)"
    "card (usable s) = card (usable s') + card ({q} - tables r s)"
    using run q(1) by simp_all
qed

lemma map_page_Inl:
  assumes sp: "space_ok r (kern m)" and run: "map_page r va pa fl m = Inl e"
  shows "e = Kernel_Panic ''Out of Physical Memory''"
proof -
  let ?s = "kern m" and ?i4 = "pml4e va" and ?i3 = "pdpe va" and ?i2 = "pde va"
  have path: "path [?i4]" "path [?i4, ?i3]" by (simp_all add: path_def)
  have r0: "node ?s r [] = Some r" and q2: "[?i4, ?i3] = [?i4] @ [?i3]" by simp_all
  show ?thesis
  proof (cases "get_table r ?i4 ?s")
    case (Inl x)
    then show ?thesis using run get_table_Inl [OF sp Inl] by (simp add: map_page_def)
  next
    case (Inr x)
    then obtain t3 s1 where 1: "get_table r ?i4 ?s = Inr (t3, s1)" by (cases x) simp
    note k1 = get_table_taken(1,2) [OF sp append_Nil [symmetric] path(1) r0 1]
    show ?thesis
    proof (cases "get_table t3 ?i3 s1")
      case (Inl y)
      then show ?thesis using run 1 get_table_Inl [OF k1(1) Inl] by (simp add: map_page_def)
    next
      case (Inr y)
      then obtain t2 s2 where 2: "get_table t3 ?i3 s1 = Inr (t2, s2)" by (cases y) simp
      have "space_ok r s2" by (rule get_table_taken(1) [OF k1(1) q2 path(2) k1(2) 2])
      then show ?thesis
        using run 1 2 get_table_Inl [of r s2 t2 ?i2]
        by (cases "get_table t2 ?i2 s2") (auto simp: map_page_def Let_def)
    qed
  qed
qed

section \<open>Unmapping a page\<close>

lemma table_empty_entries: "table_empty s u \<longleftrightarrow> (\<forall>j<512. entry s u j = 0)"
proof -
  have "(\<forall>k<512. entry s u (of_nat k) = 0) \<longleftrightarrow> (\<forall>j<512. entry s u j = 0)"
  proof (intro iffI allI impI)
    fix j :: u64 assume all: "\<forall>k<512. entry s u (of_nat k) = 0" and j: "j < 512"
    have "unat j < 512" using j by (simp add: word_less_nat_alt)
    then have "entry s u (of_nat (unat j)) = 0" using all by blast
    then show "entry s u j = 0" by simp
  next
    fix k :: nat assume all: "\<forall>j<512. entry s u j = 0" and k: "k < 512"
    have "unat (of_nat k :: u64) = k" using k by (intro unat_of_nat64) simp
    then show "entry s u (of_nat k) = 0" using all k by (simp add: word_less_nat_alt)
  qed
  then show ?thesis by (auto simp: table_empty_def list_all_iff)
qed

lemma drop_table_spec:
  assumes sp: "space_ok r s" and p: "path (p @ [i])" "node s r p = Some t"
    and u: "node s r (p @ [i]) = Some u" "table_empty s u"
  obtains s' where "drop_table t i u s = Inr s'" and "space_ok r s'"
    and "\<And>q. path q \<Longrightarrow> q \<noteq> p @ [i] \<Longrightarrow> node s' r q = node s r q"
    and "mapping r s' = mapping r s" and "tables r s' = tables r s - {p @ [i]}"
    and "pool r s' = pool r s"
proof -
  have path: "path p" "length p < 3" "i < 512" using p(1) by (simp_all add: path_snoc)
  have z: "entry s u j = 0" if "j < 512" for j using u(2) that by (simp add: table_empty_entries)
  let ?s1 = "set_entry t i 0 s"
  note h = unhook_table [OF sp path(1,2) p(2) path(3) u(1) z]
  have sp1: "space_ok r ?s1" by (rule h(1))
  have o: "owned ?s1 u" by (rule h(6))
  have fresh: "page_of x \<noteq> page_of u" if "path q" "node ?s1 r q = Some x" for q x
    by (rule h(7)) (use that in auto)
  obtain s' where s': "pmm_free (VIRT_TO_PHYS u) 1 ?s1 = Inr s'" "space_ok r s'"
      "\<And>q. path q \<Longrightarrow> node s' r q = node ?s1 r q"
      "\<And>w. leaf_path w \<Longrightarrow> leaf_entry s' r w = leaf_entry ?s1 r w"
      "usable s' = insert (page_of u) (usable ?s1)"
    by (rule free_table [OF sp1 o fresh]) blast+
  have n1: "node ?s1 r q = node s r q" if "path q" "q \<noteq> p @ [i]" for q
    by (rule h(2)) (use that in auto)
  have none: "node ?s1 r (p @ [i]) = None" by (rule h(3))
  have l1: "leaf_entry ?s1 r w = leaf_entry s r w" if "leaf_path w" for w
    by (rule h(4)) (use that in auto)
  have us: "usable ?s1 = usable s" by (rule h(5))
  have tab: "q \<in> tables r s' \<longleftrightarrow> q \<in> tables r s - {p @ [i]}" for q
    using none n1 s'(3) by (cases "q = p @ [i]") (auto simp: tables_def)
  have pages: "table_pages r s = insert (page_of u) (table_pages r s')"
  proof -
    have "tables r s = insert (p @ [i]) (tables r s')"
      using tab u(1) p(1) by (auto simp: tables_def)
    moreover have "(\<lambda>q. page_of (the (node s r q))) ` tables r s' = (\<lambda>q. page_of (the (node s' r q))) ` tables r s'"
    proof (rule image_cong [OF refl])
      fix q assume "q \<in> tables r s'"
      then have "path q" "q \<noteq> p @ [i]" using tab by (auto simp: tables_def)
      then show "page_of (the (node s r q)) = page_of (the (node s' r q))" by (simp add: s'(3) n1)
    qed
    ultimately show ?thesis using u(1) by (simp add: table_pages_eq)
  qed
  show ?thesis
  proof (rule that [of s'])
    show "drop_table t i u s = Inr s'" by (simp add: drop_table_def s'(1))
    show "mapping r s' = mapping r s" by (simp add: fun_eq_iff mapping_def s'(4) l1)
    show "tables r s' = tables r s - {p @ [i]}" using tab by blast
    show "pool r s' = pool r s" unfolding pool_def pages s'(5) us by blast
  qed (use s'(2,3) n1 in auto)
qed

text \<open>A table that holds a non-zero entry has an entry, or a table, below it.\<close>

lemma entry_below:
  assumes sp: "space_ok r s" and p: "path p" "length p < 3" "node s r p = Some t" and i: "i < 512"
  shows "entry s t i \<noteq> 0 \<longleftrightarrow> p @ [i] \<in> tables r s"
  using table_entry_present [OF space_okD(3) [OF sp p i]] p i
  by (auto simp: tables_def path_snoc node_snoc)

lemma mapping_leaf:
  "path p \<Longrightarrow> length p = 3 \<Longrightarrow> node s r p = Some t \<Longrightarrow> i < 512 \<Longrightarrow> mapping r s (p @ [i]) = entry s t i"
  by (auto simp: mapping_def leaf_path_def path_def leaf_entry_def)

lemma mapping_tables:
  assumes "mapping r s w \<noteq> 0" and "k \<le> 3"
  shows "take k w \<in> tables r s" and "length w = 4"
proof -
  have lw: "leaf_path w" using assms(1) by (auto simp: mapping_def split: if_splits)
  then obtain q j where w: "w = q @ [j]" "path q" "length q = 3" "butlast w = q" by (rule leaf_pathE)
  obtain t where t: "node s r q = Some t"
    using assms(1) lw w(4) by (auto simp: mapping_def leaf_entry_def split: option.splits)
  have "take k w = take k q" using w(1,3) assms(2) by simp
  moreover have "node s r (take k q @ drop k q) = Some t" by (simp add: t)
  then have "node s r (take k q) \<noteq> None" unfolding node_append by (auto split: option.splits)
  moreover have "path (take k q)" using w(2) path_prefix [of "take k q" "drop k q"] by simp
  ultimately show "take k w \<in> tables r s" by (simp add: tables_def)
  show "length w = 4" using lw by (simp add: leaf_path_def)
qed

lemma used_prefix: "used r s (p @ q) \<Longrightarrow> used r s p"
proof -
  assume "used r s (p @ q)"
  then obtain w where w: "mapping r s w \<noteq> 0" "take (length (p @ q)) w = p @ q" by (auto simp: used_def)
  have "take (length p) w = take (length p) (take (length (p @ q)) w)" by (simp add: min_def)
  also have "\<dots> = p" by (simp only: w(2)) simp
  finally show ?thesis using w(1) by (auto simp: used_def)
qed

lemma used_leaf:
  assumes "space_ok r s" and "path p" and "length p = 3" and "node s r p = Some t" and "\<not> table_empty s t"
  shows "used r s p"
proof -
  obtain j where "j < 512" "entry s t j \<noteq> 0" using assms(5) by (auto simp: table_empty_entries)
  then have "mapping r s (p @ [j]) \<noteq> 0" using mapping_leaf [OF assms(2-4)] by simp
  then show ?thesis by (auto simp: used_def)
qed

lemma used_inner:
  assumes "space_ok r s" and "lean_but A r s" and "path p" and "length p < 3"
    and "node s r p = Some t" and "\<not> table_empty s t" and "\<And>i. p @ [i] \<notin> A"
  shows "used r s p"
proof -
  obtain j where "j < 512" "entry s t j \<noteq> 0" using assms(6) by (auto simp: table_empty_entries)
  then have "p @ [j] \<in> tables r s" using entry_below [OF assms(1,3-5)] by simp
  then have "used r s (p @ [j])" using assms(2,7) by (simp add: lean_but_def)
  then show ?thesis by (rule used_prefix)
qed

lemma lean_but_drop:
  assumes "lean_but (insert p A) r s" and "tables r s' = tables r s - {p}" and "mapping r s' = mapping r s"
  shows "lean_but A r s'"
  using assms by (auto simp: lean_but_def used_def)

lemma drop_empty_tables_spec:
  fixes va
  defines "p1 \<equiv> [pml4e va]" and "p2 \<equiv> [pml4e va, pdpe va]" and "p3 \<equiv> [pml4e va, pdpe va, pde va]"
  assumes sp: "space_ok r s" and n: "node s r p1 = Some t3" "node s r p2 = Some t2" "node s r p3 = Some t1"
    and lb: "lean_but {p3, p2, p1} r s"
  obtains s' where "drop_empty_tables va r t3 t2 t1 s = Inr s'" and "space_ok r s'" and "lean r s'"
    and "mapping r s' = mapping r s" and "pool r s' = pool r s"
proof -
  have path: "path p1" "path p2" "path p3" "path ([] @ [pml4e va])" "path (p1 @ [pdpe va])" "path (p2 @ [pde va])"
    by (simp_all add: path_def p1_def p2_def p3_def)
  have app: "[] @ [pml4e va] = p1" "p1 @ [pdpe va] = p2" "p2 @ [pde va] = p3"
    by (simp_all add: p1_def p2_def p3_def)
  have len: "length p1 = 1" "length p2 = 2" "length p3 = 3" by (simp_all add: p1_def p2_def p3_def)
  have ne: "p1 \<noteq> p3" "p2 \<noteq> p3" "p1 \<noteq> p2" by (simp_all add: p1_def p2_def p3_def)
  have rest: "lean r s'" if "lean_but A r s'" "\<forall>p\<in>A. used r s' p" for A s'
    using that by (auto simp: lean_but_def)
  note def = drop_empty_tables_def
  show ?thesis
  proof (cases "table_empty s t1")
    case False
    have "used r s p3" by (rule used_leaf [OF sp path(3) len(3) n(3) False])
    then have "\<forall>p\<in>{p3, p2, p1}. used r s p"
      using used_prefix [of r s p2 "[pde va]"] used_prefix [of r s p1 "[pdpe va]"] app by auto
    then show ?thesis using False by (intro that [of s] sp rest [OF lb]) (auto simp: def)
  next
    case True
    obtain s2 where s2: "drop_table t2 (pde va) t1 s = Inr s2" "space_ok r s2"
        "\<And>q. path q \<Longrightarrow> q \<noteq> p3 \<Longrightarrow> node s2 r q = node s r q"
        "mapping r s2 = mapping r s" "tables r s2 = tables r s - {p3}" "pool r s2 = pool r s"
      using drop_table_spec [OF sp path(6) n(2) _ True] n(3) app by metis
    have lb2: "lean_but {p2, p1} r s2" by (rule lean_but_drop [OF lb s2(5,4)])
    have n2: "node s2 r p1 = Some t3" "node s2 r p2 = Some t2"
      using s2(3) [OF path(1)] s2(3) [OF path(2)] ne n by simp_all
    show ?thesis
    proof (cases "table_empty s2 t2")
      case False
      have "used r s2 p2"
        by (rule used_inner [OF s2(2) lb2 path(2) _ n2(2) False]) (auto simp: p1_def p2_def)
      then have "\<forall>p\<in>{p2, p1}. used r s2 p" using used_prefix [of r s2 p1 "[pdpe va]"] app by auto
      then show ?thesis
        using False True s2 by (intro that [of s2] rest [OF lb2]) (auto simp: def)
    next
      case True2: True
      obtain s3 where s3: "drop_table t3 (pdpe va) t2 s2 = Inr s3" "space_ok r s3"
          "\<And>q. path q \<Longrightarrow> q \<noteq> p2 \<Longrightarrow> node s3 r q = node s2 r q"
          "mapping r s3 = mapping r s2" "tables r s3 = tables r s2 - {p2}" "pool r s3 = pool r s2"
        using drop_table_spec [OF s2(2) path(5) n2(1) _ True2] n2(2) app by metis
      have lb3: "lean_but {p1} r s3" by (rule lean_but_drop [OF lb2 s3(5,4)])
      have n3: "node s3 r p1 = Some t3" using s3(3) [OF path(1)] ne n2 by simp
      show ?thesis
      proof (cases "table_empty s3 t3")
        case False
        have "used r s3 p1"
          by (rule used_inner [OF s3(2) lb3 path(1) _ n3 False]) (auto simp: p1_def)
        then show ?thesis
          using False True True2 s2 s3 by (intro that [of s3] rest [OF lb3]) (auto simp: def)
      next
        case True3: True
        have root: "node s3 r [] = Some r" by simp
        obtain s4 where s4: "drop_table r (pml4e va) t3 s3 = Inr s4" "space_ok r s4"
            "mapping r s4 = mapping r s3" "tables r s4 = tables r s3 - {p1}" "pool r s4 = pool r s3"
          using drop_table_spec [OF s3(2) path(4) root _ True3] n3 app by metis
        have lb4: "lean r s4" by (rule lean_but_drop [OF lb3 s4(4,3)])
        show ?thesis
          using True True2 True3 s2 s3 s4 lb4 by (intro that [of s4]) (auto simp: def)
      qed
    qed
  qed
qed

lemma mapping_update:
  "(\<And>w. leaf_path w \<Longrightarrow> leaf_entry s' r w = (if w = v then e else leaf_entry s r w)) \<Longrightarrow> leaf_path v \<Longrightarrow>
   mapping r s' = (mapping r s)(v := e)"
  by (auto simp: mapping_def)

text \<open>How far the walk of \<open>unmap_page\<close> gets.\<close>

lemma unmap_page_walk:
  assumes sp: "space_ok r (kern m)"
  obtains (Nothing_There) "unmap_page r va m = Inr m" and "mapping r (kern m) (vpn va) AND VMM_FLAG_PRESENT = 0"
  | (Present) t3 t2 t1 where "node (kern m) r [pml4e va] = Some t3"
      and "node (kern m) r [pml4e va, pdpe va] = Some t2"
      and "node (kern m) r [pml4e va, pdpe va, pde va] = Some t1"
      and "mapping r (kern m) (vpn va) = entry (kern m) t1 (pte va)"
      and "entry (kern m) t1 (pte va) AND VMM_FLAG_PRESENT \<noteq> 0"
      and "unmap_page r va m =
        (let s = set_entry t1 (pte va) 0 (kern m); m = flush_page r va (m\<lparr>kern := s\<rparr>)
         in and_then (drop_empty_tables va r t3 t2 t1 s) (\<lambda>s. Inr (m\<lparr>kern := s\<rparr>)))"
proof -
  let ?s = "kern m" and ?i4 = "pml4e va" and ?i3 = "pdpe va" and ?i2 = "pde va" and ?i1 = "pte va"
  have path: "path []" "path [?i4]" "path [?i4, ?i3]" "path [?i4, ?i3, ?i2]" by (simp_all add: path_def)
  have map: "mapping r ?s (vpn va) = (case node ?s r [?i4, ?i3, ?i2] of None \<Rightarrow> 0 | Some t \<Rightarrow> entry ?s t ?i1)"
    using leaf_path_vpn [of va] by (simp add: mapping_def leaf_entry_def vpn_def split: option.split)
  have step: "child_table (entry ?s t i) = next_table (entry ?s t i)"
    if "node ?s r p = Some t" "path p" "length p < 3" "i < 512" for p t i
    by (rule child_table_eq [OF space_okD(3) [OF sp that(2,3,1,4)]])
  note unf = unmap_page_def Let_def
  show ?thesis
  proof (cases "node ?s r [?i4]")
    case None
    then show ?thesis using Nothing_There map by (simp add: unf split: if_splits)
  next
    case t3: (Some t3)
    then have c3: "child_table (entry ?s r ?i4) = t3" "entry ?s r ?i4 AND VMM_FLAG_PRESENT \<noteq> 0"
      using step [of "[]" r ?i4] path(1) by (simp_all split: if_splits)
    show ?thesis
    proof (cases "node ?s r [?i4, ?i3]")
      case None
      have "entry ?s t3 ?i3 AND VMM_FLAG_PRESENT = 0"
        using None node_snoc [of ?s r "[?i4]" ?i3] t3 by (simp split: if_splits)
      then show ?thesis using Nothing_There map None c3 t3 node_snoc [of ?s r "[?i4, ?i3]" ?i2] by (simp add: unf)
    next
      case t2: (Some t2)
      then have c2: "child_table (entry ?s t3 ?i3) = t2" "entry ?s t3 ?i3 AND VMM_FLAG_PRESENT \<noteq> 0"
        using node_snoc [of ?s r "[?i4]" ?i3] t3 step [OF t3 path(2)] by (simp_all split: if_splits)
      show ?thesis
      proof (cases "node ?s r [?i4, ?i3, ?i2]")
        case None
        have "entry ?s t2 ?i2 AND VMM_FLAG_PRESENT = 0"
          using None node_snoc [of ?s r "[?i4, ?i3]" ?i2] t2 by (simp split: if_splits)
        then show ?thesis using Nothing_There map None c3 c2 by (simp add: unf)
      next
        case t1: (Some t1)
        then have c1: "child_table (entry ?s t2 ?i2) = t1" "entry ?s t2 ?i2 AND VMM_FLAG_PRESENT \<noteq> 0"
          using node_snoc [of ?s r "[?i4, ?i3]" ?i2] t2 step [OF t2 path(3)] by (simp_all split: if_splits)
        show ?thesis
        proof (cases "entry ?s t1 ?i1 AND VMM_FLAG_PRESENT = 0")
          case True
          then show ?thesis using Nothing_There map t1 c3 c2 c1 by (simp add: unf)
        next
          case False
          show ?thesis
            by (rule Present [OF t3 t2 t1]) (use map t1 c3 c2 c1 False in \<open>simp_all add: unf\<close>)
        qed
      qed
    qed
  qed
qed

lemma take_vpn: "p \<noteq> [] \<Longrightarrow> length p \<le> 3 \<Longrightarrow> take (length p) (vpn va) = p \<Longrightarrow> p \<in> vpn_tables va"
proof -
  assume p: "p \<noteq> []" "length p \<le> 3" "take (length p) (vpn va) = p"
  have "0 < length p" using p(1) by simp
  then have "length p = 1 \<or> length p = 2 \<or> length p = 3" using p(2) by arith
  then show ?thesis
  proof (elim disjE)
    assume "length p = 3"
    then show ?thesis using p(3) by (simp add: vpn_def vpn_tables_def numeral_3_eq_3)
  qed (use p(3) in \<open>simp_all add: vpn_def vpn_tables_def numeral_2_eq_2\<close>)
qed

lemma lean_but_unset:
  assumes "lean r s" and "mapping r s' = (mapping r s)(vpn va := 0)" and "tables r s' = tables r s"
  shows "lean_but {[pml4e va, pdpe va, pde va], [pml4e va, pdpe va], [pml4e va]} r s'"
  unfolding lean_but_def
proof (intro ballI impI)
  fix p assume p: "p \<in> tables r s'" "p \<noteq> []"
    "p \<notin> {[pml4e va, pdpe va, pde va], [pml4e va, pdpe va], [pml4e va]}"
  then obtain w where w: "mapping r s w \<noteq> 0" "take (length p) w = p"
    using assms(1,3) by (auto simp: lean_but_def used_def)
  have "length p \<le> 3" using p(1) by (auto simp: tables_def path_def)
  then have "w \<noteq> vpn va" using take_vpn [OF p(2)] w(2) p(3) by (auto simp: vpn_tables_def)
  then show "used r s' p" using w by (auto simp: used_def assms(2))
qed

lemma unmap_page_spec:
  assumes sp: "space_ok r (kern m)" and lean: "lean r (kern m)"
  obtains m' where "unmap_page r va m = Inr m'" and "space_ok r (kern m')" and "lean r (kern m')"
    and "mapping r (kern m') = (if mapping r (kern m) (vpn va) AND VMM_FLAG_PRESENT = 0 then mapping r (kern m)
      else (mapping r (kern m))(vpn va := 0))"
    and "pool r (kern m') = pool r (kern m)" and "cr3 m' = cr3 m" and "kaddrspace m' = kaddrspace m"
proof (cases rule: unmap_page_walk [OF sp, of va])
  case 1
  then show ?thesis using that [of m] sp lean by simp
next
  case (2 t3 t2 t1)
  let ?p = "[pml4e va, pdpe va, pde va]" and ?s = "set_entry t1 (pte va) 0 (kern m)"
  have p: "path [pml4e va]" "path [pml4e va, pdpe va]" "path ?p" "length ?p = 3" by (simp_all add: path_def)
  note l = set_leaf [OF sp p(3,4) 2(3) index_less(1), where v = 0]
  note h = set_entry_heap [OF sp p(3) 2(3) index_less(1), where v = 0]
  note same = set_leaf_pool [OF l(2) h(2)]
  have m: "mapping r ?s = (mapping r (kern m))(vpn va := 0)"
    by (rule mapping_update) (simp add: l(3) vpn_def, rule leaf_path_vpn)
  have nodes: "node ?s r [pml4e va] = Some t3" "node ?s r [pml4e va, pdpe va] = Some t2" "node ?s r ?p = Some t1"
    by (simp_all only: l(2) [OF p(1)] l(2) [OF p(2)] l(2) [OF p(3)] 2(1-3))
  obtain s' where s': "drop_empty_tables va r t3 t2 t1 ?s = Inr s'" "space_ok r s'" "lean r s'"
      "mapping r s' = mapping r ?s" "pool r s' = pool r ?s"
    by (rule drop_empty_tables_spec [OF l(1) nodes lean_but_unset [OF lean m same(1)]]) blast
  show ?thesis
  proof (rule that)
    let ?m = "flush_page r va (m\<lparr>kern := ?s\<rparr>)"
    show "unmap_page r va m = Inr (?m\<lparr>kern := s'\<rparr>)" using 2(6) s'(1) by (simp add: Let_def)
    show "mapping r (kern (?m\<lparr>kern := s'\<rparr>)) = (if mapping r (kern m) (vpn va) AND VMM_FLAG_PRESENT = 0
        then mapping r (kern m) else (mapping r (kern m))(vpn va := 0))"
      using 2(4,5) s'(4) m by simp
    show "pool r (kern (?m\<lparr>kern := s'\<rparr>)) = pool r (kern m)" using s'(5) same(2) by simp
  qed (use s' in simp_all)
qed

text \<open>Mapping keeps the tree lean, unless it writes a zero entry.\<close>

lemma lean_map:
  assumes "lean r s" and "mapping r s' = (mapping r s)(vpn va := e)" and "e \<noteq> 0"
    and "tables r s' = tables r s \<union> vpn_tables va"
  shows "lean r s'"
  unfolding lean_but_def
proof (intro ballI impI)
  fix p assume p: "p \<in> tables r s'" "p \<noteq> []"
  show "used r s' p"
  proof (cases "p \<in> vpn_tables va")
    case True
    then have "take (length p) (vpn va) = p" by (auto simp: vpn_tables_def vpn_def)
    then show ?thesis using assms(2,3) by (auto simp: used_def)
  next
    case False
    then have "p \<in> tables r s" using p(1) assms(4) by blast
    then obtain w where "mapping r s w \<noteq> 0" "take (length p) w = p"
      using assms(1) p(2) by (auto simp: lean_but_def used_def)
    moreover from this have "mapping r s' w \<noteq> 0" using assms(2,3) by simp
    ultimately show ?thesis unfolding used_def by blast
  qed
qed

text \<open>The number of free frames follows from the mapping alone.\<close>

lemma card_pool:
  assumes "space_ok r s"
  shows "card (pool r s) = card (usable s) + card (tables r s)" and "finite (tables r s)"
proof -
  have inj: "inj_on (\<lambda>p. page_of (the (node s r p))) (tables r s)"
  proof (rule inj_onI)
    fix p q assume "p \<in> tables r s" "q \<in> tables r s" "page_of (the (node s r p)) = page_of (the (node s r q))"
    then show "p = q" using space_okD(4) [OF assms, of p q] by (auto simp: tables_def)
  qed
  have sub: "table_pages r s \<subseteq> tracked s - usable s"
    using space_okD(2) [OF assms] by (auto simp: table_pages_def owned_def)
  then have fin: "finite (table_pages r s)" by (rule finite_subset) simp
  show "finite (tables r s)" using fin inj by (simp add: table_pages_eq finite_image_iff)
  have "card (table_pages r s) = card (tables r s)" unfolding table_pages_eq by (rule card_image [OF inj])
  moreover have "card (pool r s) = card (usable s) + card (table_pages r s)"
    unfolding pool_def by (rule card_Un_disjoint) (use fin sub in auto)
  ultimately show "card (pool r s) = card (usable s) + card (tables r s)" by simp
qed

lemma lean_tables:
  assumes "lean r s"
  shows "tables r s = insert [] {take k w | k w. k \<in> {1, 2, 3} \<and> mapping r s w \<noteq> 0}"
proof (intro set_eqI iffI)
  fix p assume p: "p \<in> tables r s"
  show "p \<in> insert [] {take k w | k w. k \<in> {1, 2, 3} \<and> mapping r s w \<noteq> 0}"
  proof (cases "p = []")
    case False
    then obtain w where w: "mapping r s w \<noteq> 0" "take (length p) w = p"
      using assms p by (auto simp: lean_but_def used_def)
    have "length p \<le> 3" "0 < length p" using p False by (auto simp: tables_def path_def)
    then have "length p = 1 \<or> length p = 2 \<or> length p = 3" by arith
    then have "length p \<in> {1, 2, 3}" by simp
    then show ?thesis using w by (intro insertI2 CollectI) metis
  qed simp
next
  fix p assume "p \<in> insert [] {take k w | k w. k \<in> {1, 2, 3} \<and> mapping r s w \<noteq> 0}"
  moreover have "[] \<in> tables r s" by (simp add: tables_def path_def)
  ultimately show "p \<in> tables r s" using mapping_tables(1) [of r s] by fastforce
qed

lemma lean_determined:
  "lean r s \<Longrightarrow> lean r s' \<Longrightarrow> mapping r s' = mapping r s \<Longrightarrow> tables r s' = tables r s"
  by (simp add: lean_tables)

end
