(* ===== verification/VmmProps.thy ===== *)
theory VmmProps
  imports VmmMap
begin

text \<open>
  The properties of the virtual memory manager: \<open>vmm_map\<close> and \<open>vmm_unmap\<close> refine the update of a
  range of pages of an abstract address space, take and give back exactly the frames for the tables,
  and fail only when memory runs out; \<open>vmm_init\<close> builds the direct map.
\<close>

section \<open>Ranges of pages\<close>

text \<open>The page number of an address is given by its bits 12 to 47.\<close>

lemma vpn_eqD:
  assumes "vpn a = vpn b"
  shows "take_bit 36 (drop_bit 12 a) = take_bit 36 (drop_bit 12 b)"
proof (rule bit_word_eqI)
  fix n
  have f: "bit (drop_bit k a AND 0x1ff) i = bit (drop_bit k b AND 0x1ff) i" if "k \<in> {12, 21, 30, 39}" for k i
    using assms that by (auto simp: vpn_def pte_def pde_def pdpe_def pml4e_def)
  have g: "bit a (k + i) = bit b (k + i)" if "k \<in> {12, 21, 30, 39}" "i < 9" for k i
    using f [OF that(1), of i] that by (auto simp: masks bit_simps)
  have "bit a (12 + n) = bit b (12 + n)" if "n < 36"
  proof -
    have "n < 9 \<or> (9 \<le> n \<and> n < 18) \<or> (18 \<le> n \<and> n < 27) \<or> (27 \<le> n \<and> n < 36)" using that by arith
    then show ?thesis
      using g [of 12 n] g [of 21 "n - 9"] g [of 30 "n - 18"] g [of 39 "n - 27"] by auto
  qed
  then show "bit (take_bit 36 (drop_bit 12 a)) n = bit (take_bit 36 (drop_bit 12 b)) n"
    by (auto simp: bit_simps)
qed

lemma take_drop_mod: "take_bit 36 (drop_bit 12 (x mod 2 ^ 64 :: nat)) = x div 4096 mod 2 ^ 36"
proof -
  have "take_bit 36 (drop_bit 12 (take_bit 64 x)) = take_bit 36 (drop_bit 12 x)"
    by (rule bit_eqI) (auto simp: bit_simps)
  then show ?thesis by (simp add: take_bit_eq_mod drop_bit_eq_div)
qed

lemma vpn_page:
  "unat (take_bit 36 (drop_bit 12 (va + of_nat (k * 4096))) :: u64) = (unat va div 4096 + k) mod 2 ^ 36"
proof -
  have "unat (va + of_nat (k * 4096) :: u64) = (unat va + k * 4096) mod 2 ^ 64"
    by (simp add: unat_word_ariths unat_of_nat take_bit_eq_mod mod_simps)
  then have "take_bit 36 (drop_bit 12 (unat (va + of_nat (k * 4096)))) = (unat va + k * 4096) div 4096 mod 2 ^ 36"
    by (simp only: take_drop_mod)
  then show ?thesis by (simp add: unsigned_take_bit_eq unat_drop_bit_eq add.commute)
qed

lemma add_mod_inj:
  assumes "(c + k) mod M = (c + l) mod M" and "k < M" and "l < (M :: nat)"
  shows "k = l"
proof -
  have *: "b = a" if "a \<le> b" "b < M" "(c + b) mod M = (c + a) mod M" for a b
  proof -
    have "M dvd (c + b) - (c + a)" using that by (subst (asm) mod_eq_dvd_iff_nat) simp_all
    then have "M dvd b - a" by simp
    then have "b - a = 0" using that(2) by (metis dvd_imp_le gr0I less_imp_diff_less not_less)
    then show ?thesis using that(1) by simp
  qed
  show ?thesis
  proof (cases "k \<le> l")
    case True
    show ?thesis by (rule * [OF True assms(3) assms(1) [symmetric], symmetric])
  next
    case False
    then have "l \<le> k" by simp
    then show ?thesis by (rule * [OF _ assms(2,1)])
  qed
qed

lemma vpn_range_inj:
  assumes "n \<le> 2 ^ 36" and "k < n" and "l < n"
    and "vpn (va + of_nat (k * 4096)) = vpn (va + of_nat (l * 4096))"
  shows "k = l"
proof -
  let ?c = "unat va div 4096" and ?M = "2 ^ 36 :: nat"
  have "(?c + k) mod ?M = (?c + l) mod ?M"
    using arg_cong [OF vpn_eqD [OF assms(4)], of unat] by (simp only: vpn_page)
  then show ?thesis by (rule add_mod_inj) (use assms(1-3) in simp_all)
qed

section \<open>The address space as an instance of its contract\<close>

definition vmm_ok :: "u64 \<Rightarrow> machine \<Rightarrow> bool" where
  "vmm_ok r m \<longleftrightarrow> space_ok r (kern m) \<and> lean r (kern m)
     \<and> (\<forall>v. mapping r (kern m) v AND VMM_FLAG_PRESENT = 0 \<longrightarrow> mapping r (kern m) v = 0)"

lemma map_page_enough:
  assumes sp: "space_ok r (kern m)" and run: "map_page r va pa fl m = Inr m'"
  shows "card (vpn_tables va - tables r (kern m)) \<le> card (usable (kern m))"
proof -
  let ?s = "kern m" and ?i4 = "pml4e va" and ?i3 = "pdpe va" and ?i2 = "pde va"
  obtain t3 s1 t2 s2 t1 s3 where g: "get_table r ?i4 ?s = Inr (t3, s1)" "get_table t3 ?i3 s1 = Inr (t2, s2)"
      "get_table t2 ?i2 s2 = Inr (t1, s3)"
    using run by (auto simp: map_page_def elim!: and_then_InrE)
  have path: "path [?i4]" "path [?i4, ?i3]" "path [?i4, ?i3, ?i2]" by (simp_all add: path_def)
  have r0: "node ?s r [] = Some r" by simp
  note 1 = get_table_taken [OF sp append_Nil [symmetric] path(1) r0 g(1)]
  have q2: "[?i4, ?i3] = [?i4] @ [?i3]" and q3: "[?i4, ?i3, ?i2] = [?i4, ?i3] @ [?i2]" by simp_all
  note 2 = get_table_taken [OF 1(1) q2 path(2) 1(2) g(2)]
  note 3 = get_table_taken [OF 2(1) q3 path(3) 2(2) g(3)]
  have d: "{[?i4, ?i3]} - tables r s1 = {[?i4, ?i3]} - tables r ?s"
      "{[?i4, ?i3, ?i2]} - tables r s2 = {[?i4, ?i3, ?i2]} - tables r ?s"
    unfolding 2(3) 1(3) by auto
  show ?thesis using 1(4) 2(4) 3(4) by (simp add: card_vpn_tables d)
qed

lemma get_table_limit:
  "space_ok r s \<Longrightarrow> get_table t i s = Inr (u, s') \<Longrightarrow> phys_limit (memstats s') = phys_limit (memstats s)"
  by (auto simp: get_table_def Let_def split: if_splits elim!: and_then_InrE dest!: space_okD(1) pmm_get_frame(8))

lemma map_page_limit:
  assumes sp: "space_ok r (kern m)" and run: "map_page r va pa fl m = Inr m'"
  shows "phys_limit (memstats (kern m')) = phys_limit (memstats (kern m))"
proof -
  let ?i4 = "pml4e va" and ?i3 = "pdpe va"
  obtain t3 s1 t2 s2 t1 s3 where g: "get_table r ?i4 (kern m) = Inr (t3, s1)" "get_table t3 ?i3 s1 = Inr (t2, s2)"
      "get_table t2 (pde va) s2 = Inr (t1, s3)"
    and m': "kern m' = set_entry t1 (pte va) (MAKE_TABLE_ENTRY (pa AND NOT 0xfff) fl) s3"
    using run by (auto simp: map_page_def Let_def elim!: and_then_InrE)
  have path: "path [?i4]" "path [?i4, ?i3]" by (simp_all add: path_def)
  have r0: "node (kern m) r [] = Some r" and q2: "[?i4, ?i3] = [?i4] @ [?i3]" by simp_all
  note 1 = get_table_taken [OF sp append_Nil [symmetric] path(1) r0 g(1)]
  note 2 = get_table_taken [OF 1(1) q2 path(2) 1(2) g(2)]
  show ?thesis
    using get_table_limit [OF sp g(1)] get_table_limit [OF 1(1) g(2)] get_table_limit [OF 2(1) g(3)]
    by (simp only: m' set_entry_fields)
qed

lemma entry_present: "(MAKE_TABLE_ENTRY a (VMM_FLAG_PRESENT OR fl)) AND VMM_FLAG_PRESENT \<noteq> 0"
proof -
  have "bit ((MAKE_TABLE_ENTRY a (VMM_FLAG_PRESENT OR fl)) AND 1) 0"
    by (simp add: MAKE_TABLE_ENTRY_def bit_simps)
  then show ?thesis by (intro notI) simp
qed

definition vmm_inv :: "u64 \<Rightarrow> nat set \<Rightarrow> u64 \<Rightarrow> u64 \<Rightarrow> machine \<Rightarrow> bool" where
  "vmm_inv r P ka cr m \<longleftrightarrow> vmm_ok r m \<and> pool r (kern m) = P \<and> kaddrspace m = ka \<and> cr3 m = cr"

lemma map_page_law:
  assumes ok: "vmm_inv r P ka cr m" and run: "map_page r va pa (VMM_FLAG_PRESENT OR fl) m = Inr m'"
  shows "vmm_inv r P ka cr m' \<and> mapping r (kern m') =
    (mapping r (kern m))(vpn va := MAKE_TABLE_ENTRY (pa AND NOT 0xfff) (VMM_FLAG_PRESENT OR fl))"
proof -
  define e where "e = MAKE_TABLE_ENTRY (pa AND NOT 0xfff) (VMM_FLAG_PRESENT OR fl)"
  have sp: "space_ok r (kern m)" and lean: "lean r (kern m)" using ok by (simp_all add: vmm_inv_def vmm_ok_def)
  have e: "e \<noteq> 0" "e AND VMM_FLAG_PRESENT \<noteq> 0" using entry_present unfolding e_def by (metis and_zero_eq and.commute)+
  obtain m1 where m1: "map_page r va pa (VMM_FLAG_PRESENT OR fl) m = Inr m1" "space_ok r (kern m1)"
      "mapping r (kern m1) = (mapping r (kern m))(vpn va := e)"
      "tables r (kern m1) = tables r (kern m) \<union> vpn_tables va"
      "pool r (kern m1) = pool r (kern m)" "cr3 m1 = cr3 m" "kaddrspace m1 = kaddrspace m"
    unfolding e_def by (rule map_page_spec [OF sp map_page_enough [OF sp run]])
  have "lean r (kern m1)" by (rule lean_map [OF lean m1(3) e(1) m1(4)])
  then show ?thesis
    using m1 run ok e(2) unfolding e_def [symmetric] by (auto simp: vmm_inv_def vmm_ok_def)
qed

interpretation vmm: page_mapper "vmm_inv r P ka cr" "\<lambda>m. mapping r (kern m)" vpn
  "\<lambda>pa. MAKE_TABLE_ENTRY (pa AND NOT 0xfff) (VMM_FLAG_PRESENT OR fl)" 0
  "\<lambda>va pa. map_page r va pa (VMM_FLAG_PRESENT OR fl)" "unmap_page r"
  for r P ka cr fl
proof
  fix m va pa m'
  assume "vmm_inv r P ka cr m" "map_page r va pa (VMM_FLAG_PRESENT OR fl) m = Inr m'"
  then show "vmm_inv r P ka cr m' \<and> mapping r (kern m') =
    (mapping r (kern m))(vpn va := MAKE_TABLE_ENTRY (pa AND NOT 0xfff) (VMM_FLAG_PRESENT OR fl))"
    by (rule map_page_law)
next
  fix m va assume ok: "vmm_inv r P ka cr m"
  then have sp: "space_ok r (kern m)" "lean r (kern m)" by (simp_all add: vmm_inv_def vmm_ok_def)
  obtain m' where m': "unmap_page r va m = Inr m'" "space_ok r (kern m')" "lean r (kern m')"
    "mapping r (kern m') = (if mapping r (kern m) (vpn va) AND VMM_FLAG_PRESENT = 0 then mapping r (kern m)
      else (mapping r (kern m))(vpn va := 0))"
    "pool r (kern m') = pool r (kern m)" "cr3 m' = cr3 m" "kaddrspace m' = kaddrspace m"
    by (rule unmap_page_spec [OF sp])
  have "mapping r (kern m') = (mapping r (kern m))(vpn va := 0)"
    using ok m'(4) by (auto simp: vmm_inv_def vmm_ok_def fun_eq_iff)
  then show "\<exists>m'. unmap_page r va m = Inr m' \<and> vmm_inv r P ka cr m' \<and>
      mapping r (kern m') = (mapping r (kern m))(vpn va := 0)"
    using ok m' by (auto simp: vmm_inv_def vmm_ok_def)
qed

section \<open>The loops\<close>

definition range_vpns :: "u64 \<Rightarrow> nat \<Rightarrow> u64 list set" where
  "range_vpns va n = (\<lambda>k. vpn (va + of_nat (k * 4096))) ` {..<n}"

definition range_tables :: "u64 \<Rightarrow> nat \<Rightarrow> u64 list set" where
  "range_tables va n = (\<Union>k<n. vpn_tables (va + of_nat (k * 4096)))"

lemma finite_range_tables [simp]: "finite (range_tables va n)"
  by (simp add: range_tables_def vpn_tables_def)

lemma card_Un_diff:
  "finite P \<Longrightarrow> finite U \<Longrightarrow> card ((P \<union> U) - T) = card (P - T) + card (U - (T \<union> P))"
proof -
  assume f: "finite P" "finite U"
  have "(P \<union> U) - T = (P - T) \<union> (U - (T \<union> P))" by blast
  then show ?thesis using f by (simp only:) (rule card_Un_disjoint, auto)
qed

text \<open>A range is mapped exactly when the frames suffice for the tables that are missing.\<close>

lemma map_range_frames:
  fixes va pa fl
  assumes "space_ok r (kern m)"
  defines "body \<equiv> \<lambda>i. step_or_stop (map_page r (va + i) (pa + i) fl)"
  defines "need \<equiv> \<lambda>xs m. card ((\<Union>i\<in>set xs. vpn_tables (va + i)) - tables r (kern m))"
  shows "case run_loop body xs m of
      Inl m' \<Rightarrow> need xs m \<le> card (usable (kern m))
        \<and> card (usable (kern m)) = card (usable (kern m')) + need xs m
        \<and> tables r (kern m') = tables r (kern m) \<union> (\<Union>i\<in>set xs. vpn_tables (va + i))
        \<and> phys_limit (memstats (kern m')) = phys_limit (memstats (kern m))
    | Inr x \<Rightarrow> card (usable (kern m)) < need xs m \<and> x = Inl (Kernel_Panic ''Out of Physical Memory'')"
  using assms(1)
proof (induction xs arbitrary: m)
  case Nil
  then show ?case by (simp add: need_def)
next
  case (Cons i js)
  let ?P = "vpn_tables (va + i)" and ?U = "\<Union>i\<in>set js. vpn_tables (va + i)"
  have fin: "finite ?P" "finite ?U" by (simp_all add: vpn_tables_def)
  have step: "need (i # js) m = card (?P - tables r (kern m)) + card (?U - (tables r (kern m) \<union> ?P))"
    using card_Un_diff [OF fin] by (simp add: need_def)
  show ?case
  proof (cases "card (?P - tables r (kern m)) \<le> card (usable (kern m))")
    case True
    obtain m1 where m1: "map_page r (va + i) (pa + i) fl m = Inr m1" "space_ok r (kern m1)"
        "tables r (kern m1) = tables r (kern m) \<union> ?P"
        "card (usable (kern m)) = card (usable (kern m1)) + card (?P - tables r (kern m))"
      by (rule map_page_spec [OF Cons.prems True])
    have lim: "phys_limit (memstats (kern m1)) = phys_limit (memstats (kern m))"
      by (rule map_page_limit [OF Cons.prems m1(1)])
    have b: "body i m = Inl m1" using m1(1) by (simp add: body_def step_or_stop_def)
    have n: "need js m1 = card (?U - (tables r (kern m) \<union> ?P))" by (simp add: need_def m1(3))
    show ?thesis using Cons.IH [OF m1(2)] m1(3,4) lim unfolding step run_loop.simps b n [symmetric]
      by (auto split: sum.splits)
  next
    case False
    have no: "map_page r (va + i) (pa + i) fl m \<noteq> Inr m'" for m'
      using map_page_enough [OF Cons.prems] False by blast
    then obtain e where e: "map_page r (va + i) (pa + i) fl m = Inl e"
      by (cases "map_page r (va + i) (pa + i) fl m") auto
    have "e = Kernel_Panic ''Out of Physical Memory''" by (rule map_page_Inl [OF Cons.prems e])
    then have "body i m = Inr (Inl (Kernel_Panic ''Out of Physical Memory''))"
      using e by (simp add: body_def step_or_stop_def)
    then show ?thesis using False by (simp add: step)
  qed
qed

lemma page_list:
  "set (page_seq 0 n) = (\<lambda>k. of_nat (k * 4096)) ` {..<n}" "length (page_seq 0 n) = n"
  by (auto simp: page_seq_def)

lemma page_list_range:
  "(\<Union>i\<in>set (page_seq 0 n). vpn_tables (va + i)) = range_tables va n"
  "(\<lambda>i. vpn (va + i)) ` set (page_seq 0 n) = range_vpns va n"
  by (auto simp: page_list range_tables_def range_vpns_def image_image)

lemma page_list_inj:
  assumes "n \<le> 2 ^ 36"
  shows "distinct (page_seq 0 n)" and "inj_on (\<lambda>i. vpn (va + i)) (set (page_seq 0 n))"
proof -
  show "inj_on (\<lambda>i. vpn (va + i)) (set (page_seq 0 n))"
  proof (rule inj_onI)
    fix x y assume "x \<in> set (page_seq 0 n)" "y \<in> set (page_seq 0 n)" and eq: "vpn (va + x) = vpn (va + y)"
    then obtain k l where k: "k < n" "x = of_nat (k * 4096)" and l: "l < n" "y = of_nat (l * 4096)"
      unfolding page_list by blast
    have "k = l" by (rule vpn_range_inj [OF assms k(1) l(1)]) (use eq k(2) l(2) in simp)
    then show "x = y" by (simp add: k l)
  qed
  have "inj_on (\<lambda>k. of_nat (k * 4096) :: u64) {..<n}"
  proof (rule inj_onI)
    fix k l assume k: "k \<in> {..<n}" "l \<in> {..<n}" and eq: "of_nat (k * 4096) = (of_nat (l * 4096) :: u64)"
    show "k = l" by (rule vpn_range_inj [OF assms, of _ _ 0]) (use k eq in auto)
  qed
  then have "card (set (page_seq 0 n)) = n" unfolding page_list by (simp add: card_image)
  then show "distinct (page_seq 0 n)" by (intro card_distinct) (simp add: page_list(2))
qed

lemma vmm_loop:
  assumes "unat np \<le> 2 ^ 36"
  shows "for_pages (np * PAGE_SIZE) body 0 m = Some (run_loop body (page_seq 0 (unat np)) m)"
proof (rule for_pages_run)
  have "unat np * 4096 < 2 ^ 64" using assms by simp
  then show "unat (np * PAGE_SIZE) = unat (0 :: u64) + unat np * 4096" by (simp add: unat_mult_page)
qed (use assms in simp)

lemma vmm_map_run:
  assumes "unat np \<le> 2 ^ 36" and "addrspace_of as m = r"
  shows "vmm_map as va pa np fl m =
    (case run_loop (\<lambda>i. step_or_stop (map_page r (va + i) (pa + i) fl)) (page_seq 0 (unat np)) m of
       Inl m' \<Rightarrow> Inr m' | Inr x \<Rightarrow> x)"
  using assms by (simp add: vmm_map_def Let_def vmm_loop split: sum.split)

lemma vmm_unmap_run:
  assumes "unat np \<le> 2 ^ 36" and "addrspace_of as m = r"
  shows "vmm_unmap as va np m =
    (case run_loop (\<lambda>i. step_or_stop (unmap_page r (va + i))) (page_seq 0 (unat np)) m of
       Inl m' \<Rightarrow> Inr m' | Inr x \<Rightarrow> x)"
  using assms by (simp add: vmm_unmap_def Let_def vmm_loop split: sum.split)

lemma present_flags: "fl AND VMM_FLAG_PRESENT \<noteq> 0 \<Longrightarrow> VMM_FLAG_PRESENT OR fl = fl"
proof -
  assume "fl AND VMM_FLAG_PRESENT \<noteq> 0"
  then have "bit fl 0" by (simp add: bit_0 and_one_eq odd_iff_mod_2_eq_one)
  then show ?thesis by (intro bit_word_eqI) (auto simp: bit_simps)
qed

lemma make_entry_idem: "MAKE_TABLE_ENTRY (a AND NOT 0xfff) fl = MAKE_TABLE_ENTRY a fl"
  by (simp only: MAKE_TABLE_ENTRY_def and.assoc and.idem)

text \<open>What mapping a range does, for every instance of the contract.\<close>

lemma vmm_map_spec:
  assumes ok: "vmm_inv r P ka cr m" and r: "addrspace_of as m = r" and fl: "fl AND VMM_FLAG_PRESENT \<noteq> 0"
    and n: "unat np \<le> 2 ^ 36" and run: "vmm_map as va pa np fl m = Inr m'"
  shows "vmm_inv r P ka cr m'"
    and "k < unat np \<Longrightarrow> mapping r (kern m') (vpn (va + of_nat (k * 4096))) = MAKE_TABLE_ENTRY (pa + of_nat (k * 4096)) fl"
    and "v \<notin> range_vpns va (unat np) \<Longrightarrow> mapping r (kern m') v = mapping r (kern m) v"
    and "card (usable (kern m)) = card (usable (kern m')) + card (range_tables va (unat np) - tables r (kern m))"
    and "tables r (kern m') = tables r (kern m) \<union> range_tables va (unat np)"
    and "phys_limit (memstats (kern m')) = phys_limit (memstats (kern m))"
proof -
  let ?is = "page_seq 0 (unat np)" and ?body = "\<lambda>i. step_or_stop (map_page r (va + i) (pa + i) fl)"
  have loop: "run_loop ?body ?is m = Inl m'"
    using run map_range_frames [of r m, where va = va and pa = pa and fl = fl and xs = ?is] ok
    by (auto simp: vmm_map_run [OF n r] vmm_inv_def vmm_ok_def split: sum.splits)
  note m = vmm.map_range [where fl = fl, OF ok, unfolded present_flags [OF fl], OF loop page_list_inj(2,1) [OF n]]
  show "vmm_inv r P ka cr m'" by (rule m(1))
  show "mapping r (kern m') (vpn (va + of_nat (k * 4096))) = MAKE_TABLE_ENTRY (pa + of_nat (k * 4096)) fl"
    if "k < unat np"
    using m(2) [of "of_nat (k * 4096)"] that unfolding page_list make_entry_idem by blast
  show "mapping r (kern m') v = mapping r (kern m) v" if "v \<notin> range_vpns va (unat np)"
    using m(3) that unfolding page_list_range by blast
  show "card (usable (kern m)) = card (usable (kern m')) + card (range_tables va (unat np) - tables r (kern m))"
    "tables r (kern m') = tables r (kern m) \<union> range_tables va (unat np)"
    "phys_limit (memstats (kern m')) = phys_limit (memstats (kern m))"
    using map_range_frames [of r m, where va = va and pa = pa and fl = fl and xs = ?is] ok loop
    by (simp_all add: vmm_inv_def vmm_ok_def page_list_range)
qed

lemma vmm_map_returns:
  assumes "space_ok r (kern m)" and "addrspace_of as m = r" and "unat np \<le> 2 ^ 36"
  shows "if card (range_tables va (unat np) - tables r (kern m)) \<le> card (usable (kern m))
     then \<exists>m'. vmm_map as va pa np fl m = Inr m'
     else vmm_map as va pa np fl m = Inl (Kernel_Panic ''Out of Physical Memory'')"
  using map_range_frames [OF assms(1), where va = va and pa = pa and fl = fl and xs = "page_seq 0 (unat np)"]
  by (auto simp: vmm_map_run [OF assms(3,2)] page_list_range split: sum.splits)

lemma vmm_unmap_spec:
  assumes ok: "vmm_inv r P ka cr m" and r: "addrspace_of as m = r" and n: "unat np \<le> 2 ^ 36"
  shows "\<exists>m'. vmm_unmap as va np m = Inr m' \<and> vmm_inv r P ka cr m'
    \<and> (\<forall>v. mapping r (kern m') v = (if v \<in> range_vpns va (unat np) then 0 else mapping r (kern m) v))"
  using vmm.unmap_range [OF ok, of va "page_seq 0 (unat np)"]
  by (auto simp: vmm_unmap_run [OF n r] page_list_range)

text \<open>The number of free frames of a lean address space is determined by its mapping.\<close>

lemma free_frames_determined:
  assumes "vmm_inv r P ka cr m" and "vmm_inv r P ka cr m'" and "mapping r (kern m') = mapping r (kern m)"
  shows "card (usable (kern m')) = card (usable (kern m))"
proof -
  have sp: "space_ok r (kern m)" "space_ok r (kern m')" and l: "lean r (kern m)" "lean r (kern m')"
    and p: "pool r (kern m') = pool r (kern m)"
    using assms(1,2) by (simp_all add: vmm_inv_def vmm_ok_def)
  then show ?thesis
    using card_pool(1) [OF sp(1)] card_pool(1) [OF sp(2)] lean_determined [OF l assms(3)] by simp
qed

section \<open>Translating addresses\<close>

definition page_aligned :: "u64 \<Rightarrow> bool" where
  "page_aligned a \<longleftrightarrow> unat a mod 4096 = 0"

lemma page_aligned_bits:
  assumes "page_aligned a" and "bit a n"
  shows "12 \<le> n"
proof -
  have "unat (take_bit 12 a) = 0" using assms(1) by (simp add: page_aligned_def take_bit_eq_mod unat_mod)
  then have "\<not> bit (take_bit 12 a) n" by (simp add: unat_eq_0)
  then show ?thesis using assms(2) by (simp add: bit_take_bit_iff)
qed

lemma page_aligned_add:
  assumes "page_aligned a"
  shows "page_aligned (a + of_nat (k * 4096))"
proof -
  have "unat (a + of_nat (k * 4096)) = (unat a + k * 4096) mod 2 ^ 64"
    by (simp add: unat_word_ariths unat_of_nat take_bit_eq_mod mod_simps)
  also have "\<dots> mod 4096 = (unat a + k * 4096) mod 4096" by (rule mod_mod_cancel) simp
  also have "\<dots> = 0" using assms by (simp add: page_aligned_def)
  finally show ?thesis by (simp only: page_aligned_def)
qed

lemma offset_bits:
  assumes "o' < 4096"
  shows "bit (of_nat o' :: u64) n \<Longrightarrow> n < 12"
proof -
  have "of_nat o' = (take_bit 12 (of_nat o') :: u64)"
    using assms by (simp only: of_nat_take_bit [symmetric] take_bit_nat_eq_self) (simp add: take_bit_nat_eq_self)
  then show "bit (of_nat o' :: u64) n \<Longrightarrow> n < 12" by (metis bit_take_bit_iff)
qed

lemma offset_or:
  assumes "page_aligned a" and "o' < 4096"
  shows "a + of_nat o' = a OR of_nat o'"
proof -
  have "a AND of_nat o' = 0"
    using page_aligned_bits [OF assms(1)] offset_bits [OF assms(2)]
    by (intro bit_word_eqI) (fastforce simp: bit_simps)
  then show ?thesis by (rule disjunctive_add_eq_or)
qed

lemma vpn_offset:
  assumes "page_aligned a" and "o' < 4096"
  shows "vpn (a + of_nat o') = vpn a"
proof -
  have "drop_bit k (a OR of_nat o') = drop_bit k a" if "12 \<le> k" for k
    using offset_bits [OF assms(2)] that by (intro bit_word_eqI) (fastforce simp: bit_simps)
  then show ?thesis unfolding offset_or [OF assms] by (simp add: vpn_def pte_def pde_def pdpe_def pml4e_def)
qed

lemma translate_page:
  assumes m: "mapping r s (vpn va) = MAKE_TABLE_ENTRY pa fl" and a: "page_aligned va" "page_aligned pa"
    and fl: "fl AND VMM_FLAG_PRESENT \<noteq> 0" "fl < 4096" and pa: "unat pa < 2 ^ 52" and o': "o' < 4096"
  shows "translate s r (va + of_nat o') = Some (pa + of_nat o')"
proof -
  let ?e = "MAKE_TABLE_ENTRY pa fl"
  have e: "leaf_entry s r (vpn (va + of_nat o')) = ?e"
    using m by (simp add: mapping_def vpn_offset [OF a(1) o'])
  have p: "?e AND VMM_FLAG_PRESENT \<noteq> 0" by (rule entry_present [of pa fl, unfolded present_flags [OF fl(1)]])
  have mask: "(0x000ffffffffff000 :: u64) = push_bit 12 (mask 40)"
    by (simp add: mask_eq_exp_minus_1 push_bit_eq_mult)
  have flb: "n < 12" if "bit fl n" for n
    using offset_bits [of "unat fl" n] fl(2) that by (simp add: word_less_nat_alt)
  have pab: "n < 52" if "bit pa n" for n
  proof -
    have "pa = take_bit 52 pa" using pa by (simp add: word_unat_eq_iff unsigned_take_bit_eq take_bit_nat_eq_self)
    then show ?thesis using that by (metis bit_take_bit_iff)
  qed
  have "(?e AND 0x000ffffffffff000) OR ((va + of_nat o') AND 0xfff) = pa + of_nat o'"
    unfolding offset_or [OF a(1) o'] offset_or [OF a(2) o'] MAKE_TABLE_ENTRY_def mask masks
    by (rule bit_word_eqI)
      (use page_aligned_bits [OF a(1)] page_aligned_bits [OF a(2)] offset_bits [OF o'] flb pab in
        \<open>fastforce simp: bit_simps not_less\<close>)
  then show ?thesis by (simp add: translate_def e p)
qed

section \<open>A new address space\<close>

lemma empty_space:
  assumes heap: "heap_ok 1 s" and root: "owned s r" and zero: "\<And>i. i < 512 \<Longrightarrow> entry s r i = 0"
  shows "space_ok r s" and "mapping r s = (\<lambda>_. 0)" and "tables r s = {[]}" and "lean r s"
proof -
  have n: "node s r p = (if p = [] then Some r else None)" if "path p" for p
    using that by (cases p) (simp_all add: path_def zero)
  show "space_ok r s"
    by (rule space_okI [OF heap]) (use n root zero in \<open>auto simp: table_entry_def split: if_splits\<close>)
  show "mapping r s = (\<lambda>_. 0)"
  proof
    fix v show "mapping r s v = 0"
    proof (cases "leaf_path v")
      case True
      then obtain p where "path p" "length p = 3" "butlast v = p" by (rule leaf_pathE)
      then show ?thesis using n [of p] by (auto simp: mapping_def leaf_entry_def)
    qed (simp add: mapping_def)
  qed
  show t: "tables r s = {[]}" using n by (auto simp: tables_def path_def split: if_splits)
  show "lean r s" by (simp add: lean_but_def t)
qed

end
