(* ===== verification/VmmInit.thy ===== *)
theory VmmInit
  imports VmmProps
begin

text \<open>
  The start of the virtual memory manager and the properties of the component, with a machine of
  16 MiB on which their hypotheses hold.
\<close>

section \<open>The root table\<close>

lemma heap_ok_less: "heap_ok n s \<Longrightarrow> unat m \<le> unat n \<Longrightarrow> heap_ok m s"
  by (auto simp: heap_ok_def pmm_ready_def)

lemma fresh_root:
  assumes ok: "heap_ok 2 s" and run: "kmalloc PAGE_SIZE s = Inr (a, s1)"
  defines "s2 \<equiv> s1\<lparr>mem := memset a 0 PAGE_SIZE (mem s1)\<rparr>"
  shows "space_ok a s2" and "mapping a s2 = (\<lambda>_. 0)" and "tables a s2 = {[]}" and "lean a s2"
    and "card (usable s) = card (usable s2) + 2"
    and "phys_limit (memstats s2) = phys_limit (memstats s)"
proof -
  have np: "NUM_PAGES PAGE_SIZE + 1 = 2" by (simp add: NUM_PAGES_def)
  have ok': "heap_ok (NUM_PAGES PAGE_SIZE + 1) s" using ok by (simp only: np)
  obtain p where p: "allocated p PAGE_SIZE s a s1" by (rule kmalloc_allocates [OF ok' run])
  have two: "unat (NUM_PAGES PAGE_SIZE) + 1 = 2" by (simp add: NUM_PAGES_def)
  have al: "a = PHYS_TO_VIRT p + PAGE_SIZE" "unat p mod 4096 = 0" "no_wrap p 2"
      "frame_range p 2 \<subseteq> usable s" "usable s1 = usable s - frame_range p 2"
      "bitmap s1 = bitmap s" "tracked s1 = tracked s" "phys_limit (memstats s1) = phys_limit (memstats s)"
    using p unfolding allocated_def two np by blast+
  have pa: "VIRT_TO_PHYS a = p + PAGE_SIZE" by (simp add: al(1))
  have up: "unat (p + PAGE_SIZE) = unat p + 4096"
    using al(3) by (intro unat_page_step) (simp add: no_wrap_def)
  have page: "page_of a = pfn p + 1"
    using al(2) by (simp add: page_of_def pa pfn_def up)
  have a: "aligned a" using al(2) by (simp add: aligned_def pa up)
  have in_range: "page_of a \<in> frame_range p 2" by (simp add: page frame_range_def)
  have heap1: "heap_ok 1 s1"
    by (rule heap_ok_less [OF heap_ok_kmalloc [OF ok p]]) simp
  have own1: "owned s1 a"
  proof -
    have "\<forall>x\<in>bmp_bytes s (watched s). page_of x \<noteq> page_of a"
    proof
      fix x assume "x \<in> bmp_bytes s (watched s)"
      then have "page_of x \<notin> usable s" using ok by (simp add: heap_ok_def)
      then show "page_of x \<noteq> page_of a" using al(4) in_range by (metis subsetD)
    qed
    then show ?thesis
      using a al in_range by (auto simp: owned_def usable_def watched_def bmp_bytes_def)
  qed
  note h = heap_ok_frame [OF heap1 own1, where s' = s2]
  have frame: "mem s2 x = mem s1 x" if "page_of x \<noteq> page_of a" for x
    using memset_page(1) [OF a that] by (simp add: s2_def)
  have flds: "bitmap s2 = bitmap s1" "memstats s2 = memstats s1" "lastusedpage s2 = lastusedpage s1"
    by (simp_all add: s2_def)
  have heap2: "heap_ok 1 s2" by (rule h(1)) (use frame flds in auto)
  have own2: "owned s2 a" by (rule h(3)) (use frame flds own1 in auto)
  have us2: "usable s2 = usable s1" by (rule h(2)) (use frame flds in auto)
  have zero: "entry s2 a i = 0" if i: "i < 512" for i
    unfolding entry_def
  proof (rule load_zero)
    fix k :: nat assume k: "k < 8"
    show "mem s2 (a + 8 * i + of_nat k) = 0"
      unfolding entry_offset(1) [OF i k]
      using memset_page(2) [OF a entry_offset(2) [OF i k]] by (simp add: s2_def)
  qed
  note e = empty_space [OF heap2 own2 zero]
  show "space_ok a s2" by (rule e(1))
  show "mapping a s2 = (\<lambda>_. 0)" by (rule e(2))
  show "tables a s2 = {[]}" by (rule e(3))
  show "lean a s2" by (rule e(4))
  have "card (usable s - frame_range p 2) = card (usable s) - 2"
    using card_Diff_subset [OF finite_frame_range al(4)] by simp
  moreover have "2 \<le> card (usable s)" using card_mono [OF finite_usable al(4)] by simp
  ultimately show "card (usable s) = card (usable s2) + 2" by (simp add: us2 al(5))
  show "phys_limit (memstats s2) = phys_limit (memstats s)" by (simp add: flds al(8))
qed

text \<open>Two adjacent free frames are enough for the root.\<close>

lemma kmalloc_page_returns:
  assumes ok: "heap_ok 2 s" and two: "{p, p + 1} \<subseteq> usable s"
  obtains a s1 where "kmalloc PAGE_SIZE s = Inr (a, s1)"
proof (cases "pmm_get 2 s")
  case (Inl e)
  have "pmm_ready 2 s" using ok by (simp add: heap_ok_def)
  moreover have "p * 4096 < unat (phys_limit (memstats s))"
    using two unfolding usable_def tracked_def pfn_def
    by (auto simp: less_eq_div_iff_mult_less_eq Suc_le_eq [symmetric])
  ultimately have "\<not> {p..<p + unat (2 :: u64)} \<subseteq> frames s" using pmm_get_Inl(2) Inl by blast
  moreover have "{p..<p + unat (2 :: u64)} = {p, p + 1}" by auto
  ultimately show ?thesis using two by (simp add: usable_def)
next
  case (Inr x)
  have np: "NUM_PAGES PAGE_SIZE + 1 = 2" by (simp add: NUM_PAGES_def)
  have "kmalloc PAGE_SIZE s = and_then (pmm_get 2 s) (\<lambda>(p, s). let alloc = PHYS_TO_VIRT p
      in Inr (alloc + PAGE_SIZE, store_meta alloc (NUM_PAGES PAGE_SIZE) PAGE_SIZE s))"
    unfolding kmalloc_def np ..
  then show ?thesis using Inr that by (cases x) (simp add: Let_def)
qed

section \<open>The direct map\<close>

definition kernel_tables :: "u64 \<Rightarrow> u64 list set" where
  "kernel_tables limit = range_tables 0xffffffff80000000 (unat (NUM_PAGES 0x80000000))
     \<union> range_tables 0xffff800000000000 (unat (NUM_PAGES limit))"

lemma ranges_apart:
  assumes "n \<le> 2 ^ 35 - 2 ^ 19" and "k < 2 ^ 19" and "l < n"
  shows "vpn (0xffffffff80000000 + of_nat (k * 4096)) \<noteq> vpn (0xffff800000000000 + of_nat (l * 4096))"
proof
  assume eq: "vpn (0xffffffff80000000 + of_nat (k * 4096)) = vpn (0xffff800000000000 + of_nat (l * 4096))"
  let ?a = "unat (0xffffffff80000000 :: u64) div 4096" and ?b = "unat (0xffff800000000000 :: u64) div 4096"
  have "(?a + k) mod 2 ^ 36 = (?b + l) mod 2 ^ 36"
    using arg_cong [OF vpn_eqD [OF eq], of unat] by (simp only: vpn_page)
  moreover have "(?a + k) mod 2 ^ 36 = (?a mod 2 ^ 36 + k) mod 2 ^ 36"
    and "(?b + l) mod 2 ^ 36 = (?b mod 2 ^ 36 + l) mod 2 ^ 36"
    by (simp_all only: mod_add_left_eq)
  moreover have "?a mod 2 ^ 36 = 2 ^ 36 - 2 ^ 19" "?b mod 2 ^ 36 = 2 ^ 35" by simp_all
  moreover have "(2 ^ 36 - 2 ^ 19 + k) mod 2 ^ 36 = 2 ^ 36 - 2 ^ 19 + k" using assms(2) by simp
  moreover have "(2 ^ 35 + l) mod 2 ^ 36 = 2 ^ 35 + l" using assms(1,3) by simp
  ultimately have "2 ^ 36 - 2 ^ 19 + k = 2 ^ 35 + l" by metis
  then show False using assms by simp
qed

lemma unat_np:
  assumes "unat limit \<le> 2 ^ 47 - 2 ^ 31"
  shows "unat (NUM_PAGES limit) \<le> 2 ^ 35 - 2 ^ 19" and "unat limit \<le> unat (NUM_PAGES limit) * 4096"
    and "unat (NUM_PAGES 0x80000000) = 2 ^ 19"
proof -
  have l: "unat limit + 4095 < 2 ^ 64" using assms by simp
  show "unat limit \<le> unat (NUM_PAGES limit) * 4096" by (rule num_pages_covers(2) [OF l])
  have "(unat limit + 4095) div 4096 \<le> (2 ^ 47 - 2 ^ 31 + 4095) div 4096"
    using assms by (intro div_le_mono) simp
  then show "unat (NUM_PAGES limit) \<le> 2 ^ 35 - 2 ^ 19" by (simp add: num_pages_covers(1) [OF l])
  show "unat (NUM_PAGES 0x80000000) = 2 ^ 19" by (simp add: NUM_PAGES_def unat_div)
qed

text \<open>An address of a mapped range translates to its place behind the start.\<close>

lemma translate_range:
  assumes m: "\<And>k. k < n \<Longrightarrow> mapping r s (vpn (va + of_nat (k * 4096))) = MAKE_TABLE_ENTRY (pa + of_nat (k * 4096)) VMM_FLAGS_DEFAULT"
    and a: "page_aligned va" "page_aligned pa" and pa: "unat pa + n * 4096 \<le> 2 ^ 52" and x: "x < n * 4096"
  shows "translate s r (va + of_nat x) = Some (pa + of_nat x)"
proof -
  let ?k = "x div 4096" and ?o = "x mod 4096"
  have k: "?k < n" using x by (simp add: less_mult_imp_div_less)
  have fl: "VMM_FLAGS_DEFAULT AND VMM_FLAG_PRESENT \<noteq> 0" "VMM_FLAGS_DEFAULT < 4096"
    by (simp_all add: VMM_FLAGS_DEFAULT_def)
  have xs: "x = ?k * 4096 + ?o" by simp
  have split: "b + of_nat x = b + of_nat (?k * 4096) + of_nat ?o" for b :: u64
    by (subst (1) xs) (simp only: of_nat_add add.assoc)
  have b: "unat pa + ?k * 4096 < 2 ^ 52" using pa k by linarith
  then have "unat (pa + of_nat (?k * 4096)) < 2 ^ 52"
  proof -
    have "unat (of_nat (?k * 4096) :: u64) = ?k * 4096" by (rule unat_of_nat64) (use b in simp)
    then show ?thesis using b by (subst unat_add_lt) (simp_all only:, simp_all)
  qed
  then show ?thesis
    unfolding split
    by (intro translate_page [OF m [OF k] page_aligned_add [OF a(1)] page_aligned_add [OF a(2)] fl]) simp_all
qed

lemma Nil_not_range [simp]: "[] \<notin> range_tables va n"
  by (auto simp: range_tables_def vpn_tables_def)

lemma vmm_init_maps:
  assumes ok: "heap_ok 2 (kern m)" and two: "{p, p + 1} \<subseteq> usable (kern m)"
    and limit: "limit = phys_limit (memstats (kern m))" "unat limit \<le> 2 ^ 47 - 2 ^ 31"
    and enough: "card (kernel_tables limit) + 2 \<le> card (usable (kern m))"
  obtains a m' where "vmm_init m = Inr (m'\<lparr>cr3 := VIRT_TO_PHYS a\<rparr>)" and "kaddrspace m' = a"
    and "\<And>k. k < unat (NUM_PAGES limit) \<Longrightarrow>
      mapping a (kern m') (vpn (0xffff800000000000 + of_nat (k * 4096))) = MAKE_TABLE_ENTRY (0 + of_nat (k * 4096)) VMM_FLAGS_DEFAULT"
    and "\<And>k. k < 2 ^ 19 \<Longrightarrow>
      mapping a (kern m') (vpn (0xffffffff80000000 + of_nat (k * 4096))) = MAKE_TABLE_ENTRY (0 + of_nat (k * 4096)) VMM_FLAGS_DEFAULT"
proof -
  let ?K = "0xffffffff80000000 :: u64" and ?D = "0xffff800000000000 :: u64"
  let ?n1 = "NUM_PAGES 0x80000000" and ?n2 = "NUM_PAGES limit" and ?fl = "VMM_FLAGS_DEFAULT"
  let ?R1 = "range_tables ?K (unat ?n1)" and ?R2 = "range_tables ?D (unat ?n2)"
  note np = unat_np [OF limit(2)]
  have n: "unat ?n1 \<le> 2 ^ 36" "unat ?n2 \<le> 2 ^ 36" using np(1,3) by simp_all
  have fl: "?fl AND VMM_FLAG_PRESENT \<noteq> 0" by (simp add: VMM_FLAGS_DEFAULT_def)
  obtain a s1 where run: "kmalloc PAGE_SIZE (kern m) = Inr (a, s1)" by (rule kmalloc_page_returns [OF ok two])
  define s2 where "s2 = s1\<lparr>mem := memset a 0 PAGE_SIZE (mem s1)\<rparr>"
  define m1 where "m1 = m\<lparr>kern := s2, kaddrspace := a\<rparr>"
  note f = fresh_root [OF ok run, folded s2_def]
  have inv1: "vmm_inv a (pool a s2) a (cr3 m) m1"
    using f by (simp add: vmm_inv_def vmm_ok_def m1_def)
  have sp1: "space_ok a (kern m1)" using f(1) by (simp add: m1_def)
  have as: "addrspace_of (Some a) m' = a" for m' by (simp add: addrspace_of_def)
  have card: "card (kernel_tables limit) = card ?R1 + card (?R2 - ?R1)"
    using card_Un_diff [of ?R1 ?R2 "{}"] by (simp add: kernel_tables_def)
  have d1: "?R1 - tables a (kern m1) = ?R1" using f(3) by (simp add: m1_def)
  have e1: "card (?R1 - tables a (kern m1)) \<le> card (usable (kern m1))"
    unfolding d1 using enough card f(5) by (simp add: m1_def)
  obtain m2 where m2: "vmm_map (Some a) ?K 0 ?n1 ?fl m1 = Inr m2"
    using vmm_map_returns [OF sp1 as n(1), of ?K 0 ?fl] e1 by auto
  note s = vmm_map_spec [OF inv1 as fl n(1) m2]
  have sp2: "space_ok a (kern m2)" using s(1) by (simp add: vmm_inv_def vmm_ok_def)
  have d2: "?R2 - tables a (kern m2) = ?R2 - ?R1" using f(3) s(5) by (auto simp: m1_def)
  have e2: "card (?R2 - tables a (kern m2)) \<le> card (usable (kern m2))"
    unfolding d2 using enough card f(5) s(4) d1 by (simp add: m1_def)
  obtain m3 where m3: "vmm_map (Some a) ?D 0 ?n2 ?fl m2 = Inr m3"
    using vmm_map_returns [OF sp2 as n(2), of ?D 0 ?fl] e2 by auto
  note t = vmm_map_spec [OF s(1) as fl n(2) m3]
  have lim2: "phys_limit (memstats (kern m2)) = limit" using s(6) f(6) limit(1) by (simp add: m1_def)
  have ka: "kaddrspace m3 = a" using t(1) by (simp add: vmm_inv_def)
  show ?thesis
  proof (rule that [of a m3])
    show "vmm_init m = Inr (m3\<lparr>cr3 := VIRT_TO_PHYS a\<rparr>)"
      unfolding vmm_init_def run and_then_simps prod.case Let_def s2_def [symmetric] m1_def [symmetric] m2 lim2 m3 ka ..
    show "mapping a (kern m3) (vpn (?K + of_nat (k * 4096))) = MAKE_TABLE_ENTRY (0 + of_nat (k * 4096)) ?fl"
      if k: "k < 2 ^ 19" for k
    proof -
      have "vpn (?K + of_nat (k * 4096)) \<notin> range_vpns ?D (unat ?n2)"
        using ranges_apart [OF np(1) k] by (auto simp: range_vpns_def simp del: of_nat_mult)
      then show ?thesis using s(2) [of k] t(3) k np(3) by simp
    qed
  qed (use t(2) ka in simp_all)
qed

section \<open>A machine of 16 MiB\<close>

text \<open>
  Physical memory has 4096 frames; frame 0 holds the bitmap, whose first byte is \<open>b\<close>, and all frames
  from 8 on are free.
\<close>

definition mib_kernel :: "u8 \<Rightarrow> kernel" where
  "mib_kernel b =
     \<lparr>mem = (\<lambda>x. if x = MEM_VIRT_OFFSET then b else if in_range (MEM_VIRT_OFFSET + 1) 511 x then 0xFF else 0),
      bitmap = MEM_VIRT_OFFSET, mmap = [],
      memstats = \<lparr>phys_limit = 0x1000000, total_mem = 0x1000000, free_mem = 0\<rparr>, lastusedpage = 0\<rparr>"

lemma mib_byte:
  assumes "j < 2 ^ 50"
  shows "mem (mib_kernel b) (MEM_VIRT_OFFSET + of_nat j) = (if j = 0 then b else if j < 512 then 0xFF else 0)"
proof (cases "j = 0")
  case False
  then obtain k where k: "j = Suc k" by (cases j) auto
  have ne: "(MEM_VIRT_OFFSET :: u64) + of_nat j \<noteq> MEM_VIRT_OFFSET"
  proof
    assume "(MEM_VIRT_OFFSET :: u64) + of_nat j = MEM_VIRT_OFFSET"
    then have "(MEM_VIRT_OFFSET :: u64) + of_nat j = MEM_VIRT_OFFSET + of_nat 0" by simp
    then have "j = 0" by (rule offset_inj) (use assms in simp_all)
    then show False using False by simp
  qed
  have at: "(MEM_VIRT_OFFSET :: u64) + of_nat j = MEM_VIRT_OFFSET + 1 + of_nat k" by (simp add: k)
  have "in_range (MEM_VIRT_OFFSET + 1) 511 (MEM_VIRT_OFFSET + of_nat j) \<longleftrightarrow> j < 512"
  proof
    assume "in_range (MEM_VIRT_OFFSET + 1) 511 (MEM_VIRT_OFFSET + of_nat j)"
    then obtain l where l: "l < 511" "(MEM_VIRT_OFFSET :: u64) + 1 + of_nat k = MEM_VIRT_OFFSET + 1 + of_nat l"
      unfolding at in_range_def by blast
    have "k = l" by (rule offset_inj [OF l(2)]) (use assms k l(1) in simp_all)
    then show "j < 512" using k l(1) by simp
  next
    assume "j < 512"
    then show "in_range (MEM_VIRT_OFFSET + 1) 511 (MEM_VIRT_OFFSET + of_nat j)"
      unfolding at using k by (intro in_range_offset) simp
  qed
  then show ?thesis using ne False by (simp add: mib_kernel_def)
qed (simp add: mib_kernel_def)

lemma mib_simps:
  "bitmap (mib_kernel b) = MEM_VIRT_OFFSET" "lastusedpage (mib_kernel b) = 0"
  "phys_limit (memstats (mib_kernel b)) = 0x1000000" "tracked (mib_kernel b) = {..<4096}"
  "watched (mib_kernel b) = {..4096}"
  by (simp_all add: mib_kernel_def tracked_def watched_def pfn_def)

lemma frames_mib: "frames (mib_kernel b) = {p. p < 4096 \<and> (p < 8 \<longrightarrow> bit b p)}"
proof -
  have "frame_bit (mib_kernel b) p \<longleftrightarrow> p < 4096 \<and> (p < 8 \<longrightarrow> bit b p)" if p: "p < 2 ^ 52" for p
  proof -
    have "(0xFF :: u8) = mask 8" by (simp add: mask_eq_exp_minus_1)
    then have ff: "bit (0xFF :: u8) (p mod 8)" by (simp only: bit_mask_iff) simp
    have "mem (mib_kernel b) (MEM_VIRT_OFFSET + of_nat (p div 8))
        = (if p div 8 = 0 then b else if p div 8 < 512 then 0xFF else 0)"
      by (rule mib_byte) (use p in simp)
    moreover have "p div 8 = 0 \<longleftrightarrow> p < 8" "p div 8 < 512 \<longleftrightarrow> p < 4096" by auto
    ultimately show ?thesis using ff by (auto simp: frame_bit_def mib_simps)
  qed
  then show ?thesis by (auto simp: frames_def)
qed

lemma usable_mib: "usable (mib_kernel b) = {p. p < 4096 \<and> (p < 8 \<longrightarrow> bit b p)}"
  by (auto simp: usable_def mib_simps frames_mib)

lemma mib_bitmap_page:
  assumes "x \<in> bmp_bytes (mib_kernel b) (watched (mib_kernel b))"
  shows "page_of x = 0"
proof -
  obtain p where p: "p \<le> 4096" "x = MEM_VIRT_OFFSET + of_nat (p div 8)"
    using assms by (auto simp: bmp_bytes_def mib_simps)
  have x: "x = PHYS_TO_VIRT 0 + of_nat (p div 8)" by (simp add: p(2) PHYS_TO_VIRT_def)
  have "page_of x = pfn 0 + p div 8 div 4096"
    unfolding x by (rule page_of_direct) (use p(1) in simp_all)
  then show ?thesis using p(1) by (simp add: pfn_def)
qed

lemma heap_ok_mib: "\<not> bit b 0 \<Longrightarrow> unat n < 2 ^ 50 \<Longrightarrow> heap_ok n (mib_kernel b)"
  using mib_bitmap_page by (auto simp: heap_ok_def pmm_ready_def mib_simps pfn_def frames_mib usable_mib)

section \<open>How many tables a range needs\<close>

lemma card_three: "card {a, b, c} \<le> 3"
  using card_insert_le_m1 [of 3 "{b, c}" a] card_insert_le_m1 [of 2 "{c}" b] by simp

lemma vpn_tables_region: "drop_bit 21 a = drop_bit 21 b \<Longrightarrow> vpn_tables a = vpn_tables b"
proof -
  assume eq: "drop_bit 21 a = drop_bit 21 b"
  have "drop_bit 39 a = drop_bit 18 (drop_bit 21 a)" "drop_bit 39 b = drop_bit 18 (drop_bit 21 b)"
    "drop_bit 30 a = drop_bit 9 (drop_bit 21 a)" "drop_bit 30 b = drop_bit 9 (drop_bit 21 b)"
    by (simp_all add: drop_bit_drop_bit)
  then show ?thesis unfolding vpn_tables_def pde_def pdpe_def pml4e_def by (simp only: eq)
qed

lemma card_range_tables:
  assumes "unat va mod 2 ^ 21 = 0" and "unat va + n * 4096 \<le> 2 ^ 64"
  shows "card (range_tables va n) \<le> 3 * (n div 512 + 1)"
proof -
  have region: "drop_bit 21 (va + of_nat (k * 4096)) = drop_bit 21 (va + of_nat (k div 512 * 512 * 4096))" if k: "k < n" for k
  proof -
    have b: "unat va + k * 4096 < 2 ^ 64" using assms(2) k by linarith
    have c: "unat va + k div 512 * 512 * 4096 < 2 ^ 64" using b by (auto intro: order.strict_trans1 [rotated])
    have d: "2 ^ 21 dvd unat va" using assms(1) by (simp add: mod_eq_0_iff_dvd)
    have e: "unat (va + of_nat x) = unat va + x" if "unat va + x < 2 ^ 64" for x
    proof -
      have "unat (of_nat x :: u64) = x" by (rule unat_of_nat64) (use that in simp)
      then show ?thesis using that by (simp add: unat_add_lt)
    qed
    have "(unat va + k * 4096) div 2 ^ 21 = unat va div 2 ^ 21 + k * 4096 div 2 ^ 21"
      "(unat va + k div 512 * 512 * 4096) div 2 ^ 21 = unat va div 2 ^ 21 + k div 512 * 512 * 4096 div 2 ^ 21"
      by (rule div_plus_div_distrib_dvd_left [OF d])+
    moreover have "k * 4096 div 2 ^ 21 = k div 512" "k div 512 * 512 * 4096 div 2 ^ 21 = k div 512"
      by (simp_all add: div_mult2_eq)
    ultimately show ?thesis
      unfolding word_unat_eq_iff unat_drop_bit_eq e [OF b] e [OF c] by (simp only: drop_bit_eq_div)
  qed
  have "range_tables va n \<subseteq> (\<Union>j\<le>n div 512. vpn_tables (va + of_nat (j * 512 * 4096)))"
    unfolding range_tables_def
  proof (rule UN_least)
    fix k assume k: "k \<in> {..<n}"
    then have "vpn_tables (va + of_nat (k * 4096)) = vpn_tables (va + of_nat (k div 512 * 512 * 4096))"
      using region by (intro vpn_tables_region) simp
    moreover have "k div 512 \<le> n div 512" using k by (intro div_le_mono) simp
    ultimately show "vpn_tables (va + of_nat (k * 4096)) \<subseteq> (\<Union>j\<le>n div 512. vpn_tables (va + of_nat (j * 512 * 4096)))"
      by blast
  qed
  then have "card (range_tables va n) \<le> card (\<Union>j\<le>n div 512. vpn_tables (va + of_nat (j * 512 * 4096)))"
    by (intro card_mono) (simp_all add: vpn_tables_def)
  also have "\<dots> \<le> (\<Sum>j\<le>n div 512. card (vpn_tables (va + of_nat (j * 512 * 4096))))" by (rule card_UN_le) simp
  also have "\<dots> \<le> (\<Sum>j\<le>n div 512. 3)" by (rule sum_mono) (simp only: vpn_tables_def card_three)
  finally show ?thesis by simp
qed

lemma mib_free: "{8..<4096} \<subseteq> usable (mib_kernel b)" "4088 \<le> card (usable (mib_kernel b))"
proof -
  show "{8..<4096} \<subseteq> usable (mib_kernel b)" by (auto simp: usable_mib)
  then have "card {8..<4096 :: nat} \<le> card (usable (mib_kernel b))" by (rule card_mono [OF finite_usable])
  then show "4088 \<le> card (usable (mib_kernel b))" by simp
qed

text \<open>On it, an address space without any mapping, with its root table in frame 1.\<close>

definition mib_machine :: machine where
  "mib_machine = \<lparr>kern = mib_kernel 0xFC, kaddrspace = PHYS_TO_VIRT 0x1000, cr3 = 0x1000, invlpgs = []\<rparr>"

lemma mib_space:
  "vmm_ok (PHYS_TO_VIRT 0x1000) mib_machine" "mapping (PHYS_TO_VIRT 0x1000) (kern mib_machine) = (\<lambda>_. 0)"
  "tables (PHYS_TO_VIRT 0x1000) (kern mib_machine) = {[]}"
proof -
  let ?s = "mib_kernel 0xFC" and ?r = "PHYS_TO_VIRT 0x1000"
  have b: "\<not> bit (0xFC :: u8) 0" "\<not> bit (0xFC :: u8) 1" by simp_all
  have heap: "heap_ok 1 ?s" by (rule heap_ok_mib [OF b(1)]) simp
  have page: "page_of ?r = 1" by (simp add: page_of_def pfn_def)
  have root: "owned ?s ?r"
    using b(2) mib_bitmap_page by (auto simp: owned_def aligned_def page mib_simps usable_mib)
  have zero: "entry ?s ?r i = 0" if i: "i < 512" for i
    unfolding entry_def
  proof (rule load_zero)
    fix k :: nat assume k: "k < 8"
    have at: "?r + 8 * i + of_nat k = MEM_VIRT_OFFSET + of_nat (4096 + (8 * unat i + k))"
      using entry_offset(1) [OF i k, of ?r] by (simp add: PHYS_TO_VIRT_def)
    have "4096 + (8 * unat i + k) < 2 ^ 50" using entry_offset(2) [OF i k] by simp
    then show "mem ?s (?r + 8 * i + of_nat k) = 0" unfolding at by (subst mib_byte) simp_all
  qed
  note e = empty_space [OF heap root zero]
  have sp: "space_ok ?r ?s" and mp: "mapping ?r ?s = (\<lambda>_. 0)" and tb: "tables ?r ?s = {[]}" and ln: "lean ?r ?s"
    by (rule e(1), simp) (rule e(2), simp, rule e(3), simp, rule e(4), simp)
  then show "vmm_ok ?r mib_machine" "mapping ?r (kern mib_machine) = (\<lambda>_. 0)"
    "tables ?r (kern mib_machine) = {[]}"
    by (simp_all add: mib_machine_def vmm_ok_def)
qed

lemma mib_addrspace: "addrspace_of None mib_machine = PHYS_TO_VIRT 0x1000"
  by (simp add: addrspace_of_def mib_machine_def)

lemma mib_enough:
  assumes "unat va mod 2 ^ 21 = 0" and "unat va + n * 4096 \<le> 2 ^ 64" and "n < 2 ^ 19"
  shows "card (range_tables va n - tables (addrspace_of None mib_machine) (kern mib_machine))
    \<le> card (usable (kern mib_machine))"
proof -
  have "card (range_tables va n - {[]}) \<le> 3 * (n div 512 + 1)"
    using card_range_tables [OF assms(1,2)] by simp
  moreover have "n div 512 < 1024" using assms(3) by (simp add: less_mult_imp_div_less)
  moreover have "4088 \<le> card (usable (kern mib_machine))" using mib_free(2) by (simp add: mib_machine_def)
  ultimately show ?thesis by (simp add: mib_addrspace mib_space(3))
qed

section \<open>Properties\<close>

text \<open>C24: mapping a range implements the update of an abstract address space. When the frames suffice
  for the missing tables, \<open>vmm_map\<close> returns, page \<open>k\<close> of the range has the entry of physical page
  \<open>k\<close> with the given flags, every other page keeps its entry, and exactly one frame is taken for
  each table that was missing.\<close>

theorem vmm_map_refines:
  assumes "vmm_ok (addrspace_of as m) m" and "fl AND VMM_FLAG_PRESENT \<noteq> 0" and "unat np \<le> 2 ^ 36"
    and "card (range_tables va (unat np) - tables (addrspace_of as m) (kern m)) \<le> card (usable (kern m))"
  shows "\<exists>m'. vmm_map as va pa np fl m = Inr m' \<and> vmm_ok (addrspace_of as m) m'
    \<and> (\<forall>k<unat np. mapping (addrspace_of as m) (kern m') (vpn (va + of_nat (k * 4096)))
          = MAKE_TABLE_ENTRY (pa + of_nat (k * 4096)) fl)
    \<and> (\<forall>v. v \<notin> range_vpns va (unat np) \<longrightarrow>
          mapping (addrspace_of as m) (kern m') v = mapping (addrspace_of as m) (kern m) v)
    \<and> card (usable (kern m)) = card (usable (kern m'))
        + card (range_tables va (unat np) - tables (addrspace_of as m) (kern m))"
proof -
  let ?r = "addrspace_of as m"
  have inv: "vmm_inv ?r (pool ?r (kern m)) (kaddrspace m) (cr3 m) m" and sp: "space_ok ?r (kern m)"
    using assms(1) by (simp_all add: vmm_inv_def vmm_ok_def)
  obtain m' where m': "vmm_map as va pa np fl m = Inr m'"
    using vmm_map_returns [OF sp refl assms(3), of va pa fl] assms(4) by auto
  note s = vmm_map_spec [OF inv refl assms(2,3) m']
  have "vmm_ok ?r m'" using s(1) by (simp add: vmm_inv_def)
  then show ?thesis using m' s(2-4) by blast
qed

theorem vmm_map_refines_witness:
  "\<exists>m'. vmm_map None 0x400000 0x200000 2 VMM_FLAGS_DEFAULT mib_machine = Inr m'
    \<and> mapping (PHYS_TO_VIRT 0x1000) (kern m') (vpn 0x401000) = 0x201003"
proof -
  have fl: "VMM_FLAGS_DEFAULT AND VMM_FLAG_PRESENT \<noteq> 0" by (simp add: VMM_FLAGS_DEFAULT_def)
  have ok: "vmm_ok (addrspace_of None mib_machine) mib_machine" by (simp add: mib_addrspace mib_space)
  have enough: "card (range_tables 0x400000 (unat (2 :: u64)) - tables (addrspace_of None mib_machine) (kern mib_machine))
      \<le> card (usable (kern mib_machine))"
    by (rule mib_enough) simp_all
  obtain m' where m': "vmm_map None 0x400000 0x200000 2 VMM_FLAGS_DEFAULT mib_machine = Inr m'"
    "\<forall>k<unat (2 :: u64). mapping (addrspace_of None mib_machine) (kern m') (vpn (0x400000 + of_nat (k * 4096)))
        = MAKE_TABLE_ENTRY (0x200000 + of_nat (k * 4096)) VMM_FLAGS_DEFAULT"
    using vmm_map_refines [OF ok fl _ enough, where pa = "0x200000"] by auto
  have "mapping (addrspace_of None mib_machine) (kern m') (vpn (0x400000 + of_nat (1 * 4096)))
      = MAKE_TABLE_ENTRY (0x200000 + of_nat (1 * 4096)) VMM_FLAGS_DEFAULT"
    by (rule m'(2) [rule_format]) simp
  then show ?thesis
    using m'(1) by (simp add: mib_addrspace MAKE_TABLE_ENTRY_def VMM_FLAGS_DEFAULT_def)
qed

text \<open>The only way \<open>vmm_map\<close> fails is that physical memory runs out, and it runs out exactly
  when there are fewer free frames than missing tables.\<close>

theorem vmm_map_fails_only_out_of_memory:
  assumes "vmm_ok (addrspace_of as m) m" and "unat np \<le> 2 ^ 36"
  shows "vmm_map as va pa np fl m = Inl e \<longleftrightarrow>
    e = Kernel_Panic ''Out of Physical Memory'' \<and>
    card (usable (kern m)) < card (range_tables va (unat np) - tables (addrspace_of as m) (kern m))"
proof -
  have "space_ok (addrspace_of as m) (kern m)" using assms(1) by (simp add: vmm_ok_def)
  from vmm_map_returns [OF this refl assms(2), of va pa fl] show ?thesis
    by (auto split: if_splits)
qed

theorem vmm_map_fails_only_out_of_memory_witness:
  "vmm_map None 0x400000 0x200000 2 VMM_FLAGS_DEFAULT mib_machine
    \<noteq> Inl (Kernel_Panic ''Out of Physical Memory'')"
  using vmm_map_fails_only_out_of_memory
      [of None mib_machine 2 "0x400000" "0x200000" VMM_FLAGS_DEFAULT "Kernel_Panic ''Out of Physical Memory''"]
    mib_space(1) mib_enough [of "0x400000" 2] by (simp add: mib_addrspace)

text \<open>C25: mapping a range that was not mapped and unmapping it again gives back the address space and
  every frame: the tables that became empty are freed, at each of the three levels.\<close>

theorem vmm_map_unmap_roundtrip:
  assumes "vmm_ok (addrspace_of as m) m" and "fl AND VMM_FLAG_PRESENT \<noteq> 0" and "unat np \<le> 2 ^ 36"
    and "card (range_tables va (unat np) - tables (addrspace_of as m) (kern m)) \<le> card (usable (kern m))"
    and "\<forall>v\<in>range_vpns va (unat np). mapping (addrspace_of as m) (kern m) v = 0"
  shows "\<exists>m1 m2. vmm_map as va pa np fl m = Inr m1 \<and> vmm_unmap as va np m1 = Inr m2
    \<and> mapping (addrspace_of as m) (kern m2) = mapping (addrspace_of as m) (kern m)
    \<and> card (usable (kern m2)) = card (usable (kern m)) \<and> vmm_ok (addrspace_of as m) m2"
proof -
  let ?r = "addrspace_of as m"
  have inv: "vmm_inv ?r (pool ?r (kern m)) (kaddrspace m) (cr3 m) m" and sp: "space_ok ?r (kern m)"
    using assms(1) by (simp_all add: vmm_inv_def vmm_ok_def)
  obtain m1 where m1: "vmm_map as va pa np fl m = Inr m1"
    using vmm_map_returns [OF sp refl assms(3), of va pa fl] assms(4) by auto
  note s = vmm_map_spec [OF inv refl assms(2,3) m1]
  have r1: "addrspace_of as m1 = ?r" using s(1) by (simp add: addrspace_of_def vmm_inv_def split: option.split)
  obtain m2 where m2: "vmm_unmap as va np m1 = Inr m2" "vmm_inv ?r (pool ?r (kern m)) (kaddrspace m) (cr3 m) m2"
      "\<forall>v. mapping ?r (kern m2) v = (if v \<in> range_vpns va (unat np) then 0 else mapping ?r (kern m1) v)"
    using vmm_unmap_spec [OF s(1) r1 assms(3)] by blast
  have same: "mapping ?r (kern m2) = mapping ?r (kern m)"
    using m2(3) s(3) assms(5) by (auto simp: fun_eq_iff)
  show ?thesis
    using m1 m2(1,2) same free_frames_determined [OF inv m2(2) same] unfolding vmm_inv_def by blast
qed

theorem vmm_map_unmap_roundtrip_witness:
  "\<exists>m1 m2. vmm_map None 0x400000 0x200000 2 VMM_FLAGS_DEFAULT mib_machine = Inr m1
    \<and> vmm_unmap None 0x400000 2 m1 = Inr m2 \<and> card (usable (kern m2)) = card (usable (kern mib_machine))"
proof -
  have fl: "VMM_FLAGS_DEFAULT AND VMM_FLAG_PRESENT \<noteq> 0" by (simp add: VMM_FLAGS_DEFAULT_def)
  have ok: "vmm_ok (addrspace_of None mib_machine) mib_machine" by (simp add: mib_addrspace mib_space)
  have enough: "card (range_tables 0x400000 (unat (2 :: u64)) - tables (addrspace_of None mib_machine) (kern mib_machine))
      \<le> card (usable (kern mib_machine))"
    by (rule mib_enough) simp_all
  have free: "\<forall>v\<in>range_vpns 0x400000 (unat (2 :: u64)). mapping (addrspace_of None mib_machine) (kern mib_machine) v = 0"
    by (simp add: mib_addrspace mib_space)
  show ?thesis using vmm_map_unmap_roundtrip [OF ok fl _ enough free, where pa = "0x200000"] by auto
qed

lemma mib_tables_few: "card (kernel_tables 0x1000000) \<le> 3102"
proof -
  have n: "unat (NUM_PAGES 0x80000000) = 524288" "unat (NUM_PAGES 0x1000000) = 4096" by (simp_all add: NUM_PAGES_def)
  have "card (kernel_tables 0x1000000) \<le> card (range_tables 0xffffffff80000000 524288) + card (range_tables 0xffff800000000000 4096)"
    unfolding kernel_tables_def n by (rule card_Un_le)
  moreover have "card (range_tables 0xffffffff80000000 524288) \<le> 3 * (524288 div 512 + 1)" by (rule card_range_tables) simp_all
  moreover have "card (range_tables 0xffff800000000000 4096) \<le> 3 * (4096 div 512 + 1)" by (rule card_range_tables) simp_all
  ultimately show ?thesis by simp
qed

text \<open>\<open>vmm_init\<close> returns when memory suffices for the page tables, and the address space it makes
  contains all of physical memory at \<open>PHYS_TO_VIRT\<close> (which is what every component that follows a
  physical address relies on) and the lower 2 GiB at the higher half.\<close>

theorem vmm_init_direct_map:
  assumes "heap_ok 2 (kern m)" and "{p, p + 1} \<subseteq> usable (kern m)"
    and "unat (phys_limit (memstats (kern m))) \<le> 2 ^ 47 - 2 ^ 31"
    and "card (kernel_tables (phys_limit (memstats (kern m)))) + 2 \<le> card (usable (kern m))"
  shows "\<exists>m'. vmm_init m = Inr m' \<and> cr3 m' = VIRT_TO_PHYS (kaddrspace m')
    \<and> (\<forall>x<unat (phys_limit (memstats (kern m))).
          translate (kern m') (kaddrspace m') (PHYS_TO_VIRT (of_nat x)) = Some (of_nat x))
    \<and> (\<forall>x<2 ^ 31. translate (kern m') (kaddrspace m') (HIGHERHALF_OFFSET + of_nat x) = Some (of_nat x))"
proof -
  let ?L = "phys_limit (memstats (kern m))"
  obtain a m' where m': "vmm_init m = Inr (m'\<lparr>cr3 := VIRT_TO_PHYS a\<rparr>)" "kaddrspace m' = a"
      "\<And>k. k < unat (NUM_PAGES ?L) \<Longrightarrow>
        mapping a (kern m') (vpn (0xffff800000000000 + of_nat (k * 4096))) = MAKE_TABLE_ENTRY (0 + of_nat (k * 4096)) VMM_FLAGS_DEFAULT"
      "\<And>k. k < 2 ^ 19 \<Longrightarrow>
        mapping a (kern m') (vpn (0xffffffff80000000 + of_nat (k * 4096))) = MAKE_TABLE_ENTRY (0 + of_nat (k * 4096)) VMM_FLAGS_DEFAULT"
    by (rule vmm_init_maps [OF assms(1,2) refl assms(3,4)]) blast
  note np = unat_np [OF assms(3)]
  have "translate (kern m') a (0xffff800000000000 + of_nat x) = Some (0 + of_nat x)" if x: "x < unat ?L" for x
  proof (rule translate_range [OF m'(3)])
    show "unat (0 :: u64) + unat (NUM_PAGES ?L) * 4096 \<le> 2 ^ 52" using np(1) by simp
    show "x < unat (NUM_PAGES ?L) * 4096" using np(2) x by linarith
  qed (simp_all add: page_aligned_def)
  moreover have "translate (kern m') a (0xffffffff80000000 + of_nat x) = Some (0 + of_nat x)" if x: "x < 2 ^ 31" for x
  proof (rule translate_range [OF m'(4)])
    show "unat (0 :: u64) + 2 ^ 19 * 4096 \<le> 2 ^ 52" "x < 2 ^ 19 * 4096" using x by simp_all
  qed (simp_all add: page_aligned_def)
  ultimately show ?thesis using m'(1,2) by (simp add: PHYS_TO_VIRT_def add.commute)
qed

theorem vmm_init_direct_map_witness:
  "\<exists>m'. vmm_init (mib_machine\<lparr>kern := mib_kernel 0xFE\<rparr>) = Inr m'
    \<and> translate (kern m') (kaddrspace m') (PHYS_TO_VIRT 0xABCDE) = Some 0xABCDE"
proof -
  let ?m = "mib_machine\<lparr>kern := mib_kernel 0xFE\<rparr>"
  have heap: "heap_ok 2 (kern ?m)" using heap_ok_mib [of "0xFE" 2] by simp
  have two: "{8, 8 + 1} \<subseteq> usable (kern ?m)" using mib_free(1) [of "0xFE"] by auto
  have lim: "phys_limit (memstats (kern ?m)) = 0x1000000" by (simp add: mib_simps)
  have "4088 \<le> card (usable (kern ?m))" using mib_free(2) by simp
  then have enough: "card (kernel_tables (phys_limit (memstats (kern ?m)))) + 2 \<le> card (usable (kern ?m))"
    unfolding lim using mib_tables_few by simp
  obtain m' where "vmm_init ?m = Inr m'"
    "\<forall>x<unat (0x1000000 :: u64). translate (kern m') (kaddrspace m') (PHYS_TO_VIRT (of_nat x)) = Some (of_nat x)"
    using vmm_init_direct_map [OF heap two _ enough] unfolding lim by auto
  moreover from this(2) have "translate (kern m') (kaddrspace m') (PHYS_TO_VIRT (of_nat 0xABCDE)) = Some (of_nat 0xABCDE)"
    by (elim allE [of _ "0xABCDE"] impE) simp_all
  ultimately show ?thesis by auto
qed

end
