(* ===== verification/PmmInit.thy ===== *)
theory PmmInit
  imports VmmInit
begin

text \<open>
  What \<open>pmm_init\<close> of \<open>kernel/mm/pmm.c\<close> makes of the memory map of the boot loader, and how \<open>vmm_init\<close> goes on
  from there. The boot loader promises that entries of usable memory are aligned to pages.
\<close>

section \<open>The memory map\<close>

definition entry_frames :: "mmap_entry \<Rightarrow> nat set" where
  "entry_frames e = frame_range (base e) (unat (NUM_PAGES (entry_length e)))"

definition map_ok :: "mmap_entry list \<Rightarrow> bool" where
  "map_ok mm \<longleftrightarrow> (\<forall>e\<in>set mm. unat (base e) + unat (entry_length e) < 2 ^ 47
     \<and> (entry_type e = STIVALE2_MMAP_USABLE \<longrightarrow> unat (base e) mod 4096 = 0 \<and> unat (entry_length e) mod 4096 = 0))"

definition map_limit :: "mmap_entry list \<Rightarrow> u64" where
  "map_limit mm = phys_limit (fold count_entry mm \<lparr>phys_limit = 0, total_mem = 0, free_mem = 0\<rparr>)"

abbreviation map_bytes :: "mmap_entry list \<Rightarrow> u64" where
  "map_bytes mm \<equiv> map_limit mm div 0x8000"

text \<open>The frames the entries offer, and the entry that takes the bitmap.\<close>

definition offered :: "mmap_entry list \<Rightarrow> nat set" where
  "offered mm = (\<Union>e\<in>{e \<in> set mm. \<not> below_1mb e \<and> entry_type e = STIVALE2_MMAP_USABLE}. entry_frames e)"

definition bitmap_entry :: "mmap_entry list \<Rightarrow> mmap_entry option" where
  "bitmap_entry mm =
     find (\<lambda>e. \<not> below_1mb e \<and> entry_length e \<ge> map_bytes mm \<and> entry_type e = STIVALE2_MMAP_USABLE) mm"

lemma place_bitmap_find:
  "place_bitmap n mm b = (case find (\<lambda>e. \<not> below_1mb e \<and> entry_length e \<ge> n \<and> entry_type e = STIVALE2_MMAP_USABLE) mm of
     None \<Rightarrow> b | Some e \<Rightarrow> PHYS_TO_VIRT (base e))"
  by (induction mm) simp_all

lemma count_entry_limit:
  assumes "unat (base e) + unat (entry_length e) < 2 ^ 47"
  shows "unat (phys_limit (count_entry e st)) = (if below_1mb e then unat (phys_limit st)
     else max (unat (phys_limit st)) (unat (base e) + unat (entry_length e)))"
proof -
  have "unat (base e + entry_length e) = unat (base e) + unat (entry_length e)" using assms by (simp add: unat_add_lt)
  then show ?thesis by (auto simp: count_entry_def Let_def word_less_nat_alt)
qed

lemma count_entry_free: "free_mem (count_entry e st) = free_mem st"
  by (simp add: count_entry_def Let_def)

lemma fold_count_free: "free_mem (fold count_entry mm st) = free_mem st"
  by (induction mm arbitrary: st) (simp_all add: count_entry_free)

lemma fold_count_limit:
  assumes "map_ok mm" and "unat (phys_limit st) < 2 ^ 47"
  shows "unat (phys_limit (fold count_entry mm st)) < 2 ^ 47 \<and> unat (phys_limit st) \<le> unat (phys_limit (fold count_entry mm st))
    \<and> (\<forall>e\<in>set mm. \<not> below_1mb e \<longrightarrow> unat (base e) + unat (entry_length e) \<le> unat (phys_limit (fold count_entry mm st)))"
  using assms
proof (induction mm arbitrary: st)
  case (Cons e mm)
  have e: "unat (base e) + unat (entry_length e) < 2 ^ 47" and mm: "map_ok mm" using Cons.prems(1) by (simp_all add: map_ok_def)
  note c = count_entry_limit [OF e, of st]
  have st: "unat (phys_limit st) \<le> unat (phys_limit (count_entry e st))"
    "\<not> below_1mb e \<Longrightarrow> unat (base e) + unat (entry_length e) \<le> unat (phys_limit (count_entry e st))"
    using c by simp_all
  have "unat (phys_limit (count_entry e st)) < 2 ^ 47" using c e Cons.prems(2) by simp
  note ih = Cons.IH [OF mm this]
  show ?case using ih st by (auto intro: order_trans)
qed simp

lemma map_limit_bounds:
  assumes "map_ok mm"
  shows "unat (map_limit mm) < 2 ^ 47"
    and "e \<in> set mm \<Longrightarrow> \<not> below_1mb e \<Longrightarrow> unat (base e) + unat (entry_length e) \<le> unat (map_limit mm)"
  using fold_count_limit [OF assms, of "\<lparr>phys_limit = 0, total_mem = 0, free_mem = 0\<rparr>"] by (auto simp: map_limit_def)

lemma unat_num_pages: "unat z < 2 ^ 47 \<Longrightarrow> unat (NUM_PAGES z) = (unat z + 4095) div 4096"
proof -
  assume z: "unat z < 2 ^ 47"
  have "unat (z + PAGE_SIZE - 1) = unat z + 4095"
  proof -
    have "z + PAGE_SIZE - 1 = z + 4095" by simp
    then show ?thesis using z by (simp only:) (subst unat_add_lt, simp_all)
  qed
  then show ?thesis by (simp add: NUM_PAGES_def unat_div)
qed

lemma usable_entry:
  assumes "map_ok mm" and "e \<in> set mm" and "\<not> below_1mb e" and "entry_type e = STIVALE2_MMAP_USABLE"
  shows "no_wrap (base e) (NUM_PAGES (entry_length e))" and "entry_frames e \<subseteq> {..<pfn (map_limit mm)}"
    and "unat (base e) mod 4096 = 0" and "unat (NUM_PAGES (entry_length e)) * 4096 = unat (entry_length e)"
proof -
  have e: "unat (base e) + unat (entry_length e) < 2 ^ 47" "unat (base e) mod 4096 = 0" "unat (entry_length e) mod 4096 = 0"
    using assms by (auto simp: map_ok_def)
  then obtain b l where b: "unat (base e) = 4096 * b" and l: "unat (entry_length e) = 4096 * l"
    by (auto simp: mod_eq_0_iff_dvd elim!: dvdE)
  have n: "unat (NUM_PAGES (entry_length e)) = l"
    using unat_num_pages [of "entry_length e"] e(1) l by simp
  show "no_wrap (base e) (NUM_PAGES (entry_length e))" using e(1) n l by (simp add: no_wrap_def)
  have "4096 * (b + l) \<le> unat (map_limit mm)" using map_limit_bounds(2) [OF assms(1-3)] b l by simp
  then have "b + l \<le> unat (map_limit mm) div 4096" by (simp add: less_eq_div_iff_mult_less_eq mult.commute)
  then show "entry_frames e \<subseteq> {..<pfn (map_limit mm)}"
    using n b by (auto simp: entry_frames_def frame_range_def pfn_def)
  show "unat (base e) mod 4096 = 0" by (rule e(2))
  show "unat (NUM_PAGES (entry_length e)) * 4096 = unat (entry_length e)" using n l by simp
qed

lemma partial_page: "q mod 4096 \<noteq> 0 \<Longrightarrow> q div 4096 < (q + 4095) div (4096 :: nat)"
proof -
  assume r: "q mod 4096 \<noteq> 0"
  have "4096 * (q div 4096) + q mod 4096 = q" "1 \<le> q mod 4096" using r by simp_all
  then have "(q div 4096 + 1) * 4096 \<le> q + 4095" unfolding add_mult_distrib by linarith
  then have "q div 4096 + 1 \<le> (q + 4095) div 4096" by (simp add: less_eq_div_iff_mult_less_eq)
  then show ?thesis by simp
qed

section \<open>Freeing the entries\<close>

lemma free_entries_spec:
  assumes "\<And>e. e \<in> set es \<Longrightarrow> p e \<Longrightarrow> no_wrap (base e) (NUM_PAGES (entry_length e))"
  obtains s' where "free_entries p es s = Inr s'" and "frames s' = frames s \<union> (\<Union>e\<in>{e \<in> set es. p e}. entry_frames e)"
    and "same_but_frames (\<Union>e\<in>{e \<in> set es. p e}. entry_frames e) s s'"
    and "free_mem (memstats s') = free_mem (memstats s) + of_nat (4096 * card ((\<Union>e\<in>{e \<in> set es. p e}. entry_frames e) - frames s))"
  using assms
proof (induction es arbitrary: s thesis)
  case Nil
  then show ?case by simp
next
  case (Cons e es)
  let ?U = "\<Union>e\<in>{e \<in> set es. p e}. entry_frames e"
  show ?case
  proof (cases "p e")
    case False
    then have "{e' \<in> set (e # es). p e'} = {e' \<in> set es. p e'}" by auto
    then show ?thesis using Cons.IH [of s] Cons.prems False by auto
  next
    case True
    have w: "no_wrap (base e) (NUM_PAGES (entry_length e))" using Cons.prems(2) [OF _ True] by simp
    obtain s1 where s1: "pmm_free (base e) (NUM_PAGES (entry_length e)) s = Inr s1"
      "frames s1 = frames s \<union> entry_frames e" "same_but_frames (entry_frames e) s s1"
      "free_mem (memstats s1) = free_mem (memstats s) + of_nat (4096 * card (entry_frames e - frames s))"
      using pmm_free_spec [OF w, of s] by (metis entry_frames_def)
    obtain s' where s': "free_entries p es s1 = Inr s'" "frames s' = frames s1 \<union> ?U" "same_but_frames ?U s1 s'"
      "free_mem (memstats s') = free_mem (memstats s1) + of_nat (4096 * card (?U - frames s1))"
      using Cons.IH [of s1] Cons.prems(2) by auto
    have eq: "(\<Union>e\<in>{e' \<in> set (e # es). p e'}. entry_frames e) = entry_frames e \<union> ?U" using True by auto
    have fin: "finite (entry_frames d)" for d by (simp add: entry_frames_def)
    have "(entry_frames e \<union> ?U) - frames s = (entry_frames e - frames s) \<union> (?U - frames s1)" using s1(2) by blast
    then have card: "card ((entry_frames e \<union> ?U) - frames s) = card (entry_frames e - frames s) + card (?U - frames s1)"
      by (simp only:) (rule card_Un_disjoint, use fin s1(2) in auto)
    show ?thesis
    proof (rule Cons.prems(1))
      show "free_entries p (e # es) s = Inr s'" using True s1(1) s'(1) by simp
      show "frames s' = frames s \<union> (\<Union>e\<in>{e' \<in> set (e # es). p e'}. entry_frames e)" unfolding eq s'(2) s1(2) by blast
      show "same_but_frames (\<Union>e\<in>{e' \<in> set (e # es). p e'}. entry_frames e) s s'"
        unfolding eq by (rule same_but_frames_trans [OF s1(3) s'(3)])
      show "free_mem (memstats s') = free_mem (memstats s)
          + of_nat (4096 * card ((\<Union>e\<in>{e' \<in> set (e # es). p e'}. entry_frames e) - frames s))"
        unfolding eq card s'(4) s1(4) by (simp add: add_mult_distrib2 add.assoc)
    qed
  qed
qed

lemma mem_accounted_more:
  assumes "mem_accounted s" and "frames s' = frames s \<union> U" and "same_but_frames U s s'" and "U \<subseteq> tracked s"
    and "free_mem (memstats s') = free_mem (memstats s) + of_nat (4096 * card (U - frames s))"
  shows "mem_accounted s'"
proof -
  let ?F = "frames s" and ?T = "tracked s"
  have "finite U" using assms(4) by (rule finite_subset) simp
  moreover have "(?F \<union> U) \<inter> ?T = (?F \<inter> ?T) \<union> (U - ?F)" using assms(4) by auto
  ultimately have card: "card ((?F \<union> U) \<inter> ?T) = card (?F \<inter> ?T) + card (U - ?F)"
    by (simp only:) (rule card_Un_disjoint, auto)
  have "4096 * card ((?F \<union> U) \<inter> ?T) < 2 ^ 64" by (rule card_tracked)
  then have "unat (free_mem (memstats s) + of_nat (4096 * card (U - ?F))) = 4096 * card ((?F \<union> U) \<inter> ?T)"
    using assms(1) card by (simp add: mem_accounted_def unat_add_lt del: of_nat_mult)
  then show ?thesis by (simp only: mem_accounted_def assms(2,5) tracked_same [OF assms(3)])
qed

section \<open>Initialisation\<close>

text \<open>
  The state before \<open>pmm_init\<close>: the statics are zero, and some usable entry has room for the bitmap.
\<close>

definition boot_map :: "mmap_entry list \<Rightarrow> mmap_entry \<Rightarrow> kernel \<Rightarrow> bool" where
  "boot_map mm e s \<longleftrightarrow> map_ok mm \<and> memstats s = \<lparr>phys_limit = 0, total_mem = 0, free_mem = 0\<rparr> \<and> lastusedpage s = 0
     \<and> bitmap_entry mm = Some e"

text \<open>The size of the bitmap is rounded down to whole bytes, and only so many are cleared. The frames whose bits are in
  the next byte - the last ones below the limit, fewer than eight, and the one at the limit - keep the bit memory held.\<close>

definition stray :: "mmap_entry list \<Rightarrow> mmap_entry \<Rightarrow> kernel \<Rightarrow> nat set" where
  "stray mm e s = {p. 8 * unat (map_bytes mm) \<le> p \<and> p \<le> pfn (map_limit mm)
     \<and> bit (mem s (PHYS_TO_VIRT (base e) + map_bytes mm)) (p mod 8)}"

definition bitmap_frames :: "mmap_entry list \<Rightarrow> mmap_entry \<Rightarrow> nat set" where
  "bitmap_frames mm e = frame_range (base e) (unat (NUM_PAGES (map_bytes mm)))"

lemma bitmap_entryD:
  assumes "bitmap_entry mm = Some e"
  shows "e \<in> set mm" and "\<not> below_1mb e" and "map_bytes mm \<le> entry_length e" and "entry_type e = STIVALE2_MMAP_USABLE"
  using assms by (auto simp: bitmap_entry_def find_Some_iff)

lemma map_bytes_unat: "unat (map_bytes mm) = pfn (map_limit mm) div 8"
  by (simp add: pfn_def unat_div div_mult2_eq [symmetric])

lemma bitmap_frames_offered:
  assumes "map_ok mm" and "bitmap_entry mm = Some e"
  shows "bitmap_frames mm e \<subseteq> entry_frames e" and "entry_frames e \<subseteq> offered mm"
    and "no_wrap (base e) (NUM_PAGES (map_bytes mm))" and "unat (NUM_PAGES (map_bytes mm)) = (unat (map_bytes mm) + 4095) div 4096"
proof -
  note e = bitmap_entryD [OF assms(2)]
  note u = usable_entry [OF assms(1) e(1,2,4)]
  have l: "unat (entry_length e) < 2 ^ 47" using assms(1) e(1) by (auto simp: map_ok_def)
  have le: "unat (map_bytes mm) \<le> unat (entry_length e)" using e(3) by (simp only: word_le_nat_alt)
  have n: "unat (NUM_PAGES (map_bytes mm)) = (unat (map_bytes mm) + 4095) div 4096"
    by (rule unat_num_pages) (use le l in simp)
  moreover have "unat (NUM_PAGES (entry_length e)) = (unat (entry_length e) + 4095) div 4096" by (rule unat_num_pages [OF l])
  ultimately have "unat (NUM_PAGES (map_bytes mm)) \<le> unat (NUM_PAGES (entry_length e))" using le by (simp add: div_le_mono)
  then show "bitmap_frames mm e \<subseteq> entry_frames e" "no_wrap (base e) (NUM_PAGES (map_bytes mm))"
    using u(1) by (auto simp: bitmap_frames_def entry_frames_def frame_range_def no_wrap_def)
  show "entry_frames e \<subseteq> offered mm" using e by (auto simp: offered_def)
  show "unat (NUM_PAGES (map_bytes mm)) = (unat (map_bytes mm) + 4095) div 4096" by (rule n)
qed

lemma offered_tracked: "map_ok mm \<Longrightarrow> offered mm \<subseteq> {..<pfn (map_limit mm)}"
  using usable_entry(2) by (fastforce simp: offered_def)

lemma stray_byte:
  assumes "p \<le> pfn (map_limit mm)" and "8 * unat (map_bytes mm) \<le> p"
  shows "p div 8 = unat (map_bytes mm)" and "(of_nat (p div 8) :: u64) = map_bytes mm"
proof -
  have "p div 8 \<le> unat (map_bytes mm)" unfolding map_bytes_unat using assms(1) by (rule div_le_mono)
  moreover have "unat (map_bytes mm) \<le> p div 8" using assms(2) by (simp add: less_eq_div_iff_mult_less_eq mult.commute)
  ultimately show "p div 8 = unat (map_bytes mm)" by simp
  then show "(of_nat (p div 8) :: u64) = map_bytes mm" by (metis of_nat_unat ucast_id)
qed

lemma stray_few: "stray mm e s \<subseteq> {8 * unat (map_bytes mm)..pfn (map_limit mm)}" "card (stray mm e s) \<le> 8"
proof -
  show sub: "stray mm e s \<subseteq> {8 * unat (map_bytes mm)..pfn (map_limit mm)}" by (auto simp: stray_def)
  have "pfn (map_limit mm) < 8 * unat (map_bytes mm) + 8" unfolding map_bytes_unat by simp
  then show "card (stray mm e s) \<le> 8" using card_mono [OF _ sub] by simp
qed

lemma not_in_range_end: "\<not> in_range a (unat n) (a + n)" for n :: u64
proof -
  have "n \<noteq> of_nat i" if "i < unat n" for i
  proof -
    have "i < 2 ^ 64" using that unsigned_less [of n, where ?'a = nat] by simp
    then have "unat (of_nat i :: u64) = i" by (simp add: unat_of_nat take_bit_nat_eq_self)
    then show ?thesis using that by auto
  qed
  then show ?thesis by (auto simp: in_range_def)
qed

text \<open>The state before the entries are freed: no other frame up to the limit is free.\<close>

lemma cleared:
  assumes boot: "boot_map mm e s" and s1: "s1 = s\<lparr>mmap := mm, memstats := fold count_entry mm (memstats s),
      bitmap := PHYS_TO_VIRT (base e), mem := memset (PHYS_TO_VIRT (base e)) 0 (map_bytes mm) (mem s)\<rparr>"
  shows "frames s1 \<inter> {..pfn (map_limit mm)} = stray mm e s" and "tracked s1 = {..<pfn (map_limit mm)}"
    and "free_mem (memstats s1) = 0"
proof -
  have lim: "phys_limit (memstats s1) = map_limit mm" and st: "memstats s1 = fold count_entry mm (memstats s)"
    using boot by (simp_all add: boot_map_def map_limit_def s1)
  show "tracked s1 = {..<pfn (map_limit mm)}" by (simp add: tracked_def lim)
  show "free_mem (memstats s1) = 0" using boot by (simp add: st fold_count_free boot_map_def)
  have "p \<in> frames s1 \<longleftrightarrow> p \<in> stray mm e s" if p: "p \<le> pfn (map_limit mm)" for p
  proof -
    have "p < 2 ^ 52" using p pfn_less [of "map_limit mm"] by simp
    then have iff: "p \<in> frames s1 \<longleftrightarrow> bit (mem s1 (bitmap s1 + of_nat (p div 8))) (p mod 8)"
      by (simp add: frames_def frame_bit_def)
    show ?thesis
    proof (cases "8 * unat (map_bytes mm) \<le> p")
      case True
      note q = stray_byte [OF p True]
      then have "mem s1 (bitmap s1 + of_nat (p div 8)) = mem s (PHYS_TO_VIRT (base e) + map_bytes mm)"
        using not_in_range_end [of "PHYS_TO_VIRT (base e)" "map_bytes mm"] by (simp add: s1 memset_eq)
      then show ?thesis using iff p True by (simp add: stray_def)
    next
      case False
      then have "p div 8 < unat (map_bytes mm)" by (simp add: div_less_iff_less_mult mult.commute)
      then have "mem s1 (bitmap s1 + of_nat (p div 8)) = 0" by (auto simp: s1 memset_eq in_range_def)
      then show ?thesis using iff False by (simp add: stray_def)
    qed
  qed
  then show "frames s1 \<inter> {..pfn (map_limit mm)} = stray mm e s" using stray_few(1) [of mm e s] by auto
qed

lemma pmm_init_spec:
  assumes boot: "boot_map mm e s"
  obtains s' where "pmm_init mm s = Inr s'" and "frames s' \<inter> {..pfn (map_limit mm)} = (offered mm \<union> stray mm e s) - bitmap_frames mm e"
    and "free_mem (memstats s') = of_nat (4096 * card (offered mm - stray mm e s)) - of_nat (4096 * card (bitmap_frames mm e))"
    and "phys_limit (memstats s') = map_limit mm" and "mmap s' = mm"
    and "\<And>x. \<not> in_range (PHYS_TO_VIRT (base e)) (unat (map_bytes mm) + 1) x \<Longrightarrow> mem s' x = mem s x"
    and "unat n < 2 ^ 51 \<Longrightarrow> pfn (map_limit mm) \<notin> stray mm e s \<Longrightarrow> unat (map_bytes mm) mod 4096 \<noteq> 0 \<Longrightarrow> heap_ok n s'"
proof -
  have ok: "map_ok mm" "bitmap_entry mm = Some e" "memstats s = \<lparr>phys_limit = 0, total_mem = 0, free_mem = 0\<rparr>" "lastusedpage s = 0"
    using boot by (simp_all add: boot_map_def)
  note e = bitmap_entryD [OF ok(2)] and b = bitmap_frames_offered [OF ok(1,2)] and u = usable_entry [OF ok(1)]
  let ?B = "PHYS_TO_VIRT (base e)" and ?T = "{..<pfn (map_limit mm)}"
  let ?p = "\<lambda>e. \<not> below_1mb e \<and> entry_type e = STIVALE2_MMAP_USABLE"
  define s1 where "s1 = s\<lparr>mmap := mm, memstats := fold count_entry mm (memstats s), bitmap := ?B, mem := memset ?B 0 (map_bytes mm) (mem s)\<rparr>"
  note c = cleared [OF boot s1_def]
  obtain s2 where s2: "free_entries ?p mm s1 = Inr s2" "frames s2 = frames s1 \<union> offered mm"
    "same_but_frames (offered mm) s1 s2"
    "free_mem (memstats s2) = free_mem (memstats s1) + of_nat (4096 * card (offered mm - frames s1))"
  proof (rule free_entries_spec [where es = mm and p = ?p and s = s1])
    show "no_wrap (base d) (NUM_PAGES (entry_length d))" if "d \<in> set mm" "?p d" for d
      using u(1) [OF that(1)] that(2) by blast
  qed (use that in \<open>simp_all add: offered_def\<close>)
  let ?s' = "take_pages (base e) (NUM_PAGES (map_bytes mm)) s2"
  have low: "offered mm \<subseteq> ?T" by (rule offered_tracked [OF ok(1)])
  have in2: "frame_range (base e) (unat (NUM_PAGES (map_bytes mm))) \<subseteq> frames s2"
    using b(1,2) s2(2) by (auto simp: bitmap_frames_def)
  note same = same_but_frames_trans [OF s2(3) take_pages_same [OF b(3)]]
  have lim: "phys_limit (memstats ?s') = map_limit mm" and bm: "bitmap ?s' = ?B" and last: "lastusedpage ?s' = 0" and mmap: "mmap ?s' = mm"
    using same ok(3,4) by (simp_all add: same_but_frames_def s1_def map_limit_def)
  have all: "frames ?s' = (frames s1 \<union> offered mm) - bitmap_frames mm e"
    using frames_take_pages [OF b(3)] s2(2) by (simp add: bitmap_frames_def)
  have fr: "frames ?s' \<inter> {..pfn (map_limit mm)} = (offered mm \<union> stray mm e s) - bitmap_frames mm e"
    unfolding all c(1) [symmetric] using low by fastforce
  have free: "free_mem (memstats ?s') = of_nat (4096 * card (offered mm - stray mm e s)) - of_nat (4096 * card (bitmap_frames mm e))"
  proof -
    have "offered mm - frames s1 = offered mm - stray mm e s" unfolding c(1) [symmetric] using low by fastforce
    moreover have "NUM_PAGES (map_bytes mm) * PAGE_SIZE = of_nat (4096 * card (bitmap_frames mm e))"
      by (simp add: bitmap_frames_def)
    ultimately show ?thesis by (simp only: free_mem_take_pages s2(4) c(3)) simp
  qed
  have run: "pmm_init mm s = Inr ?s'"
  proof -
    have bs: "bitmap_size (fold count_entry mm (memstats s)) = map_bytes mm" using ok(3) by (simp add: bitmap_size_def map_limit_def)
    have pl: "place_bitmap (map_bytes mm) mm (bitmap s) = ?B" using ok(2) by (simp add: place_bitmap_find bitmap_entry_def)
    have vp: "VIRT_TO_PHYS (bitmap s2) = base e" using s2(3) by (simp add: same_but_frames_def s1_def VIRT_TO_PHYS_def PHYS_TO_VIRT_def)
    have "pmm_alloc (VIRT_TO_PHYS (bitmap s2)) (NUM_PAGES (map_bytes mm)) s2 = Inr (True, ?s')"
      unfolding vp by (rule pmm_alloc_takes [OF b(3) in2])
    then show ?thesis using s2(1) by (simp add: pmm_init_def Let_def bs pl s1_def [symmetric])
  qed
  have bytes: "in_range ?B (unat (map_bytes mm) + 1) x" if x: "x \<in> (\<lambda>p. ?B + of_nat (p div 8)) ` {..pfn (map_limit mm)}" for x
  proof -
    obtain p where p: "p \<le> pfn (map_limit mm)" "x = ?B + of_nat (p div 8)" using x by auto
    have "p div 8 < unat (map_bytes mm) + 1" unfolding map_bytes_unat using div_le_mono [OF p(1), of 8] by simp
    then show ?thesis using p(2) by (auto simp: in_range_def)
  qed
  have heap: "heap_ok n ?s'"
    if n: "unat n < 2 ^ 51" and clear: "pfn (map_limit mm) \<notin> stray mm e s" and part: "unat (map_bytes mm) mod 4096 \<noteq> 0"
  proof -
    have "unat (map_limit mm) < 2 ^ 47" by (rule map_limit_bounds(1) [OF ok(1)])
    moreover have "pfn (map_limit mm) \<notin> frames ?s'" using fr clear low by auto
    moreover have "page_of x \<in> bitmap_frames mm e" if x: "x \<in> bmp_bytes ?s' (watched ?s')" for x
    proof -
      obtain p where p: "p \<le> pfn (map_limit mm)" "x = ?B + of_nat (p div 8)"
        using x by (auto simp: bmp_bytes_def watched_def bm lim)
      have le: "p div 8 \<le> unat (map_bytes mm)" unfolding map_bytes_unat using p(1) by (rule div_le_mono)
      have "unat (base e) + unat (entry_length e) < 2 ^ 47" using ok(1) e(1) by (auto simp: map_ok_def)
      then have "unat (base e) + p div 8 < 2 ^ 64" using le e(3) by (simp add: word_le_nat_alt)
      then have pg: "page_of x = pfn (base e) + p div 8 div 4096"
        unfolding p(2) using u(3) [OF e(1,2,4)] by (rule page_of_direct [rotated])
      have "p div 8 div 4096 \<le> unat (map_bytes mm) div 4096" using le by (rule div_le_mono)
      also have "\<dots> < (unat (map_bytes mm) + 4095) div 4096"
        by (rule partial_page [OF part])
      finally show ?thesis unfolding pg bitmap_frames_def frame_range_def b(4) by simp
    qed
    moreover have "usable ?s' \<inter> bitmap_frames mm e = {}" by (auto simp: usable_def all)
    ultimately show ?thesis using n last by (auto simp: heap_ok_def pmm_ready_def lim)
  qed
  have frame: "mem ?s' x = mem s x" if x: "\<not> in_range ?B (unat (map_bytes mm) + 1) x" for x
  proof -
    have "bitmap_frames mm e \<subseteq> ?T" using b(1,2) low by blast
    then have "offered mm \<union> frame_range (base e) (unat (NUM_PAGES (map_bytes mm))) \<subseteq> {..pfn (map_limit mm)}"
      using low by (fastforce simp: bitmap_frames_def)
    then have "x \<notin> bmp_bytes s1 (offered mm \<union> frame_range (base e) (unat (NUM_PAGES (map_bytes mm))))"
      using bytes x by (auto simp: bmp_bytes_def s1_def)
    then have "mem ?s' x = mem s1 x" using same by (simp add: same_but_frames_def)
    moreover have "\<not> in_range ?B (unat (map_bytes mm)) x" using x by (auto simp: in_range_def)
    ultimately show ?thesis by (simp add: s1_def memset_eq)
  qed
  show thesis by (rule that [OF run fr free lim mmap frame heap])
qed

text \<open>C16: from a well-formed memory map with room for the bitmap, whatever memory holds, \<open>pmm_init\<close> returns, and of the
  frames up to the limit exactly those are free that a usable entry above 1 MiB offers or whose bit happened to be set in the
  byte behind the part of the bitmap that is cleared (at most eight, the last ones before the limit and the one at it), but for the
  bitmap's own; the amount of free memory counts the offered frames that were not free by that chance; and no byte of
  memory outside the bitmap has changed. The allocator's invariant holds when the frame at the limit is not among them and
  the bitmap does not fill its last page (that is, the limit is no multiple of 128 MiB).\<close>

theorem pmm_init_ready:
  assumes boot: "boot_map mm e s"
  shows "\<exists>s'. pmm_init mm s = Inr s'
    \<and> frames s' \<inter> {..pfn (map_limit mm)} = (offered mm \<union> stray mm e s) - bitmap_frames mm e
    \<and> stray mm e s \<subseteq> {8 * unat (map_bytes mm)..pfn (map_limit mm)} \<and> card (stray mm e s) \<le> 8
    \<and> free_mem (memstats s') = of_nat (4096 * card (offered mm - stray mm e s)) - of_nat (4096 * card (bitmap_frames mm e))
    \<and> (\<forall>x. \<not> in_range (PHYS_TO_VIRT (base e)) (unat (map_bytes mm) + 1) x \<longrightarrow> mem s' x = mem s x)
    \<and> (unat n < 2 ^ 51 \<and> pfn (map_limit mm) \<notin> stray mm e s \<and> unat (map_bytes mm) mod 4096 \<noteq> 0 \<longrightarrow> heap_ok n s')"
proof -
  obtain s' where "pmm_init mm s = Inr s'" "frames s' \<inter> {..pfn (map_limit mm)} = (offered mm \<union> stray mm e s) - bitmap_frames mm e"
    "free_mem (memstats s') = of_nat (4096 * card (offered mm - stray mm e s)) - of_nat (4096 * card (bitmap_frames mm e))"
    "\<And>x. \<not> in_range (PHYS_TO_VIRT (base e)) (unat (map_bytes mm) + 1) x \<Longrightarrow> mem s' x = mem s x"
    "unat n < 2 ^ 51 \<Longrightarrow> pfn (map_limit mm) \<notin> stray mm e s \<Longrightarrow> unat (map_bytes mm) mod 4096 \<noteq> 0 \<Longrightarrow> heap_ok n s'"
    using pmm_init_spec [OF boot, of n] by metis
  then show ?thesis using stray_few [of mm e s] by blast
qed

text \<open>A machine with 16 MiB: one entry of usable memory from 1 MiB on.\<close>

definition small_entry :: mmap_entry where
  "small_entry = \<lparr>base = 0x100000, entry_length = 0xF00000, entry_type = STIVALE2_MMAP_USABLE\<rparr>"

definition small_boot :: kernel where
  "small_boot = \<lparr>mem = (\<lambda>_. 0), bitmap = 0, mmap = [], memstats = \<lparr>phys_limit = 0, total_mem = 0, free_mem = 0\<rparr>, lastusedpage = 0\<rparr>"

lemma small_limit: "map_limit [small_entry] = 0x1000000"
  by (simp add: map_limit_def small_entry_def count_entry_def below_1mb_def Let_def)

lemma small_boot_map: "boot_map [small_entry] small_entry (small_boot\<lparr>mem := mem0\<rparr>)"
  unfolding boot_map_def bitmap_entry_def small_limit
  by (simp add: small_boot_def map_ok_def) (simp add: small_entry_def below_1mb_def)

lemma small_map_frames:
  "offered [small_entry] = {256..<4096}" "bitmap_frames [small_entry] small_entry = {256}"
  unfolding offered_def bitmap_frames_def entry_frames_def small_limit
  by (auto simp: small_entry_def below_1mb_def frame_range_def pfn_def NUM_PAGES_def)

text \<open>When memory is full of ones, the frame at the limit is free as well.\<close>

theorem pmm_init_ready_witness:
  "\<exists>s'. pmm_init [small_entry] (small_boot\<lparr>mem := \<lambda>_. 0xFF\<rparr>) = Inr s' \<and> frames s' \<inter> {..4096} = {257..4096}
     \<and> free_mem (memstats s') = 0xEFF000"
proof -
  let ?s = "small_boot\<lparr>mem := \<lambda>_. 0xFF\<rparr>"
  have lim: "pfn (map_limit [small_entry]) = 4096" "unat (map_bytes [small_entry]) = 512"
    unfolding small_limit by (simp_all add: pfn_def)
  have "stray [small_entry] small_entry ?s = {4096}"
    unfolding stray_def lim by (auto simp: bit_iff_odd)
  then show ?thesis
    using pmm_init_ready [OF small_boot_map, of "\<lambda>_. 0xFF" 2] unfolding small_map_frames lim by auto
qed

section \<open>The address space\<close>

text \<open>C26: from a well-formed memory map with room for the bitmap, whose limit is no multiple of 128 MiB and leaves the upper 2 GiB of the address space alone, with
  two adjacent usable frames and enough of them for the tables, and when memory did not happen to hold a set bit for the frame at the limit, \<open>pmm_init\<close> and
  then \<open>vmm_init\<close> return, and the address space that is loaded maps all of physical memory at \<open>PHYS_TO_VIRT\<close> and its lower
  2 GiB where the kernel is linked.\<close>

theorem memory_comes_up:
  assumes boot: "boot_map mm e (kern m)" and clear: "pfn (map_limit mm) \<notin> stray mm e (kern m)"
    and part: "unat (map_limit mm) div 0x8000 mod 0x1000 \<noteq> 0" and two: "{p, p + 1} \<subseteq> offered mm - bitmap_frames mm e"
    and limit: "unat (map_limit mm) \<le> 2 ^ 47 - 2 ^ 31"
    and enough: "card (kernel_tables (map_limit mm)) + 2 \<le> card (offered mm - bitmap_frames mm e)"
  shows "\<exists>kn m'. pmm_init mm (kern m) = Inr kn \<and> vmm_init (m\<lparr>kern := kn\<rparr>) = Inr m' \<and> cr3 m' = VIRT_TO_PHYS (kaddrspace m')
    \<and> (\<forall>x<unat (map_limit mm). translate (kern m') (kaddrspace m') (PHYS_TO_VIRT (of_nat x)) = Some (of_nat x))
    \<and> (\<forall>x<2 ^ 31. translate (kern m') (kaddrspace m') (HIGHERHALF_OFFSET + of_nat x) = Some (of_nat x))"
proof -
  obtain kn where kn: "pmm_init mm (kern m) = Inr kn" "heap_ok 2 kn" "phys_limit (memstats kn) = map_limit mm"
    "frames kn \<inter> {..pfn (map_limit mm)} = (offered mm \<union> stray mm e (kern m)) - bitmap_frames mm e"
    by (rule pmm_init_spec [OF boot, of 2]) (use clear part in \<open>simp_all add: unat_div\<close>)
  have "map_ok mm" using boot by (simp add: boot_map_def)
  from offered_tracked [OF this] have sub: "offered mm - bitmap_frames mm e \<subseteq> usable kn"
    using kn(3,4) by (fastforce simp: usable_def tracked_def)
  have "card (offered mm - bitmap_frames mm e) \<le> card (usable kn)"
    by (rule card_mono [OF _ sub]) (simp add: usable_def)
  let ?m = "m\<lparr>kern := kn\<rparr>"
  have "heap_ok 2 (kern ?m)" "{p, p + 1} \<subseteq> usable (kern ?m)" "unat (phys_limit (memstats (kern ?m))) \<le> 2 ^ 47 - 2 ^ 31"
    "card (kernel_tables (phys_limit (memstats (kern ?m)))) + 2 \<le> card (usable (kern ?m))"
    using kn two limit enough sub \<open>card (offered mm - bitmap_frames mm e) \<le> card (usable kn)\<close> by auto
  from vmm_init_direct_map [OF this] show ?thesis using kn(1,3) by auto
qed

theorem memory_comes_up_witness:
  "\<exists>kn m'. pmm_init [small_entry] small_boot = Inr kn \<and> vmm_init (mib_machine\<lparr>kern := kn\<rparr>) = Inr m'
    \<and> translate (kern m') (kaddrspace m') (PHYS_TO_VIRT 0xABCDE) = Some 0xABCDE"
proof -
  let ?m = "mib_machine\<lparr>kern := small_boot\<rparr>"
  have boot: "boot_map [small_entry] small_entry (kern ?m)" using small_boot_map [of "mem small_boot"] by simp
  have clear: "pfn (map_limit [small_entry]) \<notin> stray [small_entry] small_entry (kern ?m)"
    by (simp add: stray_def small_boot_def)
  have part: "unat (map_limit [small_entry]) div 0x8000 mod 0x1000 \<noteq> 0" unfolding small_limit by simp
  have fr: "offered [small_entry] - bitmap_frames [small_entry] small_entry = {257..<4096}" unfolding small_map_frames by auto
  have two: "{300, 300 + 1} \<subseteq> offered [small_entry] - bitmap_frames [small_entry] small_entry" unfolding fr by simp
  have enough: "card (kernel_tables (map_limit [small_entry])) + 2 \<le> card (offered [small_entry] - bitmap_frames [small_entry] small_entry)"
    unfolding fr small_limit using mib_tables_few by simp
  have lim: "unat (map_limit [small_entry]) \<le> 2 ^ 47 - 2 ^ 31" "unat (map_limit [small_entry]) = 0x1000000"
    unfolding small_limit by simp_all
  obtain kn m' where up: "pmm_init [small_entry] small_boot = Inr kn" "vmm_init (mib_machine\<lparr>kern := kn\<rparr>) = Inr m'"
    "\<forall>x<0x1000000. translate (kern m') (kaddrspace m') (PHYS_TO_VIRT (of_nat x)) = Some (of_nat x)"
    using memory_comes_up [OF boot clear part two lim(1) enough] lim(2) by auto
  have "translate (kern m') (kaddrspace m') (PHYS_TO_VIRT (of_nat 0xABCDE)) = Some (of_nat 0xABCDE)"
    using up(3) by (elim allE [of _ "0xABCDE"] impE) simp_all
  then show ?thesis using up(1,2) by auto
qed

section \<open>Giving back the boot loader's memory\<close>

text \<open>Once the boot information is no longer needed, its frames become usable, and the heap stays in order as long as
  the boot loader did not call the pages of the bitmap reclaimable.\<close>

definition reclaimed :: "kernel \<Rightarrow> nat set" where
  "reclaimed s = (\<Union>e\<in>{e \<in> set (mmap s). entry_type e = STIVALE2_MMAP_BOOTLOADER_RECLAIMABLE}. entry_frames e)"

lemma pmm_reclaim_spec:
  assumes "\<And>e. e \<in> set (mmap s) \<Longrightarrow> entry_type e = STIVALE2_MMAP_BOOTLOADER_RECLAIMABLE \<Longrightarrow>
      no_wrap (base e) (NUM_PAGES (entry_length e)) \<and> entry_frames e \<subseteq> tracked s"
    and acc: "mem_accounted s" and heap: "heap_ok n s" and apart: "\<forall>x\<in>bmp_bytes s (watched s). page_of x \<notin> reclaimed s"
  obtains s' where "pmm_reclaim_bootloader_mem s = Inr s'" and "usable s' = usable s \<union> reclaimed s"
    and "mem_accounted s'" and "heap_ok n s'"
proof -
  let ?p = "\<lambda>e. entry_type e = STIVALE2_MMAP_BOOTLOADER_RECLAIMABLE"
  obtain s' where s': "free_entries ?p (mmap s) s = Inr s'" "frames s' = frames s \<union> reclaimed s"
    "same_but_frames (reclaimed s) s s'"
    "free_mem (memstats s') = free_mem (memstats s) + of_nat (4096 * card (reclaimed s - frames s))"
  proof (rule free_entries_spec [where es = "mmap s" and p = ?p and s = s])
    show "no_wrap (base d) (NUM_PAGES (entry_length d))" if "d \<in> set (mmap s)" "?p d" for d
      using assms(1) [OF that] by blast
  qed (use that in \<open>simp_all add: reclaimed_def\<close>)
  have sub: "reclaimed s \<subseteq> tracked s" using assms(1) by (auto simp: reclaimed_def)
  have acc': "mem_accounted s'" by (rule mem_accounted_more [OF acc s'(2,3) sub s'(4)])
  have us: "usable s' = usable s \<union> reclaimed s"
    using s'(2) sub by (auto simp: usable_def tracked_same [OF s'(3)])
  have "watched s' = watched s" "bmp_bytes s' (watched s) = bmp_bytes s (watched s)"
    "phys_limit (memstats s') = phys_limit (memstats s)" "lastusedpage s' = lastusedpage s"
    using s'(3) by (simp_all add: watched_def same_but_frames_def bmp_bytes_def)
  moreover have "pfn (phys_limit (memstats s)) \<notin> reclaimed s" using sub by (auto simp: tracked_def)
  ultimately have "heap_ok n s'" using heap apart us s'(2) by (simp add: heap_ok_def pmm_ready_def)
  then show thesis using that s'(1) acc' us by (simp add: pmm_reclaim_bootloader_mem_def)
qed

end
