(* ===== verification/Boot.thy ===== *)
theory Boot
  imports SmpProps InitrdFiles Preempt Panic FsDrivers PmmInit
begin

text \<open>
  \<open>kernel/kmain.c\<close>: the order in which the parts are brought up, and the first task, which unpacks the boot
  archive and prints a file of it; with \<open>vfs_debug\<close>, \<open>pmm_dumpstats\<close> and \<open>klog_show\<close>, which only it calls.
  The state is that of all parts together. The addresses the linker chose, the answers of the hardware and
  the raw memory of new tasks are in the environment.
\<close>

section \<open>State\<close>

record boot_state =
  bs_machine :: machine
  bs_log :: klog
  bs_regs :: cpu_regs
  bs_apic :: apic_state
  bs_idtr :: gdtr
  bs_gdtr :: gdtr
  bs_fb :: fb_state
  bs_term :: terminal
  bs_ports :: "port_write list"
  bs_acpi :: acpi
  bs_madt :: madt_info
  bs_hpet :: hpet
  bs_smp :: smp
  bs_vfs :: vfs
  bs_path :: "u8 list"
  bs_sched :: sched

record boot_env =
  bootinfo :: u64
  build_text :: "u8 list"
  isr_addr :: "u8 \<Rightarrow> u64"
  syscall_addr :: u64
  idt_addr :: u64
  cpuid_leaves :: cpuid_table
  hpet_cap :: u64
  spurious_addr :: u64
  timer_addr :: u64
  timer_ccr :: u32
  smp_hw :: smp_env
  switch_addr :: u64
  idle_addr :: u64
  janitor_addr :: u64
  kinit_addr :: u64
  klogd_addr :: u64
  new_tasks :: "fresh_task \<times> fresh_task \<times> fresh_task"
  klogd_task :: fresh_task
  stack_depth :: nat

abbreviation boot_mem :: "boot_state \<Rightarrow> mem" where "boot_mem s \<equiv> mem (kern (bs_machine s))"

text \<open>Identifiers of the tags of the boot loader; a null pointer is followed when a tag is missing.\<close>

definition STV2_STRUCT_TAG_MMAP_ID :: u64 where "STV2_STRUCT_TAG_MMAP_ID = 0x2187f79e8612de07"
definition STV2_STRUCT_TAG_FB_ID :: u64 where "STV2_STRUCT_TAG_FB_ID = 0x506461d2950408fa"
definition STV2_STRUCT_TAG_MODULES_ID :: u64 where "STV2_STRUCT_TAG_MODULES_ID = 0x4b6fe466aade04ce"
definition STV2_STRUCT_TAG_RSDP_ID :: u64 where "STV2_STRUCT_TAG_RSDP_ID = 0x9e1786930a375e78"

definition boot_tag :: "boot_env \<Rightarrow> u64 \<Rightarrow> boot_state \<Rightarrow> (u64 \<times> boot_state) result" where
  "boot_tag env tagid s =
     and_then (stv2_find_struct_tag (bootinfo env) tagid (boot_mem s) (bs_log s)) (\<lambda>(t, k).
       if t = 0 then Inl Null_Deref else Inr (t, s\<lparr>bs_log := k\<rparr>))"

definition read_mmap :: "mem \<Rightarrow> u64 \<Rightarrow> mmap_entry list" where
  "read_mmap m t =
     map (\<lambda>i. let e = t + 24 + 24 * of_nat i
              in \<lparr>base = load64 m e, entry_length = load64 m (e + 8), entry_type = ucast (load_le 4 m (e + 16))\<rparr>)
       [0..<unat (load64 m (t + 16))]"

definition read_fb_tag :: "mem \<Rightarrow> u64 \<Rightarrow> fb_tag" where
  "read_fb_tag m t =
     \<lparr>fb_addr = load64 m (t + 16), fb_width = ucast (load_le 2 m (t + 24)),
      fb_height = ucast (load_le 2 m (t + 26)), fb_pitch = ucast (load_le 2 m (t + 28))\<rparr>"

definition boot_say :: "(klog \<Rightarrow> klog result) \<Rightarrow> boot_state \<Rightarrow> boot_state result" where
  "boot_say f s = and_then (f (bs_log s)) (\<lambda>k. Inr (s\<lparr>bs_log := k\<rparr>))"

section \<open>Statistics\<close>

definition pmm_dumpstats :: "kernel \<Rightarrow> klog \<Rightarrow> klog result" where
  "pmm_dumpstats kn k =
     (let t = total_mem (memstats kn); f = free_mem (memstats kn); u = t - f; h = phys_limit (memstats kn);
          line = (\<lambda>label v. klog_printf ([32, 9, 32, 9] @ bytes label @ bytes ''%d KiB (%d MiB)'' @ [10])
                    [Word_Arg (v div 1024), Word_Arg (v div (1024 * 1024))])
      in and_then (klog_from LOG_INFO ''pmm_dumpstats'' [10] [] k) (\<lambda>k.
         and_then (line ''Total: '' t k) (\<lambda>k.
         and_then (line ''Free:  '' f k) (\<lambda>k.
         and_then (line ''Used:  '' u k) (\<lambda>k.
         klog_printf ([32, 9, 32, 9] @ bytes ''The highest available physical address is %x.'' @ [10, 10]) [Word_Arg h] k)))))"

text \<open>
  The tree of nodes, in depth-first order; the fuel is the depth of the tree. The address of an inode is its
  reference. A name that fills its field has no terminator.
\<close>

primrec dumpnodes_helper :: "nat \<Rightarrow> vfs \<Rightarrow> nat \<Rightarrow> tnode_ref \<Rightarrow> klog \<Rightarrow> klog result" where
  "dumpnodes_helper 0 s lvl t k = Inl Diverges"
| "dumpnodes_helper (Suc fuel) s lvl t k =
     (let k = fold (\<lambda>_. klog_putchar 32) [0..<7 + lvl] k
      in and_then (get_tnode t s) (\<lambda>x.
         and_then (get_inode (tinode x) s) (\<lambda>y.
           if VFS_MAX_NAME_LEN \<le> length (tname x) then Inl Undefined_Behaviour
           else and_then (klog_printf (bytes '' %d: %s -> %x inode, (%d refs)'' @ [10])
                  [Word_Arg (of_nat lvl), Str_Arg (tname x), Word_Arg (of_nat (the (tinode x))), Word_Arg (ucast (refcount y))] k) (\<lambda>k.
                if is_traversable y then for_each (\<lambda>c. dumpnodes_helper fuel s (lvl + 1) c) (child y) k else Inr k))))"

definition vfs_debug :: "nat \<Rightarrow> vfs \<Rightarrow> klog \<Rightarrow> klog result" where
  "vfs_debug fuel s k =
     and_then (klog_from LOG_INFO ''vfs_debug'' (bytes ''dumping nodes'' @ [10]) [] k) (\<lambda>k.
     and_then (dumpnodes_helper fuel s 0 (vfs_root s) k) (\<lambda>k. klog_printf [10] [] k))"

section \<open>The first task\<close>

abbreviation PRIORITY_MAX :: u8 where "PRIORITY_MAX \<equiv> 70"

definition klog_show :: "boot_env \<Rightarrow> boot_state \<Rightarrow> boot_state result" where
  "klog_show env s =
     and_then (task_add (klogd_addr env) PRIORITY_MAX TASK_KERNEL_MODE 0 0 (klogd_task env) (bs_sched s)) (\<lambda>(_, sc).
       Inr (s\<lparr>bs_sched := sc\<rparr>))"

definition unpack_archive :: "boot_env \<Rightarrow> nat \<Rightarrow> boot_state \<Rightarrow> boot_state result" where
  "unpack_archive env cur s =
     and_then (boot_tag env STV2_STRUCT_TAG_MODULES_ID s) (\<lambda>(md, s).
     and_then (initrd_init (stack_depth env) cur md (bs_path s, bs_vfs s, kern (bs_machine s), bs_log s)) (\<lambda>(p, v, kn, k).
       Inr (s\<lparr>bs_path := p, bs_vfs := v, bs_machine := (bs_machine s)\<lparr>kern := kn\<rparr>, bs_log := k\<rparr>)))"

text \<open>The buffer on the stack is cleared; printing it as a string needs a NUL in it.\<close>

definition show_file :: "u8 list \<Rightarrow> nat \<Rightarrow> boot_state \<Rightarrow> boot_state result" where
  "show_file file cur s =
     and_then (vfs_open cur file VFS_MODE_READ (bs_vfs s)) (\<lambda>(fh, v).
     and_then (boot_say (klog_from LOG_INFO ''kinit'' (bytes ''reading '' @ [34] @ file @ [34] @ bytes '':'' @ [10, 10]) []) s) (\<lambda>s.
     and_then (vfs_read cur fh 4096 v) (\<lambda>(nb, got, v).
       let buff = got @ drop (length got) (replicate 4096 0)
       in if 0 \<notin> set buff then Inl Out_Of_Bounds
          else and_then (boot_say (klog_printf (bytes ''%s'' @ [10]) [Str_Arg buff, Word_Arg nb]) s) (\<lambda>s.
               and_then (boot_say (klog_from LOG_INFO ''kinit'' (bytes ''bytes read: %d'' @ [10]) [Word_Arg nb]) s) (\<lambda>s.
               and_then (vfs_close cur fh v) (\<lambda>(_, v).
               Inr (s\<lparr>bs_vfs := v\<rparr>)))))))"

text \<open>\<open>cur\<close> is the table of open files of the task, \<open>cpu\<close> the processor it runs on.\<close>

definition kinit_read :: "boot_env \<Rightarrow> nat \<Rightarrow> boot_state \<Rightarrow> boot_state result" where
  "kinit_read env cur s =
     and_then (boot_say (klog_from LOG_SUCCESS ''kinit'' (bytes ''first kernel task started'' @ [10]) []) s) (\<lambda>s.
     and_then (unpack_archive env cur s) (\<lambda>s.
     and_then (boot_say (klog_printf [10] []) s) (\<lambda>s.
     show_file (bytes ''/docs/test.txt'') cur s)))"

definition kinit :: "boot_env \<Rightarrow> nat \<Rightarrow> nat \<Rightarrow> u64 \<Rightarrow> boot_state \<Rightarrow> boot_state result" where
  "kinit env cpu cur tno s =
     and_then (klog_show env s) (\<lambda>s.
     and_then (kinit_read env cur s) (\<lambda>s.
     and_then (boot_say (vfs_debug (stack_depth env) (bs_vfs s)) s) (\<lambda>s.
     and_then (boot_say (pmm_dumpstats (kern (bs_machine s))) s) (\<lambda>s.
     and_then (boot_say (klog_from LOG_WARN ''kinit''
       (bytes ''This OS is a work in progress. The computer will now halt.'') []) s) (\<lambda>s.
     and_then (sched_kill cpu tno (bs_sched s)) (\<lambda>(_, _, sc). Inr (s\<lparr>bs_sched := sc\<rparr>)))))))"

section \<open>Bringing up the kernel\<close>

definition banner :: "u8 list \<Rightarrow> u8 list list" where
  "banner built =
     [[32, 0xda] @ replicate 16 0xc4 @ [0xbf, 10],
      [32, 0xb3] @ bytes ''   Aeolos v0.1  '' @ [0xb3, 0xb1, 10, 32, 0xb3] @ bytes ''  by chocabloc  '' @ [0xb3, 0xb1, 10],
      [32, 0xc0] @ replicate 16 0xc4 @ [0xd9, 0xb1, 10],
      [32, 32] @ replicate 18 0xd8 @ [10],
      bytes ''Built on '' @ built @ bytes ''.'' @ [10, 10]]"

definition init_processor :: "boot_env \<Rightarrow> boot_state \<Rightarrow> boot_state result" where
  "init_processor env s =
     and_then (idt_init (isr_addr env) (syscall_addr env) (idt_addr env) (idt (bs_apic s), bs_log s)) (\<lambda>(r, i, k).
     and_then (cpu_features_init (cpuid_leaves env) (bs_regs s) k) (\<lambda>(c, k).
       Inr (s\<lparr>bs_idtr := r, bs_apic := (bs_apic s)\<lparr>idt := i\<rparr>, bs_regs := c, bs_log := k\<rparr>)))"

text \<open>The memory managers and the file system do not have the log in their state; their messages are said here.\<close>

definition boot_note :: "loglevel \<Rightarrow> string \<Rightarrow> string \<Rightarrow> boot_state \<Rightarrow> boot_state result" where
  "boot_note lvl f msg = boot_say (klog_from lvl f (bytes msg @ [10]) [])"

definition init_memory :: "boot_env \<Rightarrow> boot_state \<Rightarrow> boot_state result" where
  "init_memory env s =
     and_then (boot_tag env STV2_STRUCT_TAG_MMAP_ID s) (\<lambda>(t, s).
     and_then (pmm_init (read_mmap (boot_mem s) t) (kern (bs_machine s))) (\<lambda>kn.
     and_then (boot_note LOG_SUCCESS ''pmm_init'' ''done'' s) (\<lambda>s.
     and_then (vmm_init ((bs_machine s)\<lparr>kern := kn\<rparr>)) (\<lambda>m.
     and_then (boot_note LOG_INFO ''vmm_init'' ''mapped lower 2GB to 0xFFFFFFFF80000000'' s) (\<lambda>s.
     and_then (boot_note LOG_INFO ''vmm_init'' ''mapped all memory to 0xFFFF800000000000'' s) (\<lambda>s.
     and_then (boot_note LOG_SUCCESS ''vmm_init'' ''done'' s) (\<lambda>s.
     and_then (gdt_init (kern m)) (\<lambda>(g, kn).
       Inr (s\<lparr>bs_machine := m\<lparr>kern := kn\<rparr>, bs_gdtr := g\<rparr>)))))))))"

definition init_files :: "boot_state \<Rightarrow> boot_state result" where
  "init_files s =
     and_then (boot_note LOG_WARN ''vfs_init'' ''partial stub'' s) (\<lambda>s.
     and_then (vfs_init (bs_vfs s)) (\<lambda>v.
     and_then (boot_say (klog_from LOG_INFO ''vfs_mount'' (bytes ''mounted %s at %s as %s'' @ [10])
         [Str_Arg (bytes ''<no-device>''), Str_Arg (bytes ''/''), Str_Arg (bytes ''ramfs'')]) s) (\<lambda>s.
     and_then (boot_note LOG_SUCCESS ''vfs_init'' ''done'' s) (\<lambda>s. Inr (s\<lparr>bs_vfs := v\<rparr>)))))"

definition init_screen :: "boot_env \<Rightarrow> boot_state \<Rightarrow> boot_state result" where
  "init_screen env s =
     and_then (boot_tag env STV2_STRUCT_TAG_FB_ID s) (\<lambda>(t, s).
     and_then (fb_init (read_fb_tag (boot_mem s) t) (bs_fb s, bs_machine s, bs_log s)) (\<lambda>(f, m, k).
       let s = s\<lparr>bs_fb := f, bs_machine := m, bs_log := k, bs_ports := bs_ports s @ serial_init\<rparr>
       in and_then (term_init f ((bs_term s)\<lparr>vram := mem (kern m)\<rparr>)) (\<lambda>scr.
          Inr (s\<lparr>bs_term := scr, bs_machine := m\<lparr>kern := (kern m)\<lparr>mem := vram scr\<rparr>\<rparr>\<rparr>))))"

definition init_devices :: "boot_env \<Rightarrow> boot_state \<Rightarrow> boot_state result" where
  "init_devices env s =
     and_then (boot_tag env STV2_STRUCT_TAG_RSDP_ID s) (\<lambda>(t, s).
     and_then (acpi_init t (boot_mem s) (bs_acpi s) (bs_madt s) (bs_log s)) (\<lambda>(a, d, k).
     and_then (hpet_init (hpet_cap env) a (bs_hpet s, bs_machine s, k)) (\<lambda>(h, m, k).
     and_then (apic_init (spurious_addr env) (timer_addr env) (timer_ccr env) d (bs_apic s, m, k)) (\<lambda>(ap, m, k).
       Inr (s\<lparr>bs_acpi := a, bs_madt := d, bs_hpet := h, bs_apic := ap, bs_machine := m, bs_log := k\<rparr>)))))"

definition init_processors :: "boot_env \<Rightarrow> boot_state \<Rightarrow> boot_state result" where
  "init_processors env s =
     and_then (smp_init ((smp_hw env)\<lparr>env_gdtr := bs_gdtr s, env_idtr := bs_idtr s\<rparr>) (bs_madt s)
       ((bs_smp s)\<lparr>smp_machine := bs_machine s, smp_apic := bs_apic s, smp_log := bs_log s\<rparr>)) (\<lambda>p.
       Inr (s\<lparr>bs_smp := p, bs_machine := smp_machine p, bs_apic := smp_apic p, bs_log := smp_log p,
              bs_regs := wrmsr MSR_KERNEL_GS_BASE (gs_base p) (bs_regs s)\<rparr>))"

text \<open>The scheduler asks which processor runs it: the place in the table that the \<open>gs\<close> base points to.\<close>

definition this_cpu :: "boot_env \<Rightarrow> boot_state \<Rightarrow> nat result" where
  "this_cpu env s =
     from_option Null_Deref (find (\<lambda>n. cpu_addr (smp_hw env) n = smp_get_current_info (bs_regs s)) [0..<unat (num_cpus (bs_smp s))])"

definition init_tasks :: "boot_env \<Rightarrow> boot_state \<Rightarrow> boot_state result" where
  "init_tasks env s =
     and_then (pmm_reclaim_bootloader_mem (kern (bs_machine s))) (\<lambda>kn.
     and_then (this_cpu env s) (\<lambda>n.
     and_then (sched_start (switch_addr env) (idle_addr env) (janitor_addr env) n (kinit_addr env) (new_tasks env)
         (bs_sched s, bs_apic s, bs_log s)) (\<lambda>(sc, a, k).
       Inr (s\<lparr>bs_machine := (bs_machine s)\<lparr>kern := kn\<rparr>, bs_sched := sc, bs_apic := a, bs_log := k\<rparr>))))"

definition kmain :: "boot_env \<Rightarrow> boot_state \<Rightarrow> boot_state result" where
  "kmain env s =
     and_then (for_each (\<lambda>t. boot_say (klog_printf t [])) (banner (build_text env)) s) (\<lambda>s.
     and_then (init_processor env s) (\<lambda>s.
     and_then (init_memory env s) (\<lambda>s.
     and_then (init_screen env s) (\<lambda>s.
     and_then (init_devices env s) (\<lambda>s.
     and_then (init_files s) (\<lambda>s.
     and_then (init_processors env s) (\<lambda>s.
     init_tasks env s)))))))"

end
