(* ===== verification/PanicProps.thy ===== *)
theory PanicProps
  imports Panic
begin

text \<open>
  What a panic leaves in the log: the message, and the functions that were active, named by the symbol table.
\<close>

section \<open>The stack trace\<close>

lemma printf_printed:
  assumes "length (tmpbuf k) = 65" and "format_text fmt args = Inr t"
  shows "\<exists>k'. klog_printf fmt args k = Inr k' \<and> printed t k k'"
  using vprintf_printed [OF assms(1), where s = fmt and i = 0 and args = args] assms(2)
  by (simp add: klog_printf_def klog_vprintf_def)

text \<open>The frames on the stack, by their return addresses, and the line of the trace for each.\<close>

primrec frames_at :: "mem \<Rightarrow> u64 \<Rightarrow> u64 list \<Rightarrow> bool" where
  "frames_at m rbp [] \<longleftrightarrow> True"
| "frames_at m rbp (a # as) \<longleftrightarrow> load64 m (rbp + 8) = a \<and> frames_at m (load64 m rbp) as"

definition address_text :: "nat \<Rightarrow> u64 \<Rightarrow> u8 list" where
  "address_text i a = [32, 9] @ number_text 10 True (int_arg (of_nat i)) @ bytes '': '' @ [9] @ bytes ''0x'' @ number_text 16 False a"

definition name_text :: "u8 list option \<Rightarrow> u8 list" where
  "name_text f = (case f of None \<Rightarrow> bytes '' (Unknown Function)''
     | Some n \<Rightarrow> bytes '' ('' @ takeWhile (\<lambda>c. c \<noteq> 0) n @ bytes '')'' @ [10])"

fun trace_text :: "symbol list \<Rightarrow> nat \<Rightarrow> u64 list \<Rightarrow> u8 list" where
  "trace_text syms i [] = []"
| "trace_text syms i (a # as) = address_text i a @ name_text (enclosing syms a) @ trace_text syms (i + 1) as"

lemma frame_printed:
  assumes "length (tmpbuf k) = 65"
  shows "\<exists>k1 k2. klog_printf ([32] @ [9] @ bytes ''%d: '') [Word_Arg (of_nat i)] k = Inr k1
      \<and> klog_printf ([9] @ bytes ''%x'') [Word_Arg a] k1 = Inr k2 \<and> printed (address_text i a) k k2"
proof -
  have t1: "format_text ([32] @ [9] @ bytes ''%d: '') [Word_Arg (of_nat i)]
      = Inr ([32, 9] @ number_text 10 True (int_arg (of_nat i)) @ bytes '': '')"
    by (simp add: bytes_def directive_text_def format_plain)
  obtain k1 where k1: "klog_printf ([32] @ [9] @ bytes ''%d: '') [Word_Arg (of_nat i)] k = Inr k1"
    "printed ([32, 9] @ number_text 10 True (int_arg (of_nat i)) @ bytes '': '') k k1"
    using printf_printed [OF assms t1] by blast
  have t2: "format_text ([9] @ bytes ''%x'') [Word_Arg a] = Inr ([9] @ bytes ''0x'' @ number_text 16 False a)"
    by (simp add: bytes_def directive_text_def format_plain)
  obtain k2 where "klog_printf ([9] @ bytes ''%x'') [Word_Arg a] k1 = Inr k2"
    "printed ([9] @ bytes ''0x'' @ number_text 16 False a) k1 k2"
    using printf_printed [OF printed_tmpbuf [OF k1(2)] t2] by blast
  then show ?thesis using k1(1) printed_append [OF k1(2)] by (fastforce simp: address_text_def)
qed

lemma name_printed:
  assumes "length (tmpbuf k) = 65"
  shows "\<exists>k'. (case f of None \<Rightarrow> klog_printf (bytes '' (Unknown Function)'') [] k
      | Some n \<Rightarrow> klog_printf (bytes '' (%s)'' @ [10]) [Str_Arg n] k) = Inr k' \<and> printed (name_text f) k k'"
proof (cases f)
  case None
  have "format_text (bytes '' (Unknown Function)'') [] = Inr (name_text None)"
    by (simp add: bytes_def name_text_def)
  then show ?thesis using printf_printed [OF assms] None by simp
next
  case (Some n)
  have "format_text (bytes '' (%s)'' @ [10]) [Str_Arg n] = Inr (name_text (Some n))"
    by (simp add: bytes_def name_text_def directive_text_def format_plain)
  then show ?thesis using printf_printed [OF assms] Some by simp
qed

lemma trace_loop_text:
  assumes tab: "symtab_ok tab syms"
  shows "frames_at m rbp (as @ [b]) \<Longrightarrow> \<forall>a\<in>set as. enclosing syms a \<noteq> None \<Longrightarrow> enclosing syms b = None \<Longrightarrow>
    length (tmpbuf k) = 65 \<Longrightarrow>
    \<exists>k'. trace_loop tab m rbp i k = Some (Inr k') \<and> printed (trace_text syms i (as @ [b])) k k'"
proof (induction as arbitrary: rbp i k)
  have sym: "symtab_get_func tab a = Inr (enclosing syms a)" for a
    using tab symtab_get_func_sorted by (auto simp: symtab_ok_def)
  case Nil
  obtain k1 k2 where k: "klog_printf ([32] @ [9] @ bytes ''%d: '') [Word_Arg (of_nat i)] k = Inr k1"
      "klog_printf ([9] @ bytes ''%x'') [Word_Arg b] k1 = Inr k2" "printed (address_text i b) k k2"
    using frame_printed [OF Nil(4)] by blast
  obtain k3 where "klog_printf (bytes '' (Unknown Function)'') [] k2 = Inr k3" "printed (name_text None) k2 k3"
    using name_printed [OF printed_tmpbuf [OF k(3)], of None] by auto
  then show ?case
    using Nil(1,3) k printed_append [OF k(3)] by (subst trace_loop.simps) (simp add: Let_def sym)
next
  have sym: "symtab_get_func tab a = Inr (enclosing syms a)" for a
    using tab symtab_get_func_sorted by (auto simp: symtab_ok_def)
  case (Cons a as)
  obtain n where n: "enclosing syms a = Some n" using Cons.prems(2) by auto
  obtain k1 k2 where k: "klog_printf ([32] @ [9] @ bytes ''%d: '') [Word_Arg (of_nat i)] k = Inr k1"
      "klog_printf ([9] @ bytes ''%x'') [Word_Arg a] k1 = Inr k2" "printed (address_text i a) k k2"
    using frame_printed [OF Cons.prems(4)] by blast
  obtain k3 where k3: "klog_printf (bytes '' (%s)'' @ [10]) [Str_Arg n] k2 = Inr k3" "printed (name_text (Some n)) k2 k3"
    using name_printed [OF printed_tmpbuf [OF k(3)], of "Some n"] by auto
  obtain k4 where k4: "trace_loop tab m (load64 m rbp) (i + 1) k3 = Some (Inr k4)"
    "printed (trace_text syms (i + 1) (as @ [b])) k3 k4"
    using Cons.IH [of "load64 m rbp" k3 "i + 1"] Cons.prems printed_tmpbuf [OF k3(2)] by auto
  have "printed (address_text i a @ name_text (Some n) @ trace_text syms (i + 1) (as @ [b])) k k4"
    by (rule printed_append [OF k(3) printed_append [OF k3(2) k4(2)]])
  then show ?case
    using Cons.prems(1) k k3(1) k4(1) n by (subst trace_loop.simps) (simp add: Let_def sym)
qed

section \<open>The panic\<close>

text \<open>After the handler is replaced, the next interrupt of the timer, on any processor, leads to the code that halts.\<close>

lemma panic_handler:
  "gate_handler (IDT (idt (apic_timer_set_handler h s)) (timer_vector s)) = h"
  "v \<noteq> timer_vector s \<Longrightarrow> IDT (idt (apic_timer_set_handler h s)) v = IDT (idt s) v"
  by (simp_all add: apic_timer_set_handler_def idt_set_handler_def gate_handler_back)

definition banner_text :: "u8 list" where
  "banner_text = ESC # bytes ''[31m[PANIC] '' @ ESC # bytes ''[37;1m''"

definition trace_header :: "u8 list" where
  "trace_header = [10] @ bytes ''Stack Trace:'' @ [10]"

text \<open>C32: A panic whose message can be printed halts the processor after the handler of the timer has been replaced,
  with its message in the log behind the banner, then the trace: one line for each frame, its return address and
  the last symbol of the table before it, up to the first frame no symbol is before; then the screen is drawn
  from that log.\<close>

theorem panic_names_callers:
  assumes buf: "length (tmpbuf k) = 65" and msg: "format_text fmt args = Inr t"
    and pit: "\<forall>i. \<exists>j\<ge>i. 4 < snd (pit_reads env j)" and tab: "symtab_ok (symtab env) syms"
    and stack: "MEM_VIRT_OFFSET < frame_pointer env" "frames_at m (frame_pointer env) (as @ [b])"
    and known: "\<forall>a\<in>set as. enclosing syms a \<noteq> None" "enclosing syms b = None"
  shows "\<exists>k'. (\<forall>s scr. kernel_panic env fmt args m (s, k, scr)
      = and_then (klog_show_now k' scr) (\<lambda>scr. Inr (apic_timer_set_handler (halt_addr env) s, k', scr)))
    \<and> log_bytes k' = lastn 65535 (log_bytes k @ banner_text @ t @ (ESC # bytes ''[0m'') @ trace_header
        @ trace_text syms 0 (as @ [b]))"
proof -
  have nz: "0 \<notin> set banner_text" "0 \<notin> set (ESC # bytes ''[0m'')" by (simp_all add: banner_text_def bytes_def ESC_def)
  let ?k1 = "klog_puts banner_text k"
  have p1: "printed banner_text k ?k1"
    unfolding klog_puts_def puts_eq [OF nz(1)] by (rule printed_fold [OF buf])
  obtain k2 where k2: "klog_vprintf fmt args ?k1 = Inr k2" "printed t ?k1 k2"
    using printf_printed [OF printed_tmpbuf [OF p1] msg]
    by (auto simp: klog_printf_def klog_vprintf_def)
  let ?k3 = "klog_puts (ESC # bytes ''[0m'') k2"
  have p3: "printed (ESC # bytes ''[0m'') k2 ?k3"
    unfolding klog_puts_def puts_eq [OF nz(2)] by (rule printed_fold [OF printed_tmpbuf [OF k2(2)]])
  have "format_text trace_header [] = Inr trace_header" by (simp add: trace_header_def bytes_def)
  then obtain k4 where k4: "klog_printf trace_header [] ?k3 = Inr k4" "printed trace_header ?k3 k4"
    using printf_printed [OF printed_tmpbuf [OF p3]] by blast
  obtain k5 where k5: "trace_loop (symtab env) m (frame_pointer env) 0 k4 = Some (Inr k5)"
    "printed (trace_text syms 0 (as @ [b])) k4 k5"
    using trace_loop_text [OF tab stack(2) known printed_tmpbuf [OF k4(2)]] by blast
  have "printed (banner_text @ t @ (ESC # bytes ''[0m'') @ trace_header @ trace_text syms 0 (as @ [b])) k k5"
    by (rule printed_append [OF p1 printed_append [OF k2(2) printed_append [OF p3 printed_append [OF k4(2) k5(2)]]]])
  then have "log_bytes k5 = lastn 65535 (log_bytes k @ banner_text @ t @ (ESC # bytes ''[0m'') @ trace_header
      @ trace_text syms 0 (as @ [b]))"
    unfolding printed_def log_bytes_fold [symmetric] by (auto simp: log_bytes_def)
  moreover have "\<not> frame_pointer env \<le> MEM_VIRT_OFFSET" using stack(1) by (simp add: not_le)
  then have "do_stacktrace (symtab env) m (frame_pointer env) ?k3 = Inr k5"
    using k4(1) k5(1) by (simp add: do_stacktrace_def trace_header_def)
  ultimately show ?thesis
    using k2(1) pit_wait_ends [of "pit_reads env" 10] pit
    by (intro exI [of _ k5]) (simp add: kernel_panic_def banner_text_def Let_def)
qed

text \<open>Two frames: \<open>main\<close> called the function that panics, and nothing called \<open>main\<close>.\<close>

definition small_symtab :: "symbol list" where
  "small_symtab = [\<lparr>sym_addr = 0xffffffff80001000, sym_name = bytes ''main''\<rparr>]"

definition small_panic :: panic_env where
  "small_panic = \<lparr>halt_addr = 0xffffffff80002000, symtab = small_symtab @ [\<lparr>sym_addr = UINT64_MAX, sym_name = []\<rparr>],
     frame_pointer = 0xffff800000001000, pit_reads = (\<lambda>i. (0, if even i then 5 else 3))\<rparr>"

definition small_stack :: mem where
  "small_stack = (\<lambda>_. 0)(0xffff800000001008 := 0x10, 0xffff800000001009 := 0x10, 0xffff80000000100b := 0x80,
     0xffff80000000100c := 0xff, 0xffff80000000100d := 0xff, 0xffff80000000100e := 0xff, 0xffff80000000100f := 0xff)"

lemma small_frames: "frames_at small_stack 0xffff800000001000 ([0xffffffff80001010] @ [0])"
  by (simp add: small_stack_def load64_bytes)

theorem panic_names_callers_witness:
  "\<exists>k'. (\<forall>s scr. kernel_panic small_panic (bytes ''boom'') [] small_stack (s, empty_klog, scr)
        = and_then (klog_show_now k' scr) (\<lambda>scr. Inr (apic_timer_set_handler 0xffffffff80002000 s, k', scr)))
      \<and> log_bytes k' = lastn 65535 (banner_text @ bytes ''boom'' @ (ESC # bytes ''[0m'') @ trace_header
        @ address_text 0 0xffffffff80001010 @ bytes '' (main)'' @ [10] @ address_text 1 0 @ bytes '' (Unknown Function)'')"
proof -
  have msg: "format_text (bytes ''boom'') [] = Inr (bytes ''boom'')" by (simp add: bytes_def)
  have pit: "\<forall>i. \<exists>j\<ge>i. 4 < snd (pit_reads small_panic j)"
  proof
    fix i show "\<exists>j\<ge>i. 4 < snd (pit_reads small_panic j)" by (rule exI [of _ "2 * i"]) (simp add: small_panic_def)
  qed
  have tab: "symtab_ok (symtab small_panic) small_symtab"
    by (simp add: symtab_ok_def small_panic_def small_symtab_def)
  have stack: "MEM_VIRT_OFFSET < frame_pointer small_panic"
    "frames_at small_stack (frame_pointer small_panic) ([0xffffffff80001010] @ [0])"
    using small_frames by (simp_all add: small_panic_def)
  have known: "\<forall>a\<in>set [0xffffffff80001010]. enclosing small_symtab a \<noteq> None" "enclosing small_symtab 0 = None"
    by (simp_all add: enclosing_def small_symtab_def)
  obtain k' where k': "\<forall>s scr. kernel_panic small_panic (bytes ''boom'') [] small_stack (s, empty_klog, scr)
        = and_then (klog_show_now k' scr) (\<lambda>scr. Inr (apic_timer_set_handler (halt_addr small_panic) s, k', scr))"
    "log_bytes k' = lastn 65535 (log_bytes empty_klog @ banner_text @ bytes ''boom'' @ (ESC # bytes ''[0m'') @ trace_header
        @ trace_text small_symtab 0 ([0xffffffff80001010] @ [0]))"
    using panic_names_callers [OF empty_klog_tmpbuf msg pit tab stack known] by (auto simp del: append.simps)
  have "trace_text small_symtab 0 ([0xffffffff80001010] @ [0])
      = address_text 0 0xffffffff80001010 @ bytes '' (main)'' @ [10] @ address_text 1 0 @ bytes '' (Unknown Function)''"
    by (simp add: enclosing_def small_symtab_def name_text_def bytes_def)
  then show ?thesis using k' by (intro exI [of _ k']) (simp add: empty_klog_bytes small_panic_def)
qed

end
