(* ===== verification/BootProps.thy ===== *)
theory BootProps
  imports Boot PanicProps
begin

text \<open>
  The first task, from the archive the boot loader left in memory to the text in the log: the boot tags, the
  unpacking, the virtual file system, the memory manager and the log together.
\<close>

section \<open>Showing a file\<close>

lemma int_arg_small:
  assumes "n < 2 ^ 31"
  shows "int_arg (of_nat n) = of_nat n"
proof -
  have "int_arg (of_nat n) = of_int (sint (ucast (of_nat n :: u64) :: u32))" by (simp add: int_arg_def)
  then show ?thesis using sint_length [OF assms] by simp
qed

definition read_text :: "u8 list \<Rightarrow> u8 list" where
  "read_text data = data @ [10] @ level_prefix LOG_INFO @ from_text ''kinit'' @ bytes ''bytes read: ''
     @ number_text 10 True (of_nat (length data)) @ [10]"

lemma test_path:
  "bytes ''/docs/test.txt'' = SLASH # dir_path [bytes ''docs''] @ bytes ''test.txt''"
  "good_name (bytes ''docs'')" "good_name (bytes ''test.txt'')"
  by (simp_all add: bytes_def good_name_def)

definition heading :: "u8 list" where
  "heading = level_prefix LOG_INFO @ from_text ''kinit'' @ bytes ''reading '' @ [34] @ bytes ''/docs/test.txt'' @ [34] @ bytes '':'' @ [10, 10]"

lemma padded_text:
  assumes "0 \<notin> set data" and "length data < 4096"
  shows "0 \<in> set (data @ drop (length data) (replicate 4096 (0 :: u8)))"
    and "takeWhile (\<lambda>c. c \<noteq> 0) (data @ drop (length data) (replicate 4096 (0 :: u8))) = data"
proof -
  obtain k where k: "4096 - length data = Suc k" using assms(2) by (metis Suc_diff_Suc)
  have eq: "drop (length data) (replicate 4096 (0 :: u8)) = 0 # replicate k 0"
    unfolding drop_replicate k by simp
  show "0 \<in> set (data @ drop (length data) (replicate 4096 (0 :: u8)))" unfolding eq by simp
  show "takeWhile (\<lambda>c. c \<noteq> 0) (data @ drop (length data) (replicate 4096 (0 :: u8))) = data"
    unfolding eq using assms(1) by (subst takeWhile_append2) auto
qed

lemma show_file_text:
  assumes ok: "vfs_ok (bs_vfs s)" and few: "few_objects (bs_vfs s)" and buf: "length (tmpbuf (bs_log s)) = 65"
    and node: "has_node (bs_vfs s) [bytes ''docs'', bytes ''test.txt''] VFS_NODE_FILE data"
    and data: "0 \<notin> set data" "length data < 4096"
  shows "\<exists>s'. show_file (bytes ''/docs/test.txt'') cur s = Inr s'
    \<and> log_bytes (bs_log s') = lastn 65535 (log_bytes (bs_log s) @ heading @ read_text data)"
proof -
  let ?p = "dir_path [bytes ''docs''] @ bytes ''test.txt''"
  have names: "\<forall>d\<in>set [bytes ''docs'']. good_name d" using test_path(2) by simp
  have short: "short_names ?p" by (rule good_path(1) [OF names test_path(3)])
  have comp: "components ?p = [bytes ''docs'', bytes ''test.txt'']"
    using components_dir_path [OF names test_path(3)] by simp
  have n: "length data \<le> unat (4096 :: u64)" using data(2) by simp
  obtain h v1 v2 where v: "vfs_open cur (bytes ''/docs/test.txt'') VFS_MODE_READ (bs_vfs s) = Inr (h, v1)"
    "vfs_read cur h 4096 v1 = Inr (of_nat (length data), data, v2)"
    using read_opened [OF ok few short node [folded comp] n, of cur] unfolding test_path(1) by blast
  have "short_path (bytes ''/docs/test.txt'')" unfolding test_path(1) using short by (simp add: short_path_def)
  then have "vfs_ok v1" using vfs_open_ok [OF ok few, of _ cur VFS_MODE_READ] v(1) by fastforce
  then have "vfs_ok v2" using vfs_read_ok v(2) by blast
  then obtain r v3 where v3: "vfs_close cur h v2 = Inr (r, v3)" using vfs_close_ok by blast
  let ?buff = "data @ drop (length data) (replicate 4096 0)" and ?n = "of_nat (length data) :: u64"
  have f1: "format_text (bytes ''reading '' @ [34] @ bytes ''/docs/test.txt'' @ [34] @ bytes '':'' @ [10, 10]) []
      = Inr (bytes ''reading '' @ [34] @ bytes ''/docs/test.txt'' @ [34] @ bytes '':'' @ [10, 10])"
    by (simp add: bytes_def)
  obtain k1 where k1: "klog_from LOG_INFO ''kinit'' (bytes ''reading '' @ [34] @ bytes ''/docs/test.txt'' @ [34] @ bytes '':'' @ [10, 10]) [] (bs_log s) = Inr k1"
    "printed heading (bs_log s) k1"
    using from_printed [OF buf f1, of LOG_INFO "''kinit''"] unfolding heading_def by blast
  have f2: "format_text (bytes ''%s'' @ [10]) [Str_Arg ?buff, Word_Arg ?n] = Inr (data @ [10])"
    using padded_text(2) [OF data] by (simp add: bytes_def directive_text_def)
  obtain k2 where k2: "klog_printf (bytes ''%s'' @ [10]) [Str_Arg ?buff, Word_Arg ?n] k1 = Inr k2" "printed (data @ [10]) k1 k2"
    using printf_printed [OF printed_tmpbuf [OF k1(2)] f2] by blast
  have "int_arg ?n = ?n" by (rule int_arg_small) (use data(2) in simp)
  then have f3: "format_text (bytes ''bytes read: %d'' @ [10]) [Word_Arg ?n]
      = Inr (bytes ''bytes read: '' @ number_text 10 True ?n @ [10])"
    by (simp add: bytes_def directive_text_def format_plain)
  obtain k3 where k3: "klog_from LOG_INFO ''kinit'' (bytes ''bytes read: %d'' @ [10]) [Word_Arg ?n] k2 = Inr k3"
    "printed (level_prefix LOG_INFO @ from_text ''kinit'' @ bytes ''bytes read: '' @ number_text 10 True ?n @ [10]) k2 k3"
    using from_printed [OF printed_tmpbuf [OF k2(2)] f3] by blast
  have "printed (heading @ read_text data) (bs_log s) k3"
    using printed_append [OF k1(2) printed_append [OF k2(2) k3(2)]] by (simp add: read_text_def)
  then have "log_bytes k3 = lastn 65535 (log_bytes (bs_log s) @ heading @ read_text data)" by (rule printed_log)
  moreover have "show_file (bytes ''/docs/test.txt'') cur s = Inr (s\<lparr>bs_log := k3, bs_vfs := v3\<rparr>)"
    using v v3 k1(1) k2(1) k3(1) padded_text(1) [OF data] by (simp add: show_file_def boot_say_def Let_def del: set_append)
  ultimately show ?thesis by auto
qed

section \<open>From the archive in memory to the text in the log\<close>

text \<open>What the boot loader hands over: the tag of the modules, and behind it the archive.\<close>

definition archive_ready :: "boot_env \<Rightarrow> boot_state \<Rightarrow> archive list \<Rightarrow> bool" where
  "archive_ready env s ts \<longleftrightarrow>
     (\<exists>tags md. tags_at (boot_mem s) (load64 (boot_mem s) (bootinfo env + 128)) tags
        \<and> first_tag (boot_mem s) STV2_STRUCT_TAG_MODULES_ID tags = Some md \<and> md \<noteq> 0
        \<and> is_string (boot_mem s) (md + 40) (bytes ''initrd'')
        \<and> (let start = load64 (boot_mem s) (md + 24); root = PHYS_TO_VIRT start
           in archive_at (boot_mem s) root root (Folder [] ts)
              \<and> no_wrap start (NUM_PAGES (load64 (boot_mem s) (md + 32) - start))))
     \<and> depth_all ts < stack_depth env \<and> length (bs_path s) = 1024 \<and> path_room (Folder [] ts) \<le> 1024 \<and> good_all ts"

text \<open>The file system \<open>vfs_init\<close> leaves, or a later one: a ramfs at the root that has room for the archive.\<close>

definition vfs_ready :: "vfs \<Rightarrow> archive list \<Rightarrow> bool" where
  "vfs_ready v ts \<longleftrightarrow> vfs_ok v \<and> (\<exists>e i. ram_dir v [] e i \<and> (\<forall>t\<in>set ts. entry v (label t) e = None))
     \<and> next_ref v + 4 * nodes_all ts < 2 ^ 31"

lemma vfs_ready_started:
  assumes "4 + 4 * nodes_all ts < 2 ^ 31"
  shows "vfs_ready (started_vfs jk) ts"
proof -
  have "ram_dir (started_vfs jk) [] 0 2"
    by (simp add: ram_dir_def started_vfs_def dir_at_def inode_of_def is_traversable_def)
  moreover have "\<forall>t\<in>set ts. entry (started_vfs jk) (label t) 0 = None"
    by (simp add: entry_def entries_def inode_of_def started_vfs_def)
  moreover have "next_ref (started_vfs jk) + 4 * nodes_all ts < 2 ^ 31" using assms by (simp add: started_vfs_def)
  ultimately show ?thesis using started_vfs_ok by (auto simp: vfs_ready_def)
qed

text \<open>So the state of the virtual file system at boot is ready for any archive that is not too large.\<close>

lemma vfs_ready_boot:
  assumes "vfs_init (boot_vfs jk) = Inr v" and "4 + 4 * nodes_all ts < 2 ^ 31"
  shows "vfs_ready v ts"
proof -
  have "v = started_vfs jk" using assms(1) by (simp add: vfs_init_eq)
  then show ?thesis using vfs_ready_started [OF assms(2)] by simp
qed

lemma note_printed:
  assumes "length (tmpbuf (bs_log s)) = 65" and "format_text (bytes msg @ [10]) [] = Inr t"
  obtains k where "boot_note lvl f msg s = Inr (s\<lparr>bs_log := k\<rparr>)" and "length (tmpbuf k) = 65"
proof -
  obtain k where k: "klog_from lvl f (bytes msg @ [10]) [] (bs_log s) = Inr k" "printed (level_prefix lvl @ from_text f @ t) (bs_log s) k"
    using from_printed [OF assms, of lvl f] by blast
  show thesis by (rule that [of k]) (simp_all add: boot_note_def boot_say_def k(1) printed_tmpbuf [OF k(2)])
qed

text \<open>The stage of the boot sequence that brings up the file system leaves it ready for the archive.\<close>

lemma init_files_ready:
  assumes "bs_vfs s = boot_vfs jk" and buf: "length (tmpbuf (bs_log s)) = 65" and few: "4 + 4 * nodes_all ts < 2 ^ 31"
  obtains s' where "init_files s = Inr s'" and "vfs_ready (bs_vfs s') ts" and "length (tmpbuf (bs_log s')) = 65"
proof -
  have f: "\<exists>t. format_text (bytes ''partial stub'' @ [10]) [] = Inr t" "\<exists>t. format_text (bytes ''done'' @ [10]) [] = Inr t"
    by (simp_all add: bytes_def)
  obtain k1 where k1: "boot_note LOG_WARN ''vfs_init'' ''partial stub'' s = Inr (s\<lparr>bs_log := k1\<rparr>)" "length (tmpbuf k1) = 65"
    using f(1) note_printed [OF buf] by metis
  let ?s1 = "s\<lparr>bs_log := k1\<rparr>" and ?args = "[Str_Arg (bytes ''<no-device>''), Str_Arg (bytes ''/''), Str_Arg (bytes ''ramfs'')]"
  have "\<exists>t. format_text (bytes ''mounted %s at %s as %s'' @ [10]) ?args = Inr t"
    by (simp add: bytes_def directive_text_def)
  then obtain k2 where k2: "klog_from LOG_INFO ''vfs_mount'' (bytes ''mounted %s at %s as %s'' @ [10]) ?args k1 = Inr k2"
    "length (tmpbuf k2) = 65"
    using from_printed [OF k1(2)] printed_tmpbuf by metis
  have b2: "length (tmpbuf (bs_log (?s1\<lparr>bs_log := k2\<rparr>))) = 65" using k2(2) by simp
  obtain k3 where k3: "boot_note LOG_SUCCESS ''vfs_init'' ''done'' (?s1\<lparr>bs_log := k2\<rparr>) = Inr (?s1\<lparr>bs_log := k2, bs_log := k3\<rparr>)"
    "length (tmpbuf k3) = 65"
    using f(2) note_printed [OF b2] by metis
  have "init_files s = Inr (s\<lparr>bs_log := k3, bs_vfs := started_vfs jk\<rparr>)"
    using k1(1) k2(1) k3(1) assms(1) by (simp add: init_files_def boot_say_def vfs_init_eq)
  then show thesis using that vfs_ready_started [OF few] k3(2) by simp
qed

lemma unpack_archive_holds:
  assumes ready: "archive_ready env s ts" and vfs: "vfs_ready (bs_vfs s) ts" and buf: "length (tmpbuf (bs_log s)) = 65"
  obtains s' t where "unpack_archive env cur s = Inr s'" and "holds_all (bs_vfs s') [] ts" and "vfs_ok (bs_vfs s')"
    and "few_objects (bs_vfs s')" and "printed t (bs_log s) (bs_log s')"
proof -
  let ?m = "boot_mem s"
  obtain tags md where t: "tags_at ?m (load64 ?m (bootinfo env + 128)) tags"
    "first_tag ?m STV2_STRUCT_TAG_MODULES_ID tags = Some md" "md \<noteq> 0" "is_string ?m (md + 40) (bytes ''initrd'')"
    and a: "archive_at ?m (PHYS_TO_VIRT (load64 ?m (md + 24))) (PHYS_TO_VIRT (load64 ?m (md + 24))) (Folder [] ts)"
    and w: "no_wrap (load64 ?m (md + 24)) (NUM_PAGES (load64 ?m (md + 32) - load64 ?m (md + 24)))"
    and l: "depth_all ts < stack_depth env" "length (bs_path s) = 1024" "path_room (Folder [] ts) \<le> 1024" "good_all ts"
    using ready by (auto simp: archive_ready_def Let_def)
  obtain e i where v: "vfs_ok (bs_vfs s)" "ram_dir (bs_vfs s) [] e i" "\<forall>t\<in>set ts. entry (bs_vfs s) (label t) e = None"
    "next_ref (bs_vfs s) + 4 * nodes_all ts < 2 ^ 31" using vfs by (auto simp: vfs_ready_def)
  have tag: "boot_tag env STV2_STRUCT_TAG_MODULES_ID s = Inr (md, s\<lparr>bs_log := bs_log s\<rparr>)"
    using t find_tag_list [OF t(1)] by (simp add: boot_tag_def stv2_find_struct_tag_def)
  obtain b v' where u: "initrd_helper (stack_depth env) ?m cur (PHYS_TO_VIRT (load64 ?m (md + 24)))
      (PHYS_TO_VIRT (load64 ?m (md + 24))) 0 (bs_path s, bs_vfs s) = Inr (b, v')"
    "holds_all v' [] ts" "vfs_ok v'" "few_objects v'"
    by (rule helper_holds [OF a l(1-3) v(1,2) l(4) v(3,4), of cur])
  obtain kn where kn: "pmm_free (load64 ?m (md + 24)) (NUM_PAGES (load64 ?m (md + 32) - load64 ?m (md + 24))) (kern (bs_machine s)) = Inr kn"
    using pmm_free_eq [OF w] by blast
  have "format_text (bytes ''done'' @ [10]) [] = Inr (bytes ''done'' @ [10])" by (simp add: bytes_def)
  then obtain k where k: "klog_from LOG_SUCCESS ''initrd_init'' (bytes ''done'' @ [10]) [] (bs_log s) = Inr k"
    "printed (level_prefix LOG_SUCCESS @ from_text ''initrd_init'' @ bytes ''done'' @ [10]) (bs_log s) k"
    using from_printed [OF buf] by blast
  have "unpack_archive env cur s = Inr (s\<lparr>bs_path := b, bs_vfs := v', bs_machine := (bs_machine s)\<lparr>kern := kn\<rparr>, bs_log := k\<rparr>)"
    using tag t(4) u(1) kn k(1) by (simp add: unpack_archive_def initrd_init_def Let_def)
  then show thesis using that u(2-4) k(2) by simp
qed

text \<open>C11: When the boot loader hands over a well-formed archive with a file \<open>docs/test.txt\<close> of less than 4096 bytes
  without a NUL, the first task unpacks it, opens the file through the virtual file system, reads it, and
  its bytes and their number are the last things in the log.\<close>

theorem kinit_prints_test_file:
  assumes ready: "archive_ready env s ts" and vfs: "vfs_ready (bs_vfs s) ts" and buf: "length (tmpbuf (bs_log s)) = 65"
    and inside: "([bytes ''docs'', bytes ''test.txt''], data) \<in> set (files_all [] ts)"
    and data: "0 \<notin> set data" "length data < 4096"
  shows "\<exists>s' before. kinit_read env cur s = Inr s'
    \<and> log_bytes (bs_log s') = lastn 65535 (log_bytes (bs_log s) @ before @ heading @ read_text data)"
proof -
  have "format_text (bytes ''first kernel task started'' @ [10]) [] = Inr (bytes ''first kernel task started'' @ [10])"
    by (simp add: bytes_def)
  then obtain k1 t1 where k1: "klog_from LOG_SUCCESS ''kinit'' (bytes ''first kernel task started'' @ [10]) [] (bs_log s) = Inr k1"
    "printed t1 (bs_log s) k1"
    using from_printed [OF buf] by blast
  let ?s1 = "s\<lparr>bs_log := k1\<rparr>"
  have "archive_ready env ?s1 ts" "vfs_ready (bs_vfs ?s1) ts" "length (tmpbuf (bs_log ?s1)) = 65"
    using ready vfs printed_tmpbuf [OF k1(2)] by (simp_all add: archive_ready_def)
  then obtain s2 t2 where s2: "unpack_archive env cur ?s1 = Inr s2" "holds_all (bs_vfs s2) [] ts" "vfs_ok (bs_vfs s2)"
    "few_objects (bs_vfs s2)" "printed t2 (bs_log ?s1) (bs_log s2)"
    by (rule unpack_archive_holds)
  have "format_text [10] [] = Inr [10]" by simp
  then obtain k3 where k3: "klog_printf [10] [] (bs_log s2) = Inr k3" "printed [10] (bs_log s2) k3"
    using printf_printed [OF printed_tmpbuf [OF s2(5)]] by blast
  let ?s3 = "s2\<lparr>bs_log := k3\<rparr>"
  have 3: "vfs_ok (bs_vfs ?s3)" "few_objects (bs_vfs ?s3)" "length (tmpbuf (bs_log ?s3)) = 65"
    "has_node (bs_vfs ?s3) [bytes ''docs'', bytes ''test.txt''] VFS_NODE_FILE data"
    using s2(3,4) printed_tmpbuf [OF k3(2)] holds_files(2) [OF s2(2) inside] by simp_all
  obtain s4 where s4: "show_file (bytes ''/docs/test.txt'') cur ?s3 = Inr s4"
    "log_bytes (bs_log s4) = lastn 65535 (log_bytes (bs_log ?s3) @ heading @ read_text data)"
    using show_file_text [OF 3 data, of cur] by blast
  have "printed (t1 @ t2 @ [10]) (bs_log s) k3"
    using printed_append [OF k1(2) printed_append [OF _ k3(2)], of t2] s2(5) by simp
  then have "log_bytes k3 = lastn 65535 (log_bytes (bs_log s) @ t1 @ t2 @ [10])" by (rule printed_log)
  then have "log_bytes (bs_log s4) = lastn 65535 (log_bytes (bs_log s) @ (t1 @ t2 @ [10]) @ heading @ read_text data)"
    using s4(2) by (simp add: lastn_append_lastn)
  moreover have "kinit_read env cur s = Inr s4"
    using k1(1) s2(1) k3(1) s4(1) by (simp add: kinit_read_def boot_say_def)
  ultimately show ?thesis by blast
qed

section \<open>A memory with an archive\<close>

text \<open>
  A memory with the boot information at 0x2000, the tag of the modules at 0x2100, and at 0x1000 an archive with
  the file \<open>docs/test.txt\<close> of two bytes.
\<close>

definition test_archive :: "archive list" where
  "test_archive = [Folder (bytes ''docs'') [File (bytes ''test.txt'') (bytes ''hi'')]]"

fun overlay :: "(u64 \<times> u8 list) list \<Rightarrow> mem" where
  "overlay [] x = 0"
| "overlay ((a, bs) # rs) x = (if a \<le> x \<and> unat (x - a) < length bs then bs ! unat (x - a) else overlay rs x)"

definition test_mem :: mem where
  "test_mem = overlay
     [(0xffff800000001000, [0x73, 0x6d, 0x70, 0x6c, 0x72, 0x63, 0x68, 0x76]), (0xffff800000001110, [1]),
      (0xffff800000001118, [1]), (0xffff800000001121, [2]),
      (0xffff800000001200, [0x73, 0x6d, 0x70, 0x6c, 0x72, 0x63, 0x68, 0x76]),
      (0xffff800000001210, [0x64, 0x6f, 0x63, 0x73]), (0xffff800000001310, [1]), (0xffff800000001318, [1]),
      (0xffff800000001321, [4]),
      (0xffff800000001400, [0x73, 0x6d, 0x70, 0x6c, 0x72, 0x63, 0x68, 0x76]),
      (0xffff800000001410, [0x74, 0x65, 0x73, 0x74, 0x2e, 0x74, 0x78, 0x74]), (0xffff800000001518, [2]),
      (0xffff800000001521, [6]), (0xffff800000001600, [0x68, 0x69]),
      (0xffff800000002081, [0x21]), (0xffff800000002100, [0xce, 0x04, 0xde, 0xaa, 0x66, 0xe4, 0x6f, 0x4b]),
      (0xffff800000002119, [0x10]), (0xffff800000002121, [0x20]), (0xffff800000002128, [0x69, 0x6e, 0x69, 0x74, 0x72, 0x64])]"

definition meets :: "u64 \<Rightarrow> u64 \<times> u8 list \<Rightarrow> bool" where
  "meets p = (\<lambda>(a, bs). unat a < unat p + 8 \<and> unat p < unat a + length bs)"

lemma overlay_filter:
  assumes "unat p + 8 < 2 ^ 64" and "k < 8"
  shows "overlay (filter (meets p) rs) (p + of_nat k) = overlay rs (p + of_nat k)"
proof (induction rs)
  case (Cons r rs)
  obtain a bs where r: "r = (a, bs)" by (cases r)
  let ?x = "p + of_nat k"
  have x: "unat ?x = unat p + k" using assms by (subst unat_add_lt) (simp_all add: unat_of_nat64)
  have "\<not> (a \<le> ?x \<and> unat (?x - a) < length bs)" if "\<not> meets p r"
  proof
    assume a: "a \<le> ?x \<and> unat (?x - a) < length bs"
    then have "unat a \<le> unat p + k" "unat (?x - a) = unat p + k - unat a"
      using x unat_sub [of a ?x] by (simp_all add: word_le_nat_alt)
    then have "unat a \<le> unat p + k" "unat p + k - unat a < length bs" using a by simp_all
    then show False using that assms(2) by (simp add: meets_def r)
  qed
  then show ?case using Cons by (auto simp: r)
qed simp

lemma load_filter: "unat p + 8 < 2 ^ 64 \<Longrightarrow> load64 (overlay rs) p = load64 (overlay (filter (meets p) rs)) p"
  by (rule load_le_cong) (simp add: overlay_filter)

lemma test_fields:
  "load64 test_mem 0xffff800000001000 = 0x766863726c706d73" "load64 test_mem 0xffff800000001110 = 1"
  "load64 test_mem 0xffff800000001118 = 1" "load64 test_mem 0xffff800000001120 = 0x200"
  "load64 test_mem 0xffff800000001200 = 0x766863726c706d73" "load64 test_mem 0xffff800000001310 = 1"
  "load64 test_mem 0xffff800000001318 = 1" "load64 test_mem 0xffff800000001320 = 0x400"
  "load64 test_mem 0xffff800000001400 = 0x766863726c706d73" "load64 test_mem 0xffff800000001510 = 0"
  "load64 test_mem 0xffff800000001518 = 2" "load64 test_mem 0xffff800000001520 = 0x600"
  unfolding test_mem_def by (subst load_filter; simp add: meets_def load64_bytes)+

lemma test_tag:
  "load64 test_mem 0xffff800000002080 = 0x2100" "load64 test_mem 0xffff800000002100 = 0x4b6fe466aade04ce"
  "load64 test_mem 0xffff800000002108 = 0" "load64 test_mem 0xffff800000002118 = 0x1000"
  "load64 test_mem 0xffff800000002120 = 0x2000"
  unfolding test_mem_def by (subst load_filter; simp add: meets_def load64_bytes)+

lemma test_name: "is_string test_mem 0xffff800000002128 (bytes ''initrd'')"
  by (simp add: is_string_def test_mem_def bytes_def mem_bytes_def upt_rec)

lemma test_names:
  "cstring_at test_mem 0xffff800000001010 []" "cstring_at test_mem 0xffff800000001210 (bytes ''docs'')"
  "cstring_at test_mem 0xffff800000001410 (bytes ''test.txt'')"
  "mem_bytes test_mem 0xffff800000001600 (length (bytes ''hi'')) = bytes ''hi''"
  by (simp_all add: test_mem_def bytes_def mem_bytes_def upt_rec)

lemma test_archive_at: "archive_at test_mem 0xffff800000001000 0xffff800000001000 (Folder [] test_archive)"
  using test_names test_fields
  by (simp add: test_archive_def saf_magic_def saf_name_def saf_flags_def saf_file_size_def saf_file_addr_def
      saf_num_children_def saf_child_def SAF_MAGIC_NUMBER_def SAF_FLAG_ISFOLDER_def bytes_def)

theorem kinit_prints_test_file_witness:
  "\<forall>(env :: boot_env) (s :: boot_state). \<exists>s' before. kinit_read (env\<lparr>bootinfo := 0xffff800000002000, stack_depth := 4\<rparr>) 0
      (s\<lparr>bs_machine := (bs_machine s)\<lparr>kern := (kern (bs_machine s))\<lparr>mem := test_mem\<rparr>\<rparr>, bs_log := empty_klog,
         bs_vfs := started_vfs (\<lambda>_. 0), bs_path := replicate 1024 0\<rparr>) = Inr s'
    \<and> log_bytes (bs_log s') = lastn 65535 (before @ heading @ read_text (bytes ''hi''))"
proof (intro allI)
  fix env :: boot_env and s :: boot_state
  let ?env = "env\<lparr>bootinfo := 0xffff800000002000, stack_depth := 4\<rparr>"
  let ?s = "s\<lparr>bs_machine := (bs_machine s)\<lparr>kern := (kern (bs_machine s))\<lparr>mem := test_mem\<rparr>\<rparr>, bs_log := empty_klog,
         bs_vfs := started_vfs (\<lambda>_. 0), bs_path := replicate 1024 0\<rparr>"
  have tags: "tags_at test_mem 0x2100 [0x2100]" "first_tag test_mem STV2_STRUCT_TAG_MODULES_ID [0x2100] = Some 0xffff800000002100"
    using test_tag by (simp_all add: PHYS_TO_VIRT_def first_tag_def STV2_STRUCT_TAG_MODULES_ID_def)
  have wrap: "no_wrap 0x1000 (NUM_PAGES 0x1000)" by (simp add: no_wrap_def NUM_PAGES_def)
  have "good_all test_archive" "depth_all test_archive < 4" "path_room (Folder [] test_archive) \<le> 1024"
    by (simp_all add: test_archive_def good_name_def bytes_def)
  then have "archive_ready ?env ?s test_archive"
    using tags test_name wrap test_tag test_archive_at
    by (simp add: archive_ready_def PHYS_TO_VIRT_def exI [of _ "[0x2100]"] exI [of _ "0xffff800000002100"])
  moreover have "vfs_ready (bs_vfs ?s) test_archive"
    using vfs_ready_started [of test_archive] by (simp add: test_archive_def)
  moreover have "length (tmpbuf (bs_log ?s)) = 65" using empty_klog_tmpbuf by simp
  moreover have "([bytes ''docs'', bytes ''test.txt''], bytes ''hi'') \<in> set (files_all [] test_archive)"
    by (simp add: test_archive_def)
  moreover have "0 \<notin> set (bytes ''hi'')" "length (bytes ''hi'') < 4096" by (simp_all add: bytes_def)
  moreover have "log_bytes (bs_log ?s) = []" by (simp add: empty_klog_bytes)
  ultimately show "\<exists>s' before. kinit_read ?env 0 ?s = Inr s'
      \<and> log_bytes (bs_log s') = lastn 65535 (before @ heading @ read_text (bytes ''hi''))"
    using kinit_prints_test_file [of ?env ?s test_archive "bytes ''hi''" 0] by simp
qed

end
