(* ===== verification/Spec2Isabelle.thy ===== *)
theory Spec2Isabelle
  imports Vector KlogShow Locks SerialProps BootProps
begin

text \<open>
  Aeolos is a small x86-64 kernel in C: physical and virtual memory, a heap, tasks with a preemptive
  round-robin scheduler on several processors, a virtual file system with two drivers, a log, a text terminal,
  and what brings them up on a machine. This development translates the C files under \<open>src/kernel\<close> into
  HOL definitions, one per function, and proves what the functions are for. This root theory imports all others.

  \<^bold>\<open>How code becomes definitions.\<close> Machine integers keep their width (\<open>u8\<close>, \<open>u16\<close>, \<open>u32\<close>, \<open>u64\<close> are words,
  with wrap-around). A structure is a \<open>record\<close>, an enumeration a \<open>datatype\<close>, memory a function from 64-bit
  addresses to bytes. The static variables of a file are a record that its operations take and return. A function
  that can go wrong returns \<open>'a result\<close>, that is \<open>fault + 'a\<close>: the left values are the faults (\<open>Null_Deref\<close>,
  \<open>Dangling\<close>, \<open>Out_Of_Bounds\<close>, \<open>Undefined_Behaviour\<close>, \<open>Kernel_Panic\<close>, \<open>Diverges\<close>), \<open>and_then\<close> is sequencing. Return codes
  such as -1 are ordinary values. Text that depends on where the linker puts something, on the raw contents of
  fresh memory, or on what a device answers is a parameter: a clock is a function of the number of the
  reading, a port a list of writes and a function of readings. Operations that run under a lock are one step.

  \<^bold>\<open>The parts\<close>, bottom up, with their theories.
  \<^item> \<open>Aeolos_Prelude\<close>: words, results, the page-stepping loops, lists; the collection \<open>res_simps\<close>. \<open>Interfaces\<close>: the
    contracts between parts as locales (\<open>frame_allocator\<close>, \<open>page_mapper\<close>, \<open>growable_array\<close>, \<open>linked_queue\<close>, \<open>fs_driver\<close>
    and its extension \<open>storage_driver\<close>), each interpreted on the definitions of the part that provides it.
  \<^item> \<open>Memutils\<close> (\<open>lib/memutils.c\<close>): the byte and string routines; little-endian loads and stores.
  \<^item> \<open>Pmm\<close>, \<open>PmmInit\<close> (\<open>mm/pmm.c\<close>): the bitmap of frames is in memory; \<open>frames s\<close> is the set it represents. Search, free and
    take are shown to implement operations on that set; \<open>pmm_init\<close> establishes the invariant from a memory map.
  \<^item> \<open>Kmalloc\<close> (\<open>lib/kmalloc.c\<close>): blocks of pages behind a page of metadata; \<open>heap_ok\<close> is the invariant. \<open>Vector\<close>
    (\<open>lib/vector.h\<close>): the array macros on that heap, as lists.
  \<^item> \<open>Vmm\<close>, \<open>VmmTree\<close>, \<open>VmmSteps\<close>, \<open>VmmMap\<close>, \<open>VmmProps\<close>, \<open>VmmInit\<close> (\<open>mm/vmm.c\<close>): four-level tables in frames. \<open>space_ok\<close> says
    that the tables form a tree of frames in use; \<open>mapping\<close> is the abstract address space, a function of the page number
    that \<open>vmm_map\<close> and \<open>vmm_unmap\<close> update; \<open>translate\<close> is the walk of the hardware.
  \<^item> \<open>Tqueue\<close>, \<open>Sched\<close>, \<open>SchedInv\<close>, \<open>SchedSafe\<close>, \<open>SchedSteps\<close>, \<open>SchedProps\<close>, \<open>Preempt\<close> (\<open>proc/task.c\<close>, \<open>proc/sched/\<close>): tasks are
    objects on a heap with links; \<open>tq_rep\<close> gives the list a queue represents. \<open>sched_inv\<close> relates queues, table, status bits and
    processors; \<open>sched_step\<close> is one operation of any processor and \<open>reachable\<close> its closure. \<open>Preempt\<close> adds the timer of the
    processor: the switch that the interrupt enters programs the next time slice and acknowledges.
  \<^item> \<open>VfsStore\<close>, \<open>Vfs\<close>, \<open>Ramfs\<close>, \<open>Ttyfs\<close>, \<open>FsDrivers\<close>, and the proofs in \<open>VfsInv\<close>, \<open>VfsTree\<close>, \<open>VfsLink\<close>, \<open>VfsSafe\<close>, \<open>VfsProps\<close>,
    \<open>VfsFiles\<close>, with the examples of \<open>VfsExample\<close> (\<open>fs/\<close>): inodes, names, descriptors and driver data are typed stores
    with references that may dangle; \<open>vfs_ok\<close> is the invariant. Paths, links, mounts, reading and writing.
  \<^item> \<open>Klog\<close>, \<open>KlogFormat\<close>, \<open>KlogShow\<close>, \<open>SerialProps\<close> (\<open>lib/klog.c\<close>, \<open>dev/serial/\<close>): the ring of bytes, \<open>printf\<close> against the text
    of a format, the log on the terminal and on the port. \<open>Fb\<close>, \<open>Terminal\<close>, \<open>TermDraw\<close>, \<open>TermText\<close>, \<open>TermProps\<close> (\<open>dev/fb/\<close>, \<open>dev/term/\<close>):
    pixels in the back buffer, and the terminal as a grid of coloured characters that they implement.
  \<^item> \<open>Locks\<close> (\<open>lib/atomic.h\<close>, \<open>lib/atomic.c\<close>): the readers-writer lock by the atomic accesses of its two spinlocks, as
    interleaved steps of any number of processors.
  \<^item> \<open>Acpi\<close>, \<open>AcpiProps\<close> (\<open>boot/stivale2.c\<close>, \<open>sys/acpi/\<close>), \<open>CpuSetup\<close>, \<open>CpuProps\<close> (\<open>sys/gdt.c\<close>, \<open>sys/idt.c\<close>, \<open>sys/cpu/\<close>, \<open>lib/random.c\<close>), \<open>Apic\<close>
    (\<open>sys/apic/\<close>, \<open>sys/hpet.c\<close>), \<open>Smp\<close>, \<open>SmpProps\<close> (\<open>sys/smp/smp.c\<close>), \<open>Ports\<close> (\<open>sys/pit.c\<close>, \<open>dev/serial/serial.c\<close>): tables of the
    firmware, tables of the processor, interrupt controller, clocks, and the start of the other processors.
  \<^item> \<open>Panic\<close>, \<open>PanicProps\<close> (\<open>sys/panic.c\<close>, \<open>sys/exc_handler.c\<close>, \<open>sys/syscall.c\<close>): what a panic prints, and the stack trace.
  \<^item> \<open>Initrd\<close>, \<open>InitrdProps\<close>, \<open>InitrdFiles\<close> (\<open>boot/initrd/\<close>): the archive in memory and its unpacking into the file system.
  \<^item> \<open>Boot\<close>, \<open>BootProps\<close> (\<open>kmain.c\<close>): the record of all parts, \<open>kmain\<close> and the first task \<open>kinit\<close>.

  \<^bold>\<open>What is shown.\<close> Scheduler: in every reachable state no task runs on two processors and a switch never faults; round robin
  reaches every ready task; due sleepers wake; a started processor is preempted for ever. File system: no operation follows a
  dangling reference (but for unlinking the root), reference counts are exact, paths resolve as their components say, and
  what is written is read back. Memory: from the memory map of the boot loader the allocator comes up in order, allocation and
  freeing are right with respect to the set of free frames, and mapping refines the update of an address space. Log and
  terminal: the text of a format is what is printed, and the grid is what is drawn. Locks: mutual exclusion and bounded
  sections. Boot: the files of the archive are readable under their paths, and the first task prints the one it shows.
  The properties carry the identifiers C1 to C40, in the order of their importance; a witness behind a property
  applies it to a concrete state. Some properties state what the code does wrong where it does (the janitor, stale interrupt
  flags, the parameters of escape sequences).

  \<^bold>\<open>Bounds and fuel.\<close> Loops that may not end (polling, walks over tables of the firmware, sleeping, the janitor's queue) are
  partial functions into \<open>option\<close>, and \<open>None\<close> becomes \<open>Diverges\<close>; that they end is proved under a stated
  condition. Two recursions have fuel: \<open>initrd_helper\<close> and \<open>dumpnodes_helper\<close> take the number of nested calls; more than the depth of the
  archive is enough (\<open>helper_unpacks\<close>), and running out is the overflow of the kernel stack, reported as \<open>Diverges\<close>.
  Physical memory is assumed to end below 2 to the 47, where the direct map ends; thread ids stay below the 65537 the
  code allows; counts of file-system objects stay below 2 to the 31, the width of a reference count.

  \<^bold>\<open>Not modelled.\<close> Assembly (saving and loading of registers, the trampoline, interrupt stubs), the header for the boot loader,
  the build files and the data they include (font, symbol table: parameters). Memory of the file system and of tasks is not
  bytes but typed objects, so exhaustion of the heap inside them does not occur; messages about failed
  operations of the scheduler and the file system are left out, since the log is not in their state (those of the boot sequence are in \<open>Boot\<close>),
  and so is the state of the caches of address translation. Each locked operation is one
  step; \<open>Locks\<close> treats the lock itself. Interrupts between the steps of one processor are not considered.
\<close>

end
